(* ===== verification/Mindos_Prelude.thy ===== *)
theory Mindos_Prelude
  imports Main "HOL-Library.Word"
begin

text \<open>
  Shared vocabulary of the development: the machine integers of the Rust sources, the kernel's
  \<open>Errno\<close> and \<open>Result\<close> (src/research/kernel-rs/kernel/src/mm/errno.rs), the collections of
  lemmas the component theories fill and use, and generic facts about lists and circular arrays
  that more than one component needs.
\<close>

unbundle bit_operations_syntax

named_theorems result_simps \<open>case analysis of fallible operations\<close>
named_theorems inv_intros \<open>preservation of well-formedness invariants\<close>

section \<open>Machine integers\<close>

type_synonym u8 = "8 word"
type_synonym u16 = "16 word"
type_synonym u32 = "32 word"
type_synonym u64 = "64 word"

text \<open>On x86-64 \<open>usize\<close> and \<open>u64\<close> are both 64 bits wide.\<close>

type_synonym usize = "64 word"

lemma unat_add_of_nat_mod:
  fixes x :: u64
  assumes "n dvd 2 ^ 64"
  shows "unat (x + of_nat i) mod n = (unat x + i) mod n"
proof -
  have "unat (x + of_nat i) mod n = (unat x + i mod 2 ^ 64) mod 2 ^ 64 mod n"
    by (simp add: unat_word_ariths unat_of_nat)
  also have "\<dots> = (unat x + i mod 2 ^ 64) mod n"
    using assms by (rule mod_mod_cancel)
  also have "\<dots> = (unat x + i mod 2 ^ 64 mod n) mod n"
    by (metis mod_add_right_eq)
  also have "\<dots> = (unat x + i mod n) mod n"
    using assms by (simp add: mod_mod_cancel)
  finally show ?thesis
    by (simp add: mod_add_right_eq)
qed

section \<open>Errors and results of the kernel\<close>

datatype errno = Errno (errno_code: u32)

definition as_ret :: "errno \<Rightarrow> u64" where
  "as_ret e = - scast (errno_code e)"

text \<open>The named error numbers of the \<open>errnos!\<close> table that the modelled code returns.\<close>

abbreviation EPERM :: errno where "EPERM \<equiv> Errno 1"
abbreviation ENOENT :: errno where "ENOENT \<equiv> Errno 2"
abbreviation EINTR :: errno where "EINTR \<equiv> Errno 4"
abbreviation EIO :: errno where "EIO \<equiv> Errno 5"
abbreviation ENXIO :: errno where "ENXIO \<equiv> Errno 6"
abbreviation EBADF :: errno where "EBADF \<equiv> Errno 9"
abbreviation EAGAIN :: errno where "EAGAIN \<equiv> Errno 11"
abbreviation ENOMEM :: errno where "ENOMEM \<equiv> Errno 12"
abbreviation EACCES :: errno where "EACCES \<equiv> Errno 13"
abbreviation EFAULT :: errno where "EFAULT \<equiv> Errno 14"
abbreviation EEXIST :: errno where "EEXIST \<equiv> Errno 17"
abbreviation EXDEV :: errno where "EXDEV \<equiv> Errno 18"
abbreviation ENODEV :: errno where "ENODEV \<equiv> Errno 19"
abbreviation ENOTDIR :: errno where "ENOTDIR \<equiv> Errno 20"
abbreviation EISDIR :: errno where "EISDIR \<equiv> Errno 21"
abbreviation EINVAL :: errno where "EINVAL \<equiv> Errno 22"
abbreviation EMFILE :: errno where "EMFILE \<equiv> Errno 24"
abbreviation ENOTTY :: errno where "ENOTTY \<equiv> Errno 25"
abbreviation ENOSPC :: errno where "ENOSPC \<equiv> Errno 28"
abbreviation EPIPE :: errno where "EPIPE \<equiv> Errno 32"
abbreviation ENAMETOOLONG :: errno where "ENAMETOOLONG \<equiv> Errno 36"
abbreviation ENOSYS :: errno where "ENOSYS \<equiv> Errno 38"
abbreviation ENOTEMPTY :: errno where "ENOTEMPTY \<equiv> Errno 39"
abbreviation ELOOP :: errno where "ELOOP \<equiv> Errno 40"
abbreviation ETIMEDOUT :: errno where "ETIMEDOUT \<equiv> Errno 110"
abbreviation ERESTARTSYS :: errno where "ERESTARTSYS \<equiv> Errno 512"

text \<open>\<open>Result<T>\<close> is a sum with the error on the left.\<close>

type_synonym 'a kresult = "errno + 'a"

section \<open>Circular arrays\<close>

text \<open>
  The \<open>n\<close> elements of a circular array that start at index \<open>h\<close>. Both byte queues of the
  kernel (util/ringbuf.rs and fs/pipe.rs) store their contents this way.
\<close>

definition ring_slice :: "'a list \<Rightarrow> nat \<Rightarrow> nat \<Rightarrow> 'a list" where
  "ring_slice buf h n = map (\<lambda>i. buf ! ((h + i) mod length buf)) [0..<n]"

lemma length_ring_slice [simp]: "length (ring_slice buf h n) = n"
  by (simp add: ring_slice_def)

lemma ring_slice_0 [simp]: "ring_slice buf h 0 = []"
  by (simp add: ring_slice_def)

lemma nth_ring_slice [simp]:
  "i < n \<Longrightarrow> ring_slice buf h n ! i = buf ! ((h + i) mod length buf)"
  by (simp add: ring_slice_def)

lemma ring_slice_mod: "ring_slice buf (h mod length buf) n = ring_slice buf h n"
  by (rule nth_equalityI) (simp_all add: mod_add_left_eq)

lemma mod_add_inj:
  fixes i j n h :: nat
  assumes "i < n" "j < n" "(h + i) mod n = (h + j) mod n"
  shows "i = j"
proof -
  have ordered: "a = b" if "a \<le> b" "b < n" "(h + a) mod n = (h + b) mod n" for a b
  proof -
    have "n dvd (h + b) - (h + a)"
      using that by (subst mod_eq_dvd_iff_nat [symmetric]) simp_all
    then have "n dvd b - a" by simp
    moreover have "b - a < n" using that by simp
    ultimately show ?thesis using that(1) nat_dvd_not_less by fastforce
  qed
  show ?thesis
    using ordered [of i j] ordered [of j i] assms by (cases "i \<le> j") simp_all
qed

lemma ring_slice_snoc:
  "ring_slice buf h (Suc n) = ring_slice buf h n @ [buf ! ((h + n) mod length buf)]"
  by (simp add: ring_slice_def)

lemma ring_slice_update_outside:
  assumes "n \<le> m" "m < length buf"
  shows "ring_slice (buf[(h + m) mod length buf := b]) h n = ring_slice buf h n"
proof (rule nth_equalityI)
  fix i assume "i < length (ring_slice (buf[(h + m) mod length buf := b]) h n)"
  then have i: "i < n" by simp
  then have "(h + m) mod length buf \<noteq> (h + i) mod length buf"
    using assms mod_add_inj [of i "length buf" m h] by auto
  with i show "ring_slice (buf[(h + m) mod length buf := b]) h n ! i = ring_slice buf h n ! i"
    by simp
qed simp

text \<open>Writing the slot just past the end extends the slice by that element.\<close>

lemma ring_slice_extend:
  assumes "n < length buf"
  shows "ring_slice (buf[(h + n) mod length buf := b]) h (Suc n) = ring_slice buf h n @ [b]"
proof -
  have "(h + n) mod length buf < length buf"
    using assms by (intro mod_less_divisor) linarith
  then show ?thesis
    using assms by (simp add: ring_slice_snoc ring_slice_update_outside)
qed

text \<open>Advancing the start by \<open>k\<close> drops \<open>k\<close> elements.\<close>

lemma drop_ring_slice:
  "k \<le> n \<Longrightarrow> drop k (ring_slice buf h n) = ring_slice buf (h + k) (n - k)"
  by (rule nth_equalityI) (simp_all add: add.assoc)

lemma take_ring_slice: "k \<le> n \<Longrightarrow> take k (ring_slice buf h n) = ring_slice buf h k"
  by (rule nth_equalityI) simp_all

lemma ring_slice_Suc:
  "ring_slice buf h (Suc n) = buf ! (h mod length buf) # ring_slice buf (Suc h) n"
  by (rule nth_equalityI) (auto simp: nth_Cons split: nat.split)

end
