(* ===== verification/Byte_Fifo.thy ===== *)
theory Byte_Fifo
  imports Mindos_Prelude
begin

text \<open>
  The contract of a bounded byte queue, stated once for the two implementations of the kernel:
  \<open>RingBuf\<close> (util/ringbuf.rs) and the buffer inside \<open>Pipe\<close> (fs/pipe.rs). A bulk write accepts
  as many bytes as there is room for and says how many; a bulk read takes bytes from the front.
  What a client can rely on over any sequence of operations is proved here from that contract.
\<close>

datatype fifo_op = Put "u8 list" | Get nat

text \<open>
  Run a sequence of operations: the bytes the queue accepted, the bytes it delivered, and the
  queue at the end.
\<close>

fun fifo_run :: "('q \<Rightarrow> u8 list \<Rightarrow> nat \<times> 'q) \<Rightarrow> ('q \<Rightarrow> nat \<Rightarrow> u8 list \<times> 'q) \<Rightarrow> 'q \<Rightarrow> fifo_op list
    \<Rightarrow> u8 list \<times> u8 list \<times> 'q" where
  "fifo_run wr rd q [] = ([], [], q)"
| "fifo_run wr rd q (Put bs # ops) =
     (let (n, q') = wr q bs; (acc, del, q'') = fifo_run wr rd q' ops in (take n bs @ acc, del, q''))"
| "fifo_run wr rd q (Get n # ops) =
     (let (bs, q') = rd q n; (acc, del, q'') = fifo_run wr rd q' ops in (acc, bs @ del, q''))"

locale byte_fifo =
  fixes wr :: "'q \<Rightarrow> u8 list \<Rightarrow> nat \<times> 'q"
    and rd :: "'q \<Rightarrow> nat \<Rightarrow> u8 list \<times> 'q"
    and contents :: "'q \<Rightarrow> u8 list"
    and room :: "'q \<Rightarrow> nat"
    and invar :: "'q \<Rightarrow> bool"
  assumes wr_count: "invar q \<Longrightarrow> fst (wr q bs) = min (length bs) (room q)"
    and wr_contents: "invar q \<Longrightarrow> contents (snd (wr q bs)) = contents q @ take (fst (wr q bs)) bs"
    and wr_room: "invar q \<Longrightarrow> room (snd (wr q bs)) = room q - fst (wr q bs)"
    and wr_invar: "invar q \<Longrightarrow> invar (snd (wr q bs))"
    and rd_bytes: "invar q \<Longrightarrow> fst (rd q n) = take n (contents q)"
    and rd_contents: "invar q \<Longrightarrow> contents (snd (rd q n)) = drop n (contents q)"
    and rd_room: "invar q \<Longrightarrow> room (snd (rd q n)) = room q + length (fst (rd q n))"
    and rd_invar: "invar q \<Longrightarrow> invar (snd (rd q n))"
begin

lemma wr_all: "invar q \<Longrightarrow> length bs \<le> room q \<Longrightarrow> contents (snd (wr q bs)) = contents q @ bs"
  by (simp add: wr_contents wr_count)

lemma run_invar: "invar q \<Longrightarrow> invar (snd (snd (fifo_run wr rd q ops)))"
proof (induction ops arbitrary: q)
  case (Cons op ops)
  show ?case
  proof (cases op)
    case (Put bs)
    with Cons.IH [OF wr_invar [OF Cons.prems]] show ?thesis
      by (auto simp: split_def Let_def)
  next
    case (Get n)
    with Cons.IH [OF rd_invar [OF Cons.prems]] show ?thesis
      by (auto simp: split_def Let_def)
  qed
qed simp

text \<open>
  Stream integrity: what was inside followed by what was accepted is exactly what came out
  followed by what is still inside. Nothing is lost, duplicated or reordered.
\<close>

lemma run_stream:
  assumes "invar q" "fifo_run wr rd q ops = (acc, del, q')"
  shows "contents q @ acc = del @ contents q'"
  using assms
proof (induction ops arbitrary: q acc del)
  case (Cons op ops)
  show ?case
  proof (cases op)
    case (Put bs)
    then obtain n q1 acc1 where w: "wr q bs = (n, q1)"
      and r: "fifo_run wr rd q1 ops = (acc1, del, q')" and acc: "acc = take n bs @ acc1"
      using Cons.prems(2) by (auto simp: split_def Let_def prod_eq_iff)
    have "invar q1" "contents q1 = contents q @ take n bs"
      using wr_invar [OF Cons.prems(1), of bs] wr_contents [OF Cons.prems(1), of bs] w by auto
    then show ?thesis using Cons.IH [OF _ r] acc by simp
  next
    case (Get n)
    then obtain bs q1 del1 where w: "rd q n = (bs, q1)"
      and r: "fifo_run wr rd q1 ops = (acc, del1, q')" and del: "del = bs @ del1"
      using Cons.prems(2) by (auto simp: split_def Let_def prod_eq_iff)
    have "invar q1" "contents q = bs @ contents q1"
      using rd_invar [OF Cons.prems(1), of n] rd_contents [OF Cons.prems(1), of n]
        rd_bytes [OF Cons.prems(1), of n] w by auto
    then show ?thesis using Cons.IH [OF _ r] del by simp
  qed
qed simp

text \<open>The room lost to accepted bytes and regained by delivered ones is conserved.\<close>

lemma run_room:
  assumes "invar q" "fifo_run wr rd q ops = (acc, del, q')"
  shows "room q' + length acc = room q + length del"
  using assms
proof (induction ops arbitrary: q acc del)
  case (Cons op ops)
  show ?case
  proof (cases op)
    case (Put bs)
    then obtain n q1 acc1 where w: "wr q bs = (n, q1)"
      and r: "fifo_run wr rd q1 ops = (acc1, del, q')" and acc: "acc = take n bs @ acc1"
      using Cons.prems(2) by (auto simp: split_def Let_def prod_eq_iff)
    have "invar q1" "room q1 = room q - n" "n = min (length bs) (room q)"
      using wr_invar [OF Cons.prems(1), of bs] wr_room [OF Cons.prems(1), of bs]
        wr_count [OF Cons.prems(1), of bs] w by auto
    then show ?thesis using Cons.IH [OF _ r] acc by simp
  next
    case (Get n)
    then obtain bs q1 del1 where w: "rd q n = (bs, q1)"
      and r: "fifo_run wr rd q1 ops = (acc, del1, q')" and del: "del = bs @ del1"
      using Cons.prems(2) by (auto simp: split_def Let_def prod_eq_iff)
    have "invar q1" "room q1 = room q + length bs"
      using rd_invar [OF Cons.prems(1), of n] rd_room [OF Cons.prems(1), of n] w by auto
    then show ?thesis using Cons.IH [OF _ r] del by simp
  qed
qed simp

end

end
