(* ===== verification/Ringbuf.thy ===== *)
theory Ringbuf
  imports Byte_Fifo
begin

text \<open>
  \<open>RingBuf<N>\<close> of src/research/kernel-rs/kernel/src/util/ringbuf.rs: a fixed array and two
  free-running 64-bit indices that are only reduced modulo \<open>N\<close> when the array is accessed.
  The constant \<open>N\<close> is the length of the array. The indices are words, so their wrap-around at
  \<open>2 ^ 64\<close> is part of the model.
\<close>

record ringbuf =
  rb_buf :: "u8 list"
  rb_head :: usize
  rb_tail :: usize

definition rb_new :: "nat \<Rightarrow> ringbuf" where
  "rb_new n = \<lparr>rb_buf = replicate n 0, rb_head = 0, rb_tail = 0\<rparr>"

definition rb_len :: "ringbuf \<Rightarrow> usize" where
  "rb_len r = rb_head r - rb_tail r"

definition rb_is_empty :: "ringbuf \<Rightarrow> bool" where
  "rb_is_empty r \<longleftrightarrow> rb_head r = rb_tail r"

definition rb_capacity :: "ringbuf \<Rightarrow> usize" where
  "rb_capacity r = of_nat (length (rb_buf r))"

definition rb_is_full :: "ringbuf \<Rightarrow> bool" where
  "rb_is_full r \<longleftrightarrow> rb_len r = rb_capacity r"

definition rb_space :: "ringbuf \<Rightarrow> usize" where
  "rb_space r = rb_capacity r - rb_len r"

definition rb_push :: "ringbuf \<Rightarrow> u8 \<Rightarrow> bool \<times> ringbuf" where
  "rb_push r b =
     (if rb_is_full r then (False, r)
      else (True, r\<lparr>rb_buf := (rb_buf r)[unat (rb_head r) mod length (rb_buf r) := b],
                    rb_head := rb_head r + 1\<rparr>))"

definition rb_pop :: "ringbuf \<Rightarrow> u8 option \<times> ringbuf" where
  "rb_pop r =
     (if rb_is_empty r then (None, r)
      else (Some (rb_buf r ! (unat (rb_tail r) mod length (rb_buf r))),
            r\<lparr>rb_tail := rb_tail r + 1\<rparr>))"

definition rb_peek :: "ringbuf \<Rightarrow> u8 option" where
  "rb_peek r =
     (if rb_is_empty r then None
      else Some (rb_buf r ! (unat (rb_tail r) mod length (rb_buf r))))"

fun rb_write :: "ringbuf \<Rightarrow> u8 list \<Rightarrow> nat \<times> ringbuf" where
  "rb_write r [] = (0, r)"
| "rb_write r (b # bs) =
     (case rb_push r b of
        (False, r') \<Rightarrow> (0, r')
      | (True, r') \<Rightarrow> (let (n, r'') = rb_write r' bs in (Suc n, r'')))"

text \<open>\<open>read\<close> fills the front of a buffer of the given length; the model returns those bytes.\<close>

fun rb_read :: "ringbuf \<Rightarrow> nat \<Rightarrow> u8 list \<times> ringbuf" where
  "rb_read r 0 = ([], r)"
| "rb_read r (Suc k) =
     (case rb_pop r of
        (None, r') \<Rightarrow> ([], r')
      | (Some b, r') \<Rightarrow> (let (bs, r'') = rb_read r' k in (b # bs, r'')))"

definition rb_clear :: "ringbuf \<Rightarrow> ringbuf" where
  "rb_clear r = r\<lparr>rb_tail := rb_head r\<rparr>"

definition rb_unpush :: "ringbuf \<Rightarrow> u8 option \<times> ringbuf" where
  "rb_unpush r =
     (if rb_is_empty r then (None, r)
      else (let h = rb_head r - 1 in
            (Some (rb_buf r ! (unat h mod length (rb_buf r))), r\<lparr>rb_head := h\<rparr>)))"

section \<open>Invariant and contents\<close>

text \<open>
  The array index is the free-running index modulo \<open>N\<close>. It stays continuous when the index wraps
  from \<open>2 ^ 64 - 1\<close> to \<open>0\<close> only if \<open>N\<close> divides \<open>2 ^ 64\<close>, that is, if \<open>N\<close> is a power of two.
\<close>

definition rb_inv :: "ringbuf \<Rightarrow> bool" where
  "rb_inv r \<longleftrightarrow> length (rb_buf r) dvd 2 ^ 64 \<and> length (rb_buf r) < 2 ^ 64
     \<and> unat (rb_head r - rb_tail r) \<le> length (rb_buf r)"

definition rb_contents :: "ringbuf \<Rightarrow> u8 list" where
  "rb_contents r = ring_slice (rb_buf r) (unat (rb_tail r)) (unat (rb_head r - rb_tail r))"

definition rb_room :: "ringbuf \<Rightarrow> nat" where
  "rb_room r = length (rb_buf r) - length (rb_contents r)"

lemma rb_inv_new: "n dvd 2 ^ 64 \<Longrightarrow> n < 2 ^ 64 \<Longrightarrow> rb_inv (rb_new n)"
  by (simp add: rb_inv_def rb_new_def)

lemma rb_contents_new: "rb_contents (rb_new n) = []"
  by (simp add: rb_contents_def rb_new_def)

lemma rb_nonempty_buf: "rb_inv r \<Longrightarrow> 0 < length (rb_buf r)"
  by (metis rb_inv_def dvd_0_left_iff gr0I power_not_zero zero_neq_numeral)

lemma rb_is_empty_contents: "rb_is_empty r \<longleftrightarrow> rb_contents r = []"
  by (auto simp: rb_is_empty_def rb_contents_def ring_slice_def unat_eq_0)

lemma rb_is_full_room:
  assumes "rb_inv r"
  shows "rb_is_full r \<longleftrightarrow> rb_room r = 0"
proof -
  have "rb_is_full r \<longleftrightarrow> unat (rb_head r - rb_tail r) = unat (rb_capacity r)"
    by (simp add: rb_is_full_def rb_len_def word_unat_eq_iff)
  also have "\<dots> \<longleftrightarrow> unat (rb_head r - rb_tail r) = length (rb_buf r)"
    using assms by (simp add: rb_capacity_def rb_inv_def unat_of_nat)
  finally show ?thesis
    using assms by (auto simp: rb_room_def rb_contents_def rb_inv_def)
qed

lemma unat_succ_less:
  fixes x :: u64
  assumes "unat x < n" "n < 2 ^ 64"
  shows "unat (x + 1) = Suc (unat x)"
  using assms by (simp add: unat_word_ariths)

lemma rb_push_spec:
  assumes "rb_inv r" "0 < rb_room r"
  obtains r' where "rb_push r b = (True, r')" "rb_inv r'" "rb_contents r' = rb_contents r @ [b]"
    "rb_room r' = rb_room r - 1"
proof
  let ?n = "unat (rb_head r - rb_tail r)" and ?N = "length (rb_buf r)"
  let ?r' = "r\<lparr>rb_buf := (rb_buf r)[unat (rb_head r) mod ?N := b], rb_head := rb_head r + 1\<rparr>"
  have N: "?N dvd 2 ^ 64" "?N < 2 ^ 64" and n: "?n < ?N"
    using assms by (auto simp: rb_inv_def rb_room_def rb_contents_def)
  have idx: "unat (rb_head r) mod ?N = (unat (rb_tail r) + ?n) mod ?N"
    using unat_add_of_nat_mod [OF N(1), of "rb_tail r" ?n] by simp
  have eq: "rb_head r + 1 - rb_tail r = (rb_head r - rb_tail r) + 1" by simp
  have len: "unat (rb_head r + 1 - rb_tail r) = Suc ?n"
    unfolding eq by (rule unat_succ_less [OF n N(2)])
  show "rb_push r b = (True, ?r')"
    using assms rb_is_full_room by (simp add: rb_push_def)
  show "rb_inv ?r'"
    using N n len by (simp add: rb_inv_def)
  show c: "rb_contents ?r' = rb_contents r @ [b]"
    using ring_slice_extend [OF n] by (simp add: rb_contents_def len idx)
  show "rb_room ?r' = rb_room r - 1"
    using c by (simp add: rb_room_def)
qed

lemma rb_push_full: "rb_inv r \<Longrightarrow> rb_room r = 0 \<Longrightarrow> rb_push r b = (False, r)"
  by (simp add: rb_push_def rb_is_full_room)

lemma rb_pop_spec:
  assumes "rb_inv r" "rb_contents r = b # bs"
  obtains r' where "rb_pop r = (Some b, r')" "rb_inv r'" "rb_contents r' = bs"
    "rb_buf r' = rb_buf r"
proof
  let ?n = "unat (rb_head r - rb_tail r)" and ?N = "length (rb_buf r)"
  let ?r' = "r\<lparr>rb_tail := rb_tail r + 1\<rparr>"
  have N: "?N dvd 2 ^ 64" using assms by (simp add: rb_inv_def)
  have "length (rb_contents r) = ?n" by (simp add: rb_contents_def)
  then have pos: "0 < ?n" using assms(2) by simp
  have eq: "rb_head r - (rb_tail r + 1) = (rb_head r - rb_tail r) - 1" by simp
  have len: "unat (rb_head r - (rb_tail r + 1)) = ?n - 1"
    unfolding eq using pos by (intro unat_minus_one) (auto simp: unat_gt_0)
  have "b # bs = ring_slice (rb_buf r) (unat (rb_tail r)) (Suc (?n - 1))"
    using assms(2) pos by (simp add: rb_contents_def)
  then have b: "b = rb_buf r ! (unat (rb_tail r) mod ?N)"
    and bs: "bs = ring_slice (rb_buf r) (Suc (unat (rb_tail r))) (?n - 1)"
    by (auto simp: ring_slice_Suc)
  have "unat (rb_tail r + 1) mod ?N = Suc (unat (rb_tail r)) mod ?N"
    using unat_add_of_nat_mod [OF N, of "rb_tail r" 1] by simp
  then have "rb_contents ?r' = ring_slice (rb_buf r) (Suc (unat (rb_tail r))) (?n - 1)"
    by (metis (no_types, lifting) len rb_contents_def ring_slice_mod ringbuf.ext_inject
        ringbuf.surjective ringbuf.update_convs(3))
  then show "rb_contents ?r' = bs" using bs by simp
  show "rb_pop r = (Some b, ?r')"
    using assms(2) b by (simp add: rb_pop_def rb_is_empty_contents)
  show "rb_inv ?r'" using assms(1) len by (auto simp: rb_inv_def)
  show "rb_buf ?r' = rb_buf r" by simp
qed

lemma rb_pop_empty: "rb_contents r = [] \<Longrightarrow> rb_pop r = (None, r)"
  by (simp add: rb_pop_def rb_is_empty_contents)

lemma rb_contents_length_le: "rb_inv r \<Longrightarrow> length (rb_contents r) \<le> length (rb_buf r)"
  by (simp add: rb_inv_def rb_contents_def)

section \<open>Bulk operations\<close>

text \<open>\<open>write\<close> accepts a prefix as long as the room, in order.\<close>

lemma rb_write_spec:
  assumes "rb_inv r"
  shows "fst (rb_write r bs) = min (length bs) (rb_room r)
    \<and> rb_contents (snd (rb_write r bs)) = rb_contents r @ take (fst (rb_write r bs)) bs
    \<and> rb_room (snd (rb_write r bs)) = rb_room r - fst (rb_write r bs)
    \<and> rb_inv (snd (rb_write r bs))"
  using assms
proof (induction bs arbitrary: r)
  case (Cons b bs)
  show ?case
  proof (cases "rb_room r = 0")
    case True
    with Cons.prems show ?thesis by (simp add: rb_push_full)
  next
    case False
    then obtain r' where r': "rb_push r b = (True, r')" "rb_inv r'"
      "rb_contents r' = rb_contents r @ [b]" "rb_room r' = rb_room r - 1"
      using rb_push_spec [OF Cons.prems] by blast
    show ?thesis
      using Cons.IH [OF r'(2)] r' False by (auto simp: split_def Let_def)
  qed
qed simp

text \<open>\<open>read\<close> delivers the oldest bytes, as many as asked for and present.\<close>

lemma rb_read_spec:
  assumes "rb_inv r"
  shows "fst (rb_read r n) = take n (rb_contents r)
    \<and> rb_contents (snd (rb_read r n)) = drop n (rb_contents r)
    \<and> rb_buf (snd (rb_read r n)) = rb_buf r
    \<and> rb_inv (snd (rb_read r n))"
  using assms
proof (induction n arbitrary: r)
  case (Suc n)
  show ?case
  proof (cases "rb_contents r")
    case Nil
    with Suc.prems show ?thesis by (simp add: rb_pop_empty)
  next
    case (Cons b bs)
    then obtain r' where "rb_pop r = (Some b, r')" "rb_inv r'" "rb_contents r' = bs"
      "rb_buf r' = rb_buf r"
      using rb_pop_spec [OF Suc.prems] by blast
    then show ?thesis
      using Suc.IH [of r'] Cons by (auto simp: split_def Let_def)
  qed
qed simp

lemma rb_read_room:
  assumes "rb_inv r"
  shows "rb_room (snd (rb_read r n)) = rb_room r + length (fst (rb_read r n))"
  using rb_read_spec [OF assms, of n] rb_contents_length_le [OF assms]
  by (auto simp: rb_room_def)

interpretation rb: byte_fifo rb_write rb_read rb_contents rb_room rb_inv
  by unfold_locales (simp_all add: rb_write_spec rb_read_spec rb_read_room)

text \<open>\<open>unpush\<close> removes the byte \<open>push\<close> added last (line editing).\<close>

lemma rb_unpush_push:
  assumes "rb_inv r" "0 < rb_room r" "rb_push r b = (True, r')"
  shows "rb_unpush r' = (Some b, r'\<lparr>rb_head := rb_head r\<rparr>)"
proof -
  have r': "r' = r\<lparr>rb_buf := (rb_buf r)[unat (rb_head r) mod length (rb_buf r) := b],
      rb_head := rb_head r + 1\<rparr>"
    using assms(3) by (auto simp: rb_push_def split: if_splits)
  obtain r2 where "rb_push r b = (True, r2)" "rb_contents r2 = rb_contents r @ [b]"
    using rb_push_spec [OF assms(1,2)] by blast
  then have "\<not> rb_is_empty r'"
    using assms(3) by (simp add: rb_is_empty_contents)
  moreover have "unat (rb_head r) mod length (rb_buf r) < length (rb_buf r)"
    using rb_nonempty_buf [OF assms(1)] by simp
  ultimately show ?thesis
    by (simp add: rb_unpush_def r')
qed

text \<open>
  Over any sequence of writes and reads a \<open>RingBuf\<close> whose size is a power of two delivers
  exactly the accepted bytes in order, also across the wrap-around of its 64-bit indices.
\<close>

theorem ringbuf_stream_integrity:
  assumes "rb_inv r" "fifo_run rb_write rb_read r ops = (acc, del, r')"
  shows "rb_contents r @ acc = del @ rb_contents r' \<and> rb_inv r'"
  using rb.run_stream [OF assms] rb.run_invar [OF assms(1), of ops] assms(2) by simp

text \<open>The instance starts one step before both indices wrap around.\<close>

theorem ringbuf_stream_integrity_witness:
  "\<exists>acc del r'. fifo_run rb_write rb_read \<lparr>rb_buf = [0, 0, 0, 0], rb_head = - 1, rb_tail = - 1\<rparr>
       [Put [1, 2, 3], Get 2, Put [4, 5, 6, 7]] = (acc, del, r')
     \<and> acc = del @ rb_contents r' \<and> rb_inv r'"
proof -
  let ?r = "\<lparr>rb_buf = [0, 0, 0, 0], rb_head = - 1, rb_tail = - 1\<rparr>"
  obtain acc del r' where run: "fifo_run rb_write rb_read ?r [Put [1, 2, 3], Get 2, Put [4, 5, 6, 7]]
      = (acc, del, r')"
    by (metis prod_cases3)
  have "length (rb_buf ?r) = 4" by simp
  then have "rb_inv ?r" unfolding rb_inv_def by (simp del: list.size)
  moreover have "rb_contents ?r = []" by (simp add: rb_contents_def)
  ultimately show ?thesis using run ringbuf_stream_integrity [OF _ run] by simp
qed

end
