(* ===== verification/Pipe.thy ===== *)
theory Pipe
  imports Byte_Fifo
begin

text \<open>
  Pipes and FIFOs of src/research/kernel-rs/kernel/src/fs/pipe.rs: the 64 KiB circular buffer, the
  reader and writer counts, and the blocking \<open>read\<close>, \<open>write\<close> and FIFO \<open>open\<close> operations.

  A task that blocks in \<open>wait_until\<close> resumes either because a signal interrupted it or because
  the condition was found true; in between other tasks may have changed the pipe arbitrarily.
  (The kernel is non-preemptible and runs on one CPU, so between two such points no other task
  touches the pipe.) The environment is a list of such resumptions, each carrying the pipe as it is found. When the
  list is exhausted the task is still asleep, which is a value of the result.
\<close>

definition PIPE_BUF_SIZE :: nat where
  "PIPE_BUF_SIZE = 64 * 1024"

record pipe =
  p_data :: "u8 list"
  p_head :: nat
  p_len :: nat
  p_readers :: usize
  p_writers :: usize
  p_wq :: "nat list"  \<comment> \<open>tasks in the wait queue\<close>
  p_woken :: "nat list"  \<comment> \<open>tasks handed to the scheduler's wake so far\<close>

definition pipe_new :: pipe where
  "pipe_new = \<lparr>p_data = replicate PIPE_BUF_SIZE 0, p_head = 0, p_len = 0,
     p_readers = 0, p_writers = 0, p_wq = [], p_woken = []\<rparr>"

text \<open>\<open>WaitQueue::wake_all\<close>, and a task's entry in the queue while it sleeps.\<close>

definition wake_all :: "pipe \<Rightarrow> pipe" where
  "wake_all p = p\<lparr>p_wq := [], p_woken := p_woken p @ p_wq p\<rparr>"

definition wq_push :: "nat \<Rightarrow> pipe \<Rightarrow> pipe" where
  "wq_push t p = p\<lparr>p_wq := p_wq p @ [t]\<rparr>"

definition wq_remove :: "nat \<Rightarrow> pipe \<Rightarrow> pipe" where
  "wq_remove t p = p\<lparr>p_wq := filter (\<lambda>w. w \<noteq> t) (p_wq p)\<rparr>"

definition available :: "pipe \<Rightarrow> nat" where
  "available p = p_len p"

definition pspace :: "pipe \<Rightarrow> nat" where
  "pspace p = PIPE_BUF_SIZE - p_len p"

definition read_some :: "pipe \<Rightarrow> nat \<Rightarrow> u8 list \<times> pipe" where
  "read_some p outlen =
     (let n = min outlen (p_len p) in
      (map (\<lambda>i. p_data p ! ((p_head p + i) mod PIPE_BUF_SIZE)) [0..<n],
       p\<lparr>p_head := (p_head p + n) mod PIPE_BUF_SIZE, p_len := p_len p - n\<rparr>))"

text \<open>The \<open>for i in 0..n\<close> loop of \<open>write_some\<close>: the array after the stores from index \<open>i\<close> on.\<close>

fun store_from :: "u8 list \<Rightarrow> nat \<Rightarrow> nat \<Rightarrow> u8 list \<Rightarrow> u8 list" where
  "store_from d base i [] = d"
| "store_from d base i (b # bs) = store_from (d[(base + i) mod PIPE_BUF_SIZE := b]) base (Suc i) bs"

definition write_some :: "pipe \<Rightarrow> u8 list \<Rightarrow> nat \<times> pipe" where
  "write_some p bs =
     (let n = min (length bs) (PIPE_BUF_SIZE - p_len p) in
      (n, p\<lparr>p_data := store_from (p_data p) (p_head p + p_len p) 0 (take n bs),
            p_len := p_len p + n\<rparr>))"

section \<open>Blocking operations\<close>

datatype wake = Interrupted pipe | Woken pipe

datatype 'a outcome = Done "'a kresult" pipe | Asleep pipe

text \<open>
  \<open>Pipe::read\<close> by task \<open>me\<close>. The boolean is \<open>O_NONBLOCK\<close>. The result lists the bytes put at the
  front of the caller's buffer.
\<close>

fun pipe_read :: "nat \<Rightarrow> pipe \<Rightarrow> bool \<Rightarrow> nat \<Rightarrow> wake list \<Rightarrow> u8 list outcome" where
  "pipe_read me p nonblock outlen ws =
     (if outlen = 0 then Done (Inr []) p
      else let (bs, p') = read_some p outlen in
        if 0 < length bs then Done (Inr bs) (wake_all p')
        else if p_writers p' = 0 then Done (Inr []) p'
        else if nonblock then Done (Inl EAGAIN) p'
        else (case ws of
                [] \<Rightarrow> Asleep (wq_push me p')
              | Interrupted q # _ \<Rightarrow> Done (Inl EINTR) (wq_remove me q)
              | Woken q # ws' \<Rightarrow> pipe_read me (wq_remove me q) nonblock outlen ws'))"

declare pipe_read.simps [simp del]

text \<open>
  \<open>Pipe::write\<close>. \<open>n\<close> counts the bytes written so far (\<open>done\<close> in the source). The flag of the
  result says whether \<open>SIGPIPE\<close> was sent to the writing task. \<open>partial_or\<close> is the
  \<open>if done > 0 { Ok(done) } else { Err(e) }\<close> of the early returns.
\<close>

definition write_need :: "u8 list \<Rightarrow> nat" where
  "write_need bs = (if length bs \<le> 4096 then length bs else 1)"

definition partial_or :: "nat \<Rightarrow> errno \<Rightarrow> nat kresult" where
  "partial_or n e = (if 0 < n then Inr n else Inl e)"

function pipe_write_loop ::
    "nat \<Rightarrow> pipe \<Rightarrow> bool \<Rightarrow> u8 list \<Rightarrow> nat \<Rightarrow> wake list \<Rightarrow> bool \<times> nat outcome" where
  "pipe_write_loop me p nonblock bs n ws =
     (if length bs \<le> n then (False, Done (Inr n) p)
      else if p_readers p = 0 then (True, Done (partial_or n EPIPE) p)
      else if write_need bs \<le> pspace p then
        (let (k, p') = write_some p (drop n bs)
         in pipe_write_loop me (wake_all p') nonblock bs (n + k) ws)
      else if nonblock then (False, Done (partial_or n EAGAIN) p)
      else (case ws of
              [] \<Rightarrow> (False, Asleep (wq_push me p))
            | Interrupted q # _ \<Rightarrow> (False, Done (partial_or n EINTR) (wq_remove me q))
            | Woken q # ws' \<Rightarrow> pipe_write_loop me (wq_remove me q) nonblock bs n ws'))"
  by pat_completeness auto
termination
  by (relation "measures [\<lambda>(me, p, nb, bs, n, ws). length ws, \<lambda>(me, p, nb, bs, n, ws). length bs - n]")
    (auto simp: write_some_def write_need_def pspace_def Let_def split: if_splits)

declare pipe_write_loop.simps [simp del]

definition pipe_write :: "nat \<Rightarrow> pipe \<Rightarrow> bool \<Rightarrow> u8 list \<Rightarrow> wake list \<Rightarrow> bool \<times> nat outcome" where
  "pipe_write me p nonblock bs ws =
     (if bs = [] then (False, Done (Inr 0) p) else pipe_write_loop me p nonblock bs 0 ws)"

section \<open>The ends of a pipe\<close>

definition POLLIN :: u32 where "POLLIN = 0x1"
definition POLLOUT :: u32 where "POLLOUT = 0x4"
definition POLLERR :: u32 where "POLLERR = 0x8"
definition POLLHUP :: u32 where "POLLHUP = 0x10"

definition poll_read :: "pipe \<Rightarrow> u32" where
  "poll_read p = (if 0 < available p then POLLIN else 0) OR (if p_writers p = 0 then POLLHUP else 0)"

definition poll_write :: "pipe \<Rightarrow> u32" where
  "poll_write p = (if 0 < pspace p then POLLOUT else 0) OR (if p_readers p = 0 then POLLERR else 0)"

datatype pipe_end = PipeReader | PipeWriter | PipeDuplex

fun end_read :: "pipe_end \<Rightarrow> nat \<Rightarrow> pipe \<Rightarrow> bool \<Rightarrow> nat \<Rightarrow> wake list \<Rightarrow> u8 list outcome" where
  "end_read PipeWriter me p nonblock outlen ws = Done (Inl EBADF) p"
| "end_read _ me p nonblock outlen ws = pipe_read me p nonblock outlen ws"

fun end_write :: "pipe_end \<Rightarrow> nat \<Rightarrow> pipe \<Rightarrow> bool \<Rightarrow> u8 list \<Rightarrow> wake list \<Rightarrow> bool \<times> nat outcome" where
  "end_write PipeReader me p nonblock bs ws = (False, Done (Inl EBADF) p)"
| "end_write _ me p nonblock bs ws = pipe_write me p nonblock bs ws"

fun end_poll :: "pipe_end \<Rightarrow> pipe \<Rightarrow> u32" where
  "end_poll PipeReader p = poll_read p"
| "end_poll PipeWriter p = poll_write p"
| "end_poll PipeDuplex p = poll_read p OR poll_write p"

fun end_release :: "pipe_end \<Rightarrow> pipe \<Rightarrow> pipe" where
  "end_release PipeReader p = wake_all (p\<lparr>p_readers := p_readers p - 1\<rparr>)"
| "end_release PipeWriter p = wake_all (p\<lparr>p_writers := p_writers p - 1\<rparr>)"
| "end_release PipeDuplex p =
     wake_all (p\<lparr>p_readers := p_readers p - 1, p_writers := p_writers p - 1\<rparr>)"

definition pipe_create :: pipe where
  "pipe_create = pipe_new\<lparr>p_readers := 1, p_writers := 1\<rparr>"

definition O_ACCMODE :: u32 where "O_ACCMODE = 3"
definition O_NONBLOCK :: u32 where "O_NONBLOCK = 2048"

text \<open>
  \<open>open_fifo\<close> on the pipe of a FIFO inode. The first \<open>wait_until\<close> finds its condition true at
  once when the other side is already there. A resumption is taken from the list otherwise.
\<close>

definition open_fifo :: "nat \<Rightarrow> pipe \<Rightarrow> u32 \<Rightarrow> wake list \<Rightarrow> pipe_end outcome" where
  "open_fifo me p flags ws =
     (let acc = flags AND O_ACCMODE; nonblock = (flags AND O_NONBLOCK \<noteq> 0) in
      if acc = 0 then
        (let p1 = wake_all (p\<lparr>p_readers := p_readers p + 1\<rparr>) in
         if \<not> nonblock \<and> p_writers p1 = 0 then
           (case ws of
              [] \<Rightarrow> Asleep (wq_push me p1)
            | Interrupted q # _ \<Rightarrow>
                Done (Inl EINTR) (let q' = wq_remove me q in q'\<lparr>p_readers := p_readers q' - 1\<rparr>)
            | Woken q # _ \<Rightarrow> Done (Inr PipeReader) (wq_remove me q))
         else Done (Inr PipeReader) p1)
      else if acc = 1 then
        (if nonblock \<and> p_readers p = 0 then Done (Inl ENXIO) p
         else let p1 = wake_all (p\<lparr>p_writers := p_writers p + 1\<rparr>) in
           if \<not> nonblock \<and> p_readers p1 = 0 then
             (case ws of
                [] \<Rightarrow> Asleep (wq_push me p1)
              | Interrupted q # _ \<Rightarrow>
                  Done (Inl EINTR) (let q' = wq_remove me q in q'\<lparr>p_writers := p_writers q' - 1\<rparr>)
              | Woken q # _ \<Rightarrow> Done (Inr PipeWriter) (wq_remove me q))
           else Done (Inr PipeWriter) p1)
      else Done (Inr PipeDuplex)
             (wake_all (p\<lparr>p_readers := p_readers p + 1, p_writers := p_writers p + 1\<rparr>)))"

section \<open>Invariant and contents of the buffer\<close>

definition pipe_inv :: "pipe \<Rightarrow> bool" where
  "pipe_inv p \<longleftrightarrow> length (p_data p) = PIPE_BUF_SIZE \<and> p_len p \<le> PIPE_BUF_SIZE"

definition pipe_contents :: "pipe \<Rightarrow> u8 list" where
  "pipe_contents p = ring_slice (p_data p) (p_head p) (p_len p)"

lemma pipe_inv_new: "pipe_inv pipe_new" "pipe_inv pipe_create"
  by (simp_all add: pipe_inv_def pipe_new_def pipe_create_def)

lemma length_pipe_contents [simp]: "length (pipe_contents p) = p_len p"
  by (simp add: pipe_contents_def)

lemma length_store_from [simp]: "length (store_from d base i bs) = length d"
  by (induction bs arbitrary: d i) simp_all

lemma store_from_slice:
  assumes "length d = PIPE_BUF_SIZE" "n + i + length bs \<le> PIPE_BUF_SIZE"
  shows "ring_slice (store_from d (h + n) i bs) h (n + i + length bs) = ring_slice d h (n + i) @ bs"
  using assms
proof (induction bs arbitrary: d i)
  case (Cons b bs)
  let ?d = "d[(h + n + i) mod PIPE_BUF_SIZE := b]"
  have "ring_slice (store_from ?d (h + n) (Suc i) bs) h (n + Suc i + length bs)
      = ring_slice ?d h (n + Suc i) @ bs"
    using Cons.prems by (intro Cons.IH) simp_all
  moreover have "ring_slice ?d h (Suc (n + i)) = ring_slice d h (n + i) @ [b]"
    using Cons.prems ring_slice_extend [of "n + i" d h b] by (simp add: add.assoc)
  ultimately show ?case by simp
qed simp

lemma read_some_eq:
  assumes "pipe_inv p"
  shows "fst (read_some p k) = take k (pipe_contents p)"
    and "pipe_contents (snd (read_some p k)) = drop k (pipe_contents p)"
    and "pipe_inv (snd (read_some p k))"
    and "p_len (snd (read_some p k)) = p_len p - k"
proof -
  let ?n = "min k (p_len p)"
  have len: "length (p_data p) = PIPE_BUF_SIZE" using assms by (simp add: pipe_inv_def)
  have "fst (read_some p k) = ring_slice (p_data p) (p_head p) ?n"
    by (simp add: read_some_def ring_slice_def Let_def len)
  then show "fst (read_some p k) = take k (pipe_contents p)"
    by (simp add: pipe_contents_def min_def flip: take_ring_slice)
  have "pipe_contents (snd (read_some p k)) = ring_slice (p_data p) (p_head p + ?n) (p_len p - ?n)"
    by (simp add: read_some_def pipe_contents_def Let_def flip: len) (simp add: ring_slice_mod)
  then show "pipe_contents (snd (read_some p k)) = drop k (pipe_contents p)"
    by (simp add: pipe_contents_def min_def flip: drop_ring_slice)
  show "pipe_inv (snd (read_some p k))"
    using assms by (auto simp: pipe_inv_def read_some_def Let_def)
  show "p_len (snd (read_some p k)) = p_len p - k"
    by (simp add: read_some_def Let_def)
qed

lemma write_some_eq:
  assumes "pipe_inv p"
  shows "fst (write_some p bs) = min (length bs) (pspace p)"
    and "pipe_contents (snd (write_some p bs)) = pipe_contents p @ take (fst (write_some p bs)) bs"
    and "pspace (snd (write_some p bs)) = pspace p - fst (write_some p bs)"
    and "pipe_inv (snd (write_some p bs))"
proof -
  let ?n = "min (length bs) (PIPE_BUF_SIZE - p_len p)"
  have len: "length (p_data p) = PIPE_BUF_SIZE" and le: "p_len p \<le> PIPE_BUF_SIZE"
    using assms by (simp_all add: pipe_inv_def)
  show "fst (write_some p bs) = min (length bs) (pspace p)"
    by (simp add: write_some_def pspace_def Let_def)
  have "p_len p + 0 + length (take ?n bs) \<le> PIPE_BUF_SIZE" using le by auto
  from store_from_slice [OF len this, of "p_head p"]
  show "pipe_contents (snd (write_some p bs)) = pipe_contents p @ take (fst (write_some p bs)) bs"
    by (simp add: write_some_def pipe_contents_def Let_def)
  show "pspace (snd (write_some p bs)) = pspace p - fst (write_some p bs)"
    by (simp add: write_some_def pspace_def Let_def)
  show "pipe_inv (snd (write_some p bs))"
    using len le by (simp add: write_some_def pipe_inv_def Let_def)
qed

lemma read_some_space: "pipe_inv p \<Longrightarrow> pspace (snd (read_some p k)) = pspace p + length (fst (read_some p k))"
  by (auto simp: read_some_def pspace_def pipe_inv_def Let_def)

interpretation pipe_buf: byte_fifo write_some read_some pipe_contents pspace pipe_inv
  by unfold_locales (simp_all add: read_some_eq write_some_eq read_some_space)

section \<open>Blocking reads and writes\<close>

primrec wake_pipe :: "wake \<Rightarrow> pipe" where
  "wake_pipe (Interrupted q) = q"
| "wake_pipe (Woken q) = q"

definition wakes_ok :: "wake list \<Rightarrow> bool" where
  "wakes_ok ws \<longleftrightarrow> (\<forall>w \<in> set ws. pipe_inv (wake_pipe w))"

text \<open>The pipe as the calling task can have found it: at the call, or at a resumption.\<close>

definition seen :: "pipe \<Rightarrow> wake list \<Rightarrow> u8 list set" where
  "seen p ws = pipe_contents ` (insert p (wake_pipe ` set ws))"

lemma seen_Cons: "seen p (w # ws) = insert (pipe_contents p) (seen (wake_pipe w) ws)"
  by (auto simp: seen_def)

lemma seen_self [simp, intro]: "pipe_contents p \<in> seen p ws"
  by (simp add: seen_def)

lemma wq_simps [simp]:
  "pipe_contents (wake_all p) = pipe_contents p" "pipe_contents (wq_push t p) = pipe_contents p"
  "pipe_contents (wq_remove t p) = pipe_contents p"
  "pipe_inv (wake_all p) = pipe_inv p" "pipe_inv (wq_push t p) = pipe_inv p"
  "pipe_inv (wq_remove t p) = pipe_inv p"
  "p_writers (wq_remove t p) = p_writers p" "p_readers (wq_remove t p) = p_readers p"
  "p_len (wq_remove t p) = p_len p" "p_len (wake_all p) = p_len p"
  by (simp_all add: wake_all_def wq_push_def wq_remove_def pipe_contents_def pipe_inv_def)

lemma seen_wq_remove [simp]: "seen (wq_remove t q) ws = seen q ws"
  by (simp add: seen_def)

lemma wakes_ok_Cons [simp]: "wakes_ok (w # ws) \<longleftrightarrow> pipe_inv (wake_pipe w) \<and> wakes_ok ws"
  by (auto simp: wakes_ok_def)

lemma read_some_empty: "pipe_inv p \<Longrightarrow> fst (read_some p (Suc k)) = [] \<longleftrightarrow> pipe_contents p = []"
  by (simp add: read_some_eq take_eq_Nil)

lemma read_some_writers [simp]: "p_writers (snd (read_some p k)) = p_writers p"
  by (simp add: read_some_def Let_def)

lemma pipe_read_cases:
  assumes "0 < k"
  shows "pipe_read me p nonblock k ws =
     (if fst (read_some p k) \<noteq> [] then Done (Inr (fst (read_some p k))) (wake_all (snd (read_some p k)))
      else if p_writers p = 0 then Done (Inr []) (snd (read_some p k))
      else if nonblock then Done (Inl EAGAIN) (snd (read_some p k))
      else (case ws of
              [] \<Rightarrow> Asleep (wq_push me (snd (read_some p k)))
            | Interrupted q # _ \<Rightarrow> Done (Inl EINTR) (wq_remove me q)
            | Woken q # ws' \<Rightarrow> pipe_read me (wq_remove me q) nonblock k ws'))"
  using assms by (subst pipe_read.simps) (simp add: split_def Let_def)

text \<open>
  A pipe \<open>read\<close> that returns bytes takes them from the front of the pipe as it was at the call
  or at a resumption, and leaves the rest; it reports end of file (an empty result for a non-empty
  buffer) only when the pipe is empty and has no writer.
\<close>

theorem pipe_read_correct:
  assumes "pipe_inv p" "wakes_ok ws" "0 < k" "pipe_read me p nonblock k ws = Done (Inr bs) p'"
  shows "\<exists>c \<in> seen p ws. bs = take k c \<and> pipe_contents p' = drop k c
    \<and> (bs = [] \<longrightarrow> c = [] \<and> p_writers p' = 0) \<and> pipe_inv p'"
  using assms
proof (induction ws arbitrary: p)
  case Nil
  then show ?case
    by (auto simp: pipe_read_cases read_some_eq seen_def split: if_splits)
next
  case (Cons w ws)
  show ?case
  proof (cases "fst (read_some p k) = [] \<and> p_writers p \<noteq> 0 \<and> \<not> nonblock")
    case True
    then obtain q where w: "w = Woken q" and r: "pipe_read me (wq_remove me q) nonblock k ws = Done (Inr bs) p'"
      using Cons.prems by (auto simp: pipe_read_cases split: wake.splits)
    with Cons.IH [of "wq_remove me q"] Cons.prems show ?thesis
      by (auto simp: seen_Cons)
  next
    case False
    with Cons.prems show ?thesis
      by (auto simp: pipe_read_cases read_some_eq seen_def split: if_splits)
  qed
qed

lemma pipe_write_loop_small:
  assumes "pipe_inv p" "wakes_ok ws" "bs \<noteq> []" "length bs \<le> 4096"
    "pipe_write_loop me p nonblock bs 0 ws = (sig, Done r p')"
  shows "(\<exists>c \<in> seen p ws. r = Inr (length bs) \<and> pipe_contents p' = c @ bs)
    \<or> (\<exists>c \<in> seen p ws. r \<in> {Inl EPIPE, Inl EAGAIN, Inl EINTR} \<and> pipe_contents p' = c)"
  using assms
proof (induction ws arbitrary: p)
  case Nil
  then show ?case
    by (auto simp: pipe_write_loop.simps [of me p] pipe_write_loop.simps [of me _ _ bs "length bs"]
        partial_or_def write_need_def write_some_eq Let_def split_def seen_def min_absorb1 split: if_splits)
next
  case (Cons w ws)
  show ?case
  proof (cases "p_readers p \<noteq> 0 \<and> \<not> length bs \<le> pspace p \<and> \<not> nonblock")
    case True
    with Cons.prems Cons.IH [of "wq_remove me (wake_pipe w)"] show ?thesis
      by (cases w) (auto simp: pipe_write_loop.simps [of me p] partial_or_def write_need_def seen_Cons)
  next
    case False
    with Cons.prems show ?thesis
      by (auto simp: pipe_write_loop.simps [of me p] pipe_write_loop.simps [of me _ _ bs "length bs"]
        partial_or_def write_need_def write_some_eq Let_def split_def seen_def min_absorb1 split: if_splits)
  qed
qed

text \<open>A pipe holding three bytes, for the concrete instances.\<close>

definition pipe123 :: pipe where
  "pipe123 = snd (write_some pipe_create [1, 2, 3])"

lemma pipe123_facts:
  "pipe_inv pipe123" "pipe_contents pipe123 = [1, 2, 3]" "p_readers pipe123 = 1"
  "p_writers pipe123 = 1" "pspace pipe123 = PIPE_BUF_SIZE - 3"
proof -
  have "pspace pipe_create = PIPE_BUF_SIZE" "pipe_contents pipe_create = []"
    by (simp_all add: pspace_def pipe_create_def pipe_new_def pipe_contents_def)
  then show "pipe_inv pipe123" "pipe_contents pipe123 = [1, 2, 3]" "pspace pipe123 = PIPE_BUF_SIZE - 3"
    by (simp_all add: pipe123_def write_some_eq pipe_inv_new PIPE_BUF_SIZE_def)
  show "p_readers pipe123 = 1" "p_writers pipe123 = 1"
    by (simp_all add: pipe123_def write_some_def pipe_create_def Let_def)
qed

theorem pipe_read_correct_witness:
  "\<exists>p'. pipe_read 7 pipe123 False 2 [] = Done (Inr [1, 2]) p' \<and> pipe_contents p' = [3]"
proof -
  have "pipe_read 7 pipe123 False 2 [] = Done (Inr [1, 2]) (wake_all (snd (read_some pipe123 2)))"
    by (simp add: pipe_read_cases read_some_eq pipe123_facts)
  with pipe_read_correct [OF pipe123_facts(1), of "[]" 2 7 False "[1, 2]"] show ?thesis
    by (simp add: wakes_ok_def seen_def pipe123_facts)
qed

text \<open>
  Writes of at most 4096 bytes are atomic: such a \<open>write\<close> either appends all its bytes,
  contiguously, to the pipe as it was at the call or at a resumption, or it fails with \<open>EPIPE\<close>,
  \<open>EAGAIN\<close> or \<open>EINTR\<close> and has appended nothing. There is no short write.
\<close>

theorem pipe_write_atomic:
  assumes "pipe_inv p" "wakes_ok ws" "bs \<noteq> []" "length bs \<le> 4096"
    "pipe_write me p nonblock bs ws = (sig, Done r p')"
  shows "(\<exists>c \<in> seen p ws. r = Inr (length bs) \<and> pipe_contents p' = c @ bs)
    \<or> (\<exists>c \<in> seen p ws. r \<in> {Inl EPIPE, Inl EAGAIN, Inl EINTR} \<and> pipe_contents p' = c)"
  using pipe_write_loop_small [OF assms(1-4)] assms(3,5) by (simp add: pipe_write_def)

theorem pipe_write_atomic_witness:
  "\<exists>p'. pipe_write 7 pipe123 True [4, 5] [] = (False, Done (Inr 2) p') \<and> pipe_contents p' = [1, 2, 3, 4, 5]"
proof -
  have "2 \<le> PIPE_BUF_SIZE - 3" by (simp add: PIPE_BUF_SIZE_def)
  then have "\<exists>p'. pipe_write 7 pipe123 True [4, 5] [] = (False, Done (Inr 2) p')"
    by (simp add: pipe_write_def pipe_write_loop.simps write_need_def split_def Let_def
        write_some_eq pipe123_facts)
  then obtain p' where "pipe_write 7 pipe123 True [4, 5] [] = (False, Done (Inr 2) p')" by blast
  with pipe_write_atomic [OF pipe123_facts(1), of "[]" "[4, 5]" 7 True False "Inr 2" p'] show ?thesis
    by (simp add: wakes_ok_def seen_def pipe123_facts)
qed

text \<open>
  C33. Stream integrity of the pipe buffer over any interleaving of \<open>write_some\<close> and \<open>read_some\<close>,
  and the buffer never holds more than its 64 KiB.
\<close>

theorem pipe_stream_integrity:
  assumes "pipe_inv p" "fifo_run write_some read_some p ops = (acc, del, p')"
  shows "pipe_contents p @ acc = del @ pipe_contents p' \<and> length (pipe_contents p') \<le> PIPE_BUF_SIZE"
  using pipe_buf.run_stream [OF assms] pipe_buf.run_invar [OF assms(1), of ops] assms(2)
  by (simp add: pipe_inv_def)

theorem pipe_stream_integrity_witness:
  "\<exists>acc del p'. fifo_run write_some read_some pipe123 [Put [4], Get 2, Put [5, 6], Get 9] = (acc, del, p')
     \<and> [1, 2, 3] @ acc = del @ pipe_contents p'"
  using pipe_stream_integrity [OF pipe123_facts(1), of "[Put [4], Get 2, Put [5, 6], Get 9]"]
  by (metis pipe123_facts(2) prod_cases3)

end
