(* ===== verification/Rust_Str.thy ===== *)
theory Rust_Str
  imports Main
begin

text \<open>
  The string functions of the Rust standard library that the daemon's text-processing code uses,
  on \<^typ>\<open>string\<close> (a list of bytes). The text is ASCII in the model: \<open>to_lowercase\<close>,
  \<open>is_whitespace\<close> and \<open>is_alphanumeric\<close> act on the ASCII range and leave other bytes alone.
\<close>

named_theorems str_simps \<open>evaluation of string functions\<close>

definition nl :: char where "nl = CHR 0x0A"

definition is_ws :: "char \<Rightarrow> bool" where
  "is_ws c \<longleftrightarrow> c = CHR '' '' \<or> (9 \<le> (of_char c :: nat) \<and> (of_char c :: nat) \<le> 13)"

definition is_upper :: "char \<Rightarrow> bool" where
  "is_upper c \<longleftrightarrow> 65 \<le> (of_char c :: nat) \<and> (of_char c :: nat) \<le> 90"

definition is_alpha :: "char \<Rightarrow> bool" where
  "is_alpha c \<longleftrightarrow> is_upper c \<or> (97 \<le> (of_char c :: nat) \<and> (of_char c :: nat) \<le> 122)"

definition is_digit :: "char \<Rightarrow> bool" where
  "is_digit c \<longleftrightarrow> 48 \<le> (of_char c :: nat) \<and> (of_char c :: nat) \<le> 57"

definition is_alnum :: "char \<Rightarrow> bool" where
  "is_alnum c \<longleftrightarrow> is_alpha c \<or> is_digit c"

definition lower_char :: "char \<Rightarrow> char" where
  "lower_char c = (if is_upper c then char_of ((of_char c :: nat) + 32) else c)"

definition to_lowercase :: "string \<Rightarrow> string" where
  "to_lowercase = map lower_char"

definition eq_ignore_case :: "string \<Rightarrow> string \<Rightarrow> bool" where
  "eq_ignore_case a b \<longleftrightarrow> to_lowercase a = to_lowercase b"

fun starts_with :: "string \<Rightarrow> string \<Rightarrow> bool" where
  "starts_with s [] = True"
| "starts_with [] (p # ps) = False"
| "starts_with (c # cs) (p # ps) = (c = p \<and> starts_with cs ps)"

definition ends_with :: "string \<Rightarrow> string \<Rightarrow> bool" where
  "ends_with s p = starts_with (rev s) (rev p)"

fun str_contains :: "string \<Rightarrow> string \<Rightarrow> bool" where
  "str_contains [] f = starts_with [] f"
| "str_contains (c # cs) f = (starts_with (c # cs) f \<or> str_contains cs f)"

text \<open>\<open>split(p)\<close> keeps empty pieces; it always yields at least one.\<close>

fun split_by :: "(char \<Rightarrow> bool) \<Rightarrow> string \<Rightarrow> string list" where
  "split_by P [] = [[]]"
| "split_by P (c # cs) =
     (if P c then [] # split_by P cs
      else (case split_by P cs of [] \<Rightarrow> [[c]] | w # ws \<Rightarrow> (c # w) # ws))"

definition split_whitespace :: "string \<Rightarrow> string list" where
  "split_whitespace s = filter (\<lambda>w. w \<noteq> []) (split_by is_ws s)"

fun join :: "string \<Rightarrow> string list \<Rightarrow> string" where
  "join sep [] = []"
| "join sep [w] = w"
| "join sep (w # w' # ws) = w @ sep @ join sep (w' # ws)"

definition trim_matches :: "(char \<Rightarrow> bool) \<Rightarrow> string \<Rightarrow> string" where
  "trim_matches P s = rev (dropWhile P (rev (dropWhile P s)))"

definition trim_end_matches :: "(char \<Rightarrow> bool) \<Rightarrow> string \<Rightarrow> string" where
  "trim_end_matches P s = rev (dropWhile P (rev s))"

definition trim :: "string \<Rightarrow> string" where
  "trim = trim_matches is_ws"

text \<open>\<open>trim_start_matches("pat")\<close> removes the pattern as often as it repeats at the front.\<close>

function trim_start_str :: "string \<Rightarrow> string \<Rightarrow> string" where
  "trim_start_str pat s =
     (if pat \<noteq> [] \<and> starts_with s pat then trim_start_str pat (drop (length pat) s) else s)"
  by pat_completeness auto

lemma starts_with_length: "starts_with s p \<Longrightarrow> length p \<le> length s"
  by (induction s p rule: starts_with.induct) simp_all

termination trim_start_str
proof (relation "measure (\<lambda>(pat, s). length s)")
  fix pat s :: string
  assume "pat \<noteq> [] \<and> starts_with s pat"
  then have "0 < length pat" "length pat \<le> length s" by (auto dest: starts_with_length)
  then have "length s - length pat < length s" by linarith
  then show "((pat, drop (length pat) s), pat, s) \<in> measure (\<lambda>(pat, s). length s)"
    by (simp only: in_measure split length_drop)
qed simp

declare trim_start_str.simps [simp del]

text \<open>\<open>strip_prefix\<close>, and \<open>replace\<close> of one character by a string.\<close>

definition strip_prefix :: "string \<Rightarrow> string \<Rightarrow> string option" where
  "strip_prefix s p = (if starts_with s p then Some (drop (length p) s) else None)"

definition replace_char :: "char \<Rightarrow> string \<Rightarrow> string \<Rightarrow> string" where
  "replace_char c r s = concat (map (\<lambda>x. if x = c then r else [x]) s)"

section \<open>Facts\<close>

lemma starts_with_iff: "starts_with s p \<longleftrightarrow> (\<exists>t. s = p @ t)"
  by (induction s p rule: starts_with.induct) auto

lemma starts_with_append [simp]: "starts_with (p @ t) p"
  by (simp add: starts_with_iff)

lemma str_contains_iff: "str_contains s f \<longleftrightarrow> (\<exists>a b. s = a @ f @ b)"
proof (induction s)
  case Nil
  then show ?case by (cases f) auto
next
  case (Cons c cs)
  show ?case
  proof
    assume "str_contains (c # cs) f"
    then consider "starts_with (c # cs) f" | "str_contains cs f" by auto
    then show "\<exists>a b. c # cs = a @ f @ b"
    proof cases
      case 1
      then obtain t where "c # cs = f @ t" by (auto simp: starts_with_iff)
      then have "c # cs = [] @ f @ t" by simp
      then show ?thesis by blast
    next
      case 2
      with Cons.IH obtain a b where "cs = a @ f @ b" by auto
      then have "c # cs = (c # a) @ f @ b" by simp
      then show ?thesis by blast
    qed
  next
    assume "\<exists>a b. c # cs = a @ f @ b"
    then obtain a b where ab: "c # cs = a @ f @ b" by blast
    show "str_contains (c # cs) f"
    proof (cases a)
      case Nil
      with ab have "starts_with (c # cs) f" by (simp del: starts_with.simps)
      then show ?thesis by (simp only: str_contains.simps simp_thms)
    next
      case (Cons x xs)
      with ab have "cs = xs @ f @ b" by simp
      with Cons.IH show ?thesis by auto
    qed
  qed
qed

lemma str_contains_trans: "str_contains s f \<Longrightarrow> str_contains f g \<Longrightarrow> str_contains s g"
  by (metis append.assoc str_contains_iff)

lemma split_by_not_Nil [simp]: "split_by P s \<noteq> []"
  by (induction s) (auto split: list.splits)

lemma split_by_pieces: "w \<in> set (split_by P s) \<Longrightarrow> c \<in> set w \<Longrightarrow> \<not> P c"
proof (induction s arbitrary: w)
  case (Cons d s)
  obtain v vs where s: "split_by P s = v # vs" by (meson neq_Nil_conv split_by_not_Nil)
  show ?case using Cons.prems Cons.IH [of v] Cons.IH [of w] s by (cases "P d") auto
qed simp

lemma split_by_none: "(\<forall>c \<in> set s. \<not> P c) \<Longrightarrow> split_by P s = [s]"
  by (induction s) simp_all

lemma split_by_append:
  "split_by P (a @ b) =
     butlast (split_by P a) @ (last (split_by P a) @ hd (split_by P b)) # tl (split_by P b)"
proof (induction a)
  case Nil
  show ?case by (cases "split_by P b") simp_all
next
  case (Cons c a)
  show ?case
  proof (cases "P c")
    case True
    then show ?thesis using Cons.IH by simp
  next
    case False
    obtain w ws where s: "split_by P a = w # ws" by (meson neq_Nil_conv split_by_not_Nil)
    show ?thesis using False Cons.IH s by (cases ws) (simp_all split: list.splits)
  qed
qed

lemma split_by_Cons:
  "split_by P (c # s) =
     (if P c then [] # split_by P s else (c # hd (split_by P s)) # tl (split_by P s))"
  by (cases "split_by P s") auto

lemma split_by_map:
  "(\<And>c. P (f c) = P c) \<Longrightarrow> split_by P (map f s) = map (map f) (split_by P s)"
  by (induction s) (auto simp: split_by_Cons hd_map map_tl simp del: split_by.simps(2))

lemma split_whitespace_Nil [simp]: "split_whitespace [] = []"
  by (simp add: split_whitespace_def)

lemma split_whitespace_map:
  "(\<And>c. is_ws (f c) = is_ws c) \<Longrightarrow> split_whitespace (map f s) = map (map f) (split_whitespace s)"
  by (simp add: split_whitespace_def split_by_map filter_map o_def)

text \<open>How one more character in front changes the words of a text.\<close>

definition word_break :: "string \<Rightarrow> bool" where
  "word_break s = (case s of [] \<Rightarrow> True | c # _ \<Rightarrow> is_ws c)"

lemma split_whitespace_Cons_ws: "is_ws c \<Longrightarrow> split_whitespace (c # s) = split_whitespace s"
  by (simp add: split_whitespace_def)

lemma split_whitespace_Cons_break:
  "\<not> is_ws c \<Longrightarrow> word_break s \<Longrightarrow> split_whitespace (c # s) = [c] # split_whitespace s"
  by (cases s) (auto simp: split_whitespace_def word_break_def split_by_Cons simp del: split_by.simps(2))

lemma split_whitespace_Cons_glue:
  assumes "\<not> is_ws c" "\<not> word_break s"
  obtains w ws where "split_whitespace s = w # ws" "split_whitespace (c # s) = (c # w) # ws"
  using assms
  by (cases s) (auto simp: split_whitespace_def word_break_def split_by_Cons simp del: split_by.simps(2))

lemma split_whitespace_nonempty: "w \<in> set (split_whitespace s) \<Longrightarrow> w \<noteq> []"
  by (simp add: split_whitespace_def)

section \<open>Squeezing white space\<close>

text \<open>\<open>split_whitespace().collect().join(" ")\<close>: every run of white space becomes one blank.\<close>

definition squeeze :: "string \<Rightarrow> string" where
  "squeeze s = join '' '' (split_whitespace s)"

definition blank_before :: "string \<Rightarrow> string" where
  "blank_before s = (if s = [] then [] else CHR '' '' # s)"

lemma join_eq_Nil: "(\<forall>w \<in> set ws. w \<noteq> []) \<Longrightarrow> join sep ws = [] \<longleftrightarrow> ws = []"
  by (cases "(sep, ws)" rule: join.cases) auto

lemma join_Cons: "join '' '' (w # ws) = w @ (if ws = [] then [] else CHR '' '' # join '' '' ws)"
  by (cases ws) simp_all

lemma squeeze_Cons:
  "squeeze (c # s) =
     (if is_ws c then squeeze s
      else if word_break s then c # blank_before (squeeze s) else c # squeeze s)"
proof (cases "is_ws c")
  case True
  then show ?thesis by (simp add: squeeze_def split_whitespace_Cons_ws)
next
  case c: False
  show ?thesis
  proof (cases "word_break s")
    case True
    have "squeeze s = [] \<longleftrightarrow> split_whitespace s = []"
      unfolding squeeze_def by (rule join_eq_Nil) (auto dest: split_whitespace_nonempty)
    then show ?thesis
      using c True by (simp add: squeeze_def split_whitespace_Cons_break join_Cons blank_before_def)
  next
    case False
    then obtain w ws where "split_whitespace s = w # ws" "split_whitespace (c # s) = (c # w) # ws"
      using c split_whitespace_Cons_glue by blast
    then show ?thesis using c False by (simp add: squeeze_def join_Cons)
  qed
qed

lemma squeeze_Nil [simp]: "squeeze [] = []"
  by (simp add: squeeze_def)

text \<open>Squeezing a longer text keeps the squeezed form of each part of it.\<close>

lemma squeeze_append_right: "\<exists>p. squeeze (a @ s) = p @ squeeze s"
proof (induction a)
  case (Cons c a)
  then obtain p where p: "squeeze (a @ s) = p @ squeeze s" by blast
  then have "squeeze (a @ s) = [] \<Longrightarrow> squeeze s = []" by simp
  then have "blank_before (squeeze (a @ s)) = (if p @ squeeze s = [] then [] else CHR '' '' # p) @ squeeze s"
    using p by (auto simp: blank_before_def)
  then have "\<exists>q. blank_before (squeeze (a @ s)) = q @ squeeze s" by blast
  then show ?case using p by (metis append_Cons squeeze_Cons)
qed simp

lemma squeeze_append_left: "\<exists>q. squeeze (s @ b) = squeeze s @ q"
proof (induction s)
  case (Cons c s)
  then obtain q where q: "squeeze (s @ b) = squeeze s @ q" by blast
  show ?case
  proof (cases s)
    case Nil
    then show ?thesis by (cases "is_ws c") (auto simp: squeeze_Cons [of c] word_break_def blank_before_def)
  next
    case (Cons d t)
    then have "word_break (s @ b) = word_break s" by (simp add: word_break_def)
    moreover have "\<exists>r. blank_before (squeeze s @ q) = blank_before (squeeze s) @ r"
      by (auto simp: blank_before_def)
    ultimately show ?thesis using q by (auto simp: squeeze_Cons [of c])
  qed
qed simp

lemma squeeze_contains: "str_contains (squeeze (a @ g @ b)) (squeeze g)"
proof -
  obtain p where "squeeze (a @ g @ b) = p @ squeeze (g @ b)" using squeeze_append_right by blast
  moreover obtain q where "squeeze (g @ b) = squeeze g @ q" using squeeze_append_left by blast
  ultimately show ?thesis by (auto simp: str_contains_iff)
qed

text \<open>
  Splitting at a separator that is not white space and then into words gives the same lists of
  words before and after squeezing.
\<close>

definition piece_words :: "(char \<Rightarrow> bool) \<Rightarrow> string \<Rightarrow> string list list" where
  "piece_words P s = map split_whitespace (split_by P s)"

lemma piece_words_Nil [simp]: "piece_words P [] = [[]]"
  by (simp add: piece_words_def)

lemma piece_words_sep: "P c \<Longrightarrow> piece_words P (c # s) = [] # piece_words P s"
  by (simp add: piece_words_def)

lemma piece_words_ws: "\<not> P c \<Longrightarrow> is_ws c \<Longrightarrow> piece_words P (c # s) = piece_words P s"
  by (cases "split_by P s")
    (simp_all add: piece_words_def split_by_Cons split_whitespace_Cons_ws del: split_by.simps(2))

lemma word_break_hd_split:
  "word_break (hd (split_by P s)) \<longleftrightarrow> word_break s \<or> P (hd s)"
  by (cases s) (auto simp: word_break_def split_by_Cons simp del: split_by.simps(2))

lemma piece_words_break:
  assumes "\<not> P c" "\<not> is_ws c" "word_break s \<or> P (hd s)"
  shows "piece_words P (c # s) = ([c] # hd (piece_words P s)) # tl (piece_words P s)"
  using assms word_break_hd_split [of P s]
  by (cases "split_by P s")
    (simp_all add: piece_words_def split_by_Cons split_whitespace_Cons_break del: split_by.simps(2))

lemma piece_words_glue:
  assumes "\<not> P c" "\<not> is_ws c" "\<not> word_break s" "\<not> P (hd s)"
  shows "piece_words P (c # s)
    = ((c # hd (hd (piece_words P s))) # tl (hd (piece_words P s))) # tl (piece_words P s)"
proof -
  obtain v vs where s: "split_by P s = v # vs" by (meson neq_Nil_conv split_by_not_Nil)
  then have "\<not> word_break v" using assms(3,4) word_break_hd_split [of P s] by simp
  then obtain w ws where "split_whitespace v = w # ws" "split_whitespace (c # v) = (c # w) # ws"
    using assms(2) split_whitespace_Cons_glue by blast
  then show ?thesis
    using assms s by (simp add: piece_words_def split_by_Cons del: split_by.simps(2))
qed

lemma hd_squeeze: "\<not> word_break s \<Longrightarrow> hd (squeeze s) = hd s \<and> \<not> word_break (squeeze s)"
  by (cases s) (auto simp: word_break_def squeeze_Cons)

lemma piece_words_squeeze:
  assumes "\<And>c. P c \<Longrightarrow> \<not> is_ws c"
  shows "piece_words P (squeeze s) = piece_words P s"
proof (induction s)
  case (Cons c s)
  have blank: "is_ws (CHR '' '')" by (simp add: is_ws_def)
  then have nP: "\<not> P (CHR '' '')" using assms by blast
  have b: "piece_words P (blank_before t) = piece_words P t" "word_break (blank_before t)" for t
    using blank nP by (auto simp: blank_before_def word_break_def piece_words_ws)
  show ?case
  proof (cases "is_ws c")
    case True
    then have "\<not> P c" using assms by blast
    then show ?thesis using True Cons.IH by (simp add: squeeze_Cons piece_words_ws)
  next
    case c: False
    show ?thesis
    proof (cases "P c")
      case True
      then show ?thesis using c Cons.IH by (simp add: squeeze_Cons piece_words_sep b)
    next
      case False
      then show ?thesis
        using c Cons.IH hd_squeeze [of s]
        by (cases "word_break s"; cases "P (hd s)")
          (simp_all add: squeeze_Cons piece_words_break piece_words_glue b)
    qed
  qed
qed simp

lemma split_whitespace_trim: "split_whitespace (trim s) = split_whitespace s"
proof -
  have front: "split_whitespace (dropWhile is_ws t) = split_whitespace t" for t
    by (induction t) (auto simp: split_whitespace_Cons_ws)
  have rear: "split_whitespace (rev (dropWhile is_ws (rev t))) = split_whitespace t" for t
  proof (induction t rule: rev_induct)
    case (snoc c t)
    obtain xs x where "split_by is_ws t = xs @ [x]"
      by (metis append_butlast_last_id split_by_not_Nil)
    then have "is_ws c \<Longrightarrow> split_whitespace (t @ [c]) = split_whitespace t"
      by (simp add: split_whitespace_def split_by_append)
    then show ?case using snoc by (cases "is_ws c") simp_all
  qed simp
  show ?thesis by (simp add: trim_def trim_matches_def front rear)
qed

section \<open>Lower case\<close>

lemma lower_char_ws [simp]: "is_ws (lower_char c) = is_ws c"
proof (cases "is_upper c")
  case True
  then have n: "(of_char (lower_char c) :: nat) = of_char c + 32"
    by (simp add: lower_char_def is_upper_def)
  have "(of_char (CHR '' '') :: nat) = 32" by simp
  then have "c \<noteq> CHR '' ''" "lower_char c \<noteq> CHR '' ''"
    using True n by (auto simp: is_upper_def)
  then show ?thesis using True n by (simp add: is_ws_def is_upper_def)
qed (simp add: lower_char_def)

lemma lower_char_sep:
  assumes "\<not> is_alpha d"
  shows "lower_char c = d \<longleftrightarrow> c = d"
proof (cases "is_upper c")
  case True
  then have "(of_char (lower_char c) :: nat) = of_char c + 32"
    by (simp add: lower_char_def is_upper_def)
  then have "is_alpha (lower_char c)" using True by (simp add: is_alpha_def is_upper_def)
  moreover have "is_alpha c" using True by (simp add: is_alpha_def)
  ultimately show ?thesis using assms by blast
qed (simp add: lower_char_def)

lemma to_lowercase_append [simp]: "to_lowercase (a @ b) = to_lowercase a @ to_lowercase b"
  by (simp add: to_lowercase_def)

text \<open>Lower-casing and squeezing a command keep its stages, word by word.\<close>

lemma piece_words_lowercase:
  assumes "\<And>c. P (lower_char c) = P c"
  shows "piece_words P (to_lowercase s) = map (map to_lowercase) (piece_words P s)"
  using assms by (simp add: piece_words_def to_lowercase_def split_by_map split_whitespace_map o_def)

section \<open>Lines\<close>

text \<open>\<open>str::lines\<close>: pieces between newlines, without a final empty one and without a trailing
  carriage return.\<close>

definition strip_cr :: "string \<Rightarrow> string" where
  "strip_cr l = (if l \<noteq> [] \<and> last l = CHR 0x0D then butlast l else l)"

definition str_lines :: "string \<Rightarrow> string list" where
  "str_lines s =
     (let ps = split_by (\<lambda>c. c = nl) s
      in map strip_cr (if last ps = [] then butlast ps else ps))"

definition unlines :: "string list \<Rightarrow> string" where
  "unlines ls = concat (map (\<lambda>l. l @ [nl]) ls)"

definition plain_line :: "string \<Rightarrow> bool" where
  "plain_line l \<longleftrightarrow> nl \<notin> set l \<and> (l = [] \<or> last l \<noteq> CHR 0x0D)"

lemma split_unlines:
  "list_all plain_line ls \<Longrightarrow> split_by (\<lambda>c. c = nl) (unlines ls) = ls @ [[]]"
proof (induction ls)
  case (Cons l ls)
  then have "split_by (\<lambda>c. c = nl) l = [l]"
    by (intro split_by_none) (auto simp: plain_line_def)
  then show ?case using Cons
    by (simp add: unlines_def split_by_append)
qed (simp add: unlines_def)

lemma str_lines_unlines: "list_all plain_line ls \<Longrightarrow> str_lines (unlines ls) = ls"
  by (induction ls) (auto simp: str_lines_def split_unlines strip_cr_def plain_line_def list_all_iff Let_def)

lemma split_join_words:
  assumes "list_all (\<lambda>w. w \<noteq> [] \<and> (\<forall>c \<in> set w. \<not> is_ws c)) ws"
  shows "split_whitespace (join '' '' ws) = ws"
  using assms
proof (induction ws)
  case (Cons w ws)
  have w: "split_by is_ws w = [w]" using Cons.prems by (intro split_by_none) simp
  show ?case
  proof (cases ws)
    case Nil
    then show ?thesis using w Cons.prems by (simp add: split_whitespace_def)
  next
    case (Cons v vs)
    have "is_ws (CHR '' '')" by (simp add: is_ws_def)
    then show ?thesis using Cons.IH Cons.prems w Cons
      by (simp add: split_whitespace_def split_by_append)
  qed
qed simp

lemma split_whitespace_words: "w \<in> set (split_whitespace s) \<Longrightarrow> w \<noteq> [] \<and> (\<forall>c \<in> set w. \<not> is_ws c)"
  using split_by_pieces [of w is_ws s] by (auto simp: split_whitespace_def)

lemma split_by_chars: "w \<in> set (split_by P s) \<Longrightarrow> set w \<subseteq> set s"
proof (induction s arbitrary: w)
  case (Cons d s)
  obtain v vs where s: "split_by P s = v # vs" by (meson neq_Nil_conv split_by_not_Nil)
  show ?case using Cons.prems Cons.IH [of v] Cons.IH [of w] s by (cases "P d") auto
qed simp

lemma join_set: "set (join sep ws) \<subseteq> set sep \<union> \<Union> (set ` set ws)"
  by (induction sep ws rule: join.induct) auto

end
