(* ===== verification/Policy.thy ===== *)
theory Policy
  imports Rust_Str
begin

text \<open>
  The command policy of the Mind daemon, src/mindd/src/daemon/policy.rs: which shell commands run
  at once, which need the user's confirmation, and which are refused whatever the user says. The
  tables are the source's tables, entry by entry.
\<close>

section \<open>Tables\<close>

definition OBSERVE_COMMANDS :: "string list" where
  "OBSERVE_COMMANDS = [
    ''ls'', ''cat'', ''head'', ''tail'', ''grep'', ''rg'', ''find'', ''wc'', ''du'', ''df'', ''free'',
    ''uptime'', ''uname'', ''id'', ''whoami'',
    ''hostname'', ''hostnamectl'', ''date'', ''lspci'', ''lsusb'', ''lsblk'', ''lscpu'', ''lsmod'',
    ''lsof'', ''dmesg'', ''journalctl'',
    ''systemctl'', ''loginctl'', ''nvidia-smi'', ''vulkaninfo'', ''glxinfo'', ''eglinfo'',
    ''wayland-info'', ''pacman'', ''checkupdates'',
    ''pactree'', ''paccache'', ''ip'', ''ss'', ''ping'', ''dig'', ''nmcli'', ''iw'', ''sensors'',
    ''nproc'', ''ps'', ''top'', ''pgrep'', ''pidof'',
    ''stat'', ''file'', ''which'', ''type'', ''env'', ''printenv'', ''readlink'', ''realpath'',
    ''sha256sum'', ''md5sum'', ''git'', ''cargo'',
    ''rustc'', ''python'', ''python3'', ''pip'', ''gcc'', ''clang'', ''make'', ''ldd'', ''objdump'',
    ''strings'', ''steam'', ''gamescope'',
    ''mangohud'', ''gamemoded'', ''gamemodelist'', ''protontricks'', ''wine'', ''winetricks'',
    ''flatpak'', ''getent'', ''true'',
    ''echo'', ''printf'', ''test'', ''sort'', ''uniq'', ''cut'', ''tr'', ''awk'', ''sed'', ''jq'',
    ''xargs'', ''diff'', ''cmp'', ''tree'',
    ''mount'', ''findmnt'', ''zramctl'', ''swapon'', ''sysctl'', ''modinfo'', ''udevadm'', ''bootctl'',
    ''efibootmgr'', ''fwupdmgr'',
    ''mkinitcpio'', ''dkms'', ''smartctl'', ''nvme'', ''hdparm'', ''fstrim'', ''timedatectl'',
    ''localectl'', ''resolvectl'', ''curl'', ''wget'']"

definition FORBIDDEN :: "string list" where
  "FORBIDDEN = [
    ''mkfs'', ''dd if='', ''> /dev/sd'', ''> /dev/nvme'', ''of=/dev/sd'', ''of=/dev/nvme'',
    ''shred'', ''wipefs'', ''sgdisk --zap'', ''sgdisk -z'', ''blkdiscard'', ''parted'', ''fdisk'',
    ''cfdisk'', ''cryptsetup luksformat'',
    ''cryptsetup erase'', ''nvme format'', ''hdparm --security-erase'', ''btrfs subvolume delete /'',
    ''zpool destroy'',
    ''pacman -rns base'', ''pacman -r base'', ''pacman -rdd'',
    ''> /etc/fstab'', ''> /etc/passwd'', ''> /etc/shadow'', ''> /etc/pacman.conf'',
    '':(){'', ''kill -9 -1'', ''killall5'', ''pkill -9 -u root'',
    ''mind.jsonl'', ''systemctl mask mindd'', ''systemctl disable mindd'', ''systemctl mask greetd'',
    ''rm -rf /var/lib/mindos'',
    ''passwd root'', ''userdel'', ''chmod -r 777 /'', ''chown -r'', ''/dev/mem'', ''/dev/kmem'',
    ''usermod -l'',
    ''iptables -f'', ''nft flush ruleset'', ''ufw --force reset'']"

definition UNDELETABLE :: "string list" where
  "UNDELETABLE = [
    ''/'', ''/*'', ''~'', ''$home'', ''/bin'', ''/boot'', ''/dev'', ''/etc'', ''/home'', ''/lib'',
    ''/lib64'', ''/opt'', ''/proc'', ''/root'',
    ''/run'', ''/sbin'', ''/srv'', ''/sys'', ''/usr'', ''/var'', ''/var/lib'', ''/var/lib/mindos'',
    ''/var/lib/pacman'', ''/var/cache'']"

definition INTERPRETERS :: "string list" where
  "INTERPRETERS = [''sh'', ''bash'', ''zsh'', ''fish'', ''dash'', ''ksh'', ''python'', ''python2'',
    ''python3'', ''perl'', ''ruby'', ''node'']"

definition PROTECTED_UNITS :: "string list" where
  "PROTECTED_UNITS = [''mindd'', ''greetd'', ''seatd'', ''systemd-'', ''dbus'']"

section \<open>Commands that are never allowed\<close>

text \<open>The separators of pipeline stages and command lists.\<close>

definition stage_sep :: "char \<Rightarrow> bool" where
  "stage_sep c \<longleftrightarrow> c = CHR ''|'' \<or> c = CHR '';'' \<or> c = CHR ''&''"

text \<open>\<open>rsplit('/').next()\<close>: the last component of a path.\<close>

definition last_component :: "string \<Rightarrow> string" where
  "last_component w = last (split_by (\<lambda>c. c = CHR ''/'') w)"

definition quote_char :: "char \<Rightarrow> bool" where
  "quote_char c \<longleftrightarrow> c = CHR 0x22 \<or> c = CHR 0x27"

definition rm_target :: "string \<Rightarrow> string" where
  "rm_target w =
     (let target = trim_end_matches (\<lambda>c. c = CHR ''/'') (trim_matches quote_char w)
      in if target = [] then ''/'' else target)"

definition stage_deletes :: "string \<Rightarrow> bool" where
  "stage_deletes stage =
     (case dropWhile (\<lambda>w. w \<in> {''sudo'', ''doas'', ''env''}) (split_whitespace stage) of
        [] \<Rightarrow> False
      | prog # ws \<Rightarrow> last_component prog = ''rm''
          \<and> list_ex (\<lambda>w. \<not> starts_with w ''-'' \<and> rm_target w \<in> set UNDELETABLE) ws)"

definition deletes_a_system_path :: "string \<Rightarrow> bool" where
  "deletes_a_system_path cmd = list_ex stage_deletes (split_by stage_sep cmd)"

text \<open>The program a pipeline stage runs, and the scan for an interpreter after a download.\<close>

definition stage_program :: "string \<Rightarrow> string" where
  "stage_program stage =
     (case List.find (\<lambda>w. w \<notin> {''sudo'', ''doas'', ''env'', ''command'', ''exec''}) (split_whitespace stage) of
        None \<Rightarrow> '''' | Some w \<Rightarrow> last_component w)"

fun scan_stages :: "bool \<Rightarrow> string list \<Rightarrow> bool" where
  "scan_stages downloaded [] = False"
| "scan_stages downloaded (stage # stages) =
     (let prog = stage_program stage in
      if downloaded \<and> prog \<in> set INTERPRETERS then True
      else scan_stages (downloaded \<or> prog = ''curl'' \<or> prog = ''wget'') stages)"

definition pipes_download_to_shell :: "string \<Rightarrow> bool" where
  "pipes_download_to_shell cmd =
     scan_stages False (map trim (split_by (\<lambda>c. c = CHR ''|'') cmd))"

definition has_mutating_shell :: "string \<Rightarrow> bool" where
  "has_mutating_shell cmd \<longleftrightarrow> str_contains cmd ''>'' \<or> str_contains cmd ''$('' \<or> str_contains cmd [CHR 0x60]
     \<or> str_contains cmd ''<(''"

section \<open>Commands that only read\<close>

definition has_word :: "string list \<Rightarrow> string \<Rightarrow> bool" where
  "has_word ks rest = list_ex (\<lambda>k. list_ex (\<lambda>w. w = k) (split_whitespace rest)) ks"

definition CURL_LONG :: "string list" where
  "CURL_LONG = [
    ''--output'', ''--output-dir'', ''--upload-file'', ''--form'', ''--form-string'', ''--data'',
    ''--data-raw'',
    ''--data-binary'', ''--data-ascii'', ''--data-urlencode'', ''--json'', ''--user'', ''--remote-name'',
    ''--remote-name-all'', ''--post301'', ''--post302'', ''--post303'', ''--post-data'', ''--post-file'']"

text \<open>The bundled short flags of one word; \<open>next\<close> is the word after it, or empty.\<close>

definition short_flags_write :: "string \<Rightarrow> string \<Rightarrow> bool" where
  "short_flags_write w nxt =
     (if \<not> starts_with w ''-'' \<or> starts_with w ''--'' then False
      else let letters = takeWhile is_alpha (drop 1 w);
               tail = drop (1 + length letters) w
           in list_ex (\<lambda>c.
                if c = CHR ''o'' \<or> c = CHR ''O'' then (if tail = [] then nxt else tail) \<noteq> ''-''
                else c \<in> {CHR ''T'', CHR ''F'', CHR ''d'', CHR ''u''}) letters)"

fun curl_short :: "string list \<Rightarrow> bool" where
  "curl_short [] = False"
| "curl_short (w # ws) =
     (short_flags_write w (case ws of [] \<Rightarrow> '''' | v # _ \<Rightarrow> v) \<or> curl_short ws)"

fun curl_method :: "string list \<Rightarrow> bool" where
  "curl_method (v # w # ws) =
     (((v = ''-X'' \<or> v = ''--request'') \<and> \<not> eq_ignore_case w ''get'') \<or> curl_method (w # ws))"
| "curl_method ws = False"

definition curl_writes :: "string \<Rightarrow> bool" where
  "curl_writes rest =
     (let words = split_whitespace rest in
      curl_short words
      \<or> list_ex (\<lambda>f. list_ex (\<lambda>w. w = f \<or> starts_with w (f @ ''='')) words) CURL_LONG
      \<or> curl_method words
      \<or> list_ex (\<lambda>w. starts_with w ''--request='' \<and> \<not> eq_ignore_case (drop 10 w) ''get'') words)"

definition mutating :: "string \<Rightarrow> string \<Rightarrow> bool" where
  "mutating prog rest =
     (if prog = ''pacman'' then
        str_contains rest ''-S'' \<and> \<not> str_contains rest ''-Ss'' \<and> \<not> str_contains rest ''-Si''
          \<and> \<not> str_contains rest ''-Sl'' \<and> \<not> str_contains rest ''-Sg''
        \<or> str_contains rest ''-R'' \<or> str_contains rest ''-U''
      else if prog = ''systemctl'' then
        has_word [''start'', ''stop'', ''restart'', ''enable'', ''disable'', ''mask'', ''unmask'', ''reboot'',
          ''poweroff'', ''kill'', ''daemon-reload'', ''set-default'', ''isolate''] rest
      else if prog = ''git'' then
        has_word [''push'', ''reset'', ''clean'', ''checkout'', ''rebase'', ''merge'', ''commit'', ''rm'', ''stash''] rest
      else if prog = ''cargo'' then starts_with rest ''install'' \<or> starts_with rest ''publish''
      else if prog = ''pip'' then starts_with rest ''install'' \<or> starts_with rest ''uninstall''
      else if prog = ''flatpak'' then
        \<not> starts_with rest ''list'' \<and> \<not> starts_with rest ''info'' \<and> \<not> starts_with rest ''search''
      else if prog = ''nmcli'' then
        str_contains rest '' up'' \<or> str_contains rest '' down'' \<or> str_contains rest ''add''
        \<or> str_contains rest ''modify'' \<or> str_contains rest ''delete'' \<or> str_contains rest ''connect''
      else if prog = ''ip'' then
        has_word [''add'', ''del'', ''set'', ''flush'', ''change'', ''replace''] rest
      else if prog = ''sysctl'' then str_contains rest ''-w'' \<or> str_contains rest ''=''
      else if prog = ''mount'' then rest \<noteq> []
      else if prog = ''swapon'' then \<not> str_contains rest ''--show'' \<and> \<not> str_contains rest ''-s''
      else if prog \<in> {''fstrim'', ''hdparm'', ''mkinitcpio'', ''dkms'', ''efibootmgr'', ''fwupdmgr'', ''bootctl''} then
        \<not> (str_contains rest ''-l'' \<or> str_contains rest ''status'' \<or> str_contains rest ''list''
           \<or> str_contains rest ''get-'' \<or> rest = [] \<and> prog = ''bootctl'')
      else if prog = ''sed'' then str_contains rest ''-i''
      else if prog = ''curl'' \<or> prog = ''wget'' then curl_writes rest
      else if prog \<in> {''steam'', ''gamescope'', ''wine'', ''winetricks'', ''protontricks''} then True
      else if prog \<in> {''timedatectl'', ''localectl'', ''hostnamectl''} then starts_with rest ''set-''
      else if prog = ''udevadm'' then starts_with rest ''trigger'' \<or> starts_with rest ''control''
      else False)"

section \<open>Classification\<close>

datatype policy = Observe | Change | Forbidden

record policy_config =
  pc_autopilot :: bool
  pc_autopilot_categories :: "string list"
  pc_extra_observe_commands :: "string list"
  pc_allow_system_changes :: bool
  pc_allow_aur :: bool

text \<open>\<open>PolicyConfig::default\<close>.\<close>

definition default_policy :: policy_config where
  "default_policy = \<lparr>pc_autopilot = False, pc_autopilot_categories = [],
     pc_extra_observe_commands = [], pc_allow_system_changes = True, pc_allow_aur = True\<rparr>"

definition stage_observes :: "policy_config \<Rightarrow> string \<Rightarrow> bool" where
  "stage_observes cfg stage0 =
     (let stage = trim (trim_start_str ''sudo '' stage0);
          words = split_whitespace stage;
          prog = last_component (case words of [] \<Rightarrow> '''' | w # _ \<Rightarrow> w);
          rest = join '' '' (drop 1 words)
      in (prog \<in> set OBSERVE_COMMANDS \<or> prog \<in> set (pc_extra_observe_commands cfg))
         \<and> \<not> mutating prog rest)"

definition command_stages :: "string \<Rightarrow> string list" where
  "command_stages cmd = filter (\<lambda>s. s \<noteq> []) (map trim (split_by stage_sep cmd))"

definition classify_command :: "string \<Rightarrow> policy_config \<Rightarrow> policy" where
  "classify_command cmd cfg =
     (let lower = join '' '' (split_whitespace (to_lowercase cmd)) in
      if list_ex (\<lambda>f. str_contains lower f) FORBIDDEN \<or> pipes_download_to_shell lower
         \<or> deletes_a_system_path lower then Forbidden
      else if has_mutating_shell cmd then Change
      else if list_all (stage_observes cfg) (command_stages cmd) then Observe
      else Change)"

definition protected_unit :: "string \<Rightarrow> bool" where
  "protected_unit unit_name = list_ex (\<lambda>p. starts_with unit_name p) PROTECTED_UNITS"

text \<open>\<open>needs_confirmation\<close> says whether a call has to be confirmed by the user.\<close>

definition needs_confirmation :: "policy \<Rightarrow> string \<Rightarrow> bool \<Rightarrow> policy_config \<Rightarrow> bool" where
  "needs_confirmation p category autopilot cfg =
     (case p of
        Observe \<Rightarrow> False
      | Forbidden \<Rightarrow> True
      | Change \<Rightarrow> \<not> (autopilot \<or> pc_autopilot cfg \<or> category \<in> set (pc_autopilot_categories cfg)))"

section \<open>Facts\<close>

lemma stage_sep_lower [simp]: "stage_sep (lower_char c) = stage_sep c"
  by (simp add: stage_sep_def lower_char_sep is_alpha_def is_upper_def)

lemma bar_lower: "(lower_char c = CHR ''|'') = (c = CHR ''|'')"
  by (simp add: lower_char_sep is_alpha_def is_upper_def)

lemma stage_sep_not_ws: "stage_sep c \<Longrightarrow> \<not> is_ws c"
  by (auto simp: stage_sep_def is_ws_def)

lemma lowered_stage_words:
  "map split_whitespace (split_by stage_sep (squeeze (to_lowercase cmd)))
     = map (\<lambda>st. map to_lowercase (split_whitespace st)) (split_by stage_sep cmd)"
  using piece_words_squeeze [of stage_sep "to_lowercase cmd"] stage_sep_not_ws
    piece_words_lowercase [of stage_sep cmd]
  by (simp add: piece_words_def o_def)

lemma lowered_bar_words:
  "map split_whitespace (split_by (\<lambda>c. c = CHR ''|'') (squeeze (to_lowercase cmd)))
     = map (\<lambda>st. map to_lowercase (split_whitespace st)) (split_by (\<lambda>c. c = CHR ''|'') cmd)"
  using piece_words_squeeze [of "\<lambda>c. c = CHR ''|''" "to_lowercase cmd"]
    piece_words_lowercase [of "\<lambda>c. c = CHR ''|''" cmd, OF bar_lower]
  by (simp add: piece_words_def o_def is_ws_def)

lemma classify_forbidden_iff:
  "classify_command cmd cfg = Forbidden \<longleftrightarrow>
     list_ex (str_contains (squeeze (to_lowercase cmd))) FORBIDDEN
     \<or> pipes_download_to_shell (squeeze (to_lowercase cmd))
     \<or> deletes_a_system_path (squeeze (to_lowercase cmd))"
  by (simp add: classify_command_def Let_def squeeze_def)

text \<open>What \<open>stage_deletes\<close> and \<open>stage_program\<close> look at is the list of words only.\<close>

definition words_delete :: "string list \<Rightarrow> bool" where
  "words_delete words =
     (case dropWhile (\<lambda>w. w \<in> {''sudo'', ''doas'', ''env''}) words of
        [] \<Rightarrow> False
      | prog # ws \<Rightarrow> last_component prog = ''rm''
          \<and> list_ex (\<lambda>w. \<not> starts_with w ''-'' \<and> rm_target w \<in> set UNDELETABLE) ws)"

definition words_program :: "string list \<Rightarrow> string" where
  "words_program words =
     (case List.find (\<lambda>w. w \<notin> {''sudo'', ''doas'', ''env'', ''command'', ''exec''}) words of
        None \<Rightarrow> '''' | Some w \<Rightarrow> last_component w)"

lemma stage_deletes_words: "stage_deletes st = words_delete (split_whitespace st)"
  by (simp add: stage_deletes_def words_delete_def)

lemma stage_program_words: "stage_program st = words_program (split_whitespace st)"
  by (simp add: stage_program_def words_program_def)

definition is_download :: "string \<Rightarrow> bool" where
  "is_download prog \<longleftrightarrow> prog = ''curl'' \<or> prog = ''wget''"

text \<open>An interpreter that comes after a download, in a list of programs.\<close>

definition fed_interpreter :: "bool \<Rightarrow> string list \<Rightarrow> bool" where
  "fed_interpreter d progs \<longleftrightarrow>
     (\<exists>j < length progs. progs ! j \<in> set INTERPRETERS \<and> (d \<or> (\<exists>i < j. is_download (progs ! i))))"

lemma fed_interpreter_Cons:
  "fed_interpreter d (p # ps) \<longleftrightarrow> d \<and> p \<in> set INTERPRETERS \<or> fed_interpreter (d \<or> is_download p) ps"
proof -
  have split: "(\<exists>j < length (p # ps). Q j) \<longleftrightarrow> Q 0 \<or> (\<exists>j < length ps. Q (Suc j))" for Q
    by (auto simp: less_Suc_eq_0_disj)
  have split_i: "(\<exists>i < Suc j. Q i) \<longleftrightarrow> Q 0 \<or> (\<exists>i < j. Q (Suc i))" for Q j
    by (auto simp: less_Suc_eq_0_disj)
  show ?thesis unfolding fed_interpreter_def split split_i by auto
qed

lemma scan_stages_iff: "scan_stages d stages = fed_interpreter d (map stage_program stages)"
proof (induction stages arbitrary: d)
  case (Cons st stages)
  then show ?case by (auto simp: Let_def fed_interpreter_Cons is_download_def)
qed (simp add: fed_interpreter_def)

lemma deletes_a_system_path_words:
  "deletes_a_system_path s \<longleftrightarrow> (\<exists>ws \<in> set (map split_whitespace (split_by stage_sep s)). words_delete ws)"
  by (auto simp: deletes_a_system_path_def list_ex_iff stage_deletes_words)

lemma pipes_download_words:
  "pipes_download_to_shell s
     = fed_interpreter False
         (map words_program (map split_whitespace (split_by (\<lambda>c. c = CHR ''|'') s)))"
  by (simp add: pipes_download_to_shell_def scan_stages_iff stage_program_words split_whitespace_trim
      o_def)

section \<open>Properties\<close>

text \<open>
  C4. A command that contains a forbidden fragment anywhere is refused, in whatever mixture of
  upper and lower case and with whatever white space between the words of the fragment.
\<close>

theorem forbidden_fragment_refused:
  assumes "squeeze (to_lowercase g) \<in> set FORBIDDEN"
  shows "classify_command (a @ g @ b) cfg = Forbidden"
  using assms squeeze_contains [of "to_lowercase a" "to_lowercase g" "to_lowercase b"]
  by (auto simp: classify_forbidden_iff list_ex_iff)

theorem forbidden_fragment_refused_witness:
  "classify_command (''sudo '' @ ''NVME   Format'' @ '' /dev/nvme0n1p2'') default_policy = Forbidden"
  by (rule forbidden_fragment_refused) code_simp

text \<open>
  A command one of whose stages is an \<open>rm\<close> (bare, by path, or behind \<open>sudo\<close>, \<open>doas\<close>,
  \<open>env\<close>) with a protected directory among its arguments is refused, whatever options, other
  arguments and other stages it has, and however it is spaced or capitalised.
\<close>

theorem rm_of_system_path_refused:
  assumes "st \<in> set (split_by stage_sep cmd)"
    and "map to_lowercase (split_whitespace st) = pre @ prog # args"
    and "set pre \<subseteq> {''sudo'', ''doas'', ''env''}"
    and "last_component prog = ''rm''"
    and "arg \<in> set args" "\<not> starts_with arg ''-''" "rm_target arg \<in> set UNDELETABLE"
  shows "classify_command cmd cfg = Forbidden"
proof -
  have "prog \<notin> {''sudo'', ''doas'', ''env''}"
    using assms(4) by (auto simp: last_component_def)
  then have "dropWhile (\<lambda>w. w \<in> {''sudo'', ''doas'', ''env''}) (pre @ prog # args) = prog # args"
    using assms(3) by (subst dropWhile_append2) auto
  then have "words_delete (map to_lowercase (split_whitespace st))"
    unfolding assms(2) words_delete_def using assms(4-7) by (auto simp: list_ex_iff)
  then have "deletes_a_system_path (squeeze (to_lowercase cmd))"
    unfolding deletes_a_system_path_words lowered_stage_words using assms(1) by auto
  then show ?thesis by (simp add: classify_forbidden_iff)
qed

theorem rm_of_system_path_refused_witness:
  "classify_command ''ls;  sudo   /bin/RM  -r -f  /usr//  x'' default_policy = Forbidden"
  by (rule rm_of_system_path_refused [where st = "''  sudo   /bin/RM  -r -f  /usr//  x''"
        and pre = "[''sudo'']" and prog = "''/bin/rm''"
        and args = "[''-r'', ''-f'', ''/usr//'', ''x'']" and arg = "''/usr//''"]) code_simp+

text \<open>
  A pipeline that downloads in one stage and runs an interpreter in a later one is refused,
  however many stages lie between them and however it is spaced or capitalised.
\<close>

theorem download_to_shell_refused:
  assumes "i < j" "j < length stages" "stages = split_by (\<lambda>c. c = CHR ''|'') cmd"
    and "words_program (map to_lowercase (split_whitespace (stages ! i))) \<in> {''curl'', ''wget''}"
    and "words_program (map to_lowercase (split_whitespace (stages ! j))) \<in> set INTERPRETERS"
  shows "classify_command cmd cfg = Forbidden"
proof -
  have "pipes_download_to_shell (squeeze (to_lowercase cmd))"
    unfolding pipes_download_words lowered_bar_words fed_interpreter_def
    using assms by (intro exI [of _ j] conjI disjI2 exI [of _ i]) (auto simp: is_download_def)
  then show ?thesis by (simp add: classify_forbidden_iff)
qed

theorem download_to_shell_refused_witness:
  "classify_command ''curl -s https://x | tee log |  sudo  BASH'' default_policy = Forbidden"
  by (rule download_to_shell_refused [where i = 0 and j = 2
        and stages = "[''curl -s https://x '', '' tee log '', ''  sudo  BASH'']"]) code_simp+

text \<open>
  A command that runs without confirmation holds no output redirection, no command
  substitution and no process substitution, and each of its stages runs a program of the
  read-only list (or of the configured extension) with arguments that are not among that
  program's mutating forms. In particular \<open>rm\<close>, which is on neither list, starts no stage.
  Stages are what the code splits a command into, at bars, semicolons and ampersands; it does not
  split at newlines (\<open>newline_hides_a_command\<close>).
\<close>

theorem observe_is_read_only:
  assumes "classify_command cmd cfg = Observe" "st \<in> set (command_stages cmd)"
    and "words = split_whitespace (trim_start_str ''sudo '' st)" "words = prog # args"
  shows "CHR ''>'' \<notin> set cmd \<and> CHR 0x60 \<notin> set cmd
    \<and> last_component prog \<in> set OBSERVE_COMMANDS \<union> set (pc_extra_observe_commands cfg)
    \<and> \<not> mutating (last_component prog) (join '' '' args)"
proof -
  have "\<not> has_mutating_shell cmd" "stage_observes cfg st"
    using assms(1,2) by (auto simp: classify_command_def Let_def list_all_iff split: if_splits)
  moreover have "CHR ''>'' \<notin> set cmd" "CHR 0x60 \<notin> set cmd"
    using \<open>\<not> has_mutating_shell cmd\<close>
    by (auto simp: has_mutating_shell_def str_contains_iff dest!: split_list)
  moreover have "split_whitespace (trim_start_str ''sudo '' st) = prog # args"
    using assms(3,4) by simp
  ultimately show ?thesis
    by (auto simp: stage_observes_def Let_def split_whitespace_trim)
qed

theorem observe_is_read_only_witness:
  "\<not> mutating ''systemctl'' ''status sshd''"
  using observe_is_read_only [of "''dmesg | grep -i usb; sudo systemctl status sshd''" default_policy
      "''sudo systemctl status sshd''" "[''systemctl'', ''status'', ''sshd'']" "''systemctl''"
      "[''status'', ''sshd'']"]
  by code_simp

text \<open>
  The stages the classifier checks are separated by \<open>|\<close>, \<open>;\<close> and \<open>&\<close> only, while the shell
  that runs the text also separates commands at a newline. So a command that is refused on its own
  is classified read-only, and runs unconfirmed, once it stands on a line after a read-only one.
\<close>

theorem newline_hides_a_command:
  "classify_command ''rm -rf /home'' cfg = Forbidden
   \<and> classify_command (''ls'' @ nl # ''rm -rf /home'') cfg = Observe"
proof -
  have "list_all (stage_observes cfg) (command_stages (''ls'' @ nl # ''rm -rf /home''))"
  proof -
    have "command_stages (''ls'' @ nl # ''rm -rf /home'') = [''ls'' @ nl # ''rm -rf /home'']"
      by code_simp
    moreover have "split_whitespace (trim (trim_start_str ''sudo '' (''ls'' @ nl # ''rm -rf /home'')))
        = [''ls'', ''rm'', ''-rf'', ''/home'']"
      by code_simp
    moreover have "last_component ''ls'' = ''ls''" "''ls'' \<in> set OBSERVE_COMMANDS"
      "\<not> mutating ''ls'' ''rm -rf /home''"
      by code_simp+
    ultimately show ?thesis by (simp add: stage_observes_def)
  qed
  moreover have "\<not> has_mutating_shell (''ls'' @ nl # ''rm -rf /home'')" by code_simp
  moreover have "\<not> list_ex (str_contains (squeeze (to_lowercase (''ls'' @ nl # ''rm -rf /home'')))) FORBIDDEN"
    "\<not> pipes_download_to_shell (squeeze (to_lowercase (''ls'' @ nl # ''rm -rf /home'')))"
    "\<not> deletes_a_system_path (squeeze (to_lowercase (''ls'' @ nl # ''rm -rf /home'')))"
    "deletes_a_system_path (squeeze (to_lowercase (''rm -rf /home'')))"
    by code_simp+
  ultimately show ?thesis
    by (simp add: classify_command_def Let_def squeeze_def del: append.simps)
qed

end
