(* ===== verification/Tools.thy ===== *)
theory Tools
  imports Policy "HOL-Library.Word"
begin

text \<open>
  The tools the model may call, src/mindd/src/daemon/tools.rs: the table with each tool's policy and
  category, the policy of one call, and the functions that turn model-chosen text into shell
  commands, package lists, file names and boot parameters. The descriptions and JSON schemas of the
  table are text for the model and have no effect here.
\<close>

section \<open>Arguments\<close>

datatype json = JNull | JBool bool | JInt int | JStr string | JArr "json list" | JObj "(string \<times> json) list"

text \<open>\<open>args["key"]\<close> is \<open>Null\<close> when the key is missing or the value is not an object.\<close>

fun jget :: "json \<Rightarrow> string \<Rightarrow> json" where
  "jget (JObj kvs) k = (case map_of kvs k of None \<Rightarrow> JNull | Some v \<Rightarrow> v)"
| "jget _ k = JNull"

fun as_str :: "json \<Rightarrow> string option" where
  "as_str (JStr s) = Some s"
| "as_str _ = None"

fun as_array :: "json \<Rightarrow> json list option" where
  "as_array (JArr vs) = Some vs"
| "as_array _ = None"

definition str_or_empty :: "json \<Rightarrow> string" where
  "str_or_empty v = (case as_str v of None \<Rightarrow> '''' | Some s \<Rightarrow> s)"

text \<open>\<open>iter().filter_map(|v| v.as_str())\<close>\<close>

definition strings_of :: "json list \<Rightarrow> string list" where
  "strings_of vs = List.map_filter as_str vs"

section \<open>Configuration\<close>

record config =
  cfg_context :: "32 word"
  cfg_max_tokens :: "32 word"
  cfg_max_tool_rounds :: nat
  cfg_policy :: policy_config
  cfg_web_enabled :: bool

text \<open>\<open>agent::context_chars\<close>. The product stays below \<open>2 ^ 34\<close>, so \<open>saturating_mul\<close> is exact.\<close>

definition context_chars :: "config \<Rightarrow> nat" where
  "context_chars cfg = (unat (cfg_context cfg) - unat (cfg_max_tokens cfg)) * 3"

definition MAX_OUTPUT :: nat where
  "MAX_OUTPUT = 12000"

definition text_budget :: "config \<Rightarrow> nat" where
  "text_budget cfg = max 1500 (min (context_chars cfg div 2) MAX_OUTPUT)"

section \<open>The table\<close>

record tool_def =
  td_name :: string
  td_policy :: policy
  td_category :: string

definition base_tools :: "tool_def list" where
  "base_tools = map (\<lambda>(n, p, c). \<lparr>td_name = n, td_policy = p, td_category = c\<rparr>) [
     (''system_info'', Observe, ''info''), (''gpu_info'', Observe, ''info''),
     (''list_packages'', Observe, ''packages''), (''search_packages'', Observe, ''packages''),
     (''package_info'', Observe, ''packages''), (''check_updates'', Observe, ''update''),
     (''apply_updates'', Change, ''update''), (''install_packages'', Change, ''packages''),
     (''remove_packages'', Change, ''packages''), (''service_status'', Observe, ''services''),
     (''service_control'', Change, ''services''), (''journal'', Observe, ''info''),
     (''read_file'', Observe, ''files''), (''write_file'', Change, ''files''),
     (''disk_usage'', Observe, ''info''), (''run_command'', Change, ''shell''),
     (''set_kernel_parameter'', Change, ''boot''), (''reboot'', Change, ''power''),
     (''arch_news'', Observe, ''update''), (''update_status'', Observe, ''update''),
     (''health_check'', Observe, ''info''), (''notices'', Observe, ''info''),
     (''list_snapshots'', Observe, ''boot''), (''rollback'', Change, ''boot''),
     (''performance_mode'', Observe, ''perf''), (''dlss'', Observe, ''games''),
     (''mind_sleep'', Observe, ''mind'')]"

definition web_tools :: "tool_def list" where
  "web_tools = map (\<lambda>(n, p, c). \<lparr>td_name = n, td_policy = p, td_category = c\<rparr>) [
     (''web_search'', Observe, ''web''), (''web_fetch'', Observe, ''web''),
     (''arch_wiki'', Observe, ''web''), (''wikipedia'', Observe, ''web''),
     (''protondb'', Observe, ''games''), (''download_file'', Change, ''web''),
     (''open_url'', Change, ''desktop'')]"

definition definitions :: "config \<Rightarrow> tool_def list" where
  "definitions cfg = base_tools @ (if cfg_web_enabled cfg then web_tools else [])"

definition find_tool :: "tool_def list \<Rightarrow> string \<Rightarrow> tool_def option" where
  "find_tool defs name = List.find (\<lambda>d. td_name d = name) defs"

definition KEPT_PACKAGES :: "string list" where
  "KEPT_PACKAGES = [''base'', ''linux'', ''linux-lts'', ''linux-zen'', ''systemd'', ''pacman'',
     ''mindos-base'', ''mindd'', ''mindwm'', ''glibc'']"

definition policy_for :: "tool_def \<Rightarrow> json \<Rightarrow> config \<Rightarrow> policy" where
  "policy_for d args cfg =
     (if td_name d = ''run_command'' then
        classify_command (str_or_empty (jget args ''command'')) (cfg_policy cfg)
      else if td_name d = ''service_control'' then
        (let unit_name = str_or_empty (jget args ''unit''); action = str_or_empty (jget args ''action'') in
         if protected_unit unit_name \<and> action \<in> {''stop'', ''disable'', ''disable-now''} then Forbidden
         else Change)
      else if td_name d = ''write_file'' then
        (let p = str_or_empty (jget args ''path'') in
         if starts_with p ''/etc/'' \<or> starts_with p ''/boot/'' \<or> starts_with p ''/home/''
            \<or> starts_with p ''/var/lib/mindos/'' \<or> starts_with p ''/usr/local/'' then Change
         else Forbidden)
      else if td_name d = ''performance_mode'' then
        (case as_str (jget args ''mode'') of
           None \<Rightarrow> Observe | Some mode \<Rightarrow> if mode \<noteq> [] then Change else Observe)
      else if td_name d = ''dlss'' then
        (let verb = (case split_whitespace (trim (str_or_empty (jget args ''args''))) of
                       [] \<Rightarrow> '''' | w # _ \<Rightarrow> w) in
         if verb \<in> {''scan'', ''games'', ''library'', ''versions'', ''kinds''} then Observe
         else if verb \<in> {''download'', ''swap'', ''restore'', ''import'', ''delete''} then Change
         else Forbidden)
      else if td_name d = ''remove_packages'' then
        (let pkgs = (case as_array (jget args ''packages'') of None \<Rightarrow> [] | Some vs \<Rightarrow> strings_of vs) in
         if list_ex (\<lambda>p. p \<in> set KEPT_PACKAGES) pkgs then Forbidden else Change)
      else td_policy d)"

section \<open>Text for the shell\<close>

definition sq :: char where "sq = CHR 0x27"
definition dq :: char where "dq = CHR 0x22"
definition bslash :: char where "bslash = CHR 0x5C"

definition shell_quote :: "string \<Rightarrow> string" where
  "shell_quote s = [sq] @ replace_char sq [sq, bslash, sq, sq] s @ [sq]"

definition pkg_char :: "char \<Rightarrow> bool" where
  "pkg_char c \<longleftrightarrow> is_alnum c \<or> c \<in> set ''+-._@''"

datatype pkg_error = NotAnArray | NoPackages | NotAPackageName string

definition pkg_list :: "json \<Rightarrow> pkg_error + string" where
  "pkg_list args =
     (case as_array (jget args ''packages'') of
        None \<Rightarrow> Inl NotAnArray
      | Some vs \<Rightarrow>
          (let names = filter (\<lambda>s. s \<noteq> []) (map trim (strings_of vs)) in
           if names = [] then Inl NoPackages
           else (case List.find (\<lambda>n. \<not> list_all pkg_char n) names of
                   Some n \<Rightarrow> Inl (NotAPackageName n)
                 | None \<Rightarrow> Inr (join '' '' names))))"

text \<open>The command line of \<open>list_packages\<close> with a filter \<open>f\<close>, as built by \<open>execute\<close>.\<close>

definition list_packages_cmd :: "string \<Rightarrow> string" where
  "list_packages_cmd f =
     (let q = shell_quote f in
      ''echo '' @ [dq] @ ''$(pacman -Q | wc -l) packages installed'' @ [dq] @ ''; echo; m=$(pacman -Q | grep -i -- ''
      @ q @ ''); if [ -n '' @ [dq] @ ''$m'' @ [dq] @ '' ]; then echo '' @ [dq] @ ''matching '' @ q @ '':'' @ [dq]
      @ ''; echo '' @ [dq] @ ''$m'' @ [dq] @ ''; else echo '' @ [dq] @ ''no installed package matches '' @ q
      @ [dq] @ ''; fi'')"

text \<open>The command line of \<open>service_control\<close>.\<close>

definition service_command :: "string \<Rightarrow> string \<Rightarrow> string option" where
  "service_command unit_name action =
     (let u = shell_quote unit_name;
          c = (if action = ''enable-now'' then Some (''systemctl enable --now -- '' @ u)
               else if action = ''disable-now'' then Some (''systemctl disable --now -- '' @ u)
               else if action \<in> {''start'', ''stop'', ''restart'', ''enable'', ''disable''} then
                 Some (''systemctl '' @ action @ '' -- '' @ u)
               else None)
      in map_option (\<lambda>c. c @ '' && systemctl status --no-pager -n 5 -- '' @ u) c)"

section \<open>Output\<close>

text \<open>\<open>truncate\<close> keeps the head and the tail of long output.\<close>

definition truncate_note :: string where
  "truncate_note = [nl] @ ''[... output truncated ...]'' @ [nl]"

definition truncate :: "string \<Rightarrow> string" where
  "truncate s =
     (if MAX_OUTPUT < length s then
        take (MAX_OUTPUT div 3) s @ truncate_note @ drop (length s - MAX_OUTPUT * 2 div 3) s
      else s)"

section \<open>Boot parameters\<close>

definition param_key :: "string \<Rightarrow> string" where
  "param_key p = hd (split_by (\<lambda>c. c = CHR ''='') p)"

definition edit_cmdline :: "string \<Rightarrow> string \<Rightarrow> string \<Rightarrow> string" where
  "edit_cmdline cur add remove =
     (let ps = split_whitespace cur;
          ps = (if remove \<noteq> [] then filter (\<lambda>p. p \<noteq> remove \<and> param_key p \<noteq> param_key remove) ps else ps);
          ps = (if add \<noteq> [] then filter (\<lambda>p. param_key p \<noteq> param_key add) ps @ [add] else ps)
      in join '' '' ps)"

text \<open>The rewriting of /etc/default/grub and of a systemd-boot entry in \<open>set_kernel_parameter\<close>.\<close>

definition GRUB_KEY :: string where
  "GRUB_KEY = ''GRUB_CMDLINE_LINUX_DEFAULT=''"

definition grub_line :: "string \<Rightarrow> string \<Rightarrow> string \<Rightarrow> string" where
  "grub_line add remove l =
     (case strip_prefix l GRUB_KEY of
        Some rest \<Rightarrow>
          GRUB_KEY @ [dq] @ edit_cmdline (trim_matches (\<lambda>c. c = dq) (trim rest)) add remove @ [dq]
      | None \<Rightarrow> l)"

definition grub_edit :: "string \<Rightarrow> string \<Rightarrow> string \<Rightarrow> string \<times> bool" where
  "grub_edit add remove s =
     (unlines (map (grub_line add remove) (str_lines s)),
      list_ex (\<lambda>l. starts_with l GRUB_KEY) (str_lines s))"

definition entry_line :: "string \<Rightarrow> string \<Rightarrow> string \<Rightarrow> string" where
  "entry_line add remove l =
     (case strip_prefix l ''options'' of
        Some rest \<Rightarrow> ''options '' @ edit_cmdline (trim rest) add remove
      | None \<Rightarrow> l)"

definition entry_edit :: "string \<Rightarrow> string \<Rightarrow> string \<Rightarrow> string" where
  "entry_edit add remove s = unlines (map (entry_line add remove) (str_lines s))"

section \<open>What a POSIX shell makes of quoted text\<close>

text \<open>
  The part of the shell's lexer that matters here: single quotes, double quotes, backslashes. The
  first function lists what follows each command substitution the shell would expand; the second
  reads one word.
\<close>

datatype sh_mode = Plain | Single | Double

definition subst_start :: "char \<Rightarrow> string \<Rightarrow> bool" where
  "subst_start c cs \<longleftrightarrow> c = CHR 0x60 \<or> c = CHR ''$'' \<and> starts_with cs ''(''"

fun sh_substs :: "sh_mode \<Rightarrow> string \<Rightarrow> string list" where
  "sh_substs md [] = []"
| "sh_substs Single (c # cs) = sh_substs (if c = sq then Plain else Single) cs"
| "sh_substs Plain (c # cs) =
     (if c = bslash then sh_substs Plain (drop 1 cs)
      else (if subst_start c cs then [cs] else [])
           @ sh_substs (if c = sq then Single else if c = dq then Double else Plain) cs)"
| "sh_substs Double (c # cs) =
     (if c = bslash then sh_substs Double (drop 1 cs)
      else (if subst_start c cs then [cs] else []) @ sh_substs (if c = dq then Plain else Double) cs)"

definition word_end :: "char \<Rightarrow> bool" where
  "word_end c \<longleftrightarrow> is_ws c \<or> c \<in> set ''|&;<>()''"

fun sh_word :: "sh_mode \<Rightarrow> string \<Rightarrow> string \<times> string" where
  "sh_word md [] = ([], [])"
| "sh_word Single (c # cs) = (if c = sq then sh_word Plain cs else apfst (Cons c) (sh_word Single cs))"
| "sh_word Plain (c # cs) =
     (if c = bslash then (case cs of [] \<Rightarrow> ([], []) | d # ds \<Rightarrow> apfst (Cons d) (sh_word Plain ds))
      else if c = sq then sh_word Single cs
      else if c = dq then sh_word Double cs
      else if word_end c then ([], c # cs)
      else apfst (Cons c) (sh_word Plain cs))"
| "sh_word Double (c # cs) =
     (if c = bslash then (case cs of [] \<Rightarrow> ([], []) | d # ds \<Rightarrow> apfst (Cons d) (sh_word Double ds))
      else if c = dq then sh_word Plain cs
      else apfst (Cons c) (sh_word Double cs))"

lemma quote_chars [simp]:
  "sq \<noteq> bslash" "bslash \<noteq> sq" "sq \<noteq> dq" "dq \<noteq> sq" "bslash \<noteq> dq" "dq \<noteq> bslash"
  "\<not> subst_start sq cs" "\<not> subst_start bslash cs"
  by (simp_all add: sq_def dq_def bslash_def subst_start_def)

lemma sh_substs_single_body:
  "sh_substs Single (replace_char sq [sq, bslash, sq, sq] s @ t) = sh_substs Single t"
  by (induction s) (simp_all add: replace_char_def)

lemma sh_word_single_body:
  "sh_word Single (replace_char sq [sq, bslash, sq, sq] s @ t) = apfst (append s) (sh_word Single t)"
  by (induction s) (simp_all add: replace_char_def apfst_def map_prod_def split_def)

text \<open>
  \<open>shell_quote\<close> is inert wherever the shell reads ordinary text: the shell expands no command
  substitution inside it, and reads back exactly the text that was quoted, as part of one word.
\<close>

theorem shell_quote_is_inert:
  "sh_substs Plain (shell_quote s @ rest) = sh_substs Plain rest
   \<and> sh_word Plain (shell_quote s @ rest) = apfst (append s) (sh_word Plain rest)"
  by (simp add: shell_quote_def sh_substs_single_body sh_word_single_body)

text \<open>
  The command of \<open>list_packages\<close> puts the quoted filter inside double quotes as well, where
  single quotes do not quote: a filter with a command substitution in it is expanded by the shell
  that runs as root, although the tool needs no confirmation.
\<close>

theorem list_packages_filter_is_expanded:
  "list_ex (\<lambda>r. starts_with r ''(reboot)'') (sh_substs Plain (list_packages_cmd ''$(reboot)''))
   \<and> map_option td_policy (find_tool (definitions cfg) ''list_packages'') = Some Observe
   \<and> (\<forall>d args. policy_for (d\<lparr>td_name := ''list_packages''\<rparr>) args cfg = td_policy d)"
proof -
  have "list_ex (\<lambda>r. starts_with r ''(reboot)'') (sh_substs Plain (list_packages_cmd ''$(reboot)''))"
    by code_simp
  moreover have "map_option td_policy (find_tool (definitions cfg) ''list_packages'') = Some Observe"
    by (simp add: definitions_def find_tool_def base_tools_def)
  ultimately show ?thesis by (simp add: policy_for_def)
qed

section \<open>Package lists\<close>

lemma pkg_char_not_ws: "pkg_char c \<Longrightarrow> \<not> is_ws c"
  by (auto simp: pkg_char_def is_ws_def is_alnum_def is_alpha_def is_upper_def is_digit_def)

lemma find_None_all: "List.find P xs = None \<longleftrightarrow> (\<forall>x \<in> set xs. \<not> P x)"
  by (auto simp: find_None_iff)

text \<open>
  A package list that is accepted is the non-empty sequence of the trimmed, non-empty names
  given, and every character of it is a letter, a digit, one of \<open>+-._@\<close> or the separating blank:
  the shell reads it as exactly those names.
\<close>

theorem pkg_list_names:
  assumes "pkg_list args = Inr s" "as_array (jget args ''packages'') = Some vs"
  shows "split_whitespace s = filter (\<lambda>n. n \<noteq> []) (map trim (strings_of vs))
    \<and> split_whitespace s \<noteq> [] \<and> (\<forall>n \<in> set (split_whitespace s). list_all pkg_char n)"
proof -
  let ?names = "filter (\<lambda>n. n \<noteq> []) (map trim (strings_of vs))"
  have s: "s = join '' '' ?names" and ne: "?names \<noteq> []"
    and ok: "\<forall>n \<in> set ?names. list_all pkg_char n"
    using assms by (auto simp: pkg_list_def Let_def find_None_all split: if_splits option.splits)
  have "split_whitespace s = ?names"
    unfolding s using ok pkg_char_not_ws by (intro split_join_words) (fastforce simp: list_all_iff)
  then show ?thesis using ne ok by simp
qed

theorem pkg_list_names_witness:
  "split_whitespace ''discord lib32-mesa'' = [''discord'', ''lib32-mesa'']"
  using pkg_list_names [of "JObj [(''packages'', JArr [JStr '' discord'', JNull, JStr '''', JStr ''lib32-mesa ''])]"
      "''discord lib32-mesa''" "[JStr '' discord'', JNull, JStr '''', JStr ''lib32-mesa '']"]
  by code_simp

text \<open>
  The policy of \<open>remove_packages\<close> compares the names as given, but the names are trimmed before
  they are removed: a blank in front of \<open>base\<close> turns a refused removal into one that only asks.
\<close>

theorem blank_hides_a_kept_package:
  "let keep = JObj [(''packages'', JArr [JStr ''base''])];
       slip = JObj [(''packages'', JArr [JStr '' base''])];
       d = \<lparr>td_name = ''remove_packages'', td_policy = Change, td_category = ''packages''\<rparr>
   in policy_for d keep cfg = Forbidden \<and> policy_for d slip cfg = Change
      \<and> pkg_list slip = Inr ''base'' \<and> pkg_list keep = pkg_list slip"
proof -
  have "pkg_list (JObj [(''packages'', JArr [JStr '' base''])]) = Inr ''base''"
    "pkg_list (JObj [(''packages'', JArr [JStr ''base''])]) = Inr ''base''"
    by code_simp+
  then show ?thesis
    by (simp add: policy_for_def strings_of_def map_filter_def KEPT_PACKAGES_def)
qed

section \<open>Kernel parameters\<close>

definition one_word :: "string \<Rightarrow> bool" where
  "one_word w \<longleftrightarrow> w \<noteq> [] \<and> (\<forall>c \<in> set w. \<not> is_ws c)"

lemma edit_cmdline_words:
  assumes "one_word add"
  shows "split_whitespace (edit_cmdline cur add remove) =
     filter (\<lambda>p. (remove = [] \<or> p \<noteq> remove \<and> param_key p \<noteq> param_key remove) \<and> param_key p \<noteq> param_key add)
       (split_whitespace cur) @ [add]"
proof -
  let ?ps = "if remove \<noteq> [] then filter (\<lambda>p. p \<noteq> remove \<and> param_key p \<noteq> param_key remove) (split_whitespace cur)
     else split_whitespace cur"
  let ?qs = "filter (\<lambda>p. param_key p \<noteq> param_key add) ?ps @ [add]"
  have "edit_cmdline cur add remove = join '' '' ?qs"
    using assms by (simp add: edit_cmdline_def one_word_def Let_def)
  moreover have "split_whitespace (join '' '' ?qs) = ?qs"
    using assms by (intro split_join_words)
      (auto simp: list_all_iff one_word_def dest: split_whitespace_words split: if_splits)
  moreover have "?qs = filter (\<lambda>p. (remove = [] \<or> p \<noteq> remove \<and> param_key p \<noteq> param_key remove)
      \<and> param_key p \<noteq> param_key add) (split_whitespace cur) @ [add]"
    by (auto intro: filter_cong)
  ultimately show ?thesis by simp
qed

lemma edit_cmdline_join:
  assumes "one_word add"
  shows "join '' '' (split_whitespace (edit_cmdline cur add remove)) = edit_cmdline cur add remove"
  unfolding edit_cmdline_words [OF assms] using assms
  by (auto simp: edit_cmdline_def one_word_def Let_def intro!: arg_cong [where f = "join '' ''"] filter_cong)

lemma edit_cmdline_idem:
  assumes "one_word add"
  shows "edit_cmdline (edit_cmdline cur add remove) add remove = edit_cmdline cur add remove"
proof -
  note w = edit_cmdline_words [OF assms]
  have "split_whitespace (edit_cmdline (edit_cmdline cur add remove) add remove)
      = split_whitespace (edit_cmdline cur add remove)"
    by (auto simp: w intro!: filter_cong)
  then show ?thesis by (metis edit_cmdline_join [OF assms])
qed

text \<open>
  Adding a boot parameter leaves exactly one parameter with its key, at the end; every
  parameter of another key, unless it was to be removed, stays in order; and doing it again
  changes nothing.
\<close>

theorem edit_cmdline_correct:
  assumes "one_word add"
  shows "filter (\<lambda>p. param_key p = param_key add) (split_whitespace (edit_cmdline cur add remove)) = [add]
    \<and> last (split_whitespace (edit_cmdline cur add remove)) = add
    \<and> filter (\<lambda>p. param_key p \<noteq> param_key add) (split_whitespace (edit_cmdline cur add remove))
      = filter (\<lambda>p. (remove = [] \<or> p \<noteq> remove \<and> param_key p \<noteq> param_key remove)
          \<and> param_key p \<noteq> param_key add) (split_whitespace cur)
    \<and> edit_cmdline (edit_cmdline cur add remove) add remove = edit_cmdline cur add remove"
  using edit_cmdline_idem [OF assms]
  by (auto simp: edit_cmdline_words [OF assms] filter_empty_conv intro!: filter_cong)

theorem edit_cmdline_correct_witness:
  "filter (\<lambda>p. param_key p = ''quiet'') (split_whitespace (edit_cmdline ''root=/dev/sda2 quiet=1 rw'' ''quiet'' ''rw'')) = [''quiet'']"
proof -
  have "one_word ''quiet''" "param_key ''quiet'' = ''quiet''" by code_simp+
  then show ?thesis using edit_cmdline_correct [of "''quiet''" "''root=/dev/sda2 quiet=1 rw''" "''rw''"] by simp
qed

text \<open>Every character of an edited command line is a blank or not white space at all.\<close>

lemma edit_cmdline_chars:
  assumes "one_word add" "c \<in> set (edit_cmdline cur add remove)"
  shows "c = CHR '' '' \<or> \<not> is_ws c"
proof -
  have "c \<in> set (join '' '' (split_whitespace (edit_cmdline cur add remove)))"
    using assms by (simp add: edit_cmdline_join)
  then show ?thesis using join_set split_whitespace_words by fastforce
qed

lemma edit_cmdline_plain:
  assumes "one_word add"
  shows "plain_line (edit_cmdline cur add remove)" "nl \<notin> set (edit_cmdline cur add remove)"
proof -
  have ws: "is_ws nl" "is_ws (CHR 0x0D)" "nl \<noteq> CHR '' ''" by (simp_all add: is_ws_def nl_def)
  then show "nl \<notin> set (edit_cmdline cur add remove)"
    using edit_cmdline_chars [OF assms] by blast
  moreover have "CHR 0x0D \<notin> set (edit_cmdline cur add remove)"
    using edit_cmdline_chars [OF assms] ws by fastforce
  ultimately show "plain_line (edit_cmdline cur add remove)"
    by (metis last_in_set plain_line_def)
qed

lemma str_lines_plain:
  assumes "CHR 0x0D \<notin> set s" "l \<in> set (str_lines s)"
  shows "plain_line l"
proof -
  obtain w where w: "w \<in> set (split_by (\<lambda>c. c = nl) s)" "l = strip_cr w"
    using assms(2) by (auto simp: str_lines_def Let_def dest: in_set_butlastD split: if_splits)
  then have "CHR 0x0D \<notin> set w" using assms(1) split_by_chars by blast
  then have "l = w" using w by (auto simp: strip_cr_def dest: last_in_set)
  then show ?thesis
    using w \<open>CHR 0x0D \<notin> set w\<close> split_by_pieces [of w _ s nl] by (metis last_in_set plain_line_def)
qed

text \<open>
  Rewriting a boot loader entry changes its \<open>options\<close> lines only: read back, the file has the
  same number of lines in the same order, each other line as it was, and each \<open>options\<close> line
  carries the edited parameters.
\<close>

theorem entry_edit_lines:
  assumes "one_word add" "CHR 0x0D \<notin> set s"
  shows "str_lines (entry_edit add remove s) = map (entry_line add remove) (str_lines s)
    \<and> (\<forall>l \<in> set (str_lines s). \<not> starts_with l ''options'' \<longrightarrow> entry_line add remove l = l)"
proof -
  have "plain_line (entry_line add remove l)" if "l \<in> set (str_lines s)" for l
  proof (cases "starts_with l ''options''")
    case True
    then have "entry_line add remove l = ''options '' @ edit_cmdline (trim (drop 7 l)) add remove"
      by (simp add: entry_line_def strip_prefix_def eval_nat_numeral)
    moreover have "plain_line (''options '' @ edit_cmdline (trim (drop 7 l)) add remove)"
      using edit_cmdline_plain [OF assms(1), of "trim (drop 7 l)" remove]
      by (auto simp: plain_line_def nl_def)
    ultimately show ?thesis by simp
  next
    case False
    then show ?thesis
      using str_lines_plain [OF assms(2) that] by (simp add: entry_line_def strip_prefix_def)
  qed
  then have "list_all plain_line (map (entry_line add remove) (str_lines s))"
    by (simp add: list_all_iff)
  then show ?thesis
    by (auto simp: entry_edit_def str_lines_unlines entry_line_def strip_prefix_def)
qed

theorem entry_edit_lines_witness:
  "str_lines (entry_edit ''nvidia_drm.modeset=1'' '''' (unlines [''title MindOS'', ''options root=/dev/sda2 rw'']))
     = [''title MindOS'', ''options root=/dev/sda2 rw nvidia_drm.modeset=1'']"
proof -
  have "one_word ''nvidia_drm.modeset=1''" by code_simp
  moreover have "CHR 0x0D \<notin> set (unlines [''title MindOS'', ''options root=/dev/sda2 rw''])" by code_simp
  moreover have "map (entry_line ''nvidia_drm.modeset=1'' '''')
      (str_lines (unlines [''title MindOS'', ''options root=/dev/sda2 rw'']))
      = [''title MindOS'', ''options root=/dev/sda2 rw nvidia_drm.modeset=1'']" by code_simp
  ultimately show ?thesis using entry_edit_lines
    by (metis (no_types, lifting))
qed

lemma length_truncate: "length (truncate s) \<le> MAX_OUTPUT + length truncate_note"
  by (simp add: truncate_def MAX_OUTPUT_def)

lemma text_budget_bounds: "1500 \<le> text_budget cfg \<and> text_budget cfg \<le> MAX_OUTPUT"
  by (simp add: text_budget_def MAX_OUTPUT_def)

end
