(* ===== verification/Agent.thy ===== *)
theory Agent
  imports Tools
begin

text \<open>
  The agent loop of the daemon (src/mindd/src/daemon/agent.rs, with the connection of server.rs and the
  messages of llm.rs): the model is asked, its tool calls are gated, confirmed, run and answered,
  and the conversation is kept well-formed and within the model's context.

  The language model, the tools themselves and the JSON printer and parser are not part of these
  files. They are parameters: \<open>jstr\<close> prints a JSON value, \<open>jparse\<close> parses one, \<open>exec\<close> runs a
  tool, and the model's answers are a list. The requests of the client are one list (the channel);
  its end stands for a closed channel or a deadline that passed. What the daemon does is a trace
  of effects.
\<close>

section \<open>Messages\<close>

record message =
  m_role :: string
  m_content :: "string option"
  m_tool_calls :: "json list option"
  m_tool_call_id :: "string option"
  m_name :: "string option"

record tool_call =
  tc_id :: string
  tc_name :: string
  tc_arguments :: string

definition msg_system :: "string \<Rightarrow> message" where
  "msg_system s = \<lparr>m_role = ''system'', m_content = Some s, m_tool_calls = None, m_tool_call_id = None, m_name = None\<rparr>"

definition msg_user :: "string \<Rightarrow> message" where
  "msg_user s = \<lparr>m_role = ''user'', m_content = Some s, m_tool_calls = None, m_tool_call_id = None, m_name = None\<rparr>"

definition msg_named_user :: "string \<Rightarrow> string \<Rightarrow> message" where
  "msg_named_user n s =
     \<lparr>m_role = ''user'', m_content = Some s, m_tool_calls = None, m_tool_call_id = None, m_name = Some n\<rparr>"

definition call_json :: "tool_call \<Rightarrow> json" where
  "call_json c = JObj [(''id'', JStr (tc_id c)), (''type'', JStr ''function''),
     (''function'', JObj [(''name'', JStr (tc_name c)), (''arguments'', JStr (tc_arguments c))])]"

definition msg_assistant :: "string \<Rightarrow> tool_call list \<Rightarrow> message" where
  "msg_assistant text calls =
     (let tcs = (if calls = [] then None else Some (map call_json calls)) in
      \<lparr>m_role = ''assistant'',
       m_content = (if text \<noteq> [] then Some text else if tcs = None then Some [] else None),
       m_tool_calls = tcs, m_tool_call_id = None, m_name = None\<rparr>)"

definition msg_tool :: "string \<Rightarrow> string \<Rightarrow> string \<Rightarrow> message" where
  "msg_tool i n content =
     \<lparr>m_role = ''tool'', m_content = Some content, m_tool_calls = None, m_tool_call_id = Some i, m_name = Some n\<rparr>"

section \<open>The daemon's own lines\<close>

definition is_status :: "message \<Rightarrow> bool" where
  "is_status m \<longleftrightarrow> m_role m = ''user'' \<and> m_name m \<noteq> None"

definition STATUS :: string where "STATUS = ''status''"
definition CLOCK :: string where "CLOCK = ''clock''"

definition is_block :: "message \<Rightarrow> bool" where
  "is_block m \<longleftrightarrow> is_status m \<and> m_name m = Some STATUS"

definition is_clock :: "message \<Rightarrow> bool" where
  "is_clock m \<longleftrightarrow> is_status m \<and> m_name m = Some CLOCK"

definition is_question :: "message \<Rightarrow> bool" where
  "is_question m \<longleftrightarrow> m_role m = ''user'' \<and> m_name m = None"

text \<open>\<open>rposition\<close>\<close>

fun rposition :: "('a \<Rightarrow> bool) \<Rightarrow> 'a list \<Rightarrow> nat option" where
  "rposition P [] = None"
| "rposition P (x # xs) =
     (case rposition P xs of Some i \<Rightarrow> Some (Suc i) | None \<Rightarrow> if P x then Some 0 else None)"

text \<open>\<open>split_once('\n')\<close>: the part after the first newline, if there is one.\<close>

fun after_newline :: "string \<Rightarrow> string option" where
  "after_newline [] = None"
| "after_newline (c # cs) = (if c = nl then Some cs else after_newline cs)"

definition set_prompt :: "string \<Rightarrow> message list \<Rightarrow> message list" where
  "set_prompt prompt ms =
     (case ms of
        m # rest \<Rightarrow> if m_role m = ''system'' then m\<lparr>m_content := Some prompt\<rparr> # rest
                    else msg_system prompt # ms
      | [] \<Rightarrow> [msg_system prompt])"

definition status_unchanged :: "message list \<Rightarrow> string \<Rightarrow> bool" where
  "status_unchanged ms body =
     (case rposition is_block ms of
        None \<Rightarrow> False
      | Some i \<Rightarrow> (case m_content (ms ! i) of
          None \<Rightarrow> False
        | Some c \<Rightarrow> (case after_newline c of None \<Rightarrow> False | Some b \<Rightarrow> b = body)))"

definition place_status :: "message list \<Rightarrow> string \<Rightarrow> string \<Rightarrow> string \<Rightarrow> message list" where
  "place_status messages prompt time body =
     (let ms = set_prompt prompt messages in
      if status_unchanged ms body then
        ms @ [msg_named_user CLOCK (''Right now ('' @ time @ ''); the status above still applies.'')]
      else filter (\<lambda>m. \<not> is_status m) ms
             @ [msg_named_user STATUS (''Right now ('' @ time @ ''):'' @ [nl] @ body)])"

section \<open>Keeping the conversation inside the context\<close>

definition msg_size :: "(json \<Rightarrow> string) \<Rightarrow> message \<Rightarrow> nat" where
  "msg_size jstr m =
     (case m_content m of None \<Rightarrow> 0 | Some c \<Rightarrow> length c)
     + (case m_tool_calls m of None \<Rightarrow> 0 | Some vs \<Rightarrow> sum_list (map (\<lambda>v. length (jstr v)) vs))
     + 24"

definition total :: "(json \<Rightarrow> string) \<Rightarrow> message list \<Rightarrow> nat" where
  "total jstr ms = sum_list (map (msg_size jstr) ms)"

definition drop_clocks :: "message list \<Rightarrow> message list" where
  "drop_clocks ms =
     (case rposition is_clock ms of
        None \<Rightarrow> ms
      | Some newest \<Rightarrow> filter (\<lambda>m. \<not> is_clock m) (take newest ms) @ drop newest ms)"

definition emptied :: "message \<Rightarrow> message" where
  "emptied m =
     (if m_role m = ''tool'' \<and> (case m_content m of None \<Rightarrow> False | Some c \<Rightarrow> 200 < length c) then
        m\<lparr>m_content := Some (''['' @ (case m_name m of None \<Rightarrow> ''tool'' | Some n \<Rightarrow> n)
            @ '' result dropped: the conversation grew past the model's context]'')\<rparr>
      else m)"

text \<open>\<open>for i in 1..last\<close> with the early return once the messages fit.\<close>

function empty_results :: "(json \<Rightarrow> string) \<Rightarrow> nat \<Rightarrow> nat \<Rightarrow> nat \<Rightarrow> message list \<Rightarrow> message list" where
  "empty_results jstr budget i end ms =
     (if i < end \<and> budget < total jstr ms
      then empty_results jstr budget (Suc i) end (ms[i := emptied (ms ! i)]) else ms)"
  by pat_completeness auto
termination by (relation "measure (\<lambda>(jstr, budget, i, end, ms). end - i)") auto

declare empty_results.simps [simp del]

text \<open>One turn of the last loop: the message to remove, and the tool results that go with it.\<close>

fun keep_from :: "message list \<Rightarrow> nat \<Rightarrow> nat" where
  "keep_from ms (Suc (Suc k)) =
     (if is_status (ms ! Suc k) then keep_from ms (Suc k) else Suc (Suc k))"
| "keep_from ms k = k"

definition remove_at :: "nat \<Rightarrow> 'a list \<Rightarrow> 'a list" where
  "remove_at i xs = take i xs @ drop (Suc i) xs"

fun drop_results :: "nat \<Rightarrow> nat \<Rightarrow> message list \<Rightarrow> message list" where
  "drop_results i 0 ms = ms"
| "drop_results i (Suc k) ms =
     (if i < Suc k \<and> m_role (ms ! i) = ''tool'' then drop_results i k (remove_at i ms) else ms)"

definition drop_turn :: "message list \<Rightarrow> message list option" where
  "drop_turn ms =
     (case rposition is_question ms of
        None \<Rightarrow> None
      | Some question \<Rightarrow>
          (let kf = keep_from ms question; block = rposition is_block ms in
           case List.find (\<lambda>i. Some i \<noteq> block) [1..<kf] of
             None \<Rightarrow> None
           | Some i \<Rightarrow> Some (drop_results i (kf - 1) (remove_at i ms))))"

section \<open>Removing a turn\<close>

lemma rposition_None: "rposition P xs = None \<longleftrightarrow> (\<forall>x \<in> set xs. \<not> P x)"
  by (induction xs) (auto split: option.splits)

lemma rposition_Some:
  "rposition P xs = Some i \<longleftrightarrow> (\<exists>ys x zs. xs = ys @ x # zs \<and> length ys = i \<and> P x \<and> (\<forall>z \<in> set zs. \<not> P z))"
proof (induction xs arbitrary: i)
  case (Cons a xs)
  show ?case
  proof (cases "rposition P xs")
    case None
    then have "\<forall>x \<in> set xs. \<not> P x" by (simp add: rposition_None)
    with None show ?thesis by (auto simp: Cons_eq_append_conv)
  next
    case (Some j)
    then obtain ys x zs where x: "xs = ys @ x # zs" "length ys = j" "P x" "\<forall>z \<in> set zs. \<not> P z"
      using Cons.IH by blast
    show ?thesis
    proof
      assume "rposition P (a # xs) = Some i"
      with Some x show "\<exists>ys x zs. a # xs = ys @ x # zs \<and> length ys = i \<and> P x \<and> (\<forall>z \<in> set zs. \<not> P z)"
        by (intro exI [of _ "a # ys"] exI [of _ x] exI [of _ zs]) simp
    next
      assume "\<exists>ys x zs. a # xs = ys @ x # zs \<and> length ys = i \<and> P x \<and> (\<forall>z \<in> set zs. \<not> P z)"
      then obtain us u vs where u: "a # xs = us @ u # vs" "length us = i" "P u" "\<forall>z \<in> set vs. \<not> P z"
        by blast
      then have "us \<noteq> []" using x by (auto simp: Cons_eq_append_conv)
      then obtain us' where "us = a # us'" "xs = us' @ u # vs" using u(1) by (cases us) auto
      then have "rposition P xs = Some (length us')" using u Cons.IH by blast
      then show "rposition P (a # xs) = Some i" using \<open>us = a # us'\<close> u(2) by simp
    qed
  qed
qed simp

lemma rposition_nth: "rposition P xs = Some i \<Longrightarrow> i < length xs \<and> P (xs ! i)"
  by (auto simp: rposition_Some)

lemma rposition_append:
  "P x \<Longrightarrow> \<forall>z \<in> set zs. \<not> P z \<Longrightarrow> rposition P (ys @ x # zs) = Some (length ys)"
  using rposition_Some by blast

lemma keep_from_le: "keep_from ms k \<le> k"
  by (induction ms k rule: keep_from.induct) auto

lemma keep_from_status: "keep_from ms k \<le> j \<Longrightarrow> j < k \<Longrightarrow> is_status (ms ! j)"
proof (induction ms k rule: keep_from.induct)
  case (1 ms k)
  then show ?case by (cases "j = Suc k") (auto split: if_splits)
qed auto

lemma length_remove_at [simp]: "i < length xs \<Longrightarrow> length (remove_at i xs) = length xs - 1"
  by (simp add: remove_at_def)

lemma drop_results_shape:
  assumes "i \<le> kf" "kf \<le> length ms"
  shows "\<exists>k. drop_results i kf ms = take i ms @ drop (i + k) ms \<and> i + k \<le> kf
    \<and> (\<forall>j < k. m_role (ms ! (i + j)) = ''tool'') \<and> (i + k = kf \<or> m_role (ms ! (i + k)) \<noteq> ''tool'')"
  using assms
proof (induction i kf ms rule: drop_results.induct)
  case (2 i kf ms)
  show ?case
  proof (cases "i < Suc kf \<and> m_role (ms ! i) = ''tool''")
    case True
    let ?ms = "remove_at i ms"
    have i: "i < length ms" using True 2 by simp
    have nth: "?ms ! (i + j) = ms ! Suc (i + j)" for j
      using i by (simp add: remove_at_def nth_append min_def)
    have "i \<le> kf" "kf \<le> length ?ms" using True 2 i by auto
    with 2(1) [OF True] obtain k where k: "drop_results i kf ?ms = take i ?ms @ drop (i + k) ?ms" "i + k \<le> kf"
      "\<forall>j < k. m_role (?ms ! (i + j)) = ''tool''" "i + k = kf \<or> m_role (?ms ! (i + k)) \<noteq> ''tool''"
      by blast
    have "take i ?ms = take i ms" "drop (i + k) ?ms = drop (i + Suc k) ms"
      using i by (simp_all add: remove_at_def min_def add.commute)
    moreover have "\<forall>j < Suc k. m_role (ms ! (i + j)) = ''tool''"
      using True k(3) by (auto simp: less_Suc_eq_0_disj nth)
    ultimately show ?thesis
      using True k by (intro exI [of _ "Suc k"]) (auto simp: nth)
  next
    case False
    then show ?thesis using 2 by (intro exI [of _ 0]) auto
  qed
qed auto

text \<open>A removed turn is a stretch between the system message and the part that is kept.\<close>

lemma drop_turn_shape:
  assumes "drop_turn ms = Some ms'"
  obtains q i k where "rposition is_question ms = Some q" "1 \<le> i" "0 < k" "i + k \<le> q"
    "ms' = take i ms @ drop (i + k) ms" "Some i \<noteq> rposition is_block ms"
    "\<forall>j. 0 < j \<and> j < k \<longrightarrow> m_role (ms ! (i + j)) = ''tool''"
    "m_role (ms ! (i + k)) \<noteq> ''tool''"
proof -
  obtain q i where q: "rposition is_question ms = Some q"
    and i: "List.find (\<lambda>i. Some i \<noteq> rposition is_block ms) [1..<keep_from ms q] = Some i"
    and ms': "ms' = drop_results i (keep_from ms q - 1) (remove_at i ms)"
    using assms by (auto simp: drop_turn_def Let_def split: option.splits)
  let ?kf = "keep_from ms q"
  have i_facts: "1 \<le> i" "i < ?kf" "Some i \<noteq> rposition is_block ms"
    using i by (auto simp: find_Some_iff)
  have kf: "?kf \<le> q" by (rule keep_from_le)
  have ql: "q < length ms" and qq: "is_question (ms ! q)" using q by (auto simp: rposition_Some)
  have nth: "remove_at i ms ! (i + j) = ms ! Suc (i + j)" for j
    using i_facts kf ql by (simp add: remove_at_def nth_append min_def)
  have "i \<le> ?kf - 1" "?kf - 1 \<le> length (remove_at i ms)" using i_facts kf ql by auto
  with ms' obtain k where k: "ms' = take i (remove_at i ms) @ drop (i + k) (remove_at i ms)" "i + k \<le> ?kf - 1"
    "\<forall>j < k. m_role (remove_at i ms ! (i + j)) = ''tool''"
    "i + k = ?kf - 1 \<or> m_role (remove_at i ms ! (i + k)) \<noteq> ''tool''"
    using drop_results_shape [of i "?kf - 1" "remove_at i ms"] by blast
  have "m_role (ms ! ?kf) \<noteq> ''tool''"
    using keep_from_status [of ms q ?kf] qq kf
    by (cases "?kf = q") (auto simp: is_status_def is_question_def)
  then have last: "m_role (ms ! (i + Suc k)) \<noteq> ''tool''"
    using k(4) i_facts by (auto simp: nth)
  have eq: "ms' = take i ms @ drop (i + Suc k) ms"
    using k(1) i_facts kf ql by (simp add: remove_at_def min_def add.commute)
  have tools: "\<forall>j. 0 < j \<and> j < Suc k \<longrightarrow> m_role (ms ! (i + j)) = ''tool''"
  proof (intro allI impI)
    fix j assume "0 < j \<and> j < Suc k"
    then show "m_role (ms ! (i + j)) = ''tool''" using k(3) by (cases j) (auto simp: nth)
  qed
  have le: "i + Suc k \<le> q" using k(2) i_facts kf by linarith
  show thesis using that [OF q i_facts(1) _ le eq i_facts(3) tools last] by simp
qed

lemma drop_turn_shorter: "drop_turn ms = Some ms' \<Longrightarrow> length ms' < length ms"
  by (elim drop_turn_shape) (auto simp: rposition_Some)

function fit_loop :: "(json \<Rightarrow> string) \<Rightarrow> nat \<Rightarrow> message list \<Rightarrow> message list" where
  "fit_loop jstr budget ms =
     (if total jstr ms \<le> budget then ms
      else case drop_turn ms of None \<Rightarrow> ms | Some ms' \<Rightarrow> fit_loop jstr budget ms')"
  by pat_completeness auto
termination
  by (relation "measure (\<lambda>(jstr, budget, ms). length ms)") (auto dest: drop_turn_shorter)

declare fit_loop.simps [simp del]

definition fit_budget :: "config \<Rightarrow> nat \<Rightarrow> nat" where
  "fit_budget cfg tools_chars = max 1000 (context_chars cfg - tools_chars)"

definition fit_context :: "(json \<Rightarrow> string) \<Rightarrow> config \<Rightarrow> nat \<Rightarrow> message list \<Rightarrow> message list" where
  "fit_context jstr cfg tools_chars ms =
     (let budget = fit_budget cfg tools_chars in
      if total jstr ms \<le> budget then ms
      else let ms1 = drop_clocks ms
           in fit_loop jstr budget (empty_results jstr budget 1 (length ms1 - 1) ms1))"

section \<open>What fitting keeps\<close>

text \<open>A tool result stands right after another result or after the assistant message that called.\<close>

definition answers :: "message \<Rightarrow> bool" where
  "answers m \<longleftrightarrow> m_role m = ''tool'' \<or> m_role m = ''assistant''"

fun tools_follow :: "bool \<Rightarrow> message list \<Rightarrow> bool" where
  "tools_follow p [] = True"
| "tools_follow p (m # ms) = ((m_role m = ''tool'' \<longrightarrow> p) \<and> tools_follow (answers m) ms)"

lemma tools_follow_append:
  "tools_follow p (xs @ ys) \<longleftrightarrow>
     tools_follow p xs \<and> tools_follow (if xs = [] then p else answers (last xs)) ys"
  by (induction xs arbitrary: p) auto

lemma tools_follow_any: "tools_follow p ys \<Longrightarrow> ys = [] \<or> m_role (hd ys) \<noteq> ''tool'' \<Longrightarrow> tools_follow q ys"
  by (cases ys) auto

lemma drop_turn_tools_follow:
  assumes "drop_turn ms = Some ms'" "tools_follow False ms"
  shows "tools_follow False ms'"
proof -
  obtain q i k where s: "rposition is_question ms = Some q" "1 \<le> i" "0 < k" "i + k \<le> q"
    "ms' = take i ms @ drop (i + k) ms" "m_role (ms ! (i + k)) \<noteq> ''tool''"
    using drop_turn_shape [OF assms(1)] by metis
  have "q < length ms" using s(1) by (auto simp: rposition_Some)
  then have "hd (drop (i + k) ms) = ms ! (i + k)" using s by (simp add: hd_drop_conv_nth)
  moreover have "tools_follow False (take i ms)"
    "tools_follow (if take (i + k) ms = [] then False else answers (last (take (i + k) ms))) (drop (i + k) ms)"
    using assms(2) tools_follow_append [of False "take i ms" "drop i ms"]
      tools_follow_append [of False "take (i + k) ms" "drop (i + k) ms"] by simp_all
  ultimately show ?thesis
    using s by (auto simp: tools_follow_append dest: tools_follow_any)
qed

lemma drop_clocks_Cons:
  "drop_clocks (m # ms) =
     (if is_clock m \<and> (\<exists>c \<in> set ms. is_clock c) then drop_clocks ms else m # drop_clocks ms)"
  using rposition_None [of is_clock ms]
  by (cases "rposition is_clock ms") (auto simp: drop_clocks_def)

lemma drop_clocks_Nil [simp]: "drop_clocks [] = []"
  by (simp add: drop_clocks_def)

lemma drop_clocks_none: "\<forall>m \<in> set ms. \<not> is_clock m \<Longrightarrow> drop_clocks ms = ms"
  by (induction ms) (auto simp: drop_clocks_Cons)

lemma drop_clocks_append:
  "\<exists>xs'. set xs' \<subseteq> set xs \<and> drop_clocks (xs @ ys) = xs' @ drop_clocks ys"
  by (induction xs) (fastforce simp: drop_clocks_Cons)+

lemma filter_drop_clocks:
  "(\<And>m. is_clock m \<Longrightarrow> \<not> P m) \<Longrightarrow> filter P (drop_clocks ms) = filter P ms"
  by (induction ms) (auto simp: drop_clocks_Cons)

lemma clock_role: "is_clock m \<Longrightarrow> m_role m = ''user''"
  by (simp add: is_clock_def is_status_def)

lemma drop_clocks_tools_follow:
  "tools_follow p ms \<Longrightarrow> tools_follow p (drop_clocks ms)"
proof (induction ms arbitrary: p)
  case (Cons m ms)
  have "is_clock m \<Longrightarrow> \<not> answers m" by (simp add: clock_role answers_def)
  moreover have "tools_follow False ms \<Longrightarrow> tools_follow p ms" for p
    by (cases ms) auto
  ultimately show ?case using Cons by (auto simp: drop_clocks_Cons)
qed simp

text \<open>Emptying changes contents of old tool results only, never the first or the last message.\<close>

lemma emptied_other [simp]: "m_role m \<noteq> ''tool'' \<Longrightarrow> emptied m = m"
  by (simp add: emptied_def)

lemma emptied_role [simp]: "m_role (emptied m) = m_role m"
  by (simp add: emptied_def)

lemma empty_results_nth:
  assumes "end \<le> length ms"
  shows "length (empty_results jstr b i end ms) = length ms
    \<and> (\<forall>j < length ms. empty_results jstr b i end ms ! j
        \<in> (if i \<le> j \<and> j < end then {ms ! j, emptied (ms ! j)} else {ms ! j}))"
  using assms
proof (induction jstr b i "end" ms rule: empty_results.induct)
  case (1 jstr b i e ms)
  show ?case
  proof (cases "i < e \<and> b < total jstr ms")
    case True
    then show ?thesis using 1
      by (subst (1 2) empty_results.simps) (fastforce simp: nth_list_update split: if_splits)
  next
    case False
    then show ?thesis by (subst (1 2) empty_results.simps) auto
  qed
qed

text \<open>The relation between the messages before and after fitting, position by position.\<close>

definition kept :: "message \<Rightarrow> message \<Rightarrow> bool" where
  "kept a b \<longleftrightarrow> b = a \<or> b = emptied a"

lemma kept_role: "kept a b \<Longrightarrow> m_role b = m_role a"
  by (auto simp: kept_def)

lemma kept_other: "kept a b \<Longrightarrow> m_role a \<noteq> ''tool'' \<Longrightarrow> b = a"
  by (auto simp: kept_def)

lemma empty_results_kept:
  "e \<le> length ms \<Longrightarrow> list_all2 kept ms (empty_results jstr b i e ms)"
  using empty_results_nth [of e ms jstr b i]
  by (auto simp: list_all2_conv_all_nth kept_def split: if_splits)

lemma list_all2_kept_tools_follow: "list_all2 kept xs ys \<Longrightarrow> tools_follow p xs \<Longrightarrow> tools_follow p ys"
  by (induction xs ys arbitrary: p rule: list_all2_induct) (auto simp: kept_role answers_def)

lemma list_all2_kept_filter:
  "list_all2 kept xs ys \<Longrightarrow> (\<And>m. P m \<Longrightarrow> m_role m = ''user'') \<Longrightarrow> filter P ys = filter P xs"
proof (induction xs ys rule: list_all2_induct)
  case (Cons x xs y ys)
  show ?case
  proof (cases "m_role x = ''tool''")
    case True
    then have "\<not> P x" "\<not> P y" using Cons kept_role by fastforce+
    then show ?thesis using Cons by simp
  qed (use Cons kept_other in fastforce)
qed simp

text \<open>The newest question and what follows it survive the removal of turns.\<close>

lemma drop_turn_split:
  assumes "drop_turn (s # pre @ q # post) = Some ms'" "is_question q" "\<forall>m \<in> set post. \<not> is_question m"
  shows "\<exists>pre'. ms' = s # pre' @ q # post"
proof -
  have qp: "rposition is_question (s # pre @ q # post) = Some (length (s # pre))"
    using rposition_append [of is_question q post "s # pre"] assms(2,3) by simp
  then obtain i k where s: "1 \<le> i" "i + k \<le> length (s # pre)"
    "ms' = take i (s # pre @ q # post) @ drop (i + k) (s # pre @ q # post)"
    using drop_turn_shape [OF assms(1)] by (metis option.inject)
  then obtain i' where i: "i = Suc i'" by (cases i) auto
  have "ms' = s # (take i' pre @ drop (i' + k) pre) @ q # post"
    using s i by (auto simp: take_Cons' drop_Cons')
  then show ?thesis by blast
qed

lemma drop_turn_block:
  assumes "drop_turn ms = Some ms'" "filter is_block ms \<noteq> []"
  shows "filter is_block ms' \<noteq> [] \<and> last (filter is_block ms') = last (filter is_block ms)"
proof -
  obtain i k where s: "ms' = take i ms @ drop (i + k) ms" "Some i \<noteq> rposition is_block ms" "0 < k"
    "\<forall>j. 0 < j \<and> j < k \<longrightarrow> m_role (ms ! (i + j)) = ''tool''"
    using drop_turn_shape [OF assms(1)] by metis
  obtain b where b: "rposition is_block ms = Some b"
    using assms(2) rposition_None [of is_block ms] by (cases "rposition is_block ms") (auto simp: filter_empty_conv)
  then obtain us u vs where u: "ms = us @ u # vs" "length us = b" "is_block u" "\<forall>z \<in> set vs. \<not> is_block z"
    by (auto simp: rposition_Some)
  have "m_role (ms ! b) = ''user''" using u by (auto simp: is_block_def is_status_def)
  have "\<not> (i \<le> b \<and> b < i + k)"
  proof
    assume ib: "i \<le> b \<and> b < i + k"
    then obtain j where j: "b = i + j" by (metis le_Suc_ex)
    then have "0 < j \<and> j < k" using ib s(2) b by (cases j) auto
    then show False using s(4) j \<open>m_role (ms ! b) = ''user''\<close> by auto
  qed
  then consider "b < i" | "i + k \<le> b" by linarith
  then show ?thesis
  proof cases
    case 1
    then obtain n where n: "i = Suc (b + n)" by (metis add_Suc_right less_iff_Suc_add)
    have "filter is_block (take n vs) = []" "filter is_block (drop (n + k) vs) = []" "filter is_block vs = []"
      using u(4) by (auto simp: filter_empty_conv dest: in_set_takeD in_set_dropD)
    then show ?thesis using u n s(1) by (simp add: ac_simps)
  next
    case 2
    then have "drop (i + k) ms = drop (i + k) us @ u # vs" using u by simp
    then have "filter is_block (drop (i + k) ms) \<noteq> []" "last (filter is_block (drop (i + k) ms)) = u"
      using u by (auto simp: filter_empty_conv [of _ vs] last_append)
    moreover have "last (filter is_block ms) = u" using u by (simp add: last_append filter_empty_conv [of _ vs])
    ultimately show ?thesis by (simp add: s(1) last_append)
  qed
qed

text \<open>When nothing can be removed any more, only the daemon's own lines precede the question.\<close>

lemma drop_turn_None:
  assumes "drop_turn (s # pre @ q # post) = None" "is_question q" "\<forall>m \<in> set post. \<not> is_question m"
  shows "\<forall>m \<in> set pre. is_status m"
proof
  let ?ms = "s # pre @ q # post"
  have qp: "rposition is_question ?ms = Some (length (s # pre))"
    using rposition_append [of is_question q post "s # pre"] assms(2,3) by simp
  let ?kf = "keep_from ?ms (length (s # pre))"
  have none: "\<forall>i. 1 \<le> i \<and> i < ?kf \<longrightarrow> Some i = rposition is_block ?ms"
    using assms(1) unfolding drop_turn_def qp
    by (auto simp: find_None_iff Let_def simp del: rposition.simps split: option.splits)
  fix m assume "m \<in> set pre"
  then obtain j where j: "j < length pre" "m = ?ms ! Suc j" by (auto simp: in_set_conv_nth nth_append)
  show "is_status m"
  proof (cases "Suc j < ?kf")
    case True
    then have "rposition is_block ?ms = Some (Suc j)" using none by simp
    then have "is_block (?ms ! Suc j)" by (blast dest: rposition_nth)
    then show ?thesis using j(2) by (simp only: is_block_def)
  next
    case False
    then show ?thesis using keep_from_status [of ?ms "length (s # pre)" "Suc j"] j by simp
  qed
qed

lemma fit_loop_spec:
  assumes "is_question q" "\<forall>m \<in> set post. \<not> is_question m"
  shows "\<exists>pre'. fit_loop jstr b (s # pre @ q # post) = s # pre' @ q # post
    \<and> (total jstr (s # pre' @ q # post) \<le> b \<or> (\<forall>m \<in> set pre'. is_status m))"
proof (induction "length pre" arbitrary: pre rule: less_induct)
  case less
  let ?ms = "s # pre @ q # post"
  show ?case
  proof (cases "total jstr ?ms \<le> b")
    case True
    then show ?thesis by (subst fit_loop.simps) auto
  next
    case False
    show ?thesis
    proof (cases "drop_turn ?ms")
      case None
      then show ?thesis using False drop_turn_None [OF None assms] by (subst fit_loop.simps) auto
    next
      case (Some ms')
      then obtain pre' where pre': "ms' = s # pre' @ q # post" using drop_turn_split assms by blast
      then have "length pre' < length pre" using drop_turn_shorter [OF Some] by simp
      then show ?thesis using less [of pre'] Some pre' False by (subst fit_loop.simps) simp
    qed
  qed
qed

lemma fit_loop_tools_follow: "tools_follow False ms \<Longrightarrow> tools_follow False (fit_loop jstr b ms)"
  by (induction jstr b ms rule: fit_loop.induct)
    (subst fit_loop.simps, auto dest: drop_turn_tools_follow split: option.splits)

lemma fit_loop_block:
  "filter is_block ms \<noteq> [] \<Longrightarrow> filter is_block (fit_loop jstr b ms) \<noteq> []
     \<and> last (filter is_block (fit_loop jstr b ms)) = last (filter is_block ms)"
proof (induction jstr b ms rule: fit_loop.induct)
  case (1 jstr b ms)
  show ?case
  proof (cases "total jstr ms \<le> b \<or> drop_turn ms = None")
    case True
    then show ?thesis using 1(2) by (subst (1 2) fit_loop.simps) auto
  next
    case False
    then obtain ms' where ms': "drop_turn ms = Some ms'" "\<not> total jstr ms \<le> b" by auto
    then have eq: "fit_loop jstr b ms = fit_loop jstr b ms'" by (subst fit_loop.simps) simp
    show ?thesis
      unfolding eq using 1(1) [OF ms'(2,1)] drop_turn_block [OF ms'(1) 1(2)] by simp
  qed
qed

lemma fit_context_small: "total jstr ms \<le> 1000 \<Longrightarrow> fit_context jstr cfg n ms = ms"
  unfolding fit_context_def fit_budget_def Let_def by (simp add: le_max_iff_disj)

lemma fit_context_tools_follow:
  "tools_follow False ms \<Longrightarrow> tools_follow False (fit_context jstr cfg n ms)"
  unfolding fit_context_def Let_def
  by (auto intro!: fit_loop_tools_follow list_all2_kept_tools_follow [OF empty_results_kept]
      drop_clocks_tools_follow)

lemma fit_context_block:
  assumes "filter is_block ms \<noteq> []"
  shows "last (filter is_block (fit_context jstr cfg n ms)) = last (filter is_block ms)"
proof -
  let ?ms1 = "drop_clocks ms"
  let ?ms2 = "empty_results jstr (fit_budget cfg n) 1 (length ?ms1 - 1) ?ms1"
  have "is_clock m \<Longrightarrow> \<not> is_block m" for m by (auto simp: is_clock_def is_block_def STATUS_def CLOCK_def)
  then have 1: "filter is_block ?ms1 = filter is_block ms" by (rule filter_drop_clocks)
  have "filter is_block ?ms2 = filter is_block ?ms1"
    by (rule list_all2_kept_filter [OF empty_results_kept]) (auto simp: is_block_def is_status_def)
  then show ?thesis
    using fit_loop_block [of ?ms2 jstr "fit_budget cfg n"] assms 1
    by (simp add: fit_context_def Let_def)
qed

lemma set_drop_clocks: "set (drop_clocks ms) \<subseteq> set ms"
  by (induction ms) (auto simp: drop_clocks_Cons)

lemma last_drop_clocks: "ms \<noteq> [] \<Longrightarrow> drop_clocks ms \<noteq> [] \<and> last (drop_clocks ms) = last ms"
proof (induction ms)
  case (Cons m ms)
  then show ?case by (cases "ms = []") (auto simp: drop_clocks_Cons)
qed simp

lemma empty_results_last:
  assumes "ms \<noteq> []"
  shows "last (empty_results jstr b i (length ms - 1) ms) = last ms"
proof -
  let ?r = "empty_results jstr b i (length ms - 1) ms" and ?j = "length ms - 1"
  have r: "length ?r = length ms" "?r ! ?j = ms ! ?j"
    using empty_results_nth [of ?j ms jstr b i] assms
    by (auto dest!: spec [of _ ?j])
  then have "?r \<noteq> []" using assms by (metis length_0_conv)
  then show ?thesis using r assms by (simp add: last_conv_nth)
qed

lemma kept_question: "kept a b \<Longrightarrow> is_question b = is_question a"
  by (cases "m_role a = ''tool''") (auto simp: is_question_def dest: kept_role kept_other)

lemma kept_clock: "kept a b \<Longrightarrow> is_clock b = is_clock a"
  by (cases "m_role a = ''tool''") (auto simp: is_clock_def is_status_def dest: kept_role kept_other)

lemma list_all2_kept_question:
  "list_all2 kept xs ys \<Longrightarrow> \<forall>m \<in> set xs. \<not> is_question m \<Longrightarrow> \<forall>m \<in> set ys. \<not> is_question m"
  by (induction xs ys rule: list_all2_induct) (auto simp: kept_question)

lemma list_all2_kept_clocks:
  "list_all2 kept xs ys \<Longrightarrow> list_all2 kept (filter (\<lambda>m. \<not> is_clock m) xs) (filter (\<lambda>m. \<not> is_clock m) ys)"
  by (induction xs ys rule: list_all2_induct) (auto simp: kept_clock)

text \<open>The two phases that do not remove turns, on a conversation with its newest question marked.\<close>

lemma shrink_split:
  assumes "m_role s = ''system''" "is_question q" "\<forall>m \<in> set post. \<not> is_question m"
    and "ms1 = drop_clocks (s # pre @ q # post)"
  shows "\<exists>pre' post'. empty_results jstr b 1 (length ms1 - 1) ms1 = s # pre' @ q # post'
    \<and> list_all2 kept (filter (\<lambda>m. \<not> is_clock m) post) (filter (\<lambda>m. \<not> is_clock m) post')
    \<and> last (q # post') = last (q # post) \<and> (\<forall>m \<in> set post'. \<not> is_question m)"
proof -
  have s: "\<not> is_clock s" and q: "\<not> is_clock q"
    using assms(1,2) by (auto simp: is_clock_def is_status_def is_question_def)
  obtain pre1 where ms1: "ms1 = s # pre1 @ q # drop_clocks post"
    using drop_clocks_append [of pre "q # post"] s q by (auto simp: assms(4) drop_clocks_Cons)
  let ?r = "empty_results jstr b 1 (length ms1 - 1) ms1"
  have r: "list_all2 kept (s # pre1 @ q # drop_clocks post) ?r"
    unfolding ms1 [symmetric] by (rule empty_results_kept) simp
  then obtain s' pre' q' post' where r_eq: "?r = s' # pre' @ q' # post'"
    and k: "kept s s'" "list_all2 kept pre1 pre'" "kept q q'" "list_all2 kept (drop_clocks post) post'"
    by (auto simp: list_all2_Cons1 list_all2_append1)
  have "s' = s" "q' = q" using k(1,3) assms(1,2) by (auto intro: kept_other simp: is_question_def)
  moreover have "last ?r = last ms1"
    by (rule empty_results_last) (simp add: ms1)
  then have "last (q' # post') = last (q # drop_clocks post)"
    by (simp only: r_eq) (simp add: ms1)
  then have "last (q' # post') = last (q # post)"
    using last_drop_clocks [of "q # post"] q by (simp add: drop_clocks_Cons)
  moreover have "\<forall>m \<in> set post'. \<not> is_question m"
    using list_all2_kept_question [OF k(4)] assms(3) set_drop_clocks [of post] by blast
  moreover have "list_all2 kept (filter (\<lambda>m. \<not> is_clock m) post) (filter (\<lambda>m. \<not> is_clock m) post')"
    using list_all2_kept_clocks [OF k(4)] by (simp add: filter_drop_clocks)
  ultimately show ?thesis using r_eq by blast
qed

lemma fit_context_split:
  assumes "m_role s = ''system''" "is_question q" "\<forall>m \<in> set post. \<not> is_question m"
  shows "\<exists>pre' post'. fit_context jstr cfg n (s # pre @ q # post) = s # pre' @ q # post'
    \<and> list_all2 kept (filter (\<lambda>m. \<not> is_clock m) post) (filter (\<lambda>m. \<not> is_clock m) post')
    \<and> last (q # post') = last (q # post)
    \<and> (total jstr (s # pre' @ q # post') \<le> fit_budget cfg n \<or> (\<forall>m \<in> set pre'. is_status m))"
proof (cases "total jstr (s # pre @ q # post) \<le> fit_budget cfg n")
  case True
  then show ?thesis
    by (intro exI [of _ pre] exI [of _ post])
      (simp add: fit_context_def Let_def list_all2_refl kept_def)
next
  case False
  let ?ms1 = "drop_clocks (s # pre @ q # post)" and ?b = "fit_budget cfg n"
  obtain pre1 post1 where 1: "empty_results jstr ?b 1 (length ?ms1 - 1) ?ms1 = s # pre1 @ q # post1"
    "list_all2 kept (filter (\<lambda>m. \<not> is_clock m) post) (filter (\<lambda>m. \<not> is_clock m) post1)"
    "last (q # post1) = last (q # post)" "\<forall>m \<in> set post1. \<not> is_question m"
    using shrink_split [OF assms refl] by blast
  obtain pre2 where 2: "fit_loop jstr ?b (s # pre1 @ q # post1) = s # pre2 @ q # post1"
    "total jstr (s # pre2 @ q # post1) \<le> ?b \<or> (\<forall>m \<in> set pre2. is_status m)"
    using fit_loop_spec [OF assms(2) 1(4)] by blast
  have "fit_context jstr cfg n (s # pre @ q # post) = s # pre2 @ q # post1"
    using False 1(1) 2(1) by (simp add: fit_context_def Let_def)
  then show ?thesis using 1 2 by blast
qed

text \<open>
  Fitting a conversation to the context keeps the system message, the newest question and, in
  order, everything after it (old clock lines apart), where a long tool result may have lost its
  body but never the newest message; the newest status block stays; and no tool result is left
  without the call it answers. The result fits the budget unless only the daemon's own lines stand
  between the system message and the question.
\<close>

theorem fit_context_keeps:
  assumes "m_role s = ''system''" "is_question q" "\<forall>m \<in> set post. \<not> is_question m"
    and "ms = s # pre @ q # post" "tools_follow False ms"
  shows "\<exists>pre' post'. fit_context jstr cfg n ms = s # pre' @ q # post'
    \<and> list_all2 kept (filter (\<lambda>m. \<not> is_clock m) post) (filter (\<lambda>m. \<not> is_clock m) post')
    \<and> last (q # post') = last (q # post)
    \<and> (filter is_block ms \<noteq> [] \<longrightarrow>
        last (filter is_block (s # pre' @ q # post')) = last (filter is_block ms))
    \<and> tools_follow False (s # pre' @ q # post')
    \<and> (total jstr (s # pre' @ q # post') \<le> fit_budget cfg n \<or> (\<forall>m \<in> set pre'. is_status m))"
  using fit_context_split [OF assms(1-3), of jstr cfg n pre]
    fit_context_tools_follow [OF assms(5), of jstr cfg n] fit_context_block [of ms jstr cfg n]
  unfolding assms(4) by metis

theorem fit_context_keeps_witness:
  "\<exists>pre' post'. fit_context (\<lambda>_. '''') \<lparr>cfg_context = 8192, cfg_max_tokens = 512, cfg_max_tool_rounds = 16,
       cfg_policy = default_policy, cfg_web_enabled = True\<rparr> 6000
       [msg_system ''you are Mind'', msg_user ''old'', msg_assistant ''hi'' [], msg_user ''new'', msg_assistant ''ok'' []]
     = msg_system ''you are Mind'' # pre' @ msg_user ''new'' # post'"
proof -
  let ?s = "msg_system ''you are Mind''" and ?q = "msg_user ''new''"
  let ?pre = "[msg_user ''old'', msg_assistant ''hi'' []]" and ?post = "[msg_assistant ''ok'' []]"
  have a: "m_role ?s = ''system''" and b: "is_question ?q" and c: "\<forall>m \<in> set ?post. \<not> is_question m"
    and d: "tools_follow False (?s # ?pre @ ?q # ?post)"
    by (simp_all add: msg_system_def msg_user_def msg_assistant_def is_question_def)
  obtain pre' post' where "fit_context (\<lambda>_. '''') \<lparr>cfg_context = 8192, cfg_max_tokens = 512,
      cfg_max_tool_rounds = 16, cfg_policy = default_policy, cfg_web_enabled = True\<rparr> 6000
      (?s # ?pre @ ?q # ?post) = ?s # pre' @ ?q # post'"
    using fit_context_keeps [OF a b c refl d] by blast
  then show ?thesis by (simp only: append.simps) blast
qed

section \<open>The status block\<close>

lemma filter_status_set_prompt:
  "filter is_status (set_prompt prompt ms) = filter is_status ms"
  by (auto simp: set_prompt_def is_status_def msg_system_def split: list.splits)

lemma named_user_status [simp]: "is_status (msg_named_user n c)"
  by (simp add: is_status_def msg_named_user_def)

lemma after_newline_append: "nl \<notin> set a \<Longrightarrow> after_newline (a @ nl # b) = Some b"
  by (induction a) auto

text \<open>
  Refreshing the status leaves the fixed prompt as the first message and the conversation
  itself as it was. If the facts did not change, one clock line is appended and nothing before it
  is touched (so the prompt cache stays valid); if they changed, the new block at the end is the
  only line of the daemon's own.
\<close>

theorem place_status_correct:
  assumes "m_role s = ''system''" "m_content s = Some prompt" "nl \<notin> set time"
  shows "let r = place_status (s # ms) prompt time body in
    hd r = s
    \<and> filter (\<lambda>m. \<not> is_status m) r = filter (\<lambda>m. \<not> is_status m) (s # ms)
    \<and> (status_unchanged (s # ms) body \<longrightarrow> (\<exists>c. r = (s # ms) @ [c] \<and> is_clock c))
    \<and> (\<not> status_unchanged (s # ms) body \<longrightarrow>
        (\<exists>b. filter is_status r = [b] \<and> last r = b \<and> is_block b \<and> status_unchanged r body))"
proof -
  have s: "set_prompt prompt (s # ms) = s # ms" "\<not> is_status s"
    using assms by (simp_all add: set_prompt_def is_status_def)
  let ?b = "msg_named_user STATUS (''Right now ('' @ time @ ''):'' @ [nl] @ body)"
  have "is_block ?b" by (simp add: is_block_def msg_named_user_def is_status_def)
  show ?thesis
  proof (cases "status_unchanged (s # ms) body")
    case True
    then show ?thesis
      using s by (simp add: place_status_def is_clock_def msg_named_user_def Let_def is_status_def)
  next
    case False
    let ?r = "filter (\<lambda>m. \<not> is_status m) (s # ms) @ [?b]"
    have r: "place_status (s # ms) prompt time body = ?r"
      using False s by (simp add: place_status_def)
    have "rposition is_block ?r = Some (length (filter (\<lambda>m. \<not> is_status m) (s # ms)))"
      using rposition_append [of is_block ?b "[]" "filter (\<lambda>m. \<not> is_status m) (s # ms)"] \<open>is_block ?b\<close> by simp
    then have "status_unchanged ?r body"
      using assms(3) after_newline_append [of "''Right now ('' @ time @ ''):''" body]
      by (simp add: status_unchanged_def nth_append msg_named_user_def nl_def del: rposition.simps)
    moreover have "filter is_status ?r = [?b]" "last ?r = ?b"
      "filter (\<lambda>m. \<not> is_status m) ?r = filter (\<lambda>m. \<not> is_status m) (s # ms)" "hd ?r = s"
      using s(2) by (auto simp: filter_empty_conv)
    ultimately show ?thesis unfolding r Let_def using False \<open>is_block ?b\<close> by blast
  qed
qed

theorem place_status_correct_witness:
  "hd (place_status [msg_system ''you are Mind'', msg_user ''hello''] ''you are Mind'' ''Mon 08 Sep 14:32''
     ''- updates: none pending'') = msg_system ''you are Mind''"
proof -
  have "m_role (msg_system ''you are Mind'') = ''system''" "m_content (msg_system ''you are Mind'') = Some ''you are Mind''"
    "nl \<notin> set ''Mon 08 Sep 14:32''"
    by (simp_all add: msg_system_def nl_def)
  then show ?thesis
    using place_status_correct [of "msg_system ''you are Mind''" "''you are Mind''" "''Mon 08 Sep 14:32''"
        "[msg_user ''hello'']"] unfolding Let_def by blast
qed

end
