(* ===== verification/Agent_Loop.thy ===== *)
theory Agent_Loop
  imports Agent
begin

text \<open>
  One user turn of the agent (\<open>run_chat\<close> and \<open>run_tool\<close> of src/mindd/src/daemon/agent.rs, \<open>wait_confirm\<close>,
  \<open>wait_tool_result\<close> and \<open>trim_session\<close> of server.rs). The daemon's visible actions are a trace of
  effects. The flag that lets the Mind change the system is shared with other connections, so its
  value is a function of the moment, given as the length of the trace.
\<close>

section \<open>The client's channel\<close>

text \<open>
  The requests of the client in the order they arrive; \<open>None\<close> stands for a moment at which the time limit of
  the wait that is under way, if any, runs out. The end of the list is a channel that was closed.
\<close>

datatype request = Confirm string bool | ToolResult string bool json | Cancel | OtherRequest

type_synonym inbox = "request option list"

fun wait_confirm :: "string \<Rightarrow> inbox \<Rightarrow> bool \<times> inbox" where
  "wait_confirm i [] = (False, [])"
| "wait_confirm i (Some (Confirm cid approve) # rs) =
     (if cid = i then (approve, rs) else wait_confirm i rs)"
| "wait_confirm i (Some Cancel # rs) = (False, rs)"
| "wait_confirm i (None # rs) = (False, rs)"
| "wait_confirm i (_ # rs) = wait_confirm i rs"

fun wait_tool_result :: "string \<Rightarrow> inbox \<Rightarrow> (bool \<times> json) option \<times> inbox" where
  "wait_tool_result i [] = (None, [])"
| "wait_tool_result i (Some (ToolResult rid ok v) # rs) =
     (if rid = i then (Some (ok, v), rs) else wait_tool_result i rs)"
| "wait_tool_result i (Some Cancel # rs) = (None, rs)"
| "wait_tool_result i (None # rs) = (None, rs)"
| "wait_tool_result i (_ # rs) = wait_tool_result i rs"

text \<open>What a wait took from the channel.\<close>

definition taken :: "inbox \<Rightarrow> inbox \<Rightarrow> inbox" where
  "taken inbox rest = take (length inbox - length rest) inbox"

section \<open>Effects\<close>

datatype effect =
    SendToolCall string string policy bool
  | SendClientTool string string json
  | SendToolResult string string bool
  | Audit string string  \<comment> \<open>the kind of the record and the name or text it is about\<close>
  | Execute string json
  | Got "request option"  \<comment> \<open>an entry of the channel was taken\<close>

text \<open>What the daemon is set up with for a turn.\<close>

record daemon =
  d_config :: config
  d_changes :: "nat \<Rightarrow> bool"
  d_exec :: "string \<Rightarrow> json \<Rightarrow> string + json"
  d_client_tools :: "string list"
  d_autopilot :: bool

definition result_ok :: "string + json \<Rightarrow> bool" where
  "result_ok r = (case r of Inl e \<Rightarrow> False
     | Inr v \<Rightarrow> (case jget v ''ok'' of JBool b \<Rightarrow> b | _ \<Rightarrow> True))"

definition run_tool ::
    "daemon \<Rightarrow> nat \<Rightarrow> tool_call \<Rightarrow> json \<Rightarrow> inbox \<Rightarrow> (string + json) \<times> effect list \<times> inbox" where
  "run_tool d now call args inbox =
     (let i = tc_id call; name = tc_name call in
      if name \<in> set (d_client_tools d) then
        (let es = [SendToolCall i name Change False, SendClientTool i name args, Audit ''client_tool'' name];
             (res, inbox') = wait_tool_result i inbox;
             es = es @ map Got (taken inbox inbox')
         in case res of
              Some (ok, v) \<Rightarrow> (Inr (JObj [(''ok'', JBool ok), (''result'', v)]), es @ [SendToolResult i name ok], inbox')
            | None \<Rightarrow> (Inl ''the client did not answer the tool request'', es, inbox'))
      else (case find_tool (definitions (d_config d)) name of
          None \<Rightarrow> (Inl (''unknown tool '' @ name), [], inbox)
        | Some tdef \<Rightarrow>
            (let pol = policy_for tdef args (d_config d);
                 needs = needs_confirmation pol (td_category tdef) (d_autopilot d) (cfg_policy (d_config d));
                 es = [SendToolCall i name pol (needs \<and> pol \<noteq> Forbidden), Audit ''tool_call'' name];
                 denied = [SendToolResult i name False, Audit ''tool_denied'' name]
             in if pol = Forbidden then
                  (Inl ''this action is forbidden by MindOS policy'', es @ denied, inbox)
                else if pol = Change \<and> \<not> d_changes d (now + length es) then
                  (Inl ''changing the system is turned off for the Mind'', es @ denied, inbox)
                else let (approved, inbox') = (if needs then wait_confirm i inbox else (True, inbox));
                         es = es @ map Got (taken inbox inbox') in
                  if \<not> approved then (Inl ''the user declined this action'', es @ denied, inbox')
                  else let res = d_exec d name args in
                    (res, es @ [Execute name args, SendToolResult i name (result_ok res), Audit ''tool_result'' name],
                     inbox'))))"

section \<open>A turn\<close>

text \<open>
  A round of the model: how many client requests were drained while it streamed, and its answer.
\<close>

datatype llm_reply = LlmReply string "tool_call list" | LlmError string

datatype chat_outcome = ChatDone string | ChatError string | ChatWaiting

definition result_content :: "(json \<Rightarrow> string) \<Rightarrow> string + json \<Rightarrow> string" where
  "result_content jstr r =
     (case r of Inr v \<Rightarrow> jstr v
      | Inl e \<Rightarrow> jstr (JObj [(''ok'', JBool False), (''error'', JStr e)]))"

fun run_calls :: "(json \<Rightarrow> string) \<Rightarrow> (string \<Rightarrow> json option) \<Rightarrow> daemon \<Rightarrow> tool_call list
    \<Rightarrow> message list \<Rightarrow> effect list \<Rightarrow> inbox \<Rightarrow> message list \<times> effect list \<times> inbox" where
  "run_calls jstr jparse d [] ms es inbox = (ms, es, inbox)"
| "run_calls jstr jparse d (call # calls) ms es inbox =
     (let args = (case jparse (tc_arguments call) of
                    Some v \<Rightarrow> v | None \<Rightarrow> JObj [(''_raw'', JStr (tc_arguments call))]);
          (res, es', inbox') = run_tool d (length es) call args inbox
      in run_calls jstr jparse d calls
           (ms @ [msg_tool (tc_id call) (tc_name call) (result_content jstr res)]) (es @ es') inbox')"

fun run_rounds :: "(json \<Rightarrow> string) \<Rightarrow> (string \<Rightarrow> json option) \<Rightarrow> daemon \<Rightarrow> nat \<Rightarrow> nat
    \<Rightarrow> (nat \<times> llm_reply) list \<Rightarrow> message list \<Rightarrow> effect list \<Rightarrow> inbox
    \<Rightarrow> chat_outcome \<times> message list \<times> effect list" where
  "run_rounds jstr jparse d tools_chars 0 replies ms es inbox =
     (ChatDone ([nl] @ ''(stopping: too many tool calls in one turn)''), ms, es)"
| "run_rounds jstr jparse d tools_chars (Suc n) [] ms es inbox =
     (ChatWaiting, fit_context jstr (d_config d) tools_chars ms, es)"
| "run_rounds jstr jparse d tools_chars (Suc n) ((drained, reply) # replies) ms es inbox =
     (let ms1 = fit_context jstr (d_config d) tools_chars ms in
      case reply of
        LlmError e \<Rightarrow> (ChatError e, ms1, es)
      | LlmReply text calls \<Rightarrow>
          let es1 = es @ map Got (take drained inbox) in
          if Some Cancel \<in> set (take drained inbox) then (ChatError ''cancelled'', ms1, es1)
          else let inbox1 = drop drained inbox;
                   ms2 = ms1 @ [msg_assistant text calls];
                   es2 = (if text \<noteq> [] then es1 @ [Audit ''assistant'' text] else es1)
               in if calls = [] then (ChatDone text, ms2, es2)
                  else let (ms3, es3, inbox3) = run_calls jstr jparse d calls ms2 es2 inbox1
                       in run_rounds jstr jparse d tools_chars n replies ms3 es3 inbox3)"

definition run_chat :: "(json \<Rightarrow> string) \<Rightarrow> (string \<Rightarrow> json option) \<Rightarrow> daemon \<Rightarrow> nat
    \<Rightarrow> (nat \<times> llm_reply) list \<Rightarrow> message list \<Rightarrow> string \<Rightarrow> inbox
    \<Rightarrow> chat_outcome \<times> message list \<times> effect list" where
  "run_chat jstr jparse d tools_chars replies ms text inbox =
     (let (out, ms', es) = run_rounds jstr jparse d tools_chars (cfg_max_tool_rounds (d_config d)) replies
            (ms @ [msg_user text]) [Audit ''user'' text] inbox
      in (out, ms', case out of ChatDone t \<Rightarrow> es @ [Audit ''done'' t] | _ \<Rightarrow> es))"

section \<open>Session length\<close>

definition trim_session :: "nat \<Rightarrow> message list \<Rightarrow> message list" where
  "trim_session max_messages ms =
     (let conversation = length (filter (\<lambda>m. \<not> is_status m) ms) in
      if conversation \<le> max_messages then ms
      else let head = takeWhile (\<lambda>m. m_role m = ''system'') ms;
               rest = filter (\<lambda>m. \<not> is_status m) (drop (length head) ms)
           in head @ dropWhile (\<lambda>m. m_role m = ''tool'') (drop (conversation - max_messages) rest))"

section \<open>The gate\<close>

text \<open>The client approved the call, by the last of the entries: no answer for this id, no cancel and no time-out before it.\<close>

definition confirmed :: "string \<Rightarrow> inbox \<Rightarrow> bool" where
  "confirmed i rs \<longleftrightarrow> (\<exists>before. rs = before @ [Some (Confirm i True)]
     \<and> Some Cancel \<notin> set before \<and> None \<notin> set before \<and> (\<forall>a. Some (Confirm i a) \<notin> set before))"

lemma confirmed_Cons:
  "r \<noteq> None \<Longrightarrow> r \<noteq> Some Cancel \<Longrightarrow> \<forall>a. r \<noteq> Some (Confirm i a) \<Longrightarrow> confirmed i rs \<Longrightarrow> confirmed i (r # rs)"
  unfolding confirmed_def by (metis append_Cons set_ConsD)

lemma taken_step: "(\<exists>k. rest = drop k rs) \<Longrightarrow> taken (r # rs) rest = r # taken rs rest"
  by (auto simp: taken_def Suc_diff_le)

lemma wait_confirm_rest: "\<exists>k. snd (wait_confirm i rs) = drop k rs"
proof (induction i rs rule: wait_confirm.induct)
  case (2 i cid a rs)
  then show ?case by (metis (no_types, lifting) drop0 drop_Suc_Cons snd_conv wait_confirm.simps(2))
qed (auto intro: exI [of _ "Suc 0"] exI [of _ "Suc k" for k])

lemma wait_tool_result_rest: "\<exists>k. snd (wait_tool_result i rs) = drop k rs"
proof (induction i rs rule: wait_tool_result.induct)
  case (2 i rid ok v rs)
  then show ?case by (metis (no_types, lifting) drop0 drop_Suc_Cons snd_conv wait_tool_result.simps(2))
qed (auto intro: exI [of _ "Suc 0"] exI [of _ "Suc k" for k])

lemma taken_drop: "\<exists>k. rest = drop k rs \<Longrightarrow> rs = taken rs rest @ rest"
proof -
  assume "\<exists>k. rest = drop k rs"
  then obtain k where k: "rest = drop k rs" by blast
  show ?thesis unfolding k by (cases "k \<le> length rs") (simp_all add: taken_def)
qed

lemma wait_confirm_confirmed: "fst (wait_confirm i rs) \<Longrightarrow> confirmed i (taken rs (snd (wait_confirm i rs)))"
proof (induction i rs rule: wait_confirm.induct)
  case (2 i cid a rs)
  show ?case
  proof (cases "cid = i")
    case True
    then show ?thesis using 2 by (simp add: taken_def confirmed_def)
  next
    case False
    then show ?thesis using 2 wait_confirm_rest [of i rs] by (simp add: taken_step confirmed_Cons)
  qed
qed (simp_all add: taken_step confirmed_Cons wait_confirm_rest)

text \<open>
  What may stand before the execution of a tool: the call was announced and recorded under an id, then entries of
  the channel were taken. The flag for changes was read at the moment of the record.
\<close>

definition gated :: "daemon \<Rightarrow> effect list \<Rightarrow> string \<Rightarrow> json \<Rightarrow> bool" where
  "gated d pre n a \<longleftrightarrow> n \<notin> set (d_client_tools d)
     \<and> (\<exists>tdef i before asked rs. find_tool (definitions (d_config d)) n = Some tdef
        \<and> policy_for tdef a (d_config d) \<noteq> Forbidden
        \<and> pre = before @ [SendToolCall i n (policy_for tdef a (d_config d)) asked, Audit ''tool_call'' n] @ map Got rs
        \<and> (policy_for tdef a (d_config d) = Change \<longrightarrow> d_changes d (length before + 2))
        \<and> (if needs_confirmation (policy_for tdef a (d_config d)) (td_category tdef) (d_autopilot d) (cfg_policy (d_config d))
           then confirmed i rs else rs = []))"

text \<open>The entries of the channel that a trace has taken.\<close>

fun received :: "effect list \<Rightarrow> inbox" where
  "received [] = []"
| "received (Got r # es) = r # received es"
| "received (_ # es) = received es"

lemma received_append [simp]: "received (es @ es') = received es @ received es'"
  by (induction es rule: received.induct) simp_all

lemma received_Got [simp]: "received (map Got rs) = rs"
  by (induction rs) simp_all

definition trace_ok :: "daemon \<Rightarrow> inbox \<Rightarrow> effect list \<Rightarrow> inbox \<Rightarrow> bool" where
  "trace_ok d full es inbox \<longleftrightarrow> full = received es @ inbox
     \<and> (\<forall>pre n a post. es = pre @ Execute n a # post \<longrightarrow> gated d pre n a)"

lemma split_trace:
  assumes "es @ es' = pre @ Execute n a # post"
  obtains (before) m where "es = pre @ Execute n a # m" | (after) p where "pre = es @ p" "es' = p @ Execute n a # post"
proof -
  consider us where "es = pre @ us" "us @ es' = Execute n a # post" | us where "es @ us = pre" "es' = us @ Execute n a # post"
    using assms by (auto simp: append_eq_append_conv2)
  then show thesis
  proof cases
    case (1 us)
    then show thesis using before [of "tl us"] after [of "[]"] by (cases us) auto
  next
    case (2 us)
    then show thesis using after [of us] by simp
  qed
qed

lemma unique_occurrence: "xs @ e # ys = p @ e' # q \<Longrightarrow> e' \<notin> set xs \<Longrightarrow> e' \<notin> set ys \<Longrightarrow> p = xs \<and> e' = e"
  by (auto simp: append_eq_append_conv2 Cons_eq_append_conv append_eq_Cons_conv)

text \<open>Effects that execute nothing keep the trace in order.\<close>

lemma trace_ok_quiet:
  assumes "trace_ok d full es inbox" and "\<forall>n a. Execute n a \<notin> set es'" and "inbox = received es' @ inbox'"
  shows "trace_ok d full (es @ es') inbox'"
  unfolding trace_ok_def
proof (intro conjI allI impI)
  show "full = received (es @ es') @ inbox'" using assms by (simp add: trace_ok_def)
  fix pre n a post
  assume "es @ es' = pre @ Execute n a # post"
  then show "gated d pre n a"
    by (cases rule: split_trace) (use assms in \<open>auto simp: trace_ok_def\<close>)
qed

lemma trace_ok_execute:
  assumes "trace_ok d full es inbox" and "gated d (es @ es1) n a" and "\<forall>m b. Execute m b \<notin> set es1 \<union> set es2"
    and "inbox = received (es1 @ es2) @ inbox'"
  shows "trace_ok d full (es @ es1 @ Execute n a # es2) inbox'"
  unfolding trace_ok_def
proof (intro conjI allI impI)
  show "full = received (es @ es1 @ Execute n a # es2) @ inbox'" using assms(1,4) by (simp add: trace_ok_def)
  fix pre m b post
  assume "es @ es1 @ Execute n a # es2 = pre @ Execute m b # post"
  then show "gated d pre m b"
  proof (cases rule: split_trace)
    case (after p)
    from unique_occurrence [OF after(2)] have "p = es1 \<and> m = n \<and> b = a" using assms(3) by simp
    then show ?thesis using after assms(2) by simp
  qed (use assms(1) in \<open>auto simp: trace_ok_def\<close>)
qed

lemma run_tool_trace:
  assumes "run_tool d (length es) call args inbox = (res, es', inbox')" and "trace_ok d full es inbox"
  shows "trace_ok d full (es @ es') inbox'"
proof (cases "tc_name call \<in> set (d_client_tools d)")
  case True
  have "inbox = taken inbox (snd (wait_tool_result (tc_id call) inbox)) @ snd (wait_tool_result (tc_id call) inbox)"
    by (rule taken_drop) (rule wait_tool_result_rest)
  then show ?thesis using assms(1) True
    by (intro trace_ok_quiet [OF assms(2)]) (auto simp: run_tool_def Let_def split_def split: option.splits)
next
  case own: False
  show ?thesis
  proof (cases "find_tool (definitions (d_config d)) (tc_name call)")
    case None
    then show ?thesis using assms own by (simp add: run_tool_def)
  next
    case (Some tdef)
    let ?pol = "policy_for tdef args (d_config d)"
    let ?needs = "needs_confirmation ?pol (td_category tdef) (d_autopilot d) (cfg_policy (d_config d))"
    let ?w = "if ?needs then wait_confirm (tc_id call) inbox else (True, inbox)"
    let ?es = "[SendToolCall (tc_id call) (tc_name call) ?pol (?needs \<and> ?pol \<noteq> Forbidden), Audit ''tool_call'' (tc_name call)]"
    let ?got = "taken inbox (snd ?w)"
    have inbox: "inbox = ?got @ snd ?w" using wait_confirm_rest [of "tc_id call" inbox] taken_drop by (auto simp: taken_def)
    note r = assms(1) own Some
    show ?thesis
    proof (cases "?pol \<noteq> Forbidden \<and> (?pol = Change \<longrightarrow> d_changes d (length es + 2)) \<and> fst ?w")
      case True
      then have e: "es' = (?es @ map Got ?got) @ Execute (tc_name call) args #
          [SendToolResult (tc_id call) (tc_name call) (result_ok res), Audit ''tool_result'' (tc_name call)]" "inbox' = snd ?w"
        using r by (auto simp: run_tool_def Let_def split_def split: if_splits)
      have "gated d (es @ ?es @ map Got ?got) (tc_name call) args"
        unfolding gated_def
      proof (intro conjI exI)
        show "if ?needs then confirmed (tc_id call) ?got else ?got = []"
          using True wait_confirm_confirmed [of "tc_id call" inbox] by (auto simp: taken_def)
      qed (use own Some True in auto)
      then show ?thesis unfolding e
        by (intro trace_ok_execute [OF assms(2)]) (use inbox in auto)
    next
      case False
      then have "(\<forall>n a. Execute n a \<notin> set es') \<and> inbox = received es' @ inbox'"
        using r inbox by (auto simp: run_tool_def Let_def split_def split: if_splits)
      then show ?thesis by (intro trace_ok_quiet [OF assms(2)]) blast+
    qed
  qed
qed

lemma run_calls_trace:
  "run_calls jstr jparse d calls ms es inbox = (ms', es', inbox') \<Longrightarrow> trace_ok d full es inbox \<Longrightarrow> trace_ok d full es' inbox'"
proof (induction calls arbitrary: ms es inbox)
  case (Cons call calls)
  let ?args = "case jparse (tc_arguments call) of Some v \<Rightarrow> v | None \<Rightarrow> JObj [(''_raw'', JStr (tc_arguments call))]"
  obtain res es1 inbox1 where r: "run_tool d (length es) call ?args inbox = (res, es1, inbox1)" by (metis prod_cases3)
  then have "run_calls jstr jparse d calls (ms @ [msg_tool (tc_id call) (tc_name call) (result_content jstr res)]) (es @ es1) inbox1 = (ms', es', inbox')"
    using Cons.prems(1) by (simp add: Let_def)
  from Cons.IH [OF this run_tool_trace [OF r Cons.prems(2)]] show ?case .
qed simp

lemma run_calls_results:
  "run_calls jstr jparse d calls ms es inbox = (ms', es', inbox') \<Longrightarrow>
     \<exists>rs. ms' = ms @ rs \<and> map m_role rs = replicate (length calls) ''tool'' \<and> map m_tool_call_id rs = map (Some \<circ> tc_id) calls"
proof (induction calls arbitrary: ms es inbox)
  case (Cons call calls)
  let ?args = "case jparse (tc_arguments call) of Some v \<Rightarrow> v | None \<Rightarrow> JObj [(''_raw'', JStr (tc_arguments call))]"
  obtain res es1 inbox1 where r: "run_tool d (length es) call ?args inbox = (res, es1, inbox1)" by (metis prod_cases3)
  let ?m = "msg_tool (tc_id call) (tc_name call) (result_content jstr res)"
  have "run_calls jstr jparse d calls (ms @ [?m]) (es @ es1) inbox1 = (ms', es', inbox')"
    using Cons.prems r by (simp add: Let_def)
  from Cons.IH [OF this] obtain rs where "ms' = (ms @ [?m]) @ rs" "map m_role rs = replicate (length calls) ''tool''"
    "map m_tool_call_id rs = map (Some \<circ> tc_id) calls" by blast
  then show ?case by (intro exI [of _ "?m # rs"]) (simp add: msg_tool_def)
qed simp

lemma run_rounds_trace:
  "run_rounds jstr jparse d tc n replies ms es inbox = (out, ms', es') \<Longrightarrow> trace_ok d full es inbox \<Longrightarrow> \<exists>rest. trace_ok d full es' rest"
proof (induction n arbitrary: replies ms es inbox)
  case (Suc n)
  show ?case
  proof (cases replies)
    case (Cons r rs)
    obtain drained reply where r: "r = (drained, reply)" by (cases r)
    have "trace_ok d full (es @ map Got (take drained inbox)) (drop drained inbox)"
      by (rule trace_ok_quiet [OF Suc.prems(2)]) auto
    moreover have "trace_ok d full ((es @ map Got (take drained inbox)) @ [Audit ''assistant'' tx]) (drop drained inbox)" for tx
      by (rule trace_ok_quiet [OF calculation]) auto
    ultimately have t: "trace_ok d full (if tx \<noteq> [] then (es @ map Got (take drained inbox)) @ [Audit ''assistant'' tx]
        else es @ map Got (take drained inbox)) (drop drained inbox)" for tx by simp
    show ?thesis
    proof (cases "\<exists>tx calls. reply = LlmReply tx calls \<and> Some Cancel \<notin> set (take drained inbox) \<and> calls \<noteq> []")
      case True
      then obtain tx calls where c: "reply = LlmReply tx calls" "Some Cancel \<notin> set (take drained inbox)" "calls \<noteq> []" by blast
      let ?ms2 = "fit_context jstr (d_config d) tc ms @ [msg_assistant tx calls]"
      let ?es2 = "if tx \<noteq> [] then (es @ map Got (take drained inbox)) @ [Audit ''assistant'' tx] else es @ map Got (take drained inbox)"
      obtain ms3 es3 inbox3 where k: "run_calls jstr jparse d calls ?ms2 ?es2 (drop drained inbox) = (ms3, es3, inbox3)"
        by (metis prod_cases3)
      then have "run_rounds jstr jparse d tc n rs ms3 es3 inbox3 = (out, ms', es')"
        using Suc.prems(1) Cons r c by (simp add: Let_def)
      from Suc.IH [OF this run_calls_trace [OF k t]] show ?thesis .
    next
      case False
      show ?thesis
      proof (cases reply)
        case (LlmReply tx calls)
        then show ?thesis using False Suc.prems Cons r t [of tx] t [of "[]"] by (auto simp: Let_def split: if_splits)
      next
        case (LlmError e)
        then show ?thesis using Suc.prems Cons r by auto
      qed
    qed
  qed (use Suc.prems in auto)
qed auto

text \<open>
  C1. Over a whole user turn, whatever the model answers and in however many rounds: each time the daemon executes a tool,
  it is one of its own and not forbidden, and what immediately precedes it in the trace is the announcement of this
  call under an id, its audit record, and the entries taken from the channel since. A call that changes the system runs
  only if changes were switched on at the moment of that record. A call that needs a confirmation
  runs only if the last of these entries approves this id, with no answer for it, cancel or
  time-out before it; any other call takes nothing from the channel. What the trace has taken by then
  is what arrived first.
\<close>

theorem run_chat_gated:
  assumes "run_chat jstr jparse d tc replies ms tx inbox = (out, ms', es)" "es = pre @ Execute n a # post"
  shows "n \<notin> set (d_client_tools d)
    \<and> (\<exists>tdef i before asked rs. find_tool (definitions (d_config d)) n = Some tdef
        \<and> policy_for tdef a (d_config d) \<noteq> Forbidden
        \<and> pre = before @ [SendToolCall i n (policy_for tdef a (d_config d)) asked, Audit ''tool_call'' n] @ map Got rs
        \<and> (policy_for tdef a (d_config d) = Change \<longrightarrow> d_changes d (length before + 2))
        \<and> (if needs_confirmation (policy_for tdef a (d_config d)) (td_category tdef) (d_autopilot d) (cfg_policy (d_config d))
           then confirmed i rs else rs = []))
    \<and> received pre = take (length (received pre)) inbox"
proof -
  obtain es1 where r: "run_rounds jstr jparse d tc (cfg_max_tool_rounds (d_config d)) replies
      (ms @ [msg_user tx]) [Audit ''user'' tx] inbox = (out, ms', es1)"
    and es: "es = es1 \<or> (\<exists>t. es = es1 @ [Audit ''done'' t])"
    using assms(1) by (auto simp: run_chat_def Let_def split_def prod_eq_iff split: chat_outcome.splits)
  have "trace_ok d inbox [Audit ''user'' tx] inbox" by (auto simp: trace_ok_def Cons_eq_append_conv)
  from run_rounds_trace [OF r this] obtain rest where t1: "trace_ok d inbox es1 rest" by blast
  have "trace_ok d inbox (es1 @ [Audit ''done'' t]) rest" for t by (rule trace_ok_quiet [OF t1]) auto
  with t1 es have t: "trace_ok d inbox es rest" by auto
  then have "inbox = received pre @ received post @ rest" using assms(2) by (simp add: trace_ok_def)
  then have "received pre = take (length (received pre)) inbox" by simp
  moreover have "gated d pre n a" using t assms(2) by (simp add: trace_ok_def)
  ultimately show ?thesis unfolding gated_def by blast
qed

definition demo_daemon :: "bool \<Rightarrow> daemon" where
  "demo_daemon auto = \<lparr>d_config = \<lparr>cfg_context = 8192, cfg_max_tokens = 512, cfg_max_tool_rounds = 3,
       cfg_policy = default_policy, cfg_web_enabled = False\<rparr>,
     d_changes = (\<lambda>_. True), d_exec = (\<lambda>_ _. Inr (JObj [])), d_client_tools = [], d_autopilot = auto\<rparr>"

section \<open>The conversation over a turn\<close>

lemma tools_follow_results:
  "map m_role rs = replicate k ''tool'' \<Longrightarrow> tools_follow True rs"
proof (induction rs arbitrary: k)
  case (Cons m rs)
  then show ?case by (cases k) (auto simp: answers_def)
qed simp

lemma run_rounds_tools_follow:
  assumes "run_rounds jstr jparse d tc n replies ms es inbox = (out, ms', es')" "tools_follow False ms"
  shows "tools_follow False ms'"
  using assms
proof (induction n arbitrary: replies ms es inbox)
  case (Suc n)
  let ?ms1 = "fit_context jstr (d_config d) tc ms"
  have ms1: "tools_follow False ?ms1" using Suc.prems(2) by (rule fit_context_tools_follow)
  have ms2: "tools_follow False (?ms1 @ [msg_assistant tx calls])" for tx calls
    using ms1 by (simp add: tools_follow_append msg_assistant_def Let_def)
  show ?case
  proof (cases replies)
    case Nil
    then show ?thesis using Suc.prems ms1 by simp
  next
    case (Cons r rs)
    obtain drained reply where r: "r = (drained, reply)" by (cases r)
    show ?thesis
    proof (cases "\<exists>tx calls. reply = LlmReply tx calls \<and> Some Cancel \<notin> set (take drained inbox) \<and> calls \<noteq> []")
      case True
      then obtain tx calls where t: "reply = LlmReply tx calls" "Some Cancel \<notin> set (take drained inbox)" "calls \<noteq> []"
        by blast
      let ?ms2 = "?ms1 @ [msg_assistant tx calls]"
      let ?es2 = "if tx \<noteq> [] then (es @ map Got (take drained inbox)) @ [Audit ''assistant'' tx] else es @ map Got (take drained inbox)"
      obtain ms3 es3 inbox3 where c: "run_calls jstr jparse d calls ?ms2 ?es2 (drop drained inbox) = (ms3, es3, inbox3)"
        by (metis prod_cases3)
      then have rec: "run_rounds jstr jparse d tc n rs ms3 es3 inbox3 = (out, ms', es')"
        using Suc.prems Cons r t by (simp add: Let_def)
      obtain ys where "ms3 = ?ms2 @ ys" "map m_role ys = replicate (length calls) ''tool''"
        using run_calls_results [OF c] by blast
      then have "tools_follow False ms3"
        using ms2 [of tx calls] tools_follow_results
        by (auto simp: tools_follow_append answers_def msg_assistant_def Let_def)
      then show ?thesis using Suc.IH [OF rec] by blast
    next
      case False
      then show ?thesis using Suc.prems Cons r ms1 ms2
        by (cases reply) (auto simp: Let_def split: if_splits)
    qed
  qed
qed simp

lemma run_rounds_ends:
  "n \<le> length replies \<Longrightarrow> fst (run_rounds jstr jparse d tc n replies ms es inbox) \<noteq> ChatWaiting"
proof (induction n arbitrary: replies ms es inbox)
  case (Suc n)
  then obtain drained reply rs where "replies = (drained, reply) # rs" "n \<le> length rs"
    by (cases replies) auto
  then show ?case using Suc.IH
    by (cases reply) (auto simp: Let_def split_def)
qed simp

text \<open>
  C34. A turn ends after at most \<open>max_tool_rounds\<close> answers of the model, however many tools it asks
  for, and leaves a conversation in which every tool result stands behind the call it answers.
\<close>

theorem run_chat_ends_well_formed:
  assumes "tools_follow False ms" "cfg_max_tool_rounds (d_config d) \<le> length replies"
    "run_chat jstr jparse d tc replies ms tx inbox = (out, ms', es)"
  shows "out \<noteq> ChatWaiting \<and> tools_follow False ms'"
proof -
  obtain es1 where r: "run_rounds jstr jparse d tc (cfg_max_tool_rounds (d_config d)) replies
      (ms @ [msg_user tx]) [Audit ''user'' tx] inbox = (out, ms', es1)"
    using assms(3) by (auto simp: run_chat_def Let_def split_def prod_eq_iff)
  have "tools_follow False (ms @ [msg_user tx])"
    using assms(1) by (simp add: tools_follow_append msg_user_def)
  then show ?thesis
    using run_rounds_tools_follow [OF r] run_rounds_ends [OF assms(2)] r by (metis fst_conv)
qed

theorem run_chat_gated_witness:
  "\<exists>out ms' es pre post. run_chat (\<lambda>_. ''{}'') (\<lambda>_. Some (JObj [])) (demo_daemon False) 0
       [(0, LlmReply '''' [\<lparr>tc_id = ''c1'', tc_name = ''reboot'', tc_arguments = ''{}''\<rparr>])]
       [msg_system ''s''] ''restart please'' [Some OtherRequest, Some (Confirm ''c1'' True)] = (out, ms', es)
     \<and> es = pre @ Execute ''reboot'' (JObj []) # post \<and> received pre = [Some OtherRequest, Some (Confirm ''c1'' True)]"
proof -
  let ?inbox = "[Some OtherRequest, Some (Confirm ''c1'' True)]"
  let ?call = "\<lparr>tc_id = ''c1'', tc_name = ''reboot'', tc_arguments = ''{}''\<rparr>"
  let ?r = "run_chat (\<lambda>_. ''{}'') (\<lambda>_. Some (JObj [])) (demo_daemon False) 0
       [(0, LlmReply '''' [?call])] [msg_system ''s''] ''restart please'' ?inbox"
  let ?p = "[Audit ''user'' ''restart please'', SendToolCall ''c1'' ''reboot'' Change True, Audit ''tool_call'' ''reboot''] @ map Got ?inbox"
  obtain out ms' es where r: "?r = (out, ms', es)" by (metis prod_cases3)
  have t: "find_tool (definitions (d_config (demo_daemon False))) ''reboot''
      = Some \<lparr>td_name = ''reboot'', td_policy = Change, td_category = ''power''\<rparr>"
    by (simp add: definitions_def base_tools_def find_tool_def demo_daemon_def)
  have f: "fit_context (\<lambda>_. ''{}'') cfg 0 ([msg_system ''s'', msg_user ''restart please''])
      = [msg_system ''s'', msg_user ''restart please'']" for cfg
    by (rule fit_context_small) (simp add: total_def msg_size_def msg_system_def msg_user_def)
  have c: "run_tool (demo_daemon False) 1 ?call (JObj []) ?inbox = (Inr (JObj []),
      tl ?p @ [Execute ''reboot'' (JObj []), SendToolResult ''c1'' ''reboot'' (result_ok (Inr (JObj []))), Audit ''tool_result'' ''reboot''], [])"
    using t by (simp add: run_tool_def Let_def policy_for_def needs_confirmation_def demo_daemon_def default_policy_def taken_def)
  have "cfg_max_tool_rounds (d_config (demo_daemon False)) = Suc (Suc (Suc 0))" by (simp add: demo_daemon_def)
  then have es: "es = ?p @ Execute ''reboot'' (JObj []) # [SendToolResult ''c1'' ''reboot'' (result_ok (Inr (JObj []))), Audit ''tool_result'' ''reboot'']"
    using r c by (simp add: run_chat_def f Let_def)
  from run_chat_gated [OF r es] have "received ?p = take (length (received ?p)) ?inbox" by blast
  then show ?thesis using r es by (intro exI conjI) (assumption, assumption, simp)
qed

theorem run_chat_ends_well_formed_witness:
  "fst (run_chat (\<lambda>_. ''{}'') (\<lambda>_. None) (demo_daemon False) 0
       (replicate 3 (0, LlmReply '''' [\<lparr>tc_id = ''c1'', tc_name = ''reboot'', tc_arguments = ''{}''\<rparr>]))
       [msg_system ''s''] ''loop'' []) \<noteq> ChatWaiting"
proof -
  let ?replies = "replicate 3 (0, LlmReply '''' [\<lparr>tc_id = ''c1'', tc_name = ''reboot'', tc_arguments = ''{}''\<rparr>])"
  have "tools_follow False [msg_system ''s'']" by (simp add: msg_system_def)
  moreover have "cfg_max_tool_rounds (d_config (demo_daemon False)) \<le> length ?replies"
    by (simp add: demo_daemon_def)
  ultimately show ?thesis
    using run_chat_ends_well_formed [of "[msg_system ''s'']" "demo_daemon False" ?replies]
    by (metis prod_cases3 fst_conv)
qed

section \<open>Trimming a session\<close>

lemma tools_follow_filter_status:
  "tools_follow p ms \<Longrightarrow> tools_follow p (filter (\<lambda>m. \<not> is_status m) ms)"
proof (induction ms arbitrary: p)
  case (Cons m ms)
  have "is_status m \<Longrightarrow> \<not> answers m" by (auto simp: is_status_def answers_def)
  moreover have "tools_follow False ms \<Longrightarrow> tools_follow p ms" for p by (cases ms) auto
  ultimately show ?case using Cons by (auto simp: is_status_def)
qed simp

lemma tools_follow_drop: "tools_follow p ms \<Longrightarrow> \<exists>q. tools_follow q (drop k ms)"
  by (metis append_take_drop_id tools_follow_append)

lemma tools_follow_dropWhile:
  "tools_follow p ms \<Longrightarrow> tools_follow q (dropWhile (\<lambda>m. m_role m = ''tool'') ms)"
  by (induction ms arbitrary: p) auto

text \<open>
  A session over the cap is cut to it: the system messages stay, the rest is a suffix of the
  conversation, no more than the cap is left, and it does not begin with a tool result whose call
  was cut off. A session within the cap is left alone.
\<close>

theorem trim_session_correct:
  assumes "tools_follow False ms" "sys = takeWhile (\<lambda>m. m_role m = ''system'') ms" "length sys \<le> cap"
  shows "tools_follow False (trim_session cap ms)
    \<and> length (filter (\<lambda>m. \<not> is_status m) (trim_session cap ms)) \<le> cap
    \<and> (\<exists>k. filter (\<lambda>m. \<not> is_status m) (trim_session cap ms)
          = sys @ drop k (filter (\<lambda>m. \<not> is_status m) (drop (length sys) ms)))
    \<and> (length (filter (\<lambda>m. \<not> is_status m) ms) \<le> cap \<longrightarrow> trim_session cap ms = ms)"
proof -
  have ms: "ms = sys @ drop (length sys) ms" unfolding assms(2) by (metis takeWhile_dropWhile_id dropWhile_eq_drop)
  have sys: "\<forall>m \<in> set sys. m_role m = ''system''" using assms(2) by (auto dest: set_takeWhileD)
  have ns: "filter (\<lambda>m. \<not> is_status m) sys = sys" using sys by (auto simp: filter_id_conv is_status_def)
  let ?rest = "filter (\<lambda>m. \<not> is_status m) (drop (length sys) ms)"
  have conv: "filter (\<lambda>m. \<not> is_status m) ms = sys @ ?rest" using ms ns by (metis filter_append)
  show ?thesis
  proof (cases "length (filter (\<lambda>m. \<not> is_status m) ms) \<le> cap")
    case True
    then show ?thesis using assms(1) conv
      by (auto simp: trim_session_def Let_def intro: exI [of _ 0])
  next
    case False
    let ?k = "length (filter (\<lambda>m. \<not> is_status m) ms) - cap"
    let ?tail = "dropWhile (\<lambda>m. m_role m = ''tool'') (drop ?k ?rest)"
    have r: "trim_session cap ms = sys @ ?tail"
      using False assms(2) by (simp add: trim_session_def Let_def)
    have "tools_follow False (sys @ drop (length sys) ms)" using assms(1) ms by simp
    then have "tools_follow False sys" "\<exists>q. tools_follow q (drop ?k ?rest)"
      using tools_follow_filter_status tools_follow_drop by (auto simp: tools_follow_append) blast
    then have "tools_follow False (sys @ ?tail)"
      using tools_follow_dropWhile by (auto simp: tools_follow_append)
    moreover obtain k where k: "?tail = drop k ?rest"
      by (metis drop_drop dropWhile_eq_drop)
    moreover have "filter (\<lambda>m. \<not> is_status m) (sys @ ?tail) = sys @ ?tail"
      unfolding k using ns by (auto simp: filter_id_conv dest: in_set_dropD)
    moreover have "length ?tail \<le> length (drop ?k ?rest)" by (rule length_dropWhile_le)
    then have "length (sys @ ?tail) \<le> cap" using assms(3) conv False by simp
    ultimately show ?thesis using False unfolding r by (auto intro: exI [of _ k])
  qed
qed

theorem trim_session_correct_witness:
  "filter (\<lambda>m. \<not> is_status m) (trim_session 3 [msg_system ''s'', msg_user ''a'', msg_assistant ''b'' [], msg_tool ''i'' ''t'' ''r'',
      msg_user ''c'', msg_assistant ''d'' []]) \<noteq> []
   \<and> tools_follow False (trim_session 3 [msg_system ''s'', msg_user ''a'', msg_assistant ''b'' [], msg_tool ''i'' ''t'' ''r'',
      msg_user ''c'', msg_assistant ''d'' []])"
proof -
  let ?ms = "[msg_system ''s'', msg_user ''a'', msg_assistant ''b'' [], msg_tool ''i'' ''t'' ''r'',
      msg_user ''c'', msg_assistant ''d'' []]"
  have a: "tools_follow False ?ms"
    by (simp add: msg_system_def msg_user_def msg_assistant_def msg_tool_def answers_def)
  have b: "[msg_system ''s''] = takeWhile (\<lambda>m. m_role m = ''system'') ?ms"
    by (simp add: msg_system_def msg_user_def)
  show ?thesis using trim_session_correct [OF a b, of 3] by auto
qed

end
