(* ===== verification/Notices.thy ===== *)
theory Notices
  imports Tools
begin

text \<open>
  The notice board of the daemon, src/mindd/src/daemon/notices.rs, and its main client, the
  publication of health findings in health.rs. The list of notices is kept newest first and
  mirrored in a file; subscribers get an event for every change the user can see. Sending to a
  subscriber fails once its connection is gone, which is a predicate of the state.
\<close>

section \<open>State\<close>

record notice_action =
  na_label :: string
  na_kind :: string
  na_arg :: json

record notice =
  nt_id :: string
  nt_level :: string
  nt_title :: string
  nt_body :: string
  nt_source :: string
  nt_time :: nat
  nt_actions :: "notice_action list"

datatype event = EvNotice notice | EvNoticeGone string | EvHealth nat

record board =
  b_list :: "notice list"
  b_file :: "notice list"
  b_writable :: bool
  b_subs :: "nat list"
  b_alive :: "nat \<Rightarrow> bool"
  b_sent :: "(nat \<times> event) list"

section \<open>Operations\<close>

definition save :: "board \<Rightarrow> board" where
  "save b = (if b_writable b then b\<lparr>b_file := b_list b\<rparr> else b)"

definition broadcast :: "event \<Rightarrow> board \<Rightarrow> board" where
  "broadcast ev b =
     (let subs = filter (b_alive b) (b_subs b)
      in b\<lparr>b_subs := subs, b_sent := b_sent b @ map (\<lambda>s. (s, ev)) subs\<rparr>)"

definition subscribe :: "nat \<Rightarrow> board \<Rightarrow> board" where
  "subscribe s b = b\<lparr>b_subs := b_subs b @ [s]\<rparr>"

definition get_notice :: "board \<Rightarrow> string \<Rightarrow> notice option" where
  "get_notice b i = List.find (\<lambda>n. nt_id n = i) (b_list b)"

text \<open>\<open>sort_by(|a, b| b.time.cmp(&a.time))\<close> is stable and puts the newest first.\<close>

definition sort_newest :: "notice list \<Rightarrow> notice list" where
  "sort_newest = sort_key (\<lambda>n. - int (nt_time n))"

fun position :: "('a \<Rightarrow> bool) \<Rightarrow> 'a list \<Rightarrow> nat option" where
  "position P [] = None"
| "position P (x # xs) = (if P x then Some 0 else map_option Suc (position P xs))"

definition same_text :: "notice \<Rightarrow> notice \<Rightarrow> bool" where
  "same_text a b \<longleftrightarrow> nt_title a = nt_title b \<and> nt_body a = nt_body b \<and> nt_level a = nt_level b"

text \<open>\<open>post\<close>: the list after it, whether the user sees a change, whether the file must be rewritten,
  and the notice as stored.\<close>

definition post_list :: "nat \<Rightarrow> notice \<Rightarrow> notice list \<Rightarrow> notice list \<times> bool \<times> bool \<times> notice" where
  "post_list now n0 l =
     (let n = (if nt_time n0 = 0 then n0\<lparr>nt_time := now\<rparr> else n0) in
      case position (\<lambda>x. nt_id x = nt_id n) l of
        Some i \<Rightarrow>
          (let same = same_text (l ! i) n;
               n' = (if same then n\<lparr>nt_time := nt_time (l ! i)\<rparr> else n);
               dirty = (l ! i \<noteq> n')
           in (if dirty then sort_newest (l[i := n']) else l, \<not> same, dirty, n'))
      | None \<Rightarrow> (sort_newest (l @ [n]), True, True, n))"

definition post :: "nat \<Rightarrow> notice \<Rightarrow> board \<Rightarrow> bool \<times> board" where
  "post now n0 b =
     (let (l, changed, dirty, n) = post_list now n0 (b_list b);
          b1 = b\<lparr>b_list := l\<rparr>;
          b2 = (if dirty then save b1 else b1)
      in (changed, if changed then broadcast (EvNotice n) b2 else b2))"

text \<open>Both removals: the ids removed, in list order, with one event each.\<close>

definition remove_ids :: "(string \<Rightarrow> bool) \<Rightarrow> board \<Rightarrow> string list \<times> board" where
  "remove_ids P b =
     (let removed = map nt_id (filter (\<lambda>n. P (nt_id n)) (b_list b));
          b1 = (if removed \<noteq> [] then save (b\<lparr>b_list := filter (\<lambda>n. \<not> P (nt_id n)) (b_list b)\<rparr>) else b)
      in (removed, fold (\<lambda>i. broadcast (EvNoticeGone i)) removed b1))"

definition dismiss :: "string \<Rightarrow> board \<Rightarrow> string list \<times> board" where
  "dismiss i b = remove_ids (\<lambda>x. i = ''*'' \<or> x = i) b"

definition retain_prefix :: "string \<Rightarrow> string list \<Rightarrow> board \<Rightarrow> board" where
  "retain_prefix prefix keep b = snd (remove_ids (\<lambda>x. starts_with x prefix \<and> x \<notin> set keep) b)"

section \<open>Health findings\<close>

record finding =
  f_id :: string
  f_level :: string
  f_title :: string
  f_body :: string
  f_actions :: "notice_action list"

definition finding_notice :: "finding \<Rightarrow> notice" where
  "finding_notice x = \<lparr>nt_id = ''health:'' @ f_id x, nt_level = f_level x, nt_title = f_title x,
     nt_body = f_body x, nt_source = ''health'', nt_time = 0, nt_actions = f_actions x\<rparr>"

definition publish :: "nat \<Rightarrow> finding list \<Rightarrow> board \<Rightarrow> board" where
  "publish now findings b =
     (let shown = map finding_notice (filter (\<lambda>x. f_level x \<noteq> ''ok'') findings);
          b1 = fold (\<lambda>n b. snd (post now n b)) shown b;
          b2 = retain_prefix ''health:'' (map nt_id shown) b1
      in broadcast (EvHealth now) b2)"

section \<open>Invariant\<close>

definition board_inv :: "board \<Rightarrow> bool" where
  "board_inv b \<longleftrightarrow> distinct (map nt_id (b_list b)) \<and> sorted_wrt (\<lambda>x y. nt_time y \<le> nt_time x) (b_list b)"

lemma position_Some:
  "position P l = Some i \<Longrightarrow> i < length l \<and> P (l ! i) \<and> (\<forall>j < i. \<not> P (l ! j))"
  by (induction l arbitrary: i) (auto split: if_splits simp: less_Suc_eq_0_disj)

lemma position_None: "position P l = None \<longleftrightarrow> (\<forall>x \<in> set l. \<not> P x)"
  by (induction l) auto

lemma sort_newest_set [simp]: "set (sort_newest l) = set l"
  by (simp add: sort_newest_def)

lemma sort_newest_sorted: "sorted_wrt (\<lambda>x y. nt_time y \<le> nt_time x) (sort_newest l)"
proof -
  have "sorted (map (\<lambda>n. - int (nt_time n)) (sort_newest l))" by (simp add: sort_newest_def)
  then show ?thesis by (simp add: sorted_map sorted_wrt_iff_nth_less)
qed

lemma distinct_sort_newest [simp]: "distinct (map nt_id (sort_newest l)) = distinct (map nt_id l)"
  by (simp add: sort_newest_def distinct_map)

lemma save_simps [simp]:
  "b_list (save b) = b_list b" "b_subs (save b) = b_subs b" "b_sent (save b) = b_sent b"
  "b_alive (save b) = b_alive b"
  by (simp_all add: save_def)

lemma broadcast_simps [simp]:
  "b_list (broadcast ev b) = b_list b" "b_file (broadcast ev b) = b_file b"
  "b_alive (broadcast ev b) = b_alive b" "b_writable (broadcast ev b) = b_writable b"
  by (simp_all add: broadcast_def Let_def)

lemma fold_broadcast_list [simp]:
  "b_list (fold (\<lambda>i. broadcast (f i)) is b) = b_list b"
  "b_file (fold (\<lambda>i. broadcast (f i)) is b) = b_file b"
  by (induction "is" arbitrary: b) simp_all

lemma find_distinct:
  "distinct (map nt_id l) \<Longrightarrow> List.find (\<lambda>n. nt_id n = i) l = Some n \<longleftrightarrow> n \<in> set l \<and> nt_id n = i"
  by (induction l) (auto simp: image_iff)

lemma find_filter: "List.find P (filter Q l) = List.find (\<lambda>x. P x \<and> Q x) l"
  by (induction l) auto

text \<open>The notice \<open>post\<close> stores: the given one, except for its time.\<close>

definition stored_as :: "notice \<Rightarrow> notice \<Rightarrow> bool" where
  "stored_as n m \<longleftrightarrow> m = n\<lparr>nt_time := nt_time m\<rparr>"

lemma post_list_spec:
  assumes "distinct (map nt_id l)" "sorted_wrt (\<lambda>x y. nt_time y \<le> nt_time x) l"
    "post_list now n0 l = (l', changed, dirty, n)"
  shows "distinct (map nt_id l') \<and> sorted_wrt (\<lambda>x y. nt_time y \<le> nt_time x) l'
    \<and> stored_as n0 n \<and> (\<forall>i m. m \<in> set l' \<and> nt_id m = i \<longleftrightarrow>
          (if i = nt_id n0 then m = n else m \<in> set l \<and> nt_id m = i))
    \<and> (changed \<longleftrightarrow> (\<forall>m \<in> set l. nt_id m = nt_id n0 \<longrightarrow> \<not> same_text m n0))
    \<and> (\<not> dirty \<longrightarrow> l' = l \<and> \<not> changed)"
proof -
  define N where "N = (if nt_time n0 = 0 then n0\<lparr>nt_time := now\<rparr> else n0)"
  have n: "nt_id N = nt_id n0" "same_text m N = same_text m n0" "stored_as n0 N"
    "stored_as n0 (N\<lparr>nt_time := t\<rparr>)" for m t
    by (auto simp: same_text_def stored_as_def N_def)
  show ?thesis
  proof (cases "position (\<lambda>x. nt_id x = nt_id n0) l")
    case None
    then have new: "\<forall>x \<in> set l. nt_id x \<noteq> nt_id n0" by (simp add: position_None)
    have eq: "l' = sort_newest (l @ [N])" "changed" "dirty" "n = N"
      using assms(3) None n(1) unfolding post_list_def Let_def N_def [symmetric] by auto
    have "distinct (map nt_id (l @ [N]))" using assms(1) new n(1) by (auto simp: image_iff)
    then show ?thesis unfolding eq using new n eq by (auto simp: sort_newest_sorted)
  next
    case (Some i)
    then have i: "i < length l" "nt_id (l ! i) = nt_id n0" using position_Some by fastforce+
    define M where "M = (if same_text (l ! i) n0 then N\<lparr>nt_time := nt_time (l ! i)\<rparr> else N)"
    have M: "nt_id M = nt_id n0" "stored_as n0 M" using n by (auto simp: M_def)
    have eq: "l' = (if l ! i \<noteq> M then sort_newest (l[i := M]) else l)" "changed = (\<not> same_text (l ! i) n0)"
      "dirty = (l ! i \<noteq> M)" "n = M"
      using assms(3) Some n unfolding post_list_def Let_def N_def [symmetric] M_def by auto
    have "map nt_id (l[i := M]) = map nt_id l"
      using i M by (metis list_update_id map_update)
    then have d: "distinct (map nt_id (l[i := M]))" using assms(1) by simp
    have own: "m \<in> set l \<and> nt_id m = nt_id n0 \<longleftrightarrow> m = l ! i" for m
      using i assms(1) by (metis distinct_map inj_onD nth_mem)
    have "distinct l" using assms(1) by (simp add: distinct_map)
    then have "set (l[i := M]) = insert M (set l - {l ! i})" using i by (simp add: set_update_distinct)
    then have upd: "m \<in> set (l[i := M]) \<and> nt_id m = j \<longleftrightarrow>
        (if j = nt_id n0 then m = M else m \<in> set l \<and> nt_id m = j)" for m j
      using own [of m] M(1) i(2) by auto
    have same: "l ! i = M \<Longrightarrow> same_text (l ! i) n0"
      using M(2) by (auto simp: same_text_def stored_as_def) (metis notice.select_convs notice.surjective notice.update_convs)+
    show ?thesis
    proof (cases "l ! i = M")
      case True
      moreover have "l ! i \<in> set l" using i by simp
      ultimately show ?thesis using assms(1,2) own M same unfolding eq by (auto simp: own)
    next
      case False
      have "(\<not> same_text (l ! i) n0) \<longleftrightarrow> (\<forall>m \<in> set l. nt_id m = nt_id n0 \<longrightarrow> \<not> same_text m n0)"
        using own by metis
      with False show ?thesis using d upd M unfolding eq by (simp add: sort_newest_sorted)
    qed
  qed
qed

lemma post_facts:
  assumes "board_inv b"
  shows "board_inv (snd (post now n b))"
    and "\<exists>m. stored_as n m \<and> get_notice (snd (post now n b)) (nt_id n) = Some m"
    and "i \<noteq> nt_id n \<Longrightarrow> get_notice (snd (post now n b)) i = get_notice b i"
proof -
  obtain l' changed dirty m where p: "post_list now n (b_list b) = (l', changed, dirty, m)"
    by (metis prod_cases4)
  have l: "b_list (snd (post now n b)) = l'" using p by (simp add: post_def Let_def)
  note spec = post_list_spec [OF _ _ p]
  have d: "distinct (map nt_id (b_list b))" and s: "sorted_wrt (\<lambda>x y. nt_time y \<le> nt_time x) (b_list b)"
    using assms by (simp_all add: board_inv_def)
  have d': "distinct (map nt_id l')" using spec [OF d s] by blast
  show "board_inv (snd (post now n b))" using spec [OF d s] l by (simp add: board_inv_def)
  have mem: "x \<in> set l' \<and> nt_id x = j \<longleftrightarrow> (if j = nt_id n then x = m else x \<in> set (b_list b) \<and> nt_id x = j)" for x j
    using spec [OF d s] by blast
  show "\<exists>m. stored_as n m \<and> get_notice (snd (post now n b)) (nt_id n) = Some m"
    using spec [OF d s] mem [of m "nt_id n"] by (auto simp: get_notice_def l find_distinct [OF d'])
  show "get_notice (snd (post now n b)) i = get_notice b i" if "i \<noteq> nt_id n"
  proof -
    have "get_notice (snd (post now n b)) i = Some x \<longleftrightarrow> get_notice b i = Some x" for x
      using mem [of x i] that by (simp add: get_notice_def l find_distinct [OF d'] find_distinct [OF d])
    then show ?thesis by (metis option.exhaust)
  qed
qed

lemma remove_ids_list: "b_list (snd (remove_ids P b)) = filter (\<lambda>n. \<not> P (nt_id n)) (b_list b)"
proof -
  have "map nt_id (filter (\<lambda>n. P (nt_id n)) (b_list b)) = [] \<Longrightarrow>
      filter (\<lambda>n. \<not> P (nt_id n)) (b_list b) = b_list b"
    by (auto simp: filter_empty_conv filter_id_conv)
  then show ?thesis by (auto simp: remove_ids_def Let_def)
qed

lemma remove_ids_inv: "board_inv b \<Longrightarrow> board_inv (snd (remove_ids P b))"
  by (simp add: board_inv_def remove_ids_list distinct_map_filter sorted_wrt_filter)

lemma remove_ids_get:
  "get_notice (snd (remove_ids P b)) i = (if P i then None else get_notice b i)"
proof -
  have "List.find (\<lambda>n. nt_id n = i \<and> \<not> P (nt_id n)) l
      = (if P i then None else List.find (\<lambda>n. nt_id n = i) l)" for l
    by (induction l) auto
  then show ?thesis unfolding get_notice_def remove_ids_list find_filter .
qed

section \<open>What a publisher of notices can rely on\<close>

locale notice_store =
  fixes put :: "notice \<Rightarrow> 's \<Rightarrow> 's"
    and retain :: "string \<Rightarrow> string list \<Rightarrow> 's \<Rightarrow> 's"
    and lookup :: "'s \<Rightarrow> string \<Rightarrow> notice option"
    and invar :: "'s \<Rightarrow> bool"
  assumes put_invar: "invar s \<Longrightarrow> invar (put n s)"
    and put_same: "invar s \<Longrightarrow> \<exists>m. stored_as n m \<and> lookup (put n s) (nt_id n) = Some m"
    and put_other: "invar s \<Longrightarrow> i \<noteq> nt_id n \<Longrightarrow> lookup (put n s) i = lookup s i"
    and retain_invar: "invar s \<Longrightarrow> invar (retain p ks s)"
    and retain_lookup: "invar s \<Longrightarrow>
      lookup (retain p ks s) i = (if starts_with i p \<and> i \<notin> set ks then None else lookup s i)"
begin

lemma puts_invar: "invar s \<Longrightarrow> invar (fold put ns s)"
  by (induction ns arbitrary: s) (simp_all add: put_invar)

lemma puts_lookup:
  assumes "invar s"
  shows "(case List.find (\<lambda>n. nt_id n = i) (rev ns) of
      Some n \<Rightarrow> \<exists>m. stored_as n m \<and> lookup (fold put ns s) i = Some m
    | None \<Rightarrow> lookup (fold put ns s) i = lookup s i)"
proof (induction ns rule: rev_induct)
  case (snoc n ns)
  show ?case
  proof (cases "nt_id n = i")
    case True
    then show ?thesis using put_same [OF puts_invar [OF assms], of n ns] by auto
  next
    case False
    then show ?thesis
      using snoc put_other [OF puts_invar [OF assms], of i n ns] by (simp split: option.splits)
  qed
qed simp

text \<open>Publishing a batch under a prefix leaves exactly that batch under it and the rest alone.\<close>

lemma batch_lookup:
  assumes "invar s" "\<forall>n \<in> set ns. starts_with (nt_id n) p"
  shows "if starts_with i p
    then (case List.find (\<lambda>n. nt_id n = i) (rev ns) of
        Some n \<Rightarrow> \<exists>m. stored_as n m \<and> lookup (retain p (map nt_id ns) (fold put ns s)) i = Some m
      | None \<Rightarrow> lookup (retain p (map nt_id ns) (fold put ns s)) i = None)
    else lookup (retain p (map nt_id ns) (fold put ns s)) i = lookup s i"
proof -
  have absent: "List.find (\<lambda>n. nt_id n = i) (rev ns) = None \<longleftrightarrow> i \<notin> set (map nt_id ns)"
    by (auto simp: find_None_iff image_iff)
  show ?thesis
  proof (cases "List.find (\<lambda>n. nt_id n = i) (rev ns)")
    case None
    then show ?thesis
      using puts_lookup [OF assms(1), where i = i and ns = ns] absent retain_lookup [OF puts_invar [OF assms(1)], where i = i and p = p and ks = "map nt_id ns" and ns1 = ns]
      by auto
  next
    case (Some n)
    then have "i \<in> set (map nt_id ns)" using absent by force
    moreover from this have "starts_with i p" using assms(2) by auto
    ultimately show ?thesis
      using Some puts_lookup [OF assms(1), where i = i and ns = ns] retain_lookup [OF puts_invar [OF assms(1)], where i = i and p = p and ks = "map nt_id ns" and ns1 = ns]
      by auto
  qed
qed

end

interpretation nb: notice_store "\<lambda>n b. snd (post now n b)" retain_prefix get_notice board_inv for now
  by unfold_locales
    (simp_all add: post_facts retain_prefix_def remove_ids_inv remove_ids_get)

section \<open>Properties\<close>

text \<open>
  Posting a notice keeps the board sorted newest first with one notice per id; the posted
  notice is found under its id, with every field as given but possibly the time; every other
  notice stays; and subscribers hear of it exactly when the id is new or its title, body or level
  differ from what was shown before.
\<close>

theorem post_correct:
  assumes "board_inv b" "post now n b = (changed, b')"
  shows "board_inv b'
    \<and> (\<exists>m. stored_as n m \<and> get_notice b' (nt_id n) = Some m)
    \<and> (\<forall>i. i \<noteq> nt_id n \<longrightarrow> get_notice b' i = get_notice b i)
    \<and> (changed \<longleftrightarrow> (case get_notice b (nt_id n) of None \<Rightarrow> True | Some old \<Rightarrow> \<not> same_text old n))
    \<and> (\<not> changed \<longrightarrow> b_sent b' = b_sent b)
    \<and> (changed \<longrightarrow> (\<exists>m. stored_as n m
          \<and> b_sent b' = b_sent b @ map (\<lambda>s. (s, EvNotice m)) (filter (b_alive b) (b_subs b))))"
proof -
  obtain l' ch dirty m where p: "post_list now n (b_list b) = (l', ch, dirty, m)" by (metis prod_cases4)
  have d: "distinct (map nt_id (b_list b))" and s: "sorted_wrt (\<lambda>x y. nt_time y \<le> nt_time x) (b_list b)"
    using assms(1) by (simp_all add: board_inv_def)
  have ch: "changed = ch" and b': "b_sent b' = (if ch then b_sent b @ map (\<lambda>s. (s, EvNotice m)) (filter (b_alive b) (b_subs b)) else b_sent b)"
    using assms(2) p by (auto simp: post_def Let_def broadcast_def)
  have c: "ch \<longleftrightarrow> (\<forall>x \<in> set (b_list b). nt_id x = nt_id n \<longrightarrow> \<not> same_text x n)" and st: "stored_as n m"
    using post_list_spec [OF d s p] by blast+
  have "changed \<longleftrightarrow> (case get_notice b (nt_id n) of None \<Rightarrow> True | Some old \<Rightarrow> \<not> same_text old n)"
  proof (cases "get_notice b (nt_id n)")
    case None
    then have "\<forall>x \<in> set (b_list b). nt_id x \<noteq> nt_id n" by (auto simp: get_notice_def find_None_iff)
    then show ?thesis using c ch None by auto
  next
    case (Some old)
    then have "x \<in> set (b_list b) \<and> nt_id x = nt_id n \<longleftrightarrow> x = old" for x
      using find_distinct [OF d] by (metis get_notice_def option.inject)
    then have "ch \<longleftrightarrow> \<not> same_text old n" unfolding c by metis
    then show ?thesis using ch Some by simp
  qed
  moreover have "b' = snd (post now n b)" using assms(2) by simp
  ultimately show ?thesis using post_facts [OF assms(1), where now = now and n = n] b' ch st by auto
qed

definition demo_board :: board where
  "demo_board = \<lparr>b_list = [], b_file = [], b_writable = True, b_subs = [1], b_alive = (\<lambda>_. True), b_sent = []\<rparr>"

definition demo_notice :: notice where
  "demo_notice = \<lparr>nt_id = ''health:pacnew'', nt_level = ''info'', nt_title = ''t'', nt_body = ''b'',
     nt_source = ''health'', nt_time = 0, nt_actions = []\<rparr>"

lemma demo_board_inv: "board_inv demo_board"
  by (simp add: board_inv_def demo_board_def)

theorem post_correct_witness:
  "fst (post 7 demo_notice demo_board) \<and> board_inv (snd (post 7 demo_notice demo_board))"
  using post_correct [OF demo_board_inv, of 7 demo_notice "fst (post 7 demo_notice demo_board)" "snd (post 7 demo_notice demo_board)"]
  by (simp add: get_notice_def [of demo_board] demo_board_def [THEN arg_cong [where f = b_list]])

text \<open>
  After the health checks have been published, the notices under \<open>health:\<close> are exactly the
  current findings that are not ok (a repeated id shows the last of them): findings that no longer
  apply are gone, and no notice of another source is touched.
\<close>

theorem publish_correct:
  assumes "board_inv b"
  shows "board_inv (publish now findings b)
    \<and> (\<forall>i. if starts_with i ''health:''
        then (case List.find (\<lambda>n. nt_id n = i) (rev (map finding_notice (filter (\<lambda>x. f_level x \<noteq> ''ok'') findings))) of
            Some n \<Rightarrow> \<exists>m. stored_as n m \<and> get_notice (publish now findings b) i = Some m
          | None \<Rightarrow> get_notice (publish now findings b) i = None)
        else get_notice (publish now findings b) i = get_notice b i)"
proof -
  let ?ns = "map finding_notice (filter (\<lambda>x. f_level x \<noteq> ''ok'') findings)"
  let ?b2 = "retain_prefix ''health:'' (map nt_id ?ns) (fold (\<lambda>n b. snd (post now n b)) ?ns b)"
  have b': "b_list (publish now findings b) = b_list ?b2" by (simp add: publish_def Let_def)
  then have g: "get_notice (publish now findings b) = get_notice ?b2" "board_inv (publish now findings b) = board_inv ?b2"
    by (auto simp: get_notice_def board_inv_def fun_eq_iff)
  have pre: "\<forall>n \<in> set ?ns. starts_with (nt_id n) ''health:''"
    by (auto simp: finding_notice_def)
  have "board_inv ?b2" by (intro nb.retain_invar nb.puts_invar assms)
  then show ?thesis unfolding g using nb.batch_lookup [OF assms pre] by blast
qed

theorem publish_correct_witness:
  "get_notice (publish 9 [] (snd (post 7 demo_notice demo_board))) ''health:pacnew'' = None"
proof -
  have "board_inv (snd (post 7 demo_notice demo_board))" by (rule post_facts(1) [OF demo_board_inv])
  from publish_correct [OF this, of 9 "[]"] show ?thesis
    by (auto dest!: spec [of _ "''health:pacnew''"])
qed

end
