(* ===== verification/Updates.thy ===== *)
theory Updates
  imports Tools
begin

text \<open>
  The update watcher, src/mindd/src/daemon/updates.rs: the risk of a set of package updates by rules
  and by the model, the check that runs them, the installation, and the decision to install
  unattended. What other programs print (checkupdates, pacman, the news feed, the model) and the
  calendar day of a time stamp are arguments. The steps between two suspension points of the
  asynchronous functions are separate definitions.
\<close>

section \<open>State\<close>

record package_update =
  pu_name :: string
  pu_from :: string
  pu_to :: string
  pu_tag :: string

record news_item =
  ni_title :: string
  ni_date :: string
  ni_url :: string

record last_update =
  lu_time :: nat
  lu_packages :: "string list"
  lu_pre_snapshot :: "nat option"
  lu_ok :: bool
  lu_verified :: string
  lu_report :: string

record update_status =
  us_checked_at :: nat
  us_packages :: "package_update list"
  us_news :: "news_item list"
  us_risk :: string
  us_summary :: string
  us_warnings :: "string list"
  us_manual_intervention :: bool
  us_reboot :: bool
  us_assessed_by_model :: bool
  us_assessing :: bool
  us_checking :: bool
  us_applying :: bool
  us_auto_apply :: bool
  us_last_update :: "last_update option"
  us_error :: string

section \<open>Rules\<close>

definition starts_any :: "string \<Rightarrow> string list \<Rightarrow> bool" where
  "starts_any n ps = list_ex (starts_with n) ps"

definition tag_for :: "string \<Rightarrow> string" where
  "tag_for n =
     (if n = ''linux'' \<or> starts_any n [''linux-'', ''amd-ucode'', ''intel-ucode'']
         \<or> n \<in> {''mkinitcpio'', ''limine'', ''dkms''} then ''kernel''
      else if starts_any n [''nvidia'', ''lib32-nvidia'', ''mesa'', ''lib32-mesa'', ''vulkan-'', ''lib32-vulkan''] then ''gpu''
      else if n = ''systemd'' \<or> starts_with n ''systemd-''
         \<or> n \<in> {''glibc'', ''lib32-glibc'', ''pacman'', ''dbus'', ''greetd'', ''seatd'', ''btrfs-progs'', ''snapper'', ''openssl''} then ''core''
      else if starts_with n ''mind'' \<or> n = ''llama-cpp'' \<or> starts_any n [''ggml'', ''mindos-''] then ''mindos''
      else if n = ''steam'' \<or> starts_with n ''wine'' \<or> n \<in> {''gamescope'', ''gamemode''}
         \<or> starts_any n [''lib32-gamemode'', ''mangohud''] \<or> n = ''lutris''
         \<or> starts_any n [''pipewire'', ''lib32-pipewire''] \<or> n = ''wireplumber'' then ''gaming''
      else if starts_any n [''gtk4'', ''webkitgtk'', ''wayland'', ''libinput'', ''xorg-xwayland''] then ''graphics''
      else '''')"

text \<open>The package lines of the output of checkupdates: \<open>name 1.0-1 -> 1.1-1\<close>.\<close>

definition update_line :: "string \<Rightarrow> package_update option" where
  "update_line l =
     (case split_whitespace l of
        [a, b, c, d] \<Rightarrow> if c = ''->'' then Some \<lparr>pu_name = a, pu_from = b, pu_to = d, pu_tag = tag_for a\<rparr> else None
      | _ \<Rightarrow> None)"

definition check_packages :: "string \<Rightarrow> string + package_update list" where
  "check_packages out =
     (if str_contains out ''[rc 1]'' \<and> \<not> str_contains out '' -> '' then
        Inl (''checkupdates failed: '' @ trim (case str_lines out of [] \<Rightarrow> '''' | l # _ \<Rightarrow> l))
      else Inr (List.map_filter update_line (str_lines out)))"

text \<open>Comparison of strings byte by byte.\<close>

fun str_le :: "string \<Rightarrow> string \<Rightarrow> bool" where
  "str_le [] t = True"
| "str_le (c # s) [] = False"
| "str_le (c # s) (d # t) =
     ((of_char c :: nat) < of_char d \<or> c = d \<and> str_le s t)"

definition news_since :: "news_item list \<Rightarrow> string \<Rightarrow> news_item list" where
  "news_since news since_day = filter (\<lambda>n. str_le since_day (ni_date n)) news"

definition announces_manual :: "news_item \<Rightarrow> bool" where
  "announces_manual n \<longleftrightarrow>
     (let t = to_lowercase (ni_title n) in
      str_contains t ''manual intervention'' \<or> str_contains t ''requires manual''
      \<or> str_contains t ''action required'' \<or> str_contains t ''breaking'')"

fun digits :: "nat \<Rightarrow> string" where
  "digits n = (if n < 10 then [char_of (48 + n)] else digits (n div 10) @ [char_of (48 + n mod 10)])"

declare digits.simps [simp del]

definition emdash :: string where "emdash = [CHR 0xE2, CHR 0x80, CHR 0x94]"

definition has_tag :: "package_update list \<Rightarrow> string \<Rightarrow> bool" where
  "has_tag ps t = list_ex (\<lambda>p. pu_tag p = t) ps"

definition tag_names :: "package_update list \<Rightarrow> string \<Rightarrow> string" where
  "tag_names ps t = join '', '' (map pu_name (filter (\<lambda>p. pu_tag p = t) ps))"

definition MANUAL_WARNING :: string where
  "MANUAL_WARNING = ''Arch news announces a manual intervention since your last update; read it before updating.''"

definition plural :: "nat \<Rightarrow> string" where
  "plural n = (if n = 1 then '''' else ''s'')"

text \<open>The numeric risk of the rules and the warnings, in the order the code adds them.\<close>

definition rule_risk :: "package_update list \<Rightarrow> bool \<Rightarrow> nat" where
  "rule_risk ps manual =
     (let risk = (if has_tag ps ''kernel'' then 2 else 0);
          risk = (if has_tag ps ''gpu'' then max risk 2 else risk);
          risk = (if has_tag ps ''core'' then max risk 2 else risk);
          risk = (if has_tag ps ''mindos'' then max risk 1 else risk);
          risk = (if has_tag ps ''gaming'' then max risk 1 else risk);
          risk = (if manual then 3 else risk)
      in if 150 < length ps then max risk 2 else risk)"

definition rule_warnings :: "package_update list \<Rightarrow> news_item list \<Rightarrow> bool \<Rightarrow> string list" where
  "rule_warnings ps recent manual =
     (let ws = (if has_tag ps ''kernel'' then [''Kernel or boot stack changes ('' @ tag_names ps ''kernel''
                  @ ''): a reboot is needed and the NVIDIA module is rebuilt for the new kernel.''] else []);
          ws = (if has_tag ps ''gpu'' then ws @ [''GPU driver or Vulkan changes ('' @ tag_names ps ''gpu''
                  @ ''): games may behave differently; reboot afterwards.''] else ws);
          ws = (if has_tag ps ''core'' then ws @ [''Core system packages ('' @ tag_names ps ''core''
                  @ ''): pay attention to .pacnew files.''] else ws);
          ws = (if has_tag ps ''mindos'' then ws @ [''MindOS components ('' @ tag_names ps ''mindos''
                  @ ''): the desktop or the Mind may restart.''] else ws);
          ws = (if has_tag ps ''gaming'' then ws @ [''Gaming stack ('' @ tag_names ps ''gaming''
                  @ ''): Proton prefixes and Wine apps may need a first-run update.''] else ws);
          ws = (if manual then MANUAL_WARNING # ws else ws);
          ws = (if recent \<noteq> [] then ws @ [''Arch news since your last update: ''
                  @ join ''; '' (map (\<lambda>n. ni_date n @ '' '' @ emdash @ '' '' @ ni_title n) recent)] else ws)
      in if 150 < length ps then ws @ [''A big batch ('' @ digits (length ps)
           @ '' packages): more can go wrong at once; the pre-update snapshot is your way back.''] else ws)"

definition rule_summary :: "package_update list \<Rightarrow> string" where
  "rule_summary ps =
     (let n = length ps;
          tagged = filter (has_tag ps) [''kernel'', ''gpu'', ''core'', ''mindos'', ''gaming'', ''graphics'']
      in if n = 0 then ''The system is up to date.''
         else digits n @ '' package'' @ plural n @ '' to update''
           @ (if tagged = [] then '' (applications and libraries only)'' else '', touching '' @ join '', '' tagged) @ ''.'')"

definition rule_assessment :: "string \<Rightarrow> update_status \<Rightarrow> update_status" where
  "rule_assessment since_day s =
     (let ps = us_packages s;
          recent = news_since (us_news s) since_day;
          manual = list_ex announces_manual recent
      in s\<lparr>us_reboot := us_reboot s \<or> has_tag ps ''kernel'' \<or> has_tag ps ''gpu'',
           us_manual_intervention := manual,
           us_risk := [''low'', ''low'', ''medium'', ''high''] ! min (rule_risk ps manual) 3,
           us_warnings := rule_warnings ps recent manual,
           us_assessed_by_model := False,
           us_summary := rule_summary ps\<rparr>)"

section \<open>The model's verdict\<close>

definition risk_order :: "string \<Rightarrow> nat" where
  "risk_order r = (if r = ''low'' then 0 else if r = ''medium'' then 1 else 2)"

definition as_bool :: "json \<Rightarrow> bool option" where
  "as_bool v = (case v of JBool b \<Rightarrow> Some b | _ \<Rightarrow> None)"

definition chosen_risk :: "string \<Rightarrow> bool \<Rightarrow> string \<Rightarrow> nat" where
  "chosen_risk rules manual verdict =
     (let chosen = risk_order verdict;
          chosen = (if chosen + 1 < risk_order rules then risk_order rules - 1 else chosen)
      in if manual then 2 else chosen)"

text \<open>The part of \<open>model_assessment\<close> that takes over a valid verdict.\<close>

definition take_verdict :: "json \<Rightarrow> string \<Rightarrow> update_status \<Rightarrow> update_status" where
  "take_verdict v risk s =
     (let w = (case as_array (jget v ''warnings'') of None \<Rightarrow> []
               | Some a \<Rightarrow> take 4 (filter (\<lambda>x. x \<noteq> []) (map trim (strings_of a))))
      in s\<lparr>us_risk := [''low'', ''medium'', ''high''] ! chosen_risk (us_risk s) (us_manual_intervention s) risk,
           us_summary := (case as_str (jget v ''summary'') of
              Some t \<Rightarrow> if trim t \<noteq> [] then trim t else us_summary s | None \<Rightarrow> us_summary s),
           us_warnings := (if w = [] then us_warnings s else if us_manual_intervention s then MANUAL_WARNING # w else w),
           us_reboot := (case as_bool (jget v ''reboot'') of Some r \<Rightarrow> us_reboot s \<or> r | None \<Rightarrow> us_reboot s),
           us_assessed_by_model := True\<rparr>)"

text \<open>\<open>model_assessment\<close> with the model available (\<open>usable\<close>) and its answer, already parsed.\<close>

definition model_assessment :: "bool \<Rightarrow> json option \<Rightarrow> update_status \<Rightarrow> update_status" where
  "model_assessment usable answer s =
     (if \<not> usable \<or> us_packages s = [] then s
      else case answer of None \<Rightarrow> s
      | Some v \<Rightarrow>
          (let risk = to_lowercase (str_or_empty (jget v ''risk'')) in
           if risk \<notin> {''low'', ''medium'', ''high''} then s else take_verdict v risk s))"

section \<open>A check\<close>

definition package_key :: "package_update list \<Rightarrow> string list" where
  "package_key ps = map (\<lambda>p. pu_name p @ ''='' @ pu_to p) ps"

text \<open>The start: \<open>None\<close> when a check is already running.\<close>

definition check_begin :: "update_status \<Rightarrow> update_status option" where
  "check_begin s = (if us_checking s then None else Some (s\<lparr>us_checking := True, us_error := ''''\<rparr>))"

record check_input =
  ci_packages :: "string + package_update list"
  ci_news :: "news_item list"
  ci_now :: nat
  ci_since_day :: string
  ci_last_update :: "last_update option"
  ci_auto :: bool
  ci_assess :: bool  \<comment> \<open>the caller's flag and the configuration's\<close>

text \<open>After the package list and the news arrived: the new status, and whether the model is asked.\<close>

definition check_lists :: "check_input \<Rightarrow> update_status \<Rightarrow> update_status \<times> bool" where
  "check_lists ci s0 =
     (let previous = package_key (us_packages s0);
          s = (case ci_packages ci of Inr p \<Rightarrow> s0\<lparr>us_packages := p\<rparr> | Inl e \<Rightarrow> s0\<lparr>us_error := e\<rparr>);
          s = (if ci_news ci \<noteq> [] then s\<lparr>us_news := ci_news ci\<rparr> else s);
          s = s\<lparr>us_checked_at := ci_now ci, us_checking := False\<rparr>;
          changed = (package_key (us_packages s) \<noteq> previous \<or> us_risk s = []);
          s = (if changed \<or> \<not> us_assessed_by_model s then rule_assessment (ci_since_day ci) s else s);
          s = s\<lparr>us_last_update := ci_last_update ci, us_auto_apply := ci_auto ci\<rparr>;
          assess_now = (ci_assess ci \<and> (changed \<or> \<not> us_assessed_by_model s) \<and> us_packages s \<noteq> [] \<and> \<not> us_assessing s)
      in (if assess_now then s\<lparr>us_assessing := True\<rparr> else s, assess_now))"

text \<open>The verdict lands: \<open>cur\<close> is the shared status by then, \<open>s\<close> the copy that was rated. The flag
  says whether another check is requested.\<close>

definition check_verdict :: "update_status \<Rightarrow> update_status \<Rightarrow> update_status \<times> bool" where
  "check_verdict cur s =
     (let matches = (package_key (us_packages cur) = package_key (us_packages s)
            \<and> us_manual_intervention cur = us_manual_intervention s);
          cur' = (if matches then cur\<lparr>us_risk := us_risk s, us_summary := us_summary s, us_warnings := us_warnings s,
                    us_reboot := us_reboot s, us_assessed_by_model := us_assessed_by_model s\<rparr> else cur)
      in (cur'\<lparr>us_assessing := False\<rparr>,
          \<not> matches \<and> us_packages cur \<noteq> [] \<and> \<not> us_assessed_by_model cur))"

section \<open>Installing\<close>

definition apply_begin :: "update_status \<Rightarrow> update_status option" where
  "apply_begin s = (if us_applying s then None else Some (s\<lparr>us_applying := True\<rparr>))"

definition apply_finish :: "bool \<Rightarrow> last_update \<Rightarrow> update_status \<Rightarrow> update_status" where
  "apply_finish ok lu s =
     (let s = s\<lparr>us_applying := False, us_last_update := Some lu\<rparr> in
      if ok then s\<lparr>us_packages := [], us_risk := ''low'', us_summary := ''The system is up to date.'', us_warnings := []\<rparr>
      else s)"

text \<open>The condition of \<open>watch\<close> for installing without asking.\<close>

definition auto_install :: "bool \<Rightarrow> bool \<Rightarrow> update_status \<Rightarrow> bool" where
  "auto_install auto game s \<longleftrightarrow> auto \<and> us_packages s \<noteq> [] \<and> us_risk s = ''low''
     \<and> \<not> us_manual_intervention s \<and> us_error s = [] \<and> \<not> game"

section \<open>Properties\<close>

definition RISKS :: "string list" where
  "RISKS = [''low'', ''medium'', ''high'']"

definition touches_base :: "package_update list \<Rightarrow> bool" where
  "touches_base ps \<longleftrightarrow> has_tag ps ''kernel'' \<or> has_tag ps ''gpu'' \<or> has_tag ps ''core'' \<or> 150 < length ps"

lemma rule_risk_values:
  "rule_risk ps manual = (if manual then 3 else if touches_base ps then 2
     else if has_tag ps ''mindos'' \<or> has_tag ps ''gaming'' then 1 else 0)"
  by (simp add: rule_risk_def touches_base_def Let_def)

text \<open>
  The rules rate an update high exactly when news since the last update announces a manual
  intervention, else medium exactly when it touches the kernel, the GPU stack or core packages or
  is larger than 150 packages, else low; they ask for a reboot whenever kernel or GPU packages
  change; and the warning of a manual intervention comes first.
\<close>

theorem rule_assessment_risk:
  "let s' = rule_assessment day s; manual = list_ex announces_manual (news_since (us_news s) day) in
     us_risk s' = (if manual then ''high'' else if touches_base (us_packages s) then ''medium'' else ''low'')
     \<and> us_manual_intervention s' = manual
     \<and> us_reboot s' = (us_reboot s \<or> has_tag (us_packages s) ''kernel'' \<or> has_tag (us_packages s) ''gpu'')
     \<and> (if manual then take 1 (us_warnings s') = [MANUAL_WARNING] else True)"
proof -
  have "take (Suc 0) (rule_warnings ps recent True) = [MANUAL_WARNING]" for ps recent
    by (simp add: rule_warnings_def Let_def)
  then show ?thesis
    by (simp add: rule_assessment_def rule_risk_values Let_def numeral_2_eq_2 numeral_3_eq_3)
qed

lemma chosen_risk_bounds:
  "chosen_risk rules manual verdict \<le> 2 \<and> risk_order rules \<le> Suc (chosen_risk rules manual verdict)
   \<and> (manual \<longrightarrow> chosen_risk rules manual verdict = 2)"
  by (auto simp: chosen_risk_def risk_order_def Let_def)

lemma risk_order_nth: "k \<le> 2 \<Longrightarrow> risk_order (RISKS ! k) = k \<and> RISKS ! k \<in> set RISKS"
proof -
  assume "k \<le> 2"
  then consider "k = 0" | "k = Suc 0" | "k = Suc (Suc 0)" by linarith
  then show ?thesis by cases (simp_all add: RISKS_def risk_order_def)
qed

lemma model_assessment_cases:
  obtains "model_assessment usable answer s = s"
  | v risk where "model_assessment usable answer s = take_verdict v risk s"
proof -
  have "model_assessment usable answer s = s \<or> (\<exists>v risk. model_assessment usable answer s = take_verdict v risk s)"
    unfolding model_assessment_def Let_def by (simp split: option.split) blast
  then show thesis using that by blast
qed

lemma take_verdict_simps [simp]:
  "us_packages (take_verdict v risk s) = us_packages s"
  "us_manual_intervention (take_verdict v risk s) = us_manual_intervention s"
  "us_assessed_by_model (take_verdict v risk s)"
  "us_risk (take_verdict v risk s) = RISKS ! chosen_risk (us_risk s) (us_manual_intervention s) risk"
  "us_reboot s \<Longrightarrow> us_reboot (take_verdict v risk s)"
  by (simp_all add: take_verdict_def Let_def RISKS_def split: option.splits)

lemma take_verdict_warning:
  "us_manual_intervention s \<Longrightarrow> MANUAL_WARNING \<in> set (us_warnings s) \<Longrightarrow>
     MANUAL_WARNING \<in> set (us_warnings (take_verdict v risk s))"
  by (simp add: take_verdict_def Let_def)

text \<open>
  Whatever the model answers, its verdict lowers the risk the rules found by at most one step
  and never below high when a manual intervention is announced; it cannot take back a needed
  reboot, and the warning about the intervention is still shown.
\<close>

theorem model_verdict_bounded:
  assumes "us_risk s \<in> set RISKS"
    and "us_manual_intervention s \<longrightarrow> us_risk s = ''high'' \<and> MANUAL_WARNING \<in> set (us_warnings s)"
    and "s' = model_assessment usable answer s"
  shows "us_risk s' \<in> set RISKS \<and> risk_order (us_risk s) \<le> Suc (risk_order (us_risk s'))
    \<and> us_packages s' = us_packages s \<and> (us_reboot s \<longrightarrow> us_reboot s')
    \<and> us_manual_intervention s' = us_manual_intervention s
    \<and> (us_manual_intervention s \<longrightarrow> us_risk s' = ''high'' \<and> MANUAL_WARNING \<in> set (us_warnings s'))"
proof (rule model_assessment_cases [of usable answer s])
  assume "model_assessment usable answer s = s"
  then show ?thesis using assms by auto
next
  fix v risk
  assume m: "model_assessment usable answer s = take_verdict v risk s"
  let ?k = "chosen_risk (us_risk s) (us_manual_intervention s) risk"
  have k: "?k \<le> 2" "risk_order (us_risk s) \<le> Suc ?k" "us_manual_intervention s \<longrightarrow> ?k = 2"
    using chosen_risk_bounds by blast+
  have "us_manual_intervention s \<Longrightarrow> RISKS ! ?k = ''high''" using k(3) by (simp add: RISKS_def numeral_2_eq_2)
  then show ?thesis
    using assms(2) k risk_order_nth [OF k(1)] take_verdict_warning
    unfolding assms(3) m by simp
qed

text \<open>A pending update of one package, rated low by the model.\<close>

definition rated_low :: update_status where
  "rated_low = \<lparr>us_checked_at = 1, us_packages = [\<lparr>pu_name = ''firefox'', pu_from = ''1'', pu_to = ''2'', pu_tag = ''''\<rparr>],
     us_news = [], us_risk = ''low'', us_summary = '''', us_warnings = [], us_manual_intervention = False,
     us_reboot = False, us_assessed_by_model = True, us_assessing = False, us_checking = False,
     us_applying = False, us_auto_apply = True, us_last_update = None, us_error = ''''\<rparr>"

theorem model_verdict_bounded_witness:
  "risk_order (us_risk (model_assessment True (Some (JObj [(''risk'', JStr ''LOW'')])) (rated_low\<lparr>us_risk := ''high''\<rparr>))) \<ge> 1"
  using model_verdict_bounded [of "rated_low\<lparr>us_risk := ''high''\<rparr>", OF _ _ refl, of True "Some (JObj [(''risk'', JStr ''LOW'')])"]
  by (simp add: RISKS_def rated_low_def risk_order_def)

text \<open>
  C32. An unattended installation right after a check whose assessment ran, with the verdict merged
  into an unchanged status: no news since the last update announces a manual intervention, and if
  the update touches the kernel, the GPU stack or core packages, or is larger than 150 packages,
  the model itself has rated it.
\<close>

theorem auto_install_safe:
  assumes "ci_packages ci = Inr ps" "ci_news ci \<noteq> []"
    and "package_key ps \<noteq> package_key (us_packages s0) \<or> us_risk s0 = [] \<or> \<not> us_assessed_by_model s0"
    and "s1 = fst (check_lists ci s0)"
    and "s2 = fst (check_verdict s1 (model_assessment usable answer s1))"
    and "auto_install auto game s2"
  shows "us_packages s2 = ps
    \<and> \<not> list_ex announces_manual (news_since (ci_news ci) (ci_since_day ci))
    \<and> (touches_base ps \<longrightarrow> us_assessed_by_model s2)"
proof -
  let ?r = "rule_assessment (ci_since_day ci) (s0\<lparr>us_packages := ps, us_news := ci_news ci,
      us_checked_at := ci_now ci, us_checking := False\<rparr>)"
  have r: "us_packages s1 = ps" "us_risk s1 = us_risk ?r" "us_manual_intervention s1 = us_manual_intervention ?r"
    using assms(1-4) by (auto simp: check_lists_def Let_def rule_assessment_def)
  have rules: "us_manual_intervention s1 = list_ex announces_manual (news_since (ci_news ci) (ci_since_day ci))"
    "us_risk s1 = (if us_manual_intervention s1 then ''high'' else if touches_base ps then ''medium'' else ''low'')"
    using r by (auto simp: rule_assessment_def rule_risk_values Let_def numeral_2_eq_2 numeral_3_eq_3)
  let ?m = "model_assessment usable answer s1"
  have m: "us_packages ?m = us_packages s1" "us_manual_intervention ?m = us_manual_intervention s1"
    "?m = s1 \<or> us_assessed_by_model ?m"
    by (rule model_assessment_cases [of usable answer s1]; simp)+
  then have s2: "us_packages s2 = ps" "us_manual_intervention s2 = us_manual_intervention s1"
    "us_risk s2 = us_risk ?m" "us_assessed_by_model s2 = us_assessed_by_model ?m"
    using assms(5) r(1) by (auto simp: check_verdict_def Let_def)
  have "us_risk s2 = ''low''" "\<not> us_manual_intervention s1"
    using assms(6) s2 by (auto simp: auto_install_def)
  then show ?thesis using s2 rules m(3) by auto
qed

definition news_check :: "string \<Rightarrow> check_input" where
  "news_check headline = \<lparr>ci_packages = Inr (us_packages rated_low),
     ci_news = [\<lparr>ni_title = headline, ni_date = ''2026-09-02'', ni_url = ''''\<rparr>], ci_now = 5,
     ci_since_day = ''2026-08-01'', ci_last_update = None, ci_auto = True, ci_assess = False\<rparr>"

theorem auto_install_safe_witness:
  "us_packages (fst (check_verdict (fst (check_lists (news_check ''New mirror'') (rated_low\<lparr>us_assessed_by_model := False\<rparr>)))
      (model_assessment False None (fst (check_lists (news_check ''New mirror'') (rated_low\<lparr>us_assessed_by_model := False\<rparr>))))))
   = us_packages rated_low"
proof -
  let ?s0 = "rated_low\<lparr>us_assessed_by_model := False\<rparr>"
  let ?s1 = "fst (check_lists (news_check ''New mirror'') ?s0)"
  have "auto_install True False (fst (check_verdict ?s1 (model_assessment False None ?s1)))" by code_simp
  then show ?thesis
    using auto_install_safe [of "news_check ''New mirror''" "us_packages rated_low" ?s0, OF _ _ _ refl refl]
    by (simp add: news_check_def)
qed

text \<open>
  Once the model has rated a list of packages, a later check that finds the same list does not
  apply the rules again: whatever news has arrived, also the announcement of a manual
  intervention, the status keeps its rating and the watcher installs unattended.
\<close>

theorem new_news_is_not_assessed:
  assumes "us_assessed_by_model s0" "us_risk s0 = ''low''" "\<not> us_manual_intervention s0" "us_error s0 = []"
    and "ci_packages ci = Inr ps" "ps \<noteq> []" "package_key ps = package_key (us_packages s0)"
  shows "auto_install True False (fst (check_lists ci s0))"
  using assms by (simp add: auto_install_def check_lists_def Let_def)

theorem new_news_is_not_assessed_witness:
  "auto_install True False (fst (check_lists (news_check ''glibc update: manual intervention required'') rated_low))
   \<and> list_ex announces_manual (news_since (ci_news (news_check ''glibc update: manual intervention required''))
        (ci_since_day (news_check ''glibc update: manual intervention required'')))"
proof -
  have "list_ex announces_manual (news_since (ci_news (news_check ''glibc update: manual intervention required''))
        (ci_since_day (news_check ''glibc update: manual intervention required'')))"
    by code_simp
  moreover have "auto_install True False (fst (check_lists (news_check ''glibc update: manual intervention required'') rated_low))"
    by (rule new_news_is_not_assessed [where ps = "us_packages rated_low"]) (simp_all add: rated_low_def news_check_def)
  ultimately show ?thesis by blast
qed

end
