(* ===== verification/Web_Guard.thy ===== *)
theory Web_Guard
  imports Mindos_Prelude Rust_Str
begin

text \<open>
  The guard between the daemon and the network, the first half of src/mindd/src/daemon/web.rs: which
  addresses and hosts may be contacted, the approval of one URL, and the redirect loop of \<open>fetch\<close>
  that approves every hop. URL parsing (the url crate), name lookup and curl are parameters; a
  lookup may answer differently at every hop, so it takes the number of the hop.
\<close>

section \<open>Addresses\<close>

datatype ip = V4 u8 u8 u8 u8 | V6 "u16 list"

text \<open>The predicates of \<open>std::net::Ipv4Addr\<close> and \<open>Ipv6Addr\<close> that the guard calls.\<close>

fun v4_special :: "u8 \<Rightarrow> u8 \<Rightarrow> u8 \<Rightarrow> u8 \<Rightarrow> bool" where
  "v4_special a b c d \<longleftrightarrow>
     a = 127
     \<or> (a = 10 \<or> a = 172 \<and> 16 \<le> b \<and> b \<le> 31 \<or> a = 192 \<and> b = 168)
     \<or> (a = 169 \<and> b = 254)
     \<or> (a = 255 \<and> b = 255 \<and> c = 255 \<and> d = 255)
     \<or> (a = 192 \<and> b = 0 \<and> c = 2 \<or> a = 198 \<and> b = 51 \<and> c = 100 \<or> a = 203 \<and> b = 0 \<and> c = 113)
     \<or> (a = 0 \<and> b = 0 \<and> c = 0 \<and> d = 0)
     \<or> (224 \<le> a \<and> a \<le> 239)"

definition v4_public :: "u8 \<Rightarrow> u8 \<Rightarrow> u8 \<Rightarrow> u8 \<Rightarrow> bool" where
  "v4_public a b c d \<longleftrightarrow>
     \<not> (v4_special a b c d \<or> a = 0 \<or> a = 100 \<and> b AND 0xc0 = 64 \<or> a AND 0xf0 = 240)"

definition v6_loopback :: "u16 list \<Rightarrow> bool" where
  "v6_loopback s \<longleftrightarrow> s = [0, 0, 0, 0, 0, 0, 0, 1]"

definition v6_unspecified :: "u16 list \<Rightarrow> bool" where
  "v6_unspecified s \<longleftrightarrow> s = [0, 0, 0, 0, 0, 0, 0, 0]"

definition v6_multicast :: "u16 list \<Rightarrow> bool" where
  "v6_multicast s \<longleftrightarrow> s ! 0 AND 0xff00 = 0xff00"

definition hi :: "u16 \<Rightarrow> u8" where "hi x = ucast (drop_bit 8 x)"
definition lo :: "u16 \<Rightarrow> u8" where "lo x = ucast x"

fun is_public :: "ip \<Rightarrow> bool" where
  "is_public (V4 a b c d) = v4_public a b c d"
| "is_public (V6 s) =
     (if v6_loopback s \<or> v6_unspecified s \<or> v6_multicast s then False
      else if take 6 s = [0, 0, 0, 0, 0, 0xffff]
        then v4_public (hi (s ! 6)) (lo (s ! 6)) (hi (s ! 7)) (lo (s ! 7))
      else s ! 0 AND 0xfe00 \<noteq> 0xfc00 \<and> s ! 0 AND 0xffc0 \<noteq> 0xfe80)"

section \<open>Hosts\<close>

definition host_matches :: "string \<Rightarrow> string \<Rightarrow> bool" where
  "host_matches host pattern =
     (let h = to_lowercase (trim_start_str ''www.'' host); p = to_lowercase (trim pattern)
      in p \<noteq> [] \<and> (h = p \<or> ends_with h (''.'' @ p)))"

section \<open>Approving a URL\<close>

record url =
  u_text :: string
  u_scheme :: string
  u_username :: string
  u_password :: "string option"
  u_host :: "string option"
  u_port :: "nat option"

record web_config =
  w_enabled :: bool
  w_max_redirects :: nat
  w_allow_private :: bool
  w_deny_hosts :: "string list"

datatype web_error = Disabled | BadUrl | BadScheme | Credentials | NoHost | Denied | LookupFailed | NoAddress
  | PrivateAddress ip | WrongAddress | RequestFailed | TooManyRedirects

text \<open>\<open>port_or_known_default\<close> for the two schemes that get this far.\<close>

definition url_port :: "url \<Rightarrow> nat" where
  "url_port u = (case u_port u of Some p \<Rightarrow> p | None \<Rightarrow> if u_scheme u = ''https'' then 443 else 80)"

type_synonym lookup = "string \<Rightarrow> nat \<Rightarrow> ip list option"

text \<open>The approved addresses; the \<open>--resolve\<close> argument pins exactly these.\<close>

definition approve :: "lookup \<Rightarrow> web_config \<Rightarrow> url \<Rightarrow> web_error + ip list" where
  "approve dns cfg u =
     (if u_scheme u \<noteq> ''http'' \<and> u_scheme u \<noteq> ''https'' then Inl BadScheme
      else if u_username u \<noteq> [] \<or> u_password u \<noteq> None then Inl Credentials
      else case u_host u of None \<Rightarrow> Inl NoHost
      | Some host \<Rightarrow>
          if list_ex (host_matches host) (w_deny_hosts cfg) then Inl Denied
          else case dns host (url_port u) of None \<Rightarrow> Inl LookupFailed
          | Some addrs \<Rightarrow>
              if addrs = [] then Inl NoAddress
              else if \<not> w_allow_private cfg then
                (case List.find (\<lambda>a. \<not> is_public a) addrs of Some bad \<Rightarrow> Inl (PrivateAddress bad) | None \<Rightarrow> Inr addrs)
              else Inr addrs)"

section \<open>Fetching\<close>

record curl_out =
  c_status :: nat
  c_redirect :: string
  c_remote_ip :: "ip option"  \<comment> \<open>the address that answered, if curl reported one\<close>
  c_ok :: bool

record page =
  pg_url :: string
  pg_status :: nat
  pg_hops :: "string list"

text \<open>One request made: the URL, the addresses pinned for it, the address that answered.\<close>

type_synonym contact = "url \<times> ip list \<times> ip option"

fun fetch_loop :: "(string \<Rightarrow> url option) \<Rightarrow> (nat \<Rightarrow> lookup) \<Rightarrow> (nat \<Rightarrow> url \<Rightarrow> ip list \<Rightarrow> curl_out) \<Rightarrow> web_config
    \<Rightarrow> nat \<Rightarrow> nat \<Rightarrow> url \<Rightarrow> string list \<Rightarrow> (web_error + page) \<times> contact list" where
  "fetch_loop parse dns curl cfg 0 k current hops = (Inl TooManyRedirects, [])"
| "fetch_loop parse dns curl cfg (Suc n) k current hops =
     (case approve (dns k) cfg current of
        Inl e \<Rightarrow> (Inl e, [])
      | Inr addrs \<Rightarrow>
          (let out = curl k current addrs; here = (current, addrs, c_remote_ip out) in
           if (case c_remote_ip out of Some r \<Rightarrow> r \<notin> set addrs | None \<Rightarrow> False) then (Inl WrongAddress, [here])
           else if \<not> c_ok out \<and> c_status out = 0 then (Inl RequestFailed, [here])
           else if 300 \<le> c_status out \<and> c_status out < 400 \<and> c_redirect out \<noteq> [] then
             (case parse (c_redirect out) of None \<Rightarrow> (Inl BadUrl, [here])
              | Some next_url \<Rightarrow>
                  let (r, cs) = fetch_loop parse dns curl cfg n (Suc k) next_url (hops @ [u_text current])
                  in (r, here # cs))
           else (Inr \<lparr>pg_url = u_text current, pg_status = c_status out, pg_hops = hops\<rparr>, [here])))"

definition fetch :: "(string \<Rightarrow> url option) \<Rightarrow> (nat \<Rightarrow> lookup) \<Rightarrow> (nat \<Rightarrow> url \<Rightarrow> ip list \<Rightarrow> curl_out) \<Rightarrow> web_config
    \<Rightarrow> string \<Rightarrow> (web_error + page) \<times> contact list" where
  "fetch parse dns curl cfg raw =
     (if \<not> w_enabled cfg then (Inl Disabled, [])
      else case (case parse (trim raw) of Some u \<Rightarrow> Some u | None \<Rightarrow> parse (''https://'' @ trim raw)) of
        None \<Rightarrow> (Inl BadUrl, [])
      | Some u \<Rightarrow> fetch_loop parse dns curl cfg (Suc (w_max_redirects cfg)) 0 u [])"

section \<open>Properties\<close>

definition url_ok :: "web_config \<Rightarrow> url \<Rightarrow> bool" where
  "url_ok cfg u \<longleftrightarrow> u_scheme u \<in> {''http'', ''https''} \<and> u_username u = [] \<and> u_password u = None
     \<and> (\<exists>h. u_host u = Some h \<and> \<not> list_ex (host_matches h) (w_deny_hosts cfg))"

lemma approve_ok:
  "approve dns cfg u = Inr addrs \<Longrightarrow>
     url_ok cfg u \<and> addrs \<noteq> [] \<and> (\<not> w_allow_private cfg \<longrightarrow> (\<forall>a \<in> set addrs. is_public a))"
  by (auto simp: approve_def url_ok_def find_None_iff split: if_splits option.splits)

definition contact_ok :: "web_config \<Rightarrow> contact \<Rightarrow> bool" where
  "contact_ok cfg c \<longleftrightarrow> (case c of (u, pinned, r) \<Rightarrow>
     url_ok cfg u \<and> pinned \<noteq> [] \<and> (\<not> w_allow_private cfg \<longrightarrow> (\<forall>a \<in> set pinned. is_public a)))"

lemma fetch_loop_contacts:
  assumes "fetch_loop parse dns curl cfg n k u hops = (r, cs)"
  shows "length cs \<le> n \<and> (\<forall>c \<in> set cs. contact_ok cfg c)
    \<and> (\<forall>p. r = Inr p \<longrightarrow> cs \<noteq> [] \<and> pg_url p = u_text (fst (last cs)) \<and> pg_hops p = hops @ map (u_text \<circ> fst) (butlast cs)
          \<and> (\<forall>c \<in> set cs. \<forall>a. snd (snd c) = Some a \<longrightarrow> a \<in> set (fst (snd c))))"
  using assms
proof (induction n arbitrary: k u hops r cs)
  case (Suc n)
  show ?case
  proof (cases "approve (dns k) cfg u")
    case (Inl e)
    then show ?thesis using Suc.prems by auto
  next
    case (Inr addrs)
    let ?out = "curl k u addrs" and ?here = "(u, addrs, c_remote_ip (curl k u addrs))"
    have here: "contact_ok cfg ?here" using approve_ok [OF Inr] by (simp add: contact_ok_def)
    show ?thesis
    proof (cases "(case c_remote_ip ?out of Some a \<Rightarrow> a \<in> set addrs | None \<Rightarrow> True) \<and> (c_ok ?out \<or> c_status ?out \<noteq> 0)
        \<and> 300 \<le> c_status ?out \<and> c_status ?out < 400 \<and> c_redirect ?out \<noteq> [] \<and> parse (c_redirect ?out) \<noteq> None")
      case True
      then obtain v r' cs' where rec: "fetch_loop parse dns curl cfg n (Suc k) v (hops @ [u_text u]) = (r', cs')"
        and eq: "r = r'" "cs = ?here # cs'"
        using Suc.prems Inr by (auto simp: Let_def split: if_splits option.splits prod.splits)
      have ip: "\<forall>a. c_remote_ip ?out = Some a \<longrightarrow> a \<in> set addrs" using True by (auto split: option.splits)
      show ?thesis
        using Suc.IH [OF rec] here ip unfolding eq by auto
    next
      case False
      then show ?thesis using Suc.prems Inr here
        by (auto simp: Let_def split: if_splits option.splits prod.splits)
    qed
  qed
qed simp

text \<open>
  C31. Every request a fetch makes, on any of its redirect hops and whatever the name server
  answers each time, goes to an http or https URL without credentials whose host is not denied, and
  is pinned to addresses that were all found public unless private ones are allowed. There are at
  most \<open>max_redirects + 1\<close> requests, and when a page is returned each address that answered is one
  of those pinned for its request.
\<close>

theorem fetch_guard:
  assumes "fetch parse dns curl cfg raw = (r, cs)"
  shows "(\<forall>c \<in> set cs. contact_ok cfg c) \<and> length cs \<le> Suc (w_max_redirects cfg)
    \<and> (\<not> w_enabled cfg \<longrightarrow> cs = [])
    \<and> (\<forall>p. r = Inr p \<longrightarrow> (\<forall>c \<in> set cs. \<forall>a. snd (snd c) = Some a \<longrightarrow> a \<in> set (fst (snd c))))
    \<and> (\<forall>p. r = Inr p \<and> \<not> w_allow_private cfg \<longrightarrow> (\<forall>c \<in> set cs. \<forall>a. snd (snd c) = Some a \<longrightarrow> is_public a))"
proof -
  have main: "(\<forall>c \<in> set cs. contact_ok cfg c) \<and> length cs \<le> Suc (w_max_redirects cfg)
      \<and> (\<not> w_enabled cfg \<longrightarrow> cs = [])
      \<and> (\<forall>p. r = Inr p \<longrightarrow> (\<forall>c \<in> set cs. \<forall>a. snd (snd c) = Some a \<longrightarrow> a \<in> set (fst (snd c))))"
  proof (cases "cs = []")
    case False
    then obtain u where "fetch_loop parse dns curl cfg (Suc (w_max_redirects cfg)) 0 u [] = (r, cs)" "w_enabled cfg"
      using assms by (auto simp: fetch_def simp del: fetch_loop.simps split: if_splits option.splits)
    then show ?thesis using fetch_loop_contacts by blast
  qed simp
  then show ?thesis unfolding contact_ok_def by fastforce
qed

definition demo_url :: url where
  "demo_url = \<lparr>u_text = ''https://a.org/'', u_scheme = ''https'', u_username = '''', u_password = None,
     u_host = Some ''a.org'', u_port = None\<rparr>"

definition demo_cfg :: web_config where
  "demo_cfg = \<lparr>w_enabled = True, w_max_redirects = 5, w_allow_private = False, w_deny_hosts = [''bad.org'']\<rparr>"

text \<open>The first hop answers with a redirect to a host whose name resolves to this machine.\<close>

definition demo_fetch :: "(web_error + page) \<times> contact list" where
  "demo_fetch = fetch (\<lambda>_. Some demo_url) (\<lambda>k _ _. Some [if k = 0 then V4 93 184 216 34 else V4 127 0 0 1])
      (\<lambda>_ _ as. \<lparr>c_status = 302, c_redirect = ''http://b.org/'', c_remote_ip = Some (hd as), c_ok = True\<rparr>) demo_cfg ''a.org''"

theorem fetch_guard_witness:
  "fst demo_fetch = Inl (PrivateAddress (V4 127 0 0 1)) \<and> length (snd demo_fetch) = 1
   \<and> list_all (contact_ok demo_cfg) (snd demo_fetch)"
proof -
  have "\<not> host_matches ''a.org'' ''bad.org''" by code_simp
  moreover have "is_public (V4 93 184 216 34)" "\<not> is_public (V4 127 0 0 1)"
    by (simp_all add: v4_public_def)
  ultimately have "fst demo_fetch = Inl (PrivateAddress (V4 127 0 0 1)) \<and> length (snd demo_fetch) = 1"
    by (simp add: demo_fetch_def fetch_def approve_def demo_url_def demo_cfg_def url_port_def Let_def
        eval_nat_numeral)
  moreover have "list_all (contact_ok demo_cfg) (snd demo_fetch)"
    using fetch_guard [of _ _ _ demo_cfg] unfolding demo_fetch_def list_all_iff by (metis prod.collapse)
  ultimately show ?thesis by blast
qed

section \<open>Gaps\<close>

lemma starts_with_refl [simp]: "starts_with s s"
  using starts_with_append [of s "[]"] by simp

lemma length_trim_start: "length (trim_start_str p s) \<le> length s"
  by (induction p s rule: trim_start_str.induct) (subst trim_start_str.simps, auto)

text \<open>
  The deny list strips \<open>www.\<close> from the host but not from its own entries, so an entry that
  begins with \<open>www.\<close> never matches the very host it names.
\<close>

theorem deny_entry_with_www_never_matches:
  assumes "trim (''www.'' @ d) = ''www.'' @ d"
  shows "\<not> host_matches (''www.'' @ d) (''www.'' @ d)"
proof -
  have "trim_start_str ''www.'' (''www.'' @ d) = trim_start_str ''www.'' d"
    by (subst trim_start_str.simps) simp
  then have "length (to_lowercase (trim_start_str ''www.'' (''www.'' @ d))) \<le> length d"
    using length_trim_start [of "''www.''" d] by (simp add: to_lowercase_def)
  moreover have "length (to_lowercase (trim (''www.'' @ d))) = length d + 4"
    unfolding assms by (simp add: to_lowercase_def)
  moreover have "ends_with h p \<Longrightarrow> length p \<le> length h" for h p
    using starts_with_length [of "rev h" "rev p"] by (simp add: ends_with_def)
  ultimately show ?thesis unfolding host_matches_def Let_def by fastforce
qed

theorem deny_entry_with_www_never_matches_witness:
  "\<not> host_matches ''www.tracker.example'' ''www.tracker.example''"
proof -
  have "trim (''www.'' @ ''tracker.example'') = ''www.'' @ ''tracker.example''" by code_simp
  from deny_entry_with_www_never_matches [OF this] show ?thesis by simp
qed

text \<open>
  The address test accepts IPv6 addresses that carry an IPv4 address of this machine in the
  NAT64 form, and the benchmarking range of IPv4, although special-purpose ranges are meant to be
  refused; the same IPv4 address in the mapped form is refused.
\<close>

theorem special_ranges_accepted:
  "is_public (V6 [0x64, 0xff9b, 0, 0, 0, 0, 0x7f00, 1]) \<and> is_public (V4 198 18 0 1)
   \<and> \<not> is_public (V6 [0, 0, 0, 0, 0, 0xffff, 0x7f00, 1])"
  by (simp add: v4_public_def v6_loopback_def v6_unspecified_def v6_multicast_def hi_def lo_def drop_bit_eq_div)

end
