(* ===== verification/Frames.thy ===== *)
theory Frames
  imports Mindos_Prelude
begin

text \<open>
  The physical frame allocator of src/research/kernel-rs/kernel/src/mm/pmm.rs: a bitmap of 64-bit
  words over all frames (a set bit is a frame in use), a search hint, the count of free frames, and
  the reference counts kept beside it. Frames are numbered; an address is a frame number times the
  frame size.
\<close>

section \<open>State\<close>

definition FRAME :: nat where "FRAME = 4096"

record pmm =
  pm_bitmap :: "u64 list"
  pm_words :: nat
  pm_frames :: nat
  pm_free :: nat
  pm_total_usable :: nat
  pm_hint :: nat

definition is_used :: "pmm \<Rightarrow> nat \<Rightarrow> bool" where
  "is_used p f \<longleftrightarrow> (pm_bitmap p ! (f div 64)) AND push_bit (f mod 64) 1 \<noteq> 0"

definition set_used :: "nat \<Rightarrow> pmm \<Rightarrow> pmm" where
  "set_used f p =
     p\<lparr>pm_bitmap := (pm_bitmap p)[f div 64 := (pm_bitmap p ! (f div 64)) OR push_bit (f mod 64) 1]\<rparr>"

definition set_free :: "nat \<Rightarrow> pmm \<Rightarrow> pmm" where
  "set_free f p =
     p\<lparr>pm_bitmap := (pm_bitmap p)[f div 64 := (pm_bitmap p ! (f div 64)) AND NOT (push_bit (f mod 64) 1)]\<rparr>"

definition trailing_zeros :: "u64 \<Rightarrow> nat" where
  "trailing_zeros w = length (takeWhile (\<lambda>i. \<not> bit w i) [0..<64])"

section \<open>Allocation\<close>

text \<open>One pass of \<open>alloc_one\<close> over the words \<open>w..hi\<close>: the first free frame, unless it lies past
  the end, which ends the pass.\<close>

function scan_words :: "pmm \<Rightarrow> nat \<Rightarrow> nat \<Rightarrow> nat option" where
  "scan_words p w end =
     (if w < end then
        (let v = pm_bitmap p ! w in
         if v \<noteq> - 1 then
           (let f = w * 64 + trailing_zeros (NOT v) in if pm_frames p \<le> f then None else Some f)
         else scan_words p (Suc w) end)
      else None)"
  by pat_completeness auto
termination by (relation "measure (\<lambda>(p, w, end). end - w)") auto

declare scan_words.simps [simp del]

definition take_frame :: "nat \<Rightarrow> pmm \<Rightarrow> pmm" where
  "take_frame f p = (set_used f p)\<lparr>pm_free := pm_free p - 1, pm_hint := f + 1\<rparr>"

definition alloc_one :: "pmm \<Rightarrow> nat option \<times> pmm" where
  "alloc_one p =
     (let start_word = pm_hint p div 64 in
      case scan_words p start_word (pm_words p) of
        Some f \<Rightarrow> (Some (f * FRAME), take_frame f p)
      | None \<Rightarrow>
          (case scan_words p 0 start_word of
             Some f \<Rightarrow> (Some (f * FRAME), take_frame f p)
           | None \<Rightarrow> (None, p)))"

text \<open>The search of \<open>alloc_many\<close>: \<open>run\<close> free frames end just before \<open>f\<close>.\<close>

function find_run :: "pmm \<Rightarrow> nat \<Rightarrow> nat \<Rightarrow> nat \<Rightarrow> nat option" where
  "find_run p n run f =
     (if pm_frames p \<le> f then None
      else if f mod 64 = 0 \<and> pm_bitmap p ! (f div 64) = - 1 then find_run p n 0 (f + 64)
      else if is_used p f then find_run p n 0 (Suc f)
      else if Suc run = n then Some (f + 1 - n)
      else find_run p n (Suc run) (Suc f))"
  by pat_completeness auto
termination by (relation "measure (\<lambda>(p, n, run, f). pm_frames p - f)") auto

declare find_run.simps [simp del]

definition alloc_many :: "nat \<Rightarrow> pmm \<Rightarrow> nat option \<times> pmm" where
  "alloc_many n p =
     (if n = 1 then alloc_one p
      else case find_run p n 0 256 of
        None \<Rightarrow> (None, p)
      | Some start \<Rightarrow>
          (Some (start * FRAME),
           (fold set_used [start..<start + n] p)\<lparr>pm_free := pm_free p - n\<rparr>))"

definition free_frame :: "nat \<Rightarrow> pmm \<Rightarrow> pmm" where
  "free_frame pa p =
     (let f = pa div FRAME in
      if f < pm_frames p \<and> is_used p f then
        (set_free f p)\<lparr>pm_free := pm_free p + 1, pm_hint := (if f < pm_hint p then f else pm_hint p)\<rparr>
      else p)"

definition free_frames :: "nat \<Rightarrow> nat \<Rightarrow> pmm \<Rightarrow> pmm" where
  "free_frames pa n p = fold (\<lambda>i. free_frame (pa + i * FRAME)) [0..<n] p"

section \<open>Setting up\<close>

record region =
  rg_base :: nat
  rg_length :: nat
  rg_usable :: bool

definition region_frames :: "region \<Rightarrow> nat list" where
  "region_frames e = [rg_base e div FRAME..<rg_base e div FRAME + rg_length e div FRAME]"

definition mark_free :: "nat \<Rightarrow> pmm \<Rightarrow> pmm" where
  "mark_free f p = (if f < 256 then p else (set_free f p)\<lparr>pm_free := pm_free p + 1\<rparr>)"

definition mark_used :: "nat \<Rightarrow> pmm \<Rightarrow> pmm" where
  "mark_used f p = (if \<not> is_used p f then (set_used f p)\<lparr>pm_free := pm_free p - 1\<rparr> else p)"

text \<open>\<open>init\<close>; \<open>None\<close> is the failed assertion that there is room for the bitmap.\<close>

definition pmm_init :: "region list \<Rightarrow> pmm option" where
  "pmm_init memmap =
     (let usable = filter rg_usable memmap;
          max_addr = fold (\<lambda>e m. max m (rg_base e + rg_length e)) usable 0;
          total = sum_list (map rg_length usable);
          frames = max_addr div FRAME;
          words = (frames + 63) div 64;
          bytes = words * 8
      in case List.find (\<lambda>e. bytes \<le> rg_length e \<and> 0x100000 \<le> rg_base e) usable of
           None \<Rightarrow> None
         | Some e \<Rightarrow>
             (let p = \<lparr>pm_bitmap = replicate words (- 1), pm_words = words, pm_frames = frames, pm_free = 0,
                        pm_total_usable = total div FRAME, pm_hint = 0\<rparr>;
                  p = fold mark_free (concat (map region_frames usable)) p;
                  bfirst = rg_base e div FRAME;
                  bcount = (bytes + 4095) div 4096;
                  p = fold mark_used [bfirst..<bfirst + bcount] p
              in Some (p\<lparr>pm_hint := bfirst + bcount\<rparr>)))"

section \<open>Reference counts\<close>

record frames_state =
  fs_pmm :: pmm
  fs_refs :: "u32 list"  \<comment> \<open>empty before \<open>init_refcounts\<close>\<close>

definition alloc_frame_ref :: "frames_state \<Rightarrow> nat option \<times> frames_state" where
  "alloc_frame_ref s =
     (case alloc_one (fs_pmm s) of
        (None, p) \<Rightarrow> (None, s\<lparr>fs_pmm := p\<rparr>)
      | (Some pa, p) \<Rightarrow>
          (Some pa, s\<lparr>fs_pmm := p,
             fs_refs := (if pa div FRAME < length (fs_refs s) then (fs_refs s)[pa div FRAME := 1] else fs_refs s)\<rparr>))"

definition ref_count :: "frames_state \<Rightarrow> nat \<Rightarrow> u32" where
  "ref_count s pa = (if pa div FRAME < length (fs_refs s) then fs_refs s ! (pa div FRAME) else 0)"

definition ref_inc :: "nat \<Rightarrow> frames_state \<Rightarrow> frames_state" where
  "ref_inc pa s =
     (if pa div FRAME < length (fs_refs s) \<and> fs_refs s ! (pa div FRAME) \<noteq> 0
      then s\<lparr>fs_refs := (fs_refs s)[pa div FRAME := fs_refs s ! (pa div FRAME) + 1]\<rparr> else s)"

definition ref_dec :: "nat \<Rightarrow> frames_state \<Rightarrow> frames_state" where
  "ref_dec pa s =
     (if pa div FRAME < length (fs_refs s) then
        (let v = fs_refs s ! (pa div FRAME) in
         if v = 0 then s
         else if v = 1 then
           s\<lparr>fs_refs := (fs_refs s)[pa div FRAME := 0], fs_pmm := free_frame pa (fs_pmm s)\<rparr>
         else s\<lparr>fs_refs := (fs_refs s)[pa div FRAME := v - 1]\<rparr>)
      else s)"

section \<open>Bits\<close>

lemma is_used_bit: "is_used p f \<longleftrightarrow> bit (pm_bitmap p ! (f div 64)) (f mod 64)"
  by (simp only: is_used_def bit_iff_and_push_bit_not_eq_0)

lemma trailing_zeros_first:
  assumes "w \<noteq> 0"
  shows "trailing_zeros w < 64" "bit w (trailing_zeros w)" "i < trailing_zeros w \<Longrightarrow> \<not> bit w i"
proof -
  have "\<exists>k < 64. bit w k"
  proof (rule ccontr)
    assume "\<not> (\<exists>k < 64. bit w k)"
    then have "w = 0" by (intro bit_word_eqI) auto
    then show False using assms by simp
  qed
  then obtain k where k: "k < 64" "bit w k" by blast
  let ?t = "takeWhile (\<lambda>i. \<not> bit w i) [0..<64]" and ?d = "dropWhile (\<lambda>i. \<not> bit w i) [0..<64]"
  have "?d \<noteq> []" using k by (auto simp: dropWhile_eq_Nil_conv)
  moreover have "length ?t + length ?d = length [0..<64]"
    by (metis length_append takeWhile_dropWhile_id)
  ultimately have less: "length ?t < length [0..<64]"
    by (metis length_greater_0_conv less_add_same_cancel1)
  then show l: "trailing_zeros w < 64" by (simp add: trailing_zeros_def)
  show "bit w (trailing_zeros w)"
    using nth_length_takeWhile [OF less] l by (simp add: trailing_zeros_def)
  show "\<not> bit w i" if "i < trailing_zeros w"
  proof -
    have "i = takeWhile (\<lambda>i. \<not> bit w i) [0..<64] ! i"
      using that l by (simp add: trailing_zeros_def takeWhile_nth)
    then have "i \<in> set (takeWhile (\<lambda>i. \<not> bit w i) [0..<64])"
      using that by (metis nth_mem trailing_zeros_def)
    then show ?thesis by (auto dest: set_takeWhileD)
  qed
qed

lemma div_mod_eq: "(g :: nat) div 64 = f div 64 \<and> g mod 64 = f mod 64 \<longleftrightarrow> g = f"
  by (metis div_mult_mod_eq)

lemma is_used_set_used:
  assumes "f div 64 < length (pm_bitmap p)"
  shows "is_used (set_used f p) g \<longleftrightarrow> g = f \<or> is_used p g"
proof (cases "g div 64 = f div 64")
  case True
  then have "is_used (set_used f p) g \<longleftrightarrow> is_used p g \<or> g mod 64 = f mod 64"
    using assms by (auto simp: is_used_bit set_used_def bit_simps)
  then show ?thesis using True div_mod_eq [of g f] by blast
next
  case False
  then show ?thesis using assms by (auto simp: is_used_bit set_used_def nth_list_update)
qed

lemma is_used_set_free:
  assumes "f div 64 < length (pm_bitmap p)"
  shows "is_used (set_free f p) g \<longleftrightarrow> g \<noteq> f \<and> is_used p g"
proof (cases "g div 64 = f div 64")
  case True
  then have "is_used (set_free f p) g \<longleftrightarrow> is_used p g \<and> g mod 64 \<noteq> f mod 64"
    using assms by (auto simp: is_used_bit set_free_def bit_simps)
  then show ?thesis using True div_mod_eq [of g f] by blast
next
  case False
  then show ?thesis using assms by (auto simp: is_used_bit set_free_def nth_list_update)
qed

section \<open>Invariant\<close>

definition free_set :: "pmm \<Rightarrow> nat set" where
  "free_set p = {f. f < pm_frames p \<and> \<not> is_used p f}"

definition pmm_inv :: "pmm \<Rightarrow> bool" where
  "pmm_inv p \<longleftrightarrow> length (pm_bitmap p) = pm_words p \<and> pm_words p = (pm_frames p + 63) div 64
     \<and> pm_hint p \<le> pm_frames p \<and> pm_free p = card (free_set p)
     \<and> (\<forall>f. pm_frames p \<le> f \<and> f < pm_words p * 64 \<longrightarrow> is_used p f)"

lemma finite_free_set [simp]: "finite (free_set p)"
  by (simp add: free_set_def)

lemma frame_word: "pmm_inv p \<Longrightarrow> f < pm_frames p \<Longrightarrow> f div 64 < length (pm_bitmap p)"
  by (simp add: pmm_inv_def less_mult_imp_div_less)

lemma set_used_simps [simp]:
  "pm_frames (set_used f p) = pm_frames p" "pm_words (set_used f p) = pm_words p"
  "pm_free (set_used f p) = pm_free p" "pm_hint (set_used f p) = pm_hint p"
  "length (pm_bitmap (set_used f p)) = length (pm_bitmap p)"
  by (simp_all add: set_used_def)

lemma set_free_simps [simp]:
  "pm_frames (set_free f p) = pm_frames p" "pm_words (set_free f p) = pm_words p"
  "pm_free (set_free f p) = pm_free p" "pm_hint (set_free f p) = pm_hint p"
  "length (pm_bitmap (set_free f p)) = length (pm_bitmap p)"
  by (simp_all add: set_free_def)

lemma is_used_update [simp]:
  "is_used (p\<lparr>pm_free := a\<rparr>) f = is_used p f" "is_used (p\<lparr>pm_hint := b\<rparr>) f = is_used p f"
  by (simp_all add: is_used_def)

lemma take_frame_spec:
  assumes "pmm_inv p" "f \<in> free_set p"
  shows "pmm_inv (take_frame f p)" "free_set (take_frame f p) = free_set p - {f}"
    "pm_frames (take_frame f p) = pm_frames p"
proof -
  have f: "f < pm_frames p" "f div 64 < length (pm_bitmap p)"
    using assms frame_word by (auto simp: free_set_def)
  have u: "is_used (take_frame f p) g \<longleftrightarrow> g = f \<or> is_used p g" for g
    using is_used_set_used [OF f(2)] by (simp add: take_frame_def)
  show fs: "free_set (take_frame f p) = free_set p - {f}"
    by (auto simp: free_set_def u) (simp_all add: take_frame_def)
  show "pm_frames (take_frame f p) = pm_frames p" by (simp add: take_frame_def)
  have "card (free_set p - {f}) = card (free_set p) - 1" using assms(2) by (simp add: card_Diff_singleton)
  then have "pm_free (take_frame f p) = card (free_set (take_frame f p))"
    unfolding fs using assms(1) by (simp add: take_frame_def pmm_inv_def)
  moreover have "\<forall>g. pm_frames p \<le> g \<and> g < pm_words p * 64 \<longrightarrow> is_used (take_frame f p) g"
    using assms(1) by (simp add: u pmm_inv_def)
  ultimately show "pmm_inv (take_frame f p)"
    using assms(1) f(1) by (simp add: pmm_inv_def take_frame_def)
qed

lemma scan_words_spec:
  assumes "pmm_inv p" "e \<le> pm_words p"
  shows "case scan_words p w e of
      Some f \<Rightarrow> f \<in> free_set p
    | None \<Rightarrow> \<forall>f \<in> free_set p. \<not> (w \<le> f div 64 \<and> f div 64 < e)"
  using assms
proof (induction p w e rule: scan_words.induct)
  case (1 p w e)
  let ?v = "pm_bitmap p ! w"
  show ?case
  proof (cases "w < e")
    case False
    then show ?thesis by (subst scan_words.simps) auto
  next
    case w: True
    show ?thesis
    proof (cases "?v = - 1")
      case True
      have "is_used p f" if "f div 64 = w" for f
        using that True by (simp add: is_used_bit)
      moreover have "scan_words p w e = scan_words p (Suc w) e"
        using w True by (subst scan_words.simps) simp
      ultimately show ?thesis
        using 1(1) [OF w refl] 1(2,3) True by (fastforce simp: free_set_def Suc_le_eq le_less split: option.splits)
    next
      case False
      let ?k = "trailing_zeros (NOT ?v)"
      let ?f = "w * 64 + ?k"
      have "NOT ?v \<noteq> 0" using False by (metis bit.double_compl bit.compl_zero)
      then have k: "?k < 64" "\<not> bit ?v ?k"
        using trailing_zeros_first(1,2) [of "NOT ?v"] by (auto simp: bit_simps)
      then have "\<not> is_used p ?f" by (simp add: is_used_bit)
      moreover have "?f < pm_words p * 64" using w 1(3) k(1) by linarith
      ultimately have "?f < pm_frames p" using 1(2) by (meson linorder_not_less pmm_inv_def)
      moreover have "scan_words p w e = Some ?f"
        using w False \<open>?f < pm_frames p\<close> by (subst scan_words.simps) (simp add: Let_def)
      ultimately show ?thesis using \<open>\<not> is_used p ?f\<close> by (simp add: free_set_def)
    qed
  qed
qed

lemma FRAME_pos [simp]: "0 < FRAME" "f * FRAME div FRAME = f"
  by (simp_all add: FRAME_def)

lemma alloc_one_spec:
  assumes "pmm_inv p"
  shows "case alloc_one p of
      (Some pa, p') \<Rightarrow> \<exists>f \<in> free_set p. pa = f * FRAME \<and> pmm_inv p' \<and> free_set p' = free_set p - {f} \<and> pm_frames p' = pm_frames p
    | (None, p') \<Rightarrow> free_set p = {} \<and> p' = p"
proof -
  let ?s = "pm_hint p div 64"
  have s: "?s \<le> pm_words p" using assms by (auto simp: pmm_inv_def)
  have words: "f div 64 < pm_words p" if "f \<in> free_set p" for f
    using that frame_word [OF assms] assms by (auto simp: free_set_def pmm_inv_def)
  note hi = scan_words_spec [OF assms order.refl, of ?s] and lo = scan_words_spec [OF assms s, of 0]
  show ?thesis
  proof (cases "scan_words p ?s (pm_words p)")
    case (Some f)
    then show ?thesis using hi take_frame_spec [OF assms, of f] by (auto simp: alloc_one_def Let_def)
  next
    case hi_none: None
    show ?thesis
    proof (cases "scan_words p 0 ?s")
      case (Some f)
      then show ?thesis using hi_none lo take_frame_spec [OF assms, of f] by (auto simp: alloc_one_def Let_def)
    next
      case None
      then have "free_set p = {}" using hi_none hi lo words by (fastforce simp: linorder_not_less)
      then show ?thesis using None hi_none by (simp add: alloc_one_def Let_def)
    qed
  qed
qed

lemma find_run_spec:
  assumes "pmm_inv p" "run < n" "1 < n" "run \<le> f" "256 \<le> f - run"
    "\<forall>i. f - run \<le> i \<and> i < f \<longrightarrow> i \<in> free_set p"
  shows "case find_run p n run f of
      Some start \<Rightarrow> 256 \<le> start \<and> {start..<start + n} \<subseteq> free_set p
    | None \<Rightarrow> \<forall>start \<ge> f - run. \<not> {start..<start + n} \<subseteq> free_set p"
  using assms
proof (induction p n run f rule: find_run.induct)
  case (1 p n run f)
  have blocked: "\<not> {start..<start + n} \<subseteq> free_set p"
    if "f \<notin> free_set p" "f - run \<le> start" "start \<le> f" for start
    using that 1(5-8) by (intro notI) (auto dest!: subsetD [of _ _ f])
  show ?case
  proof (cases "pm_frames p \<le> f")
    case True
    then have f: "f \<notin> free_set p" by (simp add: free_set_def)
    have "\<not> {start..<start + n} \<subseteq> free_set p" if "f - run \<le> start" for start
    proof (cases "start \<le> f")
      case False
      then have "start \<notin> free_set p" using True by (simp add: free_set_def)
      then show ?thesis using 1(6) by (auto dest!: subsetD [of _ _ start])
    qed (use blocked f that in blast)
    then show ?thesis using True by (subst find_run.simps) simp
  next
    case in_range: False
    show ?thesis
    proof (cases "f mod 64 = 0 \<and> pm_bitmap p ! (f div 64) = - 1")
      case True
      have used: "i \<notin> free_set p" if "f \<le> i" "i < f + 64" for i
      proof -
        have "i div 64 = f div 64" using that True by (metis add.commute div_nat_eqI dvd_div_mult_self dvd_eq_mod_eq_0 mult.commute mult_Suc)
        then show ?thesis using True by (simp add: free_set_def is_used_bit)
      qed
      have rec: "find_run p n run f = find_run p n 0 (f + 64)"
        using in_range True by (subst find_run.simps) simp
      have IH: "case find_run p n 0 (f + 64) of
          Some start \<Rightarrow> 256 \<le> start \<and> {start..<start + n} \<subseteq> free_set p
        | None \<Rightarrow> \<forall>start \<ge> f + 64. \<not> {start..<start + n} \<subseteq> free_set p"
        using 1(1) [OF in_range True, unfolded diff_zero] 1(4-8) by force
      have low: "\<not> {start..<start + n} \<subseteq> free_set p" if "f - run \<le> start" "start < f + 64" for start
        using that used [of f] used [of start] blocked [of start] 1(6)
        by (cases "start \<le> f") (auto dest!: subsetD [of _ _ start])
      show ?thesis
      proof (cases "find_run p n 0 (f + 64)")
        case None
        then have "\<forall>start \<ge> f + 64. \<not> {start..<start + n} \<subseteq> free_set p" using IH by simp
        then have "\<not> {start..<start + n} \<subseteq> free_set p" if "f - run \<le> start" for start
          using low [OF that] by (cases "start < f + 64") (auto simp del: Diff_iff)
        then show ?thesis using None rec by simp
      next
        case (Some start)
        then show ?thesis using IH rec by simp
      qed
    next
      case not_full: False
      show ?thesis
      proof (cases "is_used p f")
        case True
        then have f: "f \<notin> free_set p" by (simp add: free_set_def)
        have rec: "find_run p n run f = find_run p n 0 (Suc f)"
          using in_range not_full True by (subst find_run.simps) auto
        have "case find_run p n 0 (Suc f) of
            Some start \<Rightarrow> 256 \<le> start \<and> {start..<start + n} \<subseteq> free_set p
          | None \<Rightarrow> \<forall>start \<ge> Suc f. \<not> {start..<start + n} \<subseteq> free_set p"
          using 1(2) [OF in_range not_full True, unfolded diff_zero] 1(4-8) by force
        then show ?thesis
          unfolding rec using blocked [OF f] by (cases "find_run p n 0 (Suc f)") (simp_all, metis not_less_eq_eq)
      next
        case free: False
        then have f: "f \<in> free_set p" using in_range by (simp add: free_set_def)
        show ?thesis
        proof (cases "Suc run = n")
          case True
          then have "find_run p n run f = Some (f + 1 - n)"
            using in_range not_full free by (subst find_run.simps) auto
          moreover have "f + 1 - n = f - run" using True by simp
          moreover have "{f - run..<f - run + n} \<subseteq> free_set p"
            using True f 1(7,9) by (auto simp: less_Suc_eq)
          ultimately show ?thesis using 1(8) by simp
        next
          case False
          then have rec: "find_run p n run f = find_run p n (Suc run) (Suc f)"
            using in_range not_full free by (subst find_run.simps) auto
          have "Suc run < n" using False 1(5) by simp
          moreover have "\<forall>i. f - run \<le> i \<and> i < Suc f \<longrightarrow> i \<in> free_set p"
            using 1(9) f by (auto simp: less_Suc_eq)
          ultimately show ?thesis
            unfolding rec using 1(3) [OF in_range not_full free False, unfolded diff_Suc_Suc] 1(4-8) by simp
        qed
      qed
    qed
  qed
qed

lemma fold_set_used:
  assumes "\<forall>f \<in> set fs. f div 64 < length (pm_bitmap p)"
  shows "is_used (fold set_used fs p) g \<longleftrightarrow> g \<in> set fs \<or> is_used p g"
    and "pm_frames (fold set_used fs p) = pm_frames p" "pm_words (fold set_used fs p) = pm_words p"
    "pm_hint (fold set_used fs p) = pm_hint p" "length (pm_bitmap (fold set_used fs p)) = length (pm_bitmap p)"
  using assms by (induction fs arbitrary: p) (auto simp: is_used_set_used)

lemma alloc_many_spec:
  assumes "pmm_inv p" "n \<noteq> 1" "n \<noteq> 0"
  shows "case alloc_many n p of
      (Some pa, p') \<Rightarrow> \<exists>start \<ge> 256. pa = start * FRAME \<and> {start..<start + n} \<subseteq> free_set p \<and> pmm_inv p'
          \<and> free_set p' = free_set p - {start..<start + n} \<and> pm_frames p' = pm_frames p
    | (None, p') \<Rightarrow> p' = p \<and> (\<forall>start \<ge> 256. \<not> {start..<start + n} \<subseteq> free_set p)"
proof -
  have run: "case find_run p n 0 256 of
      Some start \<Rightarrow> 256 \<le> start \<and> {start..<start + n} \<subseteq> free_set p
    | None \<Rightarrow> \<forall>start \<ge> 256. \<not> {start..<start + n} \<subseteq> free_set p"
    using find_run_spec [OF assms(1), of 0 n 256, unfolded diff_zero] assms(2,3) by force
  show ?thesis
  proof (cases "find_run p n 0 256")
    case None
    then show ?thesis using run assms(2) by (simp add: alloc_many_def)
  next
    case (Some start)
    let ?p' = "(fold set_used [start..<start + n] p)\<lparr>pm_free := pm_free p - n\<rparr>"
    have st: "256 \<le> start" "{start..<start + n} \<subseteq> free_set p" using run Some by auto
    have "\<forall>f \<in> set [start..<start + n]. f div 64 < length (pm_bitmap p)"
      using st frame_word [OF assms(1)] by (auto simp: free_set_def subset_iff)
    note fold = fold_set_used [OF this]
    have fs: "free_set ?p' = free_set p - {start..<start + n}"
      by (auto simp: free_set_def fold)
    have "card (free_set p - {start..<start + n}) = card (free_set p) - n"
      using st by (simp add: card_Diff_subset)
    then have "pmm_inv ?p'"
      using assms(1) fs by (simp add: pmm_inv_def fold)
    then show ?thesis
      using Some assms(2) st fs by (auto simp: alloc_many_def fold)
  qed
qed

lemma free_frame_spec:
  assumes "pmm_inv p" "f < pm_frames p"
  shows "pmm_inv (free_frame (f * FRAME) p)" "free_set (free_frame (f * FRAME) p) = insert f (free_set p)"
    "pm_frames (free_frame (f * FRAME) p) = pm_frames p"
proof -
  have w: "f div 64 < length (pm_bitmap p)" using frame_word [OF assms] .
  have eq: "free_frame (f * FRAME) p = (if is_used p f then
      (set_free f p)\<lparr>pm_free := pm_free p + 1, pm_hint := (if f < pm_hint p then f else pm_hint p)\<rparr> else p)"
    using assms(2) by (simp add: free_frame_def Let_def)
  show fr: "pm_frames (free_frame (f * FRAME) p) = pm_frames p" by (simp add: eq)
  have u: "is_used (free_frame (f * FRAME) p) g \<longleftrightarrow> g \<noteq> f \<and> is_used p g" for g
    by (auto simp: eq is_used_set_free [OF w])
  show fs: "free_set (free_frame (f * FRAME) p) = insert f (free_set p)"
    using assms(2) by (auto simp: free_set_def u fr)
  show "pmm_inv (free_frame (f * FRAME) p)"
  proof (cases "is_used p f")
    case False
    then show ?thesis using assms(1) by (simp add: eq)
  next
    case True
    then have "f \<notin> free_set p" by (simp add: free_set_def)
    then have "pm_free (free_frame (f * FRAME) p) = card (free_set (free_frame (f * FRAME) p))"
      unfolding fs using assms(1) True by (simp add: eq pmm_inv_def)
    moreover have "\<forall>g. pm_frames p \<le> g \<and> g < pm_words p * 64 \<longrightarrow> is_used (free_frame (f * FRAME) p) g"
      using assms by (auto simp: u pmm_inv_def)
    ultimately show ?thesis using assms True by (auto simp: pmm_inv_def eq)
  qed
qed

section \<open>What the owner of frames can rely on\<close>

text \<open>
  A client that allocates single frames and returns frames it owns (the one at an index of its
  list). The run returns the pool and the frames it owns at the end.
\<close>

datatype frame_op = AllocFrame | FreeOwned nat

fun frame_run :: "('s \<Rightarrow> nat option \<times> 's) \<Rightarrow> (nat \<Rightarrow> 's \<Rightarrow> 's) \<Rightarrow> 's \<Rightarrow> nat list \<Rightarrow> frame_op list \<Rightarrow> 's \<times> nat list" where
  "frame_run al fr s owned [] = (s, owned)"
| "frame_run al fr s owned (AllocFrame # ops) =
     (case al s of (None, s') \<Rightarrow> frame_run al fr s' owned ops | (Some f, s') \<Rightarrow> frame_run al fr s' (f # owned) ops)"
| "frame_run al fr s owned (FreeOwned i # ops) =
     (if i < length owned then frame_run al fr (fr (owned ! i) s) (take i owned @ drop (Suc i) owned) ops
      else frame_run al fr s owned ops)"

locale frame_pool =
  fixes al :: "'s \<Rightarrow> nat option \<times> 's"
    and fr :: "nat \<Rightarrow> 's \<Rightarrow> 's"
    and avail :: "'s \<Rightarrow> nat set"
    and universe :: "'s \<Rightarrow> nat set"
    and invar :: "'s \<Rightarrow> bool"
  assumes al_some: "invar s \<Longrightarrow> al s = (Some f, s') \<Longrightarrow>
      f \<in> avail s \<and> avail s' = avail s - {f} \<and> universe s' = universe s \<and> invar s'"
    and al_none: "invar s \<Longrightarrow> al s = (None, s') \<Longrightarrow> avail s = {} \<and> s' = s"
    and fr_law: "invar s \<Longrightarrow> f \<in> universe s \<Longrightarrow>
      avail (fr f s) = insert f (avail s) \<and> universe (fr f s) = universe s \<and> invar (fr f s)"
    and avail_universe: "invar s \<Longrightarrow> avail s \<subseteq> universe s"
begin

lemma run_owned:
  assumes "invar s" "distinct owned" "set owned \<inter> avail s = {}" "set owned \<subseteq> universe s"
    "frame_run al fr s owned ops = (s', owned')"
  shows "invar s' \<and> distinct owned' \<and> set owned' \<inter> avail s' = {}
    \<and> set owned' \<union> avail s' = set owned \<union> avail s"
  using assms
proof (induction ops arbitrary: s owned)
  case (Cons op ops)
  show ?case
  proof (cases op)
    case AllocFrame
    obtain r s1 where al: "al s = (r, s1)" by (cases "al s")
    show ?thesis
    proof (cases r)
      case None
      then show ?thesis using Cons AllocFrame al al_none [OF Cons.prems(1)] by simp
    next
      case (Some f)
      then have f: "f \<in> avail s" "avail s1 = avail s - {f}" "universe s1 = universe s" "invar s1"
        using al_some [OF Cons.prems(1)] al by blast+
      have rec: "frame_run al fr s1 (f # owned) ops = (s', owned')"
        using Cons.prems(5) AllocFrame al Some by simp
      have o: "distinct (f # owned)" "set (f # owned) \<inter> avail s1 = {}" "set (f # owned) \<subseteq> universe s1"
        using Cons.prems f avail_universe [OF Cons.prems(1)] by auto
      have "set (f # owned) \<union> avail s1 = set owned \<union> avail s" using f(1,2) by auto
      then show ?thesis using Cons.IH [OF f(4) o rec] by simp
    qed
  next
    case (FreeOwned i)
    show ?thesis
    proof (cases "i < length owned")
      case False
      then show ?thesis using Cons FreeOwned by simp
    next
      case True
      let ?f = "owned ! i" and ?o = "take i owned @ drop (Suc i) owned"
      have split: "owned = take i owned @ ?f # drop (Suc i) owned" using True by (rule id_take_nth_drop)
      have d: "distinct (take i owned @ ?f # drop (Suc i) owned)" using Cons.prems(2) split by simp
      then have o: "distinct ?o" "?f \<notin> set ?o" by auto
      have set_o: "set owned = insert ?f (set ?o)" by (subst split) auto
      have fr: "avail (fr ?f s) = insert ?f (avail s)" "universe (fr ?f s) = universe s" "invar (fr ?f s)"
        using fr_law [OF Cons.prems(1), of ?f] Cons.prems(4) True by (simp_all add: subset_iff)
      have rec: "frame_run al fr (fr ?f s) ?o ops = (s', owned')"
        using Cons.prems(5) FreeOwned True by simp
      have av: "set ?o \<inter> avail (fr ?f s) = {}" "set ?o \<subseteq> universe (fr ?f s)"
        using Cons.prems(3,4) o(2) fr(1,2) unfolding set_o by auto
      have "set ?o \<union> avail (fr ?f s) = set owned \<union> avail s" unfolding set_o fr(1) by auto
      then show ?thesis using Cons.IH [OF fr(3) o(1) av rec] by simp
    qed
  qed
qed auto

end

definition alloc_number :: "pmm \<Rightarrow> nat option \<times> pmm" where
  "alloc_number p = apfst (map_option (\<lambda>pa. pa div FRAME)) (alloc_one p)"

definition free_number :: "nat \<Rightarrow> pmm \<Rightarrow> pmm" where
  "free_number f p = free_frame (f * FRAME) p"

interpretation fp: frame_pool alloc_number free_number free_set "\<lambda>p. {..<pm_frames p}" pmm_inv
proof
  show "f \<in> free_set s \<and> free_set s' = free_set s - {f} \<and> {..<pm_frames s'} = {..<pm_frames s} \<and> pmm_inv s'"
    if inv: "pmm_inv s" and al: "alloc_number s = (Some f, s')" for s f s'
  proof -
    obtain pa where one: "alloc_one s = (Some pa, s')" and f: "f = pa div FRAME"
      using al by (cases "alloc_one s") (auto simp: alloc_number_def)
    obtain g where "g \<in> free_set s" "pa = g * FRAME" "pmm_inv s'" "free_set s' = free_set s - {g}"
      "pm_frames s' = pm_frames s"
      using alloc_one_spec [OF inv] unfolding one by auto
    moreover have "FRAME \<noteq> 0" by (simp add: FRAME_def)
    ultimately show ?thesis using f by simp
  qed
  show "free_set s = {} \<and> s' = s" if "pmm_inv s" "alloc_number s = (None, s')" for s s'
  proof -
    have "alloc_one s = (None, s')" using that(2) by (cases "alloc_one s") (auto simp: alloc_number_def)
    then show ?thesis using alloc_one_spec [OF that(1)] by simp
  qed
  show "free_set (free_number f s) = insert f (free_set s) \<and> {..<pm_frames (free_number f s)} = {..<pm_frames s}
      \<and> pmm_inv (free_number f s)" if "pmm_inv s" "f \<in> {..<pm_frames s}" for s f
    using free_frame_spec [of s f] that by (simp add: free_number_def)
  show "free_set s \<subseteq> {..<pm_frames s}" if "pmm_inv s" for s
    by (auto simp: free_set_def)
qed

section \<open>Properties\<close>

text \<open>
  C3. Frames are never handed out twice and never lost: over any sequence of allocations and of
  frees of frames it owns, a client's frames stay distinct and disjoint from the free ones, the two
  together remain the frames it started with, and the free counter stays exact.
\<close>

theorem frames_exclusive:
  assumes "pmm_inv p" "frame_run alloc_number free_number p [] ops = (p', owned)"
  shows "distinct owned \<and> set owned \<inter> free_set p' = {} \<and> set owned \<union> free_set p' = free_set p
    \<and> pm_free p' + length owned = pm_free p \<and> pmm_inv p'"
proof -
  have r: "pmm_inv p'" "distinct owned" "set owned \<inter> free_set p' = {}" "set owned \<union> free_set p' = free_set p"
    using fp.run_owned [OF assms(1) _ _ _ assms(2)] by auto
  have "card (set owned \<union> free_set p') = length owned + card (free_set p')"
    using r(2,3) by (simp add: card_Un_disjoint distinct_card)
  then show ?thesis using r assms(1) by (simp add: pmm_inv_def)
qed

text \<open>A pool of 300 frames, all in use but the last two.\<close>

definition demo_pmm :: pmm where
  "demo_pmm = free_frame (299 * FRAME) (free_frame (298 * FRAME)
     \<lparr>pm_bitmap = replicate 5 (- 1), pm_words = 5, pm_frames = 300, pm_free = 0, pm_total_usable = 300, pm_hint = 0\<rparr>)"

lemma demo_full:
  "pmm_inv \<lparr>pm_bitmap = replicate 5 (- 1), pm_words = 5, pm_frames = 300, pm_free = 0, pm_total_usable = 300, pm_hint = 0\<rparr>
   \<and> free_set \<lparr>pm_bitmap = replicate 5 (- 1), pm_words = 5, pm_frames = 300, pm_free = 0, pm_total_usable = 300, pm_hint = 0\<rparr> = {}"
proof -
  let ?p = "\<lparr>pm_bitmap = replicate 5 (- 1), pm_words = 5, pm_frames = 300, pm_free = 0, pm_total_usable = 300, pm_hint = 0\<rparr>"
  have u: "is_used ?p f" if "f < 320" for f
  proof -
    have "f div 64 < 5" using that by (simp add: less_mult_imp_div_less)
    then show ?thesis by (simp only: is_used_bit nth_replicate pmm.select_convs) simp
  qed
  then have "free_set ?p = {}" by (auto simp: free_set_def)
  then show ?thesis using u by (simp add: pmm_inv_def)
qed

lemma demo_pmm_facts: "pmm_inv demo_pmm" "free_set demo_pmm = {298, 299}"
proof -
  let ?p = "\<lparr>pm_bitmap = replicate 5 (- 1), pm_words = 5, pm_frames = 300, pm_free = 0, pm_total_usable = 300, pm_hint = 0\<rparr>"
  have p: "pmm_inv ?p" "free_set ?p = {}" using demo_full by auto
  let ?q = "free_frame (298 * FRAME) ?p"
  have q: "pmm_inv ?q" "free_set ?q = {298}" "pm_frames ?q = 300"
    using free_frame_spec [OF p(1), of 298] p(2) by simp_all
  show "pmm_inv demo_pmm" "free_set demo_pmm = {298, 299}"
    using free_frame_spec [OF q(1), of 299] q by (auto simp: demo_pmm_def)
qed

theorem frames_exclusive_witness:
  "\<exists>p' owned. frame_run alloc_number free_number demo_pmm [] [AllocFrame, AllocFrame, FreeOwned 1, AllocFrame, AllocFrame] = (p', owned)
     \<and> distinct owned \<and> set owned \<union> free_set p' = {298, 299}"
  using frames_exclusive [OF demo_pmm_facts(1)] demo_pmm_facts(2)
  by (metis surj_pair)

text \<open>
  Allocation is complete: a single frame is refused only when none is free, and a request for
  several frames only when there is no run of that many free frames above the first megabyte; a
  granted run is exactly that many consecutive free frames, and no other frame changes.
\<close>

theorem allocation_complete:
  assumes "pmm_inv p" "1 < n"
  shows "(fst (alloc_one p) = None \<longleftrightarrow> pm_free p = 0)
    \<and> (fst (alloc_many n p) = None \<longleftrightarrow> (\<forall>start \<ge> 256. \<not> {start..<start + n} \<subseteq> free_set p))
    \<and> (\<forall>pa p'. alloc_many n p = (Some pa, p') \<longrightarrow>
        (\<exists>start \<ge> 256. pa = start * FRAME \<and> {start..<start + n} \<subseteq> free_set p
          \<and> free_set p' = free_set p - {start..<start + n} \<and> pmm_inv p'))"
proof -
  have "fst (alloc_one p) = None \<longleftrightarrow> free_set p = {}"
    using alloc_one_spec [OF assms(1)] by (cases "alloc_one p") (auto split: option.splits)
  moreover have "pm_free p = 0 \<longleftrightarrow> free_set p = {}"
    using assms(1) by (simp add: pmm_inv_def)
  moreover have "n \<noteq> 1" "n \<noteq> 0" using assms(2) by auto
  note alloc_many_spec [OF assms(1) this]
  then have "fst (alloc_many n p) = None \<longleftrightarrow> (\<forall>start \<ge> 256. \<not> {start..<start + n} \<subseteq> free_set p)"
    "\<forall>pa p'. alloc_many n p = (Some pa, p') \<longrightarrow>
        (\<exists>start \<ge> 256. pa = start * FRAME \<and> {start..<start + n} \<subseteq> free_set p
          \<and> free_set p' = free_set p - {start..<start + n} \<and> pmm_inv p')"
    by (cases "alloc_many n p"; auto split: option.splits)+
  ultimately show ?thesis by simp
qed

theorem allocation_complete_witness:
  "fst (alloc_many 2 demo_pmm) \<noteq> None \<and> fst (alloc_one demo_pmm) \<noteq> None"
proof -
  have "1 < (2 :: nat)" by simp
  note complete = allocation_complete [OF demo_pmm_facts(1) this]
  have "{298..<298 + 2} \<subseteq> free_set demo_pmm" by (auto simp: demo_pmm_facts)
  then have "fst (alloc_many 2 demo_pmm) \<noteq> None"
    unfolding complete [THEN conjunct2, THEN conjunct1] by (auto intro!: exI [of _ 298])
  moreover have "fst (alloc_one demo_pmm) \<noteq> None"
    unfolding complete [THEN conjunct1] using demo_pmm_facts by (simp add: pmm_inv_def)
  ultimately show ?thesis ..
qed

end
