(* ===== verification/Addrspace.thy ===== *)
theory Addrspace
  imports Frames
begin

text \<open>
  User address spaces, src/research/kernel-rs/kernel/src/mm/addrspace.rs: the ordered map of virtual
  memory areas and its operations (\<open>mmap\<close>, \<open>munmap\<close>, \<open>mprotect\<close>, \<open>brk\<close>), the range checks, page
  faults with copy-on-write, \<open>fork\<close> and tear-down.

  Addresses are naturals below \<open>2 ^ 64\<close> and the additions the source does without a check wrap, as
  in its release profile (\<open>wadd\<close>). The four-level page table of mm/vmm.rs appears as the partial
  function it represents, from page numbers to the physical address and the flags of the entry; an
  entry is always installable. TLB flushes have no counterpart. The page cache of an inode
  (\<open>Inode::get_page\<close>, a trait method) is a parameter of the operations that fault pages in.
\<close>

section \<open>Addresses\<close>

definition PAGE_SIZE :: nat where "PAGE_SIZE = 4096"
definition USER_TOP :: nat where "USER_TOP = 0x800000000000"
definition MMAP_MIN :: nat where "MMAP_MIN = 0x10000"
definition MMAP_TOP :: nat where "MMAP_TOP = 0x7f0000000000"

definition wadd :: "nat \<Rightarrow> nat \<Rightarrow> nat" where
  "wadd a b = (a + b) mod 2 ^ 64"

definition page_align_down :: "nat \<Rightarrow> nat" where
  "page_align_down x = x div PAGE_SIZE * PAGE_SIZE"

definition page_align_up :: "nat \<Rightarrow> nat" where
  "page_align_up x = page_align_down (wadd x (PAGE_SIZE - 1))"

definition PROT_READ :: u32 where "PROT_READ = 1"
definition PROT_WRITE :: u32 where "PROT_WRITE = 2"
definition PROT_EXEC :: u32 where "PROT_EXEC = 4"
definition MAP_SHARED :: u32 where "MAP_SHARED = 0x01"
definition MAP_FIXED :: u32 where "MAP_FIXED = 0x10"
definition MAP_FIXED_NOREPLACE :: u32 where "MAP_FIXED_NOREPLACE = 0x100000"

definition PRESENT :: u64 where "PRESENT = push_bit 0 1"
definition WRITABLE :: u64 where "WRITABLE = push_bit 1 1"
definition USER :: u64 where "USER = push_bit 2 1"
definition WRITE_THROUGH :: u64 where "WRITE_THROUGH = push_bit 3 1"
definition NO_CACHE :: u64 where "NO_CACHE = push_bit 4 1"
definition ACCESSED :: u64 where "ACCESSED = push_bit 5 1"
definition DIRTY :: u64 where "DIRTY = push_bit 6 1"
definition COW :: u64 where "COW = push_bit 9 1"
definition NX :: u64 where "NX = push_bit 63 1"

definition has :: "'a::len word \<Rightarrow> 'a word \<Rightarrow> bool" where
  "has f m \<longleftrightarrow> f AND m \<noteq> 0"

section \<open>Areas\<close>

datatype backing = Anon | FileB (fb_inode: nat) (fb_offset: nat) | Phys (ph_base: nat) (ph_wc: bool)

record vma =
  v_start :: nat
  v_end :: nat
  v_prot :: u32
  v_shared :: bool
  v_backing :: backing
  v_name :: string

definition contains :: "vma \<Rightarrow> nat \<Rightarrow> bool" where
  "contains v a \<longleftrightarrow> v_start v \<le> a \<and> a < v_end v"

definition pte_flags :: "vma \<Rightarrow> u64" where
  "pte_flags v =
     (let f = PRESENT OR USER;
          f = if has (v_prot v) PROT_WRITE then f OR WRITABLE else f
      in if \<not> has (v_prot v) PROT_EXEC then f OR NX else f)"

text \<open>The backing of the part of an area that begins \<open>d\<close> bytes into it.\<close>

fun shift_backing :: "nat \<Rightarrow> backing \<Rightarrow> backing" where
  "shift_backing d Anon = Anon"
| "shift_backing d (FileB inode offset) = FileB inode (wadd offset d)"
| "shift_backing d (Phys base wc) = Phys (wadd base d) wc"

text \<open>
  The \<open>BTreeMap<usize, Vma>\<close>, as the list of its values in key order; every insertion of the source
  uses the area's own start as the key.
\<close>

fun bt_insert :: "vma \<Rightarrow> vma list \<Rightarrow> vma list" where
  "bt_insert v [] = [v]"
| "bt_insert v (u # us) =
     (if v_start v < v_start u then v # u # us
      else if v_start v = v_start u then v # us
      else u # bt_insert v us)"

definition bt_remove :: "nat \<Rightarrow> vma list \<Rightarrow> vma list" where
  "bt_remove k vs = filter (\<lambda>v. v_start v \<noteq> k) vs"

definition bt_get :: "nat \<Rightarrow> vma list \<Rightarrow> vma option" where
  "bt_get k vs = List.find (\<lambda>v. v_start v = k) vs"

text \<open>\<open>range(..e).next_back()\<close>.\<close>

definition last_below :: "nat \<Rightarrow> vma list \<Rightarrow> vma option" where
  "last_below e vs = (case filter (\<lambda>v. v_start v < e) vs of [] \<Rightarrow> None | us \<Rightarrow> Some (last us))"

definition find_vma :: "vma list \<Rightarrow> nat \<Rightarrow> vma option" where
  "find_vma vs addr =
     (case last_below (addr + 1) vs of Some v \<Rightarrow> if contains v addr then Some v else None | None \<Rightarrow> None)"

definition range_free :: "vma list \<Rightarrow> nat \<Rightarrow> nat \<Rightarrow> bool" where
  "range_free vs start e = (case last_below e vs of Some v \<Rightarrow> v_end v \<le> start | None \<Rightarrow> True)"

lemma last_below_SomeD:
  assumes "last_below e vs = Some v"
  shows "v \<in> set vs" "v_start v < e"
proof -
  obtain us where us: "filter (\<lambda>v. v_start v < e) vs = us" "us \<noteq> []" "v = last us"
    using assms by (auto simp: last_below_def split: list.splits)
  then have "v \<in> set (filter (\<lambda>v. v_start v < e) vs)" by auto
  then show "v \<in> set vs" "v_start v < e" by auto
qed

function gap_loop :: "vma list \<Rightarrow> nat \<Rightarrow> nat \<Rightarrow> nat option" where
  "gap_loop vs len hi =
     (if hi < len then None
      else if hi - len < MMAP_MIN then None
      else case last_below hi vs of
        None \<Rightarrow> Some (hi - len)
      | Some v \<Rightarrow> if hi - len < v_end v then gap_loop vs len (v_start v) else Some (hi - len))"
  by pat_completeness auto
termination by (relation "measure (\<lambda>(vs, len, hi). hi)") (auto dest: last_below_SomeD)

declare gap_loop.simps [simp del]

definition find_gap :: "vma list \<Rightarrow> nat \<Rightarrow> nat \<Rightarrow> nat option" where
  "find_gap vs len hint = gap_loop vs len (min hint MMAP_TOP)"

section \<open>An address space and the machine beneath it\<close>

record aspace =
  as_vmas :: "vma list"
  as_brk_start :: nat
  as_brk :: nat
  as_mmap_hint :: nat
  as_rss :: nat
  as_ptab :: "nat \<Rightarrow> (nat \<times> u64) option"

record machine =
  mc_frames :: frames_state
  mc_mem :: "nat \<Rightarrow> u8 list"  \<comment> \<open>the contents of each physical frame\<close>

definition aspace_new :: aspace where
  "aspace_new = \<lparr>as_vmas = [], as_brk_start = 0, as_brk = 0, as_mmap_hint = MMAP_TOP, as_rss = 0,
     as_ptab = (\<lambda>_. None)\<rparr>"

definition pt_translate :: "aspace \<Rightarrow> nat \<Rightarrow> (nat \<times> u64) option" where
  "pt_translate a va = as_ptab a (va div PAGE_SIZE)"

text \<open>The physical address is that of a frame or of device memory, page aligned and below \<open>2 ^ 52\<close>; \<open>ADDR_MASK\<close> keeps it whole.\<close>

definition pt_map :: "nat \<Rightarrow> nat \<Rightarrow> u64 \<Rightarrow> aspace \<Rightarrow> aspace" where
  "pt_map va pa flags a = a\<lparr>as_ptab := (as_ptab a)(va div PAGE_SIZE := Some (pa, flags OR PRESENT))\<rparr>"

definition pt_unmap :: "nat \<Rightarrow> aspace \<Rightarrow> aspace" where
  "pt_unmap va a = a\<lparr>as_ptab := (as_ptab a)(va div PAGE_SIZE := None)\<rparr>"

definition mc_ref_dec :: "nat \<Rightarrow> machine \<Rightarrow> machine" where
  "mc_ref_dec pa m = m\<lparr>mc_frames := ref_dec pa (mc_frames m)\<rparr>"

definition mc_ref_inc :: "nat \<Rightarrow> machine \<Rightarrow> machine" where
  "mc_ref_inc pa m = m\<lparr>mc_frames := ref_inc pa (mc_frames m)\<rparr>"

section \<open>Unmapping\<close>

definition unmap_page :: "nat \<Rightarrow> aspace \<times> machine \<Rightarrow> aspace \<times> machine" where
  "unmap_page va s =
     (case pt_translate (fst s) va of
        None \<Rightarrow> s
      | Some (pa, f) \<Rightarrow>
          if has f PRESENT then
            ((pt_unmap va (fst s))\<lparr>as_rss := as_rss (fst s) - 1\<rparr>, mc_ref_dec pa (snd s))
          else s)"

text \<open>The addresses \<open>lo\<close>, \<open>lo + PAGE_SIZE\<close>, \<dots> below \<open>hi\<close>, which the page loops of the source visit.\<close>

function pages_from :: "nat \<Rightarrow> nat \<Rightarrow> nat list" where
  "pages_from lo hi = (if lo < hi then lo # pages_from (lo + PAGE_SIZE) hi else [])"
  by pat_completeness auto
termination by (relation "measure (\<lambda>(lo, hi). hi - lo)") (auto simp: PAGE_SIZE_def)

declare pages_from.simps [simp del]

definition unmap_pages :: "nat \<Rightarrow> nat \<Rightarrow> aspace \<times> machine \<Rightarrow> aspace \<times> machine" where
  "unmap_pages lo hi s = fold unmap_page (pages_from lo hi) s"

definition on_vmas :: "(vma list \<Rightarrow> vma list) \<Rightarrow> aspace \<Rightarrow> aspace" where
  "on_vmas g a = a\<lparr>as_vmas := g (as_vmas a)\<rparr>"

text \<open>One affected area of \<open>unmap_locked\<close>: its left and right remainders.\<close>

definition carve :: "nat \<Rightarrow> nat \<Rightarrow> vma \<Rightarrow> vma list \<Rightarrow> vma list" where
  "carve addr e v vs =
     (let vs = bt_remove (v_start v) vs;
          vs = (if v_start v < addr then bt_insert (v\<lparr>v_end := addr\<rparr>) vs else vs)
      in if e < v_end v
         then bt_insert (v\<lparr>v_start := e, v_backing := shift_backing (e - v_start v) (v_backing v)\<rparr>) vs
         else vs)"

definition affected :: "nat \<Rightarrow> nat \<Rightarrow> vma list \<Rightarrow> nat list" where
  "affected addr e vs = map v_start (filter (\<lambda>v. v_start v < e \<and> addr < v_end v) vs)"

text \<open>The source unwraps the removed area: its key was read from the map under the same lock.\<close>

definition unmap_area :: "nat \<Rightarrow> nat \<Rightarrow> nat \<Rightarrow> aspace \<times> machine \<Rightarrow> aspace \<times> machine" where
  "unmap_area addr e k s =
     (case bt_get k (as_vmas (fst s)) of
        None \<Rightarrow> s
      | Some v \<Rightarrow>
          unmap_pages (max (v_start v) addr) (min (v_end v) e) (on_vmas (carve addr e v) (fst s), snd s))"

definition unmap_locked :: "nat \<Rightarrow> nat \<Rightarrow> aspace \<times> machine \<Rightarrow> aspace \<times> machine" where
  "unmap_locked addr len s =
     (let e = wadd addr len in fold (unmap_area addr e) (affected addr e (as_vmas (fst s))) s)"

definition munmap :: "nat \<Rightarrow> nat \<Rightarrow> aspace \<times> machine \<Rightarrow> unit kresult \<times> aspace \<times> machine" where
  "munmap addr len s =
     (if addr mod PAGE_SIZE \<noteq> 0 \<or> len = 0 then (Inl EINVAL, s)
      else (Inr (), unmap_locked addr (page_align_up len) s))"

section \<open>Mapping\<close>

text \<open>The choice of the start; \<open>n\<close> is the rounded length. \<open>MAP_FIXED\<close> first unmaps the range.\<close>

definition mmap_place :: "nat \<Rightarrow> nat \<Rightarrow> u32 \<Rightarrow> aspace \<times> machine \<Rightarrow> nat kresult \<times> aspace \<times> machine" where
  "mmap_place addr n flags s =
     (if has flags MAP_FIXED then
        (if addr mod PAGE_SIZE \<noteq> 0 \<or> USER_TOP < wadd addr n then (Inl EINVAL, s)
         else if has flags MAP_FIXED_NOREPLACE \<and> \<not> range_free (as_vmas (fst s)) addr (wadd addr n) then (Inl EEXIST, s)
         else (Inr addr, unmap_locked addr n s))
      else if addr \<noteq> 0 \<and> addr mod PAGE_SIZE = 0 \<and> wadd addr n \<le> USER_TOP \<and> MMAP_MIN \<le> addr
          \<and> range_free (as_vmas (fst s)) addr (wadd addr n) then (Inr addr, s)
      else case find_gap (as_vmas (fst s)) n (as_mmap_hint (fst s)) of
          None \<Rightarrow> (Inl ENOMEM, s)
        | Some g \<Rightarrow> (Inr g, (fst s)\<lparr>as_mmap_hint := g\<rparr>, snd s))"

definition fresh_vma :: "nat \<Rightarrow> nat \<Rightarrow> u32 \<Rightarrow> u32 \<Rightarrow> backing \<Rightarrow> string \<Rightarrow> vma" where
  "fresh_vma start len prot flags backing name =
     \<lparr>v_start = start, v_end = wadd start len, v_prot = prot, v_shared = has flags MAP_SHARED,
      v_backing = backing, v_name = name\<rparr>"

definition mmap :: "nat \<Rightarrow> nat \<Rightarrow> u32 \<Rightarrow> u32 \<Rightarrow> backing \<Rightarrow> string \<Rightarrow> aspace \<times> machine
    \<Rightarrow> nat kresult \<times> aspace \<times> machine" where
  "mmap addr len prot flags backing name s =
     (if len = 0 then (Inl EINVAL, s)
      else
        (let n = page_align_up len in
         case mmap_place addr n flags s of
           (Inl e, s') \<Rightarrow> (Inl e, s')
         | (Inr start, s') \<Rightarrow>
             (Inr start, on_vmas (bt_insert (fresh_vma start n prot flags backing name)) (fst s'), snd s')))"

section \<open>Protection\<close>

definition split_at :: "nat \<Rightarrow> vma list \<Rightarrow> vma list" where
  "split_at p vs =
     (case find_vma vs p of
        None \<Rightarrow> vs
      | Some v \<Rightarrow>
          if v_start v \<noteq> p then
            bt_insert (v\<lparr>v_start := p, v_backing := shift_backing (p - v_start v) (v_backing v)\<rparr>)
              (bt_insert (v\<lparr>v_end := p\<rparr>) vs)
          else vs)"

text \<open>\<open>PROT_KEEP\<close> are the bits of an entry that \<open>mprotect\<close> carries over.\<close>

definition PROT_KEEP :: u64 where
  "PROT_KEEP = COW OR ACCESSED OR DIRTY OR WRITE_THROUGH OR NO_CACHE"

definition reprotect_page :: "u64 \<Rightarrow> nat \<Rightarrow> aspace \<Rightarrow> aspace" where
  "reprotect_page base_flags va a =
     (case pt_translate a va of
        None \<Rightarrow> a
      | Some (pa, f) \<Rightarrow>
          (let nf = base_flags OR (f AND PROT_KEEP) in
           pt_map va pa (if has f COW then nf AND NOT WRITABLE else nf) a))"

definition reprotect_area :: "u32 \<Rightarrow> nat \<Rightarrow> aspace \<Rightarrow> aspace" where
  "reprotect_area prot k a =
     (case bt_get k (as_vmas a) of
        None \<Rightarrow> a
      | Some v \<Rightarrow>
          (let v = v\<lparr>v_prot := prot\<rparr> in
           fold (reprotect_page (pte_flags v)) (pages_from (v_start v) (v_end v)) (on_vmas (bt_insert v) a)))"

text \<open>\<open>None\<close> is the panic of \<open>BTreeMap::range\<close> on a range whose start is past its end.\<close>

definition mprotect :: "nat \<Rightarrow> nat \<Rightarrow> u32 \<Rightarrow> aspace \<Rightarrow> (unit kresult \<times> aspace) option" where
  "mprotect addr len prot a =
     (if addr mod PAGE_SIZE \<noteq> 0 then Some (Inl EINVAL, a)
      else
        (let e = wadd addr (page_align_up len);
             a = on_vmas (split_at e \<circ> split_at addr) a
         in if e < addr then None
            else Some (Inr (), fold (reprotect_area prot)
              (map v_start (filter (\<lambda>v. addr \<le> v_start v \<and> v_start v < e) (as_vmas a))) a)))"

section \<open>The heap\<close>

definition heap_vma :: "nat \<Rightarrow> nat \<Rightarrow> vma" where
  "heap_vma s e = \<lparr>v_start = s, v_end = e, v_prot = PROT_READ OR PROT_WRITE, v_shared = False,
     v_backing = Anon, v_name = ''[heap]''\<rparr>"

definition grow_heap :: "nat \<Rightarrow> nat \<Rightarrow> nat \<Rightarrow> vma list \<Rightarrow> vma list" where
  "grow_heap start cur_end new_end vs =
     (case bt_get start vs of
        Some v \<Rightarrow> if v_end v = cur_end then bt_insert (v\<lparr>v_end := new_end\<rparr>) vs
                  else bt_insert (heap_vma cur_end new_end) vs
      | None \<Rightarrow> bt_insert (heap_vma cur_end new_end) vs)"

definition brk :: "nat \<Rightarrow> aspace \<times> machine \<Rightarrow> nat \<times> aspace \<times> machine" where
  "brk new_brk s =
     (let a = fst s; cur = as_brk a in
      if new_brk = 0 \<or> new_brk < as_brk_start a then (cur, s)
      else
        (let new_end = page_align_up new_brk; cur_end = page_align_up cur in
         if cur_end < new_end then
           (if \<not> range_free (as_vmas a) cur_end new_end \<or> MMAP_TOP < new_end then (cur, s)
            else (new_brk, (on_vmas (grow_heap (as_brk_start a) cur_end new_end) a)\<lparr>as_brk := new_brk\<rparr>, snd s))
         else if new_end < cur_end then
           (let s' = unmap_locked new_end (cur_end - new_end) s in (new_brk, (fst s')\<lparr>as_brk := new_brk\<rparr>, snd s'))
         else (new_brk, a\<lparr>as_brk := new_brk\<rparr>, snd s)))"

definition set_brk_start :: "nat \<Rightarrow> aspace \<Rightarrow> aspace" where
  "set_brk_start addr a = a\<lparr>as_brk_start := page_align_up addr, as_brk := page_align_up addr\<rparr>"

section \<open>Range checks\<close>

definition grants :: "vma \<Rightarrow> bool \<Rightarrow> bool" where
  "grants v wr \<longleftrightarrow> (if wr then has (v_prot v) PROT_WRITE else has (v_prot v) PROT_READ)"

text \<open>The loop of \<open>check_range\<close>; an area found at \<open>va\<close> ends past it, so the loop advances.\<close>

function check_loop :: "vma list \<Rightarrow> nat \<Rightarrow> nat \<Rightarrow> bool \<Rightarrow> unit kresult" where
  "check_loop vs va e wr =
     (if va < e then
        (case find_vma vs va of
           None \<Rightarrow> Inl EFAULT
         | Some v \<Rightarrow> if \<not> grants v wr then Inl EFAULT else check_loop vs (v_end v) e wr)
      else Inr ())"
  by pat_completeness auto
termination
  by (relation "measure (\<lambda>(vs, va, e, wr). e - va)")
    (auto simp: find_vma_def contains_def split: option.splits if_splits)

declare check_loop.simps [simp del]

definition check_range :: "aspace \<Rightarrow> nat \<Rightarrow> nat \<Rightarrow> bool \<Rightarrow> unit kresult" where
  "check_range a addr len wr =
     (if len = 0 then Inr ()
      else if 2 ^ 64 \<le> addr + len then Inl EFAULT
      else if USER_TOP < addr + len then Inl EFAULT
      else check_loop (as_vmas a) addr (addr + len) wr)"

section \<open>Page faults\<close>

type_synonym page_cache = "nat \<Rightarrow> nat \<Rightarrow> machine \<Rightarrow> nat kresult \<times> machine"

text \<open>\<open>pmm::alloc_frame_ref\<close>, and \<open>alloc_zeroed_ref\<close>, which also clears the frame.\<close>

definition mc_alloc :: "machine \<Rightarrow> nat option \<times> machine" where
  "mc_alloc m = (case alloc_frame_ref (mc_frames m) of (r, fs) \<Rightarrow> (r, m\<lparr>mc_frames := fs\<rparr>))"

definition mc_alloc_zeroed :: "machine \<Rightarrow> nat option \<times> machine" where
  "mc_alloc_zeroed m =
     (case mc_alloc m of
        (None, m) \<Rightarrow> (None, m)
      | (Some pa, m) \<Rightarrow> (Some pa, m\<lparr>mc_mem := (mc_mem m)(pa div FRAME := replicate PAGE_SIZE 0)\<rparr>))"

definition mc_copy :: "nat \<Rightarrow> nat \<Rightarrow> machine \<Rightarrow> machine" where
  "mc_copy src dst m = m\<lparr>mc_mem := (mc_mem m)(dst div FRAME := mc_mem m (src div FRAME))\<rparr>"

text \<open>The copy-on-write step for a present entry that a write hits.\<close>

definition cow_page :: "nat \<Rightarrow> nat \<Rightarrow> u64 \<Rightarrow> aspace \<times> machine \<Rightarrow> unit kresult \<times> aspace \<times> machine" where
  "cow_page va pa f s =
     (if ref_count (mc_frames (snd s)) pa = 1 then
        (Inr (), pt_map va pa ((f AND NOT COW) OR WRITABLE) (fst s), snd s)
      else case mc_alloc (snd s) of
          (None, m) \<Rightarrow> (Inl ENOMEM, fst s, m)
        | (Some np, m) \<Rightarrow>
            (Inr (), pt_map va np ((f AND NOT COW) OR WRITABLE) (fst s), mc_ref_dec pa (mc_copy pa np m)))"

definition fault_in :: "page_cache \<Rightarrow> vma \<Rightarrow> nat \<Rightarrow> bool \<Rightarrow> aspace \<times> machine \<Rightarrow> unit kresult \<times> aspace \<times> machine" where
  "fault_in get_page v va wr s =
     (let a = fst s; flags = pte_flags v; resident = (\<lambda>a. a\<lparr>as_rss := as_rss a + 1\<rparr>) in
      case v_backing v of
        Anon \<Rightarrow>
          (case mc_alloc_zeroed (snd s) of
             (None, m) \<Rightarrow> (Inl ENOMEM, a, m)
           | (Some pa, m) \<Rightarrow> (Inr (), resident (pt_map va pa flags a), m))
      | Phys base wc \<Rightarrow>
          (let f = if wc then flags OR WRITE_THROUGH else flags OR (NO_CACHE OR WRITE_THROUGH)
           in (Inr (), pt_map va (wadd base (va - v_start v)) f a, snd s))
      | FileB inode offset \<Rightarrow>
          (case get_page inode (wadd offset (va - v_start v) div PAGE_SIZE) (snd s) of
             (Inl e, m) \<Rightarrow> (Inl e, a, m)
           | (Inr pa, m) \<Rightarrow>
               if v_shared v then (Inr (), resident (pt_map va pa flags a), m)
               else if wr then
                 (case mc_alloc m of
                    (None, m) \<Rightarrow> (Inl ENOMEM, a, m)
                  | (Some np, m) \<Rightarrow>
                      (Inr (), resident (pt_map va np flags a), mc_ref_dec pa (mc_copy pa np m)))
               else
                 (let f = flags AND NOT WRITABLE;
                      f = if has (v_prot v) PROT_WRITE then f OR COW else f
                  in (Inr (), resident (pt_map va pa f a), m))))"

definition populate_page :: "page_cache \<Rightarrow> vma \<Rightarrow> nat \<Rightarrow> bool \<Rightarrow> aspace \<times> machine \<Rightarrow> unit kresult \<times> aspace \<times> machine" where
  "populate_page get_page v va wr s =
     (case pt_translate (fst s) va of
        Some (pa, f) \<Rightarrow>
          if has f PRESENT then
            (if wr \<and> \<not> has f WRITABLE then
               (if has f COW then cow_page va pa f s else (Inl EACCES, s))
             else (Inr (), s))
          else fault_in get_page v va wr s
      | None \<Rightarrow> fault_in get_page v va wr s)"

definition fault :: "page_cache \<Rightarrow> nat \<Rightarrow> bool \<Rightarrow> bool \<Rightarrow> aspace \<times> machine \<Rightarrow> unit kresult \<times> aspace \<times> machine" where
  "fault get_page addr wr exec s =
     (case find_vma (as_vmas (fst s)) addr of
        None \<Rightarrow> (Inl EFAULT, s)
      | Some v \<Rightarrow>
          if wr \<and> \<not> has (v_prot v) PROT_WRITE then (Inl EACCES, s)
          else if exec \<and> \<not> has (v_prot v) PROT_EXEC then (Inl EACCES, s)
          else if \<not> wr \<and> \<not> exec \<and> \<not> has (v_prot v) PROT_READ then (Inl EACCES, s)
          else populate_page get_page v (page_align_down addr) wr s)"

definition page_mapped :: "aspace \<Rightarrow> nat \<Rightarrow> bool \<Rightarrow> bool" where
  "page_mapped a va wr =
     (case pt_translate a va of
        Some (_, f) \<Rightarrow> has f PRESENT \<and> (\<not> wr \<or> has f WRITABLE)
      | None \<Rightarrow> False)"

fun populate_loop :: "page_cache \<Rightarrow> nat list \<Rightarrow> bool \<Rightarrow> aspace \<times> machine \<Rightarrow> unit kresult \<times> aspace \<times> machine" where
  "populate_loop get_page [] wr s = (Inr (), s)"
| "populate_loop get_page (va # vas) wr s =
     (case find_vma (as_vmas (fst s)) va of
        None \<Rightarrow> (Inl EFAULT, s)
      | Some v \<Rightarrow>
          if \<not> grants v wr then (Inl EFAULT, s)
          else if page_mapped (fst s) va wr then populate_loop get_page vas wr s
          else case populate_page get_page v va wr s of
              (Inl e, s') \<Rightarrow> (Inl e, s')
            | (Inr _, s') \<Rightarrow> populate_loop get_page vas wr s')"

definition populate_range :: "page_cache \<Rightarrow> nat \<Rightarrow> nat \<Rightarrow> bool \<Rightarrow> aspace \<times> machine \<Rightarrow> unit kresult \<times> aspace \<times> machine" where
  "populate_range get_page addr len wr s =
     (if len = 0 then (Inr (), s)
      else if 2 ^ 64 \<le> addr + len then (Inl EFAULT, s)
      else if USER_TOP < addr + len then (Inl EFAULT, s)
      else populate_loop get_page (pages_from (page_align_down addr) (addr + len)) wr s)"

section \<open>Fork and tear-down\<close>

record forking =
  fk_parent :: aspace
  fk_child :: aspace
  fk_machine :: machine

definition is_phys :: "backing \<Rightarrow> bool" where
  "is_phys b = (case b of Phys _ _ \<Rightarrow> True | _ \<Rightarrow> False)"

definition fork_page :: "vma \<Rightarrow> nat \<Rightarrow> forking \<Rightarrow> forking" where
  "fork_page v va k =
     (case pt_translate (fk_parent k) va of
        None \<Rightarrow> k
      | Some (pa, f) \<Rightarrow>
          if has f PRESENT then
            (let cow = \<not> (v_shared v \<or> is_phys (v_backing v)) \<and> has f WRITABLE;
                 nf = if cow then (f AND NOT WRITABLE) OR COW else f;
                 parent = if cow then pt_map va pa nf (fk_parent k) else fk_parent k;
                 child = pt_map va pa nf (fk_child k)
             in \<lparr>fk_parent = parent, fk_child = child\<lparr>as_rss := as_rss child + 1\<rparr>,
                 fk_machine = mc_ref_inc pa (fk_machine k)\<rparr>)
          else k)"

definition fork_area :: "vma \<Rightarrow> forking \<Rightarrow> forking" where
  "fork_area v k = fold (fork_page v) (pages_from (v_start v) (v_end v)) k"

definition fork :: "aspace \<times> machine \<Rightarrow> forking" where
  "fork s =
     (let a = fst s;
          child = aspace_new\<lparr>as_brk_start := as_brk_start a, as_brk := as_brk a,
            as_mmap_hint := as_mmap_hint a, as_vmas := fold bt_insert (as_vmas a) []\<rparr>
      in fold fork_area (as_vmas a) \<lparr>fk_parent = a, fk_child = child, fk_machine = snd s\<rparr>)"

definition aspace_clear :: "aspace \<times> machine \<Rightarrow> aspace \<times> machine" where
  "aspace_clear s =
     (let s = fold (\<lambda>v. unmap_pages (v_start v) (v_end v)) (as_vmas (fst s)) s
      in ((fst s)\<lparr>as_vmas := [], as_brk := 0, as_brk_start := 0, as_mmap_hint := MMAP_TOP\<rparr>, snd s))"

definition vsize :: "aspace \<Rightarrow> nat" where
  "vsize a = sum_list (map (\<lambda>v. v_end v - v_start v) (as_vmas a))"

section \<open>The ordered map\<close>

lemma set_bt_insert:
  assumes "sorted_wrt (<) (map v_start vs)"
  shows "set (bt_insert v vs) = insert v {u \<in> set vs. v_start u \<noteq> v_start v}"
  using assms by (induction vs) auto

lemma sorted_bt_insert:
  assumes "sorted_wrt (<) (map v_start vs)"
  shows "sorted_wrt (<) (map v_start (bt_insert v vs))"
  using assms
proof (induction vs)
  case (Cons u us)
  then have "\<forall>w \<in> set (bt_insert v us). w = v \<or> w \<in> set us" by (auto simp: set_bt_insert)
  then show ?case using Cons by auto
qed simp

lemma set_bt_remove: "set (bt_remove k vs) = {u \<in> set vs. v_start u \<noteq> k}"
  by (auto simp: bt_remove_def)

lemma sorted_bt_remove:
  "sorted_wrt (<) (map v_start vs) \<Longrightarrow> sorted_wrt (<) (map v_start (bt_remove k vs))"
  by (induction vs) (auto simp: bt_remove_def)

lemma bt_get_iff:
  assumes "sorted_wrt (<) (map v_start vs)"
  shows "bt_get k vs = Some v \<longleftrightarrow> v \<in> set vs \<and> v_start v = k"
  using assms by (induction vs) (auto simp: bt_get_def)

lemma last_below_spec:
  assumes "sorted_wrt (<) (map v_start vs)"
  shows "case last_below e vs of
      Some v \<Rightarrow> v \<in> set vs \<and> v_start v < e \<and> (\<forall>u \<in> set vs. v_start u < e \<longrightarrow> v_start u \<le> v_start v)
    | None \<Rightarrow> \<forall>u \<in> set vs. e \<le> v_start u"
proof (cases "last_below e vs")
  case None
  then have "filter (\<lambda>v. v_start v < e) vs = []" by (auto simp: last_below_def split: list.splits)
  then show ?thesis using None by (auto simp: filter_empty_conv not_less)
next
  case (Some v)
  let ?us = "filter (\<lambda>v. v_start v < e) vs"
  have us: "?us \<noteq> []" "v = last ?us" using Some by (auto simp: last_below_def split: list.splits)
  have "sorted_wrt (\<lambda>u w. v_start u < v_start w) ?us"
    using assms by (simp add: sorted_wrt_map sorted_wrt_filter)
  moreover have split: "?us = butlast ?us @ [v]" using us by simp
  ultimately have before: "\<forall>u \<in> set (butlast ?us). v_start u < v_start v"
    by (metis (no_types, lifting) list.set_intros(1) sorted_wrt_append)
  have "v_start u \<le> v_start v" if "u \<in> set vs" "v_start u < e" for u
  proof -
    have "u \<in> set ?us" using that by simp
    then have "u \<in> set (butlast ?us) \<or> u = v" by (subst (asm) split) auto
    then show ?thesis using before by auto
  qed
  then show ?thesis using Some last_below_SomeD [OF Some] by auto
qed

section \<open>Invariant\<close>

definition vma_ok :: "vma \<Rightarrow> bool" where
  "vma_ok v \<longleftrightarrow> v_start v < v_end v \<and> v_end v \<le> USER_TOP \<and> v_start v mod PAGE_SIZE = 0 \<and> v_end v mod PAGE_SIZE = 0"

definition vmas_inv :: "vma list \<Rightarrow> bool" where
  "vmas_inv vs \<longleftrightarrow> sorted_wrt (<) (map v_start vs) \<and> (\<forall>v \<in> set vs. vma_ok v)
     \<and> (\<forall>u \<in> set vs. \<forall>v \<in> set vs. v_start u < v_start v \<longrightarrow> v_end u \<le> v_start v)"

definition overlaps :: "nat \<Rightarrow> nat \<Rightarrow> vma \<Rightarrow> bool" where
  "overlaps s e v \<longleftrightarrow> v_start v < e \<and> s < v_end v"

lemma vmas_inv_sorted: "vmas_inv vs \<Longrightarrow> sorted_wrt (<) (map v_start vs)"
  by (simp add: vmas_inv_def)

lemma vmas_inv_ok: "vmas_inv vs \<Longrightarrow> v \<in> set vs \<Longrightarrow> vma_ok v"
  by (simp add: vmas_inv_def)

lemma vmas_inv_less: "vmas_inv vs \<Longrightarrow> u \<in> set vs \<Longrightarrow> v \<in> set vs \<Longrightarrow> v_start u < v_start v \<Longrightarrow> v_end u \<le> v_start v"
  by (simp add: vmas_inv_def)

lemma vmas_inv_inj:
  assumes "vmas_inv vs" "u \<in> set vs" "v \<in> set vs" "v_start u = v_start v"
  shows "u = v"
  using assms bt_get_iff [OF vmas_inv_sorted [OF assms(1)]] by (metis option.inject)

lemma find_vma_iff:
  assumes "vmas_inv vs"
  shows "find_vma vs a = Some v \<longleftrightarrow> v \<in> set vs \<and> contains v a"
proof (cases "last_below (a + 1) vs")
  case None
  then show ?thesis
    using last_below_spec [OF vmas_inv_sorted [OF assms], of "a + 1"]
    by (auto simp: find_vma_def contains_def dest!: bspec [of _ _ v])
next
  case (Some u)
  have u: "u \<in> set vs" "v_start u < a + 1" "\<forall>w \<in> set vs. v_start w < a + 1 \<longrightarrow> v_start w \<le> v_start u"
    using last_below_spec [OF vmas_inv_sorted [OF assms], of "a + 1"] Some by auto
  have "w = u" if w: "w \<in> set vs" "contains w a" for w
  proof (rule ccontr)
    assume "w \<noteq> u"
    then have "v_start w \<noteq> v_start u" using vmas_inv_inj [OF assms w(1) u(1)] by blast
    moreover have "v_start w \<le> v_start u" using u(3) w by (simp add: contains_def)
    ultimately have "v_start w < v_start u" by simp
    then show False using vmas_inv_less [OF assms w(1) u(1)] w(2) u(2) by (simp add: contains_def)
  qed
  moreover have "find_vma vs a = (if contains u a then Some u else None)" using Some by (simp add: find_vma_def)
  ultimately show ?thesis using u(1) by (metis option.distinct(1) option.inject)
qed

lemma range_free_iff:
  assumes "vmas_inv vs" "s < e"
  shows "range_free vs s e \<longleftrightarrow> (\<forall>v \<in> set vs. \<not> overlaps s e v)"
proof (cases "last_below e vs")
  case None
  then show ?thesis
    using last_below_spec [OF vmas_inv_sorted [OF assms(1)], of e] by (fastforce simp: range_free_def overlaps_def)
next
  case (Some u)
  have u: "u \<in> set vs" "v_start u < e" "\<forall>w \<in> set vs. v_start w < e \<longrightarrow> v_start w \<le> v_start u"
    using last_below_spec [OF vmas_inv_sorted [OF assms(1)], of e] Some by auto
  have "\<not> overlaps s e w" if "w \<in> set vs" "v_end u \<le> s" for w
  proof (cases "w = u")
    case False
    then have "v_start w < v_start u \<or> e \<le> v_start w"
      using u that vmas_inv_inj [OF assms(1) that(1) u(1)] by force
    then show ?thesis
      using vmas_inv_less [OF assms(1) that(1) u(1)] vmas_inv_ok [OF assms(1) u(1)] that(2)
      by (auto simp: overlaps_def vma_ok_def)
  qed (use that in \<open>simp add: overlaps_def\<close>)
  then show ?thesis using Some u by (auto simp: range_free_def overlaps_def not_less)
qed

lemma gap_loop_spec:
  assumes "vmas_inv vs" "0 < len"
  shows "case gap_loop vs len hi of
      Some g \<Rightarrow> MMAP_MIN \<le> g \<and> g + len \<le> hi \<and> (\<forall>v \<in> set vs. \<not> overlaps g (g + len) v)
        \<and> (\<forall>g' > g. g' + len \<le> hi \<longrightarrow> (\<exists>v \<in> set vs. overlaps g' (g' + len) v))
        \<and> (g + len = hi \<or> (\<exists>v \<in> set vs. g + len = v_start v))
    | None \<Rightarrow> \<forall>g' \<ge> MMAP_MIN. g' + len \<le> hi \<longrightarrow> (\<exists>v \<in> set vs. overlaps g' (g' + len) v)"
  using assms
proof (induction vs len hi rule: gap_loop.induct)
  case (1 vs len hi)
  let ?c = "hi - len"
  have free: "\<forall>v \<in> set vs. \<not> overlaps ?c (?c + len) v"
    if "len \<le> hi" "last_below hi vs = None \<or> (\<exists>v. last_below hi vs = Some v \<and> v_end v \<le> ?c)"
    using range_free_iff [OF 1(2), of ?c hi] 1(3) that by (auto simp: range_free_def)
  show ?case
  proof (cases "hi < len \<or> ?c < MMAP_MIN")
    case True
    then show ?thesis by (subst gap_loop.simps) auto
  next
    case False
    show ?thesis
    proof (cases "\<exists>v. last_below hi vs = Some v \<and> ?c < v_end v")
      case True
      then obtain v where v: "last_below hi vs = Some v" "?c < v_end v" by blast
      have hit: "\<exists>v \<in> set vs. overlaps g' (g' + len) v" if "g' + len \<le> hi" "v_start v < g' + len" for g'
        using last_below_SomeD [OF v(1)] v(2) that by (intro bexI [of _ v]) (auto simp: overlaps_def)
      have "gap_loop vs len hi = gap_loop vs len (v_start v)"
        using False v by (subst gap_loop.simps) simp
      moreover note 1(1) [OF _ _ v(1) v(2) 1(2,3)]
      ultimately show ?thesis
        using False hit last_below_SomeD [OF v(1)]
        by (auto split: option.splits simp: not_less)
    next
      case none: False
      then have "gap_loop vs len hi = Some ?c"
        using False by (subst gap_loop.simps) (auto split: option.splits)
      moreover have "\<forall>v \<in> set vs. \<not> overlaps ?c (?c + len) v"
        using free none False by (cases "last_below hi vs") (auto simp: not_less)
      ultimately show ?thesis using False by auto
    qed
  qed
qed

lemma inv_insert:
  assumes "vmas_inv vs" "vma_ok w" "\<forall>u \<in> set vs. \<not> overlaps (v_start w) (v_end w) u"
  shows "vmas_inv (bt_insert w vs)" "set (bt_insert w vs) = insert w (set vs)"
    "find_vma (bt_insert w vs) a = (if contains w a then Some w else find_vma vs a)"
proof -
  note sorted = vmas_inv_sorted [OF assms(1)]
  have apart: "v_end u \<le> v_start w \<or> v_end w \<le> v_start u" if "u \<in> set vs" for u
    using assms(3) that by (auto simp: overlaps_def)
  have key: "v_start u \<noteq> v_start w" if "u \<in> set vs" for u
    using apart [OF that] vmas_inv_ok [OF assms(1) that] assms(2) by (auto simp: vma_ok_def)
  show set: "set (bt_insert w vs) = insert w (set vs)"
    using key by (auto simp: set_bt_insert [OF sorted])
  have "v_end u \<le> v_start v" if "u \<in> insert w (set vs)" "v \<in> insert w (set vs)" "v_start u < v_start v" for u v
    using that apart [of u] apart [of v] vmas_inv_less [OF assms(1), of u v] vmas_inv_ok [OF assms(1), of u]
      vmas_inv_ok [OF assms(1), of v] assms(2)
    by (auto simp: vma_ok_def)
  then show inv: "vmas_inv (bt_insert w vs)"
    using assms(1,2) sorted_bt_insert [OF sorted] unfolding vmas_inv_def set by simp
  have other: "\<not> contains u a" if "u \<in> set vs" "contains w a" for u
    using apart [OF that(1)] that(2) by (auto simp: contains_def)
  show "find_vma (bt_insert w vs) a = (if contains w a then Some w else find_vma vs a)"
  proof (cases "contains w a")
    case True
    then show ?thesis using find_vma_iff [OF inv, of a w] set by simp
  next
    case False
    then have "find_vma (bt_insert w vs) a = Some u \<longleftrightarrow> find_vma vs a = Some u" for u
      unfolding find_vma_iff [OF inv] find_vma_iff [OF assms(1)] set by auto
    then show ?thesis using False by (metis option.exhaust)
  qed
qed

lemma inv_remove:
  assumes "vmas_inv vs" "v \<in> set vs"
  shows "vmas_inv (bt_remove (v_start v) vs)" "set (bt_remove (v_start v) vs) = set vs - {v}"
    "find_vma (bt_remove (v_start v) vs) a = (if contains v a then None else find_vma vs a)"
proof -
  show set: "set (bt_remove (v_start v) vs) = set vs - {v}"
    using vmas_inv_inj [OF assms(1) _ assms(2)] by (auto simp: set_bt_remove)
  show inv: "vmas_inv (bt_remove (v_start v) vs)"
    using assms(1) sorted_bt_remove unfolding vmas_inv_def set by auto
  have "find_vma (bt_remove (v_start v) vs) a = Some u \<longleftrightarrow> \<not> contains v a \<and> find_vma vs a = Some u" for u
    unfolding find_vma_iff [OF inv] find_vma_iff [OF assms(1)] set
    using assms find_vma_iff [OF assms(1), of a] by (metis DiffD1 DiffD2 Diff_iff option.inject singletonD singletonI)
  then show "find_vma (bt_remove (v_start v) vs) a = (if contains v a then None else find_vma vs a)"
    by (metis option.exhaust)
qed

section \<open>What an address maps to\<close>

text \<open>The observable meaning of the areas: at each address its rights, whether it is shared, the byte of
  the file or of physical memory behind it, and the name.\<close>

definition vma_view :: "nat \<Rightarrow> vma \<Rightarrow> u32 \<times> bool \<times> backing \<times> string" where
  "vma_view a v = (v_prot v, v_shared v, shift_backing (a - v_start v) (v_backing v), v_name v)"

definition view :: "vma list \<Rightarrow> nat \<Rightarrow> (u32 \<times> bool \<times> backing \<times> string) option" where
  "view vs a = map_option (vma_view a) (find_vma vs a)"

lemma wadd_wadd: "wadd (wadd x d) d' = wadd x (d + d')"
  by (simp add: wadd_def mod_add_left_eq add.assoc)

lemma shift_shift: "shift_backing d' (shift_backing d b) = shift_backing (d + d') b"
  by (cases b) (simp_all add: wadd_wadd)

lemma vma_view_right:
  assumes "v_start v \<le> p" "p \<le> a"
  shows "vma_view a (v\<lparr>v_start := p, v_backing := shift_backing (p - v_start v) (v_backing v)\<rparr>) = vma_view a v"
  using assms by (simp add: vma_view_def shift_shift)

lemma carve_spec:
  assumes inv: "vmas_inv vs" and v: "v \<in> set vs" "overlaps addr e v" and "addr < e" "addr mod PAGE_SIZE = 0" "e mod PAGE_SIZE = 0"
  shows "vmas_inv (carve addr e v vs)" "set vs - {v} \<subseteq> set (carve addr e v vs)"
    "view (carve addr e v vs) a = (if contains v a \<and> addr \<le> a \<and> a < e then None else view vs a)"
proof -
  let ?l = "v\<lparr>v_end := addr\<rparr>" and ?r = "v\<lparr>v_start := e, v_backing := shift_backing (e - v_start v) (v_backing v)\<rparr>"
  let ?v1 = "bt_remove (v_start v) vs"
  let ?v2 = "if v_start v < addr then bt_insert ?l ?v1 else ?v1"
  have vok: "vma_ok v" and at: "find_vma vs a = Some v \<longleftrightarrow> contains v a"
    using vmas_inv_ok [OF inv v(1)] find_vma_iff [OF inv] v(1) by auto
  note r1 = inv_remove [OF inv v(1)]
  have apart: "v_end u \<le> v_start v \<or> v_end v \<le> v_start u" if "u \<in> set ?v1" for u
    using that vmas_inv_inj [OF inv _ v(1)] vmas_inv_less [OF inv _ v(1)] vmas_inv_less [OF inv v(1)] unfolding r1(2)
    by (metis Diff_iff linorder_neqE_nat singletonI)
  have lok: "vma_ok ?l" "\<forall>u \<in> set ?v1. \<not> overlaps (v_start ?l) (v_end ?l) u" if "v_start v < addr"
    using vok v(2) assms(4,5) that by (auto simp: vma_ok_def overlaps_def dest!: apart)
  have i2: "vmas_inv ?v2" "set ?v2 = (if v_start v < addr then insert ?l (set ?v1) else set ?v1)"
    "find_vma ?v2 a = (if v_start v < addr \<and> contains ?l a then Some ?l else find_vma ?v1 a)"
    using inv_insert [OF r1(1) lok] r1(1) by (cases "v_start v < addr"; simp)+
  have rok: "vma_ok ?r" "\<forall>u \<in> set ?v2. \<not> overlaps (v_start ?r) (v_end ?r) u" if "e < v_end v"
    using vok v(2) assms(4,6) that i2(2) by (auto simp: vma_ok_def overlaps_def split: if_splits dest!: apart)
  have c: "carve addr e v vs = (if e < v_end v then bt_insert ?r ?v2 else ?v2)"
    by (simp add: carve_def Let_def)
  show "vmas_inv (carve addr e v vs)" using inv_insert(1) [OF i2(1) rok] i2(1) unfolding c by simp
  show "set vs - {v} \<subseteq> set (carve addr e v vs)"
    using inv_insert(2) [OF i2(1) rok] i2(2) r1(2) unfolding c by (auto split: if_splits)
  have f: "find_vma (carve addr e v vs) a = (if e < v_end v \<and> contains ?r a then Some ?r else find_vma ?v2 a)"
    using inv_insert(3) [OF i2(1) rok, of a] unfolding c by (cases "e < v_end v") (simp_all only: simp_thms if_True if_False)
  show "view (carve addr e v vs) a = (if contains v a \<and> addr \<le> a \<and> a < e then None else view vs a)"
  proof (cases "contains v a")
    case False
    then have "\<not> (v_start v < addr \<and> contains ?l a)" "\<not> (e < v_end v \<and> contains ?r a)"
      using v(2) assms(4) by (auto simp: contains_def overlaps_def)
    then show ?thesis unfolding view_def f i2(3) r1(3) using False by (simp only: if_False simp_thms)
  next
    case True
    consider "a < addr" | "addr \<le> a" "a < e" | "e \<le> a" by linarith
    then show ?thesis
    proof cases
      case 1
      then have "contains ?l a" "v_start v < addr" "\<not> contains ?r a" using True assms(4) by (auto simp: contains_def)
      then show ?thesis unfolding view_def f i2(3) using True at 1 by (simp add: vma_view_def)
    next
      case 2
      then have "\<not> contains ?l a" "\<not> contains ?r a" by (auto simp: contains_def)
      then show ?thesis unfolding view_def f i2(3) r1(3) using True 2 by simp
    next
      case 3
      then have "contains ?r a" "e < v_end v" "v_start v \<le> e" using True v(2) assms(4) by (auto simp: contains_def overlaps_def)
      then show ?thesis unfolding view_def f using True at 3 vma_view_right [of v e a] by simp
    qed
  qed
qed

section \<open>Unmapping\<close>

lemma unmap_page_vmas [simp]:
  "as_vmas (fst (unmap_page va s)) = as_vmas (fst s)" "as_mmap_hint (fst (unmap_page va s)) = as_mmap_hint (fst s)"
  "as_brk (fst (unmap_page va s)) = as_brk (fst s)" "as_brk_start (fst (unmap_page va s)) = as_brk_start (fst s)"
  by (auto simp: unmap_page_def pt_unmap_def split: option.splits)

lemma unmap_pages_vmas [simp]:
  "as_vmas (fst (unmap_pages lo hi s)) = as_vmas (fst s)" "as_mmap_hint (fst (unmap_pages lo hi s)) = as_mmap_hint (fst s)"
  "as_brk (fst (unmap_pages lo hi s)) = as_brk (fst s)" "as_brk_start (fst (unmap_pages lo hi s)) = as_brk_start (fst s)"
proof -
  have "as_vmas (fst (fold unmap_page ps s)) = as_vmas (fst s) \<and> as_mmap_hint (fst (fold unmap_page ps s)) = as_mmap_hint (fst s)
    \<and> as_brk (fst (fold unmap_page ps s)) = as_brk (fst s) \<and> as_brk_start (fst (fold unmap_page ps s)) = as_brk_start (fst s)" for ps
    by (induction ps arbitrary: s) simp_all
  then show "as_vmas (fst (unmap_pages lo hi s)) = as_vmas (fst s)" "as_mmap_hint (fst (unmap_pages lo hi s)) = as_mmap_hint (fst s)"
    "as_brk (fst (unmap_pages lo hi s)) = as_brk (fst s)" "as_brk_start (fst (unmap_pages lo hi s)) = as_brk_start (fst s)"
    by (simp_all add: unmap_pages_def)
qed

lemma on_vmas_simps [simp]:
  "as_vmas (on_vmas g a) = g (as_vmas a)" "as_mmap_hint (on_vmas g a) = as_mmap_hint a"
  "as_brk (on_vmas g a) = as_brk a" "as_brk_start (on_vmas g a) = as_brk_start a" "as_ptab (on_vmas g a) = as_ptab a"
  by (simp_all add: on_vmas_def)

lemma unmap_area_vmas:
  assumes "vmas_inv (as_vmas (fst s))" "v \<in> set (as_vmas (fst s))"
  shows "as_vmas (fst (unmap_area addr e (v_start v) s)) = carve addr e v (as_vmas (fst s))"
  using bt_get_iff [OF vmas_inv_sorted [OF assms(1)], of "v_start v" v] assms(2)
  by (simp add: unmap_area_def)

lemma unmap_area_other [simp]:
  "as_mmap_hint (fst (unmap_area addr e k s)) = as_mmap_hint (fst s)"
  "as_brk (fst (unmap_area addr e k s)) = as_brk (fst s)"
  "as_brk_start (fst (unmap_area addr e k s)) = as_brk_start (fst s)"
  by (simp_all add: unmap_area_def split: option.splits)

lemma fold_unmap_area:
  assumes "addr < e" "addr mod PAGE_SIZE = 0" "e mod PAGE_SIZE = 0"
    and "vmas_inv (as_vmas (fst s))" "set vs \<subseteq> set (as_vmas (fst s))" "distinct (map v_start vs)"
    "\<forall>v \<in> set vs. overlaps addr e v"
  shows "vmas_inv (as_vmas (fst (fold (unmap_area addr e) (map v_start vs) s)))
    \<and> view (as_vmas (fst (fold (unmap_area addr e) (map v_start vs) s))) a =
        (if (\<exists>v \<in> set vs. contains v a) \<and> addr \<le> a \<and> a < e then None else view (as_vmas (fst s)) a)"
  using assms(4-)
proof (induction vs arbitrary: s)
  case (Cons v vs)
  let ?s = "unmap_area addr e (v_start v) s"
  have v: "v \<in> set (as_vmas (fst s))" "overlaps addr e v" using Cons.prems by auto
  have step: "as_vmas (fst ?s) = carve addr e v (as_vmas (fst s))"
    using unmap_area_vmas Cons.prems(1) v(1) by blast
  note c = carve_spec [OF Cons.prems(1) v assms(1-3)]
  have "set vs \<subseteq> set (as_vmas (fst ?s))"
    using Cons.prems(2,3) c(2) unfolding step by auto
  then show ?case
    using Cons.IH [of ?s] c(1) c(3) [of a] Cons.prems(3,4) unfolding step by (auto split: if_splits)
qed simp

lemma unmap_locked_spec:
  assumes inv: "vmas_inv (as_vmas (fst s))" and a: "addr mod PAGE_SIZE = 0" "(addr + len) mod PAGE_SIZE = 0" "0 < len" "addr + len < 2 ^ 64"
  shows "vmas_inv (as_vmas (fst (unmap_locked addr len s)))"
    "view (as_vmas (fst (unmap_locked addr len s))) b = (if addr \<le> b \<and> b < addr + len then None else view (as_vmas (fst s)) b)"
proof -
  let ?vs = "filter (\<lambda>v. v_start v < addr + len \<and> addr < v_end v) (as_vmas (fst s))"
  have e: "wadd addr len = addr + len" using a(4) by (simp add: wadd_def)
  have "distinct (map v_start ?vs)"
    using vmas_inv_sorted [OF inv] by (simp add: strict_sorted_iff distinct_map_filter)
  then have f: "vmas_inv (as_vmas (fst (unmap_locked addr len s))) \<and>
      view (as_vmas (fst (unmap_locked addr len s))) b =
        (if (\<exists>v \<in> set ?vs. contains v b) \<and> addr \<le> b \<and> b < addr + len then None else view (as_vmas (fst s)) b)"
    using fold_unmap_area [of addr "addr + len" s ?vs b] inv a
    by (simp add: unmap_locked_def e affected_def overlaps_def Let_def)
  then show "vmas_inv (as_vmas (fst (unmap_locked addr len s)))" by simp
  show "view (as_vmas (fst (unmap_locked addr len s))) b = (if addr \<le> b \<and> b < addr + len then None else view (as_vmas (fst s)) b)"
  proof (cases "find_vma (as_vmas (fst s)) b")
    case None
    then show ?thesis using f by (simp add: view_def)
  next
    case (Some v)
    then have "v \<in> set (as_vmas (fst s))" "contains v b" using find_vma_iff [OF inv] by auto
    then have "\<exists>v \<in> set ?vs. contains v b" if "addr \<le> b" "b < addr + len"
      using that by (intro bexI [of _ v]) (auto simp: contains_def)
    then show ?thesis using f by auto
  qed
qed

section \<open>Replacing and splitting areas\<close>





lemma fold_reprotect_page_vmas [simp]: "as_vmas (fold (reprotect_page fl) ps a) = as_vmas a"
  by (induction ps arbitrary: a) (auto simp: reprotect_page_def pt_map_def Let_def split: option.splits)




section \<open>Properties of the area operations\<close>

lemma page_align_up_spec:
  assumes "x + 4096 \<le> 2 ^ 64"
  shows "x \<le> page_align_up x" "page_align_up x < x + 4096" "page_align_up x mod PAGE_SIZE = 0"
    "x mod PAGE_SIZE = 0 \<Longrightarrow> page_align_up x = x"
proof -
  have "wadd x (PAGE_SIZE - 1) = x + 4095" using assms by (simp add: wadd_def PAGE_SIZE_def)
  then have e: "page_align_up x = (x + 4095) div 4096 * 4096"
    by (simp add: page_align_up_def page_align_down_def PAGE_SIZE_def)
  have "(x + 4095) div 4096 * 4096 + (x + 4095) mod 4096 = x + 4095" "(x + 4095) mod 4096 < 4096"
    by (simp_all only: div_mult_mod_eq mod_less_divisor)
  then show "x \<le> page_align_up x" "page_align_up x < x + 4096" unfolding e by linarith+
  show "page_align_up x mod PAGE_SIZE = 0" unfolding e PAGE_SIZE_def by simp
  show "page_align_up x = x" if "x mod PAGE_SIZE = 0"
  proof -
    have "4096 dvd x" using that unfolding PAGE_SIZE_def by auto
    then obtain k where "x = 4096 * k" by (rule dvdE)
    then show ?thesis unfolding e by simp
  qed
qed

definition aspace_inv :: "aspace \<Rightarrow> bool" where
  "aspace_inv a \<longleftrightarrow> vmas_inv (as_vmas a) \<and> as_mmap_hint a mod PAGE_SIZE = 0"

lemma fold_unmap_area_other [simp]:
  "as_mmap_hint (fst (fold (unmap_area addr e) ks s)) = as_mmap_hint (fst s)"
  "as_brk (fst (fold (unmap_area addr e) ks s)) = as_brk (fst s)"
  "as_brk_start (fst (fold (unmap_area addr e) ks s)) = as_brk_start (fst s)"
  by (induction ks arbitrary: s) simp_all

lemma unmap_locked_other [simp]:
  "as_mmap_hint (fst (unmap_locked addr len s)) = as_mmap_hint (fst s)"
  "as_brk (fst (unmap_locked addr len s)) = as_brk (fst s)"
  "as_brk_start (fst (unmap_locked addr len s)) = as_brk_start (fst s)"
  by (simp_all add: unmap_locked_def Let_def)

text \<open>
  C6. Unmapping removes exactly the pages of the request: afterwards no address of the rounded range
  is mapped, every other address maps to what it did (same rights, same byte of the same file, even
  when its area was cut in two), and the areas are still ordered, disjoint and page aligned.
\<close>

theorem munmap_exact:
  assumes "aspace_inv (fst s)" "addr mod PAGE_SIZE = 0" "0 < len" "addr + len + 4096 \<le> 2 ^ 64"
  shows "fst (munmap addr len s) = Inr () \<and> aspace_inv (fst (snd (munmap addr len s)))
    \<and> view (as_vmas (fst (snd (munmap addr len s)))) =
        (\<lambda>b. if addr \<le> b \<and> b < addr + page_align_up len then None else view (as_vmas (fst s)) b)"
proof -
  have l: "len \<le> page_align_up len" "page_align_up len < len + 4096" "page_align_up len mod PAGE_SIZE = 0"
    using page_align_up_spec [of len] assms(4) by auto
  have "(addr + page_align_up len) mod PAGE_SIZE = 0" using assms(2) l(3) by (simp add: mod_add_eq [symmetric])
  then show ?thesis
    using unmap_locked_spec [of s addr "page_align_up len"] assms l by (simp add: munmap_def aspace_inv_def fun_eq_iff)
qed

lemma top_facts: "MMAP_TOP mod PAGE_SIZE = 0" "MMAP_TOP \<le> USER_TOP" "USER_TOP < 2 ^ 64" "0 < PAGE_SIZE"
  by (simp_all add: MMAP_TOP_def USER_TOP_def PAGE_SIZE_def)

lemma mod_diff_page:
  assumes "(x + y) mod PAGE_SIZE = 0" "y mod PAGE_SIZE = 0"
  shows "x mod PAGE_SIZE = 0"
  using assms by (metis add.right_neutral mod_add_right_eq)

lemma install_spec:
  assumes "vmas_inv vs" "start mod PAGE_SIZE = 0" "len mod PAGE_SIZE = 0" "0 < len" "start + len \<le> USER_TOP"
    "\<forall>v \<in> set vs. \<not> overlaps start (start + len) v"
  shows "vmas_inv (bt_insert (fresh_vma start len prot flags backing name) vs)"
    "view (bt_insert (fresh_vma start len prot flags backing name) vs) =
       (\<lambda>b. if start \<le> b \<and> b < start + len
            then Some (prot, has flags MAP_SHARED, shift_backing (b - start) backing, name) else view vs b)"
proof -
  let ?w = "fresh_vma start len prot flags backing name"
  have w: "v_start ?w = start" "v_end ?w = start + len"
    using assms(5) top_facts by (simp_all add: fresh_vma_def wadd_def)
  have ok: "vma_ok ?w" using assms(2-5) w by (simp add: vma_ok_def mod_add_eq [symmetric])
  note i = inv_insert [OF assms(1) ok]
  show "vmas_inv (bt_insert ?w vs)" using i(1) assms(6) w by simp
  show "view (bt_insert ?w vs) = (\<lambda>b. if start \<le> b \<and> b < start + len
            then Some (prot, has flags MAP_SHARED, shift_backing (b - start) backing, name) else view vs b)"
  proof
    fix b
    have "find_vma (bt_insert ?w vs) b = (if contains ?w b then Some ?w else find_vma vs b)"
      using i(3) assms(6) w by simp
    then show "view (bt_insert ?w vs) b = (if start \<le> b \<and> b < start + len
            then Some (prot, has flags MAP_SHARED, shift_backing (b - start) backing, name) else view vs b)"
      using w by (auto simp: view_def contains_def vma_view_def) (simp_all add: fresh_vma_def)
  qed
qed

lemma view_None_free:
  assumes "vmas_inv vs" "\<And>b. s \<le> b \<Longrightarrow> b < e \<Longrightarrow> view vs b = None" "v \<in> set vs" "s < e"
  shows "\<not> overlaps s e v"
proof
  assume o: "overlaps s e v"
  let ?b = "max s (v_start v)"
  have b: "contains v ?b" "s \<le> ?b" "?b < e"
    using o vmas_inv_ok [OF assms(1,3)] assms by (auto simp: overlaps_def contains_def vma_ok_def)
  have "find_vma vs ?b = Some v" using find_vma_iff [OF assms(1)] assms(3) b(1) by blast
  then show False using assms(2) [OF b(2,3)] by (simp add: view_def)
qed

lemma find_gap_spec:
  assumes "vmas_inv vs" "0 < n" "n mod PAGE_SIZE = 0" "hint mod PAGE_SIZE = 0"
  shows "case find_gap vs n hint of
      Some g \<Rightarrow> MMAP_MIN \<le> g \<and> g + n \<le> min hint MMAP_TOP \<and> (\<forall>v \<in> set vs. \<not> overlaps g (g + n) v)
        \<and> g mod PAGE_SIZE = 0
        \<and> (\<forall>g' > g. g' + n \<le> min hint MMAP_TOP \<longrightarrow> (\<exists>v \<in> set vs. overlaps g' (g' + n) v))
    | None \<Rightarrow> \<forall>g' \<ge> MMAP_MIN. g' + n \<le> min hint MMAP_TOP \<longrightarrow> (\<exists>v \<in> set vs. overlaps g' (g' + n) v)"
proof -
  have top: "min hint MMAP_TOP mod PAGE_SIZE = 0" using assms(4) top_facts by (simp add: min_def)
  note g = gap_loop_spec [OF assms(1,2), of "min hint MMAP_TOP"]
  show ?thesis
  proof (cases "gap_loop vs n (min hint MMAP_TOP)")
    case (Some c)
    have "(c + n) mod PAGE_SIZE = 0"
      using g Some top vmas_inv_ok [OF assms(1)] by (auto simp: vma_ok_def simp del: mod_0_imp_dvd)
    then have "c mod PAGE_SIZE = 0" by (rule mod_diff_page [OF _ assms(3)])
    then show ?thesis using g Some by (simp add: find_gap_def)
  qed (use g in \<open>simp add: find_gap_def\<close>)
qed

lemma view_free:
  assumes "vmas_inv vs" "\<forall>v \<in> set vs. \<not> overlaps s e v" "s \<le> b" "b < e"
  shows "view vs b = None"
proof (cases "find_vma vs b")
  case (Some v)
  then have "v \<in> set vs" "contains v b" using find_vma_iff [OF assms(1)] by auto
  then show ?thesis using assms(2-) by (force simp: overlaps_def contains_def)
qed (simp add: view_def)

lemma mmap_place_spec:
  assumes "aspace_inv (fst s)" "0 < n" "n mod PAGE_SIZE = 0" "addr + n < 2 ^ 64"
    and "mmap_place addr n flags s = (r, s')"
  shows "case r of
      Inl e \<Rightarrow> s' = s \<and> (e = ENOMEM \<longrightarrow> (\<forall>g \<ge> MMAP_MIN. g + n \<le> min (as_mmap_hint (fst s)) MMAP_TOP \<longrightarrow>
        (\<exists>v \<in> set (as_vmas (fst s)). overlaps g (g + n) v)))
    | Inr start \<Rightarrow> aspace_inv (fst s') \<and> start mod PAGE_SIZE = 0 \<and> start + n \<le> USER_TOP
        \<and> (\<forall>b. view (as_vmas (fst s')) b = (if start \<le> b \<and> b < start + n then None else view (as_vmas (fst s)) b))
        \<and> (\<not> has flags MAP_FIXED \<or> has flags MAP_FIXED_NOREPLACE \<longrightarrow>
            (\<forall>v \<in> set (as_vmas (fst s)). \<not> overlaps start (start + n) v))
        \<and> (if has flags MAP_FIXED \<or> addr \<noteq> 0 \<and> addr mod PAGE_SIZE = 0 \<and> addr + n \<le> USER_TOP \<and> MMAP_MIN \<le> addr
                \<and> (\<forall>v \<in> set (as_vmas (fst s)). \<not> overlaps addr (addr + n) v)
             then start = addr
             else MMAP_MIN \<le> start \<and> start + n \<le> min (as_mmap_hint (fst s)) MMAP_TOP
               \<and> (\<forall>g > start. g + n \<le> min (as_mmap_hint (fst s)) MMAP_TOP \<longrightarrow>
                    (\<exists>v \<in> set (as_vmas (fst s)). overlaps g (g + n) v)))"
proof -
  let ?vs = "as_vmas (fst s)"
  have inv: "vmas_inv ?vs" and hint: "as_mmap_hint (fst s) mod PAGE_SIZE = 0" using assms(1) by (auto simp: aspace_inv_def)
  have e: "wadd addr n = addr + n" using assms(4) by (simp add: wadd_def)
  have rf: "range_free ?vs addr (addr + n) \<longleftrightarrow> (\<forall>v \<in> set ?vs. \<not> overlaps addr (addr + n) v)"
    using range_free_iff [OF inv] assms(2) by simp
  note place = assms(5) [unfolded mmap_place_def e rf]
  show ?thesis
  proof (cases "has flags MAP_FIXED")
    case True
    show ?thesis
    proof (cases "addr mod PAGE_SIZE \<noteq> 0 \<or> USER_TOP < addr + n
        \<or> (has flags MAP_FIXED_NOREPLACE \<and> \<not> (\<forall>v \<in> set ?vs. \<not> overlaps addr (addr + n) v))")
      case bad: True
      then have "s' = s \<and> (r = Inl EINVAL \<or> r = Inl EEXIST)"
        using place True by (simp split: if_splits)
      then show ?thesis by auto
    next
      case False
      then have r: "r = Inr addr" "s' = unmap_locked addr n s" using place True by (auto split: if_splits)
      have "(addr + n) mod PAGE_SIZE = 0" using False assms(3) by (simp add: mod_add_eq [symmetric])
      note u = unmap_locked_spec [OF inv _ this assms(2,4)]
      show ?thesis using r u False True hint by (simp add: aspace_inv_def)
    qed
  next
    case nofix: False
    show ?thesis
    proof (cases "addr \<noteq> 0 \<and> addr mod PAGE_SIZE = 0 \<and> addr + n \<le> USER_TOP \<and> MMAP_MIN \<le> addr
        \<and> (\<forall>v \<in> set ?vs. \<not> overlaps addr (addr + n) v)")
      case True
      then have "r = Inr addr" "s' = s" using place nofix by (simp_all split: if_splits)
      then show ?thesis using True assms(1) nofix view_free [OF inv, of addr "addr + n"] by simp
    next
      case False
      note g = find_gap_spec [OF inv assms(2,3) hint]
      have p: "(case find_gap ?vs n (as_mmap_hint (fst s)) of
          None \<Rightarrow> (Inl ENOMEM, s) | Some g \<Rightarrow> (Inr g, (fst s)\<lparr>as_mmap_hint := g\<rparr>, snd s)) = (r, s')"
        using place nofix False by (simp only: if_False)
      show ?thesis
      proof (cases "find_gap ?vs n (as_mmap_hint (fst s))")
        case None
        then show ?thesis using p g by auto
      next
        case (Some c)
        then have "r = Inr c" "s' = ((fst s)\<lparr>as_mmap_hint := c\<rparr>, snd s)" using p by auto
        then show ?thesis
          using g Some inv nofix False view_free [OF inv, of c "c + n"] top_facts(2) by (auto simp: aspace_inv_def)
      qed
    qed
  qed
qed

lemma overlap_views:
  assumes "vmas_inv vs" "0 < n"
  shows "(\<exists>v \<in> set vs. overlaps g (g + n) v) \<longleftrightarrow> (\<exists>b. g \<le> b \<and> b < g + n \<and> view vs b \<noteq> None)"
    and "(\<forall>v \<in> set vs. \<not> overlaps g (g + n) v) \<longleftrightarrow> (\<forall>b. g \<le> b \<and> b < g + n \<longrightarrow> view vs b = None)"
proof -
  show *: "(\<forall>v \<in> set vs. \<not> overlaps g (g + n) v) \<longleftrightarrow> (\<forall>b. g \<le> b \<and> b < g + n \<longrightarrow> view vs b = None)"
  proof (intro iffI ballI)
    show "\<forall>b. g \<le> b \<and> b < g + n \<longrightarrow> view vs b = None" if "\<forall>v \<in> set vs. \<not> overlaps g (g + n) v"
      using view_free [OF assms(1) that] by blast
    show "\<not> overlaps g (g + n) v" if "\<forall>b. g \<le> b \<and> b < g + n \<longrightarrow> view vs b = None" "v \<in> set vs" for v
      by (rule view_None_free [OF assms(1) _ that(2)]) (use that(1) assms(2) in auto)
  qed
  show "(\<exists>v \<in> set vs. overlaps g (g + n) v) \<longleftrightarrow> (\<exists>b. g \<le> b \<and> b < g + n \<and> view vs b \<noteq> None)"
    using * by (metis (no_types, lifting))
qed

text \<open>
  C7. Mapping installs exactly the requested pages. When \<open>mmap\<close> grants a request, the rounded range
  it returns is page aligned and below the top of user memory, maps with the requested rights to
  the requested backing byte for byte, and nothing else changes; without \<open>MAP_FIXED\<close>, and with
  \<open>MAP_FIXED_NOREPLACE\<close>, no address of the range was mapped before. The range starts at the address
  asked for with \<open>MAP_FIXED\<close>, or when that address is usable and its range free; any other request is
  given the highest free range of its size below the hint, and is refused with ENOMEM only if there
  is none. When \<open>mmap\<close> refuses, nothing changes.
\<close>

theorem mmap_exact:
  assumes "aspace_inv (fst s)" "0 < len" "addr + len + 4096 \<le> 2 ^ 64"
    and "mmap addr len prot flags backing name s = (r, s')"
  defines "n \<equiv> page_align_up len"
  shows "case r of
      Inl e \<Rightarrow> s' = s \<and> (e = ENOMEM \<longrightarrow> (\<forall>g \<ge> MMAP_MIN. g + n \<le> min (as_mmap_hint (fst s)) MMAP_TOP \<longrightarrow>
        (\<exists>b. g \<le> b \<and> b < g + n \<and> view (as_vmas (fst s)) b \<noteq> None)))
    | Inr start \<Rightarrow> aspace_inv (fst s') \<and> start mod PAGE_SIZE = 0 \<and> start + n \<le> USER_TOP
        \<and> view (as_vmas (fst s')) = (\<lambda>b. if start \<le> b \<and> b < start + n
            then Some (prot, has flags MAP_SHARED, shift_backing (b - start) backing, name)
            else view (as_vmas (fst s)) b)
        \<and> (\<not> has flags MAP_FIXED \<or> has flags MAP_FIXED_NOREPLACE \<longrightarrow>
            (\<forall>b. start \<le> b \<and> b < start + n \<longrightarrow> view (as_vmas (fst s)) b = None))
        \<and> (if has flags MAP_FIXED \<or> addr \<noteq> 0 \<and> addr mod PAGE_SIZE = 0 \<and> addr + n \<le> USER_TOP \<and> MMAP_MIN \<le> addr
                \<and> (\<forall>b. addr \<le> b \<and> b < addr + n \<longrightarrow> view (as_vmas (fst s)) b = None)
             then start = addr
             else MMAP_MIN \<le> start \<and> start + n \<le> min (as_mmap_hint (fst s)) MMAP_TOP
               \<and> (\<forall>g > start. g + n \<le> min (as_mmap_hint (fst s)) MMAP_TOP \<longrightarrow>
                    (\<exists>b. g \<le> b \<and> b < g + n \<and> view (as_vmas (fst s)) b \<noteq> None)))"
proof -
  have n: "0 < n" "n mod PAGE_SIZE = 0" "addr + n < 2 ^ 64"
    using page_align_up_spec [of len] assms(2,3) by (auto simp: n_def)
  have inv: "vmas_inv (as_vmas (fst s))" using assms(1) by (simp add: aspace_inv_def)
  obtain r1 s1 where p: "mmap_place addr n flags s = (r1, s1)" by (cases "mmap_place addr n flags s")
  note place = mmap_place_spec [OF assms(1) n p, unfolded overlap_views [OF inv n(1)]]
  show ?thesis
  proof (cases r1)
    case (Inl e)
    then have "r = Inl e" "s' = s1" using assms(2,4) p by (simp_all add: mmap_def n_def)
    then show ?thesis using place Inl by simp
  next
    case (Inr start)
    then have r: "r = Inr start" "s' = (on_vmas (bt_insert (fresh_vma start n prot flags backing name)) (fst s1), snd s1)"
      using assms(2,4) p by (simp_all add: mmap_def n_def)
    note pl = place [unfolded Inr sum.case]
    have as1: "aspace_inv (fst s1)" and at: "start mod PAGE_SIZE = 0" "start + n \<le> USER_TOP"
      and views: "\<forall>b. view (as_vmas (fst s1)) b = (if start \<le> b \<and> b < start + n then None else view (as_vmas (fst s)) b)"
      using pl by iprover+
    note vs = views [rule_format]
    have inv1: "vmas_inv (as_vmas (fst s1))" using as1 by (simp add: aspace_inv_def)
    have "\<forall>v \<in> set (as_vmas (fst s1)). \<not> overlaps start (start + n) v" using vs by (simp add: overlap_views [OF inv1 n(1)])
    note ins = install_spec [OF inv1 at(1) n(2,1) at(2) this]
    have new: "aspace_inv (fst s')" "view (as_vmas (fst s')) = (\<lambda>b. if start \<le> b \<and> b < start + n
            then Some (prot, has flags MAP_SHARED, shift_backing (b - start) backing, name)
            else view (as_vmas (fst s)) b)"
      using as1 ins by (auto simp: r aspace_inv_def vs fun_eq_iff)
    show ?thesis unfolding r(1) sum.case using pl new by (elim conjE) (intro conjI; assumption)
  qed
qed

text \<open>An address space with one private file mapping of three pages.\<close>

definition demo_file_vma :: vma where
  "demo_file_vma = \<lparr>v_start = 0x20000, v_end = 0x23000, v_prot = 3, v_shared = False, v_backing = FileB 7 0x1000,
     v_name = ''/lib/c''\<rparr>"

definition demo_as :: aspace where
  "demo_as = aspace_new\<lparr>as_vmas := [demo_file_vma], as_brk_start := 0x20000, as_brk := 0x23000\<rparr>"

definition demo_mc :: machine where
  "demo_mc = \<lparr>mc_frames = \<lparr>fs_pmm = demo_pmm, fs_refs = replicate 300 0\<rparr>, mc_mem = (\<lambda>_. [])\<rparr>"

lemma demo_as_inv: "aspace_inv demo_as" "vmas_inv [demo_file_vma]"
  by (simp_all add: aspace_inv_def demo_as_def aspace_new_def vmas_inv_def vma_ok_def demo_file_vma_def
      MMAP_TOP_def PAGE_SIZE_def USER_TOP_def)

lemma demo_as_vmas: "as_vmas demo_as = [demo_file_vma]" "as_brk_start demo_as = 0x20000" "as_brk demo_as = 0x23000"
  by (simp_all add: demo_as_def)

lemma demo_view: "view [demo_file_vma] b =
    (if 0x20000 \<le> b \<and> b < 0x23000 then Some (3, False, FileB 7 (wadd 0x1000 (b - 0x20000)), ''/lib/c'') else None)"
  by (auto simp: view_def find_vma_def last_below_def demo_file_vma_def contains_def vma_view_def)

theorem munmap_exact_witness:
  "view (as_vmas (fst (snd (munmap 0x21000 0x1000 (demo_as, demo_mc))))) 0x21000 = None
   \<and> view (as_vmas (fst (snd (munmap 0x21000 0x1000 (demo_as, demo_mc))))) 0x22000 = Some (3, False, FileB 7 0x3000, ''/lib/c'')"
  using munmap_exact [of "(demo_as, demo_mc)" "0x21000" "0x1000"] demo_as_inv
  by (simp add: demo_as_vmas demo_view PAGE_SIZE_def page_align_up_def page_align_down_def wadd_def)

theorem mmap_exact_witness:
  "\<exists>start s'. mmap 0 0x1800 1 2 Anon ''[anon]'' (demo_as, demo_mc) = (Inr start, s')
     \<and> view (as_vmas (fst s')) start = Some (1, False, Anon, ''[anon]'')
     \<and> view (as_vmas (fst s')) 0x20000 = view (as_vmas demo_as) 0x20000"
proof -
  obtain r s' where r: "mmap 0 0x1800 1 2 Anon ''[anon]'' (demo_as, demo_mc) = (r, s')"
    by (cases "mmap 0 0x1800 1 2 Anon ''[anon]'' (demo_as, demo_mc)")
  note m = mmap_exact [OF _ _ _ r, simplified fst_conv snd_conv, OF demo_as_inv(1)]
  have up: "page_align_up 0x1800 = 0x2000"
    by (simp add: page_align_up_def page_align_down_def wadd_def PAGE_SIZE_def)
  have flags: "\<not> has (2 :: u32) MAP_FIXED" "\<not> has (2 :: u32) MAP_SHARED"
    by (simp_all add: has_def MAP_FIXED_def MAP_SHARED_def)
  have "\<exists>start. r = Inr start \<and> start = 0x7efffffde000 + 0x20000"
    using r flags by (simp add: mmap_def mmap_place_def up find_gap_def gap_loop.simps demo_as_def aspace_new_def
      demo_file_vma_def last_below_def MMAP_TOP_def MMAP_MIN_def)
  then show ?thesis using m flags r by (auto simp: up demo_as_vmas demo_view)
qed



text \<open>
  A length whose end wraps around is not rejected: \<open>mprotect\<close> of a page below the top of the
  address space with such a length panics the kernel, whatever the address space holds.
\<close>

theorem mprotect_wrap_panics: "mprotect 0x10000 (2 ^ 64 - 0x10000) prot a = None"
proof -
  have "page_align_up (2 ^ 64 - 0x10000) = 2 ^ 64 - 0x10000"
    by (simp add: page_align_up_def page_align_down_def wadd_def PAGE_SIZE_def)
  then have "wadd 0x10000 (page_align_up (2 ^ 64 - 0x10000)) = 0" by (simp add: wadd_def)
  then show ?thesis by (simp add: mprotect_def PAGE_SIZE_def)
qed

text \<open>
  A break close to the top of the address space wraps to zero when it is rounded: instead of
  refusing it, \<open>brk\<close> reports success and unmaps every page below the current end of the heap, the
  program itself included.
\<close>

theorem brk_wrap_unmaps_everything:
  assumes "aspace_inv (fst s)" "as_brk_start (fst s) \<le> as_brk (fst s)" "0 < as_brk (fst s)" "as_brk (fst s) \<le> USER_TOP"
    and "b < page_align_up (as_brk (fst s))"
  shows "fst (brk (2 ^ 64 - 1) s) = 2 ^ 64 - 1 \<and> view (as_vmas (fst (snd (brk (2 ^ 64 - 1) s)))) b = None"
proof -
  let ?cur = "page_align_up (as_brk (fst s))"
  have up: "page_align_up (2 ^ 64 - 1) = 0"
    by (simp add: page_align_up_def page_align_down_def wadd_def PAGE_SIZE_def)
  have cur: "0 < ?cur" "?cur mod PAGE_SIZE = 0" "?cur < 2 ^ 64"
    using page_align_up_spec [of "as_brk (fst s)"] assms(3,4) by (auto simp: USER_TOP_def)
  have "brk (2 ^ 64 - 1) s = (2 ^ 64 - 1, (fst (unmap_locked 0 ?cur s))\<lparr>as_brk := 2 ^ 64 - 1\<rparr>, snd (unmap_locked 0 ?cur s))"
    using assms(2,4) cur(1) up by (simp add: brk_def Let_def USER_TOP_def)
  then show ?thesis
    using unmap_locked_spec(2) [of s 0 ?cur b] assms(1,5) cur by (simp add: aspace_inv_def)
qed

theorem brk_wrap_unmaps_everything_witness:
  "fst (brk (2 ^ 64 - 1) (demo_as, demo_mc)) = 2 ^ 64 - 1
   \<and> view (as_vmas demo_as) 0x20000 \<noteq> None
   \<and> view (as_vmas (fst (snd (brk (2 ^ 64 - 1) (demo_as, demo_mc))))) 0x20000 = None"
  using brk_wrap_unmaps_everything [of "(demo_as, demo_mc)" "0x20000"] demo_as_inv(1)
  by (simp add: demo_as_vmas demo_view USER_TOP_def PAGE_SIZE_def page_align_up_def page_align_down_def wadd_def)

section \<open>Access checks\<close>

lemma check_loop_iff:
  assumes "vmas_inv vs"
  shows "check_loop vs va e wr = Inr () \<longleftrightarrow> (\<forall>b. va \<le> b \<and> b < e \<longrightarrow> (\<exists>v. find_vma vs b = Some v \<and> grants v wr))"
  using assms
proof (induction vs va e wr rule: check_loop.induct)
  case (1 vs va e wr)
  show ?case
  proof (cases "va < e")
    case False
    then show ?thesis by (subst check_loop.simps) auto
  next
    case lt: True
    show ?thesis
    proof (cases "find_vma vs va")
      case None
      then show ?thesis using lt by (subst check_loop.simps) auto
    next
      case (Some v)
      show ?thesis
      proof (cases "grants v wr")
        case False
        then show ?thesis using lt Some by (subst check_loop.simps) auto
      next
        case True
        have v: "v \<in> set vs" "v_start v \<le> va" using find_vma_iff [OF 1(2)] Some by (auto simp: contains_def)
        have in_v: "find_vma vs b = Some v" if "va \<le> b" "b < v_end v" for b
          using find_vma_iff [OF 1(2), of b v] v that by (simp add: contains_def)
        have "check_loop vs va e wr = check_loop vs (v_end v) e wr"
          using lt Some True by (subst check_loop.simps) simp
        moreover have "\<not> \<not> grants v wr" using True by simp
        note 1(1) [OF lt Some this 1(2)]
        moreover have "(\<forall>b. va \<le> b \<and> b < e \<longrightarrow> (\<exists>v. find_vma vs b = Some v \<and> grants v wr)) \<longleftrightarrow>
            (\<forall>b. v_end v \<le> b \<and> b < e \<longrightarrow> (\<exists>v. find_vma vs b = Some v \<and> grants v wr))"
          using in_v True v find_vma_iff [OF 1(2), of va v] Some
          by (metis contains_def le_trans less_imp_le_nat linorder_not_le)
        ultimately show ?thesis by simp
      qed
    qed
  qed
qed

text \<open>
  The access check is exact: it accepts a non-empty range if and only if the range lies in user
  memory, without wrap-around, and every single byte of it belongs to an area that grants the access.
\<close>

theorem check_range_exact:
  assumes "vmas_inv (as_vmas a)" "0 < len"
  shows "check_range a addr len wr = Inr () \<longleftrightarrow> addr + len \<le> USER_TOP
    \<and> (\<forall>b. addr \<le> b \<and> b < addr + len \<longrightarrow> (\<exists>v. find_vma (as_vmas a) b = Some v \<and> grants v wr))"
  using check_loop_iff [OF assms(1)] assms(2) by (auto simp: check_range_def USER_TOP_def)

theorem check_range_exact_witness:
  "check_range demo_as 0x20800 0x2000 True = Inr () \<and> check_range demo_as 0x22800 0x1000 False \<noteq> Inr ()"
proof -
  have inv: "vmas_inv (as_vmas demo_as)" using demo_as_inv(2) by (simp add: demo_as_vmas)
  have f: "find_vma (as_vmas demo_as) b = (if 0x20000 \<le> b \<and> b < 0x23000 then Some demo_file_vma else None)" for b
    by (auto simp: demo_as_vmas find_vma_def last_below_def demo_file_vma_def contains_def)
  have "grants demo_file_vma True" by (simp add: grants_def demo_file_vma_def has_def PROT_WRITE_def)
  then have "check_range demo_as 0x20800 0x2000 True = Inr ()"
    using check_range_exact [OF inv, of "0x2000" "0x20800" True] f by (simp add: USER_TOP_def)
  moreover have "\<exists>b. 0x22800 \<le> b \<and> b < 0x22800 + 0x1000 \<and> find_vma (as_vmas demo_as) b = None"
    by (rule exI [of _ "0x23000"]) (simp add: f)
  then have "check_range demo_as 0x22800 0x1000 False \<noteq> Inr ()"
    using check_range_exact [OF inv, of "0x1000" "0x22800" False] by force
  ultimately show ?thesis ..
qed

section \<open>Faulting pages in\<close>

lemma has_bit: "has f (push_bit n 1) \<longleftrightarrow> bit f n"
  by (simp only: has_def bit_iff_and_push_bit_not_eq_0)

lemmas flag_defs = PRESENT_def WRITABLE_def USER_def WRITE_THROUGH_def NO_CACHE_def ACCESSED_def DIRTY_def COW_def NX_def

lemma flag_bits: "has f PRESENT = bit f 0" "has f WRITABLE = bit f 1" "has f COW = bit f 9"
  by (simp_all only: flag_defs has_bit)

lemma bit_push_1: "bit (push_bit m 1 :: u64) n \<longleftrightarrow> n = m \<and> m < 64"
  by (auto simp: bit_simps)

lemma has_flag [simp]:
  "has (f OR g) PRESENT \<longleftrightarrow> has f PRESENT \<or> has g PRESENT"
  "has (f OR g) WRITABLE \<longleftrightarrow> has f WRITABLE \<or> has g WRITABLE"
  "has (f OR g) COW \<longleftrightarrow> has f COW \<or> has g COW"
  "has (f AND NOT WRITABLE) PRESENT = has f PRESENT" "has (f AND NOT COW) PRESENT = has f PRESENT"
  "\<not> has (f AND NOT WRITABLE) WRITABLE" "has (f AND NOT COW) WRITABLE = has f WRITABLE"
  "has (f AND NOT WRITABLE) COW = has f COW" "\<not> has (f AND NOT COW) COW"
  unfolding flag_bits unfolding bit_or_iff bit_and_iff bit_not_iff flag_defs bit_push_1 by simp_all

lemma has_flag_flag [simp]:
  "has PRESENT PRESENT" "\<not> has PRESENT WRITABLE" "\<not> has PRESENT COW"
  "has WRITABLE WRITABLE" "\<not> has WRITABLE PRESENT" "\<not> has WRITABLE COW"
  "has COW COW" "\<not> has COW PRESENT" "\<not> has COW WRITABLE"
  "\<not> has USER PRESENT" "\<not> has USER WRITABLE" "\<not> has USER COW"
  "\<not> has NX PRESENT" "\<not> has NX WRITABLE" "\<not> has NX COW"
  "\<not> has NO_CACHE PRESENT" "\<not> has NO_CACHE WRITABLE" "\<not> has NO_CACHE COW"
  "\<not> has WRITE_THROUGH PRESENT" "\<not> has WRITE_THROUGH WRITABLE" "\<not> has WRITE_THROUGH COW"
  unfolding flag_bits unfolding flag_defs bit_push_1 by simp_all

lemma pte_flags_has [simp]:
  "has (pte_flags v) PRESENT" "has (pte_flags v) WRITABLE \<longleftrightarrow> has (v_prot v) PROT_WRITE" "\<not> has (pte_flags v) COW"
  by (simp_all add: pte_flags_def Let_def)

text \<open>Faulting a page in leaves the areas and every other page of the address space alone.\<close>

definition same_but :: "nat \<Rightarrow> aspace \<Rightarrow> aspace \<Rightarrow> bool" where
  "same_but pg a a' \<longleftrightarrow> as_vmas a' = as_vmas a \<and> (\<forall>q. q \<noteq> pg \<longrightarrow> as_ptab a' q = as_ptab a q)"

lemma same_but_pt_map [simp]:
  "same_but (va div PAGE_SIZE) a (pt_map va pa f a)" "same_but (va div PAGE_SIZE) a ((pt_map va pa f a)\<lparr>as_rss := r\<rparr>)"
  "same_but pg a a"
  by (simp_all add: same_but_def pt_map_def)

lemma page_mapped_pt_map [simp]:
  "page_mapped (pt_map va pa f a) va wr \<longleftrightarrow> \<not> wr \<or> has f WRITABLE"
  "page_mapped (a\<lparr>as_rss := r\<rparr>) va wr = page_mapped a va wr"
  by (auto simp: page_mapped_def pt_translate_def pt_map_def)

lemma cow_page_spec:
  assumes "cow_page va pa f s = (r, s')"
  shows "same_but (va div PAGE_SIZE) (fst s) (fst s')" "r = Inr () \<Longrightarrow> page_mapped (fst s') va wr"
  using assms
  by (auto simp: cow_page_def split: if_splits prod.splits option.splits)

lemma fault_in_spec:
  assumes "fault_in get_page v va wr s = (r, s')"
  shows "same_but (va div PAGE_SIZE) (fst s) (fst s')"
    "r = Inr () \<Longrightarrow> (wr \<Longrightarrow> has (v_prot v) PROT_WRITE) \<Longrightarrow> page_mapped (fst s') va wr"
  using assms
  by (auto simp: fault_in_def Let_def split: backing.splits prod.splits option.splits sum.splits if_splits)

lemma populate_page_spec:
  assumes "populate_page get_page v va wr s = (r, s')"
  shows "same_but (va div PAGE_SIZE) (fst s) (fst s')"
    "r = Inr () \<Longrightarrow> (wr \<Longrightarrow> has (v_prot v) PROT_WRITE) \<Longrightarrow> page_mapped (fst s') va wr"
proof -
  consider (cow) pa f where "pt_translate (fst s) va = Some (pa, f)" "cow_page va pa f s = (r, s')"
    | (denied) "s' = s" "r \<noteq> Inr ()"
    | (there) "s' = s" "page_mapped (fst s) va wr"
    | (absent) "fault_in get_page v va wr s = (r, s')"
    using assms by (auto simp: populate_page_def page_mapped_def split: option.splits if_splits)
  then have "same_but (va div PAGE_SIZE) (fst s) (fst s')
    \<and> (r = Inr () \<longrightarrow> (wr \<longrightarrow> has (v_prot v) PROT_WRITE) \<longrightarrow> page_mapped (fst s') va wr)"
  proof cases
    case cow
    then show ?thesis using cow_page_spec [OF cow(2)] by blast
  next
    case absent
    then show ?thesis using fault_in_spec [OF absent] by blast
  qed simp_all
  then show "same_but (va div PAGE_SIZE) (fst s) (fst s')"
    "r = Inr () \<Longrightarrow> (wr \<Longrightarrow> has (v_prot v) PROT_WRITE) \<Longrightarrow> page_mapped (fst s') va wr" by auto
qed

lemma same_but_page_mapped:
  assumes "same_but pg a a'" "va div PAGE_SIZE \<noteq> pg"
  shows "page_mapped a' va wr = page_mapped a va wr"
  using assms by (simp add: same_but_def page_mapped_def pt_translate_def)

lemma page_mapped_div:
  assumes "va div PAGE_SIZE = va' div PAGE_SIZE"
  shows "page_mapped a va wr = page_mapped a va' wr"
  using assms by (simp add: page_mapped_def pt_translate_def)

lemma populate_loop_keeps:
  assumes "populate_loop get_page vas wr s = (r, s')" "page_mapped (fst s) va wr"
    and "va div PAGE_SIZE \<notin> (\<lambda>va. va div PAGE_SIZE) ` set vas"
  shows "page_mapped (fst s') va wr"
  using assms
proof (induction vas arbitrary: s)
  case (Cons x vas)
  consider "s' = s" | "populate_loop get_page vas wr s = (r, s')"
    | v s1 r1 where "populate_page get_page v x wr s = (r1, s1)" "s' = s1 \<or> populate_loop get_page vas wr s1 = (r, s')"
    using Cons.prems(1) by (auto split: option.splits if_splits prod.splits sum.splits)
  then show ?case
  proof cases
    case (3 v s1 r1)
    have "page_mapped (fst s1) va wr"
      using same_but_page_mapped [OF populate_page_spec(1) [OF 3(1)]] Cons.prems(2,3) by auto
    then show ?thesis using 3(2) Cons.IH [of s1] Cons.prems by auto
  qed (use Cons in auto)
qed simp

lemma pages_from_mem:
  "x \<in> set (pages_from lo hi) \<longleftrightarrow> lo \<le> x \<and> x < hi \<and> (x - lo) mod PAGE_SIZE = 0"
proof (induction lo hi rule: pages_from.induct)
  case (1 lo hi)
  have step: "x = lo \<or> (lo + PAGE_SIZE \<le> x \<and> (x - (lo + PAGE_SIZE)) mod PAGE_SIZE = 0) \<longleftrightarrow> lo \<le> x \<and> (x - lo) mod PAGE_SIZE = 0"
  proof (cases "lo + PAGE_SIZE \<le> x")
    case True
    then show ?thesis using le_mod_geq [of PAGE_SIZE "x - lo"] by auto
  next
    case False
    then have "\<not> (lo < x \<and> PAGE_SIZE dvd x - lo)" using dvd_imp_le [of PAGE_SIZE "x - lo"] by linarith
    then show ?thesis using False by (metis cancel_comm_monoid_add_class.diff_cancel dvd_eq_mod_eq_0 le_neq_implies_less mod_0 order.refl)
  qed
  show ?case
  proof (cases "lo < hi")
    case True
    then have "set (pages_from lo hi) = insert lo (set (pages_from (lo + PAGE_SIZE) hi))"
      by (subst pages_from.simps) simp
    then have "x \<in> set (pages_from lo hi) \<longleftrightarrow> x = lo \<or>
        (lo + PAGE_SIZE \<le> x \<and> x < hi \<and> (x - (lo + PAGE_SIZE)) mod PAGE_SIZE = 0)"
      by (simp only: insert_iff 1 [OF True])
    then show ?thesis using step True by metis
  next
    case False
    then show ?thesis by (subst pages_from.simps) auto
  qed
qed

lemma pages_from_Cons: "lo < hi \<Longrightarrow> pages_from lo hi = lo # pages_from (lo + PAGE_SIZE) hi"
  by (subst pages_from.simps) simp

lemma pages_from_later:
  assumes "x \<in> set (pages_from (lo + PAGE_SIZE) hi)"
  shows "lo div PAGE_SIZE < x div PAGE_SIZE"
proof -
  have "lo + PAGE_SIZE \<le> x" using assms pages_from_mem by blast
  then have "(lo + PAGE_SIZE) div PAGE_SIZE \<le> x div PAGE_SIZE" by (rule div_le_mono)
  then show ?thesis using top_facts(4) by (simp add: div_add_self2)
qed

lemma populate_loop_maps:
  assumes "populate_loop get_page (pages_from lo hi) wr s = (Inr (), s')" "va \<in> set (pages_from lo hi)"
  shows "page_mapped (fst s') va wr \<and> (\<exists>v. find_vma (as_vmas (fst s)) va = Some v \<and> grants v wr)"
  using assms
proof (induction lo hi arbitrary: s rule: pages_from.induct)
  case (1 lo hi)
  have lt: "lo < hi" using 1(3) pages_from_mem by fastforce
  have loop: "populate_loop get_page (lo # pages_from (lo + PAGE_SIZE) hi) wr s = (Inr (), s')"
    using 1(2) pages_from_Cons [OF lt] by simp
  then obtain v where v: "find_vma (as_vmas (fst s)) lo = Some v" "grants v wr"
    by (auto split: option.splits if_splits)
  obtain s1 where s1: "page_mapped (fst s1) lo wr" "as_vmas (fst s1) = as_vmas (fst s)"
    "populate_loop get_page (pages_from (lo + PAGE_SIZE) hi) wr s1 = (Inr (), s')"
  proof (cases "page_mapped (fst s) lo wr")
    case True
    then show ?thesis using that loop v by simp
  next
    case False
    obtain r1 s2 where p: "populate_page get_page v lo wr s = (r1, s2)" by (cases "populate_page get_page v lo wr s")
    have "r1 = Inr ()" and "populate_loop get_page (pages_from (lo + PAGE_SIZE) hi) wr s2 = (Inr (), s')"
      using loop v False p by (auto split: sum.splits)
    moreover have "wr \<Longrightarrow> has (v_prot v) PROT_WRITE" using v(2) by (simp add: grants_def)
    ultimately show ?thesis using that populate_page_spec [OF p] by (auto simp: same_but_def)
  qed
  show ?case
  proof (cases "va = lo")
    case True
    have "lo div PAGE_SIZE \<notin> (\<lambda>va. va div PAGE_SIZE) ` set (pages_from (lo + PAGE_SIZE) hi)"
      using pages_from_later by fastforce
    then show ?thesis using populate_loop_keeps [OF s1(3,1)] v True by simp
  next
    case False
    then have "va \<in> set (pages_from (lo + PAGE_SIZE) hi)" using 1(3) pages_from_Cons [OF lt] by simp
    then show ?thesis using 1(1) [OF lt s1(3)] s1(2) by simp
  qed
qed

text \<open>
  Before the kernel touches user memory the range is populated: when that succeeds, the range is
  in user memory and every byte of it lies in a page that belongs to an area granting the access and
  is mapped with it (writable entries for a write, copy-on-write included), whatever the page cache
  does. A fault in the kernel's own access is then impossible.
\<close>

theorem populate_range_maps:
  assumes "populate_range get_page addr len wr s = (Inr (), s')" "addr \<le> b" "b < addr + len"
  shows "addr + len \<le> USER_TOP \<and> page_mapped (fst s') b wr
    \<and> (\<exists>v. find_vma (as_vmas (fst s)) (page_align_down b) = Some v \<and> grants v wr)"
proof -
  let ?va = "page_align_down b"
  have "0 < len" using assms by auto
  then have r: "addr + len \<le> USER_TOP"
    "populate_loop get_page (pages_from (page_align_down addr) (addr + len)) wr s = (Inr (), s')"
    using assms(1) by (auto simp: populate_range_def split: if_splits)
  have "addr div PAGE_SIZE \<le> b div PAGE_SIZE" using assms(2) by (rule div_le_mono)
  then have "page_align_down addr \<le> ?va" "(?va - page_align_down addr) mod PAGE_SIZE = 0"
    by (simp_all add: page_align_down_def diff_mult_distrib [symmetric])
  moreover have "?va \<le> b" by (simp add: page_align_down_def)
  ultimately have "?va \<in> set (pages_from (page_align_down addr) (addr + len))"
    using assms(3) pages_from_mem by simp
  note m = populate_loop_maps [OF r(2) this]
  have "?va div PAGE_SIZE = b div PAGE_SIZE" by (simp add: page_align_down_def PAGE_SIZE_def)
  then show ?thesis using m r(1) page_mapped_div [of ?va b] by simp
qed

definition demo_heap_as :: aspace where
  "demo_heap_as = aspace_new\<lparr>as_vmas := [heap_vma 0x20000 0x23000]\<rparr>"

lemma demo_alloc: "\<exists>pa m. mc_alloc_zeroed demo_mc = (Some pa, m)"
proof -
  have "free_set demo_pmm \<noteq> {}" using demo_pmm_facts(2) by simp
  then obtain pa p where "alloc_one demo_pmm = (Some pa, p)"
    using alloc_one_spec [OF demo_pmm_facts(1)]
    by (cases "alloc_one demo_pmm"; cases "fst (alloc_one demo_pmm)") auto
  then show ?thesis by (simp add: mc_alloc_zeroed_def mc_alloc_def alloc_frame_ref_def demo_mc_def)
qed

theorem populate_range_maps_witness:
  "\<exists>s'. populate_range (\<lambda>_ _ m. (Inl EIO, m)) 0x21ff0 8 True (demo_heap_as, demo_mc) = (Inr (), s')
     \<and> page_mapped (fst s') 0x21ff7 True"
proof -
  obtain pa m where al: "mc_alloc_zeroed demo_mc = (Some pa, m)" using demo_alloc by blast
  have f: "find_vma (as_vmas demo_heap_as) 0x21000 = Some (heap_vma 0x20000 0x23000)"
    by (simp add: demo_heap_as_def find_vma_def last_below_def heap_vma_def contains_def)
  have g: "grants (heap_vma 0x20000 0x23000) True"
    by (simp add: grants_def heap_vma_def has_def PROT_WRITE_def PROT_READ_def)
  have pt: "pt_translate demo_heap_as 0x21000 = None"
    by (simp add: demo_heap_as_def pt_translate_def aspace_new_def)
  have pages: "pages_from (page_align_down 0x21ff0) (0x21ff0 + 8) = [0x21000]"
    by (simp add: page_align_down_def pages_from.simps PAGE_SIZE_def)
  have "v_backing (heap_vma 0x20000 0x23000) = Anon" by (simp add: heap_vma_def)
  then have "\<exists>s'. populate_range (\<lambda>_ _ m. (Inl EIO, m)) 0x21ff0 8 True (demo_heap_as, demo_mc) = (Inr (), s')"
    using f g pt al pages
    by (simp add: populate_range_def USER_TOP_def page_mapped_def populate_page_def fault_in_def Let_def)
  then obtain s' where s': "populate_range (\<lambda>_ _ m. (Inl EIO, m)) 0x21ff0 8 True (demo_heap_as, demo_mc) = (Inr (), s')" ..
  then show ?thesis using populate_range_maps [OF s', of "0x21ff7"] by auto
qed

end
