(* ===== verification/Cow.thy ===== *)
theory Cow
  imports Addrspace
begin

text \<open>
  Copy-on-write across address spaces (\<open>fork\<close>, \<open>fault\<close> and \<open>populate_page\<close> of mm/addrspace.rs over
  the reference counts of mm/pmm.rs): which page table entries of which address spaces share a
  frame, the invariant that ties them to the reference counts, its preservation by page faults and
  by \<open>fork\<close>, and the isolation of private pages that follows from it.
\<close>

section \<open>Invariant\<close>

text \<open>The entries, over all address spaces, that map a frame.\<close>

definition mappers :: "aspace list \<Rightarrow> nat \<Rightarrow> (nat \<times> nat) set" where
  "mappers sp f = {(i, pg). i < length sp \<and> (\<exists>pa fl. as_ptab (sp ! i) pg = Some (pa, fl) \<and> pa div FRAME = f)}"

definition private_page :: "aspace \<Rightarrow> nat \<Rightarrow> bool" where
  "private_page a pg \<longleftrightarrow> (\<exists>v. find_vma (as_vmas a) (pg * PAGE_SIZE) = Some v \<and> \<not> v_shared v \<and> \<not> is_phys (v_backing v))"

definition refs :: "machine \<Rightarrow> nat \<Rightarrow> u32" where
  "refs m f = fs_refs (mc_frames m) ! f"

definition nframes :: "machine \<Rightarrow> nat" where
  "nframes m = pm_frames (fs_pmm (mc_frames m))"

definition avail :: "machine \<Rightarrow> nat set" where
  "avail m = free_set (fs_pmm (mc_frames m))"

text \<open>Every frame has a count, and the free frames have count zero.\<close>

definition frames_ok :: "machine \<Rightarrow> bool" where
  "frames_ok m \<longleftrightarrow> pmm_inv (fs_pmm (mc_frames m)) \<and> length (fs_refs (mc_frames m)) = nframes m
     \<and> (\<forall>f \<in> avail m. refs m f = 0)"

text \<open>A counted frame has at least as many references as entries that map it, no entry maps a free
  frame, and a writable entry of a private page holds the only reference to its frame.\<close>

definition counts_ok :: "aspace list \<Rightarrow> machine \<Rightarrow> bool" where
  "counts_ok sp m \<longleftrightarrow> (\<forall>f. finite (mappers sp f)) \<and> (\<forall>f \<in> avail m. mappers sp f = {})
     \<and> (\<forall>f < nframes m. refs m f \<noteq> 0 \<longrightarrow> card (mappers sp f) \<le> unat (refs m f))"

definition entry_ok :: "machine \<Rightarrow> aspace \<Rightarrow> nat \<Rightarrow> bool" where
  "entry_ok m a pg \<longleftrightarrow> (case as_ptab a pg of
      None \<Rightarrow> True
    | Some (pa, fl) \<Rightarrow> has fl PRESENT \<and> (private_page a pg \<longrightarrow> pa mod FRAME = 0 \<and> pa div FRAME < nframes m
        \<and> refs m (pa div FRAME) \<noteq> 0 \<and> (has fl WRITABLE \<longrightarrow> refs m (pa div FRAME) = 1)))"

definition cow_inv :: "aspace list \<Rightarrow> machine \<Rightarrow> bool" where
  "cow_inv sp m \<longleftrightarrow> frames_ok m \<and> counts_ok sp m \<and> (\<forall>i < length sp. \<forall>pg. entry_ok m (sp ! i) pg)"

section \<open>The machine operations\<close>

lemma mc_alloc_spec:
  assumes "frames_ok m" "mc_alloc m = (Some pa, m')"
  shows "frames_ok m'" "pa mod FRAME = 0" "pa div FRAME \<in> avail m" "pa div FRAME < nframes m" "nframes m' = nframes m"
    "avail m' = avail m - {pa div FRAME}" "refs m' = (refs m)(pa div FRAME := 1)" "mc_mem m' = mc_mem m"
proof -
  let ?fs = "mc_frames m"
  obtain p where one: "alloc_one (fs_pmm ?fs) = (Some pa, p)" and m': "m' = m\<lparr>mc_frames := snd (alloc_frame_ref ?fs)\<rparr>"
    using assms(2) by (auto simp: mc_alloc_def alloc_frame_ref_def split: prod.splits option.splits)
  obtain f where f: "f \<in> free_set (fs_pmm ?fs)" "pa = f * FRAME" "pmm_inv p" "free_set p = free_set (fs_pmm ?fs) - {f}"
    "pm_frames p = pm_frames (fs_pmm ?fs)"
    using alloc_one_spec [of "fs_pmm ?fs"] assms(1) unfolding one by (auto simp: frames_ok_def)
  have F: "pa div FRAME = f" "pa mod FRAME = 0" using f(2) by (simp_all add: FRAME_def)
  have lt: "f < nframes m" "f < length (fs_refs ?fs)"
    using f(1) assms(1) by (auto simp: free_set_def nframes_def frames_ok_def)
  have e: "mc_frames m' = ?fs\<lparr>fs_pmm := p, fs_refs := (fs_refs ?fs)[f := 1]\<rparr>" "mc_mem m' = mc_mem m"
    using one F lt by (simp_all add: m' alloc_frame_ref_def)
  show "pa mod FRAME = 0" "pa div FRAME \<in> avail m" "pa div FRAME < nframes m" using F f(1) lt by (simp_all add: avail_def)
  show n: "nframes m' = nframes m" and a: "avail m' = avail m - {pa div FRAME}" and "mc_mem m' = mc_mem m"
    using f F e by (simp_all add: nframes_def avail_def)
  show r: "refs m' = (refs m)(pa div FRAME := 1)"
    using lt e F by (auto simp: refs_def nth_list_update)
  show "frames_ok m'"
    using assms(1) f(3) e n unfolding frames_ok_def a r by (auto simp: nframes_def)
qed

lemma mc_ref_inc_spec:
  assumes "frames_ok m"
  shows "refs (mc_ref_inc pa m) = (if pa div FRAME < nframes m \<and> refs m (pa div FRAME) \<noteq> 0
      then (refs m)(pa div FRAME := refs m (pa div FRAME) + 1) else refs m)"
    "nframes (mc_ref_inc pa m) = nframes m" "avail (mc_ref_inc pa m) = avail m" "mc_mem (mc_ref_inc pa m) = mc_mem m"
    "frames_ok (mc_ref_inc pa m)"
proof -
  show r: "refs (mc_ref_inc pa m) = (if pa div FRAME < nframes m \<and> refs m (pa div FRAME) \<noteq> 0
      then (refs m)(pa div FRAME := refs m (pa div FRAME) + 1) else refs m)"
    using assms by (auto simp: refs_def mc_ref_inc_def ref_inc_def frames_ok_def fun_eq_iff nth_list_update)
  show n: "nframes (mc_ref_inc pa m) = nframes m" and a: "avail (mc_ref_inc pa m) = avail m"
    and "mc_mem (mc_ref_inc pa m) = mc_mem m"
    by (simp_all add: nframes_def avail_def mc_ref_inc_def ref_inc_def)
  have "length (fs_refs (mc_frames (mc_ref_inc pa m))) = length (fs_refs (mc_frames m))"
    "fs_pmm (mc_frames (mc_ref_inc pa m)) = fs_pmm (mc_frames m)"
    by (simp_all add: mc_ref_inc_def ref_inc_def)
  then show "frames_ok (mc_ref_inc pa m)"
    using assms unfolding frames_ok_def n a r by auto
qed

lemma mc_ref_dec_spec:
  assumes "frames_ok m" "pa mod FRAME = 0" "pa div FRAME < nframes m" "refs m (pa div FRAME) \<noteq> 0"
  shows "refs (mc_ref_dec pa m) = (refs m)(pa div FRAME := refs m (pa div FRAME) - 1)"
    "nframes (mc_ref_dec pa m) = nframes m" "mc_mem (mc_ref_dec pa m) = mc_mem m"
    "avail (mc_ref_dec pa m) = (if refs m (pa div FRAME) = 1 then insert (pa div FRAME) (avail m) else avail m)"
    "frames_ok (mc_ref_dec pa m)"
proof -
  let ?f = "pa div FRAME" and ?m = "mc_ref_dec pa m"
  have pa: "pa = ?f * FRAME" using div_mult_mod_eq [of pa FRAME] assms(2) by simp
  have len: "?f < length (fs_refs (mc_frames m))" using assms(1,3) by (simp add: frames_ok_def)
  have inv: "pmm_inv (fs_pmm (mc_frames m))" "?f < pm_frames (fs_pmm (mc_frames m))"
    using assms(1,3) by (simp_all add: frames_ok_def nframes_def)
  note fr = free_frame_spec [OF inv, folded pa]
  have e: "fs_refs (mc_frames ?m) = (fs_refs (mc_frames m))[?f := refs m ?f - 1]"
    "fs_pmm (mc_frames ?m) = (if refs m ?f = 1 then free_frame pa (fs_pmm (mc_frames m)) else fs_pmm (mc_frames m))"
    using len assms(4) by (auto simp: mc_ref_dec_def ref_dec_def Let_def refs_def)
  show r: "refs ?m = (refs m)(?f := refs m ?f - 1)"
    using len e(1) by (auto simp: refs_def [abs_def] nth_list_update fun_eq_iff)
  show n: "nframes ?m = nframes m" and a: "avail ?m = (if refs m ?f = 1 then insert ?f (avail m) else avail m)"
    using fr(2,3) e(2) by (simp_all add: nframes_def avail_def)
  show "mc_mem ?m = mc_mem m" by (simp add: mc_ref_dec_def)
  have "pmm_inv (fs_pmm (mc_frames ?m))" using fr(1) inv(1) e(2) by simp
  then show "frames_ok ?m"
    using assms(1,4) e(1) unfolding frames_ok_def n a r by auto
qed

section \<open>Installing an entry\<close>

lemma mappers_pt_map:
  assumes "i < length sp" "pg = va div PAGE_SIZE" "as_ptab a' = (as_ptab (sp ! i))(pg := Some (pa, fl))"
  shows "mappers (sp[i := a']) f = mappers sp f - {(i, pg)} \<union> (if pa div FRAME = f then {(i, pg)} else {})"
  using assms by (auto simp: mappers_def nth_list_update split: if_splits)

lemma counts_ok_card:
  assumes "counts_ok sp m" "f < nframes m" "refs m f \<noteq> 0"
  shows "card (mappers sp f) \<le> unat (refs m f)"
  using assms by (simp add: counts_ok_def)

lemma sole_mapper:
  assumes "counts_ok sp m" "f < nframes m" "refs m f = 1" "x \<in> mappers sp f" "y \<in> mappers sp f"
  shows "x = y"
proof -
  have "card (mappers sp f) \<le> 1" using counts_ok_card [OF assms(1,2)] assms(3) by simp
  moreover have "finite (mappers sp f)" using assms(1) by (simp add: counts_ok_def)
  ultimately show ?thesis using assms(4,5) by (metis One_nat_def card_le_Suc0_iff_eq)
qed

lemma mapperI: "i < length sp \<Longrightarrow> as_ptab (sp ! i) pg = Some (pa, fl) \<Longrightarrow> (i, pg) \<in> mappers sp (pa div FRAME)"
  by (auto simp: mappers_def)

lemma cow_invD:
  assumes "cow_inv sp m" "i < length sp" "as_ptab (sp ! i) pg = Some (pa, fl)"
  shows "has fl PRESENT" "private_page (sp ! i) pg \<Longrightarrow> pa mod FRAME = 0"
    "private_page (sp ! i) pg \<Longrightarrow> pa div FRAME < nframes m"
    "private_page (sp ! i) pg \<Longrightarrow> refs m (pa div FRAME) \<noteq> 0"
    "private_page (sp ! i) pg \<Longrightarrow> has fl WRITABLE \<Longrightarrow> refs m (pa div FRAME) = 1"
  using assms unfolding cow_inv_def entry_ok_def by (force split: option.splits)+

lemma entry_okI:
  assumes "\<And>pa fl. as_ptab a pg = Some (pa, fl) \<Longrightarrow> has fl PRESENT"
    "\<And>pa fl. as_ptab a pg = Some (pa, fl) \<Longrightarrow> private_page a pg \<Longrightarrow> pa mod FRAME = 0 \<and> pa div FRAME < nframes m
      \<and> refs m (pa div FRAME) \<noteq> 0 \<and> (has fl WRITABLE \<longrightarrow> refs m (pa div FRAME) = 1)"
  shows "entry_ok m a pg"
  using assms by (auto simp: entry_ok_def split: option.splits)

text \<open>
  The general step: entry \<open>pg\<close> of space \<open>i\<close> is replaced by one for a frame whose reference count
  leaves room for it, and the counts of the other frames still cover their entries.
\<close>

lemma cow_inv_install:
  assumes inv: "cow_inv sp m" and i: "i < length sp"
    and a': "as_ptab a' = (as_ptab (sp ! i))(pg := Some (pa, fl))" "as_vmas a' = as_vmas (sp ! i)"
    and fl: "has fl PRESENT" "has fl WRITABLE \<Longrightarrow> refs m' (pa div FRAME) = 1"
    and pa: "pa mod FRAME = 0" "pa div FRAME < nframes m" "refs m' (pa div FRAME) \<noteq> 0"
    and m': "frames_ok m'" "nframes m' = nframes m"
    and counts: "counts_ok (sp[i := a']) m'"
    and others: "\<And>j q pa' fl'. j < length sp \<Longrightarrow> (j, q) \<noteq> (i, pg) \<Longrightarrow> as_ptab (sp ! j) q = Some (pa', fl')
      \<Longrightarrow> pa' div FRAME < nframes m \<Longrightarrow> refs m (pa' div FRAME) \<noteq> 0
      \<Longrightarrow> refs m' (pa' div FRAME) \<noteq> 0 \<and> (refs m (pa' div FRAME) = 1 \<and> has fl' WRITABLE \<longrightarrow> refs m' (pa' div FRAME) = 1)"
  shows "cow_inv (sp[i := a']) m'"
proof -
  have priv: "private_page a' q = private_page (sp ! i) q" for q using a'(2) by (simp add: private_page_def)
  have "entry_ok m' (sp[i := a'] ! j) q" if j: "j < length sp" for j q
  proof (cases "(j, q) = (i, pg)")
    case True
    then show ?thesis using a'(1) fl pa m'(2) i by (auto intro!: entry_okI)
  next
    case False
    have t: "as_ptab (sp[i := a'] ! j) q = as_ptab (sp ! j) q" "private_page (sp[i := a'] ! j) q = private_page (sp ! j) q"
      using False a'(1) priv j i by (auto simp: nth_list_update)
    show ?thesis
    proof (rule entry_okI)
      show "has fl' PRESENT" if "as_ptab (sp[i := a'] ! j) q = Some (pa', fl')" for pa' fl'
        using cow_invD(1) [OF inv j] that t by simp
      show "pa' mod FRAME = 0 \<and> pa' div FRAME < nframes m' \<and> refs m' (pa' div FRAME) \<noteq> 0
          \<and> (has fl' WRITABLE \<longrightarrow> refs m' (pa' div FRAME) = 1)"
        if e: "as_ptab (sp[i := a'] ! j) q = Some (pa', fl')" and p: "private_page (sp[i := a'] ! j) q" for pa' fl'
        using cow_invD [OF inv j, of q pa' fl'] others [OF j False, of pa' fl'] e p t m'(2) by simp
    qed
  qed
  then show ?thesis using m'(1) counts by (simp add: cow_inv_def)
qed

section \<open>Moving a page to a fresh frame\<close>

lemma unat_dec: "(x :: u32) \<noteq> 0 \<Longrightarrow> unat (x - 1) = unat x - 1"
  by (simp add: unat_minus_one)

lemma avail_unmapped:
  assumes "cow_inv sp m" "g \<in> avail m"
  shows "mappers sp g = {}" "refs m g = 0"
  using assms by (auto simp: cow_inv_def counts_ok_def frames_ok_def)

text \<open>A page without an entry gets a freshly allocated frame; \<open>m'\<close> differs from the allocator's
  result in memory contents only.\<close>

lemma install_fresh:
  assumes inv: "cow_inv sp m" and i: "i < length sp" and old: "as_ptab (sp ! i) pg = None"
    and al: "mc_alloc m = (Some np, m1)" and m': "mc_frames m' = mc_frames m1"
    and a': "as_ptab a' = (as_ptab (sp ! i))(pg := Some (np, fl))" "as_vmas a' = as_vmas (sp ! i)" and fl: "has fl PRESENT"
  shows "cow_inv (sp[i := a']) m'"
proof -
  let ?g = "np div FRAME"
  have fr: "frames_ok m" and co: "counts_ok sp m" using inv by (simp_all add: cow_inv_def)
  note al = mc_alloc_spec [OF fr al]
  have m1: "refs m' = (refs m)(?g := 1)" "nframes m' = nframes m" "avail m' = avail m - {?g}" "frames_ok m'"
    using al m' by (simp_all add: refs_def [abs_def] nframes_def avail_def frames_ok_def)
  note g = avail_unmapped [OF inv al(3)]
  have maps: "mappers (sp[i := a']) h = mappers sp h \<union> (if ?g = h then {(i, pg)} else {})" for h
    using old i a' by (auto simp: mappers_def nth_list_update split: if_splits)
  have "counts_ok (sp[i := a']) m'"
    using co g al(4) unfolding counts_ok_def maps m1 by auto
  then show ?thesis
    using al(2,4) m1 g(2) fl by (intro cow_inv_install [OF inv i a']) auto
qed

text \<open>A page moves to a fresh frame and the reference it held (or the one the page cache took for it)
  is dropped.\<close>

lemma install_copy:
  assumes inv: "cow_inv sp m" and i: "i < length sp"
    and old: "as_ptab (sp ! i) pg = None \<or> (\<exists>fl0. as_ptab (sp ! i) pg = Some (pa, fl0))"
    and pa: "pa mod FRAME = 0" "pa div FRAME < nframes m" "refs m (pa div FRAME) \<noteq> 0"
    and spare: "card (mappers sp (pa div FRAME) - {(i, pg)}) < unat (refs m (pa div FRAME))"
    and al: "mc_alloc m = (Some np, m1)"
    and a': "as_ptab a' = (as_ptab (sp ! i))(pg := Some (np, fl))" "as_vmas a' = as_vmas (sp ! i)" and fl: "has fl PRESENT"
  shows "cow_inv (sp[i := a']) (mc_ref_dec pa (mc_copy pa np m1))"
    "mc_mem (mc_ref_dec pa (mc_copy pa np m1)) = (mc_mem m)(np div FRAME := mc_mem m (pa div FRAME))"
proof -
  let ?g = "np div FRAME" and ?f = "pa div FRAME" and ?m2 = "mc_copy pa np m1" and ?m' = "mc_ref_dec pa (mc_copy pa np m1)"
  have fr: "frames_ok m" and co: "counts_ok sp m" using inv by (simp_all add: cow_inv_def)
  note al = mc_alloc_spec [OF fr al]
  note g = avail_unmapped [OF inv al(3)]
  have gf: "?g \<noteq> ?f" using g(2) pa(3) by auto
  have m2: "refs ?m2 = (refs m)(?g := 1)" "nframes ?m2 = nframes m" "avail ?m2 = avail m - {?g}" "frames_ok ?m2"
    using al by (simp_all add: mc_copy_def refs_def [abs_def] nframes_def avail_def frames_ok_def)
  have "refs ?m2 ?f \<noteq> 0" "?f < nframes ?m2" using m2 gf pa by simp_all
  note dec = mc_ref_dec_spec [OF m2(4) pa(1) this(2,1)]
  have m': "refs ?m' = (refs m)(?g := 1, ?f := refs m ?f - 1)" "nframes ?m' = nframes m" "frames_ok ?m'"
    "avail ?m' = (if refs m ?f = 1 then insert ?f (avail m - {?g}) else avail m - {?g})"
    using dec m2 gf by simp_all
  show "mc_mem ?m' = (mc_mem m)(?g := mc_mem m ?f)" using dec(3) al(8) by (simp add: mc_copy_def)
  have maps: "mappers (sp[i := a']) h = mappers sp h - {(i, pg)} \<union> (if ?g = h then {(i, pg)} else {})" for h
    using i a' by (auto simp: mappers_def nth_list_update split: if_splits)
  have fin: "finite (mappers sp h)" for h using co by (simp add: counts_ok_def)
  have last: "mappers sp ?f - {(i, pg)} = {}" if "refs m ?f = 1"
    using spare fin that by (simp add: card_gt_0_iff)
  have "card (mappers (sp[i := a']) h) \<le> unat (refs ?m' h)" if h: "h < nframes m" "refs ?m' h \<noteq> 0" for h
  proof -
    consider "h = ?f" | "h = ?g" "h \<noteq> ?f" | "h \<noteq> ?f" "h \<noteq> ?g" by blast
    then show ?thesis
    proof cases
      case 1
      then show ?thesis using spare gf pa(3) unfolding maps m'(1) by (simp add: unat_dec)
    next
      case 2
      then show ?thesis using g(1) unfolding maps m'(1) by simp
    next
      case 3
      have "card (mappers sp h - {(i, pg)}) \<le> card (mappers sp h)" using fin by (simp add: card_mono)
      also have "\<dots> \<le> unat (refs m h)" using counts_ok_card [OF co h(1)] h(2) 3 m'(1) by simp
      finally show ?thesis using 3 unfolding maps m'(1) by simp
    qed
  qed
  moreover have "mappers (sp[i := a']) h = {}" if "h \<in> avail ?m'" for h
    using that last gf co unfolding maps m'(4) counts_ok_def by (auto split: if_splits)
  ultimately have counts: "counts_ok (sp[i := a']) ?m'"
    using fin by (auto simp: counts_ok_def m'(2) maps)
  show "cow_inv (sp[i := a']) ?m'"
  proof (rule cow_inv_install [OF inv i a' fl _ al(2,4) _ m'(3,2) counts])
    show "refs ?m' ?g = 1" "refs ?m' ?g \<noteq> 0" using gf m'(1) by simp_all
    fix j q pa' fl'
    assume j: "j < length sp" "(j, q) \<noteq> (i, pg)" "as_ptab (sp ! j) q = Some (pa', fl')"
      and h: "pa' div FRAME < nframes m" "refs m (pa' div FRAME) \<noteq> 0"
    show "refs ?m' (pa' div FRAME) \<noteq> 0 \<and> (refs m (pa' div FRAME) = 1 \<and> has fl' WRITABLE \<longrightarrow> refs ?m' (pa' div FRAME) = 1)"
    proof (cases "pa' div FRAME = ?f")
      case True
      then have "(j, q) \<in> mappers sp ?f - {(i, pg)}" using mapperI [OF j(1,3)] j(2) by simp
      then have "refs m ?f \<noteq> 1" using last by blast
      then have "refs m ?f - 1 \<noteq> 0" by simp
      then show ?thesis using True m'(1) \<open>refs m ?f \<noteq> 1\<close> by simp
    next
      case False
      then show ?thesis using h(2) g(2) m'(1) by auto
    qed
  qed
qed

section \<open>Page faults keep the invariant\<close>

text \<open>The contents behind every entry but one are unchanged.\<close>

definition others_same :: "aspace list \<Rightarrow> nat \<Rightarrow> nat \<Rightarrow> machine \<Rightarrow> machine \<Rightarrow> bool" where
  "others_same sp i pg m m' \<longleftrightarrow> (\<forall>j < length sp. \<forall>q pa fl. (j, q) \<noteq> (i, pg) \<longrightarrow> as_ptab (sp ! j) q = Some (pa, fl)
     \<longrightarrow> mc_mem m' (pa div FRAME) = mc_mem m (pa div FRAME))"

text \<open>
  What the page cache promises (\<open>get_page\<close>, "ref taken for us"): whatever it does, the entries stay
  covered by the counts and what they map is untouched; a page it returns carries one reference more
  than there are entries that map it.
\<close>

definition cache_law :: "page_cache \<Rightarrow> aspace list \<Rightarrow> bool" where
  "cache_law get_page sp \<longleftrightarrow> (\<forall>inode idx m r m'. cow_inv sp m \<longrightarrow> get_page inode idx m = (r, m') \<longrightarrow>
     cow_inv sp m' \<and> (\<forall>i pg. others_same sp i pg m m')
     \<and> (case r of Inl _ \<Rightarrow> True
        | Inr pa \<Rightarrow> pa mod FRAME = 0 \<and> pa div FRAME < nframes m' \<and> card (mappers sp (pa div FRAME)) < unat (refs m' (pa div FRAME))))"

lemma mc_alloc_None:
  assumes "frames_ok m" "mc_alloc m = (None, m')"
  shows "m' = m"
proof -
  obtain p where p: "alloc_one (fs_pmm (mc_frames m)) = (None, p)" "m' = m\<lparr>mc_frames := (mc_frames m)\<lparr>fs_pmm := p\<rparr>\<rparr>"
    using assms(2) by (auto simp: mc_alloc_def alloc_frame_ref_def split: prod.splits option.splits)
  have "p = fs_pmm (mc_frames m)"
    using alloc_one_spec [of "fs_pmm (mc_frames m)"] assms(1) p(1) by (simp add: frames_ok_def)
  then show ?thesis using p(2) by simp
qed

lemma others_same_refl [simp]: "others_same sp i pg m m"
  by (simp add: others_same_def)

lemma others_same_trans: "others_same sp i pg m m1 \<Longrightarrow> others_same sp i pg m1 m2 \<Longrightarrow> others_same sp i pg m m2"
  by (auto simp: others_same_def)

lemma others_same_fresh:
  assumes "cow_inv sp m" "g \<in> avail m" "mc_mem m' = (mc_mem m)(g := c)"
  shows "others_same sp i pg m m'"
  using avail_unmapped(1) [OF assms(1,2)] mapperI [of _ sp] assms(3) by (fastforce simp: others_same_def)

lemma pt_map_facts [simp]:
  "as_ptab (pt_map va pa f a) = (as_ptab a)(va div PAGE_SIZE := Some (pa, f OR PRESENT))" "as_vmas (pt_map va pa f a) = as_vmas a"
  by (simp_all add: pt_map_def)

lemma cow_page_inv:
  assumes inv: "cow_inv sp m" and i: "i < length sp" and priv: "private_page (sp ! i) pg" and pg: "pg = va div PAGE_SIZE"
    and old: "as_ptab (sp ! i) pg = Some (pa, f)" and cow: "cow_page va pa f (sp ! i, m) = (r, a', m')"
  shows "cow_inv (sp[i := a']) m' \<and> others_same sp i pg m m'"
    "r = Inr () \<Longrightarrow> \<exists>pa' fl. as_ptab a' pg = Some (pa', fl) \<and> has fl WRITABLE \<and> mc_mem m' (pa' div FRAME) = mc_mem m (pa div FRAME)"
proof -
  let ?f = "pa div FRAME"
  have fr: "frames_ok m" and co: "counts_ok sp m" using inv by (simp_all add: cow_inv_def)
  note e = cow_invD [OF inv i old]
  have e': "pa mod FRAME = 0" "?f < nframes m" "refs m ?f \<noteq> 0" using e priv by blast+
  have rc: "ref_count (mc_frames m) pa = refs m ?f"
    using e'(2) fr by (simp add: ref_count_def refs_def frames_ok_def)
  have "(cow_inv (sp[i := a']) m' \<and> others_same sp i pg m m') \<and>
    (r = Inr () \<longrightarrow> (\<exists>pa' fl. as_ptab a' pg = Some (pa', fl) \<and> has fl WRITABLE \<and> mc_mem m' (pa' div FRAME) = mc_mem m ?f))"
  proof (cases "refs m ?f = 1")
    case True
    then have r: "r = Inr ()" "a' = pt_map va pa ((f AND NOT COW) OR WRITABLE) (sp ! i)" "m' = m"
      using cow rc by (auto simp: cow_page_def)
    have "mappers (sp[i := a']) h = mappers sp h" for h
      using old i pg r(2) by (auto simp: mappers_def nth_list_update split: if_splits)
    then have "counts_ok (sp[i := a']) m" using co by (simp add: counts_ok_def)
    then have "cow_inv (sp[i := a']) m"
      using True e' fr pg r(2)
      by (intro cow_inv_install [OF inv i, of a' pg pa "(f AND NOT COW) OR WRITABLE OR PRESENT"]) (auto simp: or.assoc)
    then show ?thesis using r pg by simp
  next
    case False
    show ?thesis
    proof (cases "mc_alloc m")
      case (Pair np m1)
      show ?thesis
      proof (cases np)
        case None
        then have "r = Inl ENOMEM" "a' = sp ! i" "m' = m1" using cow rc False Pair by (auto simp: cow_page_def)
        then show ?thesis using mc_alloc_None [OF fr] Pair None inv i by simp
      next
        case (Some n)
        then have r: "a' = pt_map va n ((f AND NOT COW) OR WRITABLE) (sp ! i)" "m' = mc_ref_dec pa (mc_copy pa n m1)"
          using cow rc False Pair by (auto simp: cow_page_def)
        have al: "mc_alloc m = (Some n, m1)" using Pair Some by simp
        have "card (mappers sp ?f - {(i, pg)}) < card (mappers sp ?f)"
          using mapperI [OF i old] co by (intro card_Diff1_less) (simp_all add: counts_ok_def)
        then have spare: "card (mappers sp ?f - {(i, pg)}) < unat (refs m ?f)"
          using counts_ok_card [OF co e'(2,3)] by simp
        note ic = install_copy [OF inv i _ e' spare al, of a' "(f AND NOT COW) OR WRITABLE OR PRESENT"]
        have "cow_inv (sp[i := a']) m'" "mc_mem m' = (mc_mem m)(n div FRAME := mc_mem m ?f)"
          using ic old r pg by (auto simp: or.assoc)
        moreover note others_same_fresh [OF inv mc_alloc_spec(3) [OF fr al] this(2)]
        ultimately show ?thesis using r(1) pg by simp
      qed
    qed
  qed
  then show "cow_inv (sp[i := a']) m' \<and> others_same sp i pg m m'"
    "r = Inr () \<Longrightarrow> \<exists>pa' fl. as_ptab a' pg = Some (pa', fl) \<and> has fl WRITABLE \<and> mc_mem m' (pa' div FRAME) = mc_mem m ?f"
    by blast+
qed

lemma fault_in_inv:
  assumes inv: "cow_inv sp m" and i: "i < length sp" and pg: "pg = va div PAGE_SIZE"
    and v: "\<not> v_shared v" "\<not> is_phys (v_backing v)" and law: "cache_law get_page sp"
    and old: "as_ptab (sp ! i) pg = None" and f: "fault_in get_page v va wr (sp ! i, m) = (r, a', m')"
  shows "cow_inv (sp[i := a']) m' \<and> others_same sp i pg m m'"
proof (cases "v_backing v")
  case Anon
  have fr: "frames_ok m" using inv by (simp add: cow_inv_def)
  obtain x m1 where al: "mc_alloc m = (x, m1)" by (cases "mc_alloc m")
  show ?thesis
  proof (cases x)
    case None
    then have "a' = sp ! i" "m' = m1" using f Anon al by (auto simp: fault_in_def mc_alloc_zeroed_def)
    then show ?thesis using mc_alloc_None [OF fr] al None inv i by simp
  next
    case (Some np)
    note al = al [unfolded Some]
    have m': "m' = m1\<lparr>mc_mem := (mc_mem m1)(np div FRAME := replicate PAGE_SIZE 0)\<rparr>"
      and a': "a' = (pt_map va np (pte_flags v) (sp ! i))\<lparr>as_rss := as_rss (sp ! i) + 1\<rparr>"
      using f Anon al by (auto simp: fault_in_def mc_alloc_zeroed_def pt_map_def Let_def)
    have "cow_inv (sp[i := a']) m'"
      using install_fresh [OF inv i old al, of m' a' "pte_flags v OR PRESENT"] m' a' pg by simp
    moreover have "others_same sp i pg m m'"
      using others_same_fresh [OF inv mc_alloc_spec(3) [OF fr al], of m'] m' mc_alloc_spec(8) [OF fr al] by simp
    ultimately show ?thesis by simp
  qed
next
  case (Phys base wc)
  then show ?thesis using v(2) by (simp add: is_phys_def)
next
  case (FileB inode off)
  obtain x m0 where gp: "get_page inode (wadd off (va - v_start v) div PAGE_SIZE) m = (x, m0)"
    by (cases "get_page inode (wadd off (va - v_start v) div PAGE_SIZE) m")
  have law': "cow_inv sp m0 \<and> (\<forall>i pg. others_same sp i pg m m0)
     \<and> (case x of Inl _ \<Rightarrow> True
        | Inr pa \<Rightarrow> pa mod FRAME = 0 \<and> pa div FRAME < nframes m0 \<and> card (mappers sp (pa div FRAME)) < unat (refs m0 (pa div FRAME)))"
    using law inv gp unfolding cache_law_def by blast
  then have inv0: "cow_inv sp m0" and same0: "others_same sp i pg m m0" by blast+
  have fr0: "frames_ok m0" and co0: "counts_ok sp m0" using inv0 by (simp_all add: cow_inv_def)
  show ?thesis
  proof (cases x)
    case (Inl e)
    then have "a' = sp ! i" "m' = m0" using f FileB gp by (auto simp: fault_in_def)
    then show ?thesis using inv0 same0 i by simp
  next
    case (Inr pa)
    let ?f = "pa div FRAME"
    have p: "pa mod FRAME = 0" "?f < nframes m0" "card (mappers sp ?f) < unat (refs m0 ?f)" using law' Inr by auto
    have nz: "refs m0 ?f \<noteq> 0" using p(3) by auto
    have unmapped: "(i, pg) \<notin> mappers sp h" for h using old by (auto simp: mappers_def)
    show ?thesis
    proof (cases wr)
      case True
      obtain y m1 where al: "mc_alloc m0 = (y, m1)" by (cases "mc_alloc m0")
      show ?thesis
      proof (cases y)
        case None
        then have "a' = sp ! i" "m' = m1" using f FileB gp Inr v(1) True al by (auto simp: fault_in_def)
        then show ?thesis using mc_alloc_None [OF fr0] al None inv0 same0 i by simp
      next
        case (Some np)
        note al = al [unfolded Some]
        have a': "a' = (pt_map va np (pte_flags v) (sp ! i))\<lparr>as_rss := as_rss (sp ! i) + 1\<rparr>"
          and m': "m' = mc_ref_dec pa (mc_copy pa np m1)"
          using f FileB gp Inr v(1) True al by (auto simp: fault_in_def Let_def pt_map_def)
        have "card (mappers sp ?f - {(i, pg)}) < unat (refs m0 ?f)" using p(3) unmapped by simp
        note ic = install_copy [OF inv0 i _ p(1,2) nz this al, of a' "pte_flags v OR PRESENT"]
        have "cow_inv (sp[i := a']) m'" "mc_mem m' = (mc_mem m0)(np div FRAME := mc_mem m0 ?f)"
          using ic old a' m' pg by simp_all
        moreover note others_same_fresh [OF inv0 mc_alloc_spec(3) [OF fr0 al] this(2)]
        ultimately show ?thesis using others_same_trans [OF same0] by blast
      qed
    next
      case False
      let ?fl = "(if has (v_prot v) PROT_WRITE then (pte_flags v AND NOT WRITABLE) OR COW else pte_flags v AND NOT WRITABLE) OR PRESENT"
      have a': "as_ptab a' = (as_ptab (sp ! i))(pg := Some (pa, ?fl))" "as_vmas a' = as_vmas (sp ! i)" and m': "m' = m0"
        using f FileB gp Inr v(1) False pg by (auto simp: fault_in_def Let_def)
      have maps: "mappers (sp[i := a']) h = mappers sp h \<union> (if ?f = h then {(i, pg)} else {})" for h
        using old i a' by (auto simp: mappers_def nth_list_update split: if_splits)
      have "?f \<notin> avail m0" using nz fr0 by (auto simp: frames_ok_def)
      then have "counts_ok (sp[i := a']) m0"
        using co0 p(3) unmapped unfolding counts_ok_def maps by auto
      then have "cow_inv (sp[i := a']) m0"
        using p nz fr0 by (intro cow_inv_install [OF inv0 i a']) (auto split: if_splits)
      then show ?thesis using m' same0 by simp
    qed
  qed
qed

lemma find_vma_page:
  assumes "vmas_inv vs" "find_vma vs addr = Some v"
  shows "find_vma vs (page_align_down addr) = Some v"
proof -
  have v: "v \<in> set vs" "v_start v \<le> addr" "addr < v_end v" using assms find_vma_iff [of vs addr v] by (auto simp: contains_def)
  have "v_start v mod PAGE_SIZE = 0" using vmas_inv_ok [OF assms(1) v(1)] by (simp add: vma_ok_def)
  then have "v_start v = v_start v div PAGE_SIZE * PAGE_SIZE"
    using div_mult_mod_eq [of "v_start v" PAGE_SIZE] by simp
  also have "\<dots> \<le> page_align_down addr"
    unfolding page_align_down_def by (intro mult_le_mono1 div_le_mono v(2))
  finally have "v_start v \<le> page_align_down addr" .
  moreover have "page_align_down addr \<le> addr" by (simp add: page_align_down_def)
  ultimately show ?thesis using v find_vma_iff [OF assms(1)] by (simp add: contains_def)
qed

lemma page_align_down_page: "page_align_down addr div PAGE_SIZE = addr div PAGE_SIZE"
  "page_align_down addr = addr div PAGE_SIZE * PAGE_SIZE"
  by (simp_all add: page_align_down_def PAGE_SIZE_def)

lemma fault_inv:
  assumes inv: "cow_inv sp m" and i: "i < length sp" and vs: "vmas_inv (as_vmas (sp ! i))"
    and priv: "private_page (sp ! i) (addr div PAGE_SIZE)" and law: "cache_law get_page sp"
    and f: "fault get_page addr wr ex (sp ! i, m) = (r, a', m')"
  shows "cow_inv (sp[i := a']) m' \<and> others_same sp i (addr div PAGE_SIZE) m m'"
proof -
  let ?pg = "addr div PAGE_SIZE"
  have stay: ?thesis if "a' = sp ! i" "m' = m" using that inv i by simp
  show ?thesis
  proof (cases "find_vma (as_vmas (sp ! i)) addr")
    case None
    then show ?thesis using f stay by (auto simp: fault_def)
  next
    case (Some v)
    have v: "\<not> v_shared v" "\<not> is_phys (v_backing v)"
      using find_vma_page [OF vs Some] priv by (auto simp: private_page_def page_align_down_page(2))
    consider "a' = sp ! i" "m' = m" | "populate_page get_page v (page_align_down addr) wr (sp ! i, m) = (r, a', m')"
      using f Some by (auto simp: fault_def split: if_splits)
    then show ?thesis
    proof cases
      case 2
      have t: "pt_translate (sp ! i) (page_align_down addr) = as_ptab (sp ! i) ?pg"
        by (simp add: pt_translate_def page_align_down_page(1))
      show ?thesis
      proof (cases "as_ptab (sp ! i) ?pg")
        case None
        then show ?thesis
          using 2 t fault_in_inv [OF inv i page_align_down_page(1) [symmetric] v law None]
          by (simp add: populate_page_def)
      next
        case (Some e)
        obtain pa fl where e: "as_ptab (sp ! i) ?pg = Some (pa, fl)" using Some by (cases e) auto
        have "has fl PRESENT" using cow_invD(1) [OF inv i e] .
        then consider "a' = sp ! i" "m' = m" | "cow_page (page_align_down addr) pa fl (sp ! i, m) = (r, a', m')"
          using 2 t e by (auto simp: populate_page_def split: if_splits)
        then show ?thesis
          using stay cow_page_inv(1) [OF inv i priv page_align_down_page(1) [symmetric] e] by cases auto
      qed
    qed (rule stay)
  qed
qed

section \<open>Isolation\<close>

text \<open>The state after a store: the byte at \<open>addr\<close>, in the frame the page maps.\<close>

definition user_store :: "nat \<Rightarrow> u8 \<Rightarrow> aspace \<Rightarrow> machine \<Rightarrow> machine" where
  "user_store addr b a m =
     (case as_ptab a (addr div PAGE_SIZE) of
        None \<Rightarrow> m
      | Some (pa, _) \<Rightarrow> m\<lparr>mc_mem := (mc_mem m)(pa div FRAME := (mc_mem m (pa div FRAME))[addr mod PAGE_SIZE := b])\<rparr>)"

definition page_contents :: "aspace \<Rightarrow> machine \<Rightarrow> nat \<Rightarrow> u8 list option" where
  "page_contents a m pg = map_option (\<lambda>e. mc_mem m (fst e div FRAME)) (as_ptab a pg)"

lemma page_mapped_writable:
  assumes "page_mapped a va True"
  obtains pa fl where "as_ptab a (va div PAGE_SIZE) = Some (pa, fl)" "has fl WRITABLE"
  using assms by (auto simp: page_mapped_def pt_translate_def split: option.splits)

lemma fault_maps:
  assumes "fault get_page addr True ex s = (Inr (), s')"
  shows "page_mapped (fst s') addr True" "same_but (addr div PAGE_SIZE) (fst s) (fst s')"
proof -
  obtain v where v: "populate_page get_page v (page_align_down addr) True s = (Inr (), s')" "has (v_prot v) PROT_WRITE"
    using assms by (auto simp: fault_def split: option.splits if_splits)
  show "page_mapped (fst s') addr True" "same_but (addr div PAGE_SIZE) (fst s) (fst s')"
    using populate_page_spec [OF v(1)] v(2) page_mapped_div [OF page_align_down_page(1)] page_align_down_page(1) by simp_all
qed

text \<open>
  C2. Private memory is isolated. When a store to a private page succeeds, after whatever page fault it
  needs, no other page of any address space that shared the frame changes: every other entry keeps
  its frame and every other mapped page its contents, and the invariant that guarantees this for the
  next store holds again. The page cache is any function that keeps its documented contract.
\<close>

theorem private_store_isolated:
  assumes inv: "cow_inv sp m" and i: "i < length sp" and vs: "vmas_inv (as_vmas (sp ! i))"
    and priv: "private_page (sp ! i) (addr div PAGE_SIZE)" and law: "cache_law get_page sp"
    and f: "fault get_page addr True False (sp ! i, m) = (Inr (), a', m')"
  shows "cow_inv (sp[i := a']) (user_store addr b a' m')
    \<and> (\<forall>j q. j < length sp \<and> (j, q) \<noteq> (i, addr div PAGE_SIZE) \<longrightarrow>
        as_ptab (sp[i := a'] ! j) q = as_ptab (sp ! j) q
        \<and> page_contents (sp[i := a'] ! j) (user_store addr b a' m') q = page_contents (sp ! j) m q)"
proof -
  let ?pg = "addr div PAGE_SIZE" and ?sp = "sp[i := a']" and ?m = "user_store addr b a' m'"
  have inv': "cow_inv ?sp m'" and same: "others_same sp i ?pg m m'" using fault_inv [OF assms] by auto
  note fm = fault_maps [OF f, unfolded fst_conv]
  obtain pa fl where e: "as_ptab a' ?pg = Some (pa, fl)" "has fl WRITABLE" using page_mapped_writable [OF fm(1)] .
  have i': "i < length ?sp" "?sp ! i = a'" using i by simp_all
  have priv': "private_page (?sp ! i) ?pg" using priv fm(2) i' by (simp add: private_page_def same_but_def)
  have e': "as_ptab (?sp ! i) ?pg = Some (pa, fl)" using e(1) i' by simp
  note D = cow_invD [OF inv' i'(1) e']
  have sole: "pa' div FRAME \<noteq> pa div FRAME"
    if "j < length sp" "(j, q) \<noteq> (i, ?pg)" "as_ptab (?sp ! j) q = Some (pa', fl')" for j q pa' fl'
    using sole_mapper [of ?sp m' "pa div FRAME" "(j, q)" "(i, ?pg)"] mapperI [OF i'(1) e'] mapperI [of j ?sp q pa' fl'] that
      D(3) [OF priv'] D(5) [OF priv' e(2)] inv' by (auto simp: cow_inv_def)
  have m: "mc_frames ?m = mc_frames m'" "mc_mem ?m = (mc_mem m')(pa div FRAME := (mc_mem m' (pa div FRAME))[addr mod PAGE_SIZE := b])"
    using e(1) by (simp_all add: user_store_def)
  have "cow_inv ?sp ?m"
    using inv' unfolding cow_inv_def counts_ok_def frames_ok_def entry_ok_def refs_def nframes_def avail_def m(1) .
  moreover have "as_ptab (?sp ! j) q = as_ptab (sp ! j) q \<and> page_contents (?sp ! j) ?m q = page_contents (sp ! j) m q"
    if j: "j < length sp" "(j, q) \<noteq> (i, ?pg)" for j q
  proof -
    have t: "as_ptab (?sp ! j) q = as_ptab (sp ! j) q"
      using fm(2) j i by (cases "j = i") (auto simp: same_but_def)
    show ?thesis
    proof (cases "as_ptab (sp ! j) q")
      case (Some x)
      obtain pa' fl' where x: "as_ptab (sp ! j) q = Some (pa', fl')" using Some by (cases x) auto
      have "mc_mem m' (pa' div FRAME) = mc_mem m (pa' div FRAME)" using same j x by (auto simp: others_same_def)
      then show ?thesis using sole [OF j] x t m(2) by (simp add: page_contents_def)
    qed (use t in \<open>simp add: page_contents_def\<close>)
  qed
  ultimately show ?thesis by blast
qed

section \<open>Fork\<close>

lemma unat_inc: "unat (x :: u32) + 1 < 2 ^ 32 \<Longrightarrow> unat (x + 1) = unat x + 1"
  by (simp add: unat_word_ariths)

text \<open>The address spaces while \<open>fork\<close> runs: the parent in its place, the child at the end.\<close>

abbreviation forked :: "aspace list \<Rightarrow> nat \<Rightarrow> forking \<Rightarrow> aspace list" where
  "forked sp i k \<equiv> sp[i := fk_parent k] @ [fk_child k]"

lemma cow_inv_forked:
  assumes "i < length sp"
  shows "cow_inv (sp[i := p] @ [c]) m \<longleftrightarrow> frames_ok m \<and> counts_ok (sp[i := p] @ [c]) m
    \<and> (\<forall>j < length sp. j \<noteq> i \<longrightarrow> (\<forall>q. entry_ok m (sp ! j) q)) \<and> (\<forall>q. entry_ok m p q) \<and> (\<forall>q. entry_ok m c q)"
  using assms by (auto simp: cow_inv_def nth_append nth_list_update less_Suc_eq split: if_splits)

definition pages_on :: "aspace \<Rightarrow> nat \<Rightarrow> nat set" where
  "pages_on a f = {pg. \<exists>pa fl. as_ptab a pg = Some (pa, fl) \<and> pa div FRAME = f}"

lemma mappers_forked:
  assumes "i < length sp"
  shows "mappers (sp[i := p] @ [c]) f =
    {(j, q). j < length sp \<and> j \<noteq> i \<and> q \<in> pages_on (sp ! j) f} \<union> {i} \<times> pages_on p f \<union> {length sp} \<times> pages_on c f"
proof -
  have "(j, q) \<in> mappers (sp[i := p] @ [c]) f \<longleftrightarrow>
      j < Suc (length sp) \<and> q \<in> pages_on (if j = length sp then c else if j = i then p else sp ! j) f" for j q
    using assms by (cases "j = length sp"; cases "j = i") (auto simp: mappers_def pages_on_def nth_append)
  then show ?thesis using assms by (auto split: if_splits)
qed

lemma entry_ok_cong:
  assumes "as_ptab a q = as_ptab b q" "as_vmas a = as_vmas b"
  shows "entry_ok m a q = entry_ok m b q"
  unfolding entry_ok_def private_page_def by (simp only: assms)

lemma entry_ok_refs:
  assumes "entry_ok m a q" "nframes m' = nframes m"
    "\<And>pa fl. as_ptab a q = Some (pa, fl) \<Longrightarrow> private_page a q \<Longrightarrow> pa div FRAME < nframes m \<Longrightarrow> refs m (pa div FRAME) \<noteq> 0
      \<Longrightarrow> (has fl WRITABLE \<Longrightarrow> refs m (pa div FRAME) = 1) \<Longrightarrow>
      refs m' (pa div FRAME) \<noteq> 0 \<and> (has fl WRITABLE \<longrightarrow> refs m' (pa div FRAME) = 1)"
  shows "entry_ok m' a q"
  using assms by (auto simp: entry_ok_def split: option.splits)

text \<open>What one page of the loop does, when the parent maps it.\<close>

lemma fork_page_entry:
  assumes "as_ptab (fk_parent k) (va div PAGE_SIZE) = Some (pa, f)" "has f PRESENT"
  obtains nf where "as_ptab (fk_parent (fork_page v va k)) = (as_ptab (fk_parent k))(va div PAGE_SIZE := Some (pa, nf))"
    "as_ptab (fk_child (fork_page v va k)) = (as_ptab (fk_child k))(va div PAGE_SIZE := Some (pa, nf OR PRESENT))"
    "fk_machine (fork_page v va k) = mc_ref_inc pa (fk_machine k)"
    "has nf PRESENT" "\<not> v_shared v \<Longrightarrow> \<not> is_phys (v_backing v) \<Longrightarrow> \<not> has nf WRITABLE"
proof (cases "\<not> (v_shared v \<or> is_phys (v_backing v)) \<and> has f WRITABLE")
  case True
  let ?nf = "((f AND NOT WRITABLE) OR COW) OR PRESENT"
  have "(f AND NOT WRITABLE) OR COW OR PRESENT = ?nf OR PRESENT" by (simp add: or.assoc)
  then show ?thesis
    using that [of ?nf] True assms by (simp add: fork_page_def pt_translate_def pt_map_def Let_def)
next
  case False
  then show ?thesis
    using that [of f] assms by (auto simp: fork_page_def pt_translate_def pt_map_def Let_def fun_upd_idem)
qed

lemma fork_page_vmas [simp]:
  "as_vmas (fk_parent (fork_page v va k)) = as_vmas (fk_parent k)"
  "as_vmas (fk_child (fork_page v va k)) = as_vmas (fk_child k)"
  by (auto simp: fork_page_def pt_map_def Let_def split: option.splits)

lemma fork_page_inv:
  assumes i: "i < length sp" and inv: "cow_inv (forked sp i k) (fk_machine k)"
    and v: "find_vma (as_vmas (fk_parent k)) (pg * PAGE_SIZE) = Some v" and vs: "as_vmas (fk_child k) = as_vmas (fk_parent k)"
    and pg: "pg = va div PAGE_SIZE" and new: "as_ptab (fk_child k) pg = None"
    and room: "\<forall>f < nframes (fk_machine k). unat (refs (fk_machine k) f) + 1 < 2 ^ 32"
  shows "cow_inv (forked sp i (fork_page v va k)) (fk_machine (fork_page v va k))"
proof (cases "as_ptab (fk_parent k) pg")
  case None
  then show ?thesis using inv pg by (simp add: fork_page_def pt_translate_def)
next
  case (Some e)
  let ?sp = "forked sp i k" and ?m = "fk_machine k" and ?k = "fork_page v va k" and ?n = "length sp"
  obtain pa f where e: "as_ptab (fk_parent k) pg = Some (pa, f)" using Some by (cases e) auto
  let ?f = "pa div FRAME"
  have at: "i < length ?sp" "?sp ! i = fk_parent k" "?n < length ?sp" "?sp ! ?n = fk_child k" using i by (simp_all add: nth_append)
  have pr: "has f PRESENT" using cow_invD(1) [OF inv at(1)] e at(2) by simp
  obtain nf where k': "as_ptab (fk_parent ?k) = (as_ptab (fk_parent k))(pg := Some (pa, nf))"
    "as_ptab (fk_child ?k) = (as_ptab (fk_child k))(pg := Some (pa, nf OR PRESENT))"
    "fk_machine ?k = mc_ref_inc pa ?m" "has nf PRESENT" "\<not> v_shared v \<Longrightarrow> \<not> is_phys (v_backing v) \<Longrightarrow> \<not> has nf WRITABLE"
    using fork_page_entry [of k va pa f v] e pr pg by metis
  have parts: "frames_ok ?m" "counts_ok ?sp ?m" "\<forall>j < length sp. j \<noteq> i \<longrightarrow> (\<forall>q. entry_ok ?m (sp ! j) q)"
    "\<forall>q. entry_ok ?m (fk_parent k) q" "\<forall>q. entry_ok ?m (fk_child k) q"
    using inv unfolding cow_inv_forked [OF i] by blast+
  note inc = mc_ref_inc_spec [OF parts(1), of pa, folded k'(3)]
  have room': "unat (refs ?m h) + 1 < 2 ^ 32" if "h < nframes ?m" for h using room that by blast
  have inc0: "refs ?m h + 1 \<noteq> 0" if "h < nframes ?m" for h
  proof
    assume "refs ?m h + 1 = 0"
    then have "unat (refs ?m h + 1) = 0" by simp
    then show False using unat_inc [OF room' [OF that]] by linarith
  qed
  have mem: "(i, pg) \<in> mappers ?sp ?f" using mapperI [OF at(1), of pg pa f] e at(2) by simp
  have maps: "mappers (forked sp i ?k) h = mappers ?sp h \<union> (if ?f = h then {(?n, pg)} else {})" for h
  proof -
    have "pages_on (fk_parent ?k) h = pages_on (fk_parent k) h" using e k'(1) by (auto simp: pages_on_def)
    moreover have "pages_on (fk_child ?k) h = pages_on (fk_child k) h \<union> (if ?f = h then {pg} else {})"
      using new k'(2) by (auto simp: pages_on_def)
    ultimately show ?thesis using mappers_forked [OF i] by auto
  qed
  have "?f \<notin> avail ?m" using mem parts(2) by (auto simp: counts_ok_def)
  then have counts: "counts_ok (forked sp i ?k) (fk_machine ?k)"
    using parts(2) room' unat_inc unfolding counts_ok_def maps inc(2,3) inc(1)
    by (auto simp: card_insert_if split: if_splits)
  have other: "entry_ok (fk_machine ?k) a q" if a: "entry_ok ?m a q" "x \<noteq> (i, pg)"
      "\<And>pa' fl. as_ptab a q = Some (pa', fl) \<Longrightarrow> x \<in> mappers ?sp (pa' div FRAME)" for a q x
  proof (rule entry_ok_refs [OF a(1) inc(2)])
    fix pa' fl
    assume p: "as_ptab a q = Some (pa', fl)" "pa' div FRAME < nframes ?m" "refs ?m (pa' div FRAME) \<noteq> 0"
      "has fl WRITABLE \<Longrightarrow> refs ?m (pa' div FRAME) = 1"
    have "pa' div FRAME \<noteq> ?f" if "has fl WRITABLE"
      using sole_mapper [OF parts(2) p(2) p(4) [OF that] a(3) [OF p(1)]] mem a(2) by metis
    then show "refs (fk_machine ?k) (pa' div FRAME) \<noteq> 0 \<and> (has fl WRITABLE \<longrightarrow> refs (fk_machine ?k) (pa' div FRAME) = 1)"
      using p inc0 [OF p(2)] unfolding inc(1) by (auto split: if_splits)
  qed
  have priv: "private_page a pg \<longleftrightarrow> \<not> v_shared v \<and> \<not> is_phys (v_backing v)" if "as_vmas a = as_vmas (fk_parent k)" for a
    using v that by (simp add: private_page_def)
  have copied: "entry_ok (fk_machine ?k) a pg"
    if a: "as_ptab a pg = Some (pa, fl)" "has fl PRESENT" "has fl WRITABLE = has nf WRITABLE" "as_vmas a = as_vmas (fk_parent k)" for a fl
    using a cow_invD [OF inv at(1), of pg pa f] e at(2) priv [OF a(4)] priv [OF refl] k'(5) inc0 inc(1,2)
    by (intro entry_okI) auto
  have "entry_ok (fk_machine ?k) (sp ! j) q" if j: "j < length sp" "j \<noteq> i" for j q
    using parts(3) j by (intro other [of _ _ "(j, q)"]) (auto simp: mappers_def nth_append)
  moreover have "entry_ok (fk_machine ?k) (fk_parent ?k) q" for q
  proof (cases "q = pg")
    case True
    then show ?thesis using copied [of "fk_parent ?k" nf] k'(1,4) by simp
  next
    case False
    have "entry_ok (fk_machine ?k) (fk_parent k) q"
      using parts(4) i False by (intro other [of _ _ "(i, q)"]) (auto simp: mappers_def nth_append)
    then show ?thesis using entry_ok_cong [of "fk_parent ?k" q "fk_parent k"] False k'(1) by simp
  qed
  moreover have "entry_ok (fk_machine ?k) (fk_child ?k) q" for q
  proof (cases "q = pg")
    case True
    then show ?thesis using copied [of "fk_child ?k" "nf OR PRESENT"] k'(2) vs by simp
  next
    case False
    have "entry_ok (fk_machine ?k) (fk_child k) q"
      using parts(5) i by (intro other [of _ _ "(?n, q)"]) (auto simp: mappers_def nth_append)
    then show ?thesis using entry_ok_cong [of "fk_child ?k" q "fk_child k"] False k'(2) by simp
  qed
  ultimately show ?thesis unfolding cow_inv_forked [OF i] using inc(5) counts by blast
qed

text \<open>The pages the loops of \<open>fork\<close> visit, each with its area.\<close>

definition fork_pages :: "vma list \<Rightarrow> (vma \<times> nat) list" where
  "fork_pages vs = concat (map (\<lambda>v. map (Pair v) (pages_from (v_start v) (v_end v))) vs)"

lemma fold_fork_area: "fold fork_area vs k = fold (\<lambda>(v, va). fork_page v va) (fork_pages vs) k"
  by (induction vs arbitrary: k) (simp_all add: fork_pages_def fork_area_def fold_map comp_def)

lemma distinct_pages_from: "distinct (pages_from lo hi)"
proof (induction lo hi rule: pages_from.induct)
  case (1 lo hi)
  show ?case
  proof (cases "lo < hi")
    case True
    have "lo \<notin> set (pages_from (lo + PAGE_SIZE) hi)" using pages_from_later by blast
    then show ?thesis using 1 [OF True] pages_from_Cons [OF True] by simp
  next
    case False
    then show ?thesis by (subst pages_from.simps) simp
  qed
qed

lemma fork_pages_mem:
  assumes "vmas_inv vs"
  shows "(v, va) \<in> set (fork_pages vs) \<longleftrightarrow> find_vma vs va = Some v \<and> va mod PAGE_SIZE = 0"
proof -
  have "va mod PAGE_SIZE = 0 \<longleftrightarrow> (va - v_start v) mod PAGE_SIZE = 0" if "v \<in> set vs" "v_start v \<le> va"
  proof -
    have "PAGE_SIZE dvd v_start v" using vmas_inv_ok [OF assms that(1)] by (simp add: vma_ok_def mod_eq_0_iff_dvd)
    then show ?thesis using that(2) by (metis dvd_diff_nat dvd_diffD mod_eq_0_iff_dvd)
  qed
  moreover have "(v, va) \<in> set (fork_pages vs) \<longleftrightarrow> v \<in> set vs \<and> va \<in> set (pages_from (v_start v) (v_end v))"
    by (auto simp: fork_pages_def)
  ultimately show ?thesis
    by (auto simp: find_vma_iff [OF assms] contains_def pages_from_mem)
qed

lemma distinct_fork_pages:
  assumes "vmas_inv vs"
  shows "distinct (map (\<lambda>(v, va). va div PAGE_SIZE) (fork_pages vs))"
proof -
  have "distinct vs" using vmas_inv_sorted [OF assms] by (simp add: strict_sorted_iff distinct_map)
  then have "distinct (fork_pages vs)"
    unfolding fork_pages_def
  proof (induction vs)
    case (Cons v vs)
    then show ?case using distinct_pages_from by (auto simp: distinct_map inj_on_def)
  qed simp
  moreover have "inj_on (\<lambda>(v, va). va div PAGE_SIZE) (set (fork_pages vs))"
  proof (rule inj_onI, clarify)
    fix v va v' va'
    assume x: "(v, va) \<in> set (fork_pages vs)" "(v', va') \<in> set (fork_pages vs)" "va div PAGE_SIZE = va' div PAGE_SIZE"
    then have "va = va'" using fork_pages_mem [OF assms] by (metis div_mult_mod_eq)
    then show "v = v' \<and> va = va'" using x fork_pages_mem [OF assms] by simp
  qed
  ultimately show ?thesis by (simp add: distinct_map)
qed

lemma fork_page_effect:
  assumes i: "i < length sp" and inv: "cow_inv (forked sp i k) (fk_machine k)" and pg: "pg = va div PAGE_SIZE"
    and new: "as_ptab (fk_child k) pg = None"
    and room: "\<forall>f < nframes (fk_machine k). unat (refs (fk_machine k) f) + n < 2 ^ 32" and n: "0 < n"
  shows "map_option fst (as_ptab (fk_parent (fork_page v va k)) q) = map_option fst (as_ptab (fk_parent k) q)"
    "map_option fst (as_ptab (fk_child (fork_page v va k)) q) =
       (if q = pg then map_option fst (as_ptab (fk_parent k) pg) else map_option fst (as_ptab (fk_child k) q))"
    "mc_mem (fk_machine (fork_page v va k)) = mc_mem (fk_machine k)"
    "\<forall>f < nframes (fk_machine (fork_page v va k)). unat (refs (fk_machine (fork_page v va k)) f) + (n - 1) < 2 ^ 32"
proof -
  let ?k = "fork_page v va k" and ?m = "fk_machine k"
  have "map_option fst (as_ptab (fk_parent ?k) q) = map_option fst (as_ptab (fk_parent k) q)
    \<and> map_option fst (as_ptab (fk_child ?k) q) =
       (if q = pg then map_option fst (as_ptab (fk_parent k) pg) else map_option fst (as_ptab (fk_child k) q))
    \<and> mc_mem (fk_machine ?k) = mc_mem ?m
    \<and> (\<forall>f < nframes (fk_machine ?k). unat (refs (fk_machine ?k) f) + (n - 1) < 2 ^ 32)"
  proof (cases "as_ptab (fk_parent k) pg")
    case None
    then have "?k = k" using pg by (simp add: fork_page_def pt_translate_def)
    then show ?thesis using new None room by auto
  next
    case (Some e)
    obtain pa f where e: "as_ptab (fk_parent k) pg = Some (pa, f)" using Some by (cases e) auto
    have "has f PRESENT" using cow_invD(1) [OF inv, of i pg pa f] i e by (simp add: nth_append)
    then obtain nf where k': "as_ptab (fk_parent ?k) = (as_ptab (fk_parent k))(pg := Some (pa, nf))"
      "as_ptab (fk_child ?k) = (as_ptab (fk_child k))(pg := Some (pa, nf OR PRESENT))" "fk_machine ?k = mc_ref_inc pa ?m"
      using fork_page_entry [of k va pa f v] e pg by metis
    have "frames_ok ?m" using inv by (simp add: cow_inv_def)
    note inc = mc_ref_inc_spec [OF this, of pa, folded k'(3)]
    have "unat (refs ?m h) + 1 < 2 ^ 32" "unat (refs ?m h) + (n - 1) < 2 ^ 32" if "h < nframes ?m" for h
      using room that n by fastforce+
    then have "\<forall>f < nframes (fk_machine ?k). unat (refs (fk_machine ?k) f) + (n - 1) < 2 ^ 32"
      using room n unat_inc unfolding inc(2) inc(1) by auto
    then show ?thesis using k' e inc(4) by auto
  qed
  then show "map_option fst (as_ptab (fk_parent ?k) q) = map_option fst (as_ptab (fk_parent k) q)"
    "map_option fst (as_ptab (fk_child ?k) q) =
       (if q = pg then map_option fst (as_ptab (fk_parent k) pg) else map_option fst (as_ptab (fk_child k) q))"
    "mc_mem (fk_machine ?k) = mc_mem ?m"
    "\<forall>f < nframes (fk_machine ?k). unat (refs (fk_machine ?k) f) + (n - 1) < 2 ^ 32" by blast+
qed

lemma fork_loop:
  assumes i: "i < length sp" and inv: "cow_inv (forked sp i k) (fk_machine k)"
    and vs: "as_vmas (fk_child k) = as_vmas (fk_parent k)"
    and ps: "\<forall>(v, va) \<in> set ps. find_vma (as_vmas (fk_parent k)) va = Some v \<and> va mod PAGE_SIZE = 0"
    and dist: "distinct (map (\<lambda>(v, va). va div PAGE_SIZE) ps)"
    and new: "\<forall>(v, va) \<in> set ps. as_ptab (fk_child k) (va div PAGE_SIZE) = None"
    and room: "\<forall>f < nframes (fk_machine k). unat (refs (fk_machine k) f) + length ps < 2 ^ 32"
  defines "k' \<equiv> fold (\<lambda>(v, va). fork_page v va) ps k"
  shows "cow_inv (forked sp i k') (fk_machine k') \<and> mc_mem (fk_machine k') = mc_mem (fk_machine k)
    \<and> as_vmas (fk_parent k') = as_vmas (fk_parent k) \<and> as_vmas (fk_child k') = as_vmas (fk_parent k)
    \<and> (\<forall>q. map_option fst (as_ptab (fk_parent k') q) = map_option fst (as_ptab (fk_parent k) q))
    \<and> (\<forall>q. map_option fst (as_ptab (fk_child k') q) =
        (if q \<in> (\<lambda>(v, va). va div PAGE_SIZE) ` set ps then map_option fst (as_ptab (fk_parent k) q)
         else map_option fst (as_ptab (fk_child k) q)))"
  using inv vs ps dist new room unfolding k'_def
proof (induction ps arbitrary: k)
  case (Cons p ps)
  obtain v va where p: "p = (v, va)" by (cases p)
  let ?pg = "va div PAGE_SIZE" and ?k = "fork_page v va k"
  have va: "find_vma (as_vmas (fk_parent k)) (?pg * PAGE_SIZE) = Some v" "as_ptab (fk_child k) ?pg = None"
    using Cons.prems(3,5) p div_mult_mod_eq [of va PAGE_SIZE] by simp_all
  have rm: "\<forall>f < nframes (fk_machine k). unat (refs (fk_machine k) f) + 1 < 2 ^ 32" using Cons.prems(6) by fastforce
  have inv': "cow_inv (forked sp i ?k) (fk_machine ?k)"
    by (rule fork_page_inv [OF i Cons.prems(1) va(1) Cons.prems(2) refl va(2) rm])
  have eff: "\<And>q. map_option fst (as_ptab (fk_parent ?k) q) = map_option fst (as_ptab (fk_parent k) q)"
    "\<And>q. map_option fst (as_ptab (fk_child ?k) q) =
       (if q = ?pg then map_option fst (as_ptab (fk_parent k) ?pg) else map_option fst (as_ptab (fk_child k) q))"
    "mc_mem (fk_machine ?k) = mc_mem (fk_machine k)"
    "\<forall>f < nframes (fk_machine ?k). unat (refs (fk_machine ?k) f) + length ps < 2 ^ 32"
    using fork_page_effect [OF i Cons.prems(1) refl va(2) Cons.prems(6), where v = v] by simp_all
  have "as_ptab (fk_child ?k) (wa div PAGE_SIZE) = None" if "(w, wa) \<in> set ps" for w wa
  proof -
    have "wa div PAGE_SIZE \<noteq> ?pg" using Cons.prems(4) that p by force
    moreover have "as_ptab (fk_child k) (wa div PAGE_SIZE) = None" using Cons.prems(5) that by auto
    ultimately show ?thesis using eff(2) [of "wa div PAGE_SIZE"] by simp
  qed
  then have ih: "cow_inv (forked sp i (fold (\<lambda>(v, va). fork_page v va) ps ?k)) (fk_machine (fold (\<lambda>(v, va). fork_page v va) ps ?k))
    \<and> mc_mem (fk_machine (fold (\<lambda>(v, va). fork_page v va) ps ?k)) = mc_mem (fk_machine ?k)
    \<and> as_vmas (fk_parent (fold (\<lambda>(v, va). fork_page v va) ps ?k)) = as_vmas (fk_parent ?k)
    \<and> as_vmas (fk_child (fold (\<lambda>(v, va). fork_page v va) ps ?k)) = as_vmas (fk_parent ?k)
    \<and> (\<forall>q. map_option fst (as_ptab (fk_parent (fold (\<lambda>(v, va). fork_page v va) ps ?k)) q) = map_option fst (as_ptab (fk_parent ?k) q))
    \<and> (\<forall>q. map_option fst (as_ptab (fk_child (fold (\<lambda>(v, va). fork_page v va) ps ?k)) q) =
        (if q \<in> (\<lambda>(v, va). va div PAGE_SIZE) ` set ps then map_option fst (as_ptab (fk_parent ?k) q)
         else map_option fst (as_ptab (fk_child ?k) q)))"
    using inv' Cons.prems(2,3,4) eff(4) by (intro Cons.IH) auto
  then show ?case using eff(1,2,3) p by (simp only: fold_Cons comp_def split_conv fork_page_vmas) auto
qed simp

lemma fold_bt_insert_sorted:
  assumes "sorted_wrt (<) (map v_start (xs @ ys))"
  shows "fold bt_insert ys xs = xs @ ys"
  using assms
proof (induction ys arbitrary: xs)
  case (Cons y ys)
  have "bt_insert y xs = xs @ [y]" using Cons.prems by (induction xs) (auto simp: sorted_wrt_append)
  then show ?case using Cons.IH [of "xs @ [y]"] Cons.prems by simp
qed simp

lemma cow_inv_new_space:
  assumes "cow_inv sp m" "as_ptab c = (\<lambda>_. None)"
  shows "cow_inv (sp @ [c]) m"
proof -
  have "mappers (sp @ [c]) f = mappers sp f" for f
    using assms(2) by (auto simp: mappers_def nth_append less_Suc_eq)
  moreover have "entry_ok m c q" for q using assms(2) by (simp add: entry_ok_def)
  ultimately show ?thesis
    using assms(1) by (auto simp: cow_inv_def counts_ok_def nth_append less_Suc_eq)
qed

text \<open>
  C8. \<open>fork\<close> gives the child a copy of the parent: the same areas and, at every page of them, the same
  contents, while the parent's own contents do not change; and it leaves parent and child, with every
  other address space, in the state from which no store to a private page of one is seen by another.
  Reference counts must have room for the pages visited.
\<close>

theorem fork_copies:
  assumes inv: "cow_inv sp m" and i: "i < length sp" and vs: "vmas_inv (as_vmas (sp ! i))"
    and room: "\<forall>f < nframes m. unat (refs m f) + length (fork_pages (as_vmas (sp ! i))) < 2 ^ 32"
  defines "k \<equiv> fork (sp ! i, m)"
  shows "cow_inv (sp[i := fk_parent k] @ [fk_child k]) (fk_machine k)
    \<and> as_vmas (fk_parent k) = as_vmas (sp ! i) \<and> as_vmas (fk_child k) = as_vmas (sp ! i)
    \<and> (\<forall>q. page_contents (fk_parent k) (fk_machine k) q = page_contents (sp ! i) m q)
    \<and> (\<forall>q. page_contents (fk_child k) (fk_machine k) q =
        (if find_vma (as_vmas (sp ! i)) (q * PAGE_SIZE) = None then None else page_contents (sp ! i) m q))"
proof -
  let ?a = "sp ! i" and ?ps = "fork_pages (as_vmas (sp ! i))"
  let ?c = "aspace_new\<lparr>as_brk_start := as_brk_start ?a, as_brk := as_brk ?a, as_mmap_hint := as_mmap_hint ?a, as_vmas := as_vmas ?a\<rparr>"
  let ?k0 = "\<lparr>fk_parent = ?a, fk_child = ?c, fk_machine = m\<rparr>"
  have k: "k = fold (\<lambda>(v, va). fork_page v va) ?ps ?k0"
    using fold_bt_insert_sorted [of "[]"] vmas_inv_sorted [OF vs]
    by (simp add: k_def fork_def Let_def fold_fork_area)
  have inv0: "cow_inv (forked sp i ?k0) (fk_machine ?k0)"
    using cow_inv_new_space [OF inv, of ?c] by (simp add: aspace_new_def)
  have "\<forall>(v, va) \<in> set ?ps. find_vma (as_vmas (fk_parent ?k0)) va = Some v \<and> va mod PAGE_SIZE = 0"
    using fork_pages_mem [OF vs] by auto
  moreover have "\<forall>(v, va) \<in> set ?ps. as_ptab (fk_child ?k0) (va div PAGE_SIZE) = None"
    by (simp add: aspace_new_def split_beta)
  ultimately have loop: "cow_inv (forked sp i k) (fk_machine k) \<and> mc_mem (fk_machine k) = mc_mem m
    \<and> as_vmas (fk_parent k) = as_vmas ?a \<and> as_vmas (fk_child k) = as_vmas ?a
    \<and> (\<forall>q. map_option fst (as_ptab (fk_parent k) q) = map_option fst (as_ptab ?a q))
    \<and> (\<forall>q. map_option fst (as_ptab (fk_child k) q) =
        (if q \<in> (\<lambda>(v, va). va div PAGE_SIZE) ` set ?ps then map_option fst (as_ptab ?a q) else None))"
    using fork_loop [OF i inv0 _ _ distinct_fork_pages [OF vs]] room unfolding k by (simp add: aspace_new_def)
  have visited: "q \<in> (\<lambda>(v, va). va div PAGE_SIZE) ` set ?ps \<longleftrightarrow> find_vma (as_vmas ?a) (q * PAGE_SIZE) \<noteq> None" for q
  proof
    assume "q \<in> (\<lambda>(v, va). va div PAGE_SIZE) ` set ?ps"
    then obtain v va where "(v, va) \<in> set ?ps" "q = va div PAGE_SIZE" by auto
    then show "find_vma (as_vmas ?a) (q * PAGE_SIZE) \<noteq> None"
      using fork_pages_mem [OF vs] div_mult_mod_eq [of va PAGE_SIZE] by simp
  next
    assume "find_vma (as_vmas ?a) (q * PAGE_SIZE) \<noteq> None"
    then obtain v where "(v, q * PAGE_SIZE) \<in> set ?ps" using fork_pages_mem [OF vs] by auto
    then show "q \<in> (\<lambda>(v, va). va div PAGE_SIZE) ` set ?ps"
      using top_facts(4) by (intro image_eqI [of _ _ "(v, q * PAGE_SIZE)"]) auto
  qed
  have contents: "page_contents b m' q = map_option (\<lambda>pa. mc_mem m' (pa div FRAME)) (map_option fst (as_ptab b q))" for b m' q
    by (cases "as_ptab b q") (simp_all add: page_contents_def)
  show ?thesis using loop unfolding contents visited by simp
qed

section \<open>Witnesses\<close>

text \<open>Frame 100, with a given reference count, behind page 32 of one or two address spaces.\<close>

definition demo_vma :: "u32 \<Rightarrow> vma" where
  "demo_vma prot = \<lparr>v_start = 0x20000, v_end = 0x21000, v_prot = prot, v_shared = False, v_backing = Anon, v_name = ''[anon]''\<rparr>"

definition demo_space :: "u32 \<Rightarrow> u64 \<Rightarrow> aspace" where
  "demo_space prot fl = aspace_new\<lparr>as_vmas := [demo_vma prot], as_ptab := (\<lambda>_. None)(32 := Some (100 * FRAME, fl))\<rparr>"

definition demo_machine :: "u32 \<Rightarrow> machine" where
  "demo_machine n = \<lparr>mc_frames = \<lparr>fs_pmm = demo_pmm, fs_refs = (replicate 300 0)[100 := n]\<rparr>, mc_mem = (\<lambda>_. replicate 4096 7)\<rparr>"

lemma demo_pmm_frames: "pm_frames demo_pmm = 300"
  by (simp add: demo_pmm_def free_frame_def Let_def)

lemma demo_refs: "f < 300 \<Longrightarrow> refs (demo_machine n) f = (if f = 100 then n else 0)"
  by (auto simp: refs_def demo_machine_def nth_list_update)

lemma demo_machine_facts:
  "nframes (demo_machine n) = 300" "avail (demo_machine n) = {298, 299}" "frames_ok (demo_machine n)"
proof -
  show n: "nframes (demo_machine n) = 300" and a: "avail (demo_machine n) = {298, 299}"
    by (simp_all add: nframes_def avail_def demo_machine_def demo_pmm_frames demo_pmm_facts)
  have "length (fs_refs (mc_frames (demo_machine n))) = 300" by (simp add: demo_machine_def)
  then show "frames_ok (demo_machine n)"
    unfolding frames_ok_def n a using demo_refs [of _ n] demo_pmm_facts(1) by (auto simp: demo_machine_def)
qed

lemma demo_space_facts:
  "as_ptab (demo_space prot fl) = (\<lambda>_. None)(32 := Some (100 * FRAME, fl))" "as_vmas (demo_space prot fl) = [demo_vma prot]"
  "vmas_inv [demo_vma prot]"
  "find_vma [demo_vma prot] b = (if 0x20000 \<le> b \<and> b < 0x21000 then Some (demo_vma prot) else None)"
  "private_page (demo_space prot fl) q \<longleftrightarrow> q = 32"
proof -
  show "as_ptab (demo_space prot fl) = (\<lambda>_. None)(32 := Some (100 * FRAME, fl))"
    and vs: "as_vmas (demo_space prot fl) = [demo_vma prot]" by (simp_all add: demo_space_def)
  show "vmas_inv [demo_vma prot]"
    by (simp add: vmas_inv_def vma_ok_def demo_vma_def PAGE_SIZE_def USER_TOP_def)
  show fv: "find_vma [demo_vma prot] b = (if 0x20000 \<le> b \<and> b < 0x21000 then Some (demo_vma prot) else None)" for b
    by (auto simp: find_vma_def last_below_def demo_vma_def contains_def)
  show "private_page (demo_space prot fl) q \<longleftrightarrow> q = 32"
    unfolding private_page_def vs fv by (auto simp: demo_vma_def is_phys_def PAGE_SIZE_def)
qed

lemma demo_cow_inv:
  assumes "has fl PRESENT" "has fl WRITABLE \<Longrightarrow> length sp = 1" "unat n = length sp" "\<forall>a \<in> set sp. a = demo_space prot fl" "sp \<noteq> []"
  shows "cow_inv sp (demo_machine n)"
proof -
  have F: "100 * FRAME div FRAME = 100" "100 * FRAME mod FRAME = 0" by (simp_all add: FRAME_def)
  have nth: "sp ! i = demo_space prot fl" if "i < length sp" for i using assms(4) that by simp
  have maps: "mappers sp f = (if f = 100 then {..<length sp} \<times> {32} else {})" for f
    using F nth by (auto simp: mappers_def demo_space_facts split: if_splits)
  have n0: "n \<noteq> 0" using assms(3,5) by auto
  have n1: "n = 1" if "length sp = 1" using assms(3) that by (simp add: word_unat_eq_iff)
  have "counts_ok sp (demo_machine n)"
    using assms(3) demo_refs [of 100 n] by (auto simp: counts_ok_def maps demo_machine_facts)
  moreover have "entry_ok (demo_machine n) (sp ! i) q" if "i < length sp" for i q
    using assms(1,2) n0 n1 demo_refs [of 100 n] F nth [OF that]
    by (intro entry_okI) (auto simp: demo_space_facts demo_machine_facts split: if_splits)
  ultimately show ?thesis using demo_machine_facts(3) by (simp add: cow_inv_def)
qed

text \<open>A page cache that reads every page into a fresh frame keeps the contract.\<close>

definition fresh_cache :: page_cache where
  "fresh_cache inode idx m = (case mc_alloc m of (None, m') \<Rightarrow> (Inl ENOMEM, m') | (Some pa, m') \<Rightarrow> (Inr pa, m'))"

lemma cow_inv_alloc:
  assumes inv: "cow_inv sp m" and al: "mc_alloc m = (Some pa, m')"
  shows "cow_inv sp m'"
proof -
  have fr: "frames_ok m" using inv by (simp add: cow_inv_def)
  note al = mc_alloc_spec [OF fr al]
  note g = avail_unmapped [OF inv al(3)]
  have "counts_ok sp m'" using inv g unfolding cow_inv_def counts_ok_def al(5,6,7) by auto
  moreover have "entry_ok m' (sp ! i) q" if "i < length sp" for i q
  proof (rule entry_ok_refs [OF _ al(5)])
    show "entry_ok m (sp ! i) q" using inv that by (simp add: cow_inv_def)
  qed (use g(2) in \<open>auto simp: al(7)\<close>)
  ultimately show ?thesis using al(1) by (simp add: cow_inv_def)
qed

lemma fresh_cache_law: "cache_law fresh_cache sp"
  unfolding cache_law_def
proof (intro allI impI)
  fix inode idx m r m'
  assume inv: "cow_inv sp m" and f: "fresh_cache inode idx m = (r, m')"
  have fr: "frames_ok m" using inv by (simp add: cow_inv_def)
  show "cow_inv sp m' \<and> (\<forall>i pg. others_same sp i pg m m') \<and> (case r of Inl _ \<Rightarrow> True
      | Inr pa \<Rightarrow> pa mod FRAME = 0 \<and> pa div FRAME < nframes m' \<and> card (mappers sp (pa div FRAME)) < unat (refs m' (pa div FRAME)))"
  proof (cases r)
    case (Inl e)
    then have "mc_alloc m = (None, m')" using f by (auto simp: fresh_cache_def split: prod.splits option.splits)
    then show ?thesis using mc_alloc_None [OF fr] inv Inl by simp
  next
    case (Inr pa)
    then have al: "mc_alloc m = (Some pa, m')" using f by (auto simp: fresh_cache_def split: prod.splits option.splits)
    note spec = mc_alloc_spec [OF fr al]
    show ?thesis
      using Inr cow_inv_alloc [OF inv al] spec avail_unmapped(1) [OF inv spec(3)] by (simp add: others_same_def)
  qed
qed

theorem private_store_isolated_witness:
  "\<exists>a' m'. fault fresh_cache 0x20010 True False (demo_space 3 (PRESENT OR COW), demo_machine 2) = (Inr (), a', m')
     \<and> page_contents (demo_space 3 (PRESENT OR COW)) (user_store 0x20010 9 a' m') 32 = Some (replicate 4096 7)"
proof -
  let ?a = "demo_space 3 (PRESENT OR COW)" and ?m = "demo_machine 2"
  have inv: "cow_inv [?a, ?a] ?m" by (rule demo_cow_inv [where prot = 3]) auto
  obtain r a' m' where f: "fault fresh_cache 0x20010 True False (?a, ?m) = (r, a', m')"
    by (cases "fault fresh_cache 0x20010 True False (?a, ?m)") auto
  have "alloc_one demo_pmm \<noteq> (None, p)" for p
    using alloc_one_spec [OF demo_pmm_facts(1)] demo_pmm_facts(2) by auto
  then obtain pa p where one: "alloc_one demo_pmm = (Some pa, p)" by (metis option.exhaust surj_pair)
  have "ref_count (mc_frames ?m) (100 * FRAME) = 2" by (simp add: ref_count_def demo_machine_def FRAME_def)
  moreover have "fst (mc_alloc ?m) = Some pa" using one by (simp add: mc_alloc_def alloc_frame_ref_def demo_machine_def)
  ultimately have cow: "fst (cow_page 0x20000 (100 * FRAME) (PRESENT OR COW) (?a, ?m)) = Inr ()"
    by (cases "mc_alloc ?m") (simp add: cow_page_def)
  have "has (v_prot (demo_vma 3)) PROT_WRITE" by (simp add: demo_vma_def has_def PROT_WRITE_def)
  then have "fault fresh_cache 0x20010 True False (?a, ?m) = cow_page 0x20000 (100 * FRAME) (PRESENT OR COW) (?a, ?m)"
    unfolding fault_def fst_conv demo_space_facts(2,4)
    by (simp add: populate_page_def pt_translate_def demo_space_facts(1) page_align_down_def PAGE_SIZE_def)
  then have "r = Inr ()" using f cow by (metis fst_conv)
  then have f': "fault fresh_cache 0x20010 True False ([?a, ?a] ! 0, ?m) = (Inr (), a', m')" using f by simp
  note iso = private_store_isolated [OF inv _ _ _ fresh_cache_law f', where b = 9]
  have "page_contents ([?a, ?a][0 := a'] ! 1) (user_store 0x20010 9 a' m') 32 = page_contents ([?a, ?a] ! 1) ?m 32"
    using iso [THEN conjunct2, THEN spec, THEN spec, of 1 32] by (simp add: demo_space_facts PAGE_SIZE_def)
  moreover have "page_contents ?a ?m 32 = Some (replicate 4096 7)"
    by (simp add: page_contents_def demo_space_facts demo_machine_def)
  ultimately show ?thesis using f' by auto
qed

lemma demo_fork_pages: "fork_pages [demo_vma prot] = [(demo_vma prot, 0x20000)]"
  by (simp add: fork_pages_def demo_vma_def pages_from.simps PAGE_SIZE_def)

theorem fork_copies_witness:
  "page_contents (fk_child (fork (demo_space 3 (PRESENT OR WRITABLE), demo_machine 1)))
     (fk_machine (fork (demo_space 3 (PRESENT OR WRITABLE), demo_machine 1))) 32 = Some (replicate 4096 7)"
proof -
  have inv: "cow_inv [demo_space 3 (PRESENT OR WRITABLE)] (demo_machine 1)"
    by (rule demo_cow_inv [where prot = 3]) auto
  have pc: "page_contents (demo_space 3 (PRESENT OR WRITABLE)) (demo_machine 1) 32 = Some (replicate 4096 7)"
    by (simp add: page_contents_def demo_space_facts demo_machine_def)
  have room: "\<forall>f < nframes (demo_machine 1). unat (refs (demo_machine 1) f) + length (fork_pages [demo_vma 3]) < 2 ^ 32"
    using demo_refs [of _ 1] by (simp add: demo_fork_pages demo_machine_facts)
  note fc = fork_copies [OF inv, of 0, unfolded nth_Cons_0 demo_space_facts(2), OF _ demo_space_facts(3) room]
  show ?thesis
    using fc [THEN conjunct2, THEN conjunct2, THEN conjunct2, THEN conjunct2, THEN spec, of 32] pc
    by (simp add: demo_space_facts(4) PAGE_SIZE_def)
qed

text \<open>
  The isolation has a hole in \<open>mprotect\<close>: it makes every entry of the area writable that is not
  marked copy-on-write, without looking at the reference count. A page that was read-only when the
  process forked carries no such mark, so after the child makes its copy writable both processes map
  the same frame, the child's store needs no fault, and the parent sees it.
\<close>

theorem mprotect_after_fork_shares:
  "cow_inv [demo_space 1 PRESENT] (demo_machine 1) \<and>
   (let k = fork (demo_space 1 PRESENT, demo_machine 1) in
    \<exists>c. mprotect 0x20000 0x1000 3 (fk_child k) = Some (Inr (), c)
      \<and> fault fresh_cache 0x20000 True False (c, fk_machine k) = (Inr (), c, fk_machine k)
      \<and> page_contents (fk_parent k) (fk_machine k) 32 = Some (replicate 4096 7)
      \<and> page_contents (fk_parent k) (user_store 0x20000 9 c (fk_machine k)) 32 = Some ((replicate 4096 7)[0 := 9]))"
proof -
  let ?a = "demo_space 1 PRESENT" and ?m = "demo_machine 1" and ?k = "fork (demo_space 1 PRESENT, demo_machine 1)"
  have inv: "cow_inv [?a] ?m" by (rule demo_cow_inv [where prot = 1]) auto
  have child: "fold bt_insert [demo_vma 1] [] = [demo_vma 1]" by simp
  have k: "?k = fork_page (demo_vma 1) 0x20000 \<lparr>fk_parent = ?a, fk_child = aspace_new\<lparr>as_brk_start := as_brk_start ?a,
      as_brk := as_brk ?a, as_mmap_hint := as_mmap_hint ?a, as_vmas := [demo_vma 1]\<rparr>, fk_machine = ?m\<rparr>"
    by (simp add: fork_def Let_def demo_space_facts(2) fold_fork_area demo_fork_pages)
  have pt: "as_ptab (fk_child ?k) = (\<lambda>_. None)(32 := Some (100 * FRAME, PRESENT))" "as_vmas (fk_child ?k) = [demo_vma 1]"
    "as_ptab (fk_parent ?k) = (\<lambda>_. None)(32 := Some (100 * FRAME, PRESENT))" "mc_mem (fk_machine ?k) = mc_mem ?m"
    unfolding k by (simp_all add: fork_page_def pt_translate_def PAGE_SIZE_def demo_space_facts(1) Let_def aspace_new_def
      demo_vma_def is_phys_def mc_ref_inc_def)
  let ?w = "demo_vma 1\<lparr>v_prot := 3\<rparr>"
  let ?c = "pt_map 0x20000 (100 * FRAME) (pte_flags ?w OR (PRESENT AND PROT_KEEP)) (on_vmas (bt_insert ?w) (fk_child ?k))"
  have split: "split_at 0x20000 [demo_vma 1] = [demo_vma 1]" "split_at 0x21000 [demo_vma 1] = [demo_vma 1]"
    by (simp_all add: split_at_def demo_space_facts(4)) (simp add: demo_vma_def)
  have pages: "pages_from (v_start ?w) (v_end ?w) = [0x20000]"
    by (simp add: demo_vma_def pages_from.simps PAGE_SIZE_def)
  have area: "reprotect_area 3 0x20000 (fk_child ?k) = ?c"
  proof -
    have get: "bt_get 0x20000 (as_vmas (fk_child ?k)) = Some (demo_vma 1)" by (simp add: pt(2) bt_get_def demo_vma_def)
    have "pt_translate (on_vmas (bt_insert ?w) (fk_child ?k)) 0x20000 = Some (100 * FRAME, PRESENT)"
      by (simp add: pt_translate_def pt(1) PAGE_SIZE_def)
    then show ?thesis unfolding reprotect_area_def get option.case Let_def pages by (simp add: reprotect_page_def)
  qed
  have e: "wadd 0x20000 (page_align_up 0x1000) = 0x21000"
    by (simp add: wadd_def page_align_up_def page_align_down_def PAGE_SIZE_def)
  have same: "on_vmas (split_at 0x21000 \<circ> split_at 0x20000) (fk_child ?k) = fk_child ?k"
    by (simp add: on_vmas_def pt(2) split)
  have keys: "map v_start (filter (\<lambda>v. 0x20000 \<le> v_start v \<and> v_start v < 0x21000) (as_vmas (fk_child ?k))) = [0x20000]"
    by (simp add: pt(2)) (simp add: demo_vma_def)
  have mp: "mprotect 0x20000 0x1000 3 (fk_child ?k) = Some (Inr (), ?c)"
    unfolding mprotect_def e Let_def same keys using area by (simp add: PAGE_SIZE_def)
  have ptc: "as_ptab ?c 32 = Some (100 * FRAME, (pte_flags ?w OR (PRESENT AND PROT_KEEP)) OR PRESENT)"
    by (simp add: PAGE_SIZE_def)
  have w: "has (v_prot ?w) PROT_WRITE" by (simp add: has_def PROT_WRITE_def)
  have vc: "as_vmas ?c = [?w]" by (simp add: pt(2))
  have fv: "find_vma [?w] 0x20000 = Some ?w" by (simp add: find_vma_def last_below_def contains_def) (simp add: demo_vma_def)
  have "fault fresh_cache 0x20000 True False (?c, fk_machine ?k) = (Inr (), ?c, fk_machine ?k)"
    using w ptc unfolding fault_def fst_conv vc fv
    by (simp add: populate_page_def pt_translate_def page_align_down_def PAGE_SIZE_def)
  moreover have "page_contents (fk_parent ?k) (fk_machine ?k) 32 = Some (replicate 4096 7)"
    by (simp add: page_contents_def pt(3,4)) (simp add: demo_machine_def)
  moreover have "page_contents (fk_parent ?k) (user_store 0x20000 9 ?c (fk_machine ?k)) 32 = Some ((replicate 4096 7)[0 := 9])"
    using ptc by (simp add: page_contents_def user_store_def pt(3,4) PAGE_SIZE_def FRAME_def) (simp add: demo_machine_def)
  ultimately show ?thesis using inv mp unfolding Let_def by blast
qed

end
