(* ===== verification/Signals.thy ===== *)
theory Signals
  imports Mindos_Prelude
begin

text \<open>
  Signals of the kernel: src/research/kernel-rs/kernel/src/proc/signal.rs, the system calls of
  syscall/signal.rs, and the return to user mode of sched/mod.rs that delivers them.

  Signal numbers are integers, signal sets 64-bit words. The state of a delivery is the current
  task, its process, its parent with the parent's threads, the trap frame and the signal frames in
  user memory. User memory is what reading a \<open>ucontext\<close> or \<open>siginfo\<close> at an address gives; whether a
  range may be accessed (mm/user.rs, \<open>access_ok\<close>) and the size of the FPU area are arguments.
  The FPU contents are left out. A task that has to wait for SIGCONT is a result of its own.
\<close>

section \<open>Numbers\<close>

definition SIGKILL :: int where "SIGKILL = 9"
definition SIGSTOP :: int where "SIGSTOP = 19"
definition SIGCONT :: int where "SIGCONT = 18"
definition SIGCHLD :: int where "SIGCHLD = 17"
definition SIGSEGV :: int where "SIGSEGV = 11"

definition SA_NOCLDSTOP :: u64 where "SA_NOCLDSTOP = 1"
definition SA_ONSTACK :: u64 where "SA_ONSTACK = 0x08000000"
definition SA_RESTART :: u64 where "SA_RESTART = 0x10000000"
definition SA_NODEFER :: u64 where "SA_NODEFER = 0x40000000"
definition SA_RESETHAND :: u64 where "SA_RESETHAND = 0x80000000"
definition SA_RESTORER :: u64 where "SA_RESTORER = 0x04000000"

definition SIG_DFL :: u64 where "SIG_DFL = 0"
definition SIG_IGN :: u64 where "SIG_IGN = 1"

definition sig_bit :: "int \<Rightarrow> u64" where
  "sig_bit signo = push_bit (nat (signo - 1)) 1"

definition KILL_MASK :: u64 where "KILL_MASK = sig_bit SIGKILL OR sig_bit SIGSTOP"

datatype sig_default = Terminate | Core | Ignore | Stop | Continue

definition default_action :: "int \<Rightarrow> sig_default" where
  "default_action signo =
     (if signo \<in> {17, 23, 28} then Ignore
      else if signo \<in> {19, 20, 21, 22} then Stop
      else if signo = 18 then Continue
      else if signo \<in> {3, 4, 5, 6, 7, 8, 11, 31, 24, 25} then Core
      else Terminate)"

section \<open>Tasks and processes\<close>

record sig_action =
  sa_handler :: u64
  sa_flags :: u64
  sa_restorer :: u64
  sa_mask :: u64

definition SA_DEFAULT :: sig_action where
  "SA_DEFAULT = \<lparr>sa_handler = 0, sa_flags = 0, sa_restorer = 0, sa_mask = 0\<rparr>"

text \<open>A task, with the fields signals use; \<open>t_blocked\<close> is its state \<open>Blocked\<close>.\<close>

record task =
  t_pending :: u64
  t_mask :: u64
  t_alt_sp :: u64
  t_alt_size :: u64
  t_alt_flags :: u32
  t_saved_mask :: u64
  t_syscall_nr :: u64
  t_fault_addr :: u64
  t_fault_code :: int
  t_blocked :: bool
  t_interruptible :: bool
  t_on_stop_wq :: bool

datatype proc_state = Running | Stopped | Zombie

record process =
  p_pid :: nat
  p_uid :: u32
  p_pgid :: nat
  p_state :: proc_state
  p_shared :: u64
  p_actions :: "int \<Rightarrow> sig_action"
  p_exit_code :: int
  p_stop_signal :: int
  p_stopped_reported :: bool
  p_continued_reported :: bool
  p_group_exit :: bool

definition sighand_set :: "int \<Rightarrow> sig_action \<Rightarrow> process \<Rightarrow> process" where
  "sighand_set signo a p = p\<lparr>p_actions := (p_actions p)(signo := a)\<rparr>"

definition reset_for_exec :: "process \<Rightarrow> process" where
  "reset_for_exec p = p\<lparr>p_actions := (\<lambda>s. let a = p_actions p s in
     if sa_handler a \<noteq> 1 then SA_DEFAULT else a\<lparr>sa_flags := 0, sa_mask := 0\<rparr>)\<rparr>"


definition interrupt_if_sleeping :: "task \<Rightarrow> task" where
  "interrupt_if_sleeping t = (if t_blocked t \<and> t_interruptible t then t\<lparr>t_blocked := False\<rparr> else t)"

definition post_signal :: "int \<Rightarrow> task \<Rightarrow> task" where
  "post_signal signo t = interrupt_if_sleeping (t\<lparr>t_pending := t_pending t OR sig_bit signo\<rparr>)"

definition wake_stopped :: "task \<Rightarrow> task" where
  "wake_stopped t = (if t_on_stop_wq t then t\<lparr>t_blocked := False, t_on_stop_wq := False\<rparr> else t)"

section \<open>Sending\<close>

text \<open>The thread that is woken: the first that does not block the signal, else the first.\<close>

fun wake_target :: "int \<Rightarrow> task list \<Rightarrow> nat option" where
  "wake_target signo [] = None"
| "wake_target signo (t # ts) =
     (if t_mask t AND sig_bit signo = 0 then Some 0
      else case wake_target signo ts of Some i \<Rightarrow> Some (Suc i) | None \<Rightarrow> None)"

definition stop_signals :: u64 where
  "stop_signals = sig_bit 19 OR sig_bit 20 OR sig_bit 21 OR sig_bit 22"

text \<open>SIGCONT wakes a stopped process and drops its pending stops; a stop drops a pending SIGCONT.\<close>

definition job_control :: "int \<Rightarrow> process \<times> task list \<Rightarrow> process \<times> task list" where
  "job_control signo pt =
     (case pt of (p, ts) \<Rightarrow>
        (let (p, ts) = (if signo = SIGCONT then
               (let (p, ts) = (if p_state p = Stopped then
                        (p\<lparr>p_state := Running, p_continued_reported := False\<rparr>, map wake_stopped ts) else (p, ts))
                in (p\<lparr>p_shared := p_shared p AND NOT stop_signals\<rparr>, ts)) else (p, ts))
         in (if signo \<in> {19, 20, 21, 22} then p\<lparr>p_shared := p_shared p AND NOT (sig_bit SIGCONT)\<rparr> else p, ts)))"

definition send :: "int \<Rightarrow> process \<times> task list \<Rightarrow> process \<times> task list" where
  "send signo pt =
     (if signo \<le> 0 \<or> 64 < signo \<or> p_pid (fst pt) = 0 \<or> p_state (fst pt) = Zombie then pt
      else
        (let action = p_actions (fst pt) signo;
             (p, ts) = job_control signo pt
         in if sa_handler action = SIG_IGN \<and> signo \<noteq> SIGKILL \<and> signo \<noteq> SIGSTOP then (p, ts)
            else if sa_handler action = SIG_DFL \<and> default_action signo = Ignore then (p, ts)
            else
              (let p = p\<lparr>p_shared := p_shared p OR sig_bit signo\<rparr>;
                   target = (case wake_target signo ts of Some i \<Rightarrow> Some i | None \<Rightarrow> if ts = [] then None else Some 0)
               in case target of
                    None \<Rightarrow> (p, ts)
                  | Some i \<Rightarrow> (p, if signo = SIGKILL then map interrupt_if_sleeping ts
                                 else ts[i := interrupt_if_sleeping (ts ! i)]))))"


text \<open>Every process of a group, given the process table.\<close>

definition send_to_pgrp :: "nat \<Rightarrow> int \<Rightarrow> (process \<times> task list) list \<Rightarrow> nat \<times> (process \<times> task list) list" where
  "send_to_pgrp pgid signo ps =
     (let hit = (\<lambda>pt. p_pgid (fst pt) = pgid \<and> p_state (fst pt) \<noteq> Zombie)
      in (length (filter hit ps), map (\<lambda>pt. if hit pt then send signo pt else pt) ps))"

definition kill :: "nat \<Rightarrow> nat \<Rightarrow> int \<Rightarrow> int \<Rightarrow> (process \<times> task list) list \<Rightarrow> (errno + unit) \<times> (process \<times> task list) list" where
  "kill me mypgid pid signo ps =
     (if signo < 0 \<or> 64 < signo then (Inl EINVAL, ps)
      else if 0 < pid then
        (case List.find (\<lambda>pt. int (p_pid (fst pt)) = pid mod 2 ^ 32) ps of
           None \<Rightarrow> (Inl (Errno 3), ps)
         | Some _ \<Rightarrow> (Inr (), if signo \<noteq> 0 then map (\<lambda>pt. if int (p_pid (fst pt)) = pid mod 2 ^ 32 then send signo pt else pt) ps else ps))
      else if pid = 0 then (Inr (), if signo \<noteq> 0 then snd (send_to_pgrp mypgid signo ps) else ps)
      else if pid = -1 then
        (let hit = (\<lambda>pt. 1 < p_pid (fst pt) \<and> p_pid (fst pt) \<noteq> me \<and> p_state (fst pt) \<noteq> Zombie) in
         if filter hit ps = [] then (Inl (Errno 3), ps)
         else (Inr (), if signo \<noteq> 0 then map (\<lambda>pt. if hit pt then send signo pt else pt) ps else ps))
      else
        (let pg = nat ((- pid) mod 2 ^ 32);
             (n, ps') = (if signo \<noteq> 0 then send_to_pgrp pg signo ps
                         else (length (filter (\<lambda>pt. p_pgid (fst pt) = pg) ps), ps))
         in if n = 0 then (Inl (Errno 3), ps') else (Inr (), ps')))"

section \<open>Delivery\<close>

record trap_frame =
  f_r8 :: u64
  f_r9 :: u64
  f_r10 :: u64
  f_r11 :: u64
  f_r12 :: u64
  f_r13 :: u64
  f_r14 :: u64
  f_r15 :: u64
  f_rdi :: u64
  f_rsi :: u64
  f_rbp :: u64
  f_rbx :: u64
  f_rdx :: u64
  f_rax :: u64
  f_rcx :: u64
  f_rsp :: u64
  f_rip :: u64
  f_rflags :: u64
  f_cs :: u64
  f_ss :: u64
  f_vector :: u64
  f_error :: u64

record sigcontext =
  mc_r8 :: u64
  mc_r9 :: u64
  mc_r10 :: u64
  mc_r11 :: u64
  mc_r12 :: u64
  mc_r13 :: u64
  mc_r14 :: u64
  mc_r15 :: u64
  mc_rdi :: u64
  mc_rsi :: u64
  mc_rbp :: u64
  mc_rbx :: u64
  mc_rdx :: u64
  mc_rax :: u64
  mc_rcx :: u64
  mc_rsp :: u64
  mc_rip :: u64
  mc_eflags :: u64
  mc_cs :: u16
  mc_ss :: u16
  mc_err :: u64
  mc_trapno :: u64
  mc_oldmask :: u64
  mc_cr2 :: u64
  mc_fpstate :: u64

record ucontext =
  uc_stack_sp :: u64
  uc_stack_flags :: u32
  uc_stack_size :: u64
  uc_mcontext :: sigcontext
  uc_sigmask :: u64

record siginfo =
  si_signo :: int
  si_code :: int
  si_field0 :: u64

text \<open>The sizes of the C structures.\<close>

definition UCONTEXT_SIZE :: u64 where "UCONTEXT_SIZE = 424"
definition SIGFRAME_SIZE :: u64 where "SIGFRAME_SIZE = 560"
definition USER_CS :: u64 where "USER_CS = 0x23"
definition USER_DS :: u64 where "USER_DS = 0x1b"

record ctx =
  c_frame :: trap_frame
  c_task :: task
  c_proc :: process
  c_parent :: "(process \<times> task list) option"
  c_uc :: "u64 \<Rightarrow> ucontext"
  c_info :: "u64 \<Rightarrow> siginfo"

definition is_syscall :: "trap_frame \<Rightarrow> bool" where
  "is_syscall f \<longleftrightarrow> f_vector f = - 1"

definition trailing_zeros :: "u64 \<Rightarrow> nat" where
  "trailing_zeros w = (case List.find (bit w) [0..<64] of Some i \<Rightarrow> i | None \<Rightarrow> 64)"

definition sync_mask :: u64 where
  "sync_mask = sig_bit 11 OR sig_bit 7 OR sig_bit 4 OR sig_bit 8 OR sig_bit 5"

definition pick_signal :: "u64 \<Rightarrow> int" where
  "pick_signal pending =
     (if pending AND sig_bit SIGKILL \<noteq> 0 then SIGKILL
      else
        (let cand = (if pending AND sync_mask \<noteq> 0 then pending AND sync_mask else pending)
         in int (trailing_zeros cand) + 1))"

definition dequeue :: "ctx \<Rightarrow> (int \<times> ctx) option" where
  "dequeue c =
     (let t = c_task c; p = c_proc c; own = t_pending t AND NOT (t_mask t) in
      if own \<noteq> 0 then
        (let signo = pick_signal own in Some (signo, c\<lparr>c_task := t\<lparr>t_pending := t_pending t AND NOT (sig_bit signo)\<rparr>\<rparr>))
      else
        (let shared = p_shared p AND NOT (t_mask t) in
         if shared = 0 then None
         else (let signo = pick_signal shared in Some (signo, c\<lparr>c_proc := p\<lparr>p_shared := p_shared p AND NOT (sig_bit signo)\<rparr>\<rparr>))))"

definition restart_syscall_check :: "sig_action option \<Rightarrow> ctx \<Rightarrow> ctx" where
  "restart_syscall_check action c =
     (let f = c_frame c in
      if \<not> is_syscall f \<or> f_rax f \<noteq> as_ret ERESTARTSYS then c
      else if (case action of None \<Rightarrow> True | Some a \<Rightarrow> sa_flags a AND SA_RESTART \<noteq> 0)
      then c\<lparr>c_frame := f\<lparr>f_rax := t_syscall_nr (c_task c), f_rip := f_rip f - 2\<rparr>\<rparr>
      else c\<lparr>c_frame := f\<lparr>f_rax := as_ret EINTR\<rparr>\<rparr>)"

definition do_stop :: "int \<Rightarrow> ctx \<Rightarrow> ctx" where
  "do_stop signo c =
     c\<lparr>c_proc := (c_proc c)\<lparr>p_state := Stopped, p_stop_signal := signo, p_stopped_reported := False\<rparr>,
       c_parent := (case c_parent c of
          None \<Rightarrow> None
        | Some (pp, pts) \<Rightarrow> Some (if sa_flags (p_actions pp SIGCHLD) AND SA_NOCLDSTOP = 0 then send SIGCHLD (pp, pts) else (pp, pts))),
       c_task := (c_task c)\<lparr>t_blocked := True, t_interruptible := False, t_on_stop_wq := True\<rparr>\<rparr>"

definition exit_group_signal :: "int \<Rightarrow> ctx \<Rightarrow> ctx" where
  "exit_group_signal signo c =
     (if p_group_exit (c_proc c) then c
      else c\<lparr>c_proc := (c_proc c)\<lparr>p_group_exit := True, p_exit_code := signo mod 128\<rparr>\<rparr>)"


text \<open>Where the frame goes: the alternate stack when asked for and not already on it, else below the red zone.\<close>

definition frame_base :: "task \<Rightarrow> trap_frame \<Rightarrow> sig_action \<Rightarrow> u64" where
  "frame_base t f action =
     (let on_altstack = (t_alt_flags t AND 2 = 0 \<and> t_alt_size t \<noteq> 0 \<and>
            \<not> (t_alt_sp t < f_rsp f \<and> f_rsp f \<le> t_alt_sp t + t_alt_size t))
      in if sa_flags action AND SA_ONSTACK \<noteq> 0 \<and> on_altstack then t_alt_sp t + t_alt_size t else f_rsp f - 128)"

definition save_context :: "task \<Rightarrow> trap_frame \<Rightarrow> u64 \<Rightarrow> ucontext" where
  "save_context t f fpstate =
     \<lparr>uc_stack_sp = t_alt_sp t, uc_stack_flags = t_alt_flags t, uc_stack_size = t_alt_size t,
      uc_mcontext = \<lparr>mc_r8 = f_r8 f, mc_r9 = f_r9 f, mc_r10 = f_r10 f, mc_r11 = f_r11 f, mc_r12 = f_r12 f, mc_r13 = f_r13 f,
        mc_r14 = f_r14 f, mc_r15 = f_r15 f, mc_rdi = f_rdi f, mc_rsi = f_rsi f, mc_rbp = f_rbp f, mc_rbx = f_rbx f,
        mc_rdx = f_rdx f, mc_rax = f_rax f, mc_rcx = f_rcx f, mc_rsp = f_rsp f, mc_rip = f_rip f, mc_eflags = f_rflags f,
        mc_cs = ucast (f_cs f), mc_ss = ucast (f_ss f), mc_err = f_error f,
        mc_trapno = (if f_vector f = - 1 then 0 else f_vector f), mc_oldmask = t_mask t, mc_cr2 = t_fault_addr t, mc_fpstate = fpstate\<rparr>,
      uc_sigmask = t_mask t\<rparr>"

definition make_info :: "int \<Rightarrow> task \<Rightarrow> process \<Rightarrow> siginfo" where
  "make_info signo t p =
     (if signo \<in> {11, 7, 4, 8, 5} then \<lparr>si_signo = signo, si_code = t_fault_code t, si_field0 = t_fault_addr t\<rparr>
      else if signo = SIGCHLD then \<lparr>si_signo = signo, si_code = 1, si_field0 = 0\<rparr>
      else \<lparr>si_signo = signo, si_code = 0, si_field0 = of_nat (p_pid p) OR push_bit 32 (ucast (p_uid p))\<rparr>)"

definition setup_frame :: "(u64 \<Rightarrow> u64 \<Rightarrow> bool) \<Rightarrow> u64 \<Rightarrow> int \<Rightarrow> sig_action \<Rightarrow> ctx \<Rightarrow> errno + ctx" where
  "setup_frame writable xsave_size signo action c =
     (let t = c_task c; f = c_frame c;
          fpstate = (frame_base t f action - xsave_size) AND NOT 63;
          frame_addr = ((fpstate - SIGFRAME_SIZE) AND NOT 15) - 8
      in if \<not> writable fpstate xsave_size then Inl EFAULT
         else if \<not> writable frame_addr SIGFRAME_SIZE then Inl EFAULT
         else
           (let m = t_mask t OR sa_mask action;
                m = (if sa_flags action AND SA_NODEFER = 0 then m OR sig_bit signo else m)
            in Inr (c\<lparr>c_uc := (c_uc c)(frame_addr + 8 := save_context t f fpstate),
                  c_info := (c_info c)(frame_addr + 8 + UCONTEXT_SIZE := make_info signo t (c_proc c)),
                  c_task := t\<lparr>t_mask := m AND NOT KILL_MASK\<rparr>,
                  c_frame := f\<lparr>f_rsp := frame_addr, f_rip := sa_handler action, f_rdi := of_int signo,
                    f_rsi := frame_addr + 8 + UCONTEXT_SIZE, f_rdx := frame_addr + 8, f_rax := 0,
                    f_rflags := f_rflags f AND NOT (push_bit 10 1), f_cs := USER_CS, f_ss := USER_DS\<rparr>\<rparr>)))"

datatype outcome =
    Returned bool ctx  \<comment> \<open>whether anything was done\<close>
  | Killed int ctx
  | Asleep ctx  \<comment> \<open>on the stop queue; goes on with \<open>deliver_loop True\<close>\<close>

definition finish :: "bool \<Rightarrow> ctx \<Rightarrow> outcome" where
  "finish did c =
     (if did then
        (let saved = t_saved_mask (c_task c); t = (c_task c)\<lparr>t_saved_mask := - 1\<rparr>
         in Returned True (c\<lparr>c_task := (if saved \<noteq> - 1 then t\<lparr>t_mask := saved AND NOT KILL_MASK\<rparr> else t)\<rparr>))
      else Returned False (restart_syscall_check None c))"

definition pending_bits :: "ctx \<Rightarrow> nat" where
  "pending_bits c = card {n. bit (t_pending (c_task c)) n} + card {n. bit (p_shared (c_proc c)) n}"

lemma bit_sig_bit: "1 \<le> s \<Longrightarrow> bit (sig_bit s) n \<longleftrightarrow> n = nat (s - 1) \<and> n < 64"
  by (auto simp: sig_bit_def bit_push_bit_iff bit_1_iff simp del: push_bit_of_1)

lemma and_sig_bit: "1 \<le> s \<Longrightarrow> s \<le> 64 \<Longrightarrow> w AND sig_bit s = 0 \<longleftrightarrow> \<not> bit w (nat (s - 1))"
proof -
  assume s: "1 \<le> s" "s \<le> 64"
  show ?thesis
  proof
    assume "w AND sig_bit s = 0"
    then have "\<not> bit (w AND sig_bit s) (nat (s - 1))" by simp
    moreover have "nat (s - 1) < 64" using s by simp
    ultimately show "\<not> bit w (nat (s - 1))" using s(1) by (simp add: bit_and_iff bit_sig_bit)
  next
    assume "\<not> bit w (nat (s - 1))"
    then show "w AND sig_bit s = 0" using s by (intro bit_word_eqI) (auto simp: bit_and_iff bit_sig_bit)
  qed
qed

lemma trailing_zeros_bit: "w \<noteq> 0 \<Longrightarrow> trailing_zeros w < 64 \<and> bit w (trailing_zeros w)"
proof -
  assume "w \<noteq> 0"
  then obtain n where "n < 64" "bit w n" by (auto simp: bit_eq_iff dest: bit_imp_le_length)
  then obtain i where i: "List.find (bit w) [0..<64] = Some i"
    by (cases "List.find (bit w) [0..<64]") (auto simp: find_None_iff)
  then have "i < 64 \<and> bit w i" by (auto simp: find_Some_iff)
  then show ?thesis by (simp add: trailing_zeros_def i)
qed

lemma pick_signal_in:
  assumes "pending \<noteq> 0"
  shows "1 \<le> pick_signal pending \<and> pick_signal pending \<le> 64 \<and> bit pending (nat (pick_signal pending - 1))"
proof (cases "pending AND sig_bit SIGKILL \<noteq> 0")
  case True
  then show ?thesis using and_sig_bit [of SIGKILL pending] by (simp add: pick_signal_def SIGKILL_def)
next
  case False
  define cand where "cand = (if pending AND sync_mask \<noteq> 0 then pending AND sync_mask else pending)"
  have "cand \<noteq> 0" using assms by (simp add: cand_def)
  then have tz: "trailing_zeros cand < 64" "bit cand (trailing_zeros cand)" using trailing_zeros_bit by auto
  moreover have "bit pending n" if "bit cand n" for n using that by (auto simp: cand_def bit_and_iff split: if_splits)
  ultimately show ?thesis using False by (simp add: pick_signal_def cand_def [symmetric] Let_def)
qed

lemma finite_bits: "finite {n. bit (w :: u64) n}"
  by (rule finite_subset [of _ "{..<64}"]) (auto dest: bit_imp_le_length)

lemma clear_bit_card:
  assumes "1 \<le> s" "bit w (nat (s - 1))"
  shows "card {n. bit (w AND NOT (sig_bit s)) n} < card {n. bit (w :: u64) n}"
proof (rule psubset_card_mono [OF finite_bits])
  have "nat (s - 1) < 64" using bit_imp_le_length [OF assms(2)] by simp
  then show "{n. bit (w AND NOT (sig_bit s)) n} \<subset> {n. bit w n}"
    using assms by (auto simp: bit_and_iff bit_not_iff bit_sig_bit psubset_eq)
qed

lemma dequeueE:
  assumes "dequeue c = Some (signo, c')"
  obtains (own) "t_pending (c_task c) AND NOT (t_mask (c_task c)) \<noteq> 0"
      "signo = pick_signal (t_pending (c_task c) AND NOT (t_mask (c_task c)))"
      "c' = c\<lparr>c_task := (c_task c)\<lparr>t_pending := t_pending (c_task c) AND NOT (sig_bit signo)\<rparr>\<rparr>"
    | (shared) "p_shared (c_proc c) AND NOT (t_mask (c_task c)) \<noteq> 0"
      "signo = pick_signal (p_shared (c_proc c) AND NOT (t_mask (c_task c)))"
      "c' = c\<lparr>c_proc := (c_proc c)\<lparr>p_shared := p_shared (c_proc c) AND NOT (sig_bit signo)\<rparr>\<rparr>"
  using assms by (auto simp: dequeue_def Let_def split: if_splits)

lemma dequeue_facts:
  assumes "dequeue c = Some (signo, c')"
  shows "pending_bits c' < pending_bits c" "1 \<le> signo" "signo \<le> 64"
    "c_frame c' = c_frame c" "c_uc c' = c_uc c" "t_mask (c_task c') = t_mask (c_task c)"
    "t_saved_mask (c_task c') = t_saved_mask (c_task c)" "p_actions (c_proc c') = p_actions (c_proc c)" "p_state (c_proc c') = p_state (c_proc c)"
proof -
  from assms have "pending_bits c' < pending_bits c \<and> 1 \<le> signo \<and> signo \<le> 64 \<and> c_frame c' = c_frame c \<and> c_uc c' = c_uc c
      \<and> t_mask (c_task c') = t_mask (c_task c) \<and> t_saved_mask (c_task c') = t_saved_mask (c_task c)
      \<and> p_actions (c_proc c') = p_actions (c_proc c) \<and> p_state (c_proc c') = p_state (c_proc c)"
  proof (cases rule: dequeueE)
    case own
    note b = pick_signal_in [OF own(1), folded own(2)]
    then have "bit (t_pending (c_task c)) (nat (signo - 1))" by (simp add: bit_and_iff)
    from clear_bit_card [OF _ this] b show ?thesis unfolding own(3) by (simp add: pending_bits_def)
  next
    case shared
    note b = pick_signal_in [OF shared(1), folded shared(2)]
    then have "bit (p_shared (c_proc c)) (nat (signo - 1))" by (simp add: bit_and_iff)
    from clear_bit_card [OF _ this] b show ?thesis unfolding shared(3) by (simp add: pending_bits_def)
  qed
  then show "pending_bits c' < pending_bits c" "1 \<le> signo" "signo \<le> 64"
    "c_frame c' = c_frame c" "c_uc c' = c_uc c" "t_mask (c_task c') = t_mask (c_task c)"
    "t_saved_mask (c_task c') = t_saved_mask (c_task c)" "p_actions (c_proc c') = p_actions (c_proc c)" "p_state (c_proc c') = p_state (c_proc c)"
    by blast+
qed

text \<open>The body of the loop for one signal; \<open>None\<close> goes round again.\<close>

definition deliver_one :: "(u64 \<Rightarrow> u64 \<Rightarrow> bool) \<Rightarrow> u64 \<Rightarrow> int \<Rightarrow> ctx \<Rightarrow> outcome option" where
  "deliver_one writable xs signo c =
     (let action = p_actions (c_proc c) signo in
      if sa_handler action = SIG_IGN \<and> signo \<noteq> SIGKILL \<and> signo \<noteq> SIGSTOP then None
      else if sa_handler action = SIG_DFL \<or> signo = SIGKILL \<or> signo = SIGSTOP then
        (case default_action signo of
           Ignore \<Rightarrow> None
         | Continue \<Rightarrow> None
         | Stop \<Rightarrow> Some (Asleep (do_stop signo c))
         | _ \<Rightarrow> Some (Killed signo (exit_group_signal signo (restart_syscall_check None c))))
      else
        (let c = restart_syscall_check (Some action) c in
         Some (case setup_frame writable xs signo action c of
                 Inl _ \<Rightarrow> Killed SIGSEGV (exit_group_signal SIGSEGV c)
               | Inr c \<Rightarrow>
                   finish True (if sa_flags action AND SA_RESETHAND \<noteq> 0
                                then c\<lparr>c_proc := sighand_set signo SA_DEFAULT (c_proc c)\<rparr> else c))))"

function deliver_loop :: "(u64 \<Rightarrow> u64 \<Rightarrow> bool) \<Rightarrow> u64 \<Rightarrow> bool \<Rightarrow> ctx \<Rightarrow> outcome" where
  "deliver_loop writable xs did c =
     (case dequeue c of
        None \<Rightarrow> finish did c
      | Some (signo, c) \<Rightarrow>
          (case deliver_one writable xs signo c of
             None \<Rightarrow> deliver_loop writable xs True c
           | Some out \<Rightarrow> out))"
  by pat_completeness auto
termination by (relation "measure (\<lambda>(_, _, _, c). pending_bits c)") (auto dest: dequeue_facts(1))

declare deliver_loop.simps [simp del]

definition deliver_pending :: "(u64 \<Rightarrow> u64 \<Rightarrow> bool) \<Rightarrow> u64 \<Rightarrow> ctx \<Rightarrow> outcome" where
  "deliver_pending writable xs c =
     (if p_pid (c_proc c) = 0 then Returned False c
      else if p_state (c_proc c) = Stopped then
        Asleep (c\<lparr>c_task := (c_task c)\<lparr>t_blocked := True, t_interruptible := False, t_on_stop_wq := True\<rparr>\<rparr>)
      else deliver_loop writable xs False c)"

text \<open>A task on the stop queue goes on once the process runs again or is exiting.\<close>

definition may_resume :: "process \<Rightarrow> bool" where
  "may_resume p \<longleftrightarrow> p_state p \<noteq> Stopped \<or> p_group_exit p"

lemma setup_frame_Inr:
  assumes "setup_frame writable xs signo action c = Inr c'"
  shows "c_proc c' = c_proc c" "t_pending (c_task c') = t_pending (c_task c)" "t_saved_mask (c_task c') = t_saved_mask (c_task c)"
    "t_mask (c_task c') AND KILL_MASK = 0" "f_rip (c_frame c') = sa_handler action" "pending_bits c' = pending_bits c"
proof -
  have "(w AND NOT KILL_MASK) AND KILL_MASK = 0" for w by (rule bit_word_eqI) (auto simp: bit_and_iff bit_not_iff)
  then have "c_proc c' = c_proc c \<and> t_pending (c_task c') = t_pending (c_task c) \<and> t_saved_mask (c_task c') = t_saved_mask (c_task c)
      \<and> t_mask (c_task c') AND KILL_MASK = 0 \<and> f_rip (c_frame c') = sa_handler action"
    using assms by (auto simp: setup_frame_def Let_def split: if_splits)
  then show "c_proc c' = c_proc c" "t_pending (c_task c') = t_pending (c_task c)" "t_saved_mask (c_task c') = t_saved_mask (c_task c)"
    "t_mask (c_task c') AND KILL_MASK = 0" "f_rip (c_frame c') = sa_handler action" "pending_bits c' = pending_bits c"
    by (auto simp: pending_bits_def)
qed

lemma restart_sel [simp]:
  "c_task (restart_syscall_check a c) = c_task c" "c_proc (restart_syscall_check a c) = c_proc c"
  "c_uc (restart_syscall_check a c) = c_uc c" "pending_bits (restart_syscall_check a c) = pending_bits c"
  by (simp_all add: restart_syscall_check_def pending_bits_def Let_def)





section \<open>Return from a handler, faults and the system calls\<close>

definition FLAG_MASK :: u64 where "FLAG_MASK = 0xcd5 OR push_bit 10 1"

definition sigreturn :: "(u64 \<Rightarrow> u64 \<Rightarrow> bool) \<Rightarrow> ctx \<Rightarrow> errno + ctx" where
  "sigreturn readable c =
     (let f = c_frame c; uc_addr = f_rsp f in
      if \<not> readable uc_addr UCONTEXT_SIZE then Inl EFAULT
      else
        (let uc = c_uc c uc_addr; mc = uc_mcontext uc in
         Inr (c\<lparr>c_frame := f\<lparr>f_r8 := mc_r8 mc, f_r9 := mc_r9 mc, f_r10 := mc_r10 mc, f_r11 := mc_r11 mc, f_r12 := mc_r12 mc,
                  f_r13 := mc_r13 mc, f_r14 := mc_r14 mc, f_r15 := mc_r15 mc, f_rdi := mc_rdi mc, f_rsi := mc_rsi mc,
                  f_rbp := mc_rbp mc, f_rbx := mc_rbx mc, f_rdx := mc_rdx mc, f_rax := mc_rax mc, f_rcx := mc_rcx mc,
                  f_rsp := mc_rsp mc, f_rip := mc_rip mc, f_rflags := (mc_eflags mc AND FLAG_MASK) OR 0x202,
                  f_cs := USER_CS, f_ss := USER_DS\<rparr>,
                c_task := (c_task c)\<lparr>t_mask := uc_sigmask uc AND NOT KILL_MASK\<rparr>\<rparr>)))"

definition fault_signal :: "int \<Rightarrow> u64 \<Rightarrow> nat \<Rightarrow> ctx \<Rightarrow> ctx" where
  "fault_signal signo addr vector c =
     (let code = (if vector = 14 then (if f_error (c_frame c) AND 1 \<noteq> 0 then 2 else 1) else 0x80);
          t = (c_task c)\<lparr>t_fault_addr := addr, t_fault_code := code\<rparr>;
          action = p_actions (c_proc c) signo;
          blocked = (t_mask t AND sig_bit signo \<noteq> 0);
          c = (if sa_handler action = SIG_IGN \<or> blocked
               then c\<lparr>c_proc := sighand_set signo SA_DEFAULT (c_proc c), c_task := t\<lparr>t_mask := t_mask t AND NOT (sig_bit signo)\<rparr>\<rparr>
               else c\<lparr>c_task := t\<rparr>)
      in c\<lparr>c_task := post_signal signo (c_task c)\<rparr>)"

text \<open>
  The system calls. What they read from user memory is an argument (absent for a null pointer) and
  what they write back is in the state they return; faults on those copies are left out.
\<close>

definition rt_sigpending :: "nat \<Rightarrow> task \<Rightarrow> process \<Rightarrow> u64 kresult" where
  "rt_sigpending sigsetsize t p = (if sigsetsize \<noteq> 8 then Inl EINVAL else Inr (t_pending t OR p_shared p))"


definition rt_sigprocmask :: "int \<Rightarrow> u64 option \<Rightarrow> nat \<Rightarrow> task \<Rightarrow> errno + task" where
  "rt_sigprocmask how newset sigsetsize t =
     (if sigsetsize \<noteq> 8 then Inl EINVAL
      else case newset of
        None \<Rightarrow> Inr t
      | Some s \<Rightarrow>
          (if how = 0 then Inr (t\<lparr>t_mask := (t_mask t OR s) AND NOT KILL_MASK\<rparr>)
           else if how = 1 then Inr (t\<lparr>t_mask := (t_mask t AND NOT s) AND NOT KILL_MASK\<rparr>)
           else if how = 2 then Inr (t\<lparr>t_mask := s AND NOT KILL_MASK\<rparr>)
           else Inl EINVAL))"

text \<open>\<open>rt_sigsuspend\<close> from its argument check to its wait; it returns EINTR once a signal is there.\<close>

definition rt_sigsuspend :: "u64 \<Rightarrow> task \<Rightarrow> task" where
  "rt_sigsuspend newmask t = t\<lparr>t_mask := newmask AND NOT KILL_MASK, t_saved_mask := t_mask t\<rparr>"

definition sigaltstack :: "(u64 \<times> u32 \<times> u64) option \<Rightarrow> task \<Rightarrow> errno + task" where
  "sigaltstack ss t =
     (case ss of
        None \<Rightarrow> Inr t
      | Some (sp, flags, len) \<Rightarrow>
          (if flags AND 2 \<noteq> 0 then Inr (t\<lparr>t_alt_sp := 0, t_alt_size := 0, t_alt_flags := 2\<rparr>)
           else if len < 2048 then Inl ENOMEM
           else Inr (t\<lparr>t_alt_sp := sp, t_alt_size := len, t_alt_flags := flags AND 0x80000000\<rparr>)))"

text \<open>The taking of a signal by \<open>rt_sigtimedwait\<close>.\<close>

definition take_waited :: "u64 \<Rightarrow> task \<Rightarrow> process \<Rightarrow> (int \<times> task \<times> process) option" where
  "take_waited want t p =
     (let avail = (t_pending t OR p_shared p) AND want in
      if avail = 0 then None
      else
        (let signo = int (trailing_zeros avail) + 1 in
         if t_pending t AND sig_bit signo \<noteq> 0 then Some (signo, t\<lparr>t_pending := t_pending t AND NOT (sig_bit signo)\<rparr>, p)
         else Some (signo, t, p\<lparr>p_shared := p_shared p AND NOT (sig_bit signo)\<rparr>)))"

section \<open>The way back to user mode\<close>









section \<open>Handlers come back\<close>

definition mask_ok :: "task \<Rightarrow> bool" where
  "mask_ok t \<longleftrightarrow> t_mask t AND KILL_MASK = 0"

lemma and_not_kill: "(w AND NOT KILL_MASK) AND KILL_MASK = 0"
  by (rule bit_word_eqI) (auto simp: bit_and_iff bit_not_iff)

lemma mask_ok_id: "w AND KILL_MASK = 0 \<Longrightarrow> w AND NOT KILL_MASK = w"
proof (rule bit_word_eqI)
  fix n assume w: "w AND KILL_MASK = 0" and "n < LENGTH(64)"
  have "\<not> bit (w AND KILL_MASK) n" using w by simp
  then show "bit (w AND NOT KILL_MASK) n = bit w n" using \<open>n < LENGTH(64)\<close> by (auto simp: bit_and_iff bit_not_iff)
qed

text \<open>
  C30. A handler that runs and returns through the restorer leaves the interrupted program as it was:
  every register, the stack pointer and the instruction pointer are those of the moment of delivery,
  the signal mask is the one of that moment, and of the flags the ones a program may set. The frame
  is written below the red zone or on the alternate stack, with the stack aligned as the ABI wants
  it at a function entry.
\<close>

theorem handler_round_trip:
  assumes "setup_frame writable xs signo action c = Inr c1" "mask_ok (c_task c)"
    and "f_rsp (c_frame c2) = f_rsp (c_frame c1) + 8" "c_uc c2 (f_rsp (c_frame c2)) = c_uc c1 (f_rsp (c_frame c2))"
    and "sigreturn readable c2 = Inr c3"
  shows "c_frame c3 = (c_frame c)\<lparr>f_rflags := (f_rflags (c_frame c) AND FLAG_MASK) OR 0x202, f_cs := USER_CS, f_ss := USER_DS,
        f_vector := f_vector (c_frame c2), f_error := f_error (c_frame c2)\<rparr>
    \<and> t_mask (c_task c3) = t_mask (c_task c)
    \<and> (f_rsp (c_frame c1) + 8) AND 15 = 0 \<and> f_rip (c_frame c1) = sa_handler action \<and> f_rdi (c_frame c1) = of_int signo"
proof -
  define fpstate where "fpstate = (frame_base (c_task c) (c_frame c) action - xs) AND NOT 63"
  define fa where "fa = ((fpstate - SIGFRAME_SIZE) AND NOT 15) - 8"
  have c1: "f_rsp (c_frame c1) = fa" "c_uc c1 (fa + 8) = save_context (c_task c) (c_frame c) fpstate"
    "f_rip (c_frame c1) = sa_handler action" "f_rdi (c_frame c1) = of_int signo"
    using assms(1) by (auto simp: setup_frame_def Let_def fpstate_def fa_def split: if_splits)
  have "(x AND NOT 15) AND 15 = 0" for x :: u64 by (simp add: and.assoc)
  then have align: "(fa + 8) AND 15 = 0" by (simp add: fa_def)
  have uc: "c_uc c2 (f_rsp (c_frame c2)) = save_context (c_task c) (c_frame c) fpstate" using assms(3,4) c1 by simp
  have "c_frame c3 = (c_frame c)\<lparr>f_rflags := (f_rflags (c_frame c) AND FLAG_MASK) OR 0x202, f_cs := USER_CS, f_ss := USER_DS,
        f_vector := f_vector (c_frame c2), f_error := f_error (c_frame c2)\<rparr>" "t_mask (c_task c3) = t_mask (c_task c)"
    using assms(5) uc mask_ok_id assms(2)
    by (auto simp: sigreturn_def Let_def save_context_def mask_ok_def split: if_splits)
  then show ?thesis using c1 align by simp
qed

section \<open>SIGKILL and SIGSTOP\<close>













lemma interrupt_sel [simp]:
  "t_pending (interrupt_if_sleeping t) = t_pending t" "t_mask (interrupt_if_sleeping t) = t_mask t"
  "t_pending (wake_stopped t) = t_pending t" "t_mask (wake_stopped t) = t_mask t"
  by (simp_all add: interrupt_if_sleeping_def wake_stopped_def)

lemma post_signal_sel [simp]: "t_pending (post_signal s t) = t_pending t OR sig_bit s" "t_mask (post_signal s t) = t_mask t"
  by (simp_all add: post_signal_def)
















definition demo_task :: task where
  "demo_task = \<lparr>t_pending = 0, t_mask = 0, t_alt_sp = 0, t_alt_size = 0, t_alt_flags = 2, t_saved_mask = - 1, t_syscall_nr = 0,
     t_fault_addr = 0, t_fault_code = 0, t_blocked = False, t_interruptible = False, t_on_stop_wq = False\<rparr>"

definition demo_proc :: process where
  "demo_proc = \<lparr>p_pid = 7, p_uid = 0, p_pgid = 7, p_state = Running, p_shared = 0, p_actions = (\<lambda>_. SA_DEFAULT), p_exit_code = 0,
     p_stop_signal = 0, p_stopped_reported = True, p_continued_reported = True, p_group_exit = False\<rparr>"

definition demo_frame :: trap_frame where
  "demo_frame = \<lparr>f_r8 = 8, f_r9 = 9, f_r10 = 10, f_r11 = 11, f_r12 = 12, f_r13 = 13, f_r14 = 14, f_r15 = 15, f_rdi = 1, f_rsi = 2,
     f_rbp = 3, f_rbx = 4, f_rdx = 5, f_rax = 6, f_rcx = 7, f_rsp = 0x7ffff000, f_rip = 0x400000, f_rflags = 0x202, f_cs = 0x23, f_ss = 0x1b,
     f_vector = 14, f_error = 4\<rparr>"

definition demo_ctx :: ctx where
  "demo_ctx = \<lparr>c_frame = demo_frame, c_task = demo_task, c_proc = demo_proc, c_parent = None,
     c_uc = (\<lambda>_. save_context demo_task demo_frame 0), c_info = (\<lambda>_. \<lparr>si_signo = 0, si_code = 0, si_field0 = 0\<rparr>)\<rparr>"

definition demo_action :: sig_action where
  "demo_action = \<lparr>sa_handler = 0x401000, sa_flags = 0, sa_restorer = 0, sa_mask = 0xff\<rparr>"

definition demo_in_handler :: ctx where
  "demo_in_handler = (case setup_frame (\<lambda>_ _. True) 832 10 demo_action demo_ctx of Inr c \<Rightarrow> c | Inl _ \<Rightarrow> demo_ctx)"

definition demo_after :: ctx where
  "demo_after = demo_in_handler\<lparr>c_frame := (c_frame demo_in_handler)\<lparr>f_rsp := f_rsp (c_frame demo_in_handler) + 8, f_rbx := 99\<rparr>\<rparr>"

theorem handler_round_trip_witness:
  "\<exists>c3. sigreturn (\<lambda>_ _. True) demo_after = Inr c3 \<and> f_rbx (c_frame c3) = 4 \<and> f_rip (c_frame c3) = 0x400000 \<and> t_mask (c_task c3) = 0"
proof -
  have s: "setup_frame (\<lambda>_ _. True) 832 10 demo_action demo_ctx = Inr demo_in_handler"
    by (simp add: demo_in_handler_def setup_frame_def Let_def)
  obtain c3 where r: "sigreturn (\<lambda>_ _. True) demo_after = Inr c3" by (simp add: sigreturn_def Let_def)
  have "mask_ok (c_task demo_ctx)" by (simp add: mask_ok_def demo_ctx_def demo_task_def)
  from handler_round_trip [OF s this _ _ r] r show ?thesis
    by (simp add: demo_after_def demo_ctx_def demo_frame_def demo_task_def)
qed



text \<open>
  Whatever context a program hands to \<open>sigreturn\<close>, forged ones included, it comes back in user
  mode: user code and stack segments, interrupts enabled, I/O privilege level 0, and a mask that
  blocks neither SIGKILL nor SIGSTOP.
\<close>

theorem sigreturn_confines:
  assumes "sigreturn readable c = Inr c'"
  shows "f_cs (c_frame c') = USER_CS \<and> f_ss (c_frame c') = USER_DS \<and> bit (f_rflags (c_frame c')) 9
    \<and> \<not> bit (f_rflags (c_frame c')) 12 \<and> \<not> bit (f_rflags (c_frame c')) 13 \<and> mask_ok (c_task c')"
proof -
  have b: "\<not> bit (0x202 :: u64) 12" "\<not> bit (0x202 :: u64) 13" "bit (0x202 :: u64) 9" "\<not> bit FLAG_MASK 12" "\<not> bit FLAG_MASK 13"
    by code_simp+
  have "f_rflags (c_frame c') = (mc_eflags (uc_mcontext (c_uc c (f_rsp (c_frame c)))) AND FLAG_MASK) OR 0x202"
    "f_cs (c_frame c') = USER_CS" "f_ss (c_frame c') = USER_DS" "mask_ok (c_task c')"
    using assms and_not_kill by (auto simp: sigreturn_def Let_def mask_ok_def split: if_splits)
  then show ?thesis using b by (simp only: bit_or_iff bit_and_iff) blast
qed

theorem sigreturn_confines_witness:
  "\<exists>c'. sigreturn (\<lambda>_ _. True) (demo_ctx\<lparr>c_uc := (\<lambda>_. save_context (demo_task\<lparr>t_mask := - 1\<rparr>) (demo_frame\<lparr>f_rflags := - 1, f_cs := 8\<rparr>) 0)\<rparr>) = Inr c'
     \<and> f_cs (c_frame c') = USER_CS \<and> \<not> bit (f_rflags (c_frame c')) 12"
proof -
  obtain c' where "sigreturn (\<lambda>_ _. True) (demo_ctx\<lparr>c_uc := (\<lambda>_. save_context (demo_task\<lparr>t_mask := - 1\<rparr>) (demo_frame\<lparr>f_rflags := - 1, f_cs := 8\<rparr>) 0)\<rparr>) = Inr c'"
    by (simp add: sigreturn_def Let_def)
  then show ?thesis using sigreturn_confines by blast
qed

section \<open>Faults\<close>

lemma sync_bits:
  assumes "signo \<in> {11, 7, 4, 8, 5}"
  shows "bit sync_mask (nat (signo - 1))" "default_action signo = Core" "signo \<noteq> SIGKILL" "signo \<noteq> SIGSTOP"
  using assms by (auto simp: sync_mask_def bit_or_iff bit_sig_bit default_action_def SIGKILL_def SIGSTOP_def)

lemma trailing_zeros_single: "1 \<le> s \<Longrightarrow> s \<le> 64 \<Longrightarrow> trailing_zeros (sig_bit s) = nat (s - 1)"
proof -
  assume s: "1 \<le> s" "s \<le> 64"
  have "sig_bit s \<noteq> 0" using and_sig_bit [OF s, of "sig_bit s"] s by (auto simp: bit_sig_bit)
  then show ?thesis using trailing_zeros_bit [of "sig_bit s"] bit_sig_bit [OF s(1)] by simp
qed

lemma pick_fault:
  assumes s: "signo \<in> {11, 7, 4, 8, 5}" and "bit w (nat (signo - 1))" and "w AND (sync_mask OR sig_bit SIGKILL) = sig_bit signo"
  shows "pick_signal w = signo"
proof -
  have r: "1 \<le> signo" "signo \<le> 64" "signo \<noteq> 9" using s by auto
  have split: "bit w n \<and> (bit sync_mask n \<or> n = 8) \<longleftrightarrow> n = nat (signo - 1)" for n
  proof -
    have "bit (w AND (sync_mask OR sig_bit SIGKILL)) n \<longleftrightarrow> bit (sig_bit signo) n" by (simp only: assms(3))
    then show ?thesis using r by (auto simp: bit_and_iff bit_or_iff bit_sig_bit SIGKILL_def dest: bit_imp_le_length)
  qed
  have "\<not> bit w 8" using split [of 8] r by auto
  then have nk: "w AND sig_bit SIGKILL = 0" using and_sig_bit [of SIGKILL w] by (simp add: SIGKILL_def)
  have ws: "w AND sync_mask = sig_bit signo"
  proof (rule bit_word_eqI)
    fix n assume "n < LENGTH(64)"
    have "bit sync_mask n \<Longrightarrow> n \<noteq> 8" by (auto simp: sync_mask_def bit_or_iff bit_sig_bit)
    then show "bit (w AND sync_mask) n = bit (sig_bit signo) n"
      using split [of n] r \<open>n < LENGTH(64)\<close> sync_bits(1) [OF s] by (auto simp: bit_and_iff bit_sig_bit)
  qed
  have "sig_bit signo \<noteq> 0" using and_sig_bit [OF r(1,2), of "sig_bit signo"] r by (auto simp: bit_sig_bit)
  then show ?thesis using nk ws r trailing_zeros_single [OF r(1,2)] by (simp add: pick_signal_def Let_def)
qed

text \<open>
  A program cannot shrug off a fault: when the processor reports one, the next return to user
  mode either enters the handler the program installed for it or kills the process, also when the
  signal was blocked or ignored. (Hypotheses: a user process that runs, with no other fault or
  SIGKILL queued on the thread.)
\<close>

theorem fault_handled_or_fatal:
  assumes s: "signo \<in> {11, 7, 4, 8, 5}" and "p_pid (c_proc c) \<noteq> 0" "p_state (c_proc c) \<noteq> Stopped"
    and none: "t_pending (c_task c) AND (sync_mask OR sig_bit SIGKILL) = 0"
  defines "action \<equiv> p_actions (c_proc c) signo"
  shows "case deliver_pending writable xs (fault_signal signo addr vector c) of
      Killed n c' \<Rightarrow> n = signo \<or> n = SIGSEGV
    | Returned did c' \<Rightarrow> did \<and> f_rip (c_frame c') = sa_handler action \<and> sa_handler action \<noteq> SIG_IGN
        \<and> sa_handler action \<noteq> SIG_DFL \<and> t_mask (c_task c) AND sig_bit signo = 0
    | Asleep c' \<Rightarrow> False"
proof -
  define f where "f = fault_signal signo addr vector c"
  have r: "1 \<le> signo" "signo \<le> 64" "nat (signo - 1) < 64" using s by auto
  define forced where "forced \<longleftrightarrow> sa_handler action = SIG_IGN \<or> t_mask (c_task c) AND sig_bit signo \<noteq> 0"
  have pid: "p_pid (c_proc f) \<noteq> 0" "p_state (c_proc f) \<noteq> Stopped"
    using assms(2,3) by (simp_all add: f_def fault_signal_def Let_def sighand_set_def)
  have pend: "t_pending (c_task f) = t_pending (c_task c) OR sig_bit signo"
    by (simp add: f_def fault_signal_def Let_def post_signal_def interrupt_if_sleeping_def)
  have mask: "t_mask (c_task f) = (if forced then t_mask (c_task c) AND NOT (sig_bit signo) else t_mask (c_task c))"
    by (simp add: f_def fault_signal_def Let_def post_signal_def interrupt_if_sleeping_def forced_def action_def)
  have act: "p_actions (c_proc f) signo = (if forced then SA_DEFAULT else action)"
    by (simp add: f_def fault_signal_def Let_def forced_def action_def sighand_set_def)
  have open_: "\<not> bit (t_mask (c_task f)) (nat (signo - 1))"
    using and_sig_bit [OF r(1,2), of "t_mask (c_task c)"] r unfolding mask
    by (auto simp: forced_def bit_and_iff bit_not_iff bit_sig_bit)
  let ?own = "t_pending (c_task f) AND NOT (t_mask (c_task f))"
  have b: "bit ?own (nat (signo - 1))" using open_ r by (auto simp: pend bit_and_iff bit_or_iff bit_not_iff bit_sig_bit)
  have "?own AND (sync_mask OR sig_bit SIGKILL) = sig_bit signo"
  proof (rule bit_word_eqI)
    fix n assume n: "n < LENGTH(64)"
    have "\<not> (bit (t_pending (c_task c)) n \<and> bit (sync_mask OR sig_bit SIGKILL) n)"
      using arg_cong [OF none, of "\<lambda>w. bit w n"] by (simp add: bit_and_iff)
    then show "bit (?own AND (sync_mask OR sig_bit SIGKILL)) n = bit (sig_bit signo) n"
      using b sync_bits(1) [OF s] r n by (auto simp: pend bit_and_iff bit_or_iff bit_sig_bit)
  qed
  then have pick: "pick_signal ?own = signo" by (rule pick_fault [OF s b])
  have "?own \<noteq> 0" using b by auto
  then obtain d where d: "dequeue f = Some (signo, d)" "c_proc d = c_proc f" using pick by (auto simp: dequeue_def Let_def)
  have one: "deliver_one writable xs signo d \<noteq> None"
    using act sync_bits(2-4) [OF s] d(2) by (auto simp: deliver_one_def Let_def forced_def SA_DEFAULT_def SIG_DFL_def SIG_IGN_def)
  then have dl: "deliver_pending writable xs f = the (deliver_one writable xs signo d)"
    using pid d(1) by (auto simp: deliver_pending_def deliver_loop.simps [of _ _ _ f])
  show ?thesis
  proof (cases "forced \<or> sa_handler action = SIG_DFL")
    case True
    then have "\<exists>c'. deliver_one writable xs signo d = Some (Killed signo c')"
      using act sync_bits(2-4) [OF s] d(2) by (auto simp: deliver_one_def Let_def forced_def SA_DEFAULT_def SIG_DFL_def SIG_IGN_def)
    then show ?thesis using dl by (auto simp: f_def)
  next
    case False
    let ?c = "restart_syscall_check (Some action) d"
    let ?reset = "\<lambda>e. if sa_flags action AND SA_RESETHAND \<noteq> 0 then e\<lparr>c_proc := sighand_set signo SA_DEFAULT (c_proc e)\<rparr> else e"
    have eq: "deliver_pending writable xs f = (case setup_frame writable xs signo action ?c of
        Inl _ \<Rightarrow> Killed SIGSEGV (exit_group_signal SIGSEGV ?c) | Inr e \<Rightarrow> finish True (?reset e))"
      using False act sync_bits(3,4) [OF s] d(2) dl by (simp add: deliver_one_def Let_def forced_def)
    show ?thesis
    proof (cases "setup_frame writable xs signo action ?c")
      case (Inl e)
      then show ?thesis using eq by (simp add: f_def)
    next
      case (Inr e)
      then have "\<exists>c'. deliver_pending writable xs f = Returned True c' \<and> f_rip (c_frame c') = sa_handler action"
        using eq setup_frame_Inr(5) [OF Inr] by (simp add: finish_def Let_def)
      then show ?thesis using False by (auto simp: f_def forced_def)
    qed
  qed
qed

theorem fault_handled_or_fatal_witness:
  "\<exists>n c'. deliver_pending (\<lambda>_ _. True) 832 (fault_signal 11 0xdead 14 demo_ctx) = Killed n c'"
proof -
  have "p_pid (c_proc demo_ctx) \<noteq> 0" "p_state (c_proc demo_ctx) \<noteq> Stopped" "t_pending (c_task demo_ctx) AND (sync_mask OR sig_bit SIGKILL) = 0"
    by (simp_all add: demo_ctx_def demo_proc_def demo_task_def)
  from fault_handled_or_fatal [OF _ this, where signo = 11 and writable = "\<lambda>_ _. True" and xs = 832 and addr = "0xdead" and vector = 14] show ?thesis
    by (auto simp: demo_ctx_def demo_proc_def SA_DEFAULT_def SIG_DFL_def split: outcome.splits)
qed

section \<open>Gaps\<close>

text \<open>
  A stopped process cannot be killed: SIGKILL is queued, but the tasks on the stop queue wait for
  SIGCONT without being interruptible, so nothing delivers it.
\<close>

theorem sigkill_leaves_stopped:
  assumes "p_state p = Stopped" "\<not> p_group_exit p" "\<forall>t \<in> set ts. t_blocked t \<and> \<not> t_interruptible t"
  shows "\<not> may_resume (fst (send SIGKILL (p, ts))) \<and> snd (send SIGKILL (p, ts)) = ts"
proof -
  have "map interrupt_if_sleeping ts = ts" using assms(3) by (intro map_idI) (simp add: interrupt_if_sleeping_def)
  then show ?thesis
    using assms(1,2) by (auto simp: send_def Let_def job_control_def may_resume_def SIGKILL_def SIGCONT_def case_prod_beta split: option.split)
qed

text \<open>
  The mask \<open>rt_sigsuspend\<close> saved is put back too early: it is in force while the handler runs, in
  place of the handler's own mask, and when the handler returns the temporary mask of the call comes
  back instead of the one before it.
\<close>

theorem sigsuspend_mask_not_restored:
  assumes "setup_frame writable xs signo action c = Inr e" "c_task c = rt_sigsuspend newmask t" "t_mask t \<noteq> - 1"
    "finish True e = Returned True c1"
  shows "t_mask (c_task c1) = t_mask t AND NOT KILL_MASK
    \<and> uc_sigmask (c_uc c1 (f_rsp (c_frame c1) + 8)) = newmask AND NOT KILL_MASK"
  using assms by (auto simp: setup_frame_def finish_def Let_def rt_sigsuspend_def save_context_def split: if_splits)

end
