(* ===== verification/Fdtable.thy ===== *)
theory Fdtable
  imports Mindos_Prelude
begin

text \<open>
  The file descriptor table, src/research/kernel-rs/kernel/src/fs/file.rs. The table is the vector
  of the source; a file is any value. A descriptor number is an integer, since system calls pass
  negative ones. Indexing outside the vector would panic: that result is \<open>None\<close>.
\<close>

section \<open>The table\<close>

definition MAX_FDS :: nat where "MAX_FDS = 4096"

record 'f fd_entry =
  fe_file :: 'f
  fe_cloexec :: bool

definition entry :: "'f \<Rightarrow> bool \<Rightarrow> 'f fd_entry" where
  "entry file cloexec = \<lparr>fe_file = file, fe_cloexec = cloexec\<rparr>"

type_synonym 'f fd_table = "'f fd_entry option list"

definition fd_new :: "'f fd_table" where "fd_new = []"

definition slot :: "'f fd_table \<Rightarrow> nat \<Rightarrow> 'f fd_entry option" where
  "slot fds i = (if i < length fds then fds ! i else None)"

definition get_entry :: "int \<Rightarrow> 'f fd_table \<Rightarrow> 'f fd_entry kresult" where
  "get_entry fd fds =
     (if fd < 0 then Inl EBADF
      else case slot fds (nat fd) of Some e \<Rightarrow> Inr e | None \<Rightarrow> Inl EBADF)"

definition fd_get :: "int \<Rightarrow> 'f fd_table \<Rightarrow> 'f kresult" where
  "fd_get fd fds =
     (if fd < 0 then Inl EBADF
      else case slot fds (nat fd) of Some e \<Rightarrow> Inr (fe_file e) | None \<Rightarrow> Inl EBADF)"

text \<open>The search of \<open>alloc\<close>: the first free place from \<open>i\<close> on, or the end.\<close>

function find_free :: "'f fd_table \<Rightarrow> nat \<Rightarrow> nat" where
  "find_free fds i = (if i < length fds then (if fds ! i = None then i else find_free fds (i + 1)) else i)"
  by pat_completeness auto
termination by (relation "measure (\<lambda>(fds, i). length fds - i)") auto

declare find_free.simps [simp del]

definition fd_alloc :: "'f \<Rightarrow> bool \<Rightarrow> nat \<Rightarrow> 'f fd_table \<Rightarrow> int kresult \<times> 'f fd_table" where
  "fd_alloc file cloexec mn fds =
     (let i = find_free fds mn in
      if i < length fds then (Inr (int i), fds[i := Some (entry file cloexec)])
      else if MAX_FDS \<le> i then (Inl EMFILE, fds)
      else (Inr (int i), fds @ replicate (i - length fds) None @ [Some (entry file cloexec)]))"

definition grow :: "nat \<Rightarrow> 'f fd_table \<Rightarrow> 'f fd_table" where
  "grow i fds = fds @ replicate (Suc i - length fds) None"

definition fd_set :: "int \<Rightarrow> 'f \<Rightarrow> bool \<Rightarrow> 'f fd_table \<Rightarrow> 'f option kresult \<times> 'f fd_table" where
  "fd_set fd file cloexec fds =
     (if fd < 0 \<or> MAX_FDS \<le> nat fd then (Inl EBADF, fds)
      else
        (let fds = grow (nat fd) fds
         in (Inr (map_option fe_file (fds ! nat fd)), fds[nat fd := Some (entry file cloexec)])))"

definition fd_close :: "int \<Rightarrow> 'f fd_table \<Rightarrow> 'f kresult \<times> 'f fd_table" where
  "fd_close fd fds =
     (if fd < 0 then (Inl EBADF, fds)
      else case slot fds (nat fd) of
        None \<Rightarrow> (Inl EBADF, fds)
      | Some e \<Rightarrow> (Inr (fe_file e), fds[nat fd := None]))"

text \<open>\<open>fd as usize\<close> of a negative descriptor is beyond every table.\<close>

definition set_cloexec :: "int \<Rightarrow> bool \<Rightarrow> 'f fd_table \<Rightarrow> unit kresult \<times> 'f fd_table" where
  "set_cloexec fd on fds =
     (case (if fd < 0 then None else slot fds (nat fd)) of
        None \<Rightarrow> (Inl EBADF, fds)
      | Some e \<Rightarrow> (Inr (), fds[nat fd := Some (e\<lparr>fe_cloexec := on\<rparr>)]))"

definition drops :: "'f fd_entry option \<Rightarrow> bool" where
  "drops e = (case e of Some x \<Rightarrow> fe_cloexec x | None \<Rightarrow> False)"

definition close_on_exec :: "'f fd_table \<Rightarrow> 'f list \<times> 'f fd_table" where
  "close_on_exec fds =
     (map (fe_file \<circ> the) (filter drops fds), map (\<lambda>e. if drops e then None else e) fds)"

definition fd_duplicate :: "'f fd_table \<Rightarrow> 'f fd_table" where "fd_duplicate fds = fds"

definition fd_clear :: "'f fd_table \<Rightarrow> 'f list \<times> 'f fd_table" where
  "fd_clear fds = (map (fe_file \<circ> the) (filter (\<lambda>e. e \<noteq> None) fds), [])"

definition fd_iter :: "'f fd_table \<Rightarrow> (int \<times> 'f fd_entry) list" where
  "fd_iter fds = map (\<lambda>i. (int i, the (fds ! i))) (filter (\<lambda>i. fds ! i \<noteq> None) [0..<length fds])"

fun close_each :: "nat list \<Rightarrow> 'f fd_table \<Rightarrow> ('f list \<times> 'f fd_table) option" where
  "close_each [] fds = Some ([], fds)"
| "close_each (i # is) fds =
     (if i < length fds then
        (case close_each is (fds[i := None]) of
           None \<Rightarrow> None
         | Some (out, fds') \<Rightarrow> Some ((case fds ! i of Some e \<Rightarrow> [fe_file e] | None \<Rightarrow> []) @ out, fds'))
      else None)"

definition close_range :: "nat \<Rightarrow> nat \<Rightarrow> 'f fd_table \<Rightarrow> ('f list \<times> 'f fd_table) option" where
  "close_range lo hi fds = close_each [lo..<Suc (min hi (length fds - 1))] fds"

section \<open>The table as a partial map\<close>

definition fd_inv :: "'f fd_table \<Rightarrow> bool" where
  "fd_inv fds \<longleftrightarrow> length fds \<le> MAX_FDS"

lemma find_free_spec:
  "i \<le> find_free fds i \<and> slot fds (find_free fds i) = None \<and> (\<forall>j. i \<le> j \<and> j < find_free fds i \<longrightarrow> slot fds j \<noteq> None)
   \<and> (length fds \<le> find_free fds i \<longrightarrow> find_free fds i = max i (length fds))"
proof (induction fds i rule: find_free.induct)
  case (1 fds i)
  show ?case
  proof (cases "i < length fds \<and> fds ! i \<noteq> None")
    case True
    then have eq: "find_free fds i = find_free fds (i + 1)" by (subst find_free.simps) auto
    have ih: "i + 1 \<le> find_free fds (i + 1) \<and> slot fds (find_free fds (i + 1)) = None
        \<and> (\<forall>j. i + 1 \<le> j \<and> j < find_free fds (i + 1) \<longrightarrow> slot fds j \<noteq> None)
        \<and> (length fds \<le> find_free fds (i + 1) \<longrightarrow> find_free fds (i + 1) = max (i + 1) (length fds))"
      using 1 True by blast
    have "slot fds j \<noteq> None" if "i \<le> j" "j < find_free fds (i + 1)" for j
      using ih that True by (cases "j = i") (auto simp: slot_def)
    then show ?thesis unfolding eq using ih True by auto
  next
    case False
    then have "find_free fds i = i" by (subst find_free.simps) auto
    then show ?thesis using False by (auto simp: slot_def)
  qed
qed

lemma slot_update: "i < length fds \<Longrightarrow> slot (fds[i := e]) j = (if j = i then e else slot fds j)"
  by (simp add: slot_def nth_list_update)

lemma slot_grow: "slot (grow i fds) j = slot fds j" "i < length (grow i fds)"
  by (auto simp: grow_def slot_def nth_append)

lemma slot_append:
  "length fds \<le> i \<Longrightarrow> slot (fds @ replicate (i - length fds) None @ [e]) j = (if j = i then e else slot fds j)"
  by (auto simp: slot_def nth_append)

text \<open>
  The contract the system calls rely on, over an abstract table: what a lookup gives after an
  installation and a removal. The laws of \<open>dup2\<close> follow from it once and for all.
\<close>

locale descriptor_table =
  fixes lookup :: "'t \<Rightarrow> nat \<Rightarrow> 'e option"
    and install :: "nat \<Rightarrow> 'e \<Rightarrow> 't \<Rightarrow> 't"
    and remove :: "nat \<Rightarrow> 't \<Rightarrow> 't"
    and valid :: "nat \<Rightarrow> bool"
    and ok :: "'t \<Rightarrow> bool"
  assumes lookup_install: "ok t \<Longrightarrow> valid i \<Longrightarrow> lookup (install i e t) j = (if j = i then Some e else lookup t j)"
    and lookup_remove: "ok t \<Longrightarrow> lookup (remove i t) j = (if j = i then None else lookup t j)"
    and install_ok: "ok t \<Longrightarrow> valid i \<Longrightarrow> ok (install i e t)"
    and remove_ok: "ok t \<Longrightarrow> ok (remove i t)"
begin

lemma install_remove: "ok t \<Longrightarrow> valid i \<Longrightarrow> lookup t i = None \<Longrightarrow> lookup (remove i (install i e t)) = lookup t"
  by (auto simp: lookup_install lookup_remove install_ok)

lemma dup2_then_close_old:
  "ok t \<Longrightarrow> valid j \<Longrightarrow> lookup t i = Some e \<Longrightarrow> i \<noteq> j \<Longrightarrow>
     lookup (remove i (install j e t)) = (lookup t)(j \<mapsto> e, i := None)"
  by (auto simp: lookup_install lookup_remove install_ok)

end

definition install_entry :: "nat \<Rightarrow> 'f fd_entry \<Rightarrow> 'f fd_table \<Rightarrow> 'f fd_table" where
  "install_entry i e fds = snd (fd_set (int i) (fe_file e) (fe_cloexec e) fds)"

definition remove_entry :: "nat \<Rightarrow> 'f fd_table \<Rightarrow> 'f fd_table" where
  "remove_entry i fds = snd (fd_close (int i) fds)"

lemma fd_set_slot:
  assumes "0 \<le> fd" "nat fd < MAX_FDS"
  shows "slot (snd (fd_set fd fl cloexec fds)) j = (if j = nat fd then Some (entry fl cloexec) else slot fds j)"
    and "fst (fd_set fd fl cloexec fds) = Inr (map_option fe_file (slot fds (nat fd)))"
    and "fd_inv fds \<Longrightarrow> fd_inv (snd (fd_set fd fl cloexec fds))"
proof -
  have g: "nat fd < length (grow (nat fd) fds)" by (rule slot_grow(2))
  show "slot (snd (fd_set fd fl cloexec fds)) j = (if j = nat fd then Some (entry fl cloexec) else slot fds j)"
    using assms slot_update [OF g] slot_grow(1) [of "nat fd" fds j] by (simp add: fd_set_def Let_def)
  have "grow (nat fd) fds ! nat fd = slot fds (nat fd)" using slot_grow(1) [of "nat fd" fds "nat fd"] g by (simp add: slot_def)
  then show "fst (fd_set fd fl cloexec fds) = Inr (map_option fe_file (slot fds (nat fd)))"
    using assms by (simp add: fd_set_def Let_def)
  show "fd_inv (snd (fd_set fd fl cloexec fds))" if "fd_inv fds"
    using that assms by (auto simp: fd_set_def Let_def fd_inv_def grow_def)
qed

lemma fd_close_slot:
  "0 \<le> fd \<Longrightarrow> slot (snd (fd_close fd fds)) j = (if j = nat fd then None else slot fds j)"
  "fd_inv fds \<Longrightarrow> fd_inv (snd (fd_close fd fds))"
  by (auto simp: fd_close_def slot_def fd_inv_def nth_list_update split: option.split)

interpretation fdt: descriptor_table slot install_entry remove_entry "\<lambda>i. i < MAX_FDS" fd_inv
proof unfold_locales
  fix t :: "'f fd_table" and i j e
  show "slot (install_entry i e t) j = (if j = i then Some e else slot t j)" if "i < MAX_FDS"
    using that by (simp add: install_entry_def fd_set_slot(1) entry_def)
  show "slot (remove_entry i t) j = (if j = i then None else slot t j)" by (simp add: remove_entry_def fd_close_slot)
  show "fd_inv (install_entry i e t)" if "fd_inv t" "i < MAX_FDS" using that by (simp add: install_entry_def fd_set_slot(3))
  show "fd_inv (remove_entry i t)" if "fd_inv t" using that by (simp add: remove_entry_def fd_close_slot(2))
qed

section \<open>System calls on descriptors\<close>

definition sys_dup :: "int \<Rightarrow> 'f fd_table \<Rightarrow> int kresult \<times> 'f fd_table" where
  "sys_dup fd fds = (case fd_get fd fds of Inl e \<Rightarrow> (Inl e, fds) | Inr f \<Rightarrow> fd_alloc f False 0 fds)"

definition sys_dup3 :: "int \<Rightarrow> int \<Rightarrow> bool \<Rightarrow> bool \<Rightarrow> 'f fd_table \<Rightarrow> int kresult \<times> 'f fd_table" where
  "sys_dup3 oldfd newfd cloexec is_dup2 fds =
     (case fd_get oldfd fds of
        Inl e \<Rightarrow> (Inl e, fds)
      | Inr f \<Rightarrow>
          (if oldfd = newfd then (if is_dup2 then (Inr newfd, fds) else (Inl EINVAL, fds))
           else case fd_set newfd f cloexec fds of
             (Inl e, fds') \<Rightarrow> (Inl e, fds')
           | (Inr _, fds') \<Rightarrow> (Inr newfd, fds')))"

text \<open>\<open>close_range\<close> with its flags; \<open>None\<close> is the panic of the table.\<close>

definition sys_close_range :: "nat \<Rightarrow> nat \<Rightarrow> u32 \<Rightarrow> 'f fd_table \<Rightarrow> (unit kresult \<times> 'f fd_table) option" where
  "sys_close_range lo hi flags fds =
     (if flags AND NOT 6 \<noteq> 0 then Some (Inl EINVAL, fds)
      else case close_range lo hi fds of None \<Rightarrow> None | Some (_, fds') \<Rightarrow> Some (Inr (), fds'))"

section \<open>What the operations do to the map\<close>

lemma fd_alloc_facts:
  assumes "fd_alloc file cloexec mn fds = (r, fds')" "fd_inv fds"
  shows "case r of
      Inl e \<Rightarrow> e = EMFILE \<and> fds' = fds \<and> (\<forall>j. mn \<le> j \<and> j < MAX_FDS \<longrightarrow> slot fds j \<noteq> None)
    | Inr fd \<Rightarrow> 0 \<le> fd \<and> mn \<le> nat fd \<and> nat fd < MAX_FDS \<and> slot fds (nat fd) = None
        \<and> (\<forall>j. mn \<le> j \<and> j < nat fd \<longrightarrow> slot fds j \<noteq> None)
        \<and> (\<forall>j. slot fds' j = (if j = nat fd then Some (entry file cloexec) else slot fds j)) \<and> fd_inv fds'"
proof -
  let ?i = "find_free fds mn"
  note ff = find_free_spec [of mn fds]
  consider (free) "?i < length fds" "r = Inr (int ?i)" "fds' = fds[?i := Some (entry file cloexec)]"
    | (full) "length fds \<le> ?i" "MAX_FDS \<le> ?i" "r = Inl EMFILE" "fds' = fds"
    | (grow) "length fds \<le> ?i" "?i < MAX_FDS" "r = Inr (int ?i)"
        "fds' = fds @ replicate (?i - length fds) None @ [Some (entry file cloexec)]"
    using assms(1) by (auto simp: fd_alloc_def Let_def split: if_splits)
  then show ?thesis
  proof cases
    case free
    then show ?thesis using ff assms(2) slot_update [OF free(1), of "Some (entry file cloexec)"] by (auto simp: fd_inv_def)
  next
    case full
    then show ?thesis using ff by auto
  next
    case grow
    then show ?thesis using ff slot_append [OF grow(1), of "Some (entry file cloexec)"] by (auto simp: fd_inv_def)
  qed
qed

text \<open>
  \<open>alloc\<close>, and with it \<open>open\<close>, \<open>dup\<close> and \<open>fcntl\<close>, hands out the lowest free descriptor from the
  minimum on, leaves every other descriptor alone and fails only when all of them up to the limit
  are taken, changing nothing. The table never grows beyond the limit.
\<close>

theorem fd_alloc_lowest:
  assumes "fd_alloc file cloexec mn fds = (r, fds')" "fd_inv fds"
  shows "case r of
      Inl e \<Rightarrow> e = EMFILE \<and> fds' = fds \<and> (\<forall>j. mn \<le> j \<and> j < MAX_FDS \<longrightarrow> slot fds j \<noteq> None)
    | Inr fd \<Rightarrow> fd_get fd fds' = Inr file \<and> mn \<le> nat fd \<and> nat fd < MAX_FDS \<and> slot fds (nat fd) = None
        \<and> (\<forall>j. mn \<le> j \<and> j < nat fd \<longrightarrow> slot fds j \<noteq> None)
        \<and> (\<forall>j. j \<noteq> nat fd \<longrightarrow> slot fds' j = slot fds j) \<and> fd_inv fds'"
  using fd_alloc_facts [OF assms] by (cases r) (auto simp: fd_get_def entry_def)

theorem fd_alloc_lowest_witness:
  "fd_alloc ''c'' False 0 [Some (entry ''a'' False), None, Some (entry ''b'' True)]
     = (Inr 1, [Some (entry ''a'' False), Some (entry ''c'' False), Some (entry ''b'' True)])
   \<and> fd_get 1 (snd (fd_alloc ''c'' False 0 [Some (entry ''a'' False), None, Some (entry ''b'' True)])) = Inr ''c''"
proof -
  let ?t = "[Some (entry ''a'' False), None, Some (entry ''b'' True)]"
  have a: "fd_alloc ''c'' False 0 ?t = (Inr 1, [Some (entry ''a'' False), Some (entry ''c'' False), Some (entry ''b'' True)])"
    by code_simp
  moreover have "fd_inv ?t" by (simp add: fd_inv_def MAX_FDS_def)
  ultimately show ?thesis using fd_alloc_lowest [of "''c''" False 0 ?t] by fastforce
qed

text \<open>
  C36. \<open>dup2\<close> and \<open>dup3\<close> make the new descriptor refer to the old one's file and change no other
  descriptor; a bad old or new descriptor is refused with the table untouched.
\<close>

theorem dup3_exact:
  assumes "sys_dup3 oldfd newfd cloexec is_dup2 fds = (r, fds')" "fd_inv fds"
  shows "fd_inv fds' \<and> (case r of
      Inl e \<Rightarrow> slot fds' = slot fds
        \<and> (fd_get oldfd fds = Inl e \<or> e = EINVAL \<and> oldfd = newfd \<or> e = EBADF \<and> (newfd < 0 \<or> int MAX_FDS \<le> newfd))
    | Inr fd \<Rightarrow> fd = newfd \<and> fd_get newfd fds' = fd_get oldfd fds
        \<and> (\<forall>j. j \<noteq> nat newfd \<longrightarrow> slot fds' j = slot fds j))"
proof (cases "fd_get oldfd fds")
  case (Inl e)
  then show ?thesis using assms by (auto simp: sys_dup3_def)
next
  case (Inr f)
  show ?thesis
  proof (cases "oldfd = newfd \<or> newfd < 0 \<or> MAX_FDS \<le> nat newfd")
    case True
    then show ?thesis using assms Inr by (auto simp: sys_dup3_def fd_set_def split: if_splits)
  next
    case False
    then have v: "0 \<le> newfd" "nat newfd < MAX_FDS" by auto
    note fs = fd_set_slot [OF v, where fl = f and cloexec = cloexec and fds = fds]
    have "r = Inr newfd" "fds' = snd (fd_set newfd f cloexec fds)"
      using assms(1) Inr False fs(2) by (auto simp: sys_dup3_def case_prod_beta split: sum.splits)
    then show ?thesis using Inr fs(1,3) assms(2) v(1) by (auto simp: fd_get_def entry_def)
  qed
qed

theorem dup3_exact_witness:
  "fst (sys_dup3 0 3 False True [Some (entry ''a'' True)]) = Inr 3
   \<and> fd_get 3 (snd (sys_dup3 0 3 False True [Some (entry ''a'' True)])) = Inr ''a''"
proof -
  let ?r = "sys_dup3 0 3 False True [Some (entry ''a'' True)]"
  have "fst ?r = Inr 3" by code_simp
  moreover have "fd_inv [Some (entry ''a'' True)]" by (simp add: fd_inv_def MAX_FDS_def)
  moreover have "fd_get 0 [Some (entry ''a'' True)] = Inr ''a''" by code_simp
  moreover have "?r = (fst ?r, snd ?r)" by (rule surjective_pairing)
  ultimately show ?thesis using dup3_exact [of 0 3 False True "[Some (entry ''a'' True)]" "fst ?r" "snd ?r"] by auto
qed

lemma close_each_facts:
  "(\<forall>i \<in> set is. i < length fds) \<Longrightarrow> \<exists>out fds'. close_each is fds = Some (out, fds') \<and> length fds' = length fds
     \<and> (\<forall>j. slot fds' j = (if j \<in> set is then None else slot fds j))"
proof (induction "is" arbitrary: fds)
  case (Cons i "is")
  then have i: "i < length fds" by simp
  obtain out fds' where "close_each is (fds[i := None]) = Some (out, fds')" "length fds' = length fds"
    "\<forall>j. slot fds' j = (if j \<in> set is then None else slot (fds[i := None]) j)"
    using Cons.IH [of "fds[i := None]"] Cons.prems by auto
  then show ?case using i slot_update [OF i, of None] by auto
qed auto

text \<open>Closing a range empties exactly that range, unless the table is empty and the range begins at 0.\<close>

lemma close_range_exact:
  assumes "fds \<noteq> [] \<or> 0 < lo"
  shows "\<exists>out fds'. close_range lo hi fds = Some (out, fds')
    \<and> (\<forall>j. slot fds' j = (if lo \<le> j \<and> j \<le> hi then None else slot fds j))"
proof -
  let ?is = "[lo..<Suc (min hi (length fds - 1))]"
  have "\<forall>i \<in> set ?is. i < length fds" using assms by (cases fds) auto
  from close_each_facts [OF this] obtain out fds' where r: "close_each ?is fds = Some (out, fds')"
    "\<forall>j. slot fds' j = (if j \<in> set ?is then None else slot fds j)" by blast
  have "slot fds' j = (if lo \<le> j \<and> j \<le> hi then None else slot fds j)" for j
    using r(2) by (auto simp: slot_def)
  then show ?thesis using r(1) by (auto simp: close_range_def)
qed

text \<open>
  \<open>hi.min(len.saturating_sub(1))\<close> is 0 on an empty table, so the loop indexes place 0: a process
  without descriptors that calls \<open>close_range(0, ...)\<close> panics the kernel. And the flag that asks to
  mark descriptors close-on-exec is accepted but closes them.
\<close>

theorem close_range_empty_panics: "sys_close_range 0 hi 0 [] = None"
  by (simp add: sys_close_range_def close_range_def)

theorem close_range_cloexec_closes: "sys_close_range 0 0 4 [Some e] = Some (Inr (), [None])"
  by (simp add: sys_close_range_def close_range_def)

lemma close_on_exec_slot: "slot (snd (close_on_exec fds)) j = (case slot fds j of Some e \<Rightarrow> if fe_cloexec e then None else Some e | None \<Rightarrow> None)"
  by (auto simp: close_on_exec_def slot_def drops_def split: option.split)

end
