(* ===== verification/Paths.thy ===== *)
theory Paths
  imports Mindos_Prelude Rust_Str
begin

text \<open>
  Path resolution and the mount table, src/research/kernel-rs/kernel/src/fs/path.rs. An inode is its
  identity (file system and inode number); the file systems behind the \<open>Inode\<close> trait are the record
  \<open>vfs\<close> of what they answer, an argument of everything here. Paths are strings of one-byte
  characters.
\<close>

section \<open>Inodes, mounts\<close>

type_synonym inode = "nat \<times> nat"

datatype kind = File | Dir | Symlink | CharDev | BlockDev | Fifo | Socket

record vfs =
  v_kind :: "inode \<Rightarrow> kind"
  v_lookup :: "inode \<Rightarrow> string \<Rightarrow> inode kresult"
  v_readlink :: "inode \<Rightarrow> string kresult"

record mount =
  m_on :: inode  \<comment> \<open>identity of the mount point, which is also \<open>mountpoint\<close>\<close>
  m_root :: inode
  m_path :: string

record ns =
  n_root :: inode
  n_mounts :: "mount list"

definition slash :: char where "slash = CHR ''/''"

definition cross_mount :: "ns \<Rightarrow> inode \<Rightarrow> inode" where
  "cross_mount n dir = (case List.find (\<lambda>x. m_on x = dir) (rev (n_mounts n)) of Some x \<Rightarrow> m_root x | None \<Rightarrow> dir)"

definition uncross_mount :: "ns \<Rightarrow> inode \<Rightarrow> inode" where
  "uncross_mount n dir = (case List.find (\<lambda>x. m_root x = dir) (n_mounts n) of Some x \<Rightarrow> m_on x | None \<Rightarrow> dir)"

section \<open>Resolution\<close>

record resolved =
  r_parent :: inode
  r_inode :: "inode option"
  r_name :: string

definition components :: "string \<Rightarrow> string list" where
  "components path = filter (\<lambda>c. c \<noteq> []) (split_by (\<lambda>c. c = slash) path)"

text \<open>The step of one component; \<open>None\<close> when there is no such entry.\<close>

definition step_into :: "vfs \<Rightarrow> ns \<Rightarrow> inode \<Rightarrow> string \<Rightarrow> inode option kresult" where
  "step_into v n cur seg =
     (if seg = ''.'' then Inr (Some cur)
      else if seg = ''..'' then
        (let base_dir = uncross_mount n cur in
         if base_dir = n_root n then Inr (Some (n_root n))
         else case v_lookup v base_dir ''..'' of Inl e \<Rightarrow> Inl e | Inr i \<Rightarrow> Inr (Some i))
      else case v_lookup v cur seg of
        Inr i \<Rightarrow> Inr (Some (cross_mount n i))
      | Inl e \<Rightarrow> if e = ENOENT then Inr None else Inl e)"

text \<open>
  The loop over the components. \<open>deeper\<close> resolves the target of a symbolic link from a directory,
  one level down.
\<close>

fun walk :: "(inode \<Rightarrow> string \<Rightarrow> resolved kresult) \<Rightarrow> vfs \<Rightarrow> ns \<Rightarrow> bool \<Rightarrow> bool \<Rightarrow> inode \<Rightarrow> string list \<Rightarrow> resolved kresult" where
  "walk deeper v n follow trailing cur [] = Inr \<lparr>r_parent = cur, r_inode = Some cur, r_name = []\<rparr>"
| "walk deeper v n follow trailing cur (seg # segs) =
     (if 255 < length seg then Inl ENAMETOOLONG
      else if v_kind v cur \<noteq> Dir then Inl ENOTDIR
      else case step_into v n cur seg of
        Inl e \<Rightarrow> Inl e
      | Inr None \<Rightarrow> if segs = [] then Inr \<lparr>r_parent = cur, r_inode = None, r_name = seg\<rparr> else Inl ENOENT
      | Inr (Some nxt) \<Rightarrow>
          (if v_kind v nxt = Symlink \<and> (segs \<noteq> [] \<or> follow \<or> trailing) then
             (case v_readlink v nxt of
                Inl e \<Rightarrow> Inl e
              | Inr target \<Rightarrow>
                  (case deeper cur target of
                     Inl e \<Rightarrow> Inl e
                   | Inr r \<Rightarrow>
                       (if segs = [] then
                          (if trailing \<and> (case r_inode r of Some i \<Rightarrow> v_kind v i \<noteq> Dir | None \<Rightarrow> False) then Inl ENOTDIR
                           else Inr (if r_name r = [] then r\<lparr>r_name := seg\<rparr> else r))
                        else case r_inode r of
                          None \<Rightarrow> Inl ENOENT
                        | Some i \<Rightarrow> walk deeper v n follow trailing i segs)))
           else if segs = [] then
             (if trailing \<and> v_kind v nxt \<noteq> Dir then Inl ENOTDIR
              else Inr \<lparr>r_parent = cur, r_inode = Some nxt, r_name = seg\<rparr>)
           else walk deeper v n follow trailing nxt segs))"

text \<open>\<open>resolve_inner\<close> at depth \<open>41 - k\<close>.\<close>

fun resolve_inner :: "nat \<Rightarrow> vfs \<Rightarrow> ns \<Rightarrow> inode \<Rightarrow> string \<Rightarrow> bool \<Rightarrow> resolved kresult" where
  "resolve_inner 0 v n base path follow = Inl ELOOP"
| "resolve_inner (Suc k) v n base path follow =
     (if 4096 < length path then Inl ENAMETOOLONG
      else
        (let cur = (if starts_with path ''/'' then n_root n else base);
             segs = components path
         in if segs = [] then Inr \<lparr>r_parent = cur, r_inode = Some cur, r_name = []\<rparr>
            else walk (\<lambda>dir target. resolve_inner k v n dir target True) v n follow (ends_with path ''/'') cur segs))"

definition resolve_path :: "vfs \<Rightarrow> ns \<Rightarrow> inode \<Rightarrow> string \<Rightarrow> bool \<Rightarrow> resolved kresult" where
  "resolve_path v n base path follow = resolve_inner 41 v n base path follow"

section \<open>Lexical paths\<close>

fun norm_parts :: "string list \<Rightarrow> string list \<Rightarrow> string list" where
  "norm_parts parts [] = parts"
| "norm_parts parts (c # cs) =
     (if c = [] \<or> c = ''.'' then norm_parts parts cs
      else if c = ''..'' then norm_parts (butlast parts) cs
      else norm_parts (parts @ [c]) cs)"

definition normalize :: "string \<Rightarrow> string" where
  "normalize path = ''/'' @ join ''/'' (norm_parts [] (split_by (\<lambda>c. c = slash) path))"

definition path_join :: "string \<Rightarrow> string \<Rightarrow> string" where
  "path_join base rel =
     (if starts_with rel ''/'' then normalize rel
      else
        (let s = (if ends_with base ''/'' then base else base @ ''/'') in normalize (s @ rel)))"

section \<open>Mounting\<close>

definition do_mount :: "vfs \<Rightarrow> string \<Rightarrow> inode \<Rightarrow> ns \<Rightarrow> unit kresult \<times> ns" where
  "do_mount v path fs_root n =
     (case resolve_path v n (n_root n) path True of
        Inl e \<Rightarrow> (Inl e, n)
      | Inr r \<Rightarrow>
          (case r_inode r of
             None \<Rightarrow> (Inl ENOENT, n)
           | Some mp \<Rightarrow>
               (if v_kind v mp \<noteq> Dir then (Inl ENOTDIR, n)
                else (Inr (), n\<lparr>n_mounts := n_mounts n @ [\<lparr>m_on = mp, m_root = fs_root, m_path = normalize path\<rparr>]\<rparr>))))"

fun remove_first :: "('a \<Rightarrow> bool) \<Rightarrow> 'a list \<Rightarrow> 'a list option" where
  "remove_first P [] = None"
| "remove_first P (x # xs) = (if P x then Some xs else map_option (Cons x) (remove_first P xs))"

definition do_umount :: "string \<Rightarrow> ns \<Rightarrow> unit kresult \<times> ns" where
  "do_umount path n =
     (case remove_first (\<lambda>x. m_path x = normalize path) (n_mounts n) of
        None \<Rightarrow> (Inl EINVAL, n)
      | Some ms \<Rightarrow> (Inr (), n\<lparr>n_mounts := ms\<rparr>))"

section \<open>Normal forms\<close>

definition plain :: "string \<Rightarrow> bool" where
  "plain c \<longleftrightarrow> c \<noteq> [] \<and> c \<noteq> ''.'' \<and> c \<noteq> ''..'' \<and> slash \<notin> set c"

lemma norm_parts_plain:
  "list_all plain parts \<Longrightarrow> (\<forall>c \<in> set cs. slash \<notin> set c) \<Longrightarrow> list_all plain (norm_parts parts cs)"
proof (induction parts cs rule: norm_parts.induct)
  case (2 parts c cs)
  have "list_all plain (butlast parts)" using 2(4) by (auto simp: list_all_iff dest: in_set_butlastD)
  moreover have "plain c" if "c \<noteq> []" "c \<noteq> ''.''" "c \<noteq> ''..''" using that 2(5) by (simp add: plain_def)
  ultimately show ?case using 2 by auto
qed simp

lemma norm_parts_id: "list_all plain cs \<Longrightarrow> norm_parts parts cs = parts @ cs"
  by (induction cs arbitrary: parts) (auto simp: plain_def)

lemma slash_char [simp]: "CHR ''/'' = slash"
  by (simp add: slash_def)

lemma split_slash_word: "slash \<notin> set w \<Longrightarrow> split_by (\<lambda>c. c = slash) w = [w]"
  by (rule split_by_none) auto

lemma split_join_plain:
  "ws \<noteq> [] \<Longrightarrow> list_all plain ws \<Longrightarrow> split_by (\<lambda>c. c = slash) (join ''/'' ws) = ws"
proof (induction "''/''" ws rule: join.induct)
  case (2 w)
  then show ?case by (simp add: plain_def split_slash_word)
next
  case (3 w w' ws)
  have "split_by (\<lambda>c. c = slash) (''/'' @ join ''/'' (w' # ws)) = [] # split_by (\<lambda>c. c = slash) (join ''/'' (w' # ws))"
    by simp
  then show ?case using 3 by (simp add: split_by_append split_slash_word plain_def del: append.simps(2))
qed simp

lemma split_normal:
  assumes "list_all plain ws"
  shows "split_by (\<lambda>c. c = slash) (''/'' @ join ''/'' ws) = [] # (if ws = [] then [[]] else ws)"
  using split_join_plain [OF _ assms] by (cases "ws = []") simp_all

lemma normalize_parts: "\<exists>ws. normalize path = ''/'' @ join ''/'' ws \<and> list_all plain ws"
proof -
  have "\<forall>c \<in> set (split_by (\<lambda>c. c = slash) path). slash \<notin> set c" using split_by_pieces [of _ "\<lambda>c. c = slash" path] by blast
  then show ?thesis using norm_parts_plain [of "[]"] by (auto simp: normalize_def)
qed

text \<open>
  Lexical normalisation gives a canonical absolute path: it begins with a slash, none of its
  components is empty, \<open>.\<close> or \<open>..\<close>, and normalising it again changes nothing; joining a relative
  path gives such a path too.
\<close>

theorem normalize_canonical:
  "starts_with (normalize path) ''/'' \<and> list_all plain (components (normalize path)) \<and> normalize (normalize path) = normalize path
   \<and> normalize path = ''/'' @ join ''/'' (components (normalize path)) \<and> normalize (path_join path rel) = path_join path rel"
proof -
  have canon: "list_all plain (components (normalize q)) \<and> normalize (normalize q) = normalize q
      \<and> normalize q = ''/'' @ join ''/'' (components (normalize q))" for q
  proof -
    obtain ws where ws: "normalize q = ''/'' @ join ''/'' ws" "list_all plain ws" using normalize_parts by blast
    have "filter (\<lambda>c. c \<noteq> []) ws = ws" using ws(2) by (auto simp: filter_id_conv list_all_iff plain_def)
    then have c: "components (normalize q) = ws" unfolding components_def ws(1) split_normal [OF ws(2)] by simp
    have "norm_parts [] (split_by (\<lambda>c. c = slash) (normalize q)) = ws"
      unfolding ws(1) split_normal [OF ws(2)] using norm_parts_id [OF ws(2), of "[]"] by simp
    then have "normalize (normalize q) = ''/'' @ join ''/'' ws" by (simp add: normalize_def [of "normalize q"])
    then show ?thesis using ws c by simp
  qed
  then show ?thesis using canon by (simp add: path_join_def Let_def) (simp add: normalize_def)
qed

section \<open>What resolution returns\<close>

text \<open>A result is usable: its parent is a directory, and a missing entry really is missing and may be created.\<close>

definition usable :: "vfs \<Rightarrow> bool \<Rightarrow> resolved \<Rightarrow> bool" where
  "usable v follow r \<longleftrightarrow> v_kind v (r_parent r) = Dir
     \<and> (case r_inode r of
          None \<Rightarrow> v_lookup v (r_parent r) (r_name r) = Inl ENOENT \<and> plain (r_name r) \<and> length (r_name r) \<le> 255
        | Some i \<Rightarrow> follow \<longrightarrow> v_kind v i \<noteq> Symlink)"

lemma step_into_None:
  "step_into v n cur seg = Inr None \<Longrightarrow> v_lookup v cur seg = Inl ENOENT \<and> seg \<noteq> ''.'' \<and> seg \<noteq> ''..''"
  by (auto simp: step_into_def Let_def split: if_splits sum.splits)

lemma walk_usable:
  "(\<And>dir target r. v_kind v dir = Dir \<Longrightarrow> deeper dir target = Inr r \<Longrightarrow> usable v True r) \<Longrightarrow> segs \<noteq> [] \<Longrightarrow>
   (\<forall>c \<in> set segs. c \<noteq> [] \<and> slash \<notin> set c) \<Longrightarrow> walk deeper v n follow trailing cur segs = Inr r \<Longrightarrow> usable v follow r"
proof (induction deeper v n follow trailing cur segs rule: walk.induct)
  case (2 deeper v n follow trailing cur seg segs)
  note deeper = 2(3) and w = 2(6)
  have len: "length seg \<le> 255" and dir: "v_kind v cur = Dir" using w by (auto split: if_splits)
  have seg: "seg \<noteq> []" "slash \<notin> set seg" and rest: "\<forall>c \<in> set segs. c \<noteq> [] \<and> slash \<notin> set c" using 2(5) by auto
  obtain nx where nx: "step_into v n cur seg = Inr nx" using w len dir by (cases "step_into v n cur seg") auto
  show ?case
  proof (cases nx)
    case None
    then have "r = \<lparr>r_parent = cur, r_inode = None, r_name = seg\<rparr>" using w len dir nx by (auto split: if_splits)
    then show ?thesis using step_into_None [of v n cur seg] nx None dir seg len by (auto simp: usable_def plain_def)
  next
    case (Some nxt)
    show ?thesis
    proof (cases "v_kind v nxt = Symlink \<and> (segs \<noteq> [] \<or> follow \<or> trailing)")
      case True
      obtain target r' where d: "v_readlink v nxt = Inr target" "deeper cur target = Inr r'"
        using w len dir nx Some True by (auto split: sum.splits)
      have u: "usable v True r'" by (rule deeper [OF dir d(2)])
      show ?thesis
      proof (cases "segs = []")
        case last: True
        have "r = (if r_name r' = [] then r'\<lparr>r_name := seg\<rparr> else r')"
          using w len dir nx Some True d last by (auto split: if_splits)
        then show ?thesis using u by (auto simp: usable_def plain_def split: option.splits if_splits)
      next
        case more: False
        obtain i where i: "r_inode r' = Some i" "walk deeper v n follow trailing i segs = Inr r"
          using w len dir nx Some True d more by (auto split: option.splits)
        show ?thesis
          by (rule 2(1) [OF _ _ nx Some _ d more i(1) _ more rest i(2)]) (use len dir True deeper in auto)
      qed
    next
      case plain_step: False
      show ?thesis
      proof (cases "segs = []")
        case True
        then have "r = \<lparr>r_parent = cur, r_inode = Some nxt, r_name = seg\<rparr>"
          using w len dir nx Some plain_step by (auto split: if_splits)
        then show ?thesis using plain_step True dir by (auto simp: usable_def)
      next
        case more: False
        then have "walk deeper v n follow trailing nxt segs = Inr r" using w len dir nx Some plain_step by (auto split: if_splits)
        then show ?thesis
          by (intro 2(2) [OF _ _ nx Some _ more _ more rest]) (use len dir plain_step deeper in auto)
      qed
    qed
  qed
qed simp

lemma components_ok: "\<forall>c \<in> set (components path). c \<noteq> [] \<and> slash \<notin> set c"
  using split_by_pieces [of _ "\<lambda>c. c = slash" path] by (auto simp: components_def)

lemma resolve_inner_usable:
  assumes "v_kind v (n_root n) = Dir"
  shows "v_kind v base = Dir \<Longrightarrow> resolve_inner k v n base path follow = Inr r \<Longrightarrow> usable v follow r"
proof (induction k arbitrary: base path follow r)
  case (Suc k)
  define cur where "cur = (if starts_with path ''/'' then n_root n else base)"
  have cur: "v_kind v cur = Dir" using Suc.prems(1) assms by (simp add: cur_def)
  show ?case
  proof (cases "components path = []")
    case True
    then have "r = \<lparr>r_parent = cur, r_inode = Some cur, r_name = []\<rparr>"
      using Suc.prems(2) by (auto simp: Let_def cur_def split: if_splits)
    then show ?thesis using cur by (simp add: usable_def)
  next
    case False
    then have "walk (\<lambda>dir target. resolve_inner k v n dir target True) v n follow (ends_with path ''/'') cur (components path) = Inr r"
      using Suc.prems(2) by (auto simp: Let_def cur_def split: if_splits)
    from walk_usable [OF Suc.IH False components_ok this] show ?thesis by simp
  qed
qed simp

text \<open>
  C35. A successful resolution, through any chain of symbolic links and mounts, gives a directory as
  the parent; a missing entry really is missing in that directory and its name is one a new entry
  may have (not empty, \<open>.\<close> or \<open>..\<close>, no slash, at most 255 bytes); and with \<open>follow\<close> the target is
  never a symbolic link. Loops of links end with ELOOP.
\<close>

theorem resolve_path_usable:
  assumes "v_kind v (n_root n) = Dir" "v_kind v base = Dir" "resolve_path v n base path follow = Inr r"
  shows "v_kind v (r_parent r) = Dir
    \<and> (case r_inode r of
         None \<Rightarrow> v_lookup v (r_parent r) (r_name r) = Inl ENOENT \<and> plain (r_name r) \<and> length (r_name r) \<le> 255
       | Some i \<Rightarrow> follow \<longrightarrow> v_kind v i \<noteq> Symlink)"
  using resolve_inner_usable [OF assms(1,2) assms(3) [unfolded resolve_path_def]] by (simp add: usable_def)

text \<open>A small tree: \<open>/mnt\<close> a directory, \<open>/loop\<close> a link to itself, \<open>/in\<close> a link to \<open>/mnt\<close>.\<close>

definition demo_vfs :: vfs where
  "demo_vfs = \<lparr>v_kind = (\<lambda>i. if i = (0, 3) \<or> i = (0, 4) then Symlink else Dir),
     v_lookup = (\<lambda>i c. if i = (0, 1) \<and> c = ''mnt'' then Inr (0, 2) else if i = (0, 1) \<and> c = ''loop'' then Inr (0, 3)
        else if i = (0, 1) \<and> c = ''in'' then Inr (0, 4) else Inl ENOENT),
     v_readlink = (\<lambda>i. if i = (0, 3) then Inr ''/loop'' else Inr ''mnt'')\<rparr>"

definition demo_ns :: ns where "demo_ns = \<lparr>n_root = (0, 1), n_mounts = []\<rparr>"

theorem resolve_path_usable_witness:
  "resolve_path demo_vfs demo_ns (0, 1) ''/in/new'' True = Inr \<lparr>r_parent = (0, 2), r_inode = None, r_name = ''new''\<rparr>
   \<and> v_lookup demo_vfs (0, 2) ''new'' = Inl ENOENT"
proof -
  have r: "resolve_path demo_vfs demo_ns (0, 1) ''/in/new'' True = Inr \<lparr>r_parent = (0, 2), r_inode = None, r_name = ''new''\<rparr>"
    by code_simp
  have "v_kind demo_vfs (n_root demo_ns) = Dir" "v_kind demo_vfs (0, 1) = Dir" by (simp_all add: demo_vfs_def demo_ns_def)
  from resolve_path_usable [OF this r] r show ?thesis by simp
qed

lemma loop_of_links_ends: "resolve_path demo_vfs demo_ns (0, 1) ''/loop'' True = Inl ELOOP"
  by code_simp

section \<open>Mounts\<close>

lemma remove_first_append: "(\<forall>x \<in> set xs. \<not> P x) \<Longrightarrow> P y \<Longrightarrow> remove_first P (xs @ [y]) = Some xs"
  by (induction xs) auto

text \<open>
  Mounting succeeds only on an existing directory and adds one mount; unmounting the same path,
  however it is spelled, gives the mount table from before back, as long as nothing else was mounted
  there.
\<close>

theorem mount_umount:
  assumes "do_mount v path fs_root n = (Inr (), n')" "\<forall>x \<in> set (n_mounts n). m_path x \<noteq> normalize path" "normalize path' = normalize path"
  shows "(\<exists>r mp. resolve_path v n (n_root n) path True = Inr r \<and> r_inode r = Some mp \<and> v_kind v mp = Dir
      \<and> cross_mount n' mp = fs_root \<and> uncross_mount n' fs_root = (if \<exists>x \<in> set (n_mounts n). m_root x = fs_root then uncross_mount n fs_root else mp))
    \<and> do_umount path' n' = (Inr (), n)"
proof -
  obtain r mp where r: "resolve_path v n (n_root n) path True = Inr r" "r_inode r = Some mp" "v_kind v mp = Dir"
    "n' = n\<lparr>n_mounts := n_mounts n @ [\<lparr>m_on = mp, m_root = fs_root, m_path = normalize path\<rparr>]\<rparr>"
    using assms(1) by (auto simp: do_mount_def split: sum.splits option.splits if_splits)
  have "cross_mount n' mp = fs_root" by (simp add: r(4) cross_mount_def)
  moreover have "List.find P (xs @ [y]) = (if \<exists>x \<in> set xs. P x then List.find P xs else if P y then Some y else None)" for P xs and y :: mount
    by (induction xs) auto
  then have "uncross_mount n' fs_root = (if \<exists>x \<in> set (n_mounts n). m_root x = fs_root then uncross_mount n fs_root else mp)"
    by (simp add: r(4) uncross_mount_def)
  moreover have "do_umount path' n' = (Inr (), n)"
    using remove_first_append [of "n_mounts n" "\<lambda>x. m_path x = normalize path'"] assms(2,3) by (simp add: do_umount_def r(4))
  ultimately show ?thesis using r(1-3) by blast
qed

theorem mount_umount_witness:
  "do_umount ''/./mnt/'' (snd (do_mount demo_vfs ''/mnt'' (1, 1) demo_ns)) = (Inr (), demo_ns)"
proof -
  have m: "do_mount demo_vfs ''/mnt'' (1, 1) demo_ns = (Inr (), snd (do_mount demo_vfs ''/mnt'' (1, 1) demo_ns))" by code_simp
  have "normalize ''/./mnt/'' = normalize ''/mnt''" by code_simp
  then show ?thesis using mount_umount [OF m, of "''/./mnt/''"] by (simp add: demo_ns_def)
qed

text \<open>
  A second mount on the same path stays invisible: it is attached to the root of the first one, and
  resolution crosses a single mount. The path still leads to the first file system.
\<close>

theorem second_mount_hidden:
  "let n1 = snd (do_mount demo_vfs ''/mnt'' (1, 1) demo_ns); (ok, n2) = do_mount demo_vfs ''/mnt'' (2, 1) n1
   in ok = Inr () \<and> map_sum id r_inode (resolve_path demo_vfs n2 (0, 1) ''/mnt'' True) = Inr (Some (1, 1))"
  by code_simp

end
