(* ===== verification/Tmp_Data.thy ===== *)
theory Tmp_Data
  imports Cow
begin

text \<open>
  The data of the files of the in-memory file system, src/research/kernel-rs/kernel/src/fs/tmpfs.rs
  (\<open>FileData\<close>, \<open>page_for\<close> and the data half of the \<open>Inode\<close> implementation). A file is a vector of
  optional frames and a size; the bytes live in the frames of the machine, which all files and all
  address spaces share. Missing frames read as zero.

  The kernel is built with wrapping arithmetic in its release profile: offsets are naturals below
  \<open>2 ^ 64\<close> and unchecked additions wrap (\<open>wadd\<close>). The vector of frames is taken to be growable.
\<close>

section \<open>Data and operations\<close>

record tmp_data =
  td_pages :: "nat option list"
  td_size :: nat

definition data_new :: tmp_data where
  "data_new = \<lparr>td_pages = [], td_size = 0\<rparr>"

definition grow_pages :: "nat \<Rightarrow> tmp_data \<Rightarrow> tmp_data" where
  "grow_pages index d =
     (if length (td_pages d) \<le> index
      then d\<lparr>td_pages := td_pages d @ replicate (index + 1 - length (td_pages d)) None\<rparr> else d)"

definition page_for :: "nat \<Rightarrow> bool \<Rightarrow> tmp_data \<times> machine \<Rightarrow> nat option kresult \<times> tmp_data \<times> machine" where
  "page_for index alloc s =
     (if length (td_pages (fst s)) \<le> index \<and> \<not> alloc then (Inr None, s)
      else
        (let d = grow_pages index (fst s) in
         case td_pages d ! index of
           Some pa \<Rightarrow> (Inr (Some pa), d, snd s)
         | None \<Rightarrow>
             if \<not> alloc then (Inr None, d, snd s)
             else case mc_alloc_zeroed (snd s) of
               (None, m) \<Rightarrow> (Inl ENOSPC, d, m)
             | (Some pa, m) \<Rightarrow> (Inr (Some pa), d\<lparr>td_pages := (td_pages d)[index := Some pa]\<rparr>, m)))"

text \<open>\<open>copy_nonoverlapping\<close> into and out of the frame at \<open>pa\<close>, \<open>po\<close> bytes in.\<close>

definition store_bytes :: "nat \<Rightarrow> nat \<Rightarrow> u8 list \<Rightarrow> machine \<Rightarrow> machine" where
  "store_bytes pa po bs m =
     m\<lparr>mc_mem := (mc_mem m)(pa div FRAME :=
        take po (mc_mem m (pa div FRAME)) @ bs @ drop (po + length bs) (mc_mem m (pa div FRAME)))\<rparr>"

definition load_bytes :: "nat \<Rightarrow> nat \<Rightarrow> nat \<Rightarrow> machine \<Rightarrow> u8 list" where
  "load_bytes pa po n m = take n (drop po (mc_mem m (pa div FRAME)))"

text \<open>The loop of \<open>read_at\<close> from \<open>at\<close> on; the result are the bytes stored to the buffer.\<close>

function read_loop :: "nat \<Rightarrow> nat \<Rightarrow> nat \<Rightarrow> tmp_data \<times> machine \<Rightarrow> u8 list kresult" where
  "read_loop off n at s =
     (if at < n then
        (let pos = wadd off at; idx = pos div PAGE_SIZE; po = pos mod PAGE_SIZE;
             chunk = min (PAGE_SIZE - po) (n - at)
         in case page_for idx False s of
              (Inl e, _) \<Rightarrow> Inl e
            | (Inr p, s') \<Rightarrow>
                (case read_loop off n (at + chunk) s' of
                   Inl e \<Rightarrow> Inl e
                 | Inr bs \<Rightarrow>
                     Inr ((case p of Some pa \<Rightarrow> load_bytes pa po chunk (snd s') | None \<Rightarrow> replicate chunk 0) @ bs)))
      else Inr [])"
  by pat_completeness auto
termination by (relation "measure (\<lambda>(off, n, at, s). n - at)") (auto simp: PAGE_SIZE_def)

declare read_loop.simps [simp del]

definition data_read_at :: "nat \<Rightarrow> nat \<Rightarrow> tmp_data \<times> machine \<Rightarrow> u8 list kresult" where
  "data_read_at off buf_len s =
     (if td_size (fst s) \<le> off then Inr []
      else read_loop off (min (td_size (fst s) - off) buf_len) 0 s)"

text \<open>
  The loop of \<open>write_at\<close>. With \<open>alloc\<close> set \<open>page_for\<close> never answers that there is no page, so the
  \<open>unwrap\<close> of the source cannot fail (lemma \<open>page_for_alloc\<close>).
\<close>

function write_loop :: "nat \<Rightarrow> u8 list \<Rightarrow> nat \<Rightarrow> tmp_data \<times> machine \<Rightarrow> unit kresult \<times> tmp_data \<times> machine" where
  "write_loop off buf at s =
     (if at < length buf then
        (let pos = wadd off at; idx = pos div PAGE_SIZE; po = pos mod PAGE_SIZE;
             chunk = min (PAGE_SIZE - po) (length buf - at)
         in case page_for idx True s of
              (Inl e, s') \<Rightarrow> (Inl e, s')
            | (Inr p, s') \<Rightarrow>
                write_loop off buf (at + chunk)
                  (fst s', store_bytes (the p) po (take chunk (drop at buf)) (snd s')))
      else (Inr (), s))"
  by pat_completeness auto
termination by (relation "measure (\<lambda>(off, buf, at, s). length buf - at)") (auto simp: PAGE_SIZE_def)

declare write_loop.simps [simp del]

definition data_write_at :: "nat \<Rightarrow> u8 list \<Rightarrow> tmp_data \<times> machine \<Rightarrow> nat kresult \<times> tmp_data \<times> machine" where
  "data_write_at off buf s =
     (case write_loop off buf 0 s of
        (Inl e, s') \<Rightarrow> (Inl e, s')
      | (Inr _, s') \<Rightarrow>
          (let e = wadd off (length buf) in
           (Inr (length buf), (if td_size (fst s') < e then (fst s')\<lparr>td_size := e\<rparr> else fst s'), snd s')))"

definition page_at :: "tmp_data \<Rightarrow> nat \<Rightarrow> nat option" where
  "page_at d idx = (if idx < length (td_pages d) then td_pages d ! idx else None)"

text \<open>\<open>Iterator::flatten\<close> over options.\<close>

fun flatten :: "'a option list \<Rightarrow> 'a list" where
  "flatten [] = []"
| "flatten (None # xs) = flatten xs"
| "flatten (Some x # xs) = x # flatten xs"

definition drop_pages :: "nat \<Rightarrow> tmp_data \<times> machine \<Rightarrow> tmp_data \<times> machine" where
  "drop_pages npages s =
     (if npages < length (td_pages (fst s)) then
        ((fst s)\<lparr>td_pages := take npages (td_pages (fst s))\<rparr>,
         fold mc_ref_dec (flatten (drop npages (td_pages (fst s)))) (snd s))
      else s)"

definition zero_tail :: "nat \<Rightarrow> tmp_data \<Rightarrow> machine \<Rightarrow> machine" where
  "zero_tail sz d m =
     (case page_at d (sz div PAGE_SIZE) of
        Some pa \<Rightarrow> store_bytes pa (sz mod PAGE_SIZE) (replicate (PAGE_SIZE - sz mod PAGE_SIZE) 0) m
      | None \<Rightarrow> m)"

definition data_truncate :: "nat \<Rightarrow> tmp_data \<times> machine \<Rightarrow> tmp_data \<times> machine" where
  "data_truncate sz s =
     (let npages = wadd sz 4095 div 4096;
          s' = drop_pages npages s;
          m = (if sz < td_size (fst s) \<and> sz mod PAGE_SIZE \<noteq> 0 then zero_tail sz (fst s') (snd s') else snd s')
      in ((fst s')\<lparr>td_size := sz\<rparr>, m))"

definition data_get_page :: "nat \<Rightarrow> tmp_data \<times> machine \<Rightarrow> nat kresult \<times> tmp_data \<times> machine" where
  "data_get_page index s =
     (case page_for index True s of
        (Inl e, s') \<Rightarrow> (Inl e, s')
      | (Inr p, s') \<Rightarrow> (Inr (the p), fst s', mc_ref_inc (the p) (snd s')))"

text \<open>\<open>Drop for TmpInode\<close>.\<close>

definition data_drop :: "tmp_data \<Rightarrow> machine \<Rightarrow> machine" where
  "data_drop d m = fold mc_ref_dec (flatten (td_pages d)) m"

section \<open>What the files hold\<close>

definition page_byte :: "tmp_data \<Rightarrow> machine \<Rightarrow> nat \<Rightarrow> u8" where
  "page_byte d m i =
     (case page_at d (i div PAGE_SIZE) of
        Some pa \<Rightarrow> mc_mem m (pa div FRAME) ! (i mod PAGE_SIZE)
      | None \<Rightarrow> 0)"

text \<open>All files of the kernel at once, by inode: the frame in a place of a file.\<close>

type_synonym files = "nat \<Rightarrow> tmp_data option"

definition held :: "files \<Rightarrow> nat \<Rightarrow> nat \<Rightarrow> nat option" where
  "held F k idx = (case F k of Some d \<Rightarrow> page_at d idx | None \<Rightarrow> None)"

definition frame_ok :: "machine \<Rightarrow> nat \<Rightarrow> bool" where
  "frame_ok m pa \<longleftrightarrow> pa mod FRAME = 0 \<and> pa div FRAME < nframes m \<and> refs m (pa div FRAME) \<noteq> 0
     \<and> length (mc_mem m (pa div FRAME)) = PAGE_SIZE"

definition pages_inv :: "files \<Rightarrow> machine \<Rightarrow> bool" where
  "pages_inv F m \<longleftrightarrow> frames_ok m \<and> (\<forall>k idx pa. held F k idx = Some pa \<longrightarrow> frame_ok m pa)
     \<and> (\<forall>k idx pa k' idx' pa'. held F k idx = Some pa \<longrightarrow> held F k' idx' = Some pa' \<longrightarrow>
          pa div FRAME = pa' div FRAME \<longrightarrow> k = k' \<and> idx = idx')"

definition tails_zero :: "files \<Rightarrow> machine \<Rightarrow> bool" where
  "tails_zero F m \<longleftrightarrow> (\<forall>k d i. F k = Some d \<longrightarrow> td_size d \<le> i \<longrightarrow> page_byte d m i = 0)"

definition files_inv :: "files \<Rightarrow> machine \<Rightarrow> bool" where
  "files_inv F m \<longleftrightarrow> pages_inv F m \<and> tails_zero F m \<and> (\<forall>k d. F k = Some d \<longrightarrow> td_size d < 2 ^ 64)"

definition byte_of :: "files \<Rightarrow> machine \<Rightarrow> nat \<Rightarrow> nat \<Rightarrow> u8" where
  "byte_of F m k i = (case F k of Some d \<Rightarrow> page_byte d m i | None \<Rightarrow> 0)"

section \<open>Allocation of a page\<close>

lemma page_at_update [simp]:
  "page_at (d\<lparr>td_size := n\<rparr>) j = page_at d j" "page_byte (d\<lparr>td_size := n\<rparr>) m i = page_byte d m i"
  by (simp_all add: page_at_def page_byte_def)

lemma grow_pages_facts [simp]:
  "page_at (grow_pages idx d) j = page_at d j" "td_size (grow_pages idx d) = td_size d"
  "idx < length (td_pages (grow_pages idx d))"
  by (auto simp: grow_pages_def page_at_def nth_append)

lemma grow_pages_nth: "td_pages (grow_pages idx d) ! idx = page_at d idx"
  using grow_pages_facts(1) [of idx d idx] grow_pages_facts(3) [of idx d] by (simp only: page_at_def if_True)

lemma page_byte_cong: "(\<And>j. page_at d j = page_at d' j) \<Longrightarrow> page_byte d m i = page_byte d' m i"
  by (simp add: page_byte_def)

lemma page_for_read:
  "\<exists>s'. page_for idx False s = (Inr (page_at (fst s) idx), s') \<and> snd s' = snd s
     \<and> (\<forall>j. page_at (fst s') j = page_at (fst s) j) \<and> td_size (fst s') = td_size (fst s)"
proof (cases "length (td_pages (fst s)) \<le> idx")
  case True
  then show ?thesis by (simp add: page_for_def page_at_def)
next
  case False
  then show ?thesis
    by (cases s) (auto simp: page_for_def page_at_def grow_pages_def split: option.split)
qed

lemma mc_alloc_full:
  assumes "frames_ok m" "mc_alloc m = (None, m')"
  shows "avail m = {}"
proof -
  obtain p where "alloc_one (fs_pmm (mc_frames m)) = (None, p)"
    using assms(2) by (auto simp: mc_alloc_def alloc_frame_ref_def split: prod.splits option.splits)
  then show ?thesis using alloc_one_spec [of "fs_pmm (mc_frames m)"] assms(1) by (simp add: frames_ok_def avail_def)
qed

lemma mc_alloc_zeroed_cases:
  assumes "frames_ok m"
  obtains (full) "avail m = {}" "mc_alloc_zeroed m = (None, m)"
  | (fresh) pa m' where "mc_alloc_zeroed m = (Some pa, m')" "frames_ok m'" "pa mod FRAME = 0" "pa div FRAME \<in> avail m"
      "pa div FRAME < nframes m" "nframes m' = nframes m" "refs m' = (refs m)(pa div FRAME := 1)"
      "mc_mem m' = (mc_mem m)(pa div FRAME := replicate PAGE_SIZE 0)"
proof (cases "mc_alloc m")
  case (Pair r m1)
  show thesis
  proof (cases r)
    case None
    then have "avail m = {} \<and> m1 = m" using Pair mc_alloc_None mc_alloc_full assms by blast
    then show thesis using full Pair None by (simp add: mc_alloc_zeroed_def)
  next
    case (Some pa)
    note a = mc_alloc_spec [OF assms Pair [unfolded Some]]
    let ?m = "m1\<lparr>mc_mem := (mc_mem m1)(pa div FRAME := replicate PAGE_SIZE 0)\<rparr>"
    have e: "nframes ?m = nframes m1" "avail ?m = avail m1" "refs ?m = refs m1"
      by (simp_all add: nframes_def avail_def refs_def fun_eq_iff)
    then have "frames_ok ?m" using a(1) by (simp add: frames_ok_def)
    moreover have "mc_alloc_zeroed m = (Some pa, ?m)" using Pair Some by (simp add: mc_alloc_zeroed_def)
    ultimately show thesis using fresh [of pa ?m] a e by simp
  qed
qed

lemma held_upd [simp]: "held (F(k \<mapsto> d)) j x = (if j = k then page_at d x else held F j x)"
  by (simp add: held_def)

lemma byte_of_upd [simp]: "byte_of (F(k \<mapsto> d)) m j i = (if j = k then page_byte d m i else byte_of F m j i)"
  by (simp add: byte_of_def)

lemma byte_of_held:
  "byte_of F m k i = (case held F k (i div PAGE_SIZE) of
     Some pa \<Rightarrow> mc_mem m (pa div FRAME) ! (i mod PAGE_SIZE) | None \<Rightarrow> 0)"
  by (simp add: byte_of_def held_def page_byte_def split: option.split)

lemma pages_invD:
  assumes "pages_inv F m"
  shows "frames_ok m" "held F k idx = Some pa \<Longrightarrow> frame_ok m pa"
    "held F k idx = Some pa \<Longrightarrow> held F k' idx' = Some pa' \<Longrightarrow> pa div FRAME = pa' div FRAME \<Longrightarrow> k = k' \<and> idx = idx'"
  using assms unfolding pages_inv_def by blast+

lemma pages_inv_same:
  assumes "pages_inv F m" "\<And>k idx. held F' k idx = held F k idx"
  shows "pages_inv F' m"
  using assms(1) unfolding pages_inv_def assms(2) .

text \<open>A fresh frame is in no file, because the frames of files are counted and free ones are not.\<close>

lemma pages_inv_fresh:
  assumes inv: "pages_inv F m" and none: "held F k idx = None"
    and a: "frames_ok m'" "pa mod FRAME = 0" "pa div FRAME \<in> avail m" "pa div FRAME < nframes m" "nframes m' = nframes m"
      "refs m' = (refs m)(pa div FRAME := 1)" "mc_mem m' = (mc_mem m)(pa div FRAME := replicate PAGE_SIZE 0)"
    and h: "\<And>j x. held F' j x = (if j = k \<and> x = idx then Some pa else held F j x)"
  shows "pages_inv F' m' \<and> (\<forall>j i. byte_of F' m' j i = byte_of F m j i)"
proof -
  have apart: "pb div FRAME \<noteq> pa div FRAME" if "held F j x = Some pb" for j x pb
    using pages_invD(2) [OF inv that] pages_invD(1) [OF inv] a(3) by (auto simp: frame_ok_def frames_ok_def)
  have "frame_ok m' pb" if "held F' j x = Some pb" for j x pb
    using that pages_invD(2) [OF inv, of j x pb] apart [of j x pb] a(2,4-7)
    by (auto simp: frame_ok_def h split: if_splits)
  moreover have "j = j' \<and> x = x'" if "held F' j x = Some pb" "held F' j' x' = Some pb'" "pb div FRAME = pb' div FRAME" for j x j' x' pb pb'
    using that pages_invD(3) [OF inv, of j x pb j' x' pb'] apart [of j x pb] apart [of j' x' pb'] by (auto simp: h split: if_splits)
  ultimately have "pages_inv F' m'" using a(1) unfolding pages_inv_def by blast
  moreover have "byte_of F' m' j i = byte_of F m j i" for j i
    using apart [of j "i div PAGE_SIZE"] none a(7) by (auto simp: byte_of_held h PAGE_SIZE_def split: option.split)
  ultimately show ?thesis by blast
qed

lemma page_for_alloc:
  assumes inv: "pages_inv F m" and k: "F k = Some d"
  obtains (full) d' where "avail m = {}" "page_for idx True (d, m) = (Inl ENOSPC, d', m)" "\<And>j. page_at d' j = page_at d j" "td_size d' = td_size d"
  | (page) pa d' m' where "page_for idx True (d, m) = (Inr (Some pa), d', m')" "pages_inv (F(k \<mapsto> d')) m'"
      "page_at d' idx = Some pa" "td_size d' = td_size d" "\<And>j i. byte_of (F(k \<mapsto> d')) m' j i = byte_of F m j i"
proof (cases "page_at d idx")
  case (Some pa)
  let ?d = "grow_pages idx d"
  have same: "held (F(k \<mapsto> ?d)) j x = held F j x" for j x using k by (simp add: held_def)
  show thesis
  proof (rule page [of pa ?d m])
    show "pages_inv (F(k \<mapsto> ?d)) m" by (rule pages_inv_same [OF inv same])
    show "byte_of (F(k \<mapsto> ?d)) m j i = byte_of F m j i" for j i unfolding byte_of_held same ..
  qed (use Some in \<open>simp_all add: page_for_def Let_def grow_pages_nth\<close>)
next
  case None
  let ?d = "grow_pages idx d"
  show thesis
  proof (cases rule: mc_alloc_zeroed_cases [OF pages_invD(1) [OF inv]])
    case 1
    show thesis
      by (rule that(1) [of ?d]) (use 1 None in \<open>simp_all add: page_for_def Let_def grow_pages_nth\<close>)
  next
    case fresh: (2 pa m')
    let ?d' = "?d\<lparr>td_pages := (td_pages ?d)[idx := Some pa]\<rparr>"
    have at: "page_at ?d' x = (if x = idx then Some pa else page_at d x)" for x
      using grow_pages_facts(1) [of idx d x] grow_pages_facts(3) [of idx d] by (auto simp: page_at_def nth_list_update)
    then have h: "held (F(k \<mapsto> ?d')) j x = (if j = k \<and> x = idx then Some pa else held F j x)" for j x
      using k by (simp add: held_def)
    have n: "held F k idx = None" using k None by (simp add: held_def)
    have eq: "page_for idx True (d, m) = (Inr (Some pa), ?d', m')"
      using None fresh(1) by (simp add: page_for_def Let_def grow_pages_nth)
    note inv' = pages_inv_fresh [OF inv n fresh(2-8) h]
    show thesis by (rule that(2) [OF eq]) (use inv' at in simp_all)
  qed
qed

section \<open>Reading and writing\<close>

lemma page_pos:
  "i div PAGE_SIZE = idx \<and> po \<le> i mod PAGE_SIZE \<and> i mod PAGE_SIZE < hi \<longleftrightarrow>
     idx * PAGE_SIZE + po \<le> i \<and> i < idx * PAGE_SIZE + hi" if "hi \<le> PAGE_SIZE"
proof -
  have "i div PAGE_SIZE = idx" if "idx * PAGE_SIZE + po \<le> i" "i < idx * PAGE_SIZE + hi"
    using that \<open>hi \<le> PAGE_SIZE\<close> by (intro div_nat_eqI) (simp_all add: algebra_simps)
  moreover have "i = i div PAGE_SIZE * PAGE_SIZE + i mod PAGE_SIZE" by simp
  ultimately show ?thesis by (metis nat_add_left_cancel_le nat_add_left_cancel_less)
qed

lemma splice_nth:
  assumes "po + length bs \<le> length xs" "i < length xs"
  shows "(take po xs @ bs @ drop (po + length bs) xs) ! i =
    (if po \<le> i \<and> i < po + length bs then bs ! (i - po) else xs ! i)"
  using assms by (auto simp: nth_append min_def)

definition patch :: "nat \<Rightarrow> nat \<Rightarrow> u8 list \<Rightarrow> (nat \<Rightarrow> nat \<Rightarrow> u8) \<Rightarrow> nat \<Rightarrow> nat \<Rightarrow> u8" where
  "patch k off bs B j i = (if j = k \<and> off \<le> i \<and> i < off + length bs then bs ! (i - off) else B j i)"

lemma patch_Nil [simp]: "patch k off [] B = B"
  by (auto simp: patch_def fun_eq_iff)

lemma patch_patch: "patch k (off + length as) bs (patch k off as B) = patch k off (as @ bs) B"
  by (auto simp: patch_def fun_eq_iff nth_append)

lemma store_bytes_spec:
  assumes inv: "pages_inv F m" and h: "held F k idx = Some pa" and len: "po + length bs \<le> PAGE_SIZE"
  shows "pages_inv F (store_bytes pa po bs m)"
    "byte_of F (store_bytes pa po bs m) = patch k (idx * PAGE_SIZE + po) bs (byte_of F m)"
proof -
  let ?m = "store_bytes pa po bs m" and ?P = "mc_mem m (pa div FRAME)"
  have ok: "frame_ok m pa" by (rule pages_invD(2) [OF inv h])
  have e: "nframes ?m = nframes m" "avail ?m = avail m" "refs ?m = refs m"
    by (simp_all add: nframes_def avail_def refs_def fun_eq_iff store_bytes_def)
  have mem: "mc_mem ?m = (mc_mem m)(pa div FRAME := take po ?P @ bs @ drop (po + length bs) ?P)"
    by (simp add: store_bytes_def)
  have "frames_ok ?m" using pages_invD(1) [OF inv] e by (simp add: frames_ok_def store_bytes_def)
  moreover have "frame_ok ?m pb" if "frame_ok m pb" for pb
    using that ok len e by (auto simp: frame_ok_def mem)
  ultimately show "pages_inv F ?m" using inv unfolding pages_inv_def by blast
  have one: "byte_of F ?m j i = patch k (idx * PAGE_SIZE + po) bs (byte_of F m) j i" for j i
  proof (cases "held F j (i div PAGE_SIZE) = Some pa")
    case True
    then have ji: "j = k" "i div PAGE_SIZE = idx" using pages_invD(3) [OF inv True h] by auto
    have "i = idx * PAGE_SIZE + i mod PAGE_SIZE" using ji(2) by (metis div_mult_mod_eq)
    then have q: "i - (idx * PAGE_SIZE + po) = i mod PAGE_SIZE - po" by linarith
    have "i mod PAGE_SIZE < PAGE_SIZE" by (simp add: PAGE_SIZE_def)
    then show ?thesis
      using True ok len ji page_pos [OF len, of i idx po]
      by (simp add: byte_of_held mem splice_nth frame_ok_def patch_def q)
  next
    case False
    have "\<not> (j = k \<and> idx * PAGE_SIZE + po \<le> i \<and> i < idx * PAGE_SIZE + po + length bs)"
      using False h page_pos [OF len, of i idx po] by auto
    moreover have "pb div FRAME \<noteq> pa div FRAME" if "held F j (i div PAGE_SIZE) = Some pb" for pb
      using pages_invD(3) [OF inv that h] that False h by auto
    ultimately show ?thesis
      by (auto simp: byte_of_held mem patch_def split: option.split)
  qed
  then show "byte_of F ?m = patch k (idx * PAGE_SIZE + po) bs (byte_of F m)" by (simp add: fun_eq_iff)
qed

lemma write_loop_spec:
  assumes "pages_inv F m" "F k = Some d" "off + length buf < 2 ^ 64" "at \<le> length buf"
    "write_loop off buf at (d, m) = (r, d', m')"
  shows "pages_inv (F(k \<mapsto> d')) m' \<and> td_size d' = td_size d \<and>
    (\<exists>n \<le> length buf - at. byte_of (F(k \<mapsto> d')) m' = patch k (off + at) (take n (drop at buf)) (byte_of F m)
       \<and> (r = Inr () \<and> n = length buf - at \<or> r = Inl ENOSPC \<and> avail m' = {}))"
  using assms
proof (induction "length buf - at" arbitrary: F d m at rule: less_induct)
  case less
  show ?case
  proof (cases "at < length buf")
    case False
    then have "write_loop off buf at (d, m) = (Inr (), d, m)" by (subst write_loop.simps) simp
    then have "d' = d" "m' = m" "r = Inr ()" "F(k \<mapsto> d) = F" using less.prems(2,5) by auto
    then show ?thesis using False less.prems by auto
  next
    case True
    let ?pos = "off + at" and ?idx = "(off + at) div PAGE_SIZE" and ?po = "(off + at) mod PAGE_SIZE"
    let ?c = "min (PAGE_SIZE - ?po) (length buf - at)" and ?bs = "take (min (PAGE_SIZE - ?po) (length buf - at)) (drop at buf)"
    have pos: "wadd off at = ?pos" using less.prems(3) True by (simp add: wadd_def)
    have po: "?po < PAGE_SIZE" by (simp add: PAGE_SIZE_def)
    have at: "?idx * PAGE_SIZE + ?po = ?pos" by simp
    have c: "0 < ?c" "length ?bs = ?c" "?po + ?c \<le> PAGE_SIZE" "at + ?c \<le> length buf"
      using True po by auto
    show ?thesis
    proof (cases rule: page_for_alloc [OF less.prems(1,2), of ?idx])
      case full: (1 d1)
      then have "r = Inl ENOSPC \<and> avail m' = {}" "d' = d1" "m' = m"
        using less.prems(5) True by (auto simp: write_loop.simps [of off buf at] pos Let_def)
      moreover have h: "held (F(k \<mapsto> d1)) j x = held F j x" for j x using full(3) less.prems(2) by (simp add: held_def)
      ultimately have "pages_inv (F(k \<mapsto> d')) m'" "byte_of (F(k \<mapsto> d')) m' = byte_of F m" "td_size d' = td_size d"
        using pages_inv_same [OF less.prems(1) h] full(4) by (auto simp: fun_eq_iff byte_of_held h)
      then show ?thesis using \<open>r = Inl ENOSPC \<and> avail m' = {}\<close> by (intro conjI exI [of _ 0]) auto
    next
      case page: (2 pa d1 m1)
      let ?m2 = "store_bytes pa ?po ?bs m1"
      have rec: "write_loop off buf (at + ?c) (d1, ?m2) = (r, d', m')"
        using less.prems(5) True page(1) by (simp add: write_loop.simps [of off buf at] pos Let_def)
      have hp: "held (F(k \<mapsto> d1)) k ?idx = Some pa" using page(3) by simp
      note st = store_bytes_spec [OF page(2) hp, of ?po ?bs, unfolded c(2), OF c(3)]
      have old: "byte_of (F(k \<mapsto> d1)) m1 = byte_of F m" using page(5) by (simp add: fun_eq_iff)
      have IH: "pages_inv ((F(k \<mapsto> d1))(k \<mapsto> d')) m' \<and> td_size d' = td_size d1 \<and>
        (\<exists>n \<le> length buf - (at + ?c). byte_of ((F(k \<mapsto> d1))(k \<mapsto> d')) m' =
           patch k (off + (at + ?c)) (take n (drop (at + ?c) buf)) (byte_of (F(k \<mapsto> d1)) ?m2)
           \<and> (r = Inr () \<and> n = length buf - (at + ?c) \<or> r = Inl ENOSPC \<and> avail m' = {}))"
        by (rule less.hyps [OF _ st(1) _ less.prems(3) c(4) rec]) (use True c(1) in simp_all)
      then obtain n where n: "n \<le> length buf - (at + ?c)" "r = Inr () \<and> n = length buf - (at + ?c) \<or> r = Inl ENOSPC \<and> avail m' = {}"
        "byte_of (F(k \<mapsto> d')) m' = patch k (off + (at + ?c)) (take n (drop (at + ?c) buf)) (byte_of (F(k \<mapsto> d1)) ?m2)"
        by auto
      have "take (?c + n) (drop at buf) = ?bs @ take n (drop (at + ?c) buf)"
        using take_add [of ?c n "drop at buf"] by (simp add: add.commute)
      then have "byte_of (F(k \<mapsto> d')) m' = patch k ?pos (take (?c + n) (drop at buf)) (byte_of F m)"
        unfolding n(3) st(2) at old using patch_patch [of k ?pos ?bs "take n (drop (at + ?c) buf)" "byte_of F m", symmetric]
        by (simp add: c(2) add.assoc)
      moreover have "?c + n \<le> length buf - at" using n(1) c(4) by linarith
      moreover have "r = Inr () \<and> ?c + n = length buf - at \<or> r = Inl ENOSPC \<and> avail m' = {}" using n(2) c(4) by auto
      ultimately show ?thesis using IH page(4) by (intro conjI exI [of _ "?c + n"]) auto
    qed
  qed
qed

lemma load_bytes_eq:
  assumes "page_at d idx = Some pa" "length (mc_mem m (pa div FRAME)) = PAGE_SIZE" "po + n \<le> PAGE_SIZE"
  shows "load_bytes pa po n m = map (page_byte d m) [idx * PAGE_SIZE + po..<idx * PAGE_SIZE + po + n]"
proof (rule nth_equalityI)
  fix i assume "i < length (load_bytes pa po n m)"
  then have i: "i < n" "po + i < PAGE_SIZE" using assms(2,3) by (auto simp: load_bytes_def)
  then have "(idx * PAGE_SIZE + (po + i)) div PAGE_SIZE = idx \<and> (idx * PAGE_SIZE + (po + i)) mod PAGE_SIZE = po + i" by simp
  then show "load_bytes pa po n m ! i = map (page_byte d m) [idx * PAGE_SIZE + po..<idx * PAGE_SIZE + po + n] ! i"
    using i assms by (simp add: load_bytes_def page_byte_def add.assoc)
qed (use assms(2,3) in \<open>simp add: load_bytes_def\<close>)

lemma page_missing_eq:
  assumes "page_at d idx = None" "po + n \<le> PAGE_SIZE"
  shows "replicate n 0 = map (page_byte d m) [idx * PAGE_SIZE + po..<idx * PAGE_SIZE + po + n]"
proof (rule nth_equalityI)
  fix i assume "i < length (replicate n (0 :: u8))"
  then have i: "i < n" "po + i < PAGE_SIZE" using assms(2) by auto
  then have "(idx * PAGE_SIZE + (po + i)) div PAGE_SIZE = idx" by simp
  then show "replicate n 0 ! i = map (page_byte d m) [idx * PAGE_SIZE + po..<idx * PAGE_SIZE + po + n] ! i"
    using i assms by (simp add: page_byte_def add.assoc)
qed simp

lemma read_loop_spec:
  assumes "\<And>idx pa. page_at d idx = Some pa \<Longrightarrow> length (mc_mem m (pa div FRAME)) = PAGE_SIZE"
    "off + n < 2 ^ 64" "at \<le> n"
  shows "read_loop off n at (d, m) = Inr (map (page_byte d m) [off + at..<off + n])"
  using assms
proof (induction "n - at" arbitrary: at d rule: less_induct)
  case less
  show ?case
  proof (cases "at < n")
    case False
    then show ?thesis using less.prems(3) by (subst read_loop.simps) simp
  next
    case True
    let ?pos = "off + at" and ?idx = "(off + at) div PAGE_SIZE" and ?po = "(off + at) mod PAGE_SIZE"
    let ?c = "min (PAGE_SIZE - ?po) (n - at)"
    have pos: "wadd off at = ?pos" using less.prems(2) True by (simp add: wadd_def)
    have po: "?po < PAGE_SIZE" by (simp add: PAGE_SIZE_def)
    have c: "0 < ?c" "?po + ?c \<le> PAGE_SIZE" "at + ?c \<le> n" using True po by auto
    obtain s' where s': "page_for ?idx False (d, m) = (Inr (page_at d ?idx), s')" "snd s' = m" "\<And>j. page_at (fst s') j = page_at d j"
      using page_for_read [of ?idx "(d, m)"] by auto
    have pb: "page_byte (fst s') m = page_byte d m" by (rule ext) (rule page_byte_cong, rule s'(3))
    have IH: "read_loop off n (at + ?c) (fst s', m) = Inr (map (page_byte d m) [off + (at + ?c)..<off + n])"
    proof (subst less.hyps)
      show "n - (at + ?c) < n - at" using c True by linarith
    qed (use less.prems c s'(3) in \<open>simp_all add: pb\<close>)
    have "(case page_at d ?idx of Some pa \<Rightarrow> load_bytes pa ?po ?c m | None \<Rightarrow> replicate ?c 0)
        = map (page_byte d m) [?pos..<?pos + ?c]"
      using load_bytes_eq [OF _ _ c(2), of d ?idx _ m] page_missing_eq [OF _ c(2), of d ?idx m] less.prems(1)
      by (cases "page_at d ?idx") simp_all
    moreover have "[?pos..<off + n] = [?pos..<?pos + ?c] @ [?pos + ?c..<off + n]"
      using c by (metis add.assoc le_add1 nat_add_left_cancel_le upt_add_eq_append le_iff_add)
    moreover have "s' = (fst s', m)" using s'(2) by (cases s') simp
    ultimately show ?thesis
      using True s'(1) IH by (subst read_loop.simps) (simp add: pos Let_def add.assoc, metis snd_conv)
  qed
qed

lemma data_read_at_spec:
  assumes "pages_inv F m" "F k = Some d" "td_size d < 2 ^ 64"
  shows "data_read_at off n (d, m) = Inr (map (page_byte d m) [off..<min (td_size d) (off + n)])"
proof (cases "td_size d \<le> off")
  case True
  then show ?thesis by (simp add: data_read_at_def)
next
  case False
  have "length (mc_mem m (pa div FRAME)) = PAGE_SIZE" if "page_at d idx = Some pa" for idx pa
    using pages_invD(2) [OF assms(1), of k idx pa] that assms(2) by (simp add: held_def frame_ok_def)
  moreover have "off + min (td_size d - off) n = min (td_size d) (off + n)" using False by simp
  ultimately show ?thesis
    using False assms(3) read_loop_spec [of d m off "min (td_size d - off) n" 0] by (simp add: data_read_at_def)
qed

lemma tails_zero_byte_of:
  "tails_zero F m \<longleftrightarrow> (\<forall>k d i. F k = Some d \<longrightarrow> td_size d \<le> i \<longrightarrow> byte_of F m k i = 0)"
  by (auto simp: tails_zero_def byte_of_def)

lemma data_write_at_spec:
  assumes inv: "files_inv F m" and k: "F k = Some d" and small: "off + length bs < 2 ^ 64"
    and w: "data_write_at off bs (d, m) = (r, d', m')"
  shows "(r = Inr (length bs) \<and> files_inv (F(k \<mapsto> d')) m' \<and> td_size d' = max (td_size d) (off + length bs)
            \<and> byte_of (F(k \<mapsto> d')) m' = patch k off bs (byte_of F m))
       \<or> (r = Inl ENOSPC \<and> avail m' = {} \<and> pages_inv (F(k \<mapsto> d')) m' \<and> td_size d' = td_size d
            \<and> (\<exists>n \<le> length bs. byte_of (F(k \<mapsto> d')) m' = patch k off (take n bs) (byte_of F m)))"
proof -
  obtain r1 d1 where l: "write_loop off bs 0 (d, m) = (r1, d1, m')" "r = (case r1 of Inl e \<Rightarrow> Inl e | Inr _ \<Rightarrow> Inr (length bs))"
    "d' = (if isl r1 \<or> off + length bs \<le> td_size d1 then d1 else d1\<lparr>td_size := off + length bs\<rparr>)"
    using w small by (auto simp: data_write_at_def wadd_def Let_def split: prod.splits sum.splits)
  have pinv: "pages_inv F m" using inv by (simp add: files_inv_def)
  note spec = write_loop_spec [OF pinv k small _ l(1), simplified]
  obtain n where n: "n \<le> length bs" "byte_of (F(k \<mapsto> d1)) m' = patch k off (take n bs) (byte_of F m)"
    "r1 = Inr () \<and> n = length bs \<or> r1 = Inl ENOSPC \<and> avail m' = {}" "pages_inv (F(k \<mapsto> d1)) m'" "td_size d1 = td_size d"
    using spec by blast
  have same: "held (F(k \<mapsto> d')) j x = held (F(k \<mapsto> d1)) j x" for j x using l(3) by simp
  have p': "pages_inv (F(k \<mapsto> d')) m'" by (rule pages_inv_same [OF n(4) same])
  have b': "byte_of (F(k \<mapsto> d')) m' = patch k off (take n bs) (byte_of F m)"
    unfolding n(2) [symmetric] using l(3) by (auto simp: fun_eq_iff)
  show ?thesis
  proof (cases "r1 = Inl ENOSPC")
    case True
    then show ?thesis using l n(1,3,5) p' b' by auto
  next
    case False
    then have r1: "r1 = Inr ()" "n = length bs" using n(3) by auto
    then have sz: "td_size d' = max (td_size d) (off + length bs)" using l(3) n(5) by auto
    have b: "byte_of (F(k \<mapsto> d')) m' = patch k off bs (byte_of F m)" using b' r1(2) by simp
    have "tails_zero F m" "\<forall>k d. F k = Some d \<longrightarrow> td_size d < 2 ^ 64" using inv by (simp_all add: files_inv_def)
    then have "files_inv (F(k \<mapsto> d')) m'"
      using p' small k unfolding files_inv_def tails_zero_byte_of b by (auto simp: patch_def sz)
    then show ?thesis using l(2) r1 sz b by simp
  qed
qed

section \<open>Truncating and releasing\<close>

lemma fold_ref_dec:
  assumes "frames_ok m" "\<And>p. p \<in> set ps \<Longrightarrow> frame_ok m p" "distinct (map (\<lambda>p. p div FRAME) ps)"
  shows "frames_ok (fold mc_ref_dec ps m) \<and> nframes (fold mc_ref_dec ps m) = nframes m \<and> mc_mem (fold mc_ref_dec ps m) = mc_mem m
    \<and> (\<forall>f. f \<notin> (\<lambda>p. p div FRAME) ` set ps \<longrightarrow> refs (fold mc_ref_dec ps m) f = refs m f)"
  using assms
proof (induction ps arbitrary: m)
  case (Cons p ps)
  have ok: "frame_ok m p" using Cons.prems(2) by simp
  note d = mc_ref_dec_spec [OF Cons.prems(1), of p]
  have "frame_ok (mc_ref_dec p m) q" if "q \<in> set ps" for q
  proof -
    have "q div FRAME \<noteq> p div FRAME" using that Cons.prems(3) by (auto simp: image_iff)
    then show ?thesis using Cons.prems(2) [of q] that ok d by (auto simp: frame_ok_def)
  qed
  then have "frames_ok (fold mc_ref_dec ps (mc_ref_dec p m)) \<and> nframes (fold mc_ref_dec ps (mc_ref_dec p m)) = nframes (mc_ref_dec p m)
    \<and> mc_mem (fold mc_ref_dec ps (mc_ref_dec p m)) = mc_mem (mc_ref_dec p m)
    \<and> (\<forall>f. f \<notin> (\<lambda>p. p div FRAME) ` set ps \<longrightarrow> refs (fold mc_ref_dec ps (mc_ref_dec p m)) f = refs (mc_ref_dec p m) f)"
    using Cons.IH [of "mc_ref_dec p m"] Cons.prems(3) d(5) ok by (auto simp: frame_ok_def)
  then show ?case using ok d by (auto simp: frame_ok_def)
qed simp

lemma set_flatten: "p \<in> set (flatten xs) \<longleftrightarrow> Some p \<in> set xs"
  by (induction xs rule: flatten.induct) auto

lemma flatten_drop: "p \<in> set (flatten (drop n xs)) \<longleftrightarrow> (\<exists>i. n \<le> i \<and> i < length xs \<and> xs ! i = Some p)"
proof -
  have "p \<in> set (flatten (drop n xs)) \<longleftrightarrow> (\<exists>j < length xs - n. xs ! (n + j) = Some p)"
    unfolding set_flatten in_set_conv_nth [of "Some p" "drop n xs"] by auto
  also have "\<dots> \<longleftrightarrow> (\<exists>i. n \<le> i \<and> i < length xs \<and> xs ! i = Some p)"
    by (metis le_iff_add less_diff_conv add.commute)
  finally show ?thesis .
qed

lemma distinct_flatten:
  assumes "\<And>i j p q. i < length xs \<Longrightarrow> j < length xs \<Longrightarrow> xs ! i = Some p \<Longrightarrow> xs ! j = Some q \<Longrightarrow> g p = g q \<Longrightarrow> i = j"
  shows "distinct (map g (flatten xs))"
  using assms
proof (induction xs)
  case (Cons x xs)
  have IH: "distinct (map g (flatten xs))"
    by (rule Cons.IH) (use Cons.prems [of "Suc _" "Suc _"] in auto)
  show ?case
  proof (cases x)
    case (Some p)
    have "g q \<noteq> g p" if "Some q \<in> set xs" for q
      using that Cons.prems [of 0 "Suc _" p q] Some by (auto simp: in_set_conv_nth)
    then show ?thesis using IH Some by (fastforce simp: set_flatten)
  qed (use IH in simp)
qed simp

lemma drop_pages_spec:
  assumes inv: "pages_inv F m" and k: "F k = Some d" and p: "drop_pages n (d, m) = (d', m')"
  shows "pages_inv (F(k \<mapsto> d')) m'" "page_at d' j = (if j < n then page_at d j else None)"
    "td_size d' = td_size d" "mc_mem m' = mc_mem m"
proof -
  let ?ps = "flatten (drop n (td_pages d))"
  have at: "held F k i = Some q" if "i < length (td_pages d)" "td_pages d ! i = Some q" for i q
    using that k by (simp add: held_def page_at_def)
  have ok: "frame_ok m q" if "q \<in> set ?ps" for q
    using that at pages_invD(2) [OF inv] by (fastforce simp: flatten_drop)
  have dist: "distinct (map (\<lambda>p. p div FRAME) ?ps)"
  proof (rule distinct_flatten)
    fix i j q q' assume *: "i < length (drop n (td_pages d))" "j < length (drop n (td_pages d))" "drop n (td_pages d) ! i = Some q"
      "drop n (td_pages d) ! j = Some q'" "q div FRAME = q' div FRAME"
    then show "i = j" using pages_invD(3) [OF inv at at, of "n + i" q "n + j" q'] by simp
  qed
  note f = fold_ref_dec [OF pages_invD(1) [OF inv] ok dist]
  have e: "m' = fold mc_ref_dec ?ps m" "td_pages d' = take n (td_pages d)" "td_size d' = td_size d"
    using p by (auto simp: drop_pages_def split: if_splits)
  show pd: "page_at d' j = (if j < n then page_at d j else None)" for j using e(2) by (simp add: page_at_def)
  show "td_size d' = td_size d" by (rule e(3))
  show "mc_mem m' = mc_mem m" using f e(1) by simp
  have sub: "held F j x = Some q" if "held (F(k \<mapsto> d')) j x = Some q" for j x q
    using that k pd by (auto simp: held_def split: if_splits)
  have kept: "frame_ok m' q" if h: "held (F(k \<mapsto> d')) j x = Some q" for j x q
  proof -
    have "q div FRAME \<notin> (\<lambda>p. p div FRAME) ` set ?ps"
    proof
      assume "q div FRAME \<in> (\<lambda>p. p div FRAME) ` set ?ps"
      then obtain i q' where i: "i < length (td_pages d)" "td_pages d ! i = Some q'" "q div FRAME = q' div FRAME" "n \<le> i"
        by (auto simp: flatten_drop)
      then have "j = k \<and> x = i" using pages_invD(3) [OF inv sub [OF h] at [OF i(1,2)]] by simp
      then show False using h pd i(4) by simp
    qed
    then show ?thesis using pages_invD(2) [OF inv sub [OF h]] f e(1) by (simp add: frame_ok_def)
  qed
  show "pages_inv (F(k \<mapsto> d')) m'"
    unfolding pages_inv_def using f e(1) kept pages_invD(3) [OF inv sub sub] by blast
qed

lemma zero_tail_spec:
  assumes inv: "pages_inv F m" and k: "F k = Some d" and sz: "sz mod PAGE_SIZE \<noteq> 0"
  shows "pages_inv F (zero_tail sz d m)"
    "byte_of F (zero_tail sz d m) j i =
       (if j = k \<and> sz \<le> i \<and> i div PAGE_SIZE = sz div PAGE_SIZE then 0 else byte_of F m j i)"
proof -
  let ?idx = "sz div PAGE_SIZE" and ?po = "sz mod PAGE_SIZE"
  have po: "?po < PAGE_SIZE" "?idx * PAGE_SIZE + ?po = sz" by (simp_all add: PAGE_SIZE_def)
  have in_page: "i div PAGE_SIZE = ?idx \<and> sz \<le> i \<longleftrightarrow> sz \<le> i \<and> i < sz + (PAGE_SIZE - ?po)"
  proof -
    have "sz + (PAGE_SIZE - ?po) = ?idx * PAGE_SIZE + PAGE_SIZE" using po by linarith
    moreover have "?idx * PAGE_SIZE \<le> sz" using po(2) by linarith
    ultimately show ?thesis using page_pos [of PAGE_SIZE i ?idx 0] po(1) by auto
  qed
  have "pages_inv F (zero_tail sz d m) \<and> byte_of F (zero_tail sz d m) j i =
       (if j = k \<and> sz \<le> i \<and> i div PAGE_SIZE = sz div PAGE_SIZE then 0 else byte_of F m j i)"
  proof (cases "page_at d ?idx")
    case None
    then show ?thesis using inv k by (auto simp: zero_tail_def byte_of_held held_def)
  next
    case (Some pa)
    then have h: "held F k ?idx = Some pa" using k by (simp add: held_def)
    note st = store_bytes_spec [OF inv h, of ?po "replicate (PAGE_SIZE - ?po) 0"]
    have "byte_of F (zero_tail sz d m) = patch k sz (replicate (PAGE_SIZE - ?po) 0) (byte_of F m)"
      using st(2) po Some by (simp add: zero_tail_def)
    moreover have "pages_inv F (zero_tail sz d m)" using st(1) po(1) Some by (simp add: zero_tail_def)
    ultimately show ?thesis using in_page by (auto simp: patch_def)
  qed
  then show "pages_inv F (zero_tail sz d m)"
    "byte_of F (zero_tail sz d m) j i =
       (if j = k \<and> sz \<le> i \<and> i div PAGE_SIZE = sz div PAGE_SIZE then 0 else byte_of F m j i)" by blast+
qed

lemma data_truncate_spec:
  assumes inv: "files_inv F m" and k: "F k = Some d" and small: "sz + 4095 < 2 ^ 64"
    and t: "data_truncate sz (d, m) = (d', m')"
  shows "files_inv (F(k \<mapsto> d')) m'" "td_size d' = sz"
    "byte_of (F(k \<mapsto> d')) m' j i = (if j = k \<and> sz \<le> i then 0 else byte_of F m j i)"
proof -
  let ?n = "(sz + 4095) div 4096"
  obtain d1 m1 where dr: "drop_pages ?n (d, m) = (d1, m1)" by (cases "drop_pages ?n (d, m)") auto
  have pinv: "pages_inv F m" and tz: "tails_zero F m" using inv by (simp_all add: files_inv_def)
  note p = drop_pages_spec [OF pinv k dr]
  let ?F = "F(k \<mapsto> d1)" and ?m = "if sz < td_size d \<and> sz mod PAGE_SIZE \<noteq> 0 then zero_tail sz d1 m1 else m1"
  have e: "d' = d1\<lparr>td_size := sz\<rparr>" "m' = ?m"
    using t small dr by (auto simp: data_truncate_def wadd_def Let_def)
  have pages: "x div PAGE_SIZE < ?n \<longleftrightarrow> x div PAGE_SIZE * PAGE_SIZE < sz" for x
    by (simp add: PAGE_SIZE_def less_eq_div_iff_mult_less_eq Suc_le_eq [symmetric])
  have b1: "byte_of ?F m1 j i = (if j = k \<and> sz \<le> i div PAGE_SIZE * PAGE_SIZE then 0 else byte_of F m j i)" for j i
    using p(2) [of "i div PAGE_SIZE"] k pages [of i] unfolding byte_of_held p(4) by (auto simp: held_def)
  have b2: "byte_of ?F ?m j i = (if j = k \<and> sz \<le> i then 0 else byte_of F m j i)" for j i
  proof (cases "j = k \<and> sz \<le> i \<and> i div PAGE_SIZE * PAGE_SIZE < sz")
    case True
    then have "i div PAGE_SIZE * PAGE_SIZE \<le> sz" "sz div PAGE_SIZE \<le> i div PAGE_SIZE" by (simp_all add: div_le_mono)
    moreover from this(1) have "i div PAGE_SIZE \<le> sz div PAGE_SIZE"
      by (simp add: less_eq_div_iff_mult_less_eq PAGE_SIZE_def)
    ultimately have d: "i div PAGE_SIZE = sz div PAGE_SIZE" by simp
    then have mo: "sz mod PAGE_SIZE \<noteq> 0" using True by (metis add.right_neutral div_mult_mod_eq less_irrefl)
    show ?thesis
    proof (cases "sz < td_size d")
      case cut: True
      then show ?thesis using True mo d zero_tail_spec(2) [OF p(1) _ mo, of k d1 j i] by simp
    next
      case False
      then have "byte_of F m k i = 0" using tz k True by (simp add: tails_zero_byte_of)
      then show ?thesis using False True b1 [of j i] by simp
    qed
  next
    case False
    moreover have "i div PAGE_SIZE * PAGE_SIZE \<le> i" by (rule div_times_less_eq_dividend)
    ultimately have "byte_of ?F m1 j i = (if j = k \<and> sz \<le> i then 0 else byte_of F m j i)"
      unfolding b1 by (meson not_le order.trans)
    then show ?thesis using zero_tail_spec(2) [OF p(1), of k d1 sz j i] by auto
  qed
  show sz: "td_size d' = sz" using e(1) by simp
  have same: "held (F(k \<mapsto> d')) j x = held ?F j x" for j x using e(1) by simp
  show b: "byte_of (F(k \<mapsto> d')) m' j i = (if j = k \<and> sz \<le> i then 0 else byte_of F m j i)" for j i
    using b2 [of j i, folded e(2)] e(1) by (cases "j = k"; cases "sz \<le> i") simp_all
  have "pages_inv ?F m'" using p(1) zero_tail_spec(1) [OF p(1), of k d1 sz] e(2) by simp
  then have "pages_inv (F(k \<mapsto> d')) m'" using pages_inv_same same by blast
  then show "files_inv (F(k \<mapsto> d')) m'"
    using inv small unfolding files_inv_def tails_zero_byte_of b by (auto simp: sz)
qed

lemma data_drop_spec:
  assumes inv: "files_inv F m" and k: "F k = Some d"
  shows "files_inv (F(k := None)) (data_drop d m)"
    "j \<noteq> k \<Longrightarrow> byte_of (F(k := None)) (data_drop d m) j i = byte_of F m j i"
proof -
  have pinv: "pages_inv F m" using inv by (simp add: files_inv_def)
  let ?d = "d\<lparr>td_pages := []\<rparr>" and ?m = "data_drop d m"
  have "drop_pages 0 (d, m) = (?d, ?m)" by (cases "td_pages d") (auto simp: drop_pages_def data_drop_def)
  note p = drop_pages_spec [OF pinv k this]
  have none: "held (F(k \<mapsto> ?d)) j x = held (F(k := None)) j x" for j x by (simp add: held_def page_at_def)
  have pn: "pages_inv (F(k := None)) ?m" by (rule pages_inv_same [OF p(1) none [symmetric]])
  show b: "byte_of (F(k := None)) ?m j i = byte_of F m j i" if "j \<noteq> k" for j i
    unfolding byte_of_held p(4) using that by (simp add: held_def)
  have "byte_of (F(k := None)) ?m j i = 0" if "(F(k := None)) j = Some dj" "td_size dj \<le> i" for j dj i
  proof -
    have "j \<noteq> k" "F j = Some dj" using that(1) by (auto split: if_splits)
    then show ?thesis using b inv that(2) by (simp add: files_inv_def tails_zero_byte_of)
  qed
  then show "files_inv (F(k := None)) ?m"
    using pn inv unfolding files_inv_def tails_zero_byte_of by (auto split: if_splits)
qed

text \<open>A page taken for a mapping: it is the page that reads and writes of the file use.\<close>

lemma data_get_page_spec:
  assumes inv: "pages_inv F m" and k: "F k = Some d" and g: "data_get_page idx (d, m) = (Inr pa, d', m')"
    and few: "\<forall>f < nframes m. unat (refs m f) + 2 < 2 ^ 32"
  shows "pages_inv (F(k \<mapsto> d')) m'" "page_at d' idx = Some pa" "byte_of (F(k \<mapsto> d')) m' = byte_of F m"
    "2 \<le> unat (refs m' (pa div FRAME))"
proof -
  obtain p m1 where g': "page_for idx True (d, m) = (Inr p, d', m1)" "pa = the p" "m' = mc_ref_inc pa m1"
    using g by (auto simp: data_get_page_def split: prod.splits sum.splits)
  have "pages_inv (F(k \<mapsto> d')) m' \<and> page_at d' idx = Some pa \<and> byte_of (F(k \<mapsto> d')) m' = byte_of F m
      \<and> 2 \<le> unat (refs m' (pa div FRAME))"
  proof (cases rule: page_for_alloc [OF inv k, of idx])
    case (1 d1)
    then show ?thesis using g' by simp
  next
    case p: (2 pa1 d1 m2)
    then have e: "pa1 = pa" "d1 = d'" "m2 = m1" using g' by auto
    note q = p(2-5) [unfolded e]
    have ok: "frame_ok m1 pa" using pages_invD(2) [OF q(1), of k idx pa] q(2) by simp
    note i = mc_ref_inc_spec [OF pages_invD(1) [OF q(1)], of pa]
    have c: "unat (refs m1 (pa div FRAME)) + 1 < 2 ^ 32"
    proof (cases "page_at d idx")
      case (Some x)
      then have "m1 = m" using g'(1) by (auto simp: page_for_def Let_def grow_pages_nth)
      then show ?thesis using few ok by (auto simp: frame_ok_def dest!: spec [of _ "pa div FRAME"])
    next
      case None
      show ?thesis
      proof (cases rule: mc_alloc_zeroed_cases [OF pages_invD(1) [OF inv]])
        case 1
        then show ?thesis using None g'(1) by (simp add: page_for_def Let_def grow_pages_nth)
      next
        case f: (2 pf mf)
        have "pf = pa" "mf = m1" using f(1) None g'(1,2) by (auto simp: page_for_def Let_def grow_pages_nth)
        then show ?thesis using f(7) by simp
      qed
    qed
    have r: "refs m' = (refs m1)(pa div FRAME := refs m1 (pa div FRAME) + 1)"
      using i(1) ok g'(3) by (simp add: frame_ok_def)
    have n0: "unat (refs m1 (pa div FRAME)) \<noteq> 0" using ok by (simp add: frame_ok_def unat_eq_0)
    have u: "unat (refs m1 (pa div FRAME) + 1) = unat (refs m1 (pa div FRAME)) + 1" by (rule unat_inc [OF c])
    have nz: "refs m1 (pa div FRAME) + 1 \<noteq> 0" using u by (metis Suc_eq_plus1 nat.distinct(1) unat_0)
    have "frame_ok m' x" if "frame_ok m1 x" for x
      using that i(2,4) nz r unfolding frame_ok_def g'(3) by (auto split: if_splits)
    then have "pages_inv (F(k \<mapsto> d')) m'" using q(1) i(5) g'(3) unfolding pages_inv_def by blast
    moreover have "byte_of (F(k \<mapsto> d')) m' = byte_of (F(k \<mapsto> d')) m1"
      unfolding fun_eq_iff byte_of_held g'(3) i(4) by simp
    ultimately show ?thesis using q u n0 by (simp add: r fun_eq_iff)
  qed
  then show "pages_inv (F(k \<mapsto> d')) m'" "page_at d' idx = Some pa" "byte_of (F(k \<mapsto> d')) m' = byte_of F m"
    "2 \<le> unat (refs m' (pa div FRAME))" by blast+
qed

section \<open>Files are byte arrays\<close>

text \<open>The operations that change files, and what they mean for a size and a byte at each position.\<close>

datatype file_op = FWrite nat nat "u8 list" | FTruncate nat nat

fun files_run :: "file_op list \<Rightarrow> files \<times> machine \<Rightarrow> (files \<times> machine) option" where
  "files_run [] s = Some s"
| "files_run (FWrite k off bs # ops) (F, m) =
     (case F k of
        None \<Rightarrow> None
      | Some d \<Rightarrow>
          (case data_write_at off bs (d, m) of
             (Inl e, _) \<Rightarrow> None
           | (Inr _, d', m') \<Rightarrow> files_run ops (F(k \<mapsto> d'), m')))"
| "files_run (FTruncate k sz # ops) (F, m) =
     (case F k of
        None \<Rightarrow> None
      | Some d \<Rightarrow> (case data_truncate sz (d, m) of (d', m') \<Rightarrow> files_run ops (F(k \<mapsto> d'), m')))"

type_synonym byte_array = "nat \<times> (nat \<Rightarrow> u8)"

fun spec_step :: "file_op \<Rightarrow> (nat \<Rightarrow> byte_array) \<Rightarrow> nat \<Rightarrow> byte_array" where
  "spec_step (FWrite k off bs) A =
     A(k := (max (fst (A k)) (off + length bs), \<lambda>i. if off \<le> i \<and> i < off + length bs then bs ! (i - off) else snd (A k) i))"
| "spec_step (FTruncate k sz) A = A(k := (sz, \<lambda>i. if i < sz then snd (A k) i else 0))"

definition abs_files :: "files \<Rightarrow> machine \<Rightarrow> nat \<Rightarrow> byte_array" where
  "abs_files F m k = (case F k of Some d \<Rightarrow> td_size d | None \<Rightarrow> 0, byte_of F m k)"

fun op_small :: "file_op \<Rightarrow> bool" where
  "op_small (FWrite k off bs) \<longleftrightarrow> off + length bs < 2 ^ 64"
| "op_small (FTruncate k sz) \<longleftrightarrow> sz + 4095 < 2 ^ 64"

lemma files_run_refines:
  assumes "files_inv F m" "list_all op_small ops" "files_run ops (F, m) = Some (F', m')"
  shows "files_inv F' m' \<and> dom F' = dom F \<and> abs_files F' m' = fold spec_step ops (abs_files F m)"
  using assms
proof (induction ops arbitrary: F m)
  case (Cons op ops)
  have step: "files_inv F1 m1 \<Longrightarrow> files_run ops (F1, m1) = Some (F', m') \<Longrightarrow> dom F1 = dom F \<Longrightarrow>
      abs_files F1 m1 = spec_step op (abs_files F m) \<Longrightarrow> ?case" for F1 m1
    using Cons.IH [of F1 m1] Cons.prems(2) by simp
  show ?case
  proof (cases op)
    case (FWrite k off bs)
    then obtain d where k: "F k = Some d" using Cons.prems(3) by (auto split: option.splits)
    obtain r d1 m1 where w: "data_write_at off bs (d, m) = (r, d1, m1)" by (metis prod_cases3)
    have small: "off + length bs < 2 ^ 64" using Cons.prems(2) FWrite by simp
    have ok: "r \<noteq> Inl ENOSPC" and run: "files_run ops (F(k \<mapsto> d1), m1) = Some (F', m')"
      using Cons.prems(3) FWrite k w by (auto split: sum.splits)
    have spec: "files_inv (F(k \<mapsto> d1)) m1 \<and> td_size d1 = max (td_size d) (off + length bs)
        \<and> byte_of (F(k \<mapsto> d1)) m1 = patch k off bs (byte_of F m)"
      using data_write_at_spec [OF Cons.prems(1) k small w] ok by blast
    have "byte_of (F(k \<mapsto> d1)) m1 j = (if j = k then (\<lambda>i. if off \<le> i \<and> i < off + length bs then bs ! (i - off) else byte_of F m k i)
        else byte_of F m j)" for j
      using spec by (auto simp: patch_def fun_eq_iff)
    then have "abs_files (F(k \<mapsto> d1)) m1 j = spec_step op (abs_files F m) j" for j
      using FWrite k spec by (simp only: abs_files_def spec_step.simps fun_upd_apply fst_conv snd_conv) simp
    then have "abs_files (F(k \<mapsto> d1)) m1 = spec_step op (abs_files F m)" by (rule ext)
    moreover have "dom (F(k \<mapsto> d1)) = dom F" using k by auto
    ultimately show ?thesis using step [OF _ run] spec by blast
  next
    case (FTruncate k sz)
    then obtain d where k: "F k = Some d" using Cons.prems(3) by (auto split: option.splits)
    obtain d1 m1 where t: "data_truncate sz (d, m) = (d1, m1)" by (metis surj_pair)
    have small: "sz + 4095 < 2 ^ 64" using Cons.prems(2) FTruncate by simp
    have run: "files_run ops (F(k \<mapsto> d1), m1) = Some (F', m')" using Cons.prems(3) FTruncate k t by simp
    note spec = data_truncate_spec [OF Cons.prems(1) k small t]
    have "byte_of (F(k \<mapsto> d1)) m1 j = (if j = k then (\<lambda>i. if i < sz then byte_of F m k i else 0) else byte_of F m j)" for j
      unfolding fun_eq_iff spec(3) by auto
    then have "abs_files (F(k \<mapsto> d1)) m1 j = spec_step op (abs_files F m) j" for j
      using FTruncate k spec(2) by (simp only: abs_files_def spec_step.simps fun_upd_apply fst_conv snd_conv) simp
    then have "abs_files (F(k \<mapsto> d1)) m1 = spec_step op (abs_files F m)" by (rule ext)
    moreover have "dom (F(k \<mapsto> d1)) = dom F" using k by auto
    ultimately show ?thesis using step [OF spec(1) run] by blast
  qed
qed simp

text \<open>
  C20. The in-memory files are byte arrays. Over any sequence of writes and truncations of any number of
  files in which no write runs out of memory (see \<open>failed_write_reappears\<close>) and no end of a write reaches
  \<open>2 ^ 64\<close> and no new size its last page (see \<open>truncate_near_top_discards\<close>), every file has exactly the size and the bytes of an array on which the same
  operations are done (holes and the part regained by growing a file read as zero, no write shows
  in another file), a read at any offset returns exactly the bytes of that array up to the end of
  the file, and the frames stay consistent with the allocator.
\<close>

theorem files_are_byte_arrays:
  assumes "files_inv F m" "list_all op_small ops" "files_run ops (F, m) = Some (F', m')" "F' k = Some d"
    "fold spec_step ops (abs_files F m) k = (sz, content)"
  shows "td_size d = sz \<and> data_read_at off n (d, m') = Inr (map content [off..<min sz (off + n)]) \<and> files_inv F' m'"
proof -
  note r = files_run_refines [OF assms(1-3)]
  have "abs_files F' m' k = (sz, content)" using r assms(5) by simp
  then have e: "td_size d = sz" "content = page_byte d m'" using assms(4) by (auto simp: abs_files_def byte_of_def fun_eq_iff)
  have "pages_inv F' m'" "td_size d < 2 ^ 64" using r assms(4) by (auto simp: files_inv_def)
  then show ?thesis using data_read_at_spec [where F = F' and k = k and d = d and m = m'] assms(4) e r by simp
qed

text \<open>One empty file on the machine of the other examples, which has two free frames.\<close>

definition demo_files :: files where
  "demo_files = (\<lambda>_. None)(7 \<mapsto> data_new)"

lemma demo_files_inv: "files_inv demo_files (demo_machine 0)"
  using demo_machine_facts(3) [of 0]
  by (auto simp: files_inv_def pages_inv_def tails_zero_def demo_files_def data_new_def held_def page_at_def page_byte_def split: if_splits)

lemma demo_write: "\<exists>F' m'. files_run [FWrite 7 2 [9]] (demo_files, demo_machine 0) = Some (F', m') \<and> F' 7 \<noteq> None"
proof -
  have p: "pages_inv demo_files (demo_machine 0)" using demo_files_inv by (simp add: files_inv_def)
  have k: "demo_files 7 = Some data_new" by (simp add: demo_files_def)
  have w: "wadd 2 0 = 2" "(2 :: nat) div PAGE_SIZE = 0" "(2 :: nat) mod PAGE_SIZE = 2" "min (PAGE_SIZE - 2) (Suc 0) = 1"
    by (simp_all add: wadd_def PAGE_SIZE_def)
  show ?thesis
  proof (cases rule: page_for_alloc [OF p k, of 0])
    case (1 d')
    then show ?thesis using demo_machine_facts(2) [of 0] by simp
  next
    case (2 pa d' m')
    then have "write_loop 2 [9] 0 (data_new, demo_machine 0) = (Inr (), d', store_bytes pa 2 [9] m')"
      by (subst write_loop.simps) (simp add: w Let_def write_loop.simps [of 2 "[9]" "Suc 0"])
    then show ?thesis by (simp add: k data_write_at_def Let_def)
  qed
qed

theorem files_are_byte_arrays_witness:
  "\<exists>F' m' d. files_run [FWrite 7 2 [9]] (demo_files, demo_machine 0) = Some (F', m') \<and> F' 7 = Some d
     \<and> data_read_at 0 10 (d, m') = Inr [0, 0, 9]"
proof -
  obtain F' m' d where r: "files_run [FWrite 7 2 [9]] (demo_files, demo_machine 0) = Some (F', m')" "F' 7 = Some d"
    using demo_write by auto
  have "fold spec_step [FWrite 7 2 [9]] (abs_files demo_files (demo_machine 0)) 7
      = (3, \<lambda>i. if 2 \<le> i \<and> i < 3 then [9] ! (i - 2) else 0)"
    by (simp add: abs_files_def byte_of_def demo_files_def data_new_def page_byte_def page_at_def fun_eq_iff)
  from files_are_byte_arrays [OF demo_files_inv _ r this, of 0 10] show ?thesis
    using r by (auto simp: upt_rec)
qed

text \<open>
  A write that runs out of memory has stored its first bytes without counting them in the size. When
  such a file grows later, the bytes of the failed write show up where zeros should be: here the
  file has one byte and one page, the write of two bytes crosses into a second page.
\<close>

theorem failed_write_reappears:
  assumes inv: "files_inv F m" and k: "F k = Some d" and d: "page_at d 0 = Some pa" "page_at d 1 = None" "td_size d = 1"
    and full: "avail m = {}"
  shows "\<exists>d' m'. data_write_at 4095 [b, c] (d, m) = (Inl ENOSPC, d', m') \<and> td_size d' = 1
     \<and> data_read_at 0 4096 (d', m') = Inr [page_byte d m 0]
     \<and> data_read_at 4095 1 (data_truncate 4096 (d', m')) = Inr [b]"
proof -
  have fo: "frames_ok m" and p: "pages_inv F m" using inv by (auto simp: files_inv_def pages_inv_def)
  let ?d = "grow_pages 0 d" and ?m = "store_bytes pa 4095 [b] m"
  let ?d' = "grow_pages 1 ?d"
  have h: "held F k 0 = Some pa" using k d by (simp add: held_def)
  note st = store_bytes_spec [OF p h, of 4095 "[b]", unfolded PAGE_SIZE_def, simplified]
  have len: "length (mc_mem ?m (pa div FRAME)) = PAGE_SIZE" if "page_at ?d' i = Some pa" for i pa
    using that k pages_invD(2) [OF st(1), of k i pa] by (simp add: held_def frame_ok_def)
  have al: "mc_alloc_zeroed ?m = (None, ?m)"
  proof (cases rule: mc_alloc_zeroed_cases [OF pages_invD(1) [OF st(1)]])
    case (2 pa m')
    then show ?thesis using full by (simp add: avail_def store_bytes_def)
  qed simp
  have one: "page_for 0 True (d, m) = (Inr (Some pa), ?d, m)"
    using d by (simp add: page_for_def Let_def grow_pages_nth)
  have two: "page_for 1 True (?d, ?m) = (Inl ENOSPC, ?d', ?m)"
    using d al by (simp add: page_for_def Let_def grow_pages_nth del: One_nat_def)
  have "write_loop 4095 [b, c] 0 (d, m) = (Inl ENOSPC, ?d', ?m)"
    using one two by (simp add: write_loop.simps [of 4095 "[b, c]"] wadd_def PAGE_SIZE_def Let_def)
  then have w: "data_write_at 4095 [b, c] (d, m) = (Inl ENOSPC, ?d', ?m)" by (simp add: data_write_at_def)
  have pb: "page_byte ?d' ?m i = (if i = 4095 then b else page_byte d m i)" for i
  proof -
    have "page_byte ?d' ?m i = byte_of F ?m k i" using k by (simp add: byte_of_def page_byte_def)
    then show ?thesis using st(2) k by (auto simp: patch_def byte_of_def)
  qed
  have r1: "data_read_at 0 4096 (?d', ?m) = Inr [page_byte d m 0]"
    using read_loop_spec [of ?d' ?m 0 1 0, OF len] d(3) pb [of 0] by (simp add: data_read_at_def)
  have tr: "data_truncate 4096 (?d', ?m) = ((fst (drop_pages 1 (?d', ?m)))\<lparr>td_size := 4096\<rparr>, snd (drop_pages 1 (?d', ?m)))"
    using d(3) by (simp add: data_truncate_def wadd_def PAGE_SIZE_def Let_def)
  obtain d2 m2 where dr: "drop_pages 1 (?d', ?m) = (d2, m2)" by (metis surj_pair)
  have "pages_inv (F(k \<mapsto> ?d')) ?m" using st(1) by (rule pages_inv_same) (use k in \<open>simp add: held_def\<close>)
  note q = drop_pages_spec [OF this _ dr]
  have p2: "page_byte d2 m2 4095 = b"
    using q(2) [of k 0] q(4) [of k] pb [of 4095] d(1) by (simp add: page_byte_def PAGE_SIZE_def)
  have "data_read_at 4095 1 (d2\<lparr>td_size := 4096\<rparr>, m2) = Inr [b]"
  proof -
    have "length (mc_mem m2 (pa div FRAME)) = PAGE_SIZE" if "page_at (d2\<lparr>td_size := 4096\<rparr>) i = Some pa" for i pa
      using that q(2) [of k i] q(4) [of k] len by (simp split: if_splits)
    from read_loop_spec [of "d2\<lparr>td_size := 4096\<rparr>" m2 4095 1 0, OF this] show ?thesis
      using p2 by (simp add: data_read_at_def)
  qed
  then show ?thesis using w r1 tr dr d(3) by auto
qed

text \<open>
  Truncating to a length within 4095 of the top of the address range rounds to zero pages: the
  contents are gone although the file is reported to have grown.
\<close>

theorem truncate_near_top_discards:
  assumes "2 ^ 64 - 4095 \<le> sz" "sz < 2 ^ 64"
  shows "td_pages (fst (data_truncate sz (d, m))) = [] \<and> td_size (fst (data_truncate sz (d, m))) = sz"
proof -
  have "wadd sz 4095 < 4096"
  proof -
    have "wadd sz 4095 = sz + 4095 - 2 ^ 64" using assms by (simp add: wadd_def mod_if)
    then show ?thesis using assms by simp
  qed
  then show ?thesis by (auto simp: data_truncate_def drop_pages_def Let_def)
qed

text \<open>A write of no bytes past the end grows the file.\<close>

theorem empty_write_grows:
  assumes "td_size d < off" "off < 2 ^ 64"
  shows "data_write_at off [] (d, m) = (Inr 0, d\<lparr>td_size := off\<rparr>, m)"
  using assms by (simp add: data_write_at_def write_loop.simps wadd_def Let_def)

end
