(* ===== verification/Vfs.thy ===== *)
theory Vfs
  imports Addrspace Paths
begin

text \<open>
  The core types of the file layer, src/research/kernel-rs/kernel/src/fs/vfs.rs: kinds of inodes and
  their encodings, device numbers, open file descriptions, the operations of regular files on any
  inode (\<open>RegularOps\<close>, \<open>read_all\<close>), and the vector reads and writes of syscall/fs.rs above them.

  The \<open>Inode\<close> trait is the record \<open>inode_trait\<close> of the functions the operations call, over a state of
  any type; what a file system promises of them is the locale \<open>byte_file\<close>.
\<close>

section \<open>Kinds and device numbers\<close>

definition S_IFMT :: u32 where "S_IFMT = 0xF000"
definition S_IFSOCK :: u32 where "S_IFSOCK = 0xC000"
definition S_IFLNK :: u32 where "S_IFLNK = 0xA000"
definition S_IFREG :: u32 where "S_IFREG = 0x8000"
definition S_IFBLK :: u32 where "S_IFBLK = 0x6000"
definition S_IFDIR :: u32 where "S_IFDIR = 0x4000"
definition S_IFCHR :: u32 where "S_IFCHR = 0x2000"
definition S_IFIFO :: u32 where "S_IFIFO = 0x1000"

fun mode_bits :: "kind \<Rightarrow> u32" where
  "mode_bits File = S_IFREG"
| "mode_bits Dir = S_IFDIR"
| "mode_bits Symlink = S_IFLNK"
| "mode_bits CharDev = S_IFCHR"
| "mode_bits BlockDev = S_IFBLK"
| "mode_bits Fifo = S_IFIFO"
| "mode_bits Socket = S_IFSOCK"

fun dtype :: "kind \<Rightarrow> u8" where
  "dtype File = 8"
| "dtype Dir = 4"
| "dtype Symlink = 10"
| "dtype CharDev = 2"
| "dtype BlockDev = 6"
| "dtype Fifo = 1"
| "dtype Socket = 12"

definition from_mode :: "u32 \<Rightarrow> kind" where
  "from_mode mode =
     (let t = mode AND S_IFMT in
      if t = S_IFDIR then Dir
      else if t = S_IFLNK then Symlink
      else if t = S_IFCHR then CharDev
      else if t = S_IFBLK then BlockDev
      else if t = S_IFIFO then Fifo
      else if t = S_IFSOCK then Socket
      else File)"

definition makedev :: "u32 \<Rightarrow> u32 \<Rightarrow> u64" where
  "makedev mj mi =
     push_bit 8 (ucast mj AND 0xfff) OR (ucast mi AND 0xff) OR push_bit 12 (ucast mi AND NOT 0xff)
       OR push_bit 32 (ucast mj AND NOT 0xfff)"

definition major :: "u64 \<Rightarrow> u32" where
  "major dev = ucast ((drop_bit 8 dev AND 0xfff) OR (drop_bit 32 dev AND NOT 0xfff))"

definition minor :: "u64 \<Rightarrow> u32" where
  "minor dev = ucast ((dev AND 0xff) OR (drop_bit 12 dev AND NOT 0xff))"

section \<open>Open files\<close>

definition O_ACCMODE :: u32 where "O_ACCMODE = 3"
definition O_RDONLY :: u32 where "O_RDONLY = 0"
definition O_WRONLY :: u32 where "O_WRONLY = 1"
definition O_RDWR :: u32 where "O_RDWR = 2"
definition O_APPEND :: u32 where "O_APPEND = 0x400"
definition O_NONBLOCK :: u32 where "O_NONBLOCK = 0x800"

record 'i vfile =
  f_inode :: "'i option"
  f_flags :: u32
  f_pos :: nat

definition file_new :: "'i option \<Rightarrow> u32 \<Rightarrow> 'i vfile" where
  "file_new inode flags = \<lparr>f_inode = inode, f_flags = flags, f_pos = 0\<rparr>"

definition nonblock :: "'i vfile \<Rightarrow> bool" where
  "nonblock f \<longleftrightarrow> f_flags f AND O_NONBLOCK \<noteq> 0"

definition readable :: "'i vfile \<Rightarrow> bool" where
  "readable f \<longleftrightarrow> (let m = f_flags f AND O_ACCMODE in m = O_RDONLY \<or> m = O_RDWR)"

definition writable :: "'i vfile \<Rightarrow> bool" where
  "writable f \<longleftrightarrow> (let m = f_flags f AND O_ACCMODE in m = O_WRONLY \<or> m = O_RDWR)"

text \<open>The methods of \<open>Inode\<close> that regular files call.\<close>

record ('i, 's) inode_trait =
  it_kind :: "'i \<Rightarrow> 's \<Rightarrow> kind"
  it_size :: "'i \<Rightarrow> 's \<Rightarrow> nat"
  it_read_at :: "'i \<Rightarrow> nat \<Rightarrow> nat \<Rightarrow> 's \<Rightarrow> u8 list kresult \<times> 's"
  it_write_at :: "'i \<Rightarrow> nat \<Rightarrow> u8 list \<Rightarrow> 's \<Rightarrow> nat kresult \<times> 's"

definition reg_read :: "('i, 's) inode_trait \<Rightarrow> nat \<Rightarrow> 'i vfile \<Rightarrow> 's \<Rightarrow> u8 list kresult \<times> 'i vfile \<times> 's" where
  "reg_read T n f s =
     (case f_inode f of
        None \<Rightarrow> (Inl EBADF, f, s)
      | Some i \<Rightarrow>
          if it_kind T i s = Dir then (Inl EISDIR, f, s)
          else case it_read_at T i (f_pos f) n s of
            (Inl e, s') \<Rightarrow> (Inl e, f, s')
          | (Inr bs, s') \<Rightarrow> (Inr bs, f\<lparr>f_pos := wadd (f_pos f) (length bs)\<rparr>, s'))"

definition reg_write :: "('i, 's) inode_trait \<Rightarrow> u8 list \<Rightarrow> 'i vfile \<Rightarrow> 's \<Rightarrow> nat kresult \<times> 'i vfile \<times> 's" where
  "reg_write T buf f s =
     (case f_inode f of
        None \<Rightarrow> (Inl EBADF, f, s)
      | Some i \<Rightarrow>
          if it_kind T i s = Dir then (Inl EISDIR, f, s)
          else
            (let pos = (if f_flags f AND O_APPEND \<noteq> 0 then it_size T i s else f_pos f) in
             case it_write_at T i pos buf s of
               (Inl e, s') \<Rightarrow> (Inl e, f, s')
             | (Inr n, s') \<Rightarrow> (Inr n, f\<lparr>f_pos := wadd pos n\<rparr>, s')))"

definition reg_pread :: "('i, 's) inode_trait \<Rightarrow> nat \<Rightarrow> nat \<Rightarrow> 'i vfile \<Rightarrow> 's \<Rightarrow> u8 list kresult \<times> 's" where
  "reg_pread T n off f s = (case f_inode f of None \<Rightarrow> (Inl EBADF, s) | Some i \<Rightarrow> it_read_at T i off n s)"

definition reg_pwrite :: "('i, 's) inode_trait \<Rightarrow> u8 list \<Rightarrow> nat \<Rightarrow> 'i vfile \<Rightarrow> 's \<Rightarrow> nat kresult \<times> 's" where
  "reg_pwrite T buf off f s = (case f_inode f of None \<Rightarrow> (Inl EBADF, s) | Some i \<Rightarrow> it_write_at T i off buf s)"

text \<open>\<open>File::read\<close> and \<open>File::write\<close> on a regular file.\<close>

definition file_read :: "('i, 's) inode_trait \<Rightarrow> nat \<Rightarrow> 'i vfile \<Rightarrow> 's \<Rightarrow> u8 list kresult \<times> 'i vfile \<times> 's" where
  "file_read T n f s = (if \<not> readable f then (Inl EBADF, f, s) else reg_read T n f s)"

definition file_write :: "('i, 's) inode_trait \<Rightarrow> u8 list \<Rightarrow> 'i vfile \<Rightarrow> 's \<Rightarrow> nat kresult \<times> 'i vfile \<times> 's" where
  "file_write T buf f s = (if \<not> writable f then (Inl EBADF, f, s) else reg_write T buf f s)"

text \<open>Casts between \<open>u64\<close> and \<open>i64\<close>; offsets of \<open>lseek\<close> are \<open>i64\<close>.\<close>

definition as_i64 :: "nat \<Rightarrow> int" where
  "as_i64 n = (if n < 2 ^ 63 then int n else int n - 2 ^ 64)"

definition as_u64 :: "int \<Rightarrow> nat" where
  "as_u64 z = nat (z mod 2 ^ 64)"

abbreviation EOVERFLOW :: errno where "EOVERFLOW \<equiv> Errno 75"
abbreviation ESPIPE :: errno where "ESPIPE \<equiv> Errno 29"

definition lseek_to :: "int \<Rightarrow> int \<Rightarrow> 'i vfile \<Rightarrow> nat kresult \<times> 'i vfile" where
  "lseek_to base off f =
     (let np = base + off in
      if np < - (2 ^ 63) \<or> 2 ^ 63 \<le> np then (Inl EOVERFLOW, f)
      else if np < 0 then (Inl EINVAL, f)
      else (Inr (nat np), f\<lparr>f_pos := nat np\<rparr>))"

definition lseek :: "('i, 's) inode_trait \<Rightarrow> int \<Rightarrow> nat \<Rightarrow> 'i vfile \<Rightarrow> 's \<Rightarrow> nat kresult \<times> 'i vfile" where
  "lseek T off whence f s =
     (case f_inode f of
        None \<Rightarrow> (Inl EBADF, f)
      | Some i \<Rightarrow>
          (if whence = 0 then lseek_to 0 off f
           else if whence = 1 then lseek_to (as_i64 (f_pos f)) off f
           else if whence = 2 then lseek_to (as_i64 (it_size T i s)) off f
           else if whence = 3 \<or> whence = 4 then
             (let sz = as_i64 (it_size T i s) in
              if sz \<le> off then (Inl ENXIO, f)
              else if whence = 3 then (Inr (as_u64 off), f\<lparr>f_pos := as_u64 off\<rparr>)
              else (Inr (as_u64 sz), f\<lparr>f_pos := as_u64 sz\<rparr>))
           else (Inl EINVAL, f)))"

text \<open>The loop of \<open>read_all\<close>: a read may be short, an empty one ends it.\<close>

function read_all_loop :: "('i, 's) inode_trait \<Rightarrow> 'i \<Rightarrow> nat \<Rightarrow> nat \<Rightarrow> u8 list \<Rightarrow> 's \<Rightarrow> u8 list kresult \<times> 's" where
  "read_all_loop T i sz off v s =
     (if off < sz then
        (case it_read_at T i off (sz - off) s of
           (Inl e, s') \<Rightarrow> (Inl e, s')
         | (Inr bs, s') \<Rightarrow> if bs = [] then (Inr v, s') else read_all_loop T i sz (off + length bs) (v @ bs) s')
      else (Inr v, s))"
  by pat_completeness auto
termination by (relation "measure (\<lambda>(T, i, sz, off, v, s). sz - off)") (auto intro!: diff_less_mono2)

declare read_all_loop.simps [simp del]

definition read_all :: "('i, 's) inode_trait \<Rightarrow> 'i \<Rightarrow> 's \<Rightarrow> u8 list kresult \<times> 's" where
  "read_all T i s = read_all_loop T i (it_size T i s) 0 [] s"

section \<open>Vectors of buffers\<close>

text \<open>
  \<open>writev\<close> and \<open>readv\<close> over any file. A buffer of \<open>writev\<close> is the slice it gives or the fault of reading
  it; \<open>wr\<close> and \<open>rd\<close> are the file's own operations on the state.
\<close>

fun writev_loop :: "(u8 list \<Rightarrow> 's \<Rightarrow> nat kresult \<times> 's) \<Rightarrow> nat \<Rightarrow> u8 list kresult list \<Rightarrow> 's \<Rightarrow> nat kresult \<times> 's" where
  "writev_loop wr tot [] s = (Inr tot, s)"
| "writev_loop wr tot (Inl e # vs) s = (Inl e, s)"
| "writev_loop wr tot (Inr bs # vs) s =
     (if bs = [] then writev_loop wr tot vs s
      else case wr bs s of
        (Inl e, s') \<Rightarrow> if 0 < tot then (Inr tot, s') else (Inl e, s')
      | (Inr n, s') \<Rightarrow> if n < length bs then (Inr (tot + n), s') else writev_loop wr (tot + n) vs s')"

fun readv_loop :: "(nat \<Rightarrow> 's \<Rightarrow> u8 list kresult \<times> 's) \<Rightarrow> u8 list \<Rightarrow> nat kresult list \<Rightarrow> 's \<Rightarrow> u8 list kresult \<times> 's" where
  "readv_loop rd acc [] s = (Inr acc, s)"
| "readv_loop rd acc (Inl e # vs) s = (Inl e, s)"
| "readv_loop rd acc (Inr len # vs) s =
     (if len = 0 then readv_loop rd acc vs s
      else case rd len s of
        (Inl e, s') \<Rightarrow> if acc \<noteq> [] then (Inr acc, s') else (Inl e, s')
      | (Inr bs, s') \<Rightarrow> if length bs < len then (Inr (acc @ bs), s') else readv_loop rd (acc @ bs) vs s')"

section \<open>What a file system promises\<close>

text \<open>
  The contract of a regular file \<open>i\<close>: its bytes, read as far as the size reaches, replaced by a
  write that succeeds. The size bound is that of \<open>i64\<close> offsets.
\<close>

locale byte_file =
  fixes T :: "('i, 's) inode_trait"
    and i :: 'i
    and content :: "'s \<Rightarrow> nat \<Rightarrow> u8"
    and ok :: "'s \<Rightarrow> bool"
  assumes kind_law: "ok s \<Longrightarrow> it_kind T i s \<noteq> Dir"
    and read_law: "ok s \<Longrightarrow> it_read_at T i off n s = (Inr (map (content s) [off..<min (it_size T i s) (off + n)]), s)"
    and write_law: "ok s \<Longrightarrow> off + length bs < 2 ^ 63 \<Longrightarrow> it_write_at T i off bs s = (Inr k, s') \<Longrightarrow>
      k = length bs \<and> ok s' \<and> it_size T i s' = max (it_size T i s) (off + length bs)
      \<and> (\<forall>j. content s' j = (if off \<le> j \<and> j < off + length bs then bs ! (j - off) else content s j))"
    and small_law: "ok s \<Longrightarrow> it_size T i s < 2 ^ 64"
begin

lemma write_slice:
  assumes "ok s" "off + length bs < 2 ^ 63" "it_write_at T i off bs s = (Inr k, s')"
  shows "map (content s') [off..<off + length bs] = bs"
  using write_law [OF assms] by (intro nth_equalityI) simp_all

lemma read_all_content:
  assumes "ok s"
  shows "read_all T i s = (Inr (map (content s) [0..<it_size T i s]), s)"
proof (cases "it_size T i s = 0")
  case True
  then show ?thesis by (simp add: read_all_def read_all_loop.simps)
next
  case False
  then show ?thesis
    by (simp add: read_all_def read_all_loop.simps [of T i _ 0] read_law [OF assms] read_all_loop.simps [of T i "it_size T i s" "it_size T i s"])
qed

text \<open>A file opened for both reads back what it wrote.\<close>

lemma write_seek_read:
  assumes s: "ok s" and f: "f_inode f = Some i" "readable f" "writable f" "f_flags f AND O_APPEND = 0"
    and small: "f_pos f + length bs < 2 ^ 63"
    and w: "file_write T bs f s = (Inr k, f1, s1)"
    and l: "lseek T (int (f_pos f)) 0 f1 s1 = (Inr p, f2)"
  shows "file_read T (length bs) f2 s1 = (Inr bs, f2\<lparr>f_pos := f_pos f + length bs\<rparr>, s1) \<and> p = f_pos f"
proof -
  obtain s' where w': "it_write_at T i (f_pos f) bs s = (Inr k, s')" and e: "s1 = s'" "f1 = f\<lparr>f_pos := wadd (f_pos f) k\<rparr>"
    using w f kind_law [OF s] by (auto simp: file_write_def reg_write_def Let_def split: prod.splits sum.splits)
  note law = write_law [OF s small w']
  have f2: "f2 = f\<lparr>f_pos := f_pos f\<rparr>" "p = f_pos f"
    using l e(2) f(1) small by (auto simp: lseek_def lseek_to_def Let_def split: if_splits)
  have "min (it_size T i s1) (f_pos f + length bs) = f_pos f + length bs" using law e(1) by simp
  moreover have "map (content s1) [f_pos f..<f_pos f + length bs] = bs" using write_slice [OF s small w'] e(1) by simp
  moreover have "wadd (f_pos f) (length bs) = f_pos f + length bs" using small by (simp add: wadd_def)
  ultimately show ?thesis
    using f2 f(1,2) law e(1) kind_law [of s1] by (simp add: file_read_def reg_read_def read_law readable_def)
qed


text \<open>With \<open>O_APPEND\<close> a write extends the file whatever its position is.\<close>

lemma append_extends:
  assumes s: "ok s" and f: "f_inode f = Some i" "f_flags f AND O_APPEND \<noteq> 0"
    and small: "it_size T i s + length bs < 2 ^ 63"
    and w: "file_write T bs f s = (Inr k, f1, s1)" and old: "read_all T i s = (Inr xs, s)"
  shows "read_all T i s1 = (Inr (xs @ bs), s1) \<and> f_pos f1 = length (xs @ bs)"
proof -
  let ?n = "it_size T i s"
  obtain s' where w': "it_write_at T i ?n bs s = (Inr k, s')" and e: "s1 = s'" "f1 = f\<lparr>f_pos := wadd ?n k\<rparr>"
    using w f kind_law [OF s] by (auto simp: file_write_def reg_write_def Let_def split: prod.splits sum.splits if_splits)
  note law = write_law [OF s small w']
  have xs: "xs = map (content s) [0..<?n]" using old read_all_content [OF s] by simp
  have sz: "it_size T i s1 = ?n + length bs" using law e(1) by simp
  have upt: "[0..<?n + length bs] = [0..<?n] @ [?n..<?n + length bs]" by (rule upt_add_eq_append) simp
  have old_part: "map (content s1) [0..<?n] = xs" using law e(1) xs by simp
  have new_part: "map (content s1) [?n..<?n + length bs] = bs" using write_slice [OF s small w'] e(1) by simp
  have "read_all T i s1 = (Inr (map (content s1) [0..<?n + length bs]), s1)"
    using read_all_content [of s1] law e(1) sz by simp
  then have "read_all T i s1 = (Inr (xs @ bs), s1)" by (simp only: upt map_append old_part new_part)
  moreover have "wadd ?n k = length (xs @ bs)" using small law xs by (simp add: wadd_def)
  ultimately show ?thesis using e(2) by simp
qed

text \<open>
  \<open>writev\<close> of readable buffers is one write of their concatenation, as far as it goes: when it returns
  the whole length the file holds the old bytes followed by those of all buffers.
\<close>

lemma writev_bytes:
  assumes "ok s" "f_inode f = Some i" "f_flags f AND O_APPEND = 0" "writable f"
    and "f_pos f + length (concat vs) < 2 ^ 63"
    and "writev_loop (\<lambda>bs (f, s). file_write T bs f s) tot (map Inr vs) (f, s)
       = (Inr (tot + length (concat vs)), f1, s1)"
  shows "ok s1 \<and> f_pos f1 = f_pos f + length (concat vs)
    \<and> (\<forall>j. content s1 j = (if f_pos f \<le> j \<and> j < f_pos f + length (concat vs) then concat vs ! (j - f_pos f) else content s j))"
  using assms
proof (induction vs arbitrary: tot f s)
  case (Cons bs vs)
  show ?case
  proof (cases "bs = []")
    case True
    then show ?thesis using Cons.IH [of s f tot] Cons.prems by simp
  next
    case False
    obtain r s' where w: "it_write_at T i (f_pos f) bs s = (r, s')" by (metis surj_pair)
    obtain k where r: "r = Inr k"
    proof (cases r)
      case (Inl e)
      then have False
        using Cons.prems w False kind_law [OF Cons.prems(1)]
        by (auto simp: file_write_def reg_write_def Let_def split: if_splits)
      then show ?thesis ..
    qed
    have small: "f_pos f + length bs < 2 ^ 63" using Cons.prems(5) by simp
    note law = write_law [OF Cons.prems(1) small w [unfolded r]]
    let ?f = "f\<lparr>f_pos := f_pos f + length bs\<rparr>"
    have fw: "file_write T bs f s = (Inr (length bs), ?f, s')"
      using Cons.prems(2-4) w r law small kind_law [OF Cons.prems(1)] by (simp add: file_write_def reg_write_def wadd_def)
    have "ok s1 \<and> f_pos f1 = f_pos ?f + length (concat vs) \<and> (\<forall>j. content s1 j =
        (if f_pos ?f \<le> j \<and> j < f_pos ?f + length (concat vs) then concat vs ! (j - f_pos ?f) else content s' j))"
      using Cons.IH [of s' ?f "tot + length bs"] Cons.prems law fw False by (simp add: writable_def add.assoc)
    then show ?thesis using law by (auto simp: nth_append)
  qed
qed auto

end

section \<open>Encodings\<close>

lemmas S_IF_defs = S_IFMT_def S_IFSOCK_def S_IFLNK_def S_IFREG_def S_IFBLK_def S_IFDIR_def S_IFCHR_def S_IFIFO_def

text \<open>The kind of an inode is recovered from the mode that \<open>stat\<close> reports.\<close>

lemma kind_from_mode: "from_mode (mode_bits k OR (perm AND 0xFFF)) = k"
proof -
  have "(mode_bits k OR (perm AND 0xFFF)) AND S_IFMT = mode_bits k"
  proof -
    have "(perm AND 0xFFF) AND S_IFMT = 0" by (simp add: S_IFMT_def and.assoc)
    moreover have "mode_bits k AND S_IFMT = mode_bits k" by (cases k) (simp_all add: S_IF_defs)
    ultimately show ?thesis by (simp add: bit.conj_disj_distrib2)
  qed
  then show ?thesis by (cases k) (simp_all add: from_mode_def Let_def S_IF_defs)
qed

lemma dtype_inj: "dtype k = dtype k' \<Longrightarrow> k = k'"
  by (cases k; cases k') simp_all

text \<open>Device numbers keep both halves, all 32 bits of each.\<close>

lemma low_masks: "(0xfff :: u64) = mask 12" "(0xff :: u64) = mask 8"
  by (simp_all add: mask_eq_exp_minus_1)

lemma makedev_major_minor: "major (makedev a b) = a" "minor (makedev a b) = b"
proof -
  note bits = bit_simps bit_mask_iff not_less
  have "bit (major (makedev a b)) n \<longleftrightarrow> bit a n" if "n < 32" for n
    unfolding major_def makedev_def low_masks using that by (auto simp: bits simp del: mask_numeral dest: bit_imp_le_length)
  then show "major (makedev a b) = a" by (intro bit_word_eqI) simp
  have "bit (minor (makedev a b)) n \<longleftrightarrow> bit b n" if "n < 32" for n
    unfolding minor_def makedev_def low_masks using that by (auto simp: bits simp del: mask_numeral)
  then show "minor (makedev a b) = b" by (intro bit_word_eqI) simp
qed

section \<open>Seeking\<close>

lemma lseek_to_cases:
  "lseek_to base off f =
     (if 0 \<le> base + off \<and> base + off < 2 ^ 63 then (Inr (nat (base + off)), f\<lparr>f_pos := nat (base + off)\<rparr>)
      else (Inl (if - (2 ^ 63) \<le> base + off \<and> base + off < 2 ^ 63 then EINVAL else EOVERFLOW), f))"
  by (auto simp: lseek_to_def Let_def)

text \<open>
  A negative offset is refused by \<open>SEEK_SET\<close> but not by \<open>SEEK_DATA\<close>: the position becomes a huge number
  that every later access uses.
\<close>

theorem seek_data_negative:
  assumes "f_inode f = Some i" "it_size T i s < 2 ^ 63"
  shows "lseek T (- 1) 0 f s = (Inl EINVAL, f)"
    and "lseek T (- 1) 3 f s = (Inr (2 ^ 64 - 1), f\<lparr>f_pos := 2 ^ 64 - 1\<rparr>)"
  using assms by (simp_all add: lseek_def lseek_to_def as_i64_def as_u64_def Let_def)

end
