(* ===== verification/Tmpfs.thy ===== *)
theory Tmpfs
  imports Tmp_Data Vfs "HOL-Library.List_Lexorder" "HOL-Library.Char_ord"
begin

text \<open>
  The in-memory file system, src/research/kernel-rs/kernel/src/fs/tmpfs.rs: inodes, directories and the
  \<open>Inode\<close> operations, over the file data of \<open>Tmp_Data\<close>. Inodes are kept in a map by their number, which
  stands for the \<open>Arc\<close> pointers of the source; the map holds every inode that is alive. A weak pointer
  gives its inode while that is in the map. \<open>Drop\<close> of an inode is the operation \<open>tmp_drop\<close>, done when
  no directory entry and no open file refers to it any more. A directory is the list of its entries in the key
  order of the \<open>BTreeMap\<close>. The wall clock is an argument. The number of inodes ever made stays below
  \<open>2 ^ 64\<close>, so the counters are naturals.
\<close>

section \<open>Inodes\<close>

record tmp_inode =
  ti_fs_id :: nat
  ti_kind :: kind
  ti_mode :: u32
  ti_rdev :: u64
  ti_nlink :: u32
  ti_mtime :: nat
  ti_data :: tmp_data
  ti_entries :: "(string \<times> nat) list"
  ti_parent :: "nat option"
  ti_link :: string

record tmpfs =
  tf_nodes :: "nat \<Rightarrow> tmp_inode option"
  tf_mach :: machine
  tf_next_ino :: nat
  tf_next_fs :: nat
  tf_anon_fs :: "nat option"

definition inode_new :: "nat \<Rightarrow> kind \<Rightarrow> u32 \<Rightarrow> u64 \<Rightarrow> nat \<Rightarrow> tmp_inode" where
  "inode_new fs_id kind mode rdev now =
     \<lparr>ti_fs_id = fs_id, ti_kind = kind, ti_mode = mode AND 0xFFF, ti_rdev = rdev, ti_nlink = 1, ti_mtime = now,
      ti_data = data_new, ti_entries = [], ti_parent = None, ti_link = ''''\<rparr>"

definition add_node :: "tmp_inode \<Rightarrow> tmpfs \<Rightarrow> nat \<times> tmpfs" where
  "add_node n s = (tf_next_ino s, s\<lparr>tf_nodes := (tf_nodes s)(tf_next_ino s \<mapsto> n), tf_next_ino := tf_next_ino s + 1\<rparr>)"

definition on_node :: "nat \<Rightarrow> (tmp_inode \<Rightarrow> tmp_inode) \<Rightarrow> tmpfs \<Rightarrow> tmpfs" where
  "on_node i g s = s\<lparr>tf_nodes := (tf_nodes s)(i := map_option g (tf_nodes s i))\<rparr>"

definition touch :: "nat \<Rightarrow> nat \<Rightarrow> tmpfs \<Rightarrow> tmpfs" where
  "touch now i s = on_node i (\<lambda>n. n\<lparr>ti_mtime := now\<rparr>) s"

definition upgrade :: "tmpfs \<Rightarrow> nat option \<Rightarrow> nat option" where
  "upgrade s w = (case w of Some p \<Rightarrow> if tf_nodes s p = None then None else Some p | None \<Rightarrow> None)"

definition new_fs :: "nat \<Rightarrow> tmpfs \<Rightarrow> nat \<times> tmpfs" where
  "new_fs now s = add_node (inode_new (tf_next_fs s) Dir 0x1ED 0 now) (s\<lparr>tf_next_fs := tf_next_fs s + 1\<rparr>)"

text \<open>The file system number of unlinked files is drawn once.\<close>

definition anonymous_file :: "nat \<Rightarrow> tmpfs \<Rightarrow> nat \<times> tmpfs" where
  "anonymous_file now s =
     (case tf_anon_fs s of
        Some fsid \<Rightarrow> add_node (inode_new fsid File 0x180 0 now) s
      | None \<Rightarrow>
          add_node (inode_new (tf_next_fs s) File 0x180 0 now)
            (s\<lparr>tf_next_fs := tf_next_fs s + 1, tf_anon_fs := Some (tf_next_fs s)\<rparr>))"

section \<open>Directories\<close>

fun dir_insert :: "string \<Rightarrow> nat \<Rightarrow> (string \<times> nat) list \<Rightarrow> (string \<times> nat) list" where
  "dir_insert name c [] = [(name, c)]"
| "dir_insert name c ((n, d) # es) =
     (if name < n then (name, c) # (n, d) # es
      else if name = n then (name, c) # es
      else (n, d) # dir_insert name c es)"

definition dir_remove :: "string \<Rightarrow> (string \<times> nat) list \<Rightarrow> (string \<times> nat) list" where
  "dir_remove name es = filter (\<lambda>e. fst e \<noteq> name) es"

definition on_entries :: "nat \<Rightarrow> ((string \<times> nat) list \<Rightarrow> (string \<times> nat) list) \<Rightarrow> tmpfs \<Rightarrow> tmpfs" where
  "on_entries i g s = on_node i (\<lambda>n. n\<lparr>ti_entries := g (ti_entries n)\<rparr>) s"

definition entries_of :: "tmpfs \<Rightarrow> nat \<Rightarrow> (string \<times> nat) list" where
  "entries_of s i = (case tf_nodes s i of Some n \<Rightarrow> ti_entries n | None \<Rightarrow> [])"

definition is_dir :: "tmpfs \<Rightarrow> nat \<Rightarrow> bool" where
  "is_dir s i = (case tf_nodes s i of Some n \<Rightarrow> ti_kind n = Dir | None \<Rightarrow> False)"

definition fs_id_of :: "tmpfs \<Rightarrow> nat \<Rightarrow> nat" where
  "fs_id_of s i = (case tf_nodes s i of Some n \<Rightarrow> ti_fs_id n | None \<Rightarrow> 0)"

definition tmp_lookup :: "nat \<Rightarrow> string \<Rightarrow> tmpfs \<Rightarrow> nat kresult" where
  "tmp_lookup i name s =
     (if \<not> is_dir s i then Inl ENOTDIR
      else if name = ''.'' then Inr i
      else if name = ''..'' then
        (case tf_nodes s i of
           Some n \<Rightarrow> (case upgrade s (ti_parent n) of Some p \<Rightarrow> Inr p | None \<Rightarrow> Inr i)
         | None \<Rightarrow> Inl ENOENT)
      else case map_of (entries_of s i) name of Some c \<Rightarrow> Inr c | None \<Rightarrow> Inl ENOENT)"

definition tmp_create :: "nat \<Rightarrow> nat \<Rightarrow> string \<Rightarrow> kind \<Rightarrow> u32 \<Rightarrow> u64 \<Rightarrow> tmpfs \<Rightarrow> nat kresult \<times> tmpfs" where
  "tmp_create now i name kind mode rdev s =
     (if \<not> is_dir s i then (Inl ENOTDIR, s)
      else if name = '''' \<or> name = ''.'' \<or> name = ''..'' then (Inl EINVAL, s)
      else if map_of (entries_of s i) name \<noteq> None then (Inl EEXIST, s)
      else
        (case add_node ((inode_new (fs_id_of s i) kind mode rdev now)\<lparr>ti_parent := Some i\<rparr>) s of
           (c, s') \<Rightarrow> (Inr c, touch now i (on_entries i (dir_insert name c) s'))))"

definition tmp_symlink :: "nat \<Rightarrow> nat \<Rightarrow> string \<Rightarrow> string \<Rightarrow> tmpfs \<Rightarrow> nat kresult \<times> tmpfs" where
  "tmp_symlink now i name target s =
     (case tmp_create now i name Symlink 0x1FF 0 s of
        (Inl e, s') \<Rightarrow> (Inl e, s')
      | (Inr c, s') \<Rightarrow> (Inr c, on_node c (\<lambda>n. n\<lparr>ti_link := target\<rparr>) s'))"

text \<open>An inode of another file system is one that is not in the map.\<close>

definition tmp_link :: "nat \<Rightarrow> string \<Rightarrow> nat \<Rightarrow> tmpfs \<Rightarrow> unit kresult \<times> tmpfs" where
  "tmp_link i name t s =
     (if \<not> is_dir s i then (Inl ENOTDIR, s)
      else if tf_nodes s t = None \<or> fs_id_of s t \<noteq> fs_id_of s i then (Inl EXDEV, s)
      else if is_dir s t then (Inl EPERM, s)
      else if map_of (entries_of s i) name \<noteq> None then (Inl EEXIST, s)
      else (Inr (), on_entries i (dir_insert name t) (on_node t (\<lambda>n. n\<lparr>ti_nlink := ti_nlink n + 1\<rparr>) s)))"

definition tmp_unlink :: "nat \<Rightarrow> nat \<Rightarrow> string \<Rightarrow> tmpfs \<Rightarrow> unit kresult \<times> tmpfs" where
  "tmp_unlink now i name s =
     (if \<not> is_dir s i then (Inl ENOTDIR, s)
      else case map_of (entries_of s i) name of
        None \<Rightarrow> (Inl ENOENT, s)
      | Some c \<Rightarrow>
          if is_dir s c then (Inl EISDIR, s)
          else (Inr (), touch now i (on_node c (\<lambda>n. n\<lparr>ti_nlink := ti_nlink n - 1\<rparr>) (on_entries i (dir_remove name) s))))"

text \<open>
  \<open>rmdir\<close> locks the directory it removes while it holds the lock of the one it removes it from; of a directory
  that holds itself the spin lock is never granted, the result \<open>None\<close>.
\<close>

definition tmp_rmdir :: "nat \<Rightarrow> nat \<Rightarrow> string \<Rightarrow> tmpfs \<Rightarrow> (unit kresult \<times> tmpfs) option" where
  "tmp_rmdir now i name s =
     (if \<not> is_dir s i then Some (Inl ENOTDIR, s)
      else case map_of (entries_of s i) name of
        None \<Rightarrow> Some (Inl ENOENT, s)
      | Some c \<Rightarrow>
          if \<not> is_dir s c then Some (Inl ENOTDIR, s)
          else if c = i then None
          else if entries_of s c \<noteq> [] then Some (Inl ENOTEMPTY, s)
          else Some (Inr (), touch now i (on_entries i (dir_remove name) s)))"

text \<open>
  \<open>rename\<close>. The entry is taken out of the old directory first. When the target is a directory with
  entries it is put back, for which the old directory is locked again while the new one is still
  locked: if they are the same the spin lock is never granted, the result \<open>None\<close>. (The emptiness test
  locks the target, which hangs in the same way if the target is the new directory itself.)
\<close>

definition tmp_rename :: "nat \<Rightarrow> nat \<Rightarrow> string \<Rightarrow> nat \<Rightarrow> string \<Rightarrow> tmpfs \<Rightarrow> (unit kresult \<times> tmpfs) option" where
  "tmp_rename now i old_name nd new_name s =
     (if tf_nodes s nd = None \<or> fs_id_of s nd \<noteq> fs_id_of s i then Some (Inl EXDEV, s)
      else case map_of (entries_of s i) old_name of
        None \<Rightarrow> Some (Inl ENOENT, s)
      | Some c \<Rightarrow>
          (let s1 = on_entries i (dir_remove old_name) s;
               moved = touch now nd (touch now i
                 (on_entries nd (dir_insert new_name c) (on_node c (\<lambda>n. n\<lparr>ti_parent := Some nd\<rparr>) s1)))
           in case map_of (entries_of s1 nd) new_name of
                None \<Rightarrow> Some (Inr (), moved)
              | Some x \<Rightarrow>
                  if is_dir s1 x \<and> x = nd then None
                  else if is_dir s1 x \<and> entries_of s1 x \<noteq> [] then
                    (if nd = i then None
                     else Some (Inl ENOTEMPTY, on_entries i (dir_insert old_name c) s1))
                  else Some (Inr (), moved)))"

record dir_entry =
  de_name :: string
  de_ino :: nat
  de_kind :: kind

definition kind_of :: "tmpfs \<Rightarrow> nat \<Rightarrow> kind" where
  "kind_of s i = (case tf_nodes s i of Some n \<Rightarrow> ti_kind n | None \<Rightarrow> File)"

definition tmp_readdir :: "nat \<Rightarrow> nat \<Rightarrow> tmpfs \<Rightarrow> dir_entry option kresult" where
  "tmp_readdir i pos s =
     (if \<not> is_dir s i then Inl ENOTDIR
      else if pos = 0 then Inr (Some \<lparr>de_name = ''.'', de_ino = i, de_kind = Dir\<rparr>)
      else if pos = 1 then
        (let up = (case tf_nodes s i of Some n \<Rightarrow> upgrade s (ti_parent n) | None \<Rightarrow> None)
         in Inr (Some \<lparr>de_name = ''..'', de_ino = (case up of Some p \<Rightarrow> p | None \<Rightarrow> i), de_kind = Dir\<rparr>))
      else
        (let es = entries_of s i in
         if pos - 2 < length es then
           Inr (Some \<lparr>de_name = fst (es ! (pos - 2)), de_ino = snd (es ! (pos - 2)), de_kind = kind_of s (snd (es ! (pos - 2)))\<rparr>)
         else Inr None))"

section \<open>Data and attributes\<close>

definition tmp_size :: "nat \<Rightarrow> tmpfs \<Rightarrow> nat" where
  "tmp_size i s =
     (case tf_nodes s i of
        None \<Rightarrow> 0
      | Some n \<Rightarrow>
          (case ti_kind n of Symlink \<Rightarrow> length (ti_link n) | Dir \<Rightarrow> 4096 | _ \<Rightarrow> td_size (ti_data n)))"

definition set_data :: "nat \<Rightarrow> tmp_data \<times> machine \<Rightarrow> tmpfs \<Rightarrow> tmpfs" where
  "set_data i dm s = (on_node i (\<lambda>n. n\<lparr>ti_data := fst dm\<rparr>) s)\<lparr>tf_mach := snd dm\<rparr>"

definition data_of :: "tmpfs \<Rightarrow> nat \<Rightarrow> tmp_data" where
  "data_of s i = (case tf_nodes s i of Some n \<Rightarrow> ti_data n | None \<Rightarrow> data_new)"

definition tmp_read_at :: "nat \<Rightarrow> nat \<Rightarrow> nat \<Rightarrow> tmpfs \<Rightarrow> u8 list kresult" where
  "tmp_read_at i off n s =
     (if is_dir s i then Inl EISDIR else data_read_at off n (data_of s i, tf_mach s))"

definition tmp_write_at :: "nat \<Rightarrow> nat \<Rightarrow> nat \<Rightarrow> u8 list \<Rightarrow> tmpfs \<Rightarrow> nat kresult \<times> tmpfs" where
  "tmp_write_at now i off buf s =
     (if is_dir s i then (Inl EISDIR, s)
      else case data_write_at off buf (data_of s i, tf_mach s) of
        (Inl e, dm) \<Rightarrow> (Inl e, set_data i dm s)
      | (Inr n, dm) \<Rightarrow> (Inr n, touch now i (set_data i dm s)))"

definition tmp_truncate :: "nat \<Rightarrow> nat \<Rightarrow> nat \<Rightarrow> tmpfs \<Rightarrow> unit kresult \<times> tmpfs" where
  "tmp_truncate now i sz s =
     (if is_dir s i then (Inl EISDIR, s)
      else (Inr (), touch now i (set_data i (data_truncate sz (data_of s i, tf_mach s)) s)))"

definition tmp_get_page :: "nat \<Rightarrow> nat \<Rightarrow> tmpfs \<Rightarrow> nat kresult \<times> tmpfs" where
  "tmp_get_page i idx s =
     (if kind_of s i \<noteq> File then (Inl ENODEV, s)
      else case data_get_page idx (data_of s i, tf_mach s) of (r, dm) \<Rightarrow> (r, set_data i dm s))"

definition tmp_readlink :: "nat \<Rightarrow> tmpfs \<Rightarrow> string kresult" where
  "tmp_readlink i s =
     (case tf_nodes s i of
        Some n \<Rightarrow> if ti_kind n \<noteq> Symlink then Inl EINVAL else Inr (ti_link n)
      | None \<Rightarrow> Inl EINVAL)"

definition tmp_set_mode :: "nat \<Rightarrow> u32 \<Rightarrow> tmpfs \<Rightarrow> tmpfs" where
  "tmp_set_mode i mode s = on_node i (\<lambda>n. n\<lparr>ti_mode := mode AND 0xFFF\<rparr>) s"

definition tmp_set_times :: "nat \<Rightarrow> nat option \<Rightarrow> tmpfs \<Rightarrow> tmpfs" where
  "tmp_set_times i m s = (case m of Some t \<Rightarrow> on_node i (\<lambda>n. n\<lparr>ti_mtime := t\<rparr>) s | None \<Rightarrow> s)"

definition tmp_drop :: "nat \<Rightarrow> tmpfs \<Rightarrow> tmpfs" where
  "tmp_drop i s = s\<lparr>tf_nodes := (tf_nodes s)(i := None), tf_mach := data_drop (data_of s i) (tf_mach s)\<rparr>"

text \<open>The part of \<open>Stat\<close> that depends on the inode.\<close>

record stat =
  st_dev :: nat
  st_ino :: nat
  st_nlink :: nat
  st_mode :: u32
  st_rdev :: u64
  st_size :: nat
  st_blocks :: nat
  st_mtime :: nat
  st_mtime_nsec :: nat

definition tmp_stat :: "nat \<Rightarrow> tmpfs \<Rightarrow> stat" where
  "tmp_stat i s =
     (let sz = tmp_size i s;
          n = the (tf_nodes s i);
          nlink = (if ti_kind n = Dir then 2 + length (filter (\<lambda>e. is_dir s (snd e)) (ti_entries n)) else unat (ti_nlink n))
      in \<lparr>st_dev = ti_fs_id n, st_ino = i, st_nlink = nlink,
          st_mode = mode_bits (ti_kind n) OR (ti_mode n AND 0xFFF), st_rdev = ti_rdev n, st_size = sz,
          st_blocks = (if ti_kind n = File then length (flatten (td_pages (ti_data n))) * 8 else (sz + 511) div 512),
          st_mtime = ti_mtime n div 1000000000, st_mtime_nsec = ti_mtime n mod 1000000000\<rparr>)"

text \<open>What \<open>open\<close> decides: the device, the pipe of a FIFO, a refusal, or the regular operations.\<close>

datatype opened = OpenChar u64 | OpenFifo nat | OpenRegular

definition tmp_open :: "nat \<Rightarrow> tmpfs \<Rightarrow> opened kresult" where
  "tmp_open i s =
     (case kind_of s i of
        CharDev \<Rightarrow> Inr (OpenChar (ti_rdev (the (tf_nodes s i))))
      | Fifo \<Rightarrow> Inr (OpenFifo i)
      | Socket \<Rightarrow> Inl ENXIO
      | _ \<Rightarrow> Inr OpenRegular)"

section \<open>Names\<close>

text \<open>What a name in a directory refers to: the file system as one map.\<close>

definition names :: "tmpfs \<Rightarrow> nat \<times> string \<Rightarrow> nat option" where
  "names s k = map_of (entries_of s (fst k)) (snd k)"

definition sorted_entries :: "(string \<times> nat) list \<Rightarrow> bool" where
  "sorted_entries es \<longleftrightarrow> sorted_wrt (\<lambda>a b. fst a < fst b) es"

definition tree_inv :: "tmpfs \<Rightarrow> bool" where
  "tree_inv s \<longleftrightarrow> finite (dom (tf_nodes s))
     \<and> (\<forall>i n. tf_nodes s i = Some n \<longrightarrow> i < tf_next_ino s \<and> sorted_entries (ti_entries n) \<and> (ti_kind n \<noteq> Dir \<longrightarrow> ti_entries n = []))
     \<and> (\<forall>k c. names s k = Some c \<longrightarrow> tf_nodes s c \<noteq> None)
     \<and> (\<forall>k c. names s k = Some c \<longrightarrow> is_dir s c \<longrightarrow>
          ti_parent (the (tf_nodes s c)) = Some (fst k) \<and> (\<forall>k'. names s k' = Some c \<longrightarrow> k' = k))"

lemma map_of_dir_insert [simp]: "map_of (dir_insert name c es) = (map_of es)(name \<mapsto> c)"
  by (induction name c es rule: dir_insert.induct) (auto simp: fun_eq_iff)

lemma map_of_dir_remove [simp]: "map_of (dir_remove name es) = (map_of es)(name := None)"
  by (induction es) (auto simp: dir_remove_def fun_eq_iff)

lemma set_dir_insert: "fst ` set (dir_insert name c es) = insert name (fst ` set es)"
  by (induction name c es rule: dir_insert.induct) auto

lemma sorted_dir_insert [simp]: "sorted_entries es \<Longrightarrow> sorted_entries (dir_insert name c es)"
proof (induction name c es rule: dir_insert.induct)
  case (2 name c n d es)
  show ?case
  proof (cases "name < n \<or> name = n")
    case True
    then show ?thesis using 2(2) by (auto simp: sorted_entries_def)
  next
    case False
    then have "n < name" by auto
    moreover have "n < fst e" if "e \<in> set (dir_insert name c es)" for e
    proof -
      have "fst e \<in> insert name (fst ` set es)" using that set_dir_insert by (metis imageI)
      then show ?thesis using \<open>n < name\<close> 2(2) by (auto simp: sorted_entries_def)
    qed
    ultimately show ?thesis using 2 False by (auto simp: sorted_entries_def)
  qed
qed (simp add: sorted_entries_def)

lemma sorted_dir_remove [simp]: "sorted_entries es \<Longrightarrow> sorted_entries (dir_remove name es)"
  by (simp add: sorted_entries_def dir_remove_def sorted_wrt_filter)

lemma on_node_simps [simp]:
  "tf_nodes (on_node j g s) i = (if i = j then map_option g (tf_nodes s j) else tf_nodes s i)"
  "tf_mach (on_node j g s) = tf_mach s" "tf_next_ino (on_node j g s) = tf_next_ino s" "tf_next_fs (on_node j g s) = tf_next_fs s"
  by (simp_all add: on_node_def)

lemma add_node_simps:
  assumes "add_node n s = (c, s')"
  shows "c = tf_next_ino s" "tf_nodes s' = (tf_nodes s)(tf_next_ino s \<mapsto> n)" "tf_next_ino s' = tf_next_ino s + 1"
    "tf_mach s' = tf_mach s"
  using assms by (auto simp: add_node_def)

lemma touch_nodes: "tf_nodes (touch now j s) i = (if i = j then map_option (\<lambda>n. n\<lparr>ti_mtime := now\<rparr>) (tf_nodes s j) else tf_nodes s i)"
  by (simp add: touch_def)

lemma on_entries_nodes: "tf_nodes (on_entries j g s) i =
    (if i = j then map_option (\<lambda>n. n\<lparr>ti_entries := g (ti_entries n)\<rparr>) (tf_nodes s j) else tf_nodes s i)"
  by (simp add: on_entries_def)

lemma entries_of_simps [simp]:
  "entries_of (touch now j s) i = entries_of s i"
  "entries_of (on_entries j g s) i = (if i = j \<and> tf_nodes s j \<noteq> None then g (entries_of s j) else entries_of s i)"
  by (auto simp: entries_of_def touch_nodes on_entries_nodes split: option.split)

lemma entries_of_on_node: "(\<And>n. ti_entries (g n) = ti_entries n) \<Longrightarrow> entries_of (on_node j g s) i = entries_of s i"
  by (auto simp: entries_of_def split: option.split)

lemma is_dir_on_node: "(\<And>n. ti_kind (g n) = ti_kind n) \<Longrightarrow> is_dir (on_node j g s) i = is_dir s i"
  by (auto simp: is_dir_def split: option.split)

lemma is_dir_simps [simp]: "is_dir (touch now j s) i = is_dir s i" "is_dir (on_entries j g s) i = is_dir s i"
  by (simp_all add: touch_def on_entries_def is_dir_on_node)

lemma is_dir_node: "is_dir s i \<Longrightarrow> tf_nodes s i \<noteq> None"
  by (auto simp: is_dir_def split: option.splits)

lemma tree_invD:
  assumes "tree_inv s"
  shows "finite (dom (tf_nodes s))"
    "tf_nodes s i = Some n \<Longrightarrow> i < tf_next_ino s \<and> sorted_entries (ti_entries n) \<and> (ti_kind n \<noteq> Dir \<longrightarrow> ti_entries n = [])"
    "names s k = Some c \<Longrightarrow> tf_nodes s c \<noteq> None"
    "names s k = Some c \<Longrightarrow> is_dir s c \<Longrightarrow> ti_parent (the (tf_nodes s c)) = Some (fst k)"
    "names s k = Some c \<Longrightarrow> is_dir s c \<Longrightarrow> names s k' = Some c \<Longrightarrow> k' = k"
  using assms unfolding tree_inv_def by (blast, blast, blast, blast, blast)

text \<open>An operation that leaves names, kinds, parents and the set of inodes alone keeps the tree.\<close>

definition node_view :: "tmp_inode \<Rightarrow> kind \<times> (string \<times> nat) list \<times> nat option" where
  "node_view n = (ti_kind n, ti_entries n, ti_parent n)"

definition same_tree :: "tmpfs \<Rightarrow> tmpfs \<Rightarrow> bool" where
  "same_tree s s' \<longleftrightarrow> tf_next_ino s' = tf_next_ino s
     \<and> (\<forall>i. map_option node_view (tf_nodes s' i) = map_option node_view (tf_nodes s i))"

lemma same_tree_node:
  assumes "same_tree s s'" "tf_nodes s' i = Some n'"
  obtains n where "tf_nodes s i = Some n" "ti_kind n = ti_kind n'" "ti_entries n = ti_entries n'" "ti_parent n = ti_parent n'"
proof -
  have "map_option node_view (tf_nodes s i) = Some (node_view n')"
    using assms unfolding same_tree_def by (metis option.simps(9))
  then show thesis using that by (auto simp: node_view_def)
qed

lemma same_tree_sym: "same_tree s s' \<Longrightarrow> same_tree s' s"
  by (simp add: same_tree_def)

lemma same_tree_facts:
  assumes "same_tree s s'"
  shows "entries_of s' i = entries_of s i" "is_dir s' i = is_dir s i" "names s' = names s" "dom (tf_nodes s') = dom (tf_nodes s)"
proof -
  have one: "map_option node_view (tf_nodes s' i) = map_option node_view (tf_nodes s i)" for i
    using assms by (simp add: same_tree_def)
  show e: "entries_of s' i = entries_of s i" for i
    using one [of i] by (auto simp: entries_of_def node_view_def split: option.splits)
  show "is_dir s' i = is_dir s i" using one [of i] by (auto simp: is_dir_def node_view_def split: option.splits)
  show "names s' = names s" by (simp add: names_def fun_eq_iff e)
  have "tf_nodes s' i = None \<longleftrightarrow> tf_nodes s i = None" for i using one [of i] by (metis option.map_disc_iff)
  then show "dom (tf_nodes s') = dom (tf_nodes s)" by (auto simp: dom_def)
qed

lemma tree_inv_same:
  assumes "tree_inv s" "same_tree s s'"
  shows "tree_inv s'"
proof -
  note f = same_tree_facts [OF assms(2)]
  have nx: "tf_next_ino s' = tf_next_ino s" using assms(2) by (simp add: same_tree_def)
  have "\<forall>i n. tf_nodes s' i = Some n \<longrightarrow> i < tf_next_ino s' \<and> sorted_entries (ti_entries n) \<and> (ti_kind n \<noteq> Dir \<longrightarrow> ti_entries n = [])"
    using same_tree_node [OF assms(2)] tree_invD(2) [OF assms(1)] nx by metis
  moreover have "tf_nodes s' c \<noteq> None" if "names s k = Some c" for k c
    using tree_invD(3) [OF assms(1) that] f(4) by (metis domIff)
  moreover have "ti_parent (the (tf_nodes s' c)) = Some (fst k)" if k: "names s k = Some c" and d: "is_dir s c" for k c
  proof -
    obtain n' where n': "tf_nodes s' c = Some n'" using is_dir_node [of s' c] d f(2) by auto
    then obtain n where "tf_nodes s c = Some n" "ti_parent n = ti_parent n'" by (rule same_tree_node [OF assms(2)])
    then show ?thesis using tree_invD(4) [OF assms(1) k d] n' by simp
  qed
  ultimately show ?thesis
    using tree_invD(1,5) [OF assms(1)] f(2-4) unfolding tree_inv_def by metis
qed

lemma same_tree_trans: "same_tree s s' \<Longrightarrow> same_tree s' s'' \<Longrightarrow> same_tree s s''"
  by (simp add: same_tree_def)

lemma same_tree_refl [simp]: "same_tree s s"
  by (simp add: same_tree_def)

lemma same_tree_on_node:
  "(\<And>n. ti_kind (g n) = ti_kind n \<and> ti_entries (g n) = ti_entries n \<and> ti_parent (g n) = ti_parent n) \<Longrightarrow> same_tree s (on_node j g s)"
  by (cases "tf_nodes s j") (simp_all add: same_tree_def node_view_def)

lemma same_tree_touch: "same_tree s (touch now j s)"
  unfolding touch_def by (rule same_tree_on_node) simp

lemma same_tree_set_data: "same_tree s (set_data i dm s)"
  by (cases "tf_nodes s i") (simp_all add: same_tree_def set_data_def node_view_def)

section \<open>Calls\<close>

datatype tmp_call =
    Create nat string kind u32 u64
  | MkSymlink nat string string
  | Link nat string nat
  | Unlink nat string
  | Rmdir nat string
  | Rename nat string nat string
  | WriteAt nat nat "u8 list"
  | Truncate nat nat
  | GetPage nat nat

definition ended :: "'a kresult \<times> tmpfs \<Rightarrow> (unit kresult \<times> tmpfs) option" where
  "ended x = Some (case fst x of Inl e \<Rightarrow> Inl e | Inr _ \<Rightarrow> Inr (), snd x)"

fun tmp_exec :: "nat \<Rightarrow> tmp_call \<Rightarrow> tmpfs \<Rightarrow> (unit kresult \<times> tmpfs) option" where
  "tmp_exec now (Create i name kind mode rdev) s = ended (tmp_create now i name kind mode rdev s)"
| "tmp_exec now (MkSymlink i name target) s = ended (tmp_symlink now i name target s)"
| "tmp_exec now (Link i name t) s = ended (tmp_link i name t s)"
| "tmp_exec now (Unlink i name) s = ended (tmp_unlink now i name s)"
| "tmp_exec now (Rmdir i name) s = tmp_rmdir now i name s"
| "tmp_exec now (Rename i old nd new) s = tmp_rename now i old nd new s"
| "tmp_exec now (WriteAt i off bs) s = ended (tmp_write_at now i off bs s)"
| "tmp_exec now (Truncate i sz) s = ended (tmp_truncate now i sz s)"
| "tmp_exec now (GetPage i idx) s = ended (tmp_get_page i idx s)"

text \<open>What a successful call does to the names; \<open>fresh\<close> is the next inode number.\<close>

fun named :: "tmp_call \<Rightarrow> nat \<Rightarrow> (nat \<times> string \<Rightarrow> nat option) \<Rightarrow> nat \<times> string \<Rightarrow> nat option" where
  "named (Create i name kind mode rdev) fresh N = N((i, name) \<mapsto> fresh)"
| "named (MkSymlink i name target) fresh N = N((i, name) \<mapsto> fresh)"
| "named (Link i name t) fresh N = N((i, name) \<mapsto> t)"
| "named (Unlink i name) fresh N = N((i, name) := None)"
| "named (Rmdir i name) fresh N = N((i, name) := None)"
| "named (Rename i old nd new) fresh N = N((i, old) := None, (nd, new) := N (i, old))"
| "named (WriteAt i off bs) fresh N = N"
| "named (Truncate i sz) fresh N = N"
| "named (GetPage i idx) fresh N = N"

text \<open>The directory a rename moves to is the parent of a resolved path, which is a directory.\<close>

fun call_ok :: "tmpfs \<Rightarrow> tmp_call \<Rightarrow> bool" where
  "call_ok s (Rename i old nd new) \<longleftrightarrow> tf_nodes s nd = None \<or> is_dir s nd"
| "call_ok s c \<longleftrightarrow> True"

lemma names_on_entries:
  "names (on_entries j g s) k = (if fst k = j \<and> tf_nodes s j \<noteq> None then map_of (g (entries_of s j)) (snd k) else names s k)"
  by (auto simp: names_def)

lemma names_insert: "tf_nodes s i \<noteq> None \<Longrightarrow> names (on_entries i (dir_insert name c) s) = (names s)((i, name) \<mapsto> c)"
  by (auto simp: fun_eq_iff names_on_entries names_def)

lemma names_remove: "names (on_entries i (dir_remove name) s) = (names s)((i, name) := None)"
proof
  show "names (on_entries i (dir_remove name) s) k = ((names s)((i, name) := None)) k" for k
  proof (cases "fst k = i \<and> tf_nodes s i \<noteq> None")
    case True
    then show ?thesis by (cases k) (simp add: names_on_entries, auto simp: names_def)
  next
    case False
    moreover have "names s (i, name) = None" if "tf_nodes s i = None" using that by (simp add: names_def entries_of_def)
    ultimately show ?thesis by (cases k) (auto simp: names_on_entries)
  qed
qed

lemma dom_on_node [simp]: "dom (tf_nodes (on_node j g s)) = dom (tf_nodes s)"
  by (auto simp: dom_def split: if_splits)

lemma dom_on_entries [simp]: "dom (tf_nodes (on_entries j g s)) = dom (tf_nodes s)"
  by (simp add: on_entries_def)

lemma names_touch [simp]: "names (touch now j s) = names s"
  by (simp add: names_def fun_eq_iff)

lemma next_ino_simps [simp]:
  "tf_next_ino (touch now j s) = tf_next_ino s" "tf_next_ino (on_entries j g s) = tf_next_ino s"
  by (simp_all add: touch_def on_entries_def)

lemma parent_on_entries [simp]:
  "tf_nodes s c \<noteq> None \<Longrightarrow> ti_parent (the (tf_nodes (on_entries j g s) c)) = ti_parent (the (tf_nodes s c))"
  by (auto simp: on_entries_nodes)

lemma on_entries_None [simp]: "tf_nodes (on_entries j g s) i = None \<longleftrightarrow> tf_nodes s i = None"
  by (auto simp: on_entries_nodes)

lemma on_node_None: "tf_nodes (on_node j g s) i = None \<longleftrightarrow> tf_nodes s i = None"
  by simp

lemma tree_inv_entries:
  assumes inv: "tree_inv s"
    and sorted: "\<And>es. sorted_entries es \<Longrightarrow> sorted_entries (g es)"
    and only_dir: "tf_nodes s i \<noteq> None \<Longrightarrow> is_dir s i \<or> g [] = []"
    and alive: "\<And>k x. names (on_entries i g s) k = Some x \<Longrightarrow> tf_nodes s x \<noteq> None"
    and dirs: "\<And>k x k'. names (on_entries i g s) k = Some x \<Longrightarrow> is_dir s x \<Longrightarrow>
       ti_parent (the (tf_nodes s x)) = Some (fst k) \<and> (names (on_entries i g s) k' = Some x \<longrightarrow> k' = k)"
  shows "tree_inv (on_entries i g s)"
proof -
  have "x < tf_next_ino s \<and> sorted_entries (ti_entries n) \<and> (ti_kind n \<noteq> Dir \<longrightarrow> ti_entries n = [])"
    if "tf_nodes (on_entries i g s) x = Some n" for x n
    using that tree_invD(2) [OF inv, of x] sorted only_dir
    by (auto simp: on_entries_nodes is_dir_def split: if_splits option.splits)
  moreover have "ti_parent (the (tf_nodes (on_entries i g s) x)) = Some (fst k)"
    if "names (on_entries i g s) k = Some x" "is_dir s x" for k x
    using dirs [OF that] alive [OF that(1)] by simp
  ultimately show ?thesis
    unfolding tree_inv_def using tree_invD(1) [OF inv] alive dirs by simp
qed

lemma tree_inv_insert:
  assumes inv: "tree_inv s" and i: "is_dir s i" and c: "tf_nodes s c \<noteq> None"
    and fresh: "is_dir s c \<Longrightarrow> ti_parent (the (tf_nodes s c)) = Some i \<and> (\<forall>k. names s k \<noteq> Some c)"
  shows "tree_inv (on_entries i (dir_insert name c) s)"
proof (rule tree_inv_entries [OF inv])
  note ni = names_insert [OF is_dir_node [OF i], of name c]
  show "tf_nodes s x \<noteq> None" if "names (on_entries i (dir_insert name c) s) k = Some x" for k x
    using that tree_invD(3) [OF inv] c unfolding ni by (auto split: if_splits)
  show "ti_parent (the (tf_nodes s x)) = Some (fst k) \<and> (names (on_entries i (dir_insert name c) s) k' = Some x \<longrightarrow> k' = k)"
    if "names (on_entries i (dir_insert name c) s) k = Some x" "is_dir s x" for k x k'
    using that tree_invD(4,5) [OF inv] fresh unfolding ni by (auto split: if_splits simp del: split_paired_All)
qed (use i in simp_all)

lemma tree_inv_remove:
  assumes inv: "tree_inv s"
  shows "tree_inv (on_entries i (dir_remove name) s)"
proof (rule tree_inv_entries [OF inv])
  show "tf_nodes s x \<noteq> None" if "names (on_entries i (dir_remove name) s) k = Some x" for k x
    using that tree_invD(3) [OF inv] unfolding names_remove by (auto split: if_splits)
  show "ti_parent (the (tf_nodes s x)) = Some (fst k) \<and> (names (on_entries i (dir_remove name) s) k' = Some x \<longrightarrow> k' = k)"
    if "names (on_entries i (dir_remove name) s) k = Some x" "is_dir s x" for k x k'
    using that tree_invD(4,5) [OF inv] unfolding names_remove by (auto split: if_splits)
qed (simp, simp add: dir_remove_def)

lemma unnamed_fresh: "tree_inv s \<Longrightarrow> names s k \<noteq> Some (tf_next_ino s)"
  using tree_invD(2,3) by fastforce

lemma fresh_node: "tree_inv s \<Longrightarrow> tf_nodes s (tf_next_ino s) = None"
  by (metis less_irrefl not_None_eq tree_invD(2))

lemma tree_inv_add:
  assumes inv: "tree_inv s" and a: "add_node n s = (c, s')" and n: "ti_entries n = []"
  shows "tree_inv s'" "names s' = names s" "is_dir s' i = (if i = c then ti_kind n = Dir else is_dir s i)"
    "entries_of s' i = entries_of s i"
proof -
  note e = add_node_simps [OF a]
  have none: "tf_nodes s c = None" using fresh_node [OF inv] e(1) by simp
  show en: "entries_of s' i = entries_of s i" for i using none n e by (simp add: entries_of_def)
  show nm: "names s' = names s" by (simp add: fun_eq_iff names_def en)
  show d: "is_dir s' i = (if i = c then ti_kind n = Dir else is_dir s i)" for i using e by (simp add: is_dir_def)
  have other: "tf_nodes s' x = tf_nodes s x" if "names s k = Some x" for k x
    using that unnamed_fresh [OF inv, of k] e(1,2) by (cases "x = c") auto
  have "\<forall>i m. tf_nodes s' i = Some m \<longrightarrow> i < tf_next_ino s' \<and> sorted_entries (ti_entries m) \<and> (ti_kind m \<noteq> Dir \<longrightarrow> ti_entries m = [])"
    using tree_invD(2) [OF inv] e n by (auto simp: sorted_entries_def less_Suc_eq)
  moreover have "finite (dom (tf_nodes s'))" using tree_invD(1) [OF inv] e by simp
  moreover have "is_dir s' x = is_dir s x" if "names s k = Some x" for k x
    using other [OF that] by (simp add: is_dir_def)
  ultimately show "tree_inv s'"
    using tree_invD(3-5) [OF inv] other unfolding tree_inv_def nm by metis
qed

lemma tree_inv_parent:
  assumes inv: "tree_inv s" and c: "is_dir s c \<Longrightarrow> \<forall>k. names s k \<noteq> Some c"
  shows "tree_inv (on_node c (\<lambda>n. n\<lparr>ti_parent := p\<rparr>) s)" "names (on_node c (\<lambda>n. n\<lparr>ti_parent := p\<rparr>) s) = names s"
proof -
  let ?s = "on_node c (\<lambda>n. n\<lparr>ti_parent := p\<rparr>) s"
  show nm: "names ?s = names s" by (simp add: fun_eq_iff names_def entries_of_on_node)
  have d: "is_dir ?s i = is_dir s i" for i by (simp add: is_dir_on_node)
  have al: "tf_nodes ?s x = None \<longleftrightarrow> tf_nodes s x = None" for x by simp
  have "x < tf_next_ino ?s \<and> sorted_entries (ti_entries m) \<and> (ti_kind m \<noteq> Dir \<longrightarrow> ti_entries m = [])" if "tf_nodes ?s x = Some m" for x m
    using that tree_invD(2) [OF inv, of x] by (auto split: if_splits)
  moreover have "tf_nodes ?s x = tf_nodes s x" if "names s k = Some x" "is_dir s x" for k x
    using that c by (metis on_node_simps(1))
  ultimately show "tree_inv ?s"
    using tree_invD(1,3-5) [OF inv] unfolding tree_inv_def nm d al dom_on_node by metis
qed

lemma create_tree:
  assumes inv: "tree_inv s" and r: "tmp_create now i name kind mode rdev s = (r, s')"
  shows "tree_inv s'" "names s' = (case r of Inr c \<Rightarrow> (names s)((i, name) \<mapsto> tf_next_ino s) | Inl e \<Rightarrow> names s)"
    "r = Inr c \<Longrightarrow> c = tf_next_ino s"
proof -
  have "tree_inv s' \<and> names s' = (case r of Inr c \<Rightarrow> (names s)((i, name) \<mapsto> tf_next_ino s) | Inl e \<Rightarrow> names s)
      \<and> (\<forall>c. r = Inr c \<longrightarrow> c = tf_next_ino s)"
  proof (cases "is_dir s i \<and> \<not> (name = '''' \<or> name = ''.'' \<or> name = ''..'') \<and> map_of (entries_of s i) name = None")
    case False
    then show ?thesis using r inv by (auto simp: tmp_create_def split: if_splits)
  next
    case True
    let ?n = "(inode_new (fs_id_of s i) kind mode rdev now)\<lparr>ti_parent := Some i\<rparr>"
    obtain c s1 where a: "add_node ?n s = (c, s1)" by (metis surj_pair)
    have e: "r = Inr c" "s' = touch now i (on_entries i (dir_insert name c) s1)"
      using r True a by (auto simp: tmp_create_def)
    have n: "ti_entries ?n = []" by (simp add: inode_new_def)
    note ad = tree_inv_add [OF inv a n] and as = add_node_simps [OF a]
    have ic: "i \<noteq> c" using True fresh_node [OF inv] as(1) is_dir_node [of s i] by auto
    have "tree_inv (on_entries i (dir_insert name c) s1)"
      by (rule tree_inv_insert [OF ad(1)]) (use True ad(2,3) as ic unnamed_fresh [OF inv] in auto)
    then have "tree_inv s'" using tree_inv_same same_tree_touch e(2) by blast
    moreover have "names s' = (names s)((i, name) \<mapsto> tf_next_ino s)"
      using names_insert [of s1 i name c] is_dir_node [of s1 i] True ic ad(2,3) as(1) e(2) by simp
    ultimately show ?thesis using e(1) as(1) by simp
  qed
  then show "tree_inv s'" "names s' = (case r of Inr c \<Rightarrow> (names s)((i, name) \<mapsto> tf_next_ino s) | Inl e \<Rightarrow> names s)"
    "r = Inr c \<Longrightarrow> c = tf_next_ino s" by blast+
qed

lemma rename_outcome:
  assumes "tmp_rename now i old nd new s = Some (r, s')"
  shows "(s' = s \<and> r \<noteq> Inr ()) \<or> (\<exists>c. names s (i, old) = Some c \<and>
     ((r = Inr () \<and> s' = touch now nd (touch now i
         (on_entries nd (dir_insert new c) (on_node c (\<lambda>n. n\<lparr>ti_parent := Some nd\<rparr>) (on_entries i (dir_remove old) s)))))
      \<or> (r \<noteq> Inr () \<and> s' = on_entries i (dir_insert old c) (on_entries i (dir_remove old) s))))"
  using assms by (auto simp: tmp_rename_def Let_def names_def split: if_splits option.splits)

lemma rename_tree:
  assumes inv: "tree_inv s" and nd: "is_dir s nd" and r: "tmp_rename now i old nd new s = Some (r, s')"
  shows "tree_inv s' \<and> names s' = (if r = Inr () then named (Rename i old nd new) f (names s) else names s)"
proof (cases "fs_id_of s nd \<noteq> fs_id_of s i \<or> names s (i, old) = None")
  case True
  then show ?thesis using r inv is_dir_node [OF nd] by (auto simp: tmp_rename_def names_def split: if_splits)
next
  case False
  then obtain c where c: "names s (i, old) = Some c" by auto
  let ?s1 = "on_entries i (dir_remove old) s"
  let ?s2 = "on_node c (\<lambda>n. n\<lparr>ti_parent := Some nd\<rparr>) ?s1"
  let ?s3 = "on_entries nd (dir_insert new c) ?s2"
  have inv1: "tree_inv ?s1" by (rule tree_inv_remove [OF inv])
  have n1: "names ?s1 = (names s)((i, old) := None)" by (rule names_remove)
  have free: "\<forall>k. names ?s1 k \<noteq> Some c" if "is_dir s c"
    using tree_invD(5) [OF inv c that] by (auto simp: n1)
  have inv2: "tree_inv ?s2" "names ?s2 = names ?s1" using tree_inv_parent [OF inv1, of c] free by simp_all
  have c2: "tf_nodes ?s2 c \<noteq> None" using tree_invD(3) [OF inv c] by simp
  have d2: "is_dir ?s2 x = is_dir s x" for x by (simp add: is_dir_on_node)
  have inv3: "tree_inv ?s3"
    by (rule tree_inv_insert [OF inv2(1) _ c2]) (use nd d2 free inv2(2) tree_invD(3) [OF inv c] in \<open>auto simp: on_entries_nodes\<close>)
  have n3: "names ?s3 = named (Rename i old nd new) f (names s)"
  proof -
    have "tf_nodes ?s2 nd \<noteq> None" using is_dir_node [OF nd] by (metis on_entries_None on_node_None)
    from names_insert [OF this, of new c] show ?thesis using inv2(2) n1 c by simp
  qed
  let ?moved = "touch now nd (touch now i ?s3)"
  have moved: "tree_inv ?moved" "names ?moved = named (Rename i old nd new) f (names s)"
    using tree_inv_same [OF inv3] same_tree_touch same_tree_trans n3 by (blast, simp)
  have restored: "tree_inv (on_entries i (dir_insert old c) ?s1) \<and> names (on_entries i (dir_insert old c) ?s1) = names s"
  proof
    have i: "tf_nodes s i \<noteq> None" using c by (auto simp: names_def entries_of_def split: option.splits)
    then have "is_dir s i"
      using c tree_invD(2) [OF inv, of i] by (auto simp: names_def entries_of_def is_dir_def split: option.splits)
    then have di: "is_dir ?s1 i" by simp
    show "tree_inv (on_entries i (dir_insert old c) ?s1)"
      by (rule tree_inv_insert [OF inv1 di]) (use tree_invD(3,4) [OF inv c] free in auto)
    show "names (on_entries i (dir_insert old c) ?s1) = names s"
      using names_insert [of ?s1 i old c] i n1 c by (simp add: fun_upd_idem)
  qed
  have "r = Inr () \<and> s' = ?moved \<or> r \<noteq> Inr () \<and> (s' = s \<or> s' = on_entries i (dir_insert old c) ?s1)"
    using rename_outcome [OF r] c by auto
  then show ?thesis using moved restored inv by auto
qed

lemma unlink_tree:
  assumes inv: "tree_inv s" and r: "tmp_unlink now i name s = (r, s')"
  shows "tree_inv s' \<and> names s' = (if r = Inr () then (names s)((i, name) := None) else names s)"
proof (cases r)
  case (Inl e)
  then have "s' = s" using r by (auto simp: tmp_unlink_def split: if_splits option.splits)
  then show ?thesis using inv Inl by simp
next
  case (Inr u)
  then obtain c where "s' = touch now i (on_node c (\<lambda>n. n\<lparr>ti_nlink := ti_nlink n - 1\<rparr>) (on_entries i (dir_remove name) s))"
    using r by (auto simp: tmp_unlink_def split: if_splits option.splits)
  then have "same_tree (on_entries i (dir_remove name) s) s'"
    using same_tree_trans [OF same_tree_on_node same_tree_touch] by simp
  then show ?thesis
    using tree_inv_same [OF tree_inv_remove [OF inv]] same_tree_facts(3) names_remove Inr by (metis (full_types) old.unit.exhaust)
qed

lemma rmdir_tree:
  assumes inv: "tree_inv s" and r: "tmp_rmdir now i name s = Some (r, s')"
  shows "tree_inv s' \<and> names s' = (if r = Inr () then (names s)((i, name) := None) else names s)"
proof (cases r)
  case (Inl e)
  then have "s' = s" using r by (auto simp: tmp_rmdir_def split: if_splits option.splits)
  then show ?thesis using inv Inl by simp
next
  case (Inr u)
  then have "s' = touch now i (on_entries i (dir_remove name) s)"
    using r by (auto simp: tmp_rmdir_def split: if_splits option.splits)
  then show ?thesis
    using tree_inv_same [OF tree_inv_remove [OF inv] same_tree_touch] names_remove Inr by simp
qed

lemma link_tree:
  assumes inv: "tree_inv s" and r: "tmp_link i name t s = (r, s')"
  shows "tree_inv s' \<and> names s' = (if r = Inr () then (names s)((i, name) \<mapsto> t) else names s)"
proof (cases r)
  case (Inl e)
  then have "s' = s" using r by (auto simp: tmp_link_def split: if_splits)
  then show ?thesis using inv Inl by simp
next
  case (Inr u)
  let ?s = "on_node t (\<lambda>n. n\<lparr>ti_nlink := ti_nlink n + 1\<rparr>) s"
  have e: "s' = on_entries i (dir_insert name t) ?s" "is_dir s i" "tf_nodes s t \<noteq> None" "\<not> is_dir s t"
    using r Inr by (auto simp: tmp_link_def split: if_splits)
  have st: "same_tree s ?s" by (rule same_tree_on_node) simp
  note f = same_tree_facts [OF st]
  have t: "tf_nodes ?s t \<noteq> None" "tf_nodes ?s i \<noteq> None"
    using e(3) is_dir_node [OF e(2)] unfolding on_node_None by blast+
  have "is_dir ?s i" "\<not> is_dir ?s t" using e(2,4) f(2) by simp_all
  then have "tree_inv s'" unfolding e(1) using tree_inv_insert [OF tree_inv_same [OF inv st] _ t(1)] by blast
  moreover have "names s' = (names s)((i, name) \<mapsto> t)" unfolding e(1) names_insert [OF t(2)] f(3) ..
  ultimately show ?thesis using Inr by simp
qed

lemma data_call_tree:
  "same_tree s (snd (tmp_write_at now i off bs s))" "same_tree s (snd (tmp_truncate now i sz s))"
  "same_tree s (snd (tmp_get_page i idx s))"
proof -
  have t: "same_tree s (touch now i (set_data i dm s))" for dm
    by (rule same_tree_trans [OF same_tree_set_data same_tree_touch])
  show "same_tree s (snd (tmp_write_at now i off bs s))"
    by (simp add: tmp_write_at_def t same_tree_set_data split: prod.split sum.split)
  show "same_tree s (snd (tmp_truncate now i sz s))" by (simp add: tmp_truncate_def t)
  show "same_tree s (snd (tmp_get_page i idx s))" by (simp add: tmp_get_page_def same_tree_set_data split: prod.split)
qed

lemma ended_Some: "ended x = Some (r, s') \<longleftrightarrow> s' = snd x \<and> r = (case fst x of Inl e \<Rightarrow> Inl e | Inr _ \<Rightarrow> Inr ())"
  by (auto simp: ended_def)

lemma data_exec_tree:
  assumes inv: "tree_inv s" and st: "same_tree s (snd x)" and e: "ended x = Some (r, s')"
  shows "tree_inv s' \<and> names s' = names s"
  using tree_inv_same [OF inv st] same_tree_facts(3) [OF st] e by (simp add: ended_Some)

text \<open>A call that ends does to the names what it was asked, or nothing.\<close>

lemma exec_names:
  assumes inv: "tree_inv s" and ok: "call_ok s c" and e: "tmp_exec now c s = Some (r, s')"
  shows "tree_inv s' \<and> names s' = (if r = Inr () then named c (tf_next_ino s) (names s) else names s)"
proof (cases c)
  case (Create i name kind mode rdev)
  obtain r1 s1 where cr: "tmp_create now i name kind mode rdev s = (r1, s1)" by (metis surj_pair)
  then show ?thesis using create_tree(1,2) [OF inv cr] e Create by (auto simp: ended_Some split: sum.splits)
next
  case (MkSymlink i name target)
  obtain r1 s1 where cr: "tmp_create now i name Symlink 0x1FF 0 s = (r1, s1)" by (metis surj_pair)
  note t = create_tree(1,2) [OF inv cr]
  have "same_tree s1 (on_node x (\<lambda>n. n\<lparr>ti_link := target\<rparr>) s1)" for x by (rule same_tree_on_node) simp
  then have "tree_inv (on_node x (\<lambda>n. n\<lparr>ti_link := target\<rparr>) s1) \<and> names (on_node x (\<lambda>n. n\<lparr>ti_link := target\<rparr>) s1) = names s1" for x
    using tree_inv_same [OF t(1)] same_tree_facts(3) by blast
  then show ?thesis using t cr e MkSymlink by (auto simp: tmp_symlink_def ended_Some split: sum.splits)
next
  case (Link i name t)
  then show ?thesis using link_tree [OF inv, of i name t] e by (auto simp: ended_Some prod_eq_iff split: sum.splits)
next
  case (Unlink i name)
  then show ?thesis using unlink_tree [OF inv, of now i name] e by (auto simp: ended_Some prod_eq_iff split: sum.splits)
next
  case (Rmdir i name)
  then show ?thesis using rmdir_tree [OF inv, of now i name] e by simp
next
  case (Rename i old nd new)
  show ?thesis
  proof (cases "is_dir s nd")
    case True
    then show ?thesis using rename_tree [OF inv True, of now i old new r s' "tf_next_ino s"] e Rename by simp
  next
    case False
    then show ?thesis using e ok inv Rename by (auto simp: tmp_rename_def)
  qed
qed (use data_exec_tree [OF inv data_call_tree(1)] data_exec_tree [OF inv data_call_tree(2)]
    data_exec_tree [OF inv data_call_tree(3)] e in auto)

text \<open>
  What is to come of a call, said of the names alone: \<open>N\<close> is the map from names to inodes, \<open>D\<close> says
  which inodes are directories, and \<open>same\<close> which inode is alive and of the file system of another.
\<close>

datatype verdict = Grant | Refuse errno | Hang | AnyEnd

definition vacant :: "(nat \<times> string \<Rightarrow> nat option) \<Rightarrow> nat \<Rightarrow> bool" where
  "vacant N x \<longleftrightarrow> (\<forall>name. N (x, name) = None)"

definition may_add :: "(nat \<times> string \<Rightarrow> nat option) \<Rightarrow> (nat \<Rightarrow> bool) \<Rightarrow> nat \<Rightarrow> string \<Rightarrow> verdict" where
  "may_add N D i name =
     (if \<not> D i then Refuse ENOTDIR
      else if name = '''' \<or> name = ''.'' \<or> name = ''..'' then Refuse EINVAL
      else if N (i, name) \<noteq> None then Refuse EEXIST
      else Grant)"

fun judge :: "(nat \<times> string \<Rightarrow> nat option) \<Rightarrow> (nat \<Rightarrow> bool) \<Rightarrow> (nat \<Rightarrow> nat \<Rightarrow> bool) \<Rightarrow> tmp_call \<Rightarrow> verdict" where
  "judge N D same (Create i name kind mode rdev) = may_add N D i name"
| "judge N D same (MkSymlink i name target) = may_add N D i name"
| "judge N D same (Link i name t) =
     (if \<not> D i then Refuse ENOTDIR else if \<not> same t i then Refuse EXDEV else if D t then Refuse EPERM
      else if N (i, name) \<noteq> None then Refuse EEXIST else Grant)"
| "judge N D same (Unlink i name) =
     (if \<not> D i then Refuse ENOTDIR
      else case N (i, name) of None \<Rightarrow> Refuse ENOENT | Some c \<Rightarrow> if D c then Refuse EISDIR else Grant)"
| "judge N D same (Rmdir i name) =
     (if \<not> D i then Refuse ENOTDIR
      else case N (i, name) of
        None \<Rightarrow> Refuse ENOENT
      | Some c \<Rightarrow> if \<not> D c then Refuse ENOTDIR else if c = i then Hang else if \<not> vacant N c then Refuse ENOTEMPTY else Grant)"
| "judge N D same (Rename i old nd new) =
     (if \<not> same nd i then Refuse EXDEV
      else if N (i, old) = None then Refuse ENOENT
      else case (N((i, old) := None)) (nd, new) of
        None \<Rightarrow> Grant
      | Some x \<Rightarrow>
          if D x \<and> x = nd then Hang
          else if D x \<and> \<not> vacant (N((i, old) := None)) x then (if nd = i then Hang else Refuse ENOTEMPTY)
          else Grant)"
| "judge N D same c = AnyEnd"

definition same_fs :: "tmpfs \<Rightarrow> nat \<Rightarrow> nat \<Rightarrow> bool" where
  "same_fs s t i \<longleftrightarrow> tf_nodes s t \<noteq> None \<and> fs_id_of s t = fs_id_of s i"

lemma vacant_names: "vacant (names s) x \<longleftrightarrow> entries_of s x = []"
  by (cases "entries_of s x") (auto simp: vacant_def names_def)

lemma judged_add:
  "case may_add (names s) (is_dir s) i name of
     Grant \<Rightarrow> \<exists>c s'. tmp_create now i name kind mode rdev s = (Inr c, s')
   | Refuse e \<Rightarrow> \<exists>s'. tmp_create now i name kind mode rdev s = (Inl e, s')
   | _ \<Rightarrow> False"
  by (auto simp: may_add_def tmp_create_def names_def split: prod.split)

lemma judged_rename:
  "case judge (names s) (is_dir s) (same_fs s) (Rename i old nd new) of
     Grant \<Rightarrow> \<exists>s'. tmp_rename now i old nd new s = Some (Inr (), s')
   | Refuse e \<Rightarrow> \<exists>s'. tmp_rename now i old nd new s = Some (Inl e, s')
   | Hang \<Rightarrow> tmp_rename now i old nd new s = None
   | AnyEnd \<Rightarrow> False"
proof -
  let ?s1 = "on_entries i (dir_remove old) s"
  have m: "map_of (entries_of u x) n = names u (x, n)" for u x n by (simp add: names_def)
  have n1: "(names s)((i, old) := None) = names ?s1" by (rule names_remove [symmetric])
  have v: "vacant (names ?s1) x \<longleftrightarrow> entries_of ?s1 x = []" and d: "is_dir ?s1 x = is_dir s x" for x
    by (simp_all only: vacant_names is_dir_simps)
  show ?thesis
  proof (cases "same_fs s nd i \<and> names s (i, old) \<noteq> None")
    case False
    then show ?thesis by (auto simp: tmp_rename_def same_fs_def m)
  next
    case True
    then obtain c z where c: "tf_nodes s nd = Some z" "fs_id_of s nd = fs_id_of s i" "names s (i, old) = Some c"
      by (auto simp: same_fs_def)
    have r: "tmp_rename now i old nd new s =
       (let moved = touch now nd (touch now i (on_entries nd (dir_insert new c) (on_node c (\<lambda>n. n\<lparr>ti_parent := Some nd\<rparr>) ?s1)))
        in case names ?s1 (nd, new) of
             None \<Rightarrow> Some (Inr (), moved)
           | Some x \<Rightarrow>
               if is_dir s x \<and> x = nd then None
               else if is_dir s x \<and> entries_of ?s1 x \<noteq> [] then
                 (if nd = i then None else Some (Inl ENOTEMPTY, on_entries i (dir_insert old c) ?s1))
               else Some (Inr (), moved))"
      using c unfolding tmp_rename_def m Let_def d by simp
    have j: "judge (names s) (is_dir s) (same_fs s) (Rename i old nd new) =
       (case names ?s1 (nd, new) of
          None \<Rightarrow> Grant
        | Some x \<Rightarrow>
            if is_dir s x \<and> x = nd then Hang
            else if is_dir s x \<and> entries_of ?s1 x \<noteq> [] then (if nd = i then Hang else Refuse ENOTEMPTY)
            else Grant)"
      using True c(3) unfolding judge.simps n1 v by simp
    define q where "q = names ?s1 (nd, new)"
    show ?thesis unfolding r j Let_def q_def [symmetric] by (cases q) (auto simp del: entries_of_simps)
  qed
qed

lemma exec_judged:
  "case judge (names s) (is_dir s) (same_fs s) c of
     Grant \<Rightarrow> \<exists>s'. tmp_exec now c s = Some (Inr (), s')
   | Refuse e \<Rightarrow> \<exists>s'. tmp_exec now c s = Some (Inl e, s')
   | Hang \<Rightarrow> tmp_exec now c s = None
   | AnyEnd \<Rightarrow> \<exists>r s'. tmp_exec now c s = Some (r, s')"
proof (cases c)
  case (Create i name kind mode rdev)
  then show ?thesis using judged_add [where s = s and i = i and name = name and now = now and kind = kind and mode = mode and rdev = rdev] by (auto simp: ended_def split: verdict.splits)
next
  case (MkSymlink i name target)
  then show ?thesis using judged_add [where s = s and i = i and name = name and now = now and kind = Symlink and mode = "0x1FF" and rdev = 0] by (auto simp: tmp_symlink_def ended_def split: verdict.splits)
next
  case (Link i name t)
  then show ?thesis by (auto simp: tmp_link_def ended_def same_fs_def names_def)
next
  case (Unlink i name)
  then show ?thesis by (auto simp: tmp_unlink_def ended_def names_def split: option.split)
next
  case (Rmdir i name)
  then show ?thesis by (auto simp: tmp_rmdir_def vacant_names names_def split: option.split)
next
  case (Rename i old nd new)
  show ?thesis
    unfolding Rename tmp_exec.simps
    using judged_rename [where s = s and i = i and old = old and nd = nd and new = new and now = now]
    by (cases "judge (names s) (is_dir s) (same_fs s) (Rename i old nd new)") (simp_all only: verdict.case)
qed (simp_all add: ended_def)

text \<open>
  C21. The directory operations of the in-memory file system, said of the map from names to inodes alone. Which
  calls are granted, which are refused and with what error (a name that exists, is missing, or is or is not a
  directory, a directory that is not empty, another file system) and which never return (\<open>rename\<close> over a directory
  that is not empty within one directory, or onto a directory itself, and \<open>rmdir\<close> of a directory from itself) follows
  from the names; a granted call changes the map exactly at the names it is given, a refused one and every read and
  write of data not at all. Every call keeps the entries sorted and leading to inodes that are alive, only
  directories with entries, and every directory with at most one name, in the directory its \<open>..\<close> leads to. That
  there are no cycles is not claimed (\<open>rename_into_itself_detaches\<close>).
\<close>

theorem tmpfs_names_exact:
  assumes "tree_inv s" "call_ok s c"
  shows "case judge (names s) (is_dir s) (same_fs s) c of
     Grant \<Rightarrow> \<exists>s'. tmp_exec now c s = Some (Inr (), s') \<and> tree_inv s' \<and> names s' = named c (tf_next_ino s) (names s)
   | Refuse e \<Rightarrow> \<exists>s'. tmp_exec now c s = Some (Inl e, s') \<and> tree_inv s' \<and> names s' = names s
   | Hang \<Rightarrow> tmp_exec now c s = None
   | AnyEnd \<Rightarrow> \<exists>r s'. tmp_exec now c s = Some (r, s') \<and> tree_inv s' \<and> names s' = names s"
proof -
  have nm: "tmp_exec now c s = Some (r, s') \<Longrightarrow>
      tree_inv s' \<and> names s' = (if r = Inr () then named c (tf_next_ino s) (names s) else names s)" for r s'
    by (rule exec_names [OF assms])
  have data: "named c n N = N" if "judge (names s) (is_dir s) (same_fs s) c = AnyEnd" for n N
    using that by (cases c) (auto simp: may_add_def split: if_splits option.splits)
  show ?thesis
    using exec_judged [where s = s and c = c and now = now] nm data by (cases "judge (names s) (is_dir s) (same_fs s) c") fastforce+
qed

text \<open>An empty file system on the machine of the other examples; its root is inode 1.\<close>

definition demo_tmpfs :: tmpfs where
  "demo_tmpfs = snd (new_fs 0 \<lparr>tf_nodes = (\<lambda>_. None), tf_mach = demo_machine 0, tf_next_ino = 1, tf_next_fs = 1, tf_anon_fs = None\<rparr>)"

lemma demo_tmpfs_facts:
  "tree_inv demo_tmpfs" "tf_next_ino demo_tmpfs = 2" "is_dir demo_tmpfs 1" "entries_of demo_tmpfs i = []" "names demo_tmpfs k = None"
proof -
  let ?e = "\<lparr>tf_nodes = (\<lambda>_. None), tf_mach = demo_machine 0, tf_next_ino = 1, tf_next_fs = 2, tf_anon_fs = None\<rparr>"
  let ?n = "inode_new 1 Dir 0x1ED 0 0"
  have inv: "tree_inv ?e" by (simp add: tree_inv_def names_def entries_of_def)
  have a: "add_node ?n ?e = (1, demo_tmpfs)"
    by (simp add: demo_tmpfs_def new_fs_def add_node_def)
  have n: "ti_entries ?n = []" "ti_kind ?n = Dir" by (simp_all add: inode_new_def)
  note t = tree_inv_add [OF inv a n(1)]
  show "tree_inv demo_tmpfs" by (rule t(1))
  show "tf_next_ino demo_tmpfs = 2" using add_node_simps(3) [OF a] by simp
  show "is_dir demo_tmpfs 1" using t(3) n(2) by simp
  show e: "entries_of demo_tmpfs i = []" for i using t(4) by (simp add: entries_of_def)
  show "names demo_tmpfs k = None" by (simp add: names_def e)
qed

theorem tmpfs_names_exact_witness:
  "(\<exists>s'. tmp_exec 5 (Create 1 ''a'' File 0x1A4 0) demo_tmpfs = Some (Inr (), s') \<and> tree_inv s' \<and> names s' (1, ''a'') = Some 2)
   \<and> (\<exists>s'. tmp_exec 5 (Unlink 1 ''a'') demo_tmpfs = Some (Inl ENOENT, s') \<and> names s' = names demo_tmpfs)"
proof
  have "judge (names demo_tmpfs) (is_dir demo_tmpfs) (same_fs demo_tmpfs) (Create 1 ''a'' File 0x1A4 0) = Grant"
    "judge (names demo_tmpfs) (is_dir demo_tmpfs) (same_fs demo_tmpfs) (Unlink 1 ''a'') = Refuse ENOENT"
    using demo_tmpfs_facts by (simp_all add: may_add_def)
  then show "\<exists>s'. tmp_exec 5 (Create 1 ''a'' File 0x1A4 0) demo_tmpfs = Some (Inr (), s') \<and> tree_inv s' \<and> names s' (1, ''a'') = Some 2"
    "\<exists>s'. tmp_exec 5 (Unlink 1 ''a'') demo_tmpfs = Some (Inl ENOENT, s') \<and> names s' = names demo_tmpfs"
    using tmpfs_names_exact [OF demo_tmpfs_facts(1), of "Create 1 ''a'' File 0x1A4 0" 5]
      tmpfs_names_exact [OF demo_tmpfs_facts(1), of "Unlink 1 ''a''" 5] demo_tmpfs_facts(2)
    by (auto simp del: tmp_exec.simps judge.simps)
qed

section \<open>Link counts\<close>

definition nlink_of :: "tmpfs \<Rightarrow> nat \<Rightarrow> u32 option" where
  "nlink_of s i = (case tf_nodes s i of Some n \<Rightarrow> if ti_kind n = Dir then None else Some (ti_nlink n) | None \<Rightarrow> None)"

definition link_set :: "tmpfs \<Rightarrow> nat \<Rightarrow> (nat \<times> string) set" where
  "link_set s i = {k. names s k = Some i}"

definition links_ok :: "tmpfs \<Rightarrow> bool" where
  "links_ok s \<longleftrightarrow> (\<forall>i v. nlink_of s i = Some v \<longrightarrow> unat v = card (link_set s i))"

text \<open>A call that neither overflows a count nor replaces a file by renaming over it.\<close>

fun gentle :: "tmpfs \<Rightarrow> tmp_call \<Rightarrow> bool" where
  "gentle s (Link i name t) \<longleftrightarrow> (\<forall>v. nlink_of s t = Some v \<longrightarrow> unat v + 1 < 2 ^ 32)"
| "gentle s (Rename i old nd new) \<longleftrightarrow> (nd, new) = (i, old) \<or> (\<forall>x. names s (nd, new) = Some x \<longrightarrow> is_dir s x)"
| "gentle s c \<longleftrightarrow> True"

lemma finite_link_set: "tree_inv s \<Longrightarrow> finite (link_set s i)"
proof -
  assume inv: "tree_inv s"
  have "link_set s i \<subseteq> (SIGMA d:dom (tf_nodes s). fst ` set (entries_of s d))"
  proof
    fix k assume "k \<in> link_set s i"
    then have m: "map_of (entries_of s (fst k)) (snd k) = Some i" by (simp add: link_set_def names_def)
    then have "fst k \<in> dom (tf_nodes s)" by (cases "tf_nodes s (fst k)") (auto simp: entries_of_def)
    moreover have "snd k \<in> fst ` set (entries_of s (fst k))" using map_of_SomeD [OF m] by force
    ultimately show "k \<in> (SIGMA d:dom (tf_nodes s). fst ` set (entries_of s d))" by (cases k) simp
  qed
  moreover have "finite (SIGMA d:dom (tf_nodes s). fst ` set (entries_of s d))" using tree_invD(1) [OF inv] by simp
  ultimately show ?thesis by (rule finite_subset)
qed

lemma nlink_of_count:
  "nlink_of (on_node j (\<lambda>n. n\<lparr>ti_nlink := h (ti_nlink n)\<rparr>) s) i = (if i = j then map_option h (nlink_of s j) else nlink_of s i)"
  by (auto simp: nlink_of_def split: option.split)

lemma nlink_of_simps [simp]:
  "nlink_of (touch now j s) i = nlink_of s i" "nlink_of (on_entries j g s) i = nlink_of s i"
  "nlink_of (set_data j dm s) i = nlink_of s i" "nlink_of (on_node j (\<lambda>n. n\<lparr>ti_parent := p\<rparr>) s) i = nlink_of s i"
  "nlink_of (on_node j (\<lambda>n. n\<lparr>ti_link := l\<rparr>) s) i = nlink_of s i"
  by (auto simp: nlink_of_def touch_def on_entries_def set_data_def split: option.split)

lemma nlink_of_create:
  assumes "tmp_create now i name kind mode rdev s = (r, s')" "tree_inv s"
  shows "nlink_of s' x = (if r = Inr (tf_next_ino s) \<and> x = tf_next_ino s then (if kind = Dir then None else Some 1) else nlink_of s x)"
proof -
  have "nlink_of s (tf_next_ino s) = None" using fresh_node [OF assms(2)] by (simp add: nlink_of_def)
  then show ?thesis
    using assms(1) by (auto simp: tmp_create_def add_node_def split: if_splits) (auto simp: nlink_of_def inode_new_def)
qed

lemma links_ok_upd:
  assumes "links_ok s" "\<And>i. nlink_of s' i = nlink_of s i" "\<And>i. nlink_of s i \<noteq> None \<Longrightarrow> card (link_set s' i) = card (link_set s i)"
  shows "links_ok s'"
  using assms by (auto simp: links_ok_def)

lemma link_set_upd: "names s' = (names s)(k := v) \<Longrightarrow>
    link_set s' i = (if v = Some i then insert k (link_set s i) else link_set s i - {k})"
  by (auto simp: link_set_def)

lemma card_link_set_same: "names s k = None \<or> (\<exists>x. names s k = Some x \<and> x \<noteq> i) \<Longrightarrow> link_set s i - {k} = link_set s i"
  by (auto simp: link_set_def)

lemma links_create:
  assumes ok: "links_ok s" and inv: "tree_inv s" and cr: "tmp_create now i name kind mode rdev s = (r, s')"
  shows "links_ok s'"
proof (cases r)
  case (Inl e)
  then have "s' = s" using cr by (auto simp: tmp_create_def split: if_splits prod.splits)
  then show ?thesis using ok by simp
next
  case (Inr c)
  then have c: "c = tf_next_ino s" using create_tree(3) [OF inv cr] by simp
  have free: "names s (i, name) = None" using cr Inr by (auto simp: tmp_create_def names_def split: if_splits)
  have nm: "names s' = (names s)((i, name) \<mapsto> c)" using create_tree(2) [OF inv cr] Inr c by simp
  have none: "link_set s c = {}" using unnamed_fresh [OF inv] c by (auto simp: link_set_def)
  have ls: "link_set s' x = (if x = c then {(i, name)} else link_set s x)" for x
    using link_set_upd [OF nm, of x] none card_link_set_same [of s "(i, name)" x] free by auto
  show ?thesis
    using ok nlink_of_create [OF cr inv] Inr c by (auto simp: links_ok_def ls split: if_splits)
qed

lemma links_link:
  assumes ok: "links_ok s" and inv: "tree_inv s" and l: "tmp_link i name t s = (r, s')"
    and few: "\<forall>v. nlink_of s t = Some v \<longrightarrow> unat v + 1 < 2 ^ 32"
  shows "links_ok s'"
proof (cases r)
  case (Inl e)
  then have "s' = s" using l by (auto simp: tmp_link_def split: if_splits)
  then show ?thesis using ok by simp
next
  case (Inr u)
  have e: "s' = on_entries i (dir_insert name t) (on_node t (\<lambda>n. n\<lparr>ti_nlink := ti_nlink n + 1\<rparr>) s)"
    "\<not> is_dir s t" "names s (i, name) = None"
    using l Inr by (auto simp: tmp_link_def names_def split: if_splits)
  have nm: "names s' = (names s)((i, name) \<mapsto> t)" using link_tree [OF inv l] Inr by simp
  have nl: "nlink_of s' x = (if x = t then map_option (\<lambda>v. v + 1) (nlink_of s t) else nlink_of s x)" for x
    by (simp add: e(1) nlink_of_count [where h = "\<lambda>v. v + 1"])
  have ls: "card (link_set s' x) = card (link_set s x) + (if x = t then 1 else 0)" for x
    using link_set_upd [OF nm, of x] e(3) finite_link_set [OF inv, of x] card_link_set_same [of s "(i, name)" x]
    by (auto simp: link_set_def)
  show ?thesis
    unfolding links_ok_def ls nl using ok few unat_inc by (auto simp: links_ok_def split: if_splits)
qed

lemma links_unlink:
  assumes ok: "links_ok s" and inv: "tree_inv s" and l: "tmp_unlink now i name s = (r, s')"
  shows "links_ok s'"
proof (cases r)
  case (Inl e)
  then have "s' = s" using l by (auto simp: tmp_unlink_def split: if_splits option.splits)
  then show ?thesis using ok by simp
next
  case (Inr u)
  then obtain c where e: "s' = touch now i (on_node c (\<lambda>n. n\<lparr>ti_nlink := ti_nlink n - 1\<rparr>) (on_entries i (dir_remove name) s))"
    "\<not> is_dir s c" "names s (i, name) = Some c"
    using l by (auto simp: tmp_unlink_def names_def split: if_splits option.splits)
  have nm: "names s' = (names s)((i, name) := None)" using unlink_tree [OF inv l] Inr by simp
  have nl: "nlink_of s' x = (if x = c then map_option (\<lambda>v. v - 1) (nlink_of s c) else nlink_of s x)" for x
    by (simp add: e(1) nlink_of_count [where h = "\<lambda>v. v - 1"])
  have inc: "(i, name) \<in> link_set s x \<longleftrightarrow> x = c" for x using e(3) by (auto simp: link_set_def)
  have ls: "card (link_set s' x) = card (link_set s x) - (if x = c then 1 else 0)" for x
  proof -
    have "link_set s' x = link_set s x - {(i, name)}" using link_set_upd [OF nm, of x] by simp
    then show ?thesis using inc [of x] by (simp add: card_Diff_singleton_if)
  qed
  have pos: "0 < card (link_set s c)" using inc [of c] finite_link_set [OF inv, of c] by (metis card_gt_0_iff empty_iff)
  have "unat (v - 1) = unat v - 1" if "nlink_of s c = Some v" for v
  proof -
    have "0 < unat v" using that ok pos by (simp add: links_ok_def)
    then show ?thesis by (intro unat_dec) auto
  qed
  then show ?thesis
    unfolding links_ok_def ls nl using ok by (auto simp: links_ok_def split: if_splits)
qed

lemma links_rename:
  assumes ok: "links_ok s" and inv: "tree_inv s" and nd: "is_dir s nd"
    and r: "tmp_rename now i old nd new s = Some (r, s')" and g: "gentle s (Rename i old nd new)"
  shows "links_ok s'"
proof -
  have nm: "names s' = (if r = Inr () then named (Rename i old nd new) 0 (names s) else names s)"
    using rename_tree [OF inv nd r] by blast
  have nl: "nlink_of s' x = nlink_of s x" for x
    using rename_outcome [OF r] by (elim disjE exE conjE) simp_all
  have "card (link_set s' x) = card (link_set s x)" if x: "nlink_of s x \<noteq> None" for x
  proof (cases "r = Inr ()")
    case False
    then show ?thesis using nm by (simp add: link_set_def)
  next
    case True
    then obtain c where c: "names s (i, old) = Some c"
      using rename_outcome [OF r] by auto
    have ns: "names s' = (names s)((i, old) := None, (nd, new) \<mapsto> c)" using nm True c by simp
    have nx: "\<not> is_dir s x" using x by (auto simp: nlink_of_def is_dir_def split: option.splits)
    have g': "(nd, new) = (i, old) \<or> (\<forall>y. names s (nd, new) = Some y \<longrightarrow> is_dir s y)" using g by simp
    show ?thesis
    proof (cases "x = c")
      case True
      have ls: "link_set s' c = insert (nd, new) (link_set s c - {(i, old)})" using ns by (auto simp: link_set_def)
      have mem: "(i, old) \<in> link_set s c" using c by (simp add: link_set_def)
      have "(nd, new) = (i, old) \<or> (nd, new) \<notin> link_set s c" using g' nx True by (auto simp: link_set_def)
      then show ?thesis
      proof
        assume "(nd, new) = (i, old)"
        then show ?thesis using True ls mem by (simp add: insert_absorb)
      next
        assume "(nd, new) \<notin> link_set s c"
        then have "card (link_set s' c) = Suc (card (link_set s c - {(i, old)}))"
          using ls finite_link_set [OF inv, of c] by simp
        then show ?thesis using True card_Suc_Diff1 [OF finite_link_set [OF inv] mem] by simp
      qed
    next
      case False
      have "names s (nd, new) \<noteq> Some x \<or> (nd, new) = (i, old)" using g' nx by blast
      then have "link_set s' x = link_set s x" using ns c False by (auto simp: link_set_def)
      then show ?thesis by simp
    qed
  qed
  then show ?thesis by (rule links_ok_upd [OF ok nl])
qed

text \<open>
  The link count of every file is the number of its names, over every call of the file system that does
  not rename over an existing file (which forgets to count the lost name, see below).
\<close>

theorem tmpfs_link_counts:
  assumes "tree_inv s" "links_ok s" "call_ok s c" "gentle s c" "tmp_exec now c s = Some (r, s')"
  shows "links_ok s'"
proof (cases c)
  case (Create i name kind mode rdev)
  then show ?thesis using links_create [OF assms(2,1), of now i name kind mode rdev] assms(5) by (auto simp: ended_Some prod_eq_iff)
next
  case (MkSymlink i name target)
  obtain r1 s1 where cr: "tmp_create now i name Symlink 0x1FF 0 s = (r1, s1)" by (metis surj_pair)
  have l: "links_ok s1" by (rule links_create [OF assms(2,1) cr])
  have "links_ok (on_node x (\<lambda>n. n\<lparr>ti_link := target\<rparr>) s1)" for x
    by (rule links_ok_upd [OF l]) (simp_all add: link_set_def names_def entries_of_on_node)
  then show ?thesis using l cr assms(5) MkSymlink by (auto simp: tmp_symlink_def ended_Some split: sum.splits)
next
  case (Link i name t)
  then show ?thesis using links_link [OF assms(2,1), of i name t] assms(4,5) by (auto simp: ended_Some prod_eq_iff)
next
  case (Unlink i name)
  then show ?thesis using links_unlink [OF assms(2,1), of now i name] assms(5) by (auto simp: ended_Some prod_eq_iff)
next
  case (Rmdir i name)
  obtain r1 s1 where rm: "tmp_rmdir now i name s = Some (r1, s1)" "r = r1" "s' = s1" using assms(5) Rmdir by simp
  have nl: "nlink_of s1 x = nlink_of s x" for x
    using rm(1) by (auto simp: tmp_rmdir_def split: if_splits option.splits)
  have "card (link_set s1 x) = card (link_set s x)" if x: "nlink_of s x \<noteq> None" for x
  proof (cases "r1 = Inr ()")
    case True
    then obtain d where d: "names s (i, name) = Some d" "is_dir s d"
      using rm(1) by (auto simp: tmp_rmdir_def names_def split: if_splits option.splits)
    then have "x \<noteq> d" using x by (auto simp: nlink_of_def is_dir_def split: option.splits)
    then show ?thesis using rmdir_tree [OF assms(1) rm(1)] True d(1) by (auto simp: link_set_def intro: arg_cong [where f = card])
  next
    case False
    then show ?thesis using rmdir_tree [OF assms(1) rm(1)] by (simp add: link_set_def)
  qed
  then have "links_ok s1" by (rule links_ok_upd [OF assms(2) nl])
  then show ?thesis using rm by simp
next
  case (Rename i old nd new)
  show ?thesis
  proof (cases "is_dir s nd")
    case True
    then show ?thesis using links_rename [OF assms(2,1) True] assms(4,5) Rename by simp
  next
    case False
    then show ?thesis using assms(2,3,5) Rename by (auto simp: tmp_rename_def)
  qed
next
  case (WriteAt i off bs)
  have "nlink_of (snd (tmp_write_at now i off bs s)) x = nlink_of s x" for x
    by (auto simp: tmp_write_at_def split: prod.split sum.split)
  then show ?thesis
    using links_ok_upd [OF assms(2)] same_tree_facts(3) [OF data_call_tree(1)] assms(5) WriteAt by (auto simp: ended_Some link_set_def)
next
  case (Truncate i sz)
  have "nlink_of (snd (tmp_truncate now i sz s)) x = nlink_of s x" for x by (simp add: tmp_truncate_def)
  then show ?thesis
    using links_ok_upd [OF assms(2)] same_tree_facts(3) [OF data_call_tree(2)] assms(5) Truncate by (auto simp: ended_Some link_set_def)
next
  case (GetPage i idx)
  have "nlink_of (snd (tmp_get_page i idx s)) x = nlink_of s x" for x by (simp add: tmp_get_page_def split: prod.split)
  then show ?thesis
    using links_ok_upd [OF assms(2)] same_tree_facts(3) [OF data_call_tree(3)] assms(5) GetPage by (auto simp: ended_Some link_set_def)
qed

theorem tmpfs_link_counts_witness:
  "\<exists>s'. tmp_exec 5 (Create 1 ''a'' File 0x1A4 0) demo_tmpfs = Some (Inr (), s') \<and> links_ok s'"
proof -
  have ok: "links_ok demo_tmpfs"
    by (simp add: links_ok_def nlink_of_def demo_tmpfs_def new_fs_def add_node_def inode_new_def split: option.split)
  have "fst (tmp_create 5 1 ''a'' File 0x1A4 0 demo_tmpfs) = Inr 2"
    using demo_tmpfs_facts by (simp add: tmp_create_def add_node_def)
  then obtain s' where e: "tmp_exec 5 (Create 1 ''a'' File 0x1A4 0) demo_tmpfs = Some (Inr (), s')"
    by (simp add: ended_def)
  from tmpfs_link_counts [OF demo_tmpfs_facts(1) ok _ _ e] e show ?thesis by simp
qed

section \<open>What renaming does wrong\<close>

text \<open>Renaming over a file takes its name away but not its count.\<close>

theorem rename_over_file_miscounts:
  assumes inv: "tree_inv s" and ok: "links_ok s" and nd: "is_dir s nd"
    and r: "tmp_rename now i old nd new s = Some (Inr (), s')"
    and x: "names s (nd, new) = Some x" "\<not> is_dir s x" "names s (i, old) \<noteq> Some x"
  shows "\<not> links_ok s'"
proof -
  obtain c where c: "names s (i, old) = Some c" "c \<noteq> x" using rename_outcome [OF r] x(3) by auto
  have nl: "nlink_of s' y = nlink_of s y" for y
    using rename_outcome [OF r] by (elim disjE exE conjE) simp_all
  have ns: "names s' = (names s)((i, old) := None, (nd, new) \<mapsto> c)" using rename_tree [OF inv nd r, of 0] c by simp
  have mem: "(nd, new) \<in> link_set s x" using x(1) by (simp add: link_set_def)
  have "link_set s' x = link_set s x - {(nd, new)}" using ns c by (auto simp: link_set_def)
  then have less: "card (link_set s' x) < card (link_set s x)"
    using card_Diff1_less [OF finite_link_set [OF inv] mem] by simp
  obtain v where v: "nlink_of s x = Some v"
    using tree_invD(3) [OF inv x(1)] x(2) by (auto simp: nlink_of_def is_dir_def split: option.splits)
  then have "unat v = card (link_set s x)" using ok by (simp add: links_ok_def)
  then show ?thesis using v nl less unfolding links_ok_def by force
qed

text \<open>
  A directory may be moved into itself. Its only name is then inside it, so nothing reaches it or what
  it holds any more.
\<close>

theorem rename_into_itself_detaches:
  assumes inv: "tree_inv s" and c: "names s (i, old) = Some c" "is_dir s c" and fs: "fs_id_of s c = fs_id_of s i"
    and free: "names s (c, new) = None"
  shows "\<exists>s'. tmp_rename now i old c new s = Some (Inr (), s') \<and> names s' (c, new) = Some c
     \<and> (\<forall>k. names s' k = Some c \<longrightarrow> k = (c, new))"
proof -
  let ?s1 = "on_entries i (dir_remove old) s"
  have "names ?s1 (c, new) = None" using free by (simp add: names_remove)
  then have "map_of (entries_of ?s1 c) new = None" by (simp add: names_def del: entries_of_simps)
  then obtain s' where r: "tmp_rename now i old c new s = Some (Inr (), s')"
    using c(1) fs is_dir_node [OF c(2)] by (auto simp: tmp_rename_def Let_def names_def simp del: entries_of_simps)
  have ns: "names s' = (names s)((i, old) := None, (c, new) \<mapsto> c)" using rename_tree [OF inv c(2) r, of 0] c(1) by simp
  have "names s k \<noteq> Some c" if "k \<noteq> (i, old)" for k using tree_invD(5) [OF inv c] that by blast
  then show ?thesis using r ns by auto
qed

text \<open>Renaming over a directory that is not empty, in the same directory, never returns.\<close>

theorem rename_over_full_directory_hangs:
  assumes c: "names s (i, old) = Some c" and x: "names s (i, new) = Some x" "is_dir s x" "entries_of s x \<noteq> []"
    and ne: "old \<noteq> new" "x \<noteq> i"
  shows "tmp_rename now i old i new s = None"
proof -
  have i: "tf_nodes s i \<noteq> None" using c by (auto simp: names_def entries_of_def split: option.splits)
  let ?s1 = "on_entries i (dir_remove old) s"
  have "map_of (entries_of ?s1 i) new = Some x" using x(1) ne i by (simp add: names_def)
  moreover have "entries_of ?s1 x \<noteq> []" "is_dir ?s1 x" using x ne by simp_all
  ultimately show ?thesis
    using c i ne(2) by (simp add: tmp_rename_def Let_def names_def del: entries_of_simps)
qed

section \<open>Listing a directory\<close>

text \<open>The entries at positions 0, 1, \<dots> are \<open>.\<close>, \<open>..\<close> and every name once, in order, and then there are none.\<close>

theorem readdir_lists_all:
  assumes "tree_inv s" "is_dir s i"
  shows "tmp_readdir i (2 + j) s = Inr (if j < length (entries_of s i)
       then Some \<lparr>de_name = fst (entries_of s i ! j), de_ino = snd (entries_of s i ! j), de_kind = kind_of s (snd (entries_of s i ! j))\<rparr>
       else None)
     \<and> sorted_entries (entries_of s i) \<and> distinct (map fst (entries_of s i))"
proof -
  obtain n where n: "tf_nodes s i = Some n" using is_dir_node [OF assms(2)] by auto
  then have so: "sorted_entries (entries_of s i)" using tree_invD(2) [OF assms(1)] by (simp add: entries_of_def)
  then have "sorted_wrt (<) (map fst (entries_of s i))" by (simp add: sorted_entries_def sorted_wrt_map)
  then have "distinct (map fst (entries_of s i))" using strict_sorted_iff by blast
  then show ?thesis using so assms(2) by (simp add: tmp_readdir_def Let_def)
qed

section \<open>Regular files of the file system\<close>

definition tmp_files :: "tmpfs \<Rightarrow> files" where
  "tmp_files s i = map_option ti_data (tf_nodes s i)"

definition tmp_trait :: "nat \<Rightarrow> (nat, tmpfs) inode_trait" where
  "tmp_trait now = \<lparr>it_kind = (\<lambda>i s. kind_of s i), it_size = tmp_size,
     it_read_at = (\<lambda>i off n s. (tmp_read_at i off n s, s)), it_write_at = tmp_write_at now\<rparr>"

definition data_inv :: "tmpfs \<Rightarrow> bool" where
  "data_inv s \<longleftrightarrow> files_inv (tmp_files s) (tf_mach s)"

definition regular :: "nat \<Rightarrow> tmpfs \<Rightarrow> bool" where
  "regular i s \<longleftrightarrow> (case tf_nodes s i of Some n \<Rightarrow> ti_kind n = File | None \<Rightarrow> False)"

definition file_content :: "nat \<Rightarrow> tmpfs \<Rightarrow> nat \<Rightarrow> u8" where
  "file_content i s j = page_byte (data_of s i) (tf_mach s) j"

lemma regular_facts:
  assumes "regular i s"
  shows "kind_of s i = File" "\<not> is_dir s i" "tmp_size i s = td_size (data_of s i)" "tmp_files s i = Some (data_of s i)"
  using assms by (auto simp: regular_def kind_of_def is_dir_def tmp_size_def data_of_def tmp_files_def split: option.splits)

lemma tmp_files_set_data: "tf_nodes s i \<noteq> None \<Longrightarrow> tmp_files (touch now i (set_data i (d, m) s)) = (tmp_files s)(i \<mapsto> d)"
  by (auto simp: tmp_files_def fun_eq_iff touch_nodes set_data_def)

lemma tmp_write_at_spec:
  assumes inv: "data_inv s" and reg: "regular i s" and small: "off + length bs < 2 ^ 63"
    and w: "tmp_write_at now i off bs s = (Inr k, s')"
  shows "k = length bs" "data_inv s'" "regular i s'" "tmp_size i s' = max (tmp_size i s) (off + length bs)"
    "file_content i s' j = (if off \<le> j \<and> j < off + length bs then bs ! (j - off) else file_content i s j)"
    "x \<noteq> i \<Longrightarrow> file_content x s' j = file_content x s j"
proof -
  note r = regular_facts [OF reg]
  have al: "tf_nodes s i \<noteq> None" using reg by (auto simp: regular_def split: option.splits)
  have fi: "files_inv (tmp_files s) (tf_mach s)" using inv by (simp add: data_inv_def)
  have small': "off + length bs < 2 ^ 64" using small by simp
  obtain r1 d' m' where dw: "data_write_at off bs (data_of s i, tf_mach s) = (r1, d', m')" by (metis prod_cases3)
  have e: "r1 = Inr k" "s' = touch now i (set_data i (d', m') s)" using w r(2) dw by (auto simp: tmp_write_at_def split: sum.splits)
  note spec = data_write_at_spec [OF fi r(4) small' dw]
  have f': "tmp_files s' = (tmp_files s)(i \<mapsto> d')" "tf_mach s' = m'"
    using tmp_files_set_data [OF al, of now d' m'] e(2) by (simp_all add: set_data_def touch_def)
  have sp: "k = length bs" "files_inv ((tmp_files s)(i \<mapsto> d')) m'" "td_size d' = max (td_size (data_of s i)) (off + length bs)"
    "byte_of ((tmp_files s)(i \<mapsto> d')) m' = patch i off bs (byte_of (tmp_files s) (tf_mach s))"
    using spec e(1) by auto
  show "k = length bs" by (rule sp(1))
  show "data_inv s'" using sp(2) f' by (simp add: data_inv_def)
  show reg': "regular i s'" using reg e(2) by (auto simp: regular_def touch_nodes set_data_def split: option.splits)
  have d': "data_of s' i = d'" using regular_facts(4) [OF reg'] f'(1) by simp
  show "tmp_size i s' = max (tmp_size i s) (off + length bs)" using regular_facts(3) [OF reg'] r(3) d' sp(3) by simp
  have fc: "file_content y t j = byte_of (tmp_files t) (tf_mach t) y j" if "tf_nodes t y \<noteq> None" for y t j
    using that by (auto simp: file_content_def byte_of_def tmp_files_def data_of_def)
  have al': "tf_nodes s' i \<noteq> None" using reg' by (auto simp: regular_def split: option.splits)
  show "file_content i s' j = (if off \<le> j \<and> j < off + length bs then bs ! (j - off) else file_content i s j)"
    unfolding fc [OF al'] fc [OF al] f' sp(4) by (simp add: patch_def)
  show "file_content x s' j = file_content x s j" if "x \<noteq> i"
  proof (cases "tf_nodes s x")
    case None
    then have "tf_nodes s' x = None" using e(2) that by (simp add: touch_nodes set_data_def)
    then show ?thesis using None by (simp add: file_content_def data_of_def page_byte_def data_new_def page_at_def)
  next
    case (Some n)
    then have "tf_nodes s' x \<noteq> None" using e(2) that by (simp add: touch_nodes set_data_def)
    then show ?thesis using fc [of s' x] fc [of s x] Some that unfolding f' sp(4) by (simp add: patch_def)
  qed
qed

text \<open>The file system keeps the contract of \<open>byte_file\<close> for each of its regular files.\<close>

interpretation tmp: byte_file "tmp_trait now" i "file_content i" "\<lambda>s. data_inv s \<and> regular i s" for now i
proof unfold_locales
  show "it_kind (tmp_trait now) i s \<noteq> Dir" if "data_inv s \<and> regular i s" for s
    using that regular_facts(1) by (simp add: tmp_trait_def)
  have sm: "td_size (data_of s i) < 2 ^ 64" if "data_inv s \<and> regular i s" for s
    using that regular_facts(4) by (auto simp: data_inv_def files_inv_def)
  then show "it_size (tmp_trait now) i s < 2 ^ 64" if "data_inv s \<and> regular i s" for s
    using that regular_facts(3) by (simp add: tmp_trait_def)
  show "it_read_at (tmp_trait now) i off n s = (Inr (map (file_content i s) [off..<min (it_size (tmp_trait now) i s) (off + n)]), s)"
    if "data_inv s \<and> regular i s" for s off n
    using that data_read_at_spec [where F = "tmp_files s" and k = i and d = "data_of s i" and m = "tf_mach s" and off = off and n = n] sm [OF that] regular_facts(2-4)
    by (simp add: tmp_trait_def tmp_read_at_def data_inv_def files_inv_def file_content_def)
  show "k = length bs \<and> (data_inv s' \<and> regular i s') \<and> it_size (tmp_trait now) i s' = max (it_size (tmp_trait now) i s) (off + length bs)
      \<and> (\<forall>j. file_content i s' j = (if off \<le> j \<and> j < off + length bs then bs ! (j - off) else file_content i s j))"
    if "data_inv s \<and> regular i s" "off + length bs < 2 ^ 63" "it_write_at (tmp_trait now) i off bs s = (Inr k, s')" for s s' k off bs
    using tmp_write_at_spec [of s i off bs now k s'] that by (simp add: tmp_trait_def)
qed

text \<open>
  C29. Through an open file of the in-memory file system: bytes written at the position of a file opened for
  reading and writing are read back, unchanged, after seeking to where they were written.
\<close>

theorem tmp_file_reads_back:
  assumes "data_inv s" "regular i s" "f_inode f = Some i" "f_flags f = O_RDWR" "f_pos f + length bs < 2 ^ 63"
    "file_write (tmp_trait now) bs f s = (Inr k, f1, s1)"
    "lseek (tmp_trait now) (int (f_pos f)) 0 f1 s1 = (Inr p, f2)"
  shows "file_read (tmp_trait now) (length bs) f2 s1 = (Inr bs, f2\<lparr>f_pos := f_pos f + length bs\<rparr>, s1)"
  using tmp.write_seek_read [of s i f bs now k f1 s1 p f2] assms
  by (simp add: readable_def writable_def O_RDWR_def O_RDONLY_def O_WRONLY_def O_ACCMODE_def O_APPEND_def)

definition demo_file_fs :: tmpfs where
  "demo_file_fs = snd (tmp_create 5 1 ''a'' File 0x1A4 0 demo_tmpfs)"

lemma demo_file_fs_facts: "data_inv demo_file_fs" "regular 2 demo_file_fs" "tf_mach demo_file_fs = demo_machine 0" "data_of demo_file_fs 2 = data_new"
proof -
  have e: "demo_file_fs = touch 5 1 (on_entries 1 (dir_insert ''a'' 2)
      (demo_tmpfs\<lparr>tf_nodes := (tf_nodes demo_tmpfs)(2 \<mapsto> (inode_new (fs_id_of demo_tmpfs 1) File 0x1A4 0 5)\<lparr>ti_parent := Some 1\<rparr>), tf_next_ino := 3\<rparr>))"
    using demo_tmpfs_facts by (simp add: demo_file_fs_def tmp_create_def add_node_def)
  show m: "tf_mach demo_file_fs = demo_machine 0"
    by (simp add: e touch_def on_entries_def demo_tmpfs_def new_fs_def add_node_def)
  show "regular 2 demo_file_fs" "data_of demo_file_fs 2 = data_new"
    by (simp_all add: e regular_def data_of_def touch_nodes on_entries_nodes inode_new_def)
  have root: "tf_nodes demo_tmpfs x = (if x = 1 then Some (inode_new 1 Dir 0x1ED 0 0) else None)" for x
    by (simp add: demo_tmpfs_def new_fs_def add_node_def)
  have "tmp_files demo_file_fs x = (if x = 1 \<or> x = 2 then Some data_new else None)" for x
    by (simp add: e tmp_files_def touch_nodes on_entries_nodes root inode_new_def)
  then have "tmp_files demo_file_fs = (\<lambda>x. if x = 1 \<or> x = 2 then Some data_new else None)" by (simp add: fun_eq_iff)
  then show "data_inv demo_file_fs"
    using demo_machine_facts(3) [of 0]
    by (auto simp: data_inv_def m files_inv_def pages_inv_def tails_zero_def data_new_def held_def page_at_def page_byte_def split: if_splits)
qed

theorem tmp_file_reads_back_witness:
  "\<exists>f1 s1 f2. file_write (tmp_trait 6) [9, 8] (file_new (Some 2) O_RDWR) demo_file_fs = (Inr 2, f1, s1)
     \<and> lseek (tmp_trait 6) 0 0 f1 s1 = (Inr 0, f2) \<and> fst (file_read (tmp_trait 6) 2 f2 s1) = Inr [9, 8]"
proof -
  let ?f = "file_new (Some 2) O_RDWR :: nat vfile"
  note d = demo_file_fs_facts
  have two: "length [9, 8 :: u8] = 2" by simp
  have fi: "files_inv (tmp_files demo_file_fs) (demo_machine 0)" using d(1,3) by (simp add: data_inv_def)
  have k: "tmp_files demo_file_fs 2 = Some data_new" using regular_facts(4) [OF d(2)] d(4) by simp
  obtain r d1 m1 where w: "data_write_at 0 [9, 8] (data_new, demo_machine 0) = (r, d1, m1)" by (metis prod_cases3)
  have pinv: "pages_inv (tmp_files demo_file_fs) (demo_machine 0)" using fi by (simp add: files_inv_def)
  have "r \<noteq> Inl ENOSPC"
  proof (cases rule: page_for_alloc [OF pinv k, of 0])
    case (2 pa d' m')
    then have "write_loop 0 [9, 8] 0 (data_new, demo_machine 0) = (Inr (), d', store_bytes pa 0 [9, 8] m')"
      by (simp add: write_loop.simps [of 0 "[9, 8]"] wadd_def PAGE_SIZE_def Let_def)
    then show ?thesis using w by (auto simp: data_write_at_def Let_def)
  qed (use demo_machine_facts(2) [of 0] in simp)
  then have r: "r = Inr 2" using data_write_at_spec [OF fi k _ w] by auto
  have wr: "tmp_write_at 6 2 0 [9, 8] demo_file_fs = (Inr 2, touch 6 2 (set_data 2 (d1, m1) demo_file_fs))"
    using d(3,4) regular_facts(2) [OF d(2)] w r by (simp add: tmp_write_at_def)
  let ?s1 = "touch 6 2 (set_data 2 (d1, m1) demo_file_fs)"
  have "file_write (tmp_trait 6) [9, 8] ?f demo_file_fs = (Inr 2, ?f\<lparr>f_pos := 2\<rparr>, ?s1)"
    using wr regular_facts(1) [OF d(2)]
    by (simp add: file_write_def writable_def file_new_def reg_write_def tmp_trait_def wadd_def O_RDWR_def O_WRONLY_def O_ACCMODE_def O_APPEND_def)
  moreover have "lseek (tmp_trait 6) 0 0 (?f\<lparr>f_pos := 2\<rparr>) ?s1 = (Inr 0, ?f)"
    by (simp add: lseek_def lseek_to_def file_new_def)
  ultimately show ?thesis
    using tmp_file_reads_back [OF d(1,2), of ?f "[9, 8]" 6 2 "?f\<lparr>f_pos := 2\<rparr>" ?s1 0 ?f, unfolded two]
    by (simp add: file_new_def)
qed

end
