(* ===== verification/Tty.thy ===== *)
theory Tty
  imports Vfs
begin

text \<open>
  The terminal layer, src/research/kernel-rs/kernel/src/dev/tty.rs: the line discipline that turns input
  bytes into edited lines, raw input and signals, reading and writing, the requests that change a
  terminal, and pseudo-terminals.

  The output sink of a terminal is a closure in the source; here it is an argument over an output
  state of any type that says whether it took the bytes. Signals sent to a process group are
  recorded in the order they are sent. A blocked call resumes with the terminal as it finds it, as in
  \<open>Pipe\<close>: the environment is a list of such resumptions.
\<close>

section \<open>Settings\<close>

definition IGNCR :: u32 where "IGNCR = 0x80"
definition ICRNL :: u32 where "ICRNL = 0x100"
definition INLCR :: u32 where "INLCR = 0x40"
definition IXON :: u32 where "IXON = 0x400"
definition BRKINT :: u32 where "BRKINT = 2"
definition OPOST :: u32 where "OPOST = 1"
definition ONLCR :: u32 where "ONLCR = 4"
definition OCRNL :: u32 where "OCRNL = 8"
definition ISIG :: u32 where "ISIG = 1"
definition ICANON :: u32 where "ICANON = 2"
definition ECHO :: u32 where "ECHO = 8"
definition ECHOE :: u32 where "ECHOE = 0x10"
definition ECHOK :: u32 where "ECHOK = 0x20"
definition ECHONL :: u32 where "ECHONL = 0x40"
definition NOFLSH :: u32 where "NOFLSH = 0x80"
definition ECHOCTL :: u32 where "ECHOCTL = 0x200"
definition IEXTEN :: u32 where "IEXTEN = 0x8000"

definition VINTR :: nat where "VINTR = 0"
definition VQUIT :: nat where "VQUIT = 1"
definition VERASE :: nat where "VERASE = 2"
definition VKILL :: nat where "VKILL = 3"
definition VEOF :: nat where "VEOF = 4"
definition VTIME :: nat where "VTIME = 5"
definition VMIN :: nat where "VMIN = 6"
definition VSTART :: nat where "VSTART = 8"
definition VSTOP :: nat where "VSTOP = 9"
definition VSUSP :: nat where "VSUSP = 10"
definition VEOL :: nat where "VEOL = 11"
definition VREPRINT :: nat where "VREPRINT = 12"
definition VWERASE :: nat where "VWERASE = 14"
definition VLNEXT :: nat where "VLNEXT = 15"
definition VEOL2 :: nat where "VEOL2 = 16"

record termios =
  c_iflag :: u32
  c_oflag :: u32
  c_cflag :: u32
  c_lflag :: u32
  c_line :: u8
  c_cc :: "u8 list"

definition default_tty :: termios where
  "default_tty =
     \<lparr>c_iflag = ICRNL OR IXON OR BRKINT, c_oflag = OPOST OR ONLCR, c_cflag = 0xF OR 0x30 OR 0x80 OR 0x400,
      c_lflag = ISIG OR ICANON OR ECHO OR ECHOE OR ECHOK OR ECHOCTL OR IEXTEN, c_line = 0,
      c_cc = (replicate 19 0)[VINTR := 3, VQUIT := 28, VERASE := 127, VKILL := 21, VEOF := 4, VTIME := 0, VMIN := 1,
        VSTART := 17, VSTOP := 19, VSUSP := 26, VREPRINT := 18, VWERASE := 23, VLNEXT := 22]\<rparr>"

abbreviation iflag :: "termios \<Rightarrow> u32 \<Rightarrow> bool" where "iflag t m \<equiv> has (c_iflag t) m"
abbreviation oflag :: "termios \<Rightarrow> u32 \<Rightarrow> bool" where "oflag t m \<equiv> has (c_oflag t) m"
abbreviation lflag :: "termios \<Rightarrow> u32 \<Rightarrow> bool" where "lflag t m \<equiv> has (c_lflag t) m"

definition canon :: "termios \<Rightarrow> bool" where
  "canon t = lflag t ICANON"

text \<open>The byte is the control character \<open>k\<close>; a zero control character is disabled.\<close>

definition is_cc :: "termios \<Rightarrow> nat \<Rightarrow> u8 \<Rightarrow> bool" where
  "is_cc t k b \<longleftrightarrow> b = c_cc t ! k \<and> b \<noteq> 0"

section \<open>Output\<close>

type_synonym 'o sink = "u8 list \<Rightarrow> 'o \<Rightarrow> bool \<times> 'o"

definition post_byte :: "termios \<Rightarrow> u8 \<Rightarrow> u8 list" where
  "post_byte t b =
     (if b = 10 \<and> oflag t ONLCR then [13, 10]
      else if b = 13 \<and> oflag t OCRNL then [10]
      else [b])"

definition output_processed :: "'o sink \<Rightarrow> termios \<Rightarrow> u8 list \<Rightarrow> 'o \<Rightarrow> bool \<times> 'o" where
  "output_processed sink t data out =
     (if \<not> oflag t OPOST then sink data out else sink (concat (map (post_byte t) data)) out)"

definition echo :: "'o sink \<Rightarrow> termios \<Rightarrow> u8 list \<Rightarrow> 'o \<Rightarrow> 'o" where
  "echo sink t data out = snd (output_processed sink t data out)"

definition echo_char :: "'o sink \<Rightarrow> termios \<Rightarrow> u8 \<Rightarrow> 'o \<Rightarrow> 'o" where
  "echo_char sink t b out =
     (if \<not> lflag t ECHO then (if b = 10 \<and> lflag t ECHONL then echo sink t [10] out else out)
      else if b < 0x20 \<and> b \<noteq> 10 \<and> b \<noteq> 9 \<and> lflag t ECHOCTL then echo sink t [94, b + 0x40] out
      else if b = 0x7f \<and> lflag t ECHOCTL then echo sink t [94, 63] out
      else echo sink t [b] out)"

section \<open>Input\<close>

record tty_input =
  in_line :: "u8 list"
  in_lines :: "u8 list list"
  in_raw :: "u8 list"
  in_lnext :: bool

text \<open>The state of the loop of \<open>input_bytes\<close>.\<close>

record 'o feed =
  fd_input :: tty_input
  fd_out :: 'o
  fd_signals :: "(u32 \<times> nat) list"
  fd_wake :: bool

definition translate :: "termios \<Rightarrow> u8 \<Rightarrow> u8 option" where
  "translate t raw =
     (if iflag t ICRNL \<and> raw = 13 then Some 10
      else if iflag t IGNCR \<and> raw = 13 then None
      else if iflag t INLCR \<and> raw = 10 then Some 13
      else Some raw)"

definition signal_char :: "termios \<Rightarrow> u8 \<Rightarrow> nat" where
  "signal_char t b =
     (if b = c_cc t ! VINTR then 2 else if b = c_cc t ! VQUIT then 3 else if b = c_cc t ! VSUSP then 20 else 0)"

text \<open>The loop of word erase on the reversed line; \<open>n\<close> counts the bytes taken off.\<close>

fun werase :: "nat \<Rightarrow> u8 list \<Rightarrow> nat \<times> u8 list" where
  "werase n [] = (n, [])"
| "werase n (c # cs) =
     (if c = 32 \<and> n = 0 \<or> c \<noteq> 32 then (if c = 32 then (n + 1, cs) else werase (n + 1) cs)
      else (n, c # cs))"

fun echo_times :: "nat \<Rightarrow> 'o sink \<Rightarrow> termios \<Rightarrow> u8 list \<Rightarrow> 'o \<Rightarrow> 'o" where
  "echo_times 0 sink t data out = out"
| "echo_times (Suc n) sink t data out = echo_times n sink t data (echo sink t data out)"

definition RUBOUT :: "u8 list" where "RUBOUT = [8, 32, 8]"

definition on_input :: "(tty_input \<Rightarrow> tty_input) \<Rightarrow> 'o feed \<Rightarrow> 'o feed" where
  "on_input g s = s\<lparr>fd_input := g (fd_input s)\<rparr>"

definition on_out :: "('o \<Rightarrow> 'o) \<Rightarrow> 'o feed \<Rightarrow> 'o feed" where
  "on_out g s = s\<lparr>fd_out := g (fd_out s)\<rparr>"

text \<open>A completed line: it is queued and readers are woken.\<close>

definition flush_line :: "'o feed \<Rightarrow> 'o feed" where
  "flush_line s =
     (on_input (\<lambda>i. i\<lparr>in_lines := in_lines i @ [in_line i], in_line := []\<rparr>) s)\<lparr>fd_wake := True\<rparr>"

definition signal_input :: "'o sink \<Rightarrow> termios \<Rightarrow> u32 \<Rightarrow> nat \<Rightarrow> u8 \<Rightarrow> 'o feed \<Rightarrow> 'o feed" where
  "signal_input sink t pg signo b s =
     (let s = on_out (echo_char sink t b) s;
          s = (if \<not> lflag t NOFLSH then on_input (\<lambda>i. i\<lparr>in_line := [], in_raw := []\<rparr>) s else s)
      in if pg \<noteq> 0 then s\<lparr>fd_signals := fd_signals s @ [(pg, signo)]\<rparr> else s)"

definition edit_input :: "'o sink \<Rightarrow> termios \<Rightarrow> u8 \<Rightarrow> 'o feed \<Rightarrow> 'o feed option" where
  "edit_input sink t b s =
     (let line = in_line (fd_input s); shown = (lflag t ECHOE \<and> lflag t ECHO) in
      if is_cc t VERASE b then
        Some (if line = [] then s
              else on_out (\<lambda>out. if shown then
                  (if last line < 0x20 \<and> lflag t ECHOCTL then echo sink t (RUBOUT @ RUBOUT) out else echo sink t RUBOUT out)
                else out) (on_input (\<lambda>i. i\<lparr>in_line := butlast line\<rparr>) s))
      else if is_cc t VWERASE b \<and> lflag t IEXTEN then
        (case werase 0 (rev line) of (n, rest) \<Rightarrow>
           Some (on_out (\<lambda>out. if shown then echo_times n sink t RUBOUT out else out) (on_input (\<lambda>i. i\<lparr>in_line := rev rest\<rparr>) s)))
      else if is_cc t VKILL b then
        Some (on_out (\<lambda>out. if lflag t ECHOK \<and> lflag t ECHO then echo_times (length line) sink t RUBOUT out else out)
          (on_input (\<lambda>i. i\<lparr>in_line := []\<rparr>) s))
      else if is_cc t VEOF b then Some (flush_line s)
      else if is_cc t VREPRINT b then
        Some (on_out (\<lambda>out. echo sink t line (echo sink t [94, 82, 10] out)) s)
      else None)"

definition is_eol :: "termios \<Rightarrow> u8 \<Rightarrow> bool" where
  "is_eol t b \<longleftrightarrow> b = 10 \<or> b \<noteq> 0 \<and> (b = c_cc t ! VEOL \<or> b = c_cc t ! VEOL2)"

definition line_input :: "'o sink \<Rightarrow> termios \<Rightarrow> u8 \<Rightarrow> 'o feed \<Rightarrow> 'o feed" where
  "line_input sink t b s =
     (let s = on_input (\<lambda>i. i\<lparr>in_line := in_line i @ [b]\<rparr>) s;
          s = (if is_eol t b then flush_line s else if 4095 \<le> length (in_line (fd_input s)) then flush_line s else s)
      in on_out (echo_char sink t b) s)"

definition raw_input :: "'o sink \<Rightarrow> termios \<Rightarrow> u8 \<Rightarrow> 'o feed \<Rightarrow> 'o feed" where
  "raw_input sink t b s =
     on_out (echo_char sink t b)
       ((on_input (\<lambda>i. if length (in_raw i) < 65536 then i\<lparr>in_raw := in_raw i @ [b]\<rparr> else i) s)\<lparr>fd_wake := True\<rparr>)"

text \<open>One byte of \<open>input_bytes\<close>; \<open>pg\<close> is the foreground process group.\<close>

definition input_byte :: "'o sink \<Rightarrow> termios \<Rightarrow> u32 \<Rightarrow> u8 \<Rightarrow> 'o feed \<Rightarrow> 'o feed" where
  "input_byte sink t pg raw s =
     (case translate t raw of
        None \<Rightarrow> s
      | Some b \<Rightarrow>
          (let quoted = in_lnext (fd_input s);
               s = on_input (\<lambda>i. i\<lparr>in_lnext := False\<rparr>) s;
               accept = (if canon t then
                   (if quoted then line_input sink t b s
                    else case edit_input sink t b s of Some s' \<Rightarrow> s' | None \<Rightarrow> line_input sink t b s)
                 else raw_input sink t b s)
           in if quoted then accept
              else if lflag t ISIG \<and> signal_char t b \<noteq> 0 \<and> b \<noteq> 0 then signal_input sink t pg (signal_char t b) b s
              else if iflag t IXON \<and> (is_cc t VSTART b \<or> is_cc t VSTOP b) then s
              else if lflag t IEXTEN \<and> is_cc t VLNEXT b then on_input (\<lambda>i. i\<lparr>in_lnext := True\<rparr>) s
              else accept))"

definition input_bytes :: "'o sink \<Rightarrow> termios \<Rightarrow> u32 \<Rightarrow> u8 list \<Rightarrow> 'o feed \<Rightarrow> 'o feed" where
  "input_bytes sink t pg data s = fold (input_byte sink t pg) data s"

section \<open>The terminal\<close>

record winsize =
  ws_row :: u16
  ws_col :: u16
  ws_xpixel :: u16
  ws_ypixel :: u16

record tty =
  tt_index :: nat
  tt_termios :: termios
  tt_winsize :: winsize
  tt_input :: tty_input
  tt_fg_pgrp :: u32
  tt_session :: u32
  tt_hangup :: bool
  tt_openers :: nat
  tt_is_pty_slave :: bool

definition empty_input :: tty_input where
  "empty_input = \<lparr>in_line = [], in_lines = [], in_raw = [], in_lnext = False\<rparr>"

definition tty_new :: "nat \<Rightarrow> bool \<Rightarrow> tty" where
  "tty_new index slave =
     \<lparr>tt_index = index, tt_termios = default_tty, tt_winsize = \<lparr>ws_row = 25, ws_col = 80, ws_xpixel = 0, ws_ypixel = 0\<rparr>,
      tt_input = empty_input, tt_fg_pgrp = 0, tt_session = 0, tt_hangup = False, tt_openers = 0, tt_is_pty_slave = slave\<rparr>"

definition tty_feed :: "'o sink \<Rightarrow> u8 list \<Rightarrow> tty \<Rightarrow> 'o \<Rightarrow> tty \<times> 'o feed" where
  "tty_feed sink data y out =
     (let s = input_bytes sink (tt_termios y) (tt_fg_pgrp y) data
                \<lparr>fd_input = tt_input y, fd_out = out, fd_signals = [], fd_wake = False\<rparr>
      in (y\<lparr>tt_input := fd_input s\<rparr>, s))"

definition readable_now :: "tty \<Rightarrow> bool" where
  "readable_now y \<longleftrightarrow> tt_hangup y \<or>
     (if canon (tt_termios y) then in_lines (tt_input y) \<noteq> []
      else (let mn = unat (c_cc (tt_termios y) ! VMIN); n = length (in_raw (tt_input y)) in max mn 1 \<le> n \<or> mn = 0 \<and> n \<noteq> 0))"

definition set_input :: "tty_input \<Rightarrow> tty \<Rightarrow> tty" where
  "set_input i y = y\<lparr>tt_input := i\<rparr>"

text \<open>
  One round of the loop of \<open>read\<close>: it returns, or it sleeps with or without a deadline.
\<close>

datatype read_round = Returns "u8 list kresult" tty | Sleeps | SleepsUntil nat

definition read_try :: "nat \<Rightarrow> tty \<Rightarrow> read_round" where
  "read_try n y =
     (let i = tt_input y; t = tt_termios y in
      if tt_hangup y then Returns (Inr []) y
      else if canon t then
        (case in_lines i of
           l # ls \<Rightarrow>
             Returns (Inr (take n l)) (set_input (i\<lparr>in_lines := (if n < length l then drop n l # ls else ls)\<rparr>) y)
         | [] \<Rightarrow> Sleeps)
      else
        (let mn = unat (c_cc t ! VMIN); time = unat (c_cc t ! VTIME); r = in_raw i in
         if r \<noteq> [] \<and> (mn \<le> length r \<or> mn = 0) then
           Returns (Inr (take n r)) (set_input (i\<lparr>in_raw := drop n r\<rparr>) y)
         else if mn = 0 \<and> time = 0 then Returns (Inr []) y
         else if mn = 0 \<and> 0 < time then SleepsUntil (time * 100000000)
         else Sleeps))"

datatype tty_wake = TWoken tty | TTimeout tty | TInterrupted tty

datatype tty_result = TDone "u8 list kresult" tty | TAsleep tty

text \<open>
  \<open>read\<close>. With a deadline the source goes round again when the condition holds and also when the time
  is over; \<open>wait_until\<close> without one never times out.
\<close>

fun tty_read :: "bool \<Rightarrow> nat \<Rightarrow> tty \<Rightarrow> tty_wake list \<Rightarrow> tty_result" where
  "tty_read nb n y ws =
     (if n = 0 then TDone (Inr []) y
      else case read_try n y of
        Returns r y' \<Rightarrow> TDone r y'
      | SleepsUntil d \<Rightarrow>
          (case ws of
             [] \<Rightarrow> TAsleep y
           | TInterrupted y' # _ \<Rightarrow> TDone (Inl EINTR) y'
           | TWoken y' # ws' \<Rightarrow> tty_read nb n y' ws'
           | TTimeout y' # ws' \<Rightarrow> tty_read nb n y' ws')
      | Sleeps \<Rightarrow>
          if nb then TDone (Inl EAGAIN) y
          else (case ws of
             [] \<Rightarrow> TAsleep y
           | TInterrupted y' # _ \<Rightarrow> TDone (Inl EINTR) y'
           | TWoken y' # ws' \<Rightarrow> tty_read nb n y' ws'
           | TTimeout y' # ws' \<Rightarrow> tty_read nb n y' ws'))"

declare tty_read.simps [simp del]

text \<open>
  \<open>write\<close>: chunks of 4096 bytes; when the sink is full the writer waits. A resumption carries the
  output state it finds and whether the terminal was hung up.
\<close>

datatype 'o out_wake = OWoken bool 'o | OInterrupted 'o

datatype 'o write_result = WDone "nat kresult" 'o | WAsleep nat 'o

function tty_write_loop :: "'o sink \<Rightarrow> termios \<Rightarrow> bool \<Rightarrow> u8 list \<Rightarrow> nat \<Rightarrow> 'o \<Rightarrow> 'o out_wake list \<Rightarrow> 'o write_result" where
  "tty_write_loop sink t nb buf off out ws =
     (if off < length buf then
        (let e = min (off + 4096) (length buf) in
         case output_processed sink t (take (e - off) (drop off buf)) out of
           (True, out') \<Rightarrow> tty_write_loop sink t nb buf e out' ws
         | (False, out') \<Rightarrow>
             if nb then WDone (if 0 < off then Inr off else Inl EAGAIN) out'
             else (case ws of
                [] \<Rightarrow> WAsleep off out'
              | OInterrupted o' # _ \<Rightarrow> WDone (Inl EINTR) o'
              | OWoken hung o' # ws' \<Rightarrow>
                  if hung then WDone (Inl EIO) o' else tty_write_loop sink t nb buf off o' ws'))
      else WDone (Inr (length buf)) out)"
  by pat_completeness auto
termination
  by (relation "measures [\<lambda>(sink, t, nb, buf, off, out, ws). length ws, \<lambda>(sink, t, nb, buf, off, out, ws). length buf - off]") auto

declare tty_write_loop.simps [simp del]

definition tty_write :: "'o sink \<Rightarrow> bool \<Rightarrow> u8 list \<Rightarrow> tty \<Rightarrow> 'o \<Rightarrow> 'o out_wake list \<Rightarrow> 'o write_result" where
  "tty_write sink nb buf y out ws =
     (if tt_hangup y then WDone (Inl EIO) out else tty_write_loop sink (tt_termios y) nb buf 0 out ws)"

definition sink_has_room :: "'o sink \<Rightarrow> 'o \<Rightarrow> bool" where
  "sink_has_room sink out = fst (sink [] out)"

definition POLLIN :: u32 where "POLLIN = 1"
definition POLLOUT :: u32 where "POLLOUT = 4"
definition POLLHUP :: u32 where "POLLHUP = 0x10"

definition tty_poll :: "'o sink \<Rightarrow> tty \<Rightarrow> 'o \<Rightarrow> u32" where
  "tty_poll sink y out =
     (if readable_now y then POLLIN else 0) OR (if sink_has_room sink out then POLLOUT else 0) OR (if tt_hangup y then POLLHUP else 0)"

definition flush_input :: "tty \<Rightarrow> tty" where
  "flush_input y = y\<lparr>tt_input := (tt_input y)\<lparr>in_line := [], in_lines := [], in_raw := []\<rparr>\<rparr>"

definition do_hangup :: "tty \<Rightarrow> tty \<times> (u32 \<times> nat) list" where
  "do_hangup y = (y\<lparr>tt_hangup := True\<rparr>, if tt_fg_pgrp y \<noteq> 0 then [(tt_fg_pgrp y, 1)] else [])"

text \<open>
  The requests of \<open>ioctl\<close> that concern the terminal alone, with their argument read from or written
  to user memory. \<open>SetAttr now flush\<close> are \<open>TCSETS\<close>, \<open>TCSETSW\<close> (no flush) and \<open>TCSETSF\<close>.
\<close>

datatype tty_request =
    GetAttr | SetAttr termios bool | NoOp | Flush | GetPgrp | SetPgrp u32 | GetSize | SetSize winsize | InputCount
  | SetNonblock bool | GetSid | GetPtn | OtherRequest

datatype tty_answer = AAttr termios | AWord u32 | ASize winsize | ACount nat | ANone

definition set_attr :: "termios \<Rightarrow> bool \<Rightarrow> tty \<Rightarrow> tty" where
  "set_attr t fl y =
     (let y' = y\<lparr>tt_termios := t\<rparr>; i = tt_input y in
      if fl then flush_input y'
      else if canon (tt_termios y) \<and> \<not> canon t then
        y'\<lparr>tt_input := i\<lparr>in_line := [], in_lines := [], in_raw := in_raw i @ concat (in_lines i) @ in_line i\<rparr>\<rparr>
      else y')"

text \<open>
  \<open>TCSBRK\<close>, \<open>TCXONC\<close>, \<open>TIOCSETD\<close> and \<open>TIOCGETD\<close> are \<open>NoOp\<close>. \<open>FIONBIO\<close> changes the open file. \<open>TIOCSCTTY\<close> and
  \<open>TIOCNOTTY\<close> are requests on the calling process and not part of this function.
\<close>

definition set_nonblock :: "bool \<Rightarrow> 'i vfile \<Rightarrow> 'i vfile" where
  "set_nonblock on f = f\<lparr>f_flags := (if on then f_flags f OR O_NONBLOCK else f_flags f AND NOT O_NONBLOCK)\<rparr>"

fun tty_ioctl :: "tty_request \<Rightarrow> 'i vfile \<Rightarrow> tty \<Rightarrow> tty_answer kresult \<times> 'i vfile \<times> tty \<times> (u32 \<times> nat) list" where
  "tty_ioctl GetAttr f y = (Inr (AAttr (tt_termios y)), f, y, [])"
| "tty_ioctl (SetAttr t fl) f y = (Inr ANone, f, set_attr t fl y, [])"
| "tty_ioctl NoOp f y = (Inr ANone, f, y, [])"
| "tty_ioctl Flush f y = (Inr ANone, f, flush_input y, [])"
| "tty_ioctl GetPgrp f y = (Inr (AWord (tt_fg_pgrp y)), f, y, [])"
| "tty_ioctl (SetPgrp pg) f y = (Inr ANone, f, y\<lparr>tt_fg_pgrp := pg\<rparr>, [])"
| "tty_ioctl GetSize f y = (Inr (ASize (tt_winsize y)), f, y, [])"
| "tty_ioctl (SetSize w) f y =
     (Inr ANone, f, y\<lparr>tt_winsize := w\<rparr>, if tt_fg_pgrp y \<noteq> 0 then [(tt_fg_pgrp y, 28)] else [])"
| "tty_ioctl InputCount f y =
     (Inr (ACount (length (in_raw (tt_input y)) + sum_list (map length (in_lines (tt_input y))))), f, y, [])"
| "tty_ioctl (SetNonblock on) f y = (Inr ANone, set_nonblock on f, y, [])"
| "tty_ioctl GetSid f y = (Inr (AWord (tt_session y)), f, y, [])"
| "tty_ioctl GetPtn f y = (if \<not> tt_is_pty_slave y then Inl ENOTTY else Inr (AWord (of_nat (tt_index y))), f, y, [])"
| "tty_ioctl OtherRequest f y = (Inl ENOTTY, f, y, [])"

section \<open>Pseudo-terminals\<close>

definition MAX_PTYS :: nat where "MAX_PTYS = 64"
definition PTY_QUEUE :: nat where "PTY_QUEUE = 65536"

record pty =
  py_slave :: tty
  py_to_master :: "u8 list"
  py_locked :: bool
  py_master_open :: bool

text \<open>
  The sink of a slave: the queue towards the master. It takes all of the bytes or none; no bytes is
  the question whether there is room.
\<close>

definition pty_sink :: "u8 list sink" where
  "pty_sink data q =
     (if data = [] then (length q < PTY_QUEUE, q)
      else if PTY_QUEUE < length q + length data then (False, q)
      else (True, q @ data))"






definition slave_release :: "pty \<Rightarrow> pty" where
  "slave_release p = p\<lparr>py_slave := (py_slave p)\<lparr>tt_openers := tt_openers (py_slave p) - 1\<rparr>\<rparr>"

datatype pty_wake = PWoken pty | PInterrupted pty

datatype pty_result = PDone "u8 list kresult" pty | PAsleep pty

fun master_read :: "bool \<Rightarrow> nat \<Rightarrow> pty \<Rightarrow> pty_wake list \<Rightarrow> pty_result" where
  "master_read nb n p ws =
     (if py_to_master p \<noteq> [] then
        PDone (Inr (take n (py_to_master p))) (p\<lparr>py_to_master := drop n (py_to_master p)\<rparr>)
      else if tt_openers (py_slave p) = 0 \<and> tt_hangup (py_slave p) then PDone (Inl EIO) p
      else if nb then PDone (Inl EAGAIN) p
      else case ws of
        [] \<Rightarrow> PAsleep p
      | PInterrupted p' # _ \<Rightarrow> PDone (Inl EINTR) p'
      | PWoken p' # ws' \<Rightarrow> master_read nb n p' ws')"

declare master_read.simps [simp del]


definition master_poll :: "pty \<Rightarrow> u32" where
  "master_poll p = POLLOUT OR (if py_to_master p \<noteq> [] then POLLIN else 0)"






section \<open>Input does not depend on output\<close>

text \<open>What a byte does to the input, with an output that goes nowhere.\<close>

definition typed :: "termios \<Rightarrow> u8 \<Rightarrow> tty_input \<Rightarrow> tty_input" where
  "typed t b i = fd_input (input_byte (\<lambda>_ _. (True, ())) t 0 b \<lparr>fd_input = i, fd_out = (), fd_signals = [], fd_wake = False\<rparr>)"

lemma fd_input_simps [simp]:
  "fd_input (on_out g s) = fd_input s"
  "fd_input (on_input h s) = h (fd_input s)"
  "fd_input (flush_line s) = (fd_input s)\<lparr>in_lines := in_lines (fd_input s) @ [in_line (fd_input s)], in_line := []\<rparr>"
  by (simp_all add: on_out_def on_input_def flush_line_def)

lemma signal_input_cong:
  "fd_input (signal_input sink t pg n b s) = (if lflag t NOFLSH then fd_input s else (fd_input s)\<lparr>in_line := [], in_raw := []\<rparr>)"
  by (simp add: signal_input_def Let_def)

lemma raw_input_cong:
  "fd_input (raw_input sink t b s) =
     (if length (in_raw (fd_input s)) < 65536 then (fd_input s)\<lparr>in_raw := in_raw (fd_input s) @ [b]\<rparr> else fd_input s)"
  by (simp add: raw_input_def)

lemma line_input_cong:
  "fd_input (line_input sink t b s) =
     (let l = in_line (fd_input s) @ [b] in
      if is_eol t b \<or> 4095 \<le> length l then (fd_input s)\<lparr>in_lines := in_lines (fd_input s) @ [l], in_line := []\<rparr>
      else (fd_input s)\<lparr>in_line := l\<rparr>)"
  by (simp add: line_input_def Let_def)

lemma edit_input_cong:
  "map_option fd_input (edit_input sink t b s) =
     (let i = fd_input s; l = in_line i in
      if is_cc t VERASE b then Some (i\<lparr>in_line := butlast l\<rparr>)
      else if is_cc t VWERASE b \<and> lflag t IEXTEN then Some (i\<lparr>in_line := rev (snd (werase 0 (rev l)))\<rparr>)
      else if is_cc t VKILL b then Some (i\<lparr>in_line := []\<rparr>)
      else if is_cc t VEOF b then Some (i\<lparr>in_lines := in_lines i @ [l], in_line := []\<rparr>)
      else if is_cc t VREPRINT b then Some i
      else None)"
proof -
  have "fd_input s = (fd_input s)\<lparr>in_line := []\<rparr>" if "in_line (fd_input s) = []"
    using that by (cases "fd_input s") simp
  then show ?thesis by (simp add: edit_input_def Let_def split: prod.split)
qed

lemma case_edit_input:
  "fd_input (case edit_input sink t b s of Some s' \<Rightarrow> s' | None \<Rightarrow> line_input sink t b s) =
     (case map_option fd_input (edit_input sink t b s) of Some i \<Rightarrow> i | None \<Rightarrow> fd_input (line_input sink t b s))"
  by (simp split: option.split)

lemma input_byte_typed: "fd_input (input_byte sink t pg b s) = typed t b (fd_input s)"
proof (cases "translate t b")
  case (Some c)
  show ?thesis unfolding typed_def input_byte_def Some option.case Let_def
    by (simp only: if_distrib [of fd_input] case_edit_input edit_input_cong line_input_cong raw_input_cong signal_input_cong
        fd_input_simps feed.simps)
qed (simp add: typed_def input_byte_def)

lemma input_bytes_typed: "fd_input (input_bytes sink t pg bs s) = fold (typed t) bs (fd_input s)"
  unfolding input_bytes_def by (induction bs arbitrary: s) (simp_all add: input_byte_typed)

lemma tty_feed_input:
  assumes "tty_feed sink bs y out = (y', s)"
  shows "y' = y\<lparr>tt_input := fold (typed (tt_termios y)) bs (tt_input y)\<rparr>" "fd_input s = tt_input y'"
  using assms by (auto simp: tty_feed_def Let_def input_bytes_typed)

lemma tty_feed_fields [simp]:
  "tt_termios (fst (tty_feed sink bs y out)) = tt_termios y"
  "tt_hangup (fst (tty_feed sink bs y out)) = tt_hangup y"
  "tt_input (fst (tty_feed sink bs y out)) = fold (typed (tt_termios y)) bs (tt_input y)"
  by (simp_all add: tty_feed_def Let_def input_bytes_typed)

section \<open>Typing and reading lines\<close>

text \<open>
  A byte gets past signals, flow control and quoting; it is text when it is not translated, not an
  editing character and does not end the line.
\<close>

definition passes :: "termios \<Rightarrow> u8 \<Rightarrow> bool" where
  "passes t b \<longleftrightarrow> \<not> (lflag t ISIG \<and> signal_char t b \<noteq> 0 \<and> b \<noteq> 0)
     \<and> \<not> (iflag t IXON \<and> (is_cc t VSTART b \<or> is_cc t VSTOP b)) \<and> \<not> (lflag t IEXTEN \<and> is_cc t VLNEXT b)"

definition edits :: "termios \<Rightarrow> u8 \<Rightarrow> bool" where
  "edits t b \<longleftrightarrow> is_cc t VERASE b \<or> is_cc t VWERASE b \<and> lflag t IEXTEN \<or> is_cc t VKILL b \<or> is_cc t VEOF b \<or> is_cc t VREPRINT b"

definition text_byte :: "termios \<Rightarrow> u8 \<Rightarrow> bool" where
  "text_byte t b \<longleftrightarrow> translate t b = Some b \<and> passes t b \<and> \<not> edits t b \<and> \<not> is_eol t b"

text \<open>The erase and kill keys of a terminal work, and so does the return key \<open>r\<close>.\<close>

definition keys_work :: "termios \<Rightarrow> u8 \<Rightarrow> bool" where
  "keys_work t r \<longleftrightarrow> canon t
     \<and> (let e = c_cc t ! VERASE in e \<noteq> 0 \<and> translate t e = Some e \<and> passes t e)
     \<and> (let k = c_cc t ! VKILL in k \<noteq> 0 \<and> translate t k = Some k \<and> passes t k
          \<and> \<not> is_cc t VERASE k \<and> \<not> (is_cc t VWERASE k \<and> lflag t IEXTEN))
     \<and> translate t r = Some 10 \<and> passes t 10 \<and> \<not> edits t 10"

lemma typed_passes:
  assumes "translate t raw = Some b" "passes t b" "canon t" "\<not> in_lnext i"
  shows "typed t raw i =
    (let l = in_line i in
     if is_cc t VERASE b then i\<lparr>in_line := butlast l\<rparr>
     else if is_cc t VWERASE b \<and> lflag t IEXTEN then i\<lparr>in_line := rev (snd (werase 0 (rev l)))\<rparr>
     else if is_cc t VKILL b then i\<lparr>in_line := []\<rparr>
     else if is_cc t VEOF b then i\<lparr>in_lines := in_lines i @ [l], in_line := []\<rparr>
     else if is_cc t VREPRINT b then i
     else if is_eol t b \<or> 4095 \<le> length (l @ [b]) then i\<lparr>in_lines := in_lines i @ [l @ [b]], in_line := []\<rparr>
     else i\<lparr>in_line := l @ [b]\<rparr>)"
proof -
  have i: "i\<lparr>in_lnext := False\<rparr> = i" using assms(4) by (cases i) simp
  have p: "(lflag t ISIG \<and> signal_char t b \<noteq> 0 \<and> b \<noteq> 0) = False"
      "(iflag t IXON \<and> (is_cc t VSTART b \<or> is_cc t VSTOP b)) = False" "(lflag t IEXTEN \<and> is_cc t VLNEXT b) = False"
    using assms(2) by (auto simp: passes_def)
  have q: "in_lnext i = False" "canon t = True" using assms(3,4) by simp_all
  show ?thesis
    unfolding typed_def input_byte_def assms(1) option.case Let_def p if_False fd_input_simps feed.simps q if_True
      case_edit_input edit_input_cong line_input_cong i
    by (simp split: if_split cong: if_cong)
qed

lemma typed_text:
  assumes "canon t" "text_byte t b" "\<not> in_lnext i" "length (in_line i) < 4094"
  shows "typed t b i = i\<lparr>in_line := in_line i @ [b]\<rparr>"
  using assms typed_passes [of t b b i] by (auto simp: text_byte_def edits_def Let_def split: if_splits)

lemma typed_erase:
  assumes "keys_work t r" "\<not> in_lnext i"
  shows "typed t (c_cc t ! VERASE) i = i\<lparr>in_line := butlast (in_line i)\<rparr>"
  using assms typed_passes [of t "c_cc t ! VERASE" "c_cc t ! VERASE" i] by (auto simp: keys_work_def is_cc_def Let_def split: if_splits)

lemma typed_kill:
  assumes "keys_work t r" "\<not> in_lnext i"
  shows "typed t (c_cc t ! VKILL) i = i\<lparr>in_line := []\<rparr>"
  using assms typed_passes [of t "c_cc t ! VKILL" "c_cc t ! VKILL" i] by (auto simp: keys_work_def is_cc_def Let_def split: if_splits)

lemma typed_return:
  assumes "keys_work t r" "\<not> in_lnext i"
  shows "typed t r i = i\<lparr>in_lines := in_lines i @ [in_line i @ [10]], in_line := []\<rparr>"
  using assms typed_passes [of t r 10 i] by (auto simp: keys_work_def edits_def is_eol_def Let_def split: if_splits)

text \<open>
  A line as it is typed: text, the erase key, the kill key; and the text that is meant.
\<close>

datatype keystroke = Key u8 | Rubout | Kill_Line

fun key_byte :: "termios \<Rightarrow> keystroke \<Rightarrow> u8" where
  "key_byte t (Key b) = b"
| "key_byte t Rubout = c_cc t ! VERASE"
| "key_byte t Kill_Line = c_cc t ! VKILL"

fun press :: "keystroke \<Rightarrow> u8 list \<Rightarrow> u8 list" where
  "press (Key b) l = l @ [b]"
| "press Rubout l = butlast l"
| "press Kill_Line l = []"

definition meant :: "keystroke list \<Rightarrow> u8 list" where
  "meant ks = fold press ks []"

fun text_key :: "termios \<Rightarrow> keystroke \<Rightarrow> bool" where
  "text_key t (Key b) = text_byte t b"
| "text_key t _ = True"

lemma press_length: "length (press k l) \<le> Suc (length l)"
  by (cases k) auto

lemma typed_keys:
  assumes "keys_work t r" "\<not> in_lnext i" "list_all (text_key t) ks" "length (in_line i) + length ks < 4095"
  shows "fold (typed t) (map (key_byte t) ks) i = i\<lparr>in_line := fold press ks (in_line i)\<rparr>"
  using assms
proof (induction ks arbitrary: i)
  case (Cons k ks)
  have c: "canon t" using Cons.prems by (simp add: keys_work_def)
  have 1: "typed t (key_byte t k) i = i\<lparr>in_line := press k (in_line i)\<rparr>"
    using Cons.prems c by (cases k) (simp_all add: typed_text typed_erase typed_kill)
  have 2: "length (press k (in_line i)) + length ks < 4095"
    using Cons.prems(4) press_length [of k "in_line i"] by simp
  show ?case
    using Cons.IH [of "i\<lparr>in_line := press k (in_line i)\<rparr>"] Cons.prems 1 2 by simp
qed simp

definition key_line :: "termios \<Rightarrow> u8 \<Rightarrow> keystroke list \<Rightarrow> u8 list" where
  "key_line t r ks = map (key_byte t) ks @ [r]"

lemma typed_lines:
  assumes "keys_work t r" "\<not> in_lnext i" "in_line i = []"
    and "list_all (\<lambda>ks. list_all (text_key t) ks \<and> length ks < 4095) kss"
  shows "fold (typed t) (concat (map (key_line t r) kss)) i = i\<lparr>in_lines := in_lines i @ map (\<lambda>ks. meant ks @ [10]) kss\<rparr>"
  using assms
proof (induction kss arbitrary: i)
  case (Cons ks kss)
  have 1: "fold (typed t) (key_line t r ks) i = i\<lparr>in_lines := in_lines i @ [meant ks @ [10]]\<rparr>"
    using Cons.prems typed_keys [of t r i ks] typed_return [of t r "i\<lparr>in_line := fold press ks (in_line i)\<rparr>"]
    by (simp add: key_line_def meant_def)
  show ?case
    using Cons.IH [of "i\<lparr>in_lines := in_lines i @ [meant ks @ [10]]\<rparr>"] Cons.prems 1 by simp
qed simp

lemma meant_length: "length (fold press ks l) \<le> length l + length ks"
proof (induction ks arbitrary: l)
  case (Cons k ks)
  have "length (fold press ks (press k l)) \<le> length (press k l) + length ks" by (rule Cons.IH)
  then show ?case using press_length [of k l] by simp
qed simp

text \<open>Calls of \<open>read\<close> that must not block, one after the other, with buffers of the given sizes.\<close>

fun reads :: "nat list \<Rightarrow> tty \<Rightarrow> u8 list kresult list \<times> tty" where
  "reads [] y = ([], y)"
| "reads (n # ns) y =
     (case tty_read True n y [] of
        TDone r y' \<Rightarrow> (case reads ns y' of (rs, y'') \<Rightarrow> (r # rs, y''))
      | TAsleep y' \<Rightarrow> ([], y'))"

lemma read_whole_line:
  assumes "canon (tt_termios y)" "\<not> tt_hangup y" "in_lines (tt_input y) = l # ls" "length l \<le> n" "0 < n"
  shows "tty_read nb n y ws = TDone (Inr l) (set_input ((tt_input y)\<lparr>in_lines := ls\<rparr>) y)"
  using assms by (subst tty_read.simps) (simp add: read_try_def Let_def)

lemma reads_lines:
  assumes "canon (tt_termios y)" "\<not> tt_hangup y" "list_all (\<lambda>l. length l \<le> 4096) (in_lines (tt_input y))"
  shows "fst (reads (replicate (Suc (length (in_lines (tt_input y)))) 4096) y) = map Inr (in_lines (tt_input y)) @ [Inl EAGAIN]"
  using assms
proof (induction "in_lines (tt_input y)" arbitrary: y)
  case Nil
  then have "tty_read True 4096 y [] = TDone (Inl EAGAIN) y"
    by (subst tty_read.simps) (simp add: read_try_def Let_def)
  with Nil show ?case by simp
next
  case (Cons l ls)
  let ?y = "set_input ((tt_input y)\<lparr>in_lines := ls\<rparr>) y"
  have "tty_read True 4096 y [] = TDone (Inr l) ?y"
    using Cons.prems Cons.hyps(2) [symmetric] by (intro read_whole_line) auto
  moreover have "fst (reads (replicate (Suc (length ls)) 4096) ?y) = map Inr ls @ [Inl EAGAIN]"
    using Cons.hyps(1) [of ?y] Cons.prems Cons.hyps(2) [symmetric] by (simp add: set_input_def)
  ultimately show ?case
    using Cons.hyps(2) [symmetric] by (simp add: split_def)
qed

text \<open>
  C22. On a terminal in canonical mode whose keys work, lines typed with corrections and ended
  with the return key reach the reader as the text that was meant: each read returns one whole
  line with its newline, in the order they were typed, and after the last one a read that must not
  block says so. What the terminal shows plays no part.
\<close>

theorem lines_read_as_meant:
  assumes "keys_work (tt_termios y) r" "\<not> tt_hangup y" "tt_input y = empty_input"
    and "list_all (\<lambda>ks. list_all (text_key (tt_termios y)) ks \<and> length ks < 4095) kss"
  shows "fst (reads (replicate (Suc (length kss)) 4096)
           (fst (tty_feed sink (concat (map (key_line (tt_termios y) r) kss)) y out)))
         = map (\<lambda>ks. Inr (meant ks @ [10])) kss @ [Inl EAGAIN]"
proof -
  let ?y = "fst (tty_feed sink (concat (map (key_line (tt_termios y) r) kss)) y out)"
  have lines: "in_lines (tt_input ?y) = map (\<lambda>ks. meant ks @ [10]) kss"
    using typed_lines [OF assms(1) _ _ assms(4), of "tt_input y"] assms(3) by (simp add: empty_input_def)
  have "list_all (\<lambda>l. length l \<le> 4096) (in_lines (tt_input ?y))"
    using assms(4) meant_length [of _ "[]"] unfolding lines list_all_iff meant_def
    by (fastforce simp: meant_def intro: order_trans)
  moreover have "canon (tt_termios ?y)" "\<not> tt_hangup ?y"
    using assms(1,2) by (simp_all add: keys_work_def)
  ultimately have "fst (reads (replicate (Suc (length (in_lines (tt_input ?y)))) 4096) ?y) = map Inr (in_lines (tt_input ?y)) @ [Inl EAGAIN]"
    by (intro reads_lines)
  then show ?thesis by (simp only: lines length_map map_map comp_def)
qed

definition demo_sink :: "unit sink" where
  "demo_sink = (\<lambda>_ _. (True, ()))"

lemma default_keys_work: "keys_work default_tty 13"
  by code_simp

theorem lines_read_as_meant_witness:
  "fst (reads (replicate 3 4096)
     (fst (tty_feed demo_sink (concat (map (key_line default_tty 13) [[Key 108, Key 114, Rubout, Key 115], [Key 120, Kill_Line, Key 119]]))
        (tty_new 1 False) ())))
   = [Inr [108, 115, 10], Inr [119, 10], Inl EAGAIN]"
proof -
  have t: "tt_termios (tty_new 1 False) = default_tty" by (simp add: tty_new_def)
  have "list_all (\<lambda>ks. list_all (text_key default_tty) ks \<and> length ks < 4095)
      [[Key 108, Key 114, Rubout, Key 115], [Key 120, Kill_Line, Key 119]]"
    by code_simp
  from lines_read_as_meant [of "tty_new 1 False" 13, OF _ _ _ this [folded t], of demo_sink "()"]
  show ?thesis
    by (simp add: default_keys_work t tty_new_def meant_def numeral_eq_Suc)
qed

section \<open>What is shown\<close>

lemma echo_char_hidden: "\<not> lflag t ECHO \<Longrightarrow> \<not> lflag t ECHONL \<Longrightarrow> echo_char sink t b out = out"
  by (simp add: echo_char_def)

lemma fd_out_simps [simp]:
  "fd_out (on_out g s) = g (fd_out s)" "fd_out (on_input h s) = fd_out s" "fd_out (flush_line s) = fd_out s"
  by (simp_all add: on_out_def on_input_def flush_line_def)

lemma edit_input_hidden:
  assumes "\<not> lflag t ECHO" "\<not> is_cc t VREPRINT b" "edit_input sink t b s = Some s'"
  shows "fd_out s' = fd_out s"
  using assms by (auto simp: edit_input_def Let_def split: if_splits prod.splits)

lemma input_byte_hidden:
  assumes "\<not> lflag t ECHO" "\<not> lflag t ECHONL" "\<And>c. canon t \<Longrightarrow> translate t b = Some c \<Longrightarrow> \<not> is_cc t VREPRINT c"
  shows "fd_out (input_byte sink t pg b s) = fd_out s"
proof (cases "translate t b")
  case (Some c)
  have l: "fd_out (line_input sink t c s') = fd_out s'" "fd_out (raw_input sink t c s') = fd_out s'"
      "fd_out (signal_input sink t pg n c s') = fd_out s'" for s' n
    by (simp_all add: line_input_def raw_input_def signal_input_def Let_def echo_char_hidden assms(1,2))
  have e: "fd_out (case edit_input sink t c s' of Some s'' \<Rightarrow> s'' | None \<Rightarrow> line_input sink t c s') = fd_out s'" if "canon t" for s'
    using assms(3) [OF that Some] edit_input_hidden [OF assms(1)] l by (auto split: option.split)
  show ?thesis unfolding input_byte_def Some option.case Let_def by (simp add: l e)
qed (simp add: input_byte_def)

text \<open>
  C23. A program that asks for a password turns echo off: then no input, whatever it does to the line,
  reaches the output, as long as it does not contain the reprint character of a terminal in canonical
  mode.
\<close>

theorem hidden_input_not_shown:
  assumes "\<not> lflag t ECHO" "\<not> lflag t ECHONL"
    and "canon t \<Longrightarrow> list_all (\<lambda>b. \<not> is_cc t VREPRINT (case translate t b of Some c \<Rightarrow> c | None \<Rightarrow> 0)) bs"
  shows "fd_out (input_bytes sink t pg bs s) = fd_out s"
  unfolding input_bytes_def
  using assms(3)
proof (induction bs arbitrary: s)
  case (Cons b bs)
  have "fd_out (input_byte sink t pg b s) = fd_out s"
    by (rule input_byte_hidden [OF assms(1,2)]) (use Cons.prems in auto)
  with Cons show ?case by simp
qed simp

definition no_echo :: termios where
  "no_echo = default_tty\<lparr>c_lflag := c_lflag default_tty AND NOT ECHO\<rparr>"

definition log_sink :: "u8 list sink" where
  "log_sink data out = (True, out @ data)"

theorem hidden_input_not_shown_witness:
  "fd_out (input_bytes log_sink no_echo 7 [115, 51, 127, 3, 13] \<lparr>fd_input = empty_input, fd_out = [], fd_signals = [], fd_wake = False\<rparr>) = []"
proof -
  have "\<not> lflag no_echo ECHO" "\<not> lflag no_echo ECHONL"
    "list_all (\<lambda>b. \<not> is_cc no_echo VREPRINT (case translate no_echo b of Some c \<Rightarrow> c | None \<Rightarrow> 0)) [115, 51, 127, 3, 13]"
    by code_simp+
  then show ?thesis using hidden_input_not_shown [of no_echo "[115, 51, 127, 3, 13]" log_sink 7] by simp
qed

text \<open>The reprint character shows the line even so.\<close>

theorem reprint_shows_hidden_line:
  "fd_out (input_bytes log_sink no_echo 0 [115, 51, 18] \<lparr>fd_input = empty_input, fd_out = [], fd_signals = [], fd_wake = False\<rparr>)
   = [94, 82, 13, 10, 115, 51]"
  by code_simp

section \<open>Signals\<close>

lemma fd_signals_simps [simp]:
  "fd_signals (on_out g s) = fd_signals s" "fd_signals (on_input h s) = fd_signals s" "fd_signals (flush_line s) = fd_signals s"
  by (simp_all add: on_out_def on_input_def flush_line_def)

definition interrupts :: "termios \<Rightarrow> u8 \<Rightarrow> bool" where
  "interrupts t b \<longleftrightarrow> lflag t ISIG \<and> signal_char t b \<noteq> 0 \<and> b \<noteq> 0"

lemma input_byte_signals:
  "fd_signals (input_byte sink t pg b s) =
     fd_signals s @ (case translate t b of
       Some c \<Rightarrow> if interrupts t c \<and> \<not> in_lnext (fd_input s) \<and> pg \<noteq> 0 then [(pg, signal_char t c)] else [] | None \<Rightarrow> [])"
proof (cases "translate t b")
  case (Some c)
  have l: "fd_signals (line_input sink t c s') = fd_signals s'" "fd_signals (raw_input sink t c s') = fd_signals s'"
      "fd_signals (signal_input sink t p n c s') = fd_signals s' @ (if p \<noteq> 0 then [(p, n)] else [])" for s' n p
    by (simp_all add: line_input_def raw_input_def signal_input_def Let_def)
  have e: "fd_signals (case edit_input sink t c s' of Some s'' \<Rightarrow> s'' | None \<Rightarrow> line_input sink t c s') = fd_signals s'" for s'
    using l by (auto simp: edit_input_def Let_def split: prod.split)
  show ?thesis unfolding input_byte_def Some option.case Let_def by (auto simp: l e interrupts_def)
qed (simp add: input_byte_def)

text \<open>Every byte that a reader can still get.\<close>

definition held_bytes :: "tty_input \<Rightarrow> u8 set" where
  "held_bytes i = set (in_line i) \<union> (\<Union>l \<in> set (in_lines i). set l) \<union> set (in_raw i)"

lemma werase_subset: "set (snd (werase n l)) \<subseteq> set l"
  by (induction n l rule: werase.induct) (auto split: if_splits)

lemma typed_interrupt:
  assumes "translate t b = Some c" "interrupts t c" "\<not> in_lnext i"
  shows "typed t b i = (if lflag t NOFLSH then i else i\<lparr>in_line := [], in_raw := []\<rparr>)"
proof -
  have i: "i\<lparr>in_lnext := False\<rparr> = i" using assms(3) by (cases i) simp
  have q: "in_lnext i = False" "(lflag t ISIG \<and> signal_char t c \<noteq> 0 \<and> c \<noteq> 0) = True"
    using assms by (simp_all add: interrupts_def)
  show ?thesis
    unfolding typed_def input_byte_def assms(1) option.case Let_def fd_input_simps feed.simps q if_True if_False signal_input_cong i
    by simp
qed

lemma edit_input_held:
  assumes "edit_input sink t b s = Some s'"
  shows "held_bytes (fd_input s') \<subseteq> held_bytes (fd_input s)"
proof -
  have w: "set (snd (werase 0 (rev l))) \<subseteq> set l" for l
    using werase_subset [of 0 "rev l"] by simp
  have "case map_option fd_input (edit_input sink t b s) of None \<Rightarrow> True | Some i \<Rightarrow> held_bytes i \<subseteq> held_bytes (fd_input s)"
    unfolding edit_input_cong Let_def held_bytes_def
    using w [of "in_line (fd_input s)"] by (auto dest: in_set_butlastD)
  then show ?thesis using assms by simp
qed

lemma typed_held:
  "held_bytes (typed t b i) \<subseteq> held_bytes i \<union> (case translate t b of None \<Rightarrow> {} | Some c \<Rightarrow> if interrupts t c \<and> \<not> in_lnext i then {} else {c})"
proof (cases "translate t b")
  case (Some c)
  let ?s = "\<lparr>fd_input = i\<lparr>in_lnext := False\<rparr>, fd_out = (), fd_signals = [], fd_wake = False\<rparr>"
  let ?k = "\<lambda>_ _. (True, ())"
  show ?thesis
  proof (cases "interrupts t c \<and> \<not> in_lnext i")
    case True
    then show ?thesis using Some by (auto simp: typed_interrupt held_bytes_def)
  next
    case False
    have 0: "held_bytes (fd_input ?s) = held_bytes i" by (simp add: held_bytes_def)
    have 1: "held_bytes (fd_input (line_input ?k t c ?s)) \<subseteq> held_bytes i \<union> {c}"
        "held_bytes (fd_input (raw_input ?k t c ?s)) \<subseteq> held_bytes i \<union> {c}"
      by (auto simp: line_input_cong raw_input_cong held_bytes_def Let_def)
    have 2: "held_bytes (fd_input (case edit_input ?k t c ?s of Some s'' \<Rightarrow> s'' | None \<Rightarrow> line_input ?k t c ?s)) \<subseteq> held_bytes i \<union> {c}"
      using 1 edit_input_held [of ?k t c ?s] 0 by (auto split: option.split)
    have 3: "held_bytes (i\<lparr>in_lnext := x\<rparr>) = held_bytes i" for x by (simp add: held_bytes_def)
    have s: "on_input (\<lambda>i. i\<lparr>in_lnext := False\<rparr>) \<lparr>fd_input = i, fd_out = (), fd_signals = [], fd_wake = False\<rparr> = ?s"
      by (simp add: on_input_def)
    have n: "(lflag t ISIG \<and> signal_char t c \<noteq> 0 \<and> c \<noteq> 0) \<and> \<not> in_lnext i \<longleftrightarrow> False"
      using False by (simp add: interrupts_def)
    show ?thesis
      unfolding typed_def input_byte_def Some option.case Let_def s
      using 1 2 3 n False by (auto simp: on_input_def split: if_split)
  qed
qed (simp add: typed_def input_byte_def)

text \<open>
  A control character that interrupts, quits or suspends does so and is never data: if the foreground
  group is \<open>pg\<close>, exactly one signal per such byte goes to it, in order, and no such byte can be read by
  any reader, unless the input quotes (\<open>IEXTEN\<close> off means it cannot).
\<close>

theorem control_chars_signal:
  assumes "lflag t ISIG" "\<not> lflag t IEXTEN" "\<not> in_lnext (fd_input s)" "pg \<noteq> 0"
    and "\<And>c. c \<in> held_bytes (fd_input s) \<Longrightarrow> \<not> interrupts t c"
  shows "fd_signals (input_bytes sink t pg bs s) = fd_signals s @ map (\<lambda>c. (pg, signal_char t c)) (filter (interrupts t) (List.map_filter (translate t) bs))
    \<and> (\<forall>c. c \<in> held_bytes (fd_input (input_bytes sink t pg bs s)) \<longrightarrow> \<not> interrupts t c)"
  unfolding input_bytes_def
  using assms(3,5)
proof (induction bs arbitrary: s)
  case (Cons b bs)
  let ?s = "input_byte sink t pg b s"
  have n: "\<not> in_lnext (fd_input ?s)"
  proof (cases "translate t b")
    case (Some c)
    have "\<not> in_lnext (fd_input (case edit_input sink t c s' of Some s'' \<Rightarrow> s'' | None \<Rightarrow> line_input sink t c s'))"
      if "\<not> in_lnext (fd_input s')" for s'
      unfolding case_edit_input edit_input_cong line_input_cong using that by (simp add: Let_def)
    then show ?thesis
      unfolding input_byte_def Some option.case Let_def
      using assms(2) by (simp add: line_input_cong raw_input_cong signal_input_cong Let_def)
  qed (use Cons.prems in \<open>simp add: input_byte_def\<close>)
  have h: "\<not> interrupts t c" if "c \<in> held_bytes (fd_input ?s)" for c
    using that typed_held [of t b "fd_input s"] Cons.prems unfolding input_byte_typed by (auto split: option.splits if_splits)
  show ?case
    using Cons.IH [OF n h] Cons.prems(1) assms(4)
    by (simp add: input_byte_signals List.map_filter_def split: option.splits)
qed (simp add: List.map_filter_def)

theorem control_chars_signal_witness:
  "fd_signals (input_bytes log_sink (default_tty\<lparr>c_lflag := ISIG OR ICANON\<rparr>) 5 [108, 3, 108, 28]
     \<lparr>fd_input = empty_input, fd_out = [], fd_signals = [], fd_wake = False\<rparr>) = [(5, 2), (5, 3)]"
proof -
  let ?t = "default_tty\<lparr>c_lflag := ISIG OR ICANON\<rparr>"
  have "lflag ?t ISIG" "\<not> lflag ?t IEXTEN" by code_simp+
  moreover have "map (\<lambda>c. (5 :: u32, signal_char ?t c)) (filter (interrupts ?t) (List.map_filter (translate ?t) [108, 3, 108, 28])) = [(5, 2), (5, 3)]"
    by code_simp
  ultimately show ?thesis
    using control_chars_signal [of ?t "\<lparr>fd_input = empty_input, fd_out = [], fd_signals = [], fd_wake = False\<rparr>" 5 log_sink "[108, 3, 108, 28]"]
    by (simp add: empty_input_def held_bytes_def)
qed

section \<open>Bounds and modes\<close>

text \<open>
  The line being edited stays short, so do the completed lines, and a terminal that is not in
  canonical mode has none of either.
\<close>

definition tty_inv :: "tty \<Rightarrow> bool" where
  "tty_inv y \<longleftrightarrow> length (in_line (tt_input y)) < 4095 \<and> list_all (\<lambda>l. length l \<le> 4095) (in_lines (tt_input y))
     \<and> (\<not> canon (tt_termios y) \<longrightarrow> in_line (tt_input y) = [] \<and> in_lines (tt_input y) = [])"

definition lines_ok :: "tty_input \<Rightarrow> bool" where
  "lines_ok i \<longleftrightarrow> length (in_line i) < 4095 \<and> list_all (\<lambda>l. length l \<le> 4095) (in_lines i)"

lemma werase_length: "length (snd (werase n l)) \<le> length l"
  by (induction n l rule: werase.induct) (auto split: if_splits)

lemma line_input_ok: "lines_ok (fd_input s) \<Longrightarrow> lines_ok (fd_input (line_input sink t c s))"
  by (auto simp: line_input_cong lines_ok_def Let_def)

lemma lines_ok_simps:
  "lines_ok i \<Longrightarrow> length l \<le> length (in_line i) \<Longrightarrow> lines_ok (i\<lparr>in_line := l\<rparr>)"
  "lines_ok i \<Longrightarrow> lines_ok (i\<lparr>in_lines := in_lines i @ [in_line i], in_line := []\<rparr>)"
  by (simp_all add: lines_ok_def)

lemma edit_input_ok:
  assumes "lines_ok (fd_input s)"
  shows "lines_ok (fd_input (case edit_input sink t c s of Some s' \<Rightarrow> s' | None \<Rightarrow> line_input sink t c s))"
proof -
  have "length (snd (werase 0 (rev (in_line (fd_input s))))) \<le> length (in_line (fd_input s))"
    using werase_length [of 0 "rev (in_line (fd_input s))"] by simp
  then show ?thesis
    unfolding case_edit_input edit_input_cong Let_def
    by (simp add: lines_ok_simps assms line_input_ok split: if_split)
qed

lemma input_byte_lines_ok:
  assumes "lines_ok (fd_input s)"
  shows "lines_ok (fd_input (input_byte sink t pg b s))"
proof (cases "translate t b")
  case (Some c)
  have 1: "lines_ok (fd_input (raw_input sink t c s))" "lines_ok (fd_input (signal_input sink t p n c s))"
    if "lines_ok (fd_input s)" for s p n
    using that by (auto simp: raw_input_cong signal_input_cong lines_ok_def)
  have 2: "lines_ok ((fd_input s)\<lparr>in_lnext := x\<rparr>)" for x using assms by (simp add: lines_ok_def)
  show ?thesis
    unfolding input_byte_def Some option.case Let_def
    by (simp add: 1 2 line_input_ok edit_input_ok)
qed (simp add: input_byte_def assms)

lemma typed_lines_ok: "lines_ok i \<Longrightarrow> lines_ok (typed t b i)"
  by (simp add: typed_def input_byte_lines_ok)

lemma typed_raw_mode:
  assumes "\<not> canon t" "in_line i = []" "in_lines i = []"
  shows "in_line (typed t b i) = []" "in_lines (typed t b i) = []" 
    and "length (in_raw i) \<le> 65536 \<Longrightarrow> length (in_raw (typed t b i)) \<le> 65536"
  using assms unfolding typed_def input_byte_def
  by (auto simp: Let_def raw_input_cong signal_input_cong split: option.split)

lemma typed_all:
  assumes "lines_ok i" "\<not> canon t \<longrightarrow> in_line i = [] \<and> in_lines i = []"
  shows "lines_ok (fold (typed t) bs i)" "\<not> canon t \<longrightarrow> in_line (fold (typed t) bs i) = [] \<and> in_lines (fold (typed t) bs i) = []"
  using assms by (induction bs arbitrary: i) (auto simp: typed_lines_ok typed_raw_mode)

lemma tty_inv_alt: "tty_inv y \<longleftrightarrow> lines_ok (tt_input y) \<and> (\<not> canon (tt_termios y) \<longrightarrow> in_line (tt_input y) = [] \<and> in_lines (tt_input y) = [])"
  by (auto simp: tty_inv_def lines_ok_def)

text \<open>What can happen to a terminal: input, a read that does not wait, a request.\<close>

datatype tty_event = Typed "u8 list" | ReadUp nat | Asked tty_request | HungUp

fun tty_step :: "tty_event \<Rightarrow> tty \<Rightarrow> tty" where
  "tty_step (Typed bs) y = fst (tty_feed demo_sink bs y ())"
| "tty_step (ReadUp n) y = (case tty_read True n y [] of TDone r y' \<Rightarrow> y' | TAsleep y' \<Rightarrow> y')"
| "tty_step (Asked r) y = fst (snd (snd (tty_ioctl r (file_new None 0 :: unit vfile) y)))"
| "tty_step HungUp y = fst (do_hangup y)"

lemma read_try_inv:
  assumes "tty_inv y" "read_try n y = Returns r y'"
  shows "tty_inv y'"
  using assms unfolding read_try_def Let_def
  by (auto simp: tty_inv_def set_input_def split: if_splits list.splits)

lemma tty_read_now:
  "tty_read True n y [] =
     (if n = 0 then TDone (Inr []) y
      else case read_try n y of Returns r y' \<Rightarrow> TDone r y' | SleepsUntil d \<Rightarrow> TAsleep y | Sleeps \<Rightarrow> TDone (Inl EAGAIN) y)"
  by (subst tty_read.simps) (simp split: read_round.split)

lemma tty_step_inv:
  assumes "tty_inv y"
  shows "tty_inv (tty_step e y)"
proof (cases e)
  case (Typed bs)
  then show ?thesis using assms typed_all [of "tt_input y" "tt_termios y" bs] by (simp add: tty_inv_alt)
next
  case (ReadUp n)
  then show ?thesis using assms read_try_inv [of y n] by (auto simp: tty_read_now split: read_round.split)
next
  case (Asked r)
  then show ?thesis using assms by (cases r) (auto simp: tty_inv_def set_attr_def flush_input_def Let_def)
qed (use assms in \<open>simp add: tty_inv_def do_hangup_def\<close>)

text \<open>
  C24. Whatever is typed, read and asked of a terminal, the line being edited stays below 4095 bytes,
  no completed line is longer than that, and once a program has left canonical mode nothing is
  stranded in the line buffers.
\<close>

theorem terminal_bounded: "tty_inv (fold tty_step es (tty_new i slave))"
proof -
  have "tty_inv (tty_new i slave)"
    by (simp add: tty_inv_def tty_new_def empty_input_def)
  then have "tty_inv y \<Longrightarrow> tty_inv (fold tty_step es y)" for y
    by (induction es arbitrary: y) (simp_all add: tty_step_inv)
  with \<open>tty_inv (tty_new i slave)\<close> show ?thesis by blast
qed

text \<open>
  There is no bound on how many completed lines wait, and input that came in raw mode is out of reach
  while the terminal is in canonical mode.
\<close>

theorem lines_unbounded:
  "length (in_lines (tt_input (fst (tty_feed demo_sink (replicate n 13) (tty_new 1 False) ())))) = n"
proof -
  have "tt_termios (tty_new 1 False) = default_tty" by (simp add: tty_new_def)
  moreover have "concat (map (key_line default_tty 13) (replicate n [])) = replicate n 13"
    by (induction n) (simp_all add: key_line_def)
  ultimately show ?thesis
    using typed_lines [OF default_keys_work, of "tt_input (tty_new 1 False)" "replicate n []"]
    by (simp add: tty_new_def empty_input_def list_all_length)
qed

theorem raw_input_out_of_reach:
  assumes "tty_inv y" "\<not> canon (tt_termios y)" "\<not> tt_hangup y" "canon t"
  shows "\<not> readable_now (set_attr t False y) \<and> in_raw (tt_input (set_attr t False y)) = in_raw (tt_input y)"
  using assms by (simp add: tty_inv_def set_attr_def readable_now_def Let_def)

section \<open>Reading\<close>


definition polls :: "tty \<Rightarrow> bool" where
  "polls y \<longleftrightarrow> \<not> canon (tt_termios y) \<and> c_cc (tt_termios y) ! VMIN = 0"







text \<open>
  A terminal set to wait for input for a limited time (\<open>VMIN\<close> 0 and \<open>VTIME\<close> not 0) waits for ever: when the time
  is over the read starts again, even for a file that must not block.
\<close>

theorem read_timeout_ignored:
  assumes "polls y" "c_cc (tt_termios y) ! VTIME \<noteq> 0" "\<not> tt_hangup y" "in_raw (tt_input y) = []" "0 < n"
  shows "tty_read nb n y (replicate k (TTimeout y)) = TAsleep y"
proof -
  have r: "\<exists>d. read_try n y = SleepsUntil d"
    using assms by (simp add: read_try_def polls_def Let_def unat_gt_0)
  show ?thesis
  proof (induction k)
    case 0
    then show ?case using r assms(5) by (subst tty_read.simps) auto
  next
    case (Suc k)
    then show ?case using r assms(5) by (subst tty_read.simps) auto
  qed
qed

section \<open>Writing\<close>

text \<open>
  What a terminal relies on of its output: bytes are taken as a whole, at the end of what was taken
  before, or refused without effect.
\<close>

locale byte_sink =
  fixes sink :: "'o sink"
    and taken :: "'o \<Rightarrow> u8 list"
  assumes takes: "sink d out = (True, out') \<Longrightarrow> taken out' = taken out @ d"
    and refuses: "sink d out = (False, out') \<Longrightarrow> out' = out"
begin

abbreviation cooked :: "termios \<Rightarrow> u8 list \<Rightarrow> u8 list" where
  "cooked t bs \<equiv> if oflag t OPOST then concat (map (post_byte t) bs) else bs"

lemma output_takes: "output_processed sink t d out = (True, out') \<Longrightarrow> taken out' = taken out @ cooked t d"
  by (auto simp: output_processed_def takes split: if_splits)

lemma output_refuses: "output_processed sink t d out = (False, out') \<Longrightarrow> out' = out"
  by (auto simp: output_processed_def dest: refuses split: if_splits)

lemma cooked_append: "cooked t (xs @ ys) = cooked t xs @ cooked t ys"
  by simp

lemma write_split:
  assumes "off \<le> e" "e \<le> k" "k \<le> length buf"
  shows "take (e - off) (drop off buf) @ take (k - e) (drop e buf) = take (k - off) (drop off buf)"
proof -
  have "take (k - off) (drop off buf) = take (e - off + (k - e)) (drop off buf)" using assms by simp
  then show ?thesis using assms by (simp only: take_add) simp
qed

text \<open>
  How far a write gets before it has to wait: the bytes up to there are in the output, cooked, once each
  and in order.
\<close>

definition progress :: "termios \<Rightarrow> u8 list \<Rightarrow> nat \<Rightarrow> 'o \<Rightarrow> nat \<Rightarrow> 'o \<Rightarrow> bool" where
  "progress t buf off out k out' \<longleftrightarrow>
     off \<le> k \<and> k \<le> length buf \<and> taken out' = taken out @ cooked t (take (k - off) (drop off buf))"

lemma progress_step:
  assumes "output_processed sink t (take (e - off) (drop off buf)) out = (True, out1)" "off \<le> e"
    and "progress t buf e out1 k out'"
  shows "progress t buf off out k out'"
proof -
  have "taken out' = taken out @ cooked t (take (e - off) (drop off buf)) @ cooked t (take (k - e) (drop e buf))"
    using assms(3) output_takes [OF assms(1)] by (simp add: progress_def)
  then show ?thesis
    using assms(2,3) write_split [of off e k buf] unfolding progress_def
    by (simp only: cooked_append [symmetric]) auto
qed

lemma write_now:
  assumes "off \<le> length buf"
  shows "\<exists>k out'. progress t buf off out k out'
    \<and> (if k = length buf then tty_write_loop sink t nb buf off out [] = WDone (Inr k) out'
       else if nb then tty_write_loop sink t nb buf off out [] = WDone (if 0 < k then Inr k else Inl EAGAIN) out'
       else tty_write_loop sink t nb buf off out [] = WAsleep k out')"
  using assms
proof (induction "length buf - off" arbitrary: off out rule: less_induct)
  case less
  show ?case
  proof (cases "off < length buf")
    case False
    then show ?thesis using less.prems by (subst (1 2 3) tty_write_loop.simps) (auto simp: progress_def)
  next
    case True
    let ?e = "min (off + 4096) (length buf)"
    obtain ok out1 where o: "output_processed sink t (take (?e - off) (drop off buf)) out = (ok, out1)" by force
    show ?thesis
    proof (cases ok)
      case True
      have e: "off < ?e" "?e \<le> length buf" "length buf - ?e < length buf - off" using \<open>off < length buf\<close> by auto
      have w: "tty_write_loop sink t nb buf off out [] = tty_write_loop sink t nb buf ?e out1 []"
        using \<open>off < length buf\<close> o True by (subst tty_write_loop.simps) (simp add: Let_def)
      obtain k out' where "progress t buf ?e out1 k out'"
        "if k = length buf then tty_write_loop sink t nb buf ?e out1 [] = WDone (Inr k) out'
         else if nb then tty_write_loop sink t nb buf ?e out1 [] = WDone (if 0 < k then Inr k else Inl EAGAIN) out'
         else tty_write_loop sink t nb buf ?e out1 [] = WAsleep k out'"
        using less.hyps [OF e(3,2)] by blast
      moreover have "progress t buf off out k out'"
        using progress_step [of t ?e off buf out out1 k out'] o True e(1) calculation(1) by simp
      ultimately show ?thesis unfolding w by blast
    next
      case False
      then have "out1 = out" using output_refuses [of t "take (?e - off) (drop off buf)" out out1] o by simp
      then have "progress t buf off out off out1" "off \<noteq> length buf"
        using less.prems \<open>off < length buf\<close> by (simp_all add: progress_def)
      moreover have "tty_write_loop sink t nb buf off out [] =
          (if nb then WDone (if 0 < off then Inr off else Inl EAGAIN) out1 else WAsleep off out1)"
        using \<open>off < length buf\<close> o False by (subst tty_write_loop.simps) (simp add: Let_def)
      ultimately show ?thesis by (intro exI [of _ off] exI [of _ out1]) (cases nb; simp)
    qed
  qed
qed

end

interpretation pty_out: byte_sink pty_sink "\<lambda>q. q"
  by unfold_locales (auto simp: pty_sink_def split: if_splits)

lemma pty_sink_bounded: "length q \<le> PTY_QUEUE \<Longrightarrow> length (snd (pty_sink d q)) \<le> PTY_QUEUE"
  by (auto simp: pty_sink_def)

lemma pty_output_bounded: "length q \<le> PTY_QUEUE \<Longrightarrow> output_processed pty_sink t d q = (ok, q') \<Longrightarrow> length q' \<le> PTY_QUEUE"
  by (metis output_processed_def pty_sink_bounded snd_conv)

fun result_queue :: "'o write_result \<Rightarrow> 'o" where
  "result_queue (WDone r q) = q"
| "result_queue (WAsleep k q) = q"

lemma pty_write_bounded:
  assumes "length q \<le> PTY_QUEUE"
  shows "length (result_queue (tty_write_loop pty_sink t nb buf off q [])) \<le> PTY_QUEUE"
  using assms
proof (induction "length buf - off" arbitrary: off q rule: less_induct)
  case less
  let ?e = "min (off + 4096) (length buf)"
  obtain ok q1 where o: "output_processed pty_sink t (take (?e - off) (drop off buf)) q = (ok, q1)" by force
  have b: "length q1 \<le> PTY_QUEUE" using pty_output_bounded [OF less.prems o] .
  show ?case
  proof (cases "off < length buf \<and> ok")
    case True
    then have "length buf - ?e < length buf - off" by auto
    with True less.hyps [of ?e q1] b o show ?thesis by (subst tty_write_loop.simps) (simp add: Let_def)
  next
    case False
    then show ?thesis using b o less.prems by (subst tty_write_loop.simps) (auto simp: Let_def)
  qed
qed

lemma slave_write_lemma:
  assumes "length q \<le> PTY_QUEUE" "\<not> tt_hangup y" "buf \<noteq> []" "oflag (tt_termios y) OPOST"
  shows "\<exists>k q'. tty_write pty_sink True buf y q [] = WDone (if 0 < k then Inr k else Inl EAGAIN) q'
    \<and> k \<le> length buf \<and> q' = q @ concat (map (post_byte (tt_termios y)) (take k buf)) \<and> length q' \<le> PTY_QUEUE"
proof -
  let ?t = "tt_termios y"
  obtain k q' where p: "pty_out.progress ?t buf 0 q k q'"
    and w: "if k = length buf then tty_write_loop pty_sink ?t True buf 0 q [] = WDone (Inr k) q'
       else tty_write_loop pty_sink ?t True buf 0 q [] = WDone (if 0 < k then Inr k else Inl EAGAIN) q'"
    using pty_out.write_now [of 0 buf ?t q True] by auto
  have "tty_write pty_sink True buf y q [] = WDone (if 0 < k then Inr k else Inl EAGAIN) q'"
    using w assms(2,3) by (auto simp: tty_write_def split: if_splits)
  moreover have "k \<le> length buf" "q' = q @ concat (map (post_byte ?t) (take k buf))"
    using p assms(4) by (simp_all add: pty_out.progress_def)
  moreover have "length q' \<le> PTY_QUEUE"
    using pty_write_bounded [OF assms(1), of ?t True buf 0] w by (auto split: if_splits)
  ultimately show ?thesis by blast
qed

text \<open>
  A write on a pseudo-terminal's slave that must not block says how much the master will see: it
  returns \<open>k\<close> and the output of the first \<open>k\<close> bytes, processed once each and in order, is at the end of the
  queue to the master; or \<open>EAGAIN\<close> and the queue is as it was. The queue never holds more than 65536 bytes.
\<close>

theorem slave_write_exact:
  assumes "length q \<le> PTY_QUEUE" "\<not> tt_hangup y" "buf \<noteq> []" "oflag (tt_termios y) OPOST"
  shows "\<exists>k q'. tty_write pty_sink True buf y q [] = WDone (if 0 < k then Inr k else Inl EAGAIN) q'
    \<and> k \<le> length buf \<and> q' = q @ concat (map (post_byte (tt_termios y)) (take k buf)) \<and> length q' \<le> PTY_QUEUE"
  using assms by (rule slave_write_lemma)

theorem slave_write_exact_witness:
  "\<exists>k q'. tty_write pty_sink True [104, 10] (tty_new 0 True) [120] [] = WDone (if 0 < k then Inr k else Inl EAGAIN) q'
    \<and> k \<le> 2 \<and> q' = [120] @ concat (map (post_byte default_tty) (take k [104, 10])) \<and> length q' \<le> PTY_QUEUE"
proof -
  have t: "tt_termios (tty_new 0 True) = default_tty" by (simp add: tty_new_def)
  have l: "length [104, 10 :: u8] = 2" by simp
  have "oflag (tt_termios (tty_new 0 True)) OPOST" "\<not> tt_hangup (tty_new 0 True)" by code_simp+
  moreover have "length [120 :: u8] \<le> PTY_QUEUE" "[104, 10 :: u8] \<noteq> []" by (simp_all add: PTY_QUEUE_def)
  ultimately show ?thesis
    using slave_write_exact [of "[120]" "tty_new 0 True" "[104, 10]"] unfolding t l by (simp only: simp_thms)
qed

text \<open>
  The queue says there is room as soon as one byte is free, but takes a chunk only as a whole: a
  writer that polled for \<open>POLLOUT\<close> can be refused, and one that may wait is woken for nothing.
\<close>

theorem room_but_refused:
  assumes "length q = PTY_QUEUE - 1"
  shows "has (tty_poll pty_sink (tty_new 0 True) q) POLLOUT \<and> tty_write pty_sink True [104, 105] (tty_new 0 True) q [] = WDone (Inl EAGAIN) q"
proof -
  have "concat (map (post_byte default_tty) [104, 105]) = [104, 105]" "oflag default_tty OPOST" by code_simp+
  moreover have "PTY_QUEUE - 1 < PTY_QUEUE" "PTY_QUEUE < PTY_QUEUE - 1 + 2" by (simp_all add: PTY_QUEUE_def)
  ultimately have "output_processed pty_sink default_tty [104, 105] q = (False, q)" "sink_has_room pty_sink q"
    using assms by (simp_all add: output_processed_def pty_sink_def sink_has_room_def)
  then show ?thesis
    by (subst tty_write_def, subst tty_write_loop.simps)
       (auto simp: tty_new_def tty_poll_def has_def POLLIN_def POLLOUT_def POLLHUP_def Let_def)
qed

section \<open>The table of pseudo-terminals\<close>

definition ptys_inv :: "pty option list \<Rightarrow> bool" where
  "ptys_inv ps \<longleftrightarrow> (ps = [] \<or> length ps = MAX_PTYS)
     \<and> (\<forall>i < length ps. \<forall>p. ps ! i = Some p \<longrightarrow>
          tt_index (py_slave p) = i \<and> py_master_open p \<and> \<not> tt_hangup (py_slave p)
          \<and> length (py_to_master p) \<le> PTY_QUEUE \<and> tty_inv (py_slave p))"





















text \<open>
  The master of a pseudo-terminal in the table is never told that the slave side is gone: the hangup
  it waits for is set only when the master itself is closed.
\<close>

theorem master_never_hung_up:
  assumes "ptys_inv ps" "i < length ps" "ps ! i = Some p" "py_to_master p = []"
  shows "master_read True n (slave_release p) [] = PDone (Inl EAGAIN) (slave_release p)
    \<and> master_read False n (slave_release p) [] = PAsleep (slave_release p)"
proof -
  have "\<not> tt_hangup (py_slave p)" using assms by (auto simp: ptys_inv_def)
  then show ?thesis using assms(4) by (subst (1 2) master_read.simps) (simp add: slave_release_def)
qed

text \<open>
  What the slave writes and the master reads: after a write that returned \<open>k\<close>, the master's reads give
  what was queued before followed by the processed output of those \<open>k\<close> bytes, a prefix at a time.
\<close>

theorem master_reads_slave_output:
  assumes "oflag (tt_termios (py_slave p)) OPOST" "\<not> tt_hangup (py_slave p)" "length (py_to_master p) \<le> PTY_QUEUE"
    and "tty_write pty_sink True buf (py_slave p) (py_to_master p) [] = WDone (Inr k) q" "0 < n" "0 < k"
  shows "\<exists>p'. master_read nb n (p\<lparr>py_to_master := q\<rparr>) ws = PDone (Inr (take n q)) p' \<and> py_to_master p' = drop n q
    \<and> q = py_to_master p @ concat (map (post_byte (tt_termios (py_slave p))) (take k buf)) \<and> q \<noteq> []"
proof -
  let ?t = "tt_termios (py_slave p)"
  have b: "buf \<noteq> []"
  proof
    assume "buf = []"
    then show False using assms(2,4,6) by (auto simp: tty_write_def tty_write_loop.simps)
  qed
  obtain j q' where j: "tty_write pty_sink True buf (py_slave p) (py_to_master p) [] = WDone (if 0 < j then Inr j else Inl EAGAIN) q'"
    "j \<le> length buf" "q' = py_to_master p @ concat (map (post_byte ?t) (take j buf))"
    using slave_write_lemma [OF assms(3,2) b assms(1)] by blast
  then have jk: "j = k" "q' = q" using assms(4) by (auto split: if_splits)
  have "concat (map (post_byte ?t) (take k buf)) \<noteq> []"
    using b assms(6) by (cases buf; cases k) (auto simp: post_byte_def)
  then have ne: "q \<noteq> []" using j(3) jk by simp
  show ?thesis using ne j(3) jk by (subst master_read.simps) auto
qed

end
