(* ===== verification/Input_Dev.thy ===== *)
theory Input_Dev
  imports Tty
begin

text \<open>
  Keyboard and mouse: the interrupt handlers of src/research/kernel-rs/kernel/src/dev/ps2.rs that decode
  scan codes and mouse packets, the queue of input events (dev/input.rs), its readers
  (dev/evdev.rs), and the console keyboard of dev/tty.rs that turns keys into terminal input.

  The bytes the controller delivers and the clock are arguments. The console's output (serial line
  and screen) takes every byte: \<open>console_sink\<close>.
\<close>

section \<open>Events\<close>

definition EV_SYN :: u16 where "EV_SYN = 0"
definition EV_KEY :: u16 where "EV_KEY = 1"
definition EV_REL :: u16 where "EV_REL = 2"
definition REL_X :: u16 where "REL_X = 0"
definition REL_Y :: u16 where "REL_Y = 1"
definition REL_WHEEL :: u16 where "REL_WHEEL = 8"
definition BTN_LEFT :: u16 where "BTN_LEFT = 0x110"
definition BTN_RIGHT :: u16 where "BTN_RIGHT = 0x111"
definition BTN_MIDDLE :: u16 where "BTN_MIDDLE = 0x112"

record input_event =
  tv_sec :: nat
  tv_usec :: nat
  ev_typ :: u16
  ev_code :: u16
  ev_value :: int

definition QUEUE :: nat where "QUEUE = 512"

record event_queue =
  eq_buf :: "input_event list"
  eq_head :: usize
  eq_tail :: usize

definition no_event :: input_event where
  "no_event = \<lparr>tv_sec = 0, tv_usec = 0, ev_typ = 0, ev_code = 0, ev_value = 0\<rparr>"

definition eq_new :: event_queue where
  "eq_new = \<lparr>eq_buf = replicate QUEUE no_event, eq_head = 0, eq_tail = 0\<rparr>"

definition eq_push :: "input_event \<Rightarrow> event_queue \<Rightarrow> event_queue" where
  "eq_push ev q =
     (let q = (if QUEUE \<le> unat (eq_head q - eq_tail q) then q\<lparr>eq_tail := eq_tail q + 1\<rparr> else q)
      in q\<lparr>eq_buf := (eq_buf q)[unat (eq_head q) mod QUEUE := ev], eq_head := eq_head q + 1\<rparr>)"

definition eq_pop :: "event_queue \<Rightarrow> input_event option \<times> event_queue" where
  "eq_pop q =
     (if eq_head q = eq_tail q then (None, q)
      else (Some (eq_buf q ! (unat (eq_tail q) mod QUEUE)), q\<lparr>eq_tail := eq_tail q + 1\<rparr>))"

definition eq_len :: "event_queue \<Rightarrow> nat" where
  "eq_len q = unat (eq_head q - eq_tail q)"

section \<open>Readers\<close>

record evdev_reader =
  er_queue :: "input_event list"
  er_grab :: bool

text \<open>The loop that empties the queue.\<close>

function pop_all :: "event_queue \<Rightarrow> input_event list \<times> event_queue" where
  "pop_all q =
     (case eq_pop q of
        (None, q') \<Rightarrow> ([], q')
      | (Some e, q') \<Rightarrow> (case pop_all q' of (es, q'') \<Rightarrow> (e # es, q'')))"
  by pat_completeness auto
termination
  by (relation "measure eq_len")
     (auto simp: eq_pop_def eq_len_def unat_minus_one unat_gt_0 diff_diff_eq [symmetric] intro!: diff_less split: if_splits)

declare pop_all.simps [simp del]

definition reader_push :: "input_event \<Rightarrow> input_event list \<Rightarrow> input_event list" where
  "reader_push e q = (if 1024 \<le> length q then tl q else q) @ [e]"

definition reader_take :: "input_event list \<Rightarrow> evdev_reader \<Rightarrow> evdev_reader" where
  "reader_take es r = r\<lparr>er_queue := fold reader_push es (er_queue r)\<rparr>"

text \<open>
  The input system: the queue, the readers by the order of opening (a closed one is \<open>None\<close>), whether the
  console ignores keys, the modifier keys, the two decoders, and the console.
\<close>

record key_state =
  ks_shift :: bool
  ks_ctrl :: bool
  ks_alt :: bool
  ks_caps :: bool

record mouse =
  mo_wheel :: bool
  mo_packet :: "u8 list"
  mo_idx :: nat
  mo_buttons :: u8

record input_sys =
  is_events :: event_queue
  is_readers :: "evdev_reader option list"
  is_grabbed :: bool
  is_keys :: key_state
  is_e0 :: bool
  is_mouse :: mouse
  is_tty :: tty
  is_out :: "u8 list"
  is_signals :: "(u32 \<times> nat) list"

definition distribute :: "input_sys \<Rightarrow> input_sys" where
  "distribute s =
     (case pop_all (is_events s) of
        (es, q) \<Rightarrow>
          if es = [] then s\<lparr>is_events := q\<rparr>
          else s\<lparr>is_events := q, is_readers := map (map_option (reader_take es)) (is_readers s)\<rparr>)"

text \<open>\<open>open\<close>; a slot number stands for the weak reference.\<close>

definition ev_open :: "input_sys \<Rightarrow> nat \<times> input_sys" where
  "ev_open s = (length (is_readers s), s\<lparr>is_readers := is_readers s @ [Some \<lparr>er_queue = [], er_grab = False\<rparr>]\<rparr>)"

definition EVENT_SIZE :: nat where "EVENT_SIZE = 24"

text \<open>\<open>read\<close>: as many whole events as fit into \<open>n\<close> bytes. It sleeps on the given resumptions of the queue.\<close>

datatype ev_wake = EvWoken "input_event list" | EvInterrupted "input_event list"

datatype ev_result = EvDone "input_event list kresult" "input_event list" | EvAsleep "input_event list"

fun ev_read :: "bool \<Rightarrow> nat \<Rightarrow> input_event list \<Rightarrow> ev_wake list \<Rightarrow> ev_result" where
  "ev_read nb n q ws =
     (if n < EVENT_SIZE then EvDone (Inl EINVAL) q
      else if q \<noteq> [] then EvDone (Inr (take (n div EVENT_SIZE) q)) (drop (n div EVENT_SIZE) q)
      else if nb then EvDone (Inl EAGAIN) q
      else case ws of
        [] \<Rightarrow> EvAsleep q
      | EvInterrupted q' # _ \<Rightarrow> EvDone (Inl EINTR) q'
      | EvWoken q' # ws' \<Rightarrow> ev_read nb n q' ws')"

declare ev_read.simps [simp del]

definition ev_poll :: "input_event list \<Rightarrow> u32" where
  "ev_poll q = (if q = [] then 0 else POLLIN)"

text \<open>The bit sets of \<open>EVIOCGBIT\<close>.\<close>

definition set_bit_at :: "nat \<Rightarrow> u8 list \<Rightarrow> u8 list" where
  "set_bit_at i bits = (if i div 8 < length bits then bits[i div 8 := bits ! (i div 8) OR push_bit (i mod 8) 1] else bits)"

definition ev_codes :: "u16 \<Rightarrow> nat list" where
  "ev_codes ev =
     (if ev = 0 then [0, 1, 2]
      else if ev = EV_KEY then [1..<128] @ [0x110..<0x115]
      else if ev = EV_REL then [0, 1, 8]
      else [])"

definition ev_bits :: "u16 \<Rightarrow> nat \<Rightarrow> u8 list" where
  "ev_bits ev n = fold set_bit_at (ev_codes ev) (replicate n 0)"

text \<open>
  \<open>ioctl\<close>: the bytes written to the caller and the result. \<open>on\<close> is whether the argument is not zero.
\<close>

definition ev_name :: "u32 \<Rightarrow> u8 list" where
  "ev_name nr =
     map (\<lambda>c. word_of_nat (of_char c))
       (if nr = 6 then ''MindOS PS/2 Keyboard and Mouse'' else if nr = 7 then ''isa0060/serio0'' else '''') @ [0]"

definition ev_grab :: "nat \<Rightarrow> bool \<Rightarrow> input_sys \<Rightarrow> input_sys" where
  "ev_grab i on s =
     s\<lparr>is_readers := (is_readers s)[i := map_option (\<lambda>r. r\<lparr>er_grab := on\<rparr>) (is_readers s ! i)], is_grabbed := on\<rparr>"

definition ev_ioctl :: "nat \<Rightarrow> u32 \<Rightarrow> bool \<Rightarrow> input_sys \<Rightarrow> (u8 list \<times> nat) kresult \<times> input_sys" where
  "ev_ioctl i cmd on s =
     (let nr = cmd AND 0xff; n = unat (drop_bit 16 cmd AND 0x3fff); typ = drop_bit 8 cmd AND 0xff in
      if typ \<noteq> 0x45 then (Inl ENOTTY, s)
      else if nr = 1 then (Inr ([1, 0, 1, 0], 0), s)
      else if nr = 2 then (Inr ([0x11, 0, 1, 0, 1, 0, 0, 1], 0), s)
      else if nr = 6 \<or> nr = 7 \<or> nr = 8 then
        (let b = take n (ev_name nr) in (Inr (b, length b), s))
      else if nr = 0x18 then (Inr (replicate n 0, n), s)
      else if 0x20 \<le> nr \<and> nr \<le> 0x3f then (Inr (ev_bits (ucast (nr - 0x20)) n, n), s)
      else if nr = 0x90 then (Inr ([], 0), ev_grab i on s)
      else if nr = 0xa0 then (Inr ([], 0), s)
      else (Inl ENOTTY, s))"

definition ev_release :: "nat \<Rightarrow> input_sys \<Rightarrow> input_sys" where
  "ev_release i s =
     (case if i < length (is_readers s) then is_readers s ! i else None of
        None \<Rightarrow> s
      | Some r \<Rightarrow>
          s\<lparr>is_readers := (is_readers s)[i := None], is_grabbed := (if er_grab r then False else is_grabbed s)\<rparr>)"

section \<open>The console keyboard\<close>

text \<open>The US layout: key code, plain and shifted character.\<close>

definition KEYMAP :: "(u16 \<times> u8 \<times> u8) list" where
  "KEYMAP =
    [(2, 49, 33), (3, 50, 64), (4, 51, 35), (5, 52, 36), (6, 53, 37), (7, 54, 94), (8, 55, 38), (9, 56, 42),
     (10, 57, 40), (11, 48, 41), (12, 45, 95), (13, 61, 43), (14, 127, 127), (15, 9, 9), (16, 113, 81), (17, 119, 87),
     (18, 101, 69), (19, 114, 82), (20, 116, 84), (21, 121, 89), (22, 117, 85), (23, 105, 73), (24, 111, 79), (25, 112, 80),
     (26, 91, 123), (27, 93, 125), (28, 10, 10), (30, 97, 65), (31, 115, 83), (32, 100, 68), (33, 102, 70), (34, 103, 71),
     (35, 104, 72), (36, 106, 74), (37, 107, 75), (38, 108, 76), (39, 59, 58), (40, 39, 34), (41, 96, 126), (43, 92, 124),
     (44, 122, 90), (45, 120, 88), (46, 99, 67), (47, 118, 86), (48, 98, 66), (49, 110, 78), (50, 109, 77), (51, 44, 60),
     (52, 46, 62), (53, 47, 63), (57, 32, 32), (1, 27, 27), (96, 10, 10), (98, 47, 47), (55, 42, 42), (74, 45, 45),
     (78, 43, 43), (111, 127, 127)]"

definition is_ascii_alphabetic :: "u8 \<Rightarrow> bool" where
  "is_ascii_alphabetic c \<longleftrightarrow> 65 \<le> c \<and> c \<le> 90 \<or> 97 \<le> c \<and> c \<le> 122"

definition to_ascii_uppercase :: "u8 \<Rightarrow> u8" where
  "to_ascii_uppercase c = (if 97 \<le> c \<and> c \<le> 122 then c - 32 else c)"

definition keycode_to_ascii :: "u16 \<Rightarrow> bool \<Rightarrow> bool \<Rightarrow> bool \<Rightarrow> u8 option" where
  "keycode_to_ascii code shift ctrl caps =
     map_option (\<lambda>(plain, shifted).
        let c = (if shift then shifted else plain);
            c = (if caps \<and> is_ascii_alphabetic plain then (if shift then plain else shifted) else c)
        in if ctrl \<and> is_ascii_alphabetic c then to_ascii_uppercase c - 64
           else if ctrl \<and> c = 91 then 0x1b
           else c) (map_of KEYMAP code)"

text \<open>The escape sequences of the keys that have one.\<close>

definition KEY_SEQS :: "(u16 \<times> u8 list) list" where
  "KEY_SEQS =
     [(103, [0x1b, 91, 65]), (108, [0x1b, 91, 66]), (106, [0x1b, 91, 67]), (105, [0x1b, 91, 68]),
      (102, [0x1b, 91, 72]), (107, [0x1b, 91, 70]), (104, [0x1b, 91, 53, 126]), (109, [0x1b, 91, 54, 126]),
      (110, [0x1b, 91, 50, 126]), (111, [0x1b, 91, 51, 126]), (59, [0x1b, 79, 80]), (60, [0x1b, 79, 81]),
      (61, [0x1b, 79, 82]), (62, [0x1b, 79, 83]), (63, [0x1b, 91, 49, 53, 126]), (64, [0x1b, 91, 49, 55, 126]),
      (65, [0x1b, 91, 49, 56, 126]), (66, [0x1b, 91, 49, 57, 126]), (67, [0x1b, 91, 50, 48, 126]), (68, [0x1b, 91, 50, 49, 126]),
      (87, [0x1b, 91, 50, 51, 126]), (88, [0x1b, 91, 50, 52, 126])]"

definition console_sink :: "u8 list sink" where
  "console_sink data out = (True, out @ data)"

definition console_input :: "u8 list \<Rightarrow> input_sys \<Rightarrow> input_sys" where
  "console_input bs s =
     (case tty_feed console_sink bs (is_tty s) (is_out s) of
        (y, f) \<Rightarrow> s\<lparr>is_tty := y, is_out := fd_out f, is_signals := is_signals s @ fd_signals f\<rparr>)"

definition console_key_hook :: "u16 \<Rightarrow> bool \<Rightarrow> input_sys \<Rightarrow> input_sys" where
  "console_key_hook code pressed s =
     (let ks = is_keys s in
      if code = 42 \<or> code = 54 then s\<lparr>is_keys := ks\<lparr>ks_shift := pressed\<rparr>\<rparr>
      else if code = 29 \<or> code = 97 then s\<lparr>is_keys := ks\<lparr>ks_ctrl := pressed\<rparr>\<rparr>
      else if code = 56 \<or> code = 100 then s\<lparr>is_keys := ks\<lparr>ks_alt := pressed\<rparr>\<rparr>
      else if code = 58 then s\<lparr>is_keys := (if pressed then ks\<lparr>ks_caps := \<not> ks_caps ks\<rparr> else ks)\<rparr>
      else if \<not> pressed \<or> is_grabbed s then s
      else case map_of KEY_SEQS code of
        Some seq \<Rightarrow> console_input seq s
      | None \<Rightarrow>
          (case keycode_to_ascii code (ks_shift ks) (ks_ctrl ks) (ks_caps ks) of
             None \<Rightarrow> s
           | Some b \<Rightarrow>
               (let b = (if code = 28 \<or> code = 96 then 13 else b)
                in console_input (if ks_alt ks then [0x1b, b] else [b]) s)))"

section \<open>Emitting events\<close>

definition emit :: "nat \<Rightarrow> u16 \<Rightarrow> u16 \<Rightarrow> int \<Rightarrow> input_sys \<Rightarrow> input_sys" where
  "emit ns typ code value s =
     (let s = s\<lparr>is_events := eq_push \<lparr>tv_sec = ns div 1000000000, tv_usec = ns mod 1000000000 div 1000,
                  ev_typ = typ, ev_code = code, ev_value = value\<rparr> (is_events s)\<rparr>
      in if typ = EV_KEY then console_key_hook code (value \<noteq> 0) s else s)"

definition sync :: "nat \<Rightarrow> input_sys \<Rightarrow> input_sys" where
  "sync ns s = distribute (emit ns EV_SYN 0 0 s)"

section \<open>Keyboard and mouse interrupts\<close>

definition EXTENDED :: "(u8 \<times> u16) list" where
  "EXTENDED = [(0x1C, 96), (0x1D, 97), (0x35, 98), (0x37, 99), (0x38, 100), (0x47, 102), (0x48, 103), (0x49, 104), (0x4B, 105), (0x4D, 106), (0x4F, 107), (0x50, 108), (0x51, 109), (0x52, 110), (0x53, 111), (0x5B, 125), (0x5C, 126), (0x5D, 127)]"

definition kbd_irq :: "nat \<Rightarrow> u8 \<Rightarrow> input_sys \<Rightarrow> input_sys" where
  "kbd_irq ns sc s =
     (if sc = 0xE0 then s\<lparr>is_e0 := True\<rparr>
      else if sc = 0xE1 then s
      else
        (let pressed = (sc AND 0x80 = 0); code = sc AND 0x7F;
             key = (if is_e0 s then map_of EXTENDED code else Some (ucast code));
             s = s\<lparr>is_e0 := False\<rparr>
         in case key of
              None \<Rightarrow> s
            | Some k \<Rightarrow> sync ns (emit ns EV_KEY k (if pressed then 1 else 0) s)))"

definition emit_if :: "bool \<Rightarrow> nat \<Rightarrow> u16 \<Rightarrow> u16 \<Rightarrow> int \<Rightarrow> input_sys \<Rightarrow> input_sys" where
  "emit_if c ns typ code value s = (if c then emit ns typ code value s else s)"

definition mouse_report :: "nat \<Rightarrow> u8 \<Rightarrow> u8 \<Rightarrow> int \<Rightarrow> int \<Rightarrow> int \<Rightarrow> input_sys \<Rightarrow> input_sys" where
  "mouse_report ns old buttons dx dy wheel s =
     (let s = emit_if (dx \<noteq> 0) ns EV_REL REL_X dx s;
          s = emit_if (dy \<noteq> 0) ns EV_REL REL_Y (- dy) s;
          s = emit_if (wheel \<noteq> 0) ns EV_REL REL_WHEEL (- wheel) s;
          s = fold (\<lambda>(bit, code). emit_if (((old XOR buttons) AND bit) \<noteq> 0) ns EV_KEY code (if buttons AND bit \<noteq> 0 then 1 else 0))
                [(1, BTN_LEFT), (2, BTN_RIGHT), (4, BTN_MIDDLE)] s
      in sync ns s)"

definition mouse_irq :: "nat \<Rightarrow> u8 \<Rightarrow> input_sys \<Rightarrow> input_sys" where
  "mouse_irq ns b s =
     (let m = is_mouse s in
      if mo_idx m = 0 \<and> b AND 8 = 0 then s
      else
        (let p = (mo_packet m)[mo_idx m := b]; m = m\<lparr>mo_packet := p, mo_idx := mo_idx m + 1\<rparr> in
         if mo_idx m < (if mo_wheel m then 4 else 3) then s\<lparr>is_mouse := m\<rparr>
         else
           (let dx = uint (p ! 1) - (if p ! 0 AND 0x10 \<noteq> 0 then 256 else 0);
                dy = uint (p ! 2) - (if p ! 0 AND 0x20 \<noteq> 0 then 256 else 0);
                buttons = p ! 0 AND 7;
                old = mo_buttons m;
                wheel = (if mo_wheel m then sint (push_bit 4 (p ! 3 AND 0xF)) div 16 else 0)
            in mouse_report ns old buttons dx dy wheel (s\<lparr>is_mouse := m\<lparr>mo_idx := 0, mo_buttons := buttons\<rparr>\<rparr>))))"

definition input_new :: "bool \<Rightarrow> input_sys" where
  "input_new wheel =
     \<lparr>is_events = eq_new, is_readers = [], is_grabbed = False,
      is_keys = \<lparr>ks_shift = False, ks_ctrl = False, ks_alt = False, ks_caps = False\<rparr>, is_e0 = False,
      is_mouse = \<lparr>mo_wheel = wheel, mo_packet = [0, 0, 0, 0], mo_idx = 0, mo_buttons = 0\<rparr>,
      is_tty = tty_new 1 False, is_out = [], is_signals = []\<rparr>"

section \<open>The queue keeps the newest events\<close>

definition newest :: "nat \<Rightarrow> 'a list \<Rightarrow> 'a list" where
  "newest n xs = drop (length xs - n) xs"

lemma newest_all [simp]: "length xs \<le> n \<Longrightarrow> newest n xs = xs"
  by (simp add: newest_def)

lemma length_newest [simp]: "length (newest n xs) = min n (length xs)"
  by (auto simp: newest_def)

lemma newest_snoc: "newest n (newest n xs @ [x]) = newest n (xs @ [x])"
  by (cases "length xs \<le> n") (simp_all add: newest_def Suc_diff_le drop_drop [symmetric] min_def)

lemma newest_append: "newest n (newest n xs @ ys) = newest n (xs @ ys)"
proof (induction ys rule: rev_induct)
  case Nil
  show ?case by (simp add: newest_def)
next
  case (snoc y ys)
  have "newest n (newest n xs @ ys @ [y]) = newest n (newest n (newest n xs @ ys) @ [y])"
    by (simp add: newest_snoc)
  also have "\<dots> = newest n (xs @ ys @ [y])" by (simp add: snoc newest_snoc)
  finally show ?case .
qed

definition eq_inv :: "event_queue \<Rightarrow> bool" where
  "eq_inv q \<longleftrightarrow> length (eq_buf q) = QUEUE \<and> unat (eq_head q - eq_tail q) \<le> QUEUE"

definition eq_contents :: "event_queue \<Rightarrow> input_event list" where
  "eq_contents q = ring_slice (eq_buf q) (unat (eq_tail q)) (unat (eq_head q - eq_tail q))"

lemma QUEUE_dvd: "QUEUE dvd 2 ^ 64" "QUEUE < 2 ^ 64" "0 < QUEUE"
  by (simp_all add: QUEUE_def)

lemma eq_drop:
  assumes "eq_inv q" "eq_head q \<noteq> eq_tail q"
  defines "q' \<equiv> q\<lparr>eq_tail := eq_tail q + 1\<rparr>"
  shows "eq_inv q'" "eq_contents q = eq_buf q ! (unat (eq_tail q) mod QUEUE) # eq_contents q'"
    and "unat (eq_head q' - eq_tail q') = unat (eq_head q - eq_tail q) - 1" "0 < unat (eq_head q - eq_tail q)"
proof -
  let ?n = "unat (eq_head q - eq_tail q)"
  have len: "length (eq_buf q) = QUEUE" using assms(1) by (simp add: eq_inv_def)
  show pos: "0 < ?n" using assms(2) by (simp add: unat_gt_0)
  have eq: "eq_head q' - eq_tail q' = (eq_head q - eq_tail q) - 1" by (simp add: q'_def)
  show n: "unat (eq_head q' - eq_tail q') = ?n - 1"
    unfolding eq using assms(2) by (intro unat_minus_one) simp
  show "eq_inv q'" using assms(1) n by (auto simp: eq_inv_def q'_def)
  have "unat (eq_tail q + 1) mod QUEUE = Suc (unat (eq_tail q)) mod QUEUE"
    using unat_add_of_nat_mod [OF QUEUE_dvd(1), of "eq_tail q" 1] by simp
  then have "eq_contents q' = ring_slice (eq_buf q) (Suc (unat (eq_tail q))) (?n - 1)"
    unfolding eq_contents_def n using len
    by (metis event_queue.select_convs(1) event_queue.surjective event_queue.update_convs(3) event_queue.select_convs(3) q'_def ring_slice_mod)
  moreover have "eq_contents q = ring_slice (eq_buf q) (unat (eq_tail q)) (Suc (?n - 1))"
    using pos by (simp add: eq_contents_def)
  ultimately show "eq_contents q = eq_buf q ! (unat (eq_tail q) mod QUEUE) # eq_contents q'"
    by (simp add: ring_slice_Suc len)
qed

lemma eq_append:
  fixes ev :: input_event
  assumes "eq_inv q" "unat (eq_head q - eq_tail q) < QUEUE"
  defines "q' \<equiv> q\<lparr>eq_buf := (eq_buf q)[unat (eq_head q) mod QUEUE := ev], eq_head := eq_head q + 1\<rparr>"
  shows "eq_inv q'" "eq_contents q' = eq_contents q @ [ev]"
proof -
  let ?n = "unat (eq_head q - eq_tail q)"
  have len: "length (eq_buf q) = QUEUE" using assms(1) by (simp add: eq_inv_def)
  have eq: "eq_head q + 1 - eq_tail q = (eq_head q - eq_tail q) + 1" by simp
  have n: "unat (eq_head q + 1 - eq_tail q) = Suc ?n"
    unfolding eq using assms(2) QUEUE_dvd(2) by (subst unat_word_ariths) simp
  have idx: "unat (eq_head q) mod QUEUE = (unat (eq_tail q) + ?n) mod QUEUE"
    using unat_add_of_nat_mod [OF QUEUE_dvd(1), of "eq_tail q" ?n] by simp
  show "eq_inv q'" using assms(2) n len by (simp add: eq_inv_def q'_def)
  show "eq_contents q' = eq_contents q @ [ev]"
    using ring_slice_extend [of ?n "eq_buf q" "unat (eq_tail q)" ev] assms(2) n len idx
    by (simp add: eq_contents_def q'_def)
qed

lemma eq_push_newest:
  assumes "eq_inv q"
  shows "eq_inv (eq_push ev q)" "eq_contents (eq_push ev q) = newest QUEUE (eq_contents q @ [ev])"
proof -
  let ?n = "unat (eq_head q - eq_tail q)"
  have l: "length (eq_contents q) = ?n" by (simp add: eq_contents_def)
  have "eq_inv (eq_push ev q) \<and> eq_contents (eq_push ev q) = newest QUEUE (eq_contents q @ [ev])"
  proof (cases "QUEUE \<le> ?n")
    case True
    then have f: "?n = QUEUE" "eq_head q \<noteq> eq_tail q" using assms QUEUE_dvd(3) by (auto simp: eq_inv_def)
    let ?q = "q\<lparr>eq_tail := eq_tail q + 1\<rparr>"
    note d = eq_drop [OF assms f(2)]
    have "unat (eq_head ?q - eq_tail ?q) < QUEUE" using d(3) f(1) QUEUE_dvd(3) by simp
    note a = eq_append [OF d(1) this, of ev]
    have "eq_contents ?q = tl (eq_contents q)" using d(2) by simp
    moreover have "newest QUEUE (eq_contents q @ [ev]) = tl (eq_contents q) @ [ev]"
      using l f(1) QUEUE_dvd(3) by (simp add: newest_def drop_Suc tl_append2 flip: length_greater_0_conv)
    ultimately show ?thesis using a True by (simp add: eq_push_def Let_def)
  next
    case False
    then show ?thesis using eq_append [OF assms, of ev] l by (simp add: eq_push_def Let_def)
  qed
  then show "eq_inv (eq_push ev q)" "eq_contents (eq_push ev q) = newest QUEUE (eq_contents q @ [ev])" by simp_all
qed

lemma eq_pop_contents:
  assumes "eq_inv q"
  shows "case eq_pop q of (None, q') \<Rightarrow> eq_contents q = [] \<and> q' = q | (Some e, q') \<Rightarrow> eq_inv q' \<and> eq_contents q = e # eq_contents q'"
  using eq_drop [OF assms] by (auto simp: eq_pop_def eq_contents_def split: if_splits)

lemma pop_all_contents:
  assumes "eq_inv q"
  shows "\<exists>q'. pop_all q = (eq_contents q, q') \<and> eq_inv q' \<and> eq_contents q' = []"
  using assms
proof (induction q rule: pop_all.induct)
  case (1 q)
  obtain x q1 where p: "eq_pop q = (x, q1)" by force
  show ?case
  proof (cases x)
    case None
    then show ?thesis using eq_pop_contents [OF 1(2)] 1(2) p by (subst pop_all.simps) simp
  next
    case (Some e)
    then have q1: "eq_inv q1" "eq_contents q = e # eq_contents q1" using eq_pop_contents [OF 1(2)] p by simp_all
    obtain q' where "pop_all q1 = (eq_contents q1, q')" "eq_inv q'" "eq_contents q' = []"
      using 1(1) [OF p [symmetric] Some q1(1)] by blast
    then show ?thesis using p Some q1(2) by (subst pop_all.simps) simp
  qed
qed

lemma fold_reader_push:
  "length q \<le> 1024 \<Longrightarrow> fold reader_push es q = newest 1024 (q @ es)"
proof (induction es rule: rev_induct)
  case (snoc e es)
  have "reader_push e p = newest 1024 (p @ [e])" if "length p \<le> 1024" for p
    using that by (cases p) (auto simp: reader_push_def newest_def)
  then show ?case using snoc newest_snoc [of 1024 "q @ es" e] by simp
qed simp

section \<open>From interrupts to readers\<close>

text \<open>
  The decoders alone: what a byte makes of the decoder's state and which events it reports. This is
  the reference the interrupt path is compared with.
\<close>

type_synonym code3 = "u16 \<times> u16 \<times> int"

definition SYN :: code3 where "SYN = (EV_SYN, 0, 0)"

definition kbd_decode :: "u8 \<Rightarrow> bool \<Rightarrow> code3 list \<times> bool" where
  "kbd_decode sc e0 =
     (if sc = 0xE0 then ([], True)
      else if sc = 0xE1 then ([], e0)
      else case (if e0 then map_of EXTENDED (sc AND 0x7F) else Some (ucast (sc AND 0x7F))) of
        None \<Rightarrow> ([], False)
      | Some k \<Rightarrow> ([(EV_KEY, k, if sc AND 0x80 = 0 then 1 else 0), SYN], False))"

definition button_codes :: "u8 \<Rightarrow> u8 \<Rightarrow> code3 list" where
  "button_codes old new =
     concat (map (\<lambda>(bit, code). if (old XOR new) AND bit \<noteq> 0 then [(EV_KEY, code, if new AND bit \<noteq> 0 then 1 else 0)] else [])
       [(1, BTN_LEFT), (2, BTN_RIGHT), (4, BTN_MIDDLE)])"

definition mouse_codes :: "u8 \<Rightarrow> u8 \<Rightarrow> int \<Rightarrow> int \<Rightarrow> int \<Rightarrow> code3 list" where
  "mouse_codes old new dx dy wheel =
     (if dx \<noteq> 0 then [(EV_REL, REL_X, dx)] else []) @ (if dy \<noteq> 0 then [(EV_REL, REL_Y, - dy)] else [])
       @ (if wheel \<noteq> 0 then [(EV_REL, REL_WHEEL, - wheel)] else []) @ button_codes old new @ [SYN]"

definition mouse_decode :: "u8 \<Rightarrow> mouse \<Rightarrow> code3 list \<times> mouse" where
  "mouse_decode b m =
     (if mo_idx m = 0 \<and> b AND 8 = 0 then ([], m)
      else
        (let p = (mo_packet m)[mo_idx m := b] in
         if mo_idx m + 1 < (if mo_wheel m then 4 else 3) then ([], m\<lparr>mo_packet := p, mo_idx := mo_idx m + 1\<rparr>)
         else
           (mouse_codes (mo_buttons m) (p ! 0 AND 7)
              (uint (p ! 1) - (if p ! 0 AND 0x10 \<noteq> 0 then 256 else 0)) (uint (p ! 2) - (if p ! 0 AND 0x20 \<noteq> 0 then 256 else 0))
              (if mo_wheel m then sint (push_bit 4 (p ! 3 AND 0xF)) div 16 else 0),
            m\<lparr>mo_packet := p, mo_idx := 0, mo_buttons := p ! 0 AND 7\<rparr>)))"

definition stamp :: "nat \<Rightarrow> code3 \<Rightarrow> input_event" where
  "stamp ns x = (case x of (t, c, v) \<Rightarrow>
     \<lparr>tv_sec = ns div 1000000000, tv_usec = ns mod 1000000000 div 1000, ev_typ = t, ev_code = c, ev_value = v\<rparr>)"

definition emit_all :: "nat \<Rightarrow> code3 list \<Rightarrow> input_sys \<Rightarrow> input_sys" where
  "emit_all ns es s = fold (\<lambda>(t, c, v). emit ns t c v) es s"

lemma console_key_hook_fields [simp]:
  "is_events (console_key_hook c p s) = is_events s" "is_readers (console_key_hook c p s) = is_readers s"
  "is_mouse (console_key_hook c p s) = is_mouse s" "is_e0 (console_key_hook c p s) = is_e0 s"
  "is_grabbed (console_key_hook c p s) = is_grabbed s"
  by (simp_all add: console_key_hook_def console_input_def Let_def split: option.split prod.split)

lemma emit_fields [simp]:
  "is_events (emit ns t c v s) = eq_push (stamp ns (t, c, v)) (is_events s)" "is_readers (emit ns t c v s) = is_readers s"
  "is_mouse (emit ns t c v s) = is_mouse s" "is_e0 (emit ns t c v s) = is_e0 s" "is_grabbed (emit ns t c v s) = is_grabbed s"
  by (simp_all add: emit_def stamp_def Let_def)

lemma distribute_fields [simp]:
  "is_mouse (distribute s) = is_mouse s" "is_e0 (distribute s) = is_e0 s" "is_grabbed (distribute s) = is_grabbed s"
  "is_keys (distribute s) = is_keys s" "is_tty (distribute s) = is_tty s" "is_signals (distribute s) = is_signals s"
  "is_out (distribute s) = is_out s"
  by (simp_all add: distribute_def split: prod.split)

lemma emit_all_fields:
  "is_readers (emit_all ns es s) = is_readers s" "is_mouse (emit_all ns es s) = is_mouse s" "is_e0 (emit_all ns es s) = is_e0 s"
  unfolding emit_all_def by (induction es arbitrary: s) auto

lemma emit_all_events:
  assumes "eq_inv (is_events s)" "length (eq_contents (is_events s)) + length es \<le> QUEUE"
  shows "eq_inv (is_events (emit_all ns es s)) \<and> eq_contents (is_events (emit_all ns es s)) = eq_contents (is_events s) @ map (stamp ns) es"
  using assms
proof (induction es arbitrary: s)
  case (Cons e es)
  obtain t c v where e: "e = (t, c, v)" by (cases e) auto
  have "eq_inv (is_events (emit ns t c v s))" "eq_contents (is_events (emit ns t c v s)) = eq_contents (is_events s) @ [stamp ns e]"
    using eq_push_newest [OF Cons.prems(1), of "stamp ns e"] Cons.prems(2) e by simp_all
  then show ?case
    using Cons.IH [of "emit ns t c v s"] Cons.prems(2) e by (simp add: emit_all_def)
qed (simp add: emit_all_def)

text \<open>Between interrupts the queue is empty; readers hold at most 1024 events.\<close>

definition sys_inv :: "input_sys \<Rightarrow> bool" where
  "sys_inv s \<longleftrightarrow> eq_inv (is_events s) \<and> eq_contents (is_events s) = []
     \<and> (\<forall>r. Some r \<in> set (is_readers s) \<longrightarrow> length (er_queue r) \<le> 1024)"

definition give :: "input_event list \<Rightarrow> evdev_reader \<Rightarrow> evdev_reader" where
  "give es r = r\<lparr>er_queue := newest 1024 (er_queue r @ es)\<rparr>"

lemma give_give: "give fs (give es r) = give (es @ fs) r"
  by (simp add: give_def newest_append)

lemma distribute_readers:
  assumes "eq_inv (is_events s)" "\<And>r. Some r \<in> set (is_readers s) \<Longrightarrow> length (er_queue r) \<le> 1024"
  shows "is_readers (distribute s) = map (map_option (give (eq_contents (is_events s)))) (is_readers s)" "sys_inv (distribute s)"
proof -
  obtain q where q: "pop_all (is_events s) = (eq_contents (is_events s), q)" "eq_inv q" "eq_contents q = []"
    using pop_all_contents [OF assms(1)] by blast
  have g: "map_option (reader_take es) x = map_option (give es) x" if "x \<in> set (is_readers s)" for es x
    using assms(2) that by (cases x) (auto simp: reader_take_def give_def fold_reader_push)
  have none: "map_option (give []) x = x" if "x \<in> set (is_readers s)" for x
    using assms(2) that by (cases x) (auto simp: give_def)
  show 1: "is_readers (distribute s) = map (map_option (give (eq_contents (is_events s)))) (is_readers s)"
    using g none by (auto simp: distribute_def q(1) map_idI)
  have "is_events (distribute s) = q" by (simp add: distribute_def q(1))
  moreover have "length (er_queue r) \<le> 1024" if "Some r \<in> set (is_readers (distribute s))" for r
    using that by (auto simp: 1 give_def dest!: sym [of "Some r"])
  ultimately show "sys_inv (distribute s)" using q(2,3) by (simp add: sys_inv_def)
qed

text \<open>The interrupt handlers are the decoders followed by emitting and handing out.\<close>

definition deliver :: "nat \<Rightarrow> code3 list \<Rightarrow> input_sys \<Rightarrow> input_sys" where
  "deliver ns es s = (if es = [] then s else distribute (emit_all ns es s))"

lemma kbd_irq_decode:
  "kbd_irq ns sc s = (case kbd_decode sc (is_e0 s) of (es, e0) \<Rightarrow> deliver ns es (s\<lparr>is_e0 := e0\<rparr>))"
  by (simp add: kbd_irq_def kbd_decode_def deliver_def emit_all_def sync_def SYN_def Let_def split: option.split)

lemma emit_all_append: "emit_all ns (es @ fs) s = emit_all ns fs (emit_all ns es s)"
  by (simp add: emit_all_def)

lemma emit_if_all: "emit_if c ns t k v s = emit_all ns (if c then [(t, k, v)] else []) s"
  by (simp add: emit_if_def emit_all_def)

lemma mouse_report_codes: "mouse_report ns old new dx dy w s = deliver ns (mouse_codes old new dx dy w) s"
proof -
  have syn: "emit ns EV_SYN 0 0 u = emit_all ns [SYN] u" for u by (simp add: emit_all_def SYN_def)
  have ne: "(mouse_codes old new dx dy w = []) = False" by (simp add: mouse_codes_def)
  show ?thesis
    unfolding mouse_report_def deliver_def ne if_False
    unfolding mouse_codes_def button_codes_def sync_def emit_if_all syn Let_def
    by (simp only: fold_simps prod.case list.map concat.simps append_Nil append_Nil2 emit_all_append)
qed

lemma mouse_irq_decode:
  "mouse_irq ns b s = (case mouse_decode b (is_mouse s) of (es, m) \<Rightarrow> deliver ns es (s\<lparr>is_mouse := m\<rparr>))"
  by (simp add: mouse_irq_def mouse_decode_def mouse_report_codes Let_def) (simp add: deliver_def)

datatype interrupt = KbdByte u8 | MouseByte u8

fun irq :: "nat \<times> interrupt \<Rightarrow> input_sys \<Rightarrow> input_sys" where
  "irq (ns, KbdByte b) s = kbd_irq ns b s"
| "irq (ns, MouseByte b) s = mouse_irq ns b s"

fun irq_codes :: "interrupt \<Rightarrow> bool \<times> mouse \<Rightarrow> code3 list \<times> bool \<times> mouse" where
  "irq_codes (KbdByte b) (e0, m) = (case kbd_decode b e0 of (es, e0') \<Rightarrow> (es, e0', m))"
| "irq_codes (MouseByte b) (e0, m) = (case mouse_decode b m of (es, m') \<Rightarrow> (es, e0, m'))"

fun decoded :: "(nat \<times> interrupt) list \<Rightarrow> bool \<times> mouse \<Rightarrow> input_event list" where
  "decoded [] d = []"
| "decoded ((ns, i) # is) d = (case irq_codes i d of (es, d') \<Rightarrow> map (stamp ns) es @ decoded is d')"

lemma irq_codes_few: "irq_codes i d = (es, d') \<Longrightarrow> length es \<le> QUEUE"
proof -
  assume a: "irq_codes i d = (es, d')"
  have b: "length (button_codes x y) \<le> 3" for x y by (simp add: button_codes_def)
  have m: "length (mouse_codes x y dx dy w) \<le> 7" for x y dx dy w
    using b [of x y] by (cases "dx = 0"; cases "dy = 0"; cases "w = 0") (simp_all add: mouse_codes_def)
  have k: "length (fst (kbd_decode x e)) \<le> 7" for x e
    by (simp add: kbd_decode_def split: option.split)
  have "length (fst (mouse_decode x u)) \<le> 7" for x u
    using m by (simp add: mouse_decode_def Let_def)
  with k have "length es \<le> 7"
    using a by (cases d; cases i) (auto split: prod.splits; metis fst_conv)+
  then show ?thesis by (simp add: QUEUE_def)
qed

lemma irq_step:
  assumes "sys_inv s" "irq_codes i (is_e0 s, is_mouse s) = (es, e0, m)"
  shows "sys_inv (irq (ns, i) s)" "(is_e0 (irq (ns, i) s), is_mouse (irq (ns, i) s)) = (e0, m)"
    and "is_readers (irq (ns, i) s) = map (map_option (give (map (stamp ns) es))) (is_readers s)"
proof -
  obtain s0 where s0: "irq (ns, i) s = deliver ns es s0" "is_events s0 = is_events s" "is_readers s0 = is_readers s"
    "is_e0 s0 = e0" "is_mouse s0 = m"
    using assms(2)
  proof (cases i)
    case (KbdByte b)
    then show ?thesis using assms(2) that [of "s\<lparr>is_e0 := e0\<rparr>"] by (auto simp: kbd_irq_decode split: prod.splits)
  next
    case (MouseByte b)
    then show ?thesis using assms(2) that [of "s\<lparr>is_mouse := m\<rparr>"] by (auto simp: mouse_irq_decode split: prod.splits)
  qed
  have inv0: "sys_inv s0" using assms(1) s0 by (simp add: sys_inv_def)
  have "sys_inv (deliver ns es s0) \<and> is_e0 (deliver ns es s0) = e0 \<and> is_mouse (deliver ns es s0) = m
      \<and> is_readers (deliver ns es s0) = map (map_option (give (map (stamp ns) es))) (is_readers s0)"
  proof (cases "es = []")
    case True
    have "map_option (give []) x = x" if "x \<in> set (is_readers s0)" for x
      using inv0 that by (cases x) (auto simp: give_def sys_inv_def)
    then show ?thesis using True inv0 s0 by (simp add: deliver_def map_idI)
  next
    case False
    have ev: "eq_inv (is_events (emit_all ns es s0))" "eq_contents (is_events (emit_all ns es s0)) = map (stamp ns) es"
      using emit_all_events [of s0 es ns] inv0 irq_codes_few [OF assms(2)] by (simp_all add: sys_inv_def)
    have "\<And>r. Some r \<in> set (is_readers (emit_all ns es s0)) \<Longrightarrow> length (er_queue r) \<le> 1024"
      using inv0 by (simp add: sys_inv_def emit_all_fields)
    from distribute_readers [OF ev(1) this] show ?thesis
      using False s0(4,5) by (simp add: deliver_def emit_all_fields ev(2))
  qed
  then show "sys_inv (irq (ns, i) s)" "(is_e0 (irq (ns, i) s), is_mouse (irq (ns, i) s)) = (e0, m)"
    "is_readers (irq (ns, i) s) = map (map_option (give (map (stamp ns) es))) (is_readers s)"
    using s0(1,3) by simp_all
qed

lemma irq_run:
  assumes "sys_inv s"
  shows "sys_inv (fold irq is s) \<and> is_readers (fold irq is s) = map (map_option (give (decoded is (is_e0 s, is_mouse s)))) (is_readers s)"
  using assms
proof (induction "is" arbitrary: s)
  case Nil
  have "map_option (give []) x = x" if "x \<in> set (is_readers s)" for x
    using Nil that by (cases x) (auto simp: give_def sys_inv_def)
  then show ?case using Nil by (simp add: map_idI)
next
  case (Cons x xs)
  obtain ns i where x: "x = (ns, i)" by force
  obtain es e0 m where c: "irq_codes i (is_e0 s, is_mouse s) = (es, e0, m)" by (metis prod_cases3)
  note st = irq_step [OF Cons.prems c, of ns]
  have "map_option (give (decoded xs (e0, m))) (map_option (give (map (stamp ns) es)) r) = map_option (give (map (stamp ns) es @ decoded xs (e0, m))) r" for r
    by (simp add: option.map_comp comp_def give_give)
  then show ?case
    using Cons.IH [OF st(1)] st(2,3) c by (simp add: x comp_def)
qed

text \<open>
  C26. Whatever the keyboard and the mouse send, every open reader of the event device holds, in order,
  the newest 1024 of the events it had and of all the events the bytes stand for, each with the
  time of its interrupt: the shared queue of 512 events and its two wrapping indices lose,
  duplicate and reorder nothing.
\<close>

theorem readers_get_every_event:
  assumes "sys_inv s" "i < length (is_readers s)" "is_readers s ! i = Some r"
  shows "\<exists>r'. is_readers (fold irq is s) ! i = Some r'
    \<and> er_queue r' = newest 1024 (er_queue r @ decoded is (is_e0 s, is_mouse s))"
  using irq_run [OF assms(1), of "is"] assms(2,3) by (simp add: give_def)

definition one_reader :: input_sys where
  "one_reader = snd (ev_open (input_new False))"

lemma one_reader_inv: "sys_inv one_reader"
  by (auto simp: sys_inv_def one_reader_def ev_open_def input_new_def eq_inv_def eq_contents_def eq_new_def)

theorem readers_get_every_event_witness:
  "\<exists>r'. is_readers (fold irq [(5, KbdByte 30), (9, KbdByte 158)] one_reader) ! 0 = Some r'
    \<and> er_queue r' = map (stamp 5) [(EV_KEY, 30, 1), SYN] @ map (stamp 9) [(EV_KEY, 30, 0), SYN]"
proof -
  have "decoded [(5, KbdByte 30), (9, KbdByte 158)] (is_e0 one_reader, is_mouse one_reader)
      = map (stamp 5) [(EV_KEY, 30, 1), SYN] @ map (stamp 9) [(EV_KEY, 30, 0), SYN]" (is "_ = ?es")
    by (simp add: one_reader_def ev_open_def input_new_def kbd_decode_def)
  moreover have "newest 1024 ?es = ?es" by simp
  ultimately show ?thesis
    using readers_get_every_event [OF one_reader_inv, of 0 "\<lparr>er_queue = [], er_grab = False\<rparr>" "[(5, KbdByte 30), (9, KbdByte 158)]"]
    by (simp add: one_reader_def ev_open_def input_new_def)
qed

section \<open>The mouse\<close>

text \<open>A packet for a movement within the range of the protocol.\<close>

definition mouse_packet :: "int \<Rightarrow> int \<Rightarrow> u8 \<Rightarrow> u8 list" where
  "mouse_packet dx dy buttons =
     [8 OR (buttons AND 7) OR (if dx < 0 then 0x10 else 0) OR (if dy < 0 then 0x20 else 0), word_of_int dx, word_of_int dy]"

lemma packet_flags:
  fixes b :: u8
  shows "(8 OR (b AND 7) OR (if p then 0x10 else 0) OR (if q then 0x20 else 0)) AND 7 = b AND 7"
    "((8 OR (b AND 7) OR (if p then 0x10 else 0) OR (if q then 0x20 else 0)) AND 0x10 \<noteq> 0) = p"
    "((8 OR (b AND 7) OR (if p then 0x10 else 0) OR (if q then 0x20 else 0)) AND 0x20 \<noteq> 0) = q"
    "(8 OR (b AND 7) OR (if p then 0x10 else 0) OR (if q then 0x20 else 0)) AND 8 \<noteq> 0"
  by (simp_all add: bit.conj_disj_distrib2 and.assoc)

lemma nine_bits:
  assumes "-256 \<le> d" "d \<le> 255"
  shows "uint (word_of_int d :: u8) - (if d < 0 then 256 else 0) = d"
proof (cases "d < 0")
  case True
  then have "d mod 256 = d + 256" using assms(1) by (intro mod_pos_pos_trivial [of "d + 256" 256, simplified mod_add_self2])  auto
  then show ?thesis using True by (simp add: uint_word_of_int)
next
  case False
  then show ?thesis using assms(2) by (simp add: uint_word_of_int mod_pos_pos_trivial)
qed

text \<open>
  A mouse movement arrives as it was made: from a decoder that is between packets, the three bytes of a
  movement of up to 256 counts each way and a button state report exactly that movement (with the vertical
  axis turned), the buttons that changed and the end of the report, and leave the decoder between packets.
\<close>

theorem mouse_packet_roundtrip:
  assumes "\<not> mo_wheel m" "mo_idx m = 0" "length (mo_packet m) = 4"
    and "-256 \<le> dx" "dx \<le> 255" "-256 \<le> dy" "dy \<le> 255"
  shows "\<exists>m'. mo_idx m' = 0 \<and> mo_buttons m' = buttons AND 7 \<and> length (mo_packet m') = 4 \<and> \<not> mo_wheel m'
    \<and> decoded (map (\<lambda>b. (ns, MouseByte b)) (mouse_packet dx dy buttons)) (e0, m)
        = map (stamp ns) (mouse_codes (mo_buttons m) (buttons AND 7) dx dy 0)
    \<and> is_mouse (fold irq (map (\<lambda>b. (ns, MouseByte b)) (mouse_packet dx dy buttons)) (s\<lparr>is_mouse := m\<rparr>)) = m'"
proof -
  obtain a b c d where p: "mo_packet m = [a, b, c, d]"
    using assms(3) by (auto simp: numeral_eq_Suc length_Suc_conv)
  let ?h = "8 OR (buttons AND 7) OR (if dx < 0 then 0x10 else 0) OR (if dy < 0 then 0x20 else 0) :: u8"
  let ?x = "word_of_int dx :: u8" and ?y = "word_of_int dy :: u8"
  let ?m1 = "m\<lparr>mo_packet := [?h, b, c, d], mo_idx := 1\<rparr>" and ?m2 = "m\<lparr>mo_packet := [?h, ?x, c, d], mo_idx := 2\<rparr>"
  let ?m3 = "m\<lparr>mo_packet := [?h, ?x, ?y, d], mo_idx := 0, mo_buttons := buttons AND 7\<rparr>"
  have 1: "mouse_decode ?h m = ([], ?m1)"
    using assms(1,2) p packet_flags(4) [of buttons "dx < 0" "dy < 0"] by (simp add: mouse_decode_def Let_def)
  have 2: "mouse_decode ?x ?m1 = ([], ?m2)"
    using assms(1) by (simp add: mouse_decode_def Let_def)
  have 3: "mouse_decode ?y ?m2 = (mouse_codes (mo_buttons m) (buttons AND 7) dx dy 0, ?m3)"
    using assms(1) nine_bits [OF assms(4,5)] nine_bits [OF assms(6,7)]
      packet_flags(1-3) [of buttons "dx < 0" "dy < 0"] by (simp add: mouse_decode_def Let_def)
  have m: "is_mouse (s\<lparr>is_mouse := m\<rparr>) = m" by simp
  have d: "is_mouse (mouse_irq ns x u) = snd (mouse_decode x (is_mouse u))" for x u
    by (simp add: mouse_irq_decode deliver_def emit_all_fields split: prod.split)
  have "decoded (map (\<lambda>b. (ns, MouseByte b)) (mouse_packet dx dy buttons)) (e0, m)
      = map (stamp ns) (mouse_codes (mo_buttons m) (buttons AND 7) dx dy 0)"
    unfolding mouse_packet_def list.map decoded.simps irq_codes.simps 1 prod.case 2 3 by simp
  moreover have "is_mouse (fold irq (map (\<lambda>b. (ns, MouseByte b)) (mouse_packet dx dy buttons)) (s\<lparr>is_mouse := m\<rparr>)) = ?m3"
    unfolding mouse_packet_def list.map fold_simps irq.simps d
    by (subst m, subst 1, subst snd_conv, subst 2, subst snd_conv, subst 3) (rule snd_conv)
  ultimately show ?thesis using assms(1) by (intro exI [of _ ?m3]) simp
qed

theorem mouse_packet_roundtrip_witness:
  "decoded (map (\<lambda>b. (7, MouseByte b)) (mouse_packet (- 3) 200 1)) (False, is_mouse (input_new False))
   = map (stamp 7) [(EV_REL, REL_X, - 3), (EV_REL, REL_Y, - 200), (EV_KEY, BTN_LEFT, 1), SYN]"
proof -
  have "\<not> mo_wheel (is_mouse (input_new False))" "mo_idx (is_mouse (input_new False)) = 0" "length (mo_packet (is_mouse (input_new False))) = 4"
    "mo_buttons (is_mouse (input_new False)) = 0"
    by (simp_all add: input_new_def)
  moreover have "mouse_codes 0 (1 AND 7) (- 3) 200 0 = [(EV_REL, REL_X, - 3), (EV_REL, REL_Y, - 200), (EV_KEY, BTN_LEFT, 1), SYN]"
    by (simp add: mouse_codes_def button_codes_def)
  ultimately show ?thesis
    using mouse_packet_roundtrip [of "is_mouse (input_new False)" "- 3" 200 1 7 False undefined] by auto
qed

section \<open>The console\<close>

definition console_part :: "input_sys \<Rightarrow> key_state \<times> bool \<times> tty \<times> u8 list \<times> (u32 \<times> nat) list" where
  "console_part s = (is_keys s, is_grabbed s, is_tty s, is_out s, is_signals s)"

lemma hook_cong:
  assumes "console_part s = console_part s'"
  shows "console_part (console_key_hook c p s) = console_part (console_key_hook c p s')"
  using assms
  by (simp add: console_part_def console_key_hook_def console_input_def Let_def split: option.split prod.split)

lemma deliver_console:
  "console_part (deliver ns [(EV_KEY, k, v), SYN] s) = console_part (console_key_hook k (v \<noteq> 0) s)"
proof -
  have "console_part (distribute t) = console_part t" for t by (simp add: console_part_def)
  moreover have "console_part (emit ns EV_SYN 0 0 t) = console_part t" for t
    by (simp add: emit_def console_part_def EV_SYN_def EV_KEY_def)
  moreover have "console_part (emit ns EV_KEY k v s) = console_part (console_key_hook k (v \<noteq> 0) s)"
    unfolding emit_def Let_def by (simp, rule hook_cong) (simp add: console_part_def)
  ultimately show ?thesis by (simp add: deliver_def emit_all_def SYN_def)
qed

lemma kbd_console:
  assumes "\<not> is_e0 s" "sc \<noteq> 0xE0" "sc \<noteq> 0xE1"
  shows "console_part (kbd_irq ns sc s) = console_part (console_key_hook (ucast (sc AND 0x7F)) (sc AND 0x80 = 0) s)"
    and "\<not> is_e0 (kbd_irq ns sc s)"
proof -
  let ?v = "if sc AND 0x80 = 0 then 1 else 0 :: int"
  have e: "s\<lparr>is_e0 := False\<rparr> = s" using assms(1) by (cases s) simp
  have "kbd_irq ns sc s = deliver ns [(EV_KEY, ucast (sc AND 0x7F), ?v), SYN] s"
    using assms by (simp add: kbd_irq_decode kbd_decode_def e)
  moreover have "(?v \<noteq> 0) = (sc AND 0x80 = 0)" by simp
  ultimately show "console_part (kbd_irq ns sc s) = console_part (console_key_hook (ucast (sc AND 0x7F)) (sc AND 0x80 = 0) s)"
    "\<not> is_e0 (kbd_irq ns sc s)"
    using assms(1) by (simp_all only: deliver_console) (simp add: deliver_def emit_all_fields)
qed

definition kbd :: "nat \<Rightarrow> u8 list \<Rightarrow> input_sys \<Rightarrow> input_sys" where
  "kbd ns bs s = fold irq (map (\<lambda>b. (ns, KbdByte b)) bs) s"

lemma kbd_run:
  assumes "\<not> is_e0 s" "list_all (\<lambda>b. b \<noteq> 0xE0 \<and> b \<noteq> 0xE1) bs"
  shows "console_part (kbd ns bs s) = console_part (fold (\<lambda>b. console_key_hook (ucast (b AND 0x7F)) (b AND 0x80 = 0)) bs s)"
proof -
  have "console_part (kbd ns bs s) = console_part (fold (\<lambda>b. console_key_hook (ucast (b AND 0x7F)) (b AND 0x80 = 0)) bs s')"
    if "\<not> is_e0 s" "console_part s = console_part s'" for s s'
    using assms(2) that unfolding kbd_def
  proof (induction bs arbitrary: s s')
    case (Cons b bs)
    have "console_part (kbd_irq ns b s) = console_part (console_key_hook (ucast (b AND 0x7F)) (b AND 0x80 = 0) s')"
      using kbd_console(1) [of s b ns] hook_cong [OF Cons.prems(3)] Cons.prems(1,2) by simp
    then show ?case
      using Cons.IH [of "kbd_irq ns b s"] kbd_console(2) [of s b ns] Cons.prems by simp
  qed simp
  with assms(1) show ?thesis by blast
qed

text \<open>The interrupt key, end to end: control and C on the keyboard.\<close>

text \<open>
  C27. Pressing control and C on the keyboard interrupts the foreground process group of the console: whatever
  else is held down or typed ahead, exactly one \<open>SIGINT\<close> goes to it, and the line typed so far and the raw bytes
  nobody has read yet are discarded, unless the program set NOFLSH; completed lines and all else of the terminal
  stay. This is for a keyboard that is not grabbed, with alt not held and no half-received extended scan code, and a
  terminal that asks for signals with control-C as its interrupt character and has not just been told to take the
  next key literally.
\<close>

theorem control_c_interrupts:
  assumes "\<not> is_e0 s" "\<not> is_grabbed s" "\<not> ks_alt (is_keys s)"
    and "lflag (tt_termios (is_tty s)) ISIG" "c_cc (tt_termios (is_tty s)) ! VINTR = 3"
    and "\<not> in_lnext (tt_input (is_tty s))" "tt_fg_pgrp (is_tty s) = pg" "pg \<noteq> 0"
  shows "is_signals (kbd ns [29, 46] s) = is_signals s @ [(pg, 2)]
    \<and> is_tty (kbd ns [29, 46] s) = (if lflag (tt_termios (is_tty s)) NOFLSH then is_tty s
         else (is_tty s)\<lparr>tt_input := (tt_input (is_tty s))\<lparr>in_line := [], in_raw := []\<rparr>\<rparr>)"
proof -
  let ?ks = "(is_keys s)\<lparr>ks_ctrl := True\<rparr>" and ?t = "tt_termios (is_tty s)"
  have h: "fold (\<lambda>b. console_key_hook (ucast (b AND 0x7F)) (b AND 0x80 = 0)) [29, 46 :: u8] s
      = console_key_hook 46 True (s\<lparr>is_keys := ?ks\<rparr>)"
    by (simp add: console_key_hook_def Let_def)
  have k: "map_of KEYMAP 46 = Some (99, 67)" "map_of KEY_SEQS 46 = None" by (simp_all add: KEYMAP_def KEY_SEQS_def)
  have "keycode_to_ascii 46 sh True ca = Some 3" for sh ca
    by (simp add: keycode_to_ascii_def k is_ascii_alphabetic_def to_ascii_uppercase_def Let_def)
  then have c: "console_key_hook 46 True (s\<lparr>is_keys := ?ks\<rparr>) = console_input [3] (s\<lparr>is_keys := ?ks\<rparr>)"
    using assms(2,3) by (simp add: console_key_hook_def k Let_def)
  have sig: "translate ?t 3 = Some 3" "signal_char ?t 3 = 2" using assms(5) by (simp_all add: translate_def signal_char_def)
  have same: "x\<lparr>in_lnext := False\<rparr> = x" if "\<not> in_lnext x" for x :: tty_input using that by (cases x) simp
  have b: "input_byte console_sink ?t pg 3 \<lparr>fd_input = tt_input (is_tty s), fd_out = is_out s, fd_signals = [], fd_wake = False\<rparr>
      = signal_input console_sink ?t pg 2 3 \<lparr>fd_input = tt_input (is_tty s), fd_out = is_out s, fd_signals = [], fd_wake = False\<rparr>"
    using sig assms(4,6) by (simp add: input_byte_def Let_def on_input_def same)
  let ?u = "console_input [3] (s\<lparr>is_keys := ?ks\<rparr>)"
  have "is_signals ?u = is_signals s @ [(pg, 2)]
    \<and> is_tty ?u = (if lflag ?t NOFLSH then is_tty s else (is_tty s)\<lparr>tt_input := (tt_input (is_tty s))\<lparr>in_line := [], in_raw := []\<rparr>\<rparr>)"
    using assms(7,8) b by (simp add: console_input_def tty_feed_def Let_def input_bytes_def signal_input_def on_input_def on_out_def)
  then show ?thesis using kbd_run [OF assms(1), of "[29, 46]" ns] h c by (simp add: console_part_def)
qed

definition logged_in :: input_sys where
  "logged_in = (input_new False)\<lparr>is_tty := (tty_new 1 False)\<lparr>tt_fg_pgrp := 40, tt_input := empty_input\<lparr>in_line := [108, 115]\<rparr>\<rparr>\<rparr>"

theorem control_c_interrupts_witness:
  "is_signals (kbd 0 [29, 46] logged_in) = [(40, 2)] \<and> in_line (tt_input (is_tty (kbd 0 [29, 46] logged_in))) = []"
proof -
  have "lflag (tt_termios (is_tty logged_in)) ISIG" "c_cc (tt_termios (is_tty logged_in)) ! VINTR = 3"
    "\<not> lflag (tt_termios (is_tty logged_in)) NOFLSH" by code_simp+
  then show ?thesis
    using control_c_interrupts [of logged_in 40 0] by (simp add: logged_in_def input_new_def tty_new_def empty_input_def)
qed

definition strokes :: "u8 \<Rightarrow> bool \<Rightarrow> u8 list" where
  "strokes code shift = (if shift then [42] else []) @ [code, code OR 0x80] @ (if shift then [42 OR 0x80] else [])"

text \<open>The keys for the printable characters from the space on.\<close>

definition CHAR_KEYS :: "(u8 \<times> bool) list" where
  "CHAR_KEYS =
     [(57, False), (2, True), (40, True), (4, True), (5, True), (6, True), (8, True), (40, False), (10, True), (11, True),
      (9, True), (13, True), (51, False), (12, False), (52, False), (53, False), (11, False), (2, False), (3, False), (4, False),
      (5, False), (6, False), (7, False), (8, False), (9, False), (10, False), (39, True), (39, False), (51, True), (13, False),
      (52, True), (53, True), (3, True), (30, True), (48, True), (46, True), (32, True), (18, True), (33, True), (34, True),
      (35, True), (23, True), (36, True), (37, True), (38, True), (50, True), (49, True), (24, True), (25, True), (16, True),
      (19, True), (31, True), (20, True), (22, True), (47, True), (17, True), (45, True), (21, True), (44, True), (26, False),
      (43, False), (27, False), (7, True), (12, True), (41, False), (30, False), (48, False), (46, False), (32, False), (18, False),
      (33, False), (34, False), (35, False), (23, False), (36, False), (37, False), (38, False), (50, False), (49, False), (24, False),
      (25, False), (16, False), (19, False), (31, False), (20, False), (22, False), (47, False), (17, False), (45, False), (21, False),
      (44, False), (26, True), (43, True), (27, True), (41, True)]"

definition types :: "u8 \<Rightarrow> u8 \<Rightarrow> bool \<Rightarrow> bool" where
  "types c code shift \<longleftrightarrow> keycode_to_ascii (ucast code) shift False False = Some c \<and> code < 0x58
     \<and> code \<notin> {28, 29, 42, 54, 56, 58} \<and> map_of KEY_SEQS (ucast code) = None"

lemma layout_complete: "list_all (\<lambda>(c, code, shift). types c code shift) (zip (map word_of_nat [32..<127]) CHAR_KEYS)"
  unfolding CHAR_KEYS_def
  by (simp add: types_def keycode_to_ascii_def KEYMAP_def KEY_SEQS_def upt_rec_numeral is_ascii_alphabetic_def)


definition scans :: "u8 \<Rightarrow> bool" where
  "scans code \<longleftrightarrow> code AND 0x7F = code \<and> code AND 0x80 = 0 \<and> (code OR 0x80) AND 0x7F = code \<and> (code OR 0x80) AND 0x80 \<noteq> 0
     \<and> code OR 0x80 \<noteq> 0xE0 \<and> code OR 0x80 \<noteq> 0xE1 \<and> code \<noteq> 0xE0 \<and> code \<noteq> 0xE1"

lemma layout_scans: "list_all (\<lambda>(code, shift). scans code) CHAR_KEYS"
  by (simp add: CHAR_KEYS_def scans_def)

lemma key_exists:
  assumes "32 \<le> c" "c \<le> (126 :: u8)"
  shows "\<exists>code shift. types c code shift \<and> scans code"
proof -
  let ?n = "unat c - 32"
  have u: "32 \<le> unat c" "unat c \<le> 126" using assms by (simp_all add: word_le_nat_alt)
  have len: "length CHAR_KEYS = 95" by (simp add: CHAR_KEYS_def)
  have c: "map word_of_nat [32..<127] ! ?n = c" using u by (simp del: upt_rec_numeral)
  obtain code shift where k: "CHAR_KEYS ! ?n = (code, shift)" by force
  have "zip (map word_of_nat [32..<127]) CHAR_KEYS ! ?n = (c, code, shift)" using u len c k by simp
  moreover have "?n < length (zip (map word_of_nat [32..<127] :: u8 list) CHAR_KEYS)" using u len by simp
  ultimately have "types c code shift" using layout_complete by (metis (no_types, lifting) case_prod_conv list_all_length)
  moreover have "scans code" using layout_scans k u len by (auto simp: list_all_length dest!: spec [of _ ?n])
  ultimately show ?thesis by blast
qed

abbreviation hooks :: "u8 list \<Rightarrow> input_sys \<Rightarrow> input_sys" where
  "hooks bs s \<equiv> fold (\<lambda>b. console_key_hook (ucast (b AND 0x7F)) (b AND 0x80 = 0)) bs s"

lemma hook_press:
  assumes "types c code (ks_shift (is_keys s))" "\<not> ks_ctrl (is_keys s)" "\<not> ks_caps (is_keys s)" "\<not> ks_alt (is_keys s)" "\<not> is_grabbed s"
  shows "console_key_hook (ucast code) True s = console_input [c] s" "console_key_hook (ucast code) False u = u"
proof -
  have n: "code < 0x58" "code \<notin> {28, 29, 42, 54, 56, 58}" using assms(1) by (auto simp: types_def)
  have u: "(ucast code :: u16) = word_of_nat (unat code)" by simp
  have "(ucast code :: u16) \<noteq> word_of_nat k" if "unat code \<noteq> k" "k < 256" for k
  proof -
    have "unat code < 256" using unsigned_less [of code] by simp
    then show ?thesis using that by (simp add: word_unat_eq_iff unat_of_nat unsigned_ucast_eq take_bit_nat_eq_self)
  qed
  moreover have "unat code \<noteq> 28" "unat code \<noteq> 29" "unat code \<noteq> 42" "unat code \<noteq> 54" "unat code \<noteq> 56" "unat code \<noteq> 58"
    "unat code < 88"
    using n by (auto simp: word_unat_eq_iff word_less_nat_alt)
  ultimately have d: "(ucast code :: u16) \<noteq> 28" "(ucast code :: u16) \<noteq> 29" "(ucast code :: u16) \<noteq> 42" "(ucast code :: u16) \<noteq> 54"
    "(ucast code :: u16) \<noteq> 56" "(ucast code :: u16) \<noteq> 58" "(ucast code :: u16) \<noteq> 96" "(ucast code :: u16) \<noteq> 97" "(ucast code :: u16) \<noteq> 100"
    by (auto dest: meta_spec [of _ "28 :: nat"] meta_spec [of _ "29 :: nat"] meta_spec [of _ "42 :: nat"] meta_spec [of _ "54 :: nat"]
        meta_spec [of _ "56 :: nat"] meta_spec [of _ "58 :: nat"] meta_spec [of _ "96 :: nat"] meta_spec [of _ "97 :: nat"] meta_spec [of _ "100 :: nat"])
  have "keycode_to_ascii (ucast code) (ks_shift (is_keys s)) (ks_ctrl (is_keys s)) (ks_caps (is_keys s)) = Some c" "map_of KEY_SEQS (ucast code) = None"
    using assms(1-3) by (simp_all add: types_def)
  then show "console_key_hook (ucast code) True s = console_input [c] s" "console_key_hook (ucast code) False u = u"
    using d assms(4,5) by (simp_all add: console_key_hook_def Let_def)
qed

lemma hooks_strokes:
  assumes "types c code shift" "scans code" "is_keys s = \<lparr>ks_shift = False, ks_ctrl = False, ks_alt = False, ks_caps = False\<rparr>" "\<not> is_grabbed s"
  shows "hooks (strokes code shift) s = console_input [c] s"
proof -
  let ?u = "s\<lparr>is_keys := (is_keys s)\<lparr>ks_shift := shift\<rparr>\<rparr>"
  have sh: "console_key_hook 42 p t = t\<lparr>is_keys := (is_keys t)\<lparr>ks_shift := p\<rparr>\<rparr>" for p t
    by (simp add: console_key_hook_def Let_def)
  have ks: "types c code (ks_shift (is_keys ?u))" "\<not> ks_ctrl (is_keys ?u)" "\<not> ks_caps (is_keys ?u)" "\<not> ks_alt (is_keys ?u)" "\<not> is_grabbed ?u"
    using assms by simp_all
  note pr = hook_press [OF ks]
  have comm: "(console_input [c] ?u)\<lparr>is_keys := is_keys s\<rparr> = console_input [c] s"
    by (simp add: console_input_def split: prod.split)
  have k: "is_keys (console_input [c] t) = is_keys t" for t by (simp add: console_input_def split: prod.split)
  have "hooks (if shift then [42] else []) s = ?u"
    using assms(3) by (cases s) (simp add: sh)
  then have "hooks (strokes code shift) s = hooks (if shift then [42 OR 0x80] else []) (console_input [c] ?u)"
    using assms(2) pr unfolding strokes_def scans_def by (simp only: fold_append comp_apply fold_simps simp_thms)
  also have "\<dots> = (console_input [c] ?u)\<lparr>is_keys := is_keys s\<rparr>"
    using assms(3) k [of ?u] by (cases shift) (simp_all add: sh)
  finally show ?thesis unfolding comm .
qed

text \<open>
  Every printable character can be typed on the console: there is a key, with or without shift, whose
  press and release add exactly that character to the line being edited and leave the modifier keys as
  they were.
\<close>

theorem every_character_can_be_typed:
  assumes "32 \<le> c" "c \<le> 126" "\<not> is_e0 s" "\<not> is_grabbed s"
    and "is_keys s = \<lparr>ks_shift = False, ks_ctrl = False, ks_alt = False, ks_caps = False\<rparr>"
    and "canon (tt_termios (is_tty s))" "text_byte (tt_termios (is_tty s)) c"
    and "\<not> in_lnext (tt_input (is_tty s))" "length (in_line (tt_input (is_tty s))) < 4094"
  shows "\<exists>code shift. tt_input (is_tty (kbd ns (strokes code shift) s)) =
      (tt_input (is_tty s))\<lparr>in_line := in_line (tt_input (is_tty s)) @ [c]\<rparr>
    \<and> is_keys (kbd ns (strokes code shift) s) = is_keys s"
proof -
  obtain code shift where k: "types c code shift" "scans code" using key_exists [OF assms(1,2)] by blast
  have "list_all (\<lambda>b. b \<noteq> 0xE0 \<and> b \<noteq> 0xE1) (strokes code shift)"
    using k(2) by (simp add: strokes_def scans_def)
  then have "console_part (kbd ns (strokes code shift) s) = console_part (console_input [c] s)"
    using kbd_run [OF assms(3)] hooks_strokes [OF k assms(5,4)] by simp
  moreover have "tt_input (is_tty (console_input [c] s)) = tt_input (fst (tty_feed console_sink [c] (is_tty s) (is_out s)))"
    "is_keys (console_input [c] s) = is_keys s"
    by (simp_all add: console_input_def split_def)
  ultimately show ?thesis
    using typed_text [OF assms(6-9)] by (intro exI [of _ code] exI [of _ shift]) (simp add: console_part_def)
qed

theorem every_character_can_be_typed_witness:
  "\<exists>code shift. in_line (tt_input (is_tty (kbd 0 (strokes code shift) (input_new False)))) = [126]"
proof -
  have "text_byte (tt_termios (is_tty (input_new False))) 126" "canon (tt_termios (is_tty (input_new False)))"
    by code_simp+
  then have "\<exists>code shift. tt_input (is_tty (kbd 0 (strokes code shift) (input_new False))) =
      (tt_input (is_tty (input_new False)))\<lparr>in_line := in_line (tt_input (is_tty (input_new False))) @ [126]\<rparr>
    \<and> is_keys (kbd 0 (strokes code shift) (input_new False)) = is_keys (input_new False)"
    by (intro every_character_can_be_typed) (simp_all add: input_new_def tty_new_def empty_input_def)
  then obtain code shift where "tt_input (is_tty (kbd 0 (strokes code shift) (input_new False))) =
      (tt_input (is_tty (input_new False)))\<lparr>in_line := in_line (tt_input (is_tty (input_new False))) @ [126]\<rparr>" by blast
  moreover have "in_line (tt_input (is_tty (input_new False))) = []" by (simp add: input_new_def tty_new_def empty_input_def)
  ultimately have "in_line (tt_input (is_tty (kbd 0 (strokes code shift) (input_new False)))) = [126]" by simp
  then show ?thesis by blast
qed

text \<open>While a client has grabbed the keyboard, keys do not reach the console.\<close>

theorem grabbed_keys_stay_away:
  assumes "is_grabbed s"
  shows "is_tty (fold irq is s) = is_tty s \<and> is_signals (fold irq is s) = is_signals s \<and> is_grabbed (fold irq is s)"
  using assms
proof (induction "is" arbitrary: s)
  case (Cons x xs)
  have h: "is_tty (console_key_hook c p t) = is_tty t \<and> is_signals (console_key_hook c p t) = is_signals t" if "is_grabbed t" for c p t
    using that by (simp add: console_key_hook_def Let_def)
  have e: "is_tty (emit_all ns es t) = is_tty t \<and> is_signals (emit_all ns es t) = is_signals t \<and> is_grabbed (emit_all ns es t)"
    if "is_grabbed t" for ns es t
    using that unfolding emit_all_def
  proof (induction es arbitrary: t)
    case (Cons e es)
    obtain ty c v where e: "e = (ty, c, v)" by (cases e) auto
    have "is_tty (emit ns ty c v t) = is_tty t \<and> is_signals (emit ns ty c v t) = is_signals t"
      using h Cons.prems by (simp add: emit_def Let_def)
    then show ?case using Cons.IH [of "emit ns ty c v t"] Cons.prems e by simp
  qed simp
  have "is_tty (irq x s) = is_tty s \<and> is_signals (irq x s) = is_signals s \<and> is_grabbed (irq x s)"
    using e Cons.prems by (cases x; cases "snd x") (auto simp: kbd_irq_decode mouse_irq_decode deliver_def split: prod.split)
  then show ?case using Cons.IH [of "irq x s"] by simp
qed simp

section \<open>What the device says it reports\<close>

definition bit_at :: "nat \<Rightarrow> u8 list \<Rightarrow> bool" where
  "bit_at i bits \<longleftrightarrow> i div 8 < length bits \<and> bit (bits ! (i div 8)) (i mod 8)"

lemma length_set_bit_at [simp]: "length (set_bit_at i bits) = length bits"
  by (simp add: set_bit_at_def)

lemma bit_set_bit_at: "bit_at i (set_bit_at j bits) \<longleftrightarrow> bit_at i bits \<or> i = j \<and> j div 8 < length bits"
proof -
  have "bit (x OR push_bit n 1) k \<longleftrightarrow> bit x k \<or> n = k" if "k < 8" "n < 8" for x :: u8 and n k
    using that by (auto simp: bit_or_iff push_bit_eq_mult bit_exp_iff)
  moreover have "i div 8 = j div 8 \<and> j mod 8 = i mod 8 \<longleftrightarrow> i = j"
    by (metis div_mult_mod_eq)
  ultimately show ?thesis by (auto simp: bit_at_def set_bit_at_def nth_list_update)
qed

lemma bit_at_fold: "bit_at i (fold set_bit_at cs bits) \<longleftrightarrow> bit_at i bits \<or> i \<in> set cs \<and> i div 8 < length bits"
  by (induction cs arbitrary: bits) (auto simp: bit_set_bit_at)

lemma ev_bits_codes: "bit_at i (ev_bits ev n) \<longleftrightarrow> i \<in> set (ev_codes ev) \<and> i div 8 < n"
proof -
  have "\<not> bit_at i (replicate n 0)" by (simp add: bit_at_def)
  then show ?thesis by (simp add: ev_bits_def bit_at_fold)
qed

text \<open>
  The device advertises an event when its type is in the answer to \<open>EVIOCGBIT(0)\<close> and, for keys and
  movements, its code is in the answer for that type; the sizes are those of Linux's headers.
\<close>

definition advertised :: "input_event \<Rightarrow> bool" where
  "advertised e \<longleftrightarrow> bit_at (unat (ev_typ e)) (ev_bits 0 4)
     \<and> (ev_typ e \<noteq> EV_SYN \<longrightarrow> bit_at (unat (ev_code e)) (ev_bits (ev_typ e) 96))"

definition known_code :: "code3 \<Rightarrow> bool" where
  "known_code x = advertised (stamp 0 x)"

lemma advertised_stamp: "advertised (stamp ns x) = known_code x"
  by (simp add: known_code_def advertised_def stamp_def split: prod.split)

lemma known_key: "1 \<le> unat k \<Longrightarrow> unat k \<le> 127 \<Longrightarrow> known_code (EV_KEY, k, v)"
  by (auto simp: known_code_def advertised_def stamp_def ev_bits_codes ev_codes_def EV_KEY_def EV_SYN_def)

lemma known_others:
  "known_code SYN" "known_code (EV_REL, REL_X, v)" "known_code (EV_REL, REL_Y, v)" "known_code (EV_REL, REL_WHEEL, v)"
  "known_code (EV_KEY, BTN_LEFT, v)" "known_code (EV_KEY, BTN_RIGHT, v)" "known_code (EV_KEY, BTN_MIDDLE, v)"
  by (simp_all add: known_code_def advertised_def stamp_def ev_bits_codes ev_codes_def SYN_def EV_KEY_def EV_SYN_def EV_REL_def
      REL_X_def REL_Y_def REL_WHEEL_def BTN_LEFT_def BTN_RIGHT_def BTN_MIDDLE_def)

fun real_byte :: "interrupt \<Rightarrow> bool" where
  "real_byte (KbdByte b) = (b AND 0x7F \<noteq> 0)"
| "real_byte (MouseByte b) = True"

lemma kbd_known:
  assumes "sc AND 0x7F \<noteq> 0" "kbd_decode sc e0 = (es, e0')"
  shows "list_all known_code es"
proof -
  have ext: "list_all (\<lambda>(c, k). 1 \<le> unat k \<and> unat k \<le> 127) EXTENDED" by (simp add: EXTENDED_def)
  have "1 \<le> unat k \<and> unat k \<le> 127" if "map_of EXTENDED c = Some k" for c k
    using ext map_of_SomeD [OF that] by (auto simp: list_all_iff)
  moreover have "1 \<le> unat (ucast (sc AND 0x7F) :: u16) \<and> unat (ucast (sc AND 0x7F) :: u16) \<le> 127"
  proof -
    have "unat (sc AND 0x7F) < 256" using unsigned_less [of "sc AND 0x7F"] by simp
    then have "unat (ucast (sc AND 0x7F) :: u16) = unat (sc AND 0x7F)"
      by (simp add: unsigned_ucast_eq take_bit_nat_eq_self)
    moreover have "unat (sc AND 0x7F) \<noteq> 0" using assms(1) by (simp add: unat_eq_0)
    moreover have "unat (sc AND 0x7F) \<le> 127" using word_and_le1 [of sc "0x7F"] by (simp add: word_le_nat_alt)
    ultimately show ?thesis by linarith
  qed
  ultimately show ?thesis
    using assms(2) known_key known_others(1) by (auto simp: kbd_decode_def split: if_splits option.splits)
qed

lemma mouse_known: "mouse_decode b m = (es, m') \<Longrightarrow> list_all known_code es"
proof -
  have "list_all known_code (button_codes x y)" for x y
    by (simp add: button_codes_def known_others)
  then have "list_all known_code (mouse_codes x y dx dy w)" for x y dx dy w
    by (simp add: mouse_codes_def known_others)
  then show "mouse_decode b m = (es, m') \<Longrightarrow> list_all known_code es"
    by (auto simp: mouse_decode_def Let_def split: if_splits)
qed

lemma decoded_advertised:
  assumes "list_all (\<lambda>(ns, i). real_byte i) is"
  shows "list_all advertised (decoded is d)"
  using assms
proof (induction "is" arbitrary: d)
  case (Cons x xs)
  obtain ns i where x: "x = (ns, i)" by force
  obtain es d' where c: "irq_codes i d = (es, d')" by (metis surj_pair)
  have "list_all known_code es"
    using c Cons.prems x by (cases d; cases i) (auto intro: kbd_known mouse_known split: prod.splits)
  then have "list_all advertised (map (stamp ns) es)"
    by (simp add: list.pred_map comp_def advertised_stamp)
  then show ?case using Cons.IH [of d'] Cons.prems x c by simp
qed simp

text \<open>
  C28. The device is typed: whatever the interrupt handlers of keyboard and mouse are given, every event a reader can
  take was there before or is of a type and code the device advertises to programs. The scan codes 0 and 128,
  with which a keyboard reports an error, are excluded (\<open>error_code_unannounced\<close>).
\<close>

theorem events_are_advertised:
  assumes "sys_inv s" "list_all (\<lambda>(ns, i). real_byte i) is" "i < length (is_readers s)" "is_readers s ! i = Some r"
  shows "\<exists>r'. is_readers (fold (\<lambda>(ns, i). case i of KbdByte b \<Rightarrow> kbd_irq ns b | MouseByte b \<Rightarrow> mouse_irq ns b) is s) ! i = Some r'
    \<and> (\<forall>e \<in> set (er_queue r'). e \<in> set (er_queue r) \<or> advertised e)"
proof -
  have "(\<lambda>(ns, i). case i of KbdByte b \<Rightarrow> kbd_irq ns b | MouseByte b \<Rightarrow> mouse_irq ns b) x s = irq x s" for x s
    by (cases x; cases "snd x") auto
  then have f: "fold (\<lambda>(ns, i). case i of KbdByte b \<Rightarrow> kbd_irq ns b | MouseByte b \<Rightarrow> mouse_irq ns b) is s = fold irq is s"
    by (intro fold_cong) auto
  have "set (newest 1024 xs) \<subseteq> set xs" for xs :: "input_event list" by (simp add: newest_def set_drop_subset)
  then show ?thesis
    unfolding f using irq_run [OF assms(1), of "is"] assms(3,4) decoded_advertised [OF assms(2), of "(is_e0 s, is_mouse s)"]
    by (fastforce simp: give_def list_all_iff)
qed

theorem events_are_advertised_witness:
  "\<exists>r'. is_readers (fold (\<lambda>(ns, i). case i of KbdByte b \<Rightarrow> kbd_irq ns b | MouseByte b \<Rightarrow> mouse_irq ns b)
      [(1, KbdByte 30), (2, MouseByte 9), (2, MouseByte 4), (2, MouseByte 0)] one_reader) ! 0 = Some r'
    \<and> (\<forall>e \<in> set (er_queue r'). advertised e)"
  using events_are_advertised [OF one_reader_inv, of "[(1, KbdByte 30), (2, MouseByte 9), (2, MouseByte 4), (2, MouseByte 0)]" 0
      "\<lparr>er_queue = [], er_grab = False\<rparr>"]
  by (simp add: one_reader_def ev_open_def input_new_def)

text \<open>
  The scan codes 0 and 128 are a keyboard's report of an error. The handler makes them the press and release of a key
  with the code 0, which the device does not announce.
\<close>

theorem error_code_unannounced:
  assumes "sys_inv s" "\<not> is_e0 s" "sc = 0 \<or> sc = 0x80" "i < length (is_readers s)" "is_readers s ! i = Some r"
  shows "\<exists>r'. is_readers (kbd_irq ns sc s) ! i = Some r' \<and> (\<exists>e \<in> set (er_queue r'). \<not> advertised e)"
proof -
  let ?e = "stamp ns (EV_KEY, 0, if sc AND 0x80 = 0 then 1 else 0)"
  have d: "decoded [(ns, KbdByte sc)] (is_e0 s, is_mouse s) = [?e, stamp ns SYN]"
    using assms(2,3) by (auto simp: kbd_decode_def)
  have "newest 1024 (xs @ [a, b]) = newest 1022 xs @ [a, b]" for xs and a b :: input_event by (simp add: newest_def)
  moreover have "\<not> advertised ?e"
    by (simp add: advertised_def stamp_def ev_bits_codes ev_codes_def EV_KEY_def EV_SYN_def)
  ultimately show ?thesis
    using irq_run [OF assms(1), of "[(ns, KbdByte sc)]"] assms(4,5) unfolding d by (simp add: give_def)
qed

text \<open>Findings: the pause key, and a grab that another reader undoes.\<close>

theorem pause_key_presses_control:
  "ks_ctrl (is_keys (kbd 0 [0xE1, 0x1D, 0x45] (input_new False)))"
proof -
  have "kbd 0 [0xE1, 0x1D, 0x45] (input_new False) = kbd 0 [0x1D, 0x45] (input_new False)"
    by (simp add: kbd_def kbd_irq_def)
  moreover have "is_keys (kbd 0 [0x1D, 0x45] (input_new False)) = is_keys (hooks [0x1D, 0x45] (input_new False))"
    using kbd_run [of "input_new False" "[0x1D, 0x45]" 0] by (simp add: console_part_def input_new_def)
  moreover have "ks_ctrl (is_keys (hooks [0x1D, 0x45] (input_new False)))"
    by (simp add: console_key_hook_def input_new_def Let_def KEY_SEQS_def keycode_to_ascii_def KEYMAP_def)
  ultimately show ?thesis by simp
qed

theorem grab_undone_by_other_reader:
  assumes "is_readers s ! 0 = Some r" "er_grab r" "1 < length (is_readers s)" "is_readers s ! 1 = Some r2"
  shows "\<not> is_grabbed (ev_grab 1 False s) \<and> (\<exists>r'. is_readers (ev_grab 1 False s) ! 0 = Some r' \<and> er_grab r')"
  using assms by (simp add: ev_grab_def)

end
