(* ===== verification/Procs.thy ===== *)
theory Procs
  imports Tty Signals "HOL-Library.AList"
begin

text \<open>
  Processes, src/research/kernel-rs/kernel/src/proc/process.rs, fork.rs and exit.rs with the system calls of
  syscall/proc.rs: the process table, creation, the process tree, termination, waiting, process groups
  and sessions, controlling terminals.

  A process extends the signal state of \<open>Signals\<close> by its place in the tree. The table is an association
  list from pids; a process that is referred to is its pid. A \<open>Weak\<close> parent reference dies when the parent
  leaves the table. Signal actions are copied at a clone; sharing them between two processes
  (\<open>CLONE_SIGHAND\<close> without \<open>CLONE_THREAD\<close>) is not modelled. Of the memory and the files of a process only the
  success of their duplication matters here.
\<close>

section \<open>The table\<close>

record proc =
  pr_sig :: "process \<times> task list"
  pr_parent :: "nat option"
  pr_children :: "nat list"
  pr_sid :: nat
  pr_exit_signal :: int
  pr_vfork_done :: bool
  pr_tty :: "nat option"
  pr_gid :: u32
  pr_umask :: u32
  pr_comm :: string

record procs =
  ps_table :: "(nat \<times> proc) list"
  ps_next :: nat
  ps_ttys :: "nat \<Rightarrow> tty"

abbreviation info :: "proc \<Rightarrow> process" where "info p \<equiv> fst (pr_sig p)"
abbreviation threads :: "proc \<Rightarrow> task list" where "threads p \<equiv> snd (pr_sig p)"

definition is_zombie :: "proc \<Rightarrow> bool" where
  "is_zombie p \<longleftrightarrow> p_state (info p) = Zombie"

definition raw :: "nat \<Rightarrow> proc" where
  "raw pid =
     \<lparr>pr_sig = (\<lparr>p_pid = pid, p_uid = 0, p_pgid = pid, p_state = Running, p_shared = 0, p_actions = (\<lambda>_. SA_DEFAULT),
        p_exit_code = 0, p_stop_signal = 0, p_stopped_reported = False, p_continued_reported = False, p_group_exit = False\<rparr>, []),
      pr_parent = None, pr_children = [], pr_sid = pid, pr_exit_signal = 17, pr_vfork_done = False, pr_tty = None,
      pr_gid = 0, pr_umask = 0x12, pr_comm = ''''\<rparr>"

definition lookup :: "nat \<Rightarrow> procs \<Rightarrow> proc option" where
  "lookup pid s = map_of (ps_table s) pid"

definition on_proc :: "nat \<Rightarrow> (proc \<Rightarrow> proc) \<Rightarrow> procs \<Rightarrow> procs" where
  "on_proc pid g s = s\<lparr>ps_table := AList.map_entry pid g (ps_table s)\<rparr>"

definition on_info :: "nat \<Rightarrow> (process \<Rightarrow> process) \<Rightarrow> procs \<Rightarrow> procs" where
  "on_info pid g s = on_proc pid (\<lambda>p. p\<lparr>pr_sig := apfst g (pr_sig p)\<rparr>) s"

text \<open>The loop of \<open>alloc_pid\<close> on the counter: it may not return, which is \<open>None\<close>.\<close>

partial_function (option) alloc_pid :: "(nat \<Rightarrow> bool) \<Rightarrow> nat \<Rightarrow> (nat \<times> nat) option" where
  [code]: "alloc_pid used next =
     (if 4000000 \<le> next then alloc_pid used 2
      else if \<not> used next then Some (next, next + 1)
      else alloc_pid used (next + 1))"

definition new_process :: "procs \<Rightarrow> (nat \<times> procs) option" where
  "new_process s =
     map_option (\<lambda>(pid, nxt). (pid, s\<lparr>ps_table := AList.update pid (raw pid) (ps_table s), ps_next := nxt\<rparr>))
       (alloc_pid (\<lambda>pid. lookup pid s \<noteq> None) (ps_next s))"

definition parent_of :: "proc \<Rightarrow> procs \<Rightarrow> nat option" where
  "parent_of p s = (case pr_parent p of Some q \<Rightarrow> (if lookup q s \<noteq> None then Some q else None) | None \<Rightarrow> None)"

definition ppid :: "proc \<Rightarrow> procs \<Rightarrow> nat" where
  "ppid p s = (case parent_of p s of Some q \<Rightarrow> q | None \<Rightarrow> 0)"

text \<open>A process leaves the table; references of children to it die with it.\<close>

definition unregister :: "nat \<Rightarrow> procs \<Rightarrow> procs" where
  "unregister pid s =
     s\<lparr>ps_table := map (\<lambda>(k, p). (k, if pr_parent p = Some pid then p\<lparr>pr_parent := None\<rparr> else p)) (AList.delete pid (ps_table s))\<rparr>"

definition add_child :: "nat \<Rightarrow> nat \<Rightarrow> procs \<Rightarrow> procs" where
  "add_child pid c s =
     on_proc pid (\<lambda>p. p\<lparr>pr_children := pr_children p @ [c]\<rparr>) (on_proc c (\<lambda>p. p\<lparr>pr_parent := Some pid\<rparr>) s)"

definition drop_child :: "nat \<Rightarrow> nat \<Rightarrow> procs \<Rightarrow> procs" where
  "drop_child pid c s = on_proc pid (\<lambda>p. p\<lparr>pr_children := filter (\<lambda>x. x \<noteq> c) (pr_children p)\<rparr>) s"

definition send_proc :: "nat \<Rightarrow> int \<Rightarrow> procs \<Rightarrow> procs" where
  "send_proc pid signo s = on_proc pid (\<lambda>p. p\<lparr>pr_sig := send signo (pr_sig p)\<rparr>) s"

definition send_pgrp :: "nat \<Rightarrow> int \<Rightarrow> procs \<Rightarrow> procs" where
  "send_pgrp pg signo s =
     s\<lparr>ps_table := map (\<lambda>(k, p). (k, if p_pgid (info p) = pg \<and> \<not> is_zombie p then p\<lparr>pr_sig := send signo (pr_sig p)\<rparr> else p)) (ps_table s)\<rparr>"

definition on_tty :: "nat \<Rightarrow> (tty \<Rightarrow> tty) \<Rightarrow> procs \<Rightarrow> procs" where
  "on_tty i g s = s\<lparr>ps_ttys := (ps_ttys s)(i := g (ps_ttys s i))\<rparr>"

text \<open>The pid of the process that \<open>init_process\<close> looks up.\<close>

definition INIT :: nat where "INIT = 1"

section \<open>Controlling terminals, sessions and groups\<close>

definition set_controlling_tty :: "nat \<Rightarrow> nat \<Rightarrow> bool \<Rightarrow> procs \<Rightarrow> procs" where
  "set_controlling_tty me i force s =
     (case lookup me s of
        None \<Rightarrow> s
      | Some p \<Rightarrow>
          if p_pid (info p) = 0 then s
          else if \<not> force \<and> pr_sid p \<noteq> p_pid (info p) then s
          else if pr_tty p \<noteq> None \<and> \<not> force then s
          else
            (let s = (if tt_session (ps_ttys s i) = 0 \<or> force then
                   on_tty i (\<lambda>y. y\<lparr>tt_session := of_nat (pr_sid p), tt_fg_pgrp := of_nat (p_pgid (info p))\<rparr>) s else s)
             in on_proc me (\<lambda>p. p\<lparr>pr_tty := Some i\<rparr>) s))"

definition drop_controlling_tty :: "nat \<Rightarrow> procs \<Rightarrow> procs" where
  "drop_controlling_tty me s = on_proc me (\<lambda>p. p\<lparr>pr_tty := None\<rparr>) s"

definition ESRCH :: errno where "ESRCH = Errno 3"
definition ECHILD :: errno where "ECHILD = Errno 10"

definition setpgid :: "nat \<Rightarrow> nat \<Rightarrow> nat \<Rightarrow> procs \<Rightarrow> unit kresult \<times> procs" where
  "setpgid me pid pgid s =
     (case lookup (if pid = 0 then me else pid) s of
        None \<Rightarrow> (Inl ESRCH, s)
      | Some target \<Rightarrow>
          (let tpid = p_pid (info target); pgid = (if pgid = 0 then tpid else pgid) in
           if tpid \<noteq> me \<and> ppid target s \<noteq> me then (Inl ESRCH, s)
           else if pr_sid target = tpid then (Inl EPERM, s)
           else (Inr (), on_info tpid (\<lambda>p. p\<lparr>p_pgid := pgid\<rparr>) s)))"

definition getpgid :: "nat \<Rightarrow> nat \<Rightarrow> procs \<Rightarrow> nat kresult" where
  "getpgid me pid s = (case lookup (if pid = 0 then me else pid) s of None \<Rightarrow> Inl ESRCH | Some p \<Rightarrow> Inr (p_pgid (info p)))"

definition getsid :: "nat \<Rightarrow> nat \<Rightarrow> procs \<Rightarrow> nat kresult" where
  "getsid me pid s = (case lookup (if pid = 0 then me else pid) s of None \<Rightarrow> Inl ESRCH | Some p \<Rightarrow> Inr (pr_sid p))"

definition setsid :: "nat \<Rightarrow> procs \<Rightarrow> nat kresult \<times> procs" where
  "setsid me s =
     (case lookup me s of
        None \<Rightarrow> (Inl ESRCH, s)
      | Some p \<Rightarrow>
          if p_pgid (info p) = me \<and> pr_sid p \<noteq> me
             \<and> list_ex (\<lambda>(k, x). k \<noteq> me \<and> p_pgid (info x) = me) (ps_table s)
          then (Inl EPERM, s)
          else (Inr me, on_proc me (\<lambda>p. p\<lparr>pr_sid := me, pr_tty := None, pr_sig := apfst (\<lambda>i. i\<lparr>p_pgid := me\<rparr>) (pr_sig p)\<rparr>) s))"

section \<open>Clone\<close>

definition CLONE_VM :: u64 where "CLONE_VM = 0x100"
definition CLONE_SIGHAND :: u64 where "CLONE_SIGHAND = 0x800"
definition CLONE_VFORK :: u64 where "CLONE_VFORK = 0x4000"
definition CLONE_PARENT :: u64 where "CLONE_PARENT = 0x8000"
definition CLONE_THREAD :: u64 where "CLONE_THREAD = 0x10000"
definition CLONE_PARENT_SETTID :: u64 where "CLONE_PARENT_SETTID = 0x100000"
definition CLONE_NEW_MASK :: u64 where
  "CLONE_NEW_MASK = 0x20000 OR 0x10000000 OR 0x20000000 OR 0x40000000 OR 0x4000000 OR 0x8000000"

text \<open>
  The thread a clone starts: the signal mask and alternate stack of the caller's thread, and no saved mask
  (\<open>u64::MAX\<close> stands for none).
\<close>

definition cloned_task :: "task \<Rightarrow> task" where
  "cloned_task t =
     \<lparr>t_pending = 0, t_mask = t_mask t, t_alt_sp = t_alt_sp t, t_alt_size = t_alt_size t, t_alt_flags = t_alt_flags t,
      t_saved_mask = - 1, t_syscall_nr = 0, t_fault_addr = 0, t_fault_code = 0, t_blocked = False, t_interruptible = False, t_on_stop_wq = False\<rparr>"

definition inherit :: "proc \<Rightarrow> int \<Rightarrow> proc \<Rightarrow> proc" where
  "inherit par sig p =
     p\<lparr>pr_sig := apfst (\<lambda>i. i\<lparr>p_uid := p_uid (info par), p_pgid := p_pgid (info par), p_actions := p_actions (info par)\<rparr>) (pr_sig p),
       pr_sid := pr_sid par, pr_tty := pr_tty par, pr_gid := pr_gid par, pr_umask := pr_umask par, pr_comm := pr_comm par,
       pr_exit_signal := sig\<rparr>"

definition add_thread :: "nat \<Rightarrow> task \<Rightarrow> procs \<Rightarrow> procs" where
  "add_thread pid t s = on_proc pid (\<lambda>p. p\<lparr>pr_sig := apsnd (\<lambda>ts. ts @ [t]) (pr_sig p)\<rparr>) s"

text \<open>Whose child the new process is.\<close>

definition clone_parent :: "u64 \<Rightarrow> nat \<Rightarrow> proc \<Rightarrow> procs \<Rightarrow> nat" where
  "clone_parent flags me par s =
     (if has flags CLONE_PARENT then (case parent_of par s of Some gp \<Rightarrow> gp | None \<Rightarrow> me) else me)"

text \<open>
  \<open>do_clone\<close> by thread \<open>t\<close> of process \<open>me\<close>. \<open>mem_ok\<close> says whether the address space could be duplicated,
  \<open>tid_ok\<close> whether the new thread's number \<open>tid\<close> could be written to the caller. Both are checked where the
  source checks them.
\<close>

definition do_clone :: "nat \<Rightarrow> task \<Rightarrow> u64 \<Rightarrow> int \<Rightarrow> bool \<Rightarrow> bool \<Rightarrow> nat \<Rightarrow> procs \<Rightarrow> (nat kresult \<times> procs) option" where
  "do_clone me t flags sig mem_ok tid_ok tid s =
     (case lookup me s of
        None \<Rightarrow> Some (Inl ESRCH, s)
      | Some par \<Rightarrow>
          if has flags CLONE_NEW_MASK then Some (Inl EINVAL, s)
          else if has flags CLONE_THREAD \<and> flags AND (CLONE_VM OR CLONE_SIGHAND) \<noteq> CLONE_VM OR CLONE_SIGHAND then Some (Inl EINVAL, s)
          else if has flags CLONE_THREAD then
            Some (if has flags CLONE_PARENT_SETTID \<and> \<not> tid_ok then (Inl EFAULT, s) else (Inr tid, add_thread me (cloned_task t) s))
          else
            map_option (\<lambda>(pid, s).
              if \<not> has flags CLONE_VM \<and> \<not> mem_ok then (Inl ENOMEM, s)
              else
                (let s = on_proc pid (inherit par sig) s;
                     s = add_child (clone_parent flags me par s) pid s
                 in if has flags CLONE_PARENT_SETTID \<and> \<not> tid_ok then (Inl EFAULT, s)
                    else (Inr pid, add_thread pid (cloned_task t) s))) (new_process s))"

section \<open>Exit\<close>

definition SA_NOCLDWAIT :: u64 where "SA_NOCLDWAIT = 2"

text \<open>The terminal of a session leader: its foreground group gets \<open>SIGHUP\<close>, the session is over.\<close>

definition leave_tty :: "nat \<Rightarrow> procs \<Rightarrow> procs" where
  "leave_tty pid s =
     (case lookup pid s of
        None \<Rightarrow> s
      | Some p \<Rightarrow>
          (case pr_tty p of
             None \<Rightarrow> s
           | Some i \<Rightarrow>
               (let y = ps_ttys s i; s = on_proc pid (\<lambda>p. p\<lparr>pr_tty := None\<rparr>) s in
                if pr_sid p = pid \<and> unat (tt_session y) = pid then
                  (let fg = unat (tt_fg_pgrp y);
                       s = (if fg \<noteq> 0 \<and> fg \<noteq> p_pgid (info p) then send_pgrp fg 1 s else s)
                   in on_tty i (\<lambda>y. y\<lparr>tt_session := 0, tt_fg_pgrp := 0\<rparr>) s)
                else s)))"

definition adopt :: "nat \<Rightarrow> nat \<Rightarrow> procs \<Rightarrow> procs" where
  "adopt init c s =
     (let s = add_child init c s in
      case lookup c s of
        Some p \<Rightarrow> if is_zombie p then send_proc init SIGCHLD s else s
      | None \<Rightarrow> s)"

definition reparent :: "nat \<Rightarrow> procs \<Rightarrow> procs" where
  "reparent pid s =
     (case lookup pid s of
        None \<Rightarrow> s
      | Some p \<Rightarrow>
          (let s = on_proc pid (\<lambda>p. p\<lparr>pr_children := []\<rparr>) s in
           if pr_children p \<noteq> [] \<and> lookup INIT s \<noteq> None then fold (adopt INIT) (pr_children p) s else s))"

definition notify_parent :: "nat \<Rightarrow> procs \<Rightarrow> procs" where
  "notify_parent pid s =
     (case lookup pid s of
        None \<Rightarrow> s
      | Some p \<Rightarrow>
          (case parent_of p s of
             None \<Rightarrow> unregister pid s
           | Some q \<Rightarrow>
               (case lookup q s of
                  None \<Rightarrow> s
                | Some par \<Rightarrow>
                    (let a = p_actions (info par) SIGCHLD in
                     if sa_handler a = SIG_IGN \<or> has (sa_flags a) SA_NOCLDWAIT then unregister pid (drop_child q pid s)
                     else if 0 < pr_exit_signal p then send_proc q (pr_exit_signal p) s
                     else s))))"

definition process_exit :: "nat \<Rightarrow> int \<Rightarrow> procs \<Rightarrow> procs" where
  "process_exit pid code s =
     (let s = on_info pid (\<lambda>i. if p_group_exit i then i else i\<lparr>p_exit_code := push_bit 8 (code AND 0xff)\<rparr>) s;
          s = on_proc pid (\<lambda>p. p\<lparr>pr_vfork_done := True\<rparr>) s;
          s = leave_tty pid s;
          s = reparent pid s;
          s = on_info pid (\<lambda>i. i\<lparr>p_state := Zombie\<rparr>) s
      in notify_parent pid s)"

text \<open>\<open>task_exit\<close> of thread number \<open>k\<close> of a process; the last one ends the process.\<close>

definition task_exit :: "nat \<Rightarrow> nat \<Rightarrow> int \<Rightarrow> procs \<Rightarrow> procs" where
  "task_exit pid k code s =
     (if pid = 0 then s
      else case lookup pid s of
        None \<Rightarrow> s
      | Some p \<Rightarrow>
          (let ts = take k (threads p) @ drop (Suc k) (threads p);
               s = on_proc pid (\<lambda>p. p\<lparr>pr_sig := (info p, ts)\<rparr>) s
           in if ts \<noteq> [] then s else process_exit pid code s))"

text \<open>The system calls: a group exit fixes the exit code once and kills the other threads.\<close>

definition group_exit_code :: "int \<Rightarrow> process \<Rightarrow> process" where
  "group_exit_code code i =
     (if p_group_exit i then i else i\<lparr>p_group_exit := True, p_exit_code := push_bit 8 (code AND 0xff)\<rparr>)"

definition exit_group :: "nat \<Rightarrow> nat \<Rightarrow> int \<Rightarrow> procs \<Rightarrow> procs" where
  "exit_group pid k code s =
     (let s = on_info pid (group_exit_code code) s;
          s = on_proc pid (\<lambda>p. p\<lparr>pr_sig := apsnd (\<lambda>ts. map (\<lambda>(j, t). if j = k then t else post_signal SIGKILL t) (enumerate 0 ts)) (pr_sig p)\<rparr>) s
      in task_exit pid k code s)"

definition sys_exit :: "nat \<Rightarrow> nat \<Rightarrow> int \<Rightarrow> procs \<Rightarrow> procs" where
  "sys_exit pid k code s =
     (case lookup pid s of
        None \<Rightarrow> s
      | Some p \<Rightarrow> if length (threads p) \<le> 1 then exit_group pid k code s else task_exit pid k code s)"

section \<open>Wait\<close>

definition WNOHANG :: u32 where "WNOHANG = 1"
definition WUNTRACED :: u32 where "WUNTRACED = 2"
definition WEXITED :: u32 where "WEXITED = 4"
definition WCONTINUED :: u32 where "WCONTINUED = 8"
definition WNOWAIT :: u32 where "WNOWAIT = 0x1000000"

record wait_result =
  wr_pid :: nat
  wr_status :: int
  wr_utime :: nat

definition child_matches :: "proc \<Rightarrow> int \<Rightarrow> proc \<Rightarrow> bool" where
  "child_matches c which me =
     (if which = -1 then True
      else if 0 < which then p_pid (info c) = nat (which mod 2 ^ 32)
      else if which = 0 then p_pgid (info c) = p_pgid (info me)
      else p_pgid (info c) = nat ((- which) mod 2 ^ 32))"

text \<open>The three reasons for which a child is reported.\<close>

definition stop_ready :: "u32 \<Rightarrow> proc \<Rightarrow> bool" where
  "stop_ready opts c \<longleftrightarrow> has opts WUNTRACED \<and> p_state (info c) = Stopped \<and> \<not> p_stopped_reported (info c)"

definition cont_ready :: "u32 \<Rightarrow> proc \<Rightarrow> bool" where
  "cont_ready opts c \<longleftrightarrow> has opts WCONTINUED \<and> p_state (info c) = Running \<and> p_stopped_reported (info c) \<and> \<not> p_continued_reported (info c)"

definition child_ready :: "u32 \<Rightarrow> proc \<Rightarrow> bool" where
  "child_ready opts c \<longleftrightarrow> is_zombie c \<or> stop_ready opts c \<or> cont_ready opts c"

text \<open>Reporting a child that is ready; \<open>cpu\<close> is the processor time of a thread.\<close>

definition report :: "(task \<Rightarrow> nat) \<Rightarrow> nat \<Rightarrow> u32 \<Rightarrow> nat \<Rightarrow> proc \<Rightarrow> procs \<Rightarrow> wait_result \<times> procs" where
  "report cpu me opts k c s =
     (if is_zombie c then
        (\<lparr>wr_pid = k, wr_status = p_exit_code (info c), wr_utime = sum_list (map cpu (threads c))\<rparr>,
         if \<not> has opts WNOWAIT then unregister k (drop_child me k s) else s)
      else if stop_ready opts c then
        (\<lparr>wr_pid = k, wr_status = 0x7f OR push_bit 8 (p_stop_signal (info c)), wr_utime = 0\<rparr>,
         on_info k (\<lambda>i. i\<lparr>p_stopped_reported := True\<rparr>) s)
      else
        (\<lparr>wr_pid = k, wr_status = 0xffff, wr_utime = 0\<rparr>,
         on_info k (\<lambda>i. i\<lparr>p_continued_reported := True, p_stopped_reported := False\<rparr>) s))"

text \<open>The children among \<open>ks\<close> that the caller asks for, as the loop goes through them.\<close>

definition waited_for :: "int \<Rightarrow> proc \<Rightarrow> nat list \<Rightarrow> procs \<Rightarrow> (nat \<times> proc) list" where
  "waited_for which p ks s =
     filter (\<lambda>(k, c). child_matches c which p) (List.map_filter (\<lambda>k. map_option (Pair k) (lookup k s)) ks)"

datatype wait_round = Reports wait_result procs | NoChild | Nothing | WaitSleep

definition wait_try :: "(task \<Rightarrow> nat) \<Rightarrow> nat \<Rightarrow> int \<Rightarrow> u32 \<Rightarrow> procs \<Rightarrow> wait_round" where
  "wait_try cpu me which opts s =
     (case lookup me s of
        None \<Rightarrow> NoChild
      | Some p \<Rightarrow>
          (let cs = waited_for which p (pr_children p) s in
           case List.find (\<lambda>(k, c). child_ready opts c) cs of
             Some (k, c) \<Rightarrow> (case report cpu me opts k c s of (r, s') \<Rightarrow> Reports r s')
           | None \<Rightarrow> if cs = [] then NoChild else if has opts WNOHANG then Nothing else WaitSleep))"

datatype wait_wake = WWoken procs | WInterrupted procs

datatype wait_outcome = WaitDone "wait_result option kresult" procs | WaitAsleep procs

fun wait :: "(task \<Rightarrow> nat) \<Rightarrow> nat \<Rightarrow> int \<Rightarrow> u32 \<Rightarrow> procs \<Rightarrow> wait_wake list \<Rightarrow> wait_outcome" where
  "wait cpu me which opts s ws =
     (case wait_try cpu me which opts s of
        Reports r s' \<Rightarrow> WaitDone (Inr (Some r)) s'
      | NoChild \<Rightarrow> WaitDone (Inl ECHILD) s
      | Nothing \<Rightarrow> WaitDone (Inr None) s
      | WaitSleep \<Rightarrow>
          (case ws of
             [] \<Rightarrow> WaitAsleep s
           | WInterrupted s' # _ \<Rightarrow> WaitDone (Inl ERESTARTSYS) s'
           | WWoken s' # ws' \<Rightarrow> wait cpu me which opts s' ws'))"

declare wait.simps [simp del]

text \<open>The condition of the sleeping caller.\<close>

definition wait_ready :: "nat \<Rightarrow> int \<Rightarrow> u32 \<Rightarrow> procs \<Rightarrow> bool" where
  "wait_ready me which opts s =
     (case lookup me s of
        None \<Rightarrow> False
      | Some p \<Rightarrow> list_ex (\<lambda>k. case lookup k s of Some c \<Rightarrow> child_matches c which p \<and> child_ready opts c | None \<Rightarrow> False) (pr_children p))"

text \<open>\<open>waitid\<close>: which children and options it asks for, and what it tells of a result.\<close>

definition waitid_args :: "int \<Rightarrow> int \<Rightarrow> u32 \<Rightarrow> (int \<times> u32) kresult" where
  "waitid_args idtype i options =
     (if idtype \<noteq> 0 \<and> idtype \<noteq> 1 \<and> idtype \<noteq> 2 then Inl EINVAL
      else
        (let which = (if idtype = 0 then -1 else if idtype = 1 then i else - i);
             opts = options AND (WNOHANG OR WUNTRACED OR WCONTINUED OR WNOWAIT)
         in if \<not> has options WEXITED \<and> \<not> has options (WUNTRACED OR WCONTINUED) then Inl EINVAL
            else Inr (which, if has options WUNTRACED then opts OR WUNTRACED else opts)))"

definition waitid_info :: "int \<Rightarrow> int \<times> int" where
  "waitid_info status =
     (if status AND 0x7f = 0 then (1, drop_bit 8 status)
      else if status AND 0xff = 0x7f then (5, drop_bit 8 status AND 0xff)
      else if status = 0xffff then (6, 18)
      else (2, status AND 0x7f))"

text \<open>The system calls that start a process, on the flags the user passes.\<close>

definition sys_clone :: "nat \<Rightarrow> task \<Rightarrow> u64 \<Rightarrow> bool \<Rightarrow> bool \<Rightarrow> nat \<Rightarrow> procs \<Rightarrow> (nat kresult \<times> procs) option" where
  "sys_clone me t flags mem_ok tid_ok tid s = do_clone me t (flags AND NOT 0xff) (uint (flags AND 0xff)) mem_ok tid_ok tid s"

definition sys_fork :: "nat \<Rightarrow> task \<Rightarrow> bool \<Rightarrow> bool \<Rightarrow> nat \<Rightarrow> procs \<Rightarrow> (nat kresult \<times> procs) option" where
  "sys_fork me t vfork mem_ok tid s = do_clone me t (if vfork then CLONE_VFORK OR CLONE_VM else 0) 17 mem_ok True tid s"

section \<open>Stopping\<close>

definition stop_proc :: "nat \<Rightarrow> int \<Rightarrow> procs \<Rightarrow> procs" where
  "stop_proc pid signo s =
     (let s = on_info pid (\<lambda>i. i\<lparr>p_state := Stopped, p_stop_signal := signo, p_stopped_reported := False\<rparr>) s in
      case lookup pid s of
        None \<Rightarrow> s
      | Some p \<Rightarrow>
          (case parent_of p s of
             None \<Rightarrow> s
           | Some q \<Rightarrow>
               (case lookup q s of
                  None \<Rightarrow> s
                | Some par \<Rightarrow> if \<not> has (sa_flags (p_actions (info par) SIGCHLD)) SA_NOCLDSTOP then send_proc q SIGCHLD s else s)))"

section \<open>The process tree\<close>

text \<open>What the tree is about: the pid, the parent, the children, whether it is a zombie and has threads.\<close>

record node =
  nd_pid :: nat
  nd_par :: "nat option"
  nd_kids :: "nat list"
  nd_dead :: bool
  nd_idle :: bool

definition node :: "proc \<Rightarrow> node" where
  "node p = \<lparr>nd_pid = p_pid (info p), nd_par = pr_parent p, nd_kids = pr_children p, nd_dead = is_zombie p, nd_idle = (threads p = [])\<rparr>"

definition tree :: "procs \<Rightarrow> nat \<Rightarrow> node option" where
  "tree s k = map_option node (lookup k s)"

text \<open>
  Pids are the keys of the table and not 0, and no process is its own parent; init is there and alive, and nobody's child; the children a process lists
  are exactly those that name it as their parent, each once; a parent is in the table and alive; and
  a zombie has no threads and no children, but a parent that can wait for it.
\<close>

definition tree_ok :: "(nat \<Rightarrow> node option) \<Rightarrow> bool" where
  "tree_ok n \<longleftrightarrow>
     (\<forall>k x. n k = Some x \<longrightarrow> nd_pid x = k \<and> k \<noteq> 0 \<and> nd_par x \<noteq> Some k)
   \<and> (\<exists>x. n INIT = Some x \<and> \<not> nd_dead x \<and> nd_par x = None)
   \<and> (\<forall>k x. n k = Some x \<longrightarrow> distinct (nd_kids x) \<and> (\<forall>c. c \<in> set (nd_kids x) \<longleftrightarrow> (\<exists>y. n c = Some y \<and> nd_par y = Some k)))
   \<and> (\<forall>c y k. n c = Some y \<longrightarrow> nd_par y = Some k \<longrightarrow> (\<exists>x. n k = Some x \<and> \<not> nd_dead x))
   \<and> (\<forall>k x. n k = Some x \<longrightarrow> nd_dead x \<longrightarrow> nd_idle x \<and> nd_kids x = [] \<and> nd_par x \<noteq> None)"

lemma lookup_on_proc: "lookup j (on_proc k g s) = (if j = k then map_option g (lookup k s) else lookup j s)"
  by (auto simp: lookup_def on_proc_def map_of_map_entry split: option.split)

lemma lookup_on_info: "lookup j (on_info k g s) = (if j = k then map_option (\<lambda>p. p\<lparr>pr_sig := apfst g (pr_sig p)\<rparr>) (lookup k s) else lookup j s)"
  by (simp add: on_info_def lookup_on_proc)

lemma lookup_unregister:
  "lookup j (unregister k s) =
     (if j = k then None else map_option (\<lambda>p. if pr_parent p = Some k then p\<lparr>pr_parent := None\<rparr> else p) (lookup j s))"
  by (simp add: lookup_def unregister_def map_of_map delete_conv')

lemma lookup_send_pgrp:
  "lookup j (send_pgrp pg n s) =
     map_option (\<lambda>p. if p_pgid (info p) = pg \<and> \<not> is_zombie p then p\<lparr>pr_sig := send n (pr_sig p)\<rparr> else p) (lookup j s)"
  by (simp add: lookup_def send_pgrp_def map_of_map)

lemma lookup_on_tty [simp]: "lookup j (on_tty i g s) = lookup j s"
  by (simp add: lookup_def on_tty_def)

lemmas lookup_simps = lookup_on_proc lookup_on_info lookup_unregister lookup_send_pgrp

lemma job_control_node:
  "p_pid (fst (job_control n pt)) = p_pid (fst pt)" "p_state (fst pt) \<noteq> Zombie \<Longrightarrow> p_state (fst (job_control n pt)) \<noteq> Zombie"
  "length (snd (job_control n pt)) = length (snd pt)"
  by (auto simp: job_control_def Let_def split: prod.splits if_splits)

lemma send_node:
  "p_pid (fst (send n pt)) = p_pid (fst pt)" "p_state (fst (send n pt)) = Zombie \<longleftrightarrow> p_state (fst pt) = Zombie"
  "snd (send n pt) = [] \<longleftrightarrow> snd pt = []"
proof -
  have "p_pid (fst (send n pt)) = p_pid (fst pt) \<and> (p_state (fst (send n pt)) = Zombie \<longleftrightarrow> p_state (fst pt) = Zombie)
      \<and> length (snd (send n pt)) = length (snd pt)"
    using job_control_node(1,3) [of n pt] job_control_node(2) [of pt n]
    by (cases "job_control n pt") (auto simp: send_def Let_def split: option.splits if_splits)
  then show "p_pid (fst (send n pt)) = p_pid (fst pt)" "p_state (fst (send n pt)) = Zombie \<longleftrightarrow> p_state (fst pt) = Zombie"
    "snd (send n pt) = [] \<longleftrightarrow> snd pt = []"
    by (auto simp flip: length_0_conv)
qed

lemma node_send [simp]: "node (p\<lparr>pr_sig := send n (pr_sig p)\<rparr>) = node p"
  by (simp add: node_def is_zombie_def send_node)

lemma tree_on_proc: "tree (on_proc k g s) j = (if j = k then map_option (\<lambda>p. node (g p)) (lookup k s) else tree s j)"
  by (simp add: tree_def lookup_on_proc option.map_comp comp_def)

lemma tree_on_proc_same: "(\<And>p. node (g p) = node p) \<Longrightarrow> tree (on_proc k g s) = tree s"
  by (rule ext) (simp add: tree_on_proc, simp add: tree_def)

lemma tree_send [simp]: "tree (send_proc k n s) = tree s" "tree (send_pgrp pg n s) = tree s" "tree (on_tty i h s) = tree s"
  by (auto simp: fun_eq_iff tree_def send_proc_def lookup_simps option.map_comp comp_def if_distrib [of node] cong: if_cong)

lemma tree_add_child:
  "tree (add_child q c s) =
     (let t = (tree s)(c := map_option (\<lambda>x. x\<lparr>nd_par := Some q\<rparr>) (tree s c))
      in t(q := map_option (\<lambda>x. x\<lparr>nd_kids := nd_kids x @ [c]\<rparr>) (t q)))"
  by (auto simp: fun_eq_iff Let_def tree_def add_child_def lookup_simps option.map_comp comp_def node_def is_zombie_def)

lemma tree_drop_child:
  "tree (drop_child q c s) = (tree s)(q := map_option (\<lambda>x. x\<lparr>nd_kids := filter (\<lambda>y. y \<noteq> c) (nd_kids x)\<rparr>) (tree s q))"
  by (auto simp: fun_eq_iff tree_def drop_child_def lookup_simps option.map_comp comp_def node_def is_zombie_def)

lemma tree_unregister:
  "tree (unregister k s) j = (if j = k then None else map_option (\<lambda>x. if nd_par x = Some k then x\<lparr>nd_par := None\<rparr> else x) (tree s j))"
  by (auto simp: tree_def lookup_simps option.map_comp comp_def node_def is_zombie_def intro!: map_option_cong)

lemma tree_adopt: "tree (adopt q c s) = tree (add_child q c s)"
  by (simp add: adopt_def Let_def split: option.split)

section \<open>The tree stays a tree\<close>

lemma tree_okI:
  assumes "\<And>k x. n k = Some x \<Longrightarrow> nd_pid x = k \<and> k \<noteq> 0 \<and> nd_par x \<noteq> Some k"
    and "\<exists>x. n INIT = Some x \<and> \<not> nd_dead x \<and> nd_par x = None"
    and "\<And>k x. n k = Some x \<Longrightarrow> distinct (nd_kids x)"
    and "\<And>k x c. n k = Some x \<Longrightarrow> c \<in> set (nd_kids x) \<longleftrightarrow> (\<exists>y. n c = Some y \<and> nd_par y = Some k)"
    and "\<And>c y k. n c = Some y \<Longrightarrow> nd_par y = Some k \<Longrightarrow> \<exists>x. n k = Some x \<and> \<not> nd_dead x"
    and "\<And>k x. n k = Some x \<Longrightarrow> nd_dead x \<Longrightarrow> nd_idle x \<and> nd_kids x = [] \<and> nd_par x \<noteq> None"
  shows "tree_ok n"
  unfolding tree_ok_def using assms by blast

lemma tree_okD:
  assumes "tree_ok n"
  shows "n k = Some x \<Longrightarrow> nd_pid x = k \<and> k \<noteq> 0 \<and> nd_par x \<noteq> Some k"
    and "\<exists>x. n INIT = Some x \<and> \<not> nd_dead x \<and> nd_par x = None"
    and "n k = Some x \<Longrightarrow> distinct (nd_kids x)"
    and "n k = Some x \<Longrightarrow> c \<in> set (nd_kids x) \<longleftrightarrow> (\<exists>y. n c = Some y \<and> nd_par y = Some k)"
    and "n c = Some y \<Longrightarrow> nd_par y = Some k \<Longrightarrow> \<exists>x. n k = Some x \<and> \<not> nd_dead x"
    and "n k = Some x \<Longrightarrow> nd_dead x \<Longrightarrow> nd_idle x \<and> nd_kids x = [] \<and> nd_par x \<noteq> None"
  using assms unfolding tree_ok_def by blast+

text \<open>A process without children leaves the table.\<close>

definition without :: "nat \<Rightarrow> (nat \<Rightarrow> node option) \<Rightarrow> nat \<Rightarrow> node option" where
  "without k n j = (if j = k then None else map_option (\<lambda>x. x\<lparr>nd_kids := filter (\<lambda>y. y \<noteq> k) (nd_kids x)\<rparr>) (n j))"

lemma without_Some:
  "without k n j = Some x \<longleftrightarrow> j \<noteq> k \<and> (\<exists>y. n j = Some y \<and> x = y\<lparr>nd_kids := filter (\<lambda>y. y \<noteq> k) (nd_kids y)\<rparr>)"
  by (auto simp: without_def)

lemma tree_ok_without:
  assumes "tree_ok n" "k \<noteq> INIT" "\<And>c y. n c = Some y \<Longrightarrow> nd_par y \<noteq> Some k"
  shows "tree_ok (without k n)"
proof (rule tree_okI, goal_cases)
  case (1 j x)
  then show ?case using tree_okD(1) [OF assms(1)] by (auto simp: without_Some)
next
  case 2
  then show ?case using tree_okD(2) [OF assms(1)] assms(2) by (auto simp: without_Some)
next
  case (3 j x)
  then show ?case using tree_okD(3) [OF assms(1)] by (auto simp: without_Some)
next
  case (4 j x c)
  then obtain y where y: "n j = Some y" "x = y\<lparr>nd_kids := filter (\<lambda>y. y \<noteq> k) (nd_kids y)\<rparr>" by (auto simp: without_Some)
  have "(\<exists>z. without k n c = Some z \<and> nd_par z = Some j) \<longleftrightarrow> c \<noteq> k \<and> (\<exists>z. n c = Some z \<and> nd_par z = Some j)"
    by (force simp: without_Some)
  then show ?case using tree_okD(4) [OF assms(1) y(1), of c] y(2) by auto
next
  case (5 c y j)
  then obtain z where z: "n c = Some z" "nd_par z = Some j" by (auto simp: without_Some)
  then show ?case using tree_okD(5) [OF assms(1) z] assms(3) [OF z(1)] by (force simp: without_Some)
next
  case (6 j x)
  then show ?case using tree_okD(6) [OF assms(1)] by (auto simp: without_Some)
qed

lemma tree_unregister_leaf:
  assumes "\<forall>j z c. tree s j = Some z \<longrightarrow> (c \<in> set (nd_kids z) \<longleftrightarrow> (\<exists>y. tree s c = Some y \<and> nd_par y = Some j))"
    and "\<forall>c y. tree s c = Some y \<longrightarrow> nd_par y \<noteq> Some k"
  shows "tree s k = Some x \<Longrightarrow> nd_par x = Some q \<Longrightarrow> tree (unregister k (drop_child q k s)) = without k (tree s)"
    and "tree s k = Some x \<Longrightarrow> nd_par x = None \<Longrightarrow> tree (unregister k s) = without k (tree s)"
proof -
  have f: "filter (\<lambda>y. y \<noteq> k) (nd_kids z) = nd_kids z" if "tree s j = Some z" "tree s k = Some x" "nd_par x \<noteq> Some j" for j z
    using assms(1) [rule_format, OF that(1), of k] that(2,3) by (auto intro: filter_True)
  have r: "z\<lparr>nd_kids := nd_kids z\<rparr> = z" for z :: node by simp
  show "tree (unregister k (drop_child q k s)) = without k (tree s)" if "tree s k = Some x" "nd_par x = Some q"
  proof
    fix j
    show "tree (unregister k (drop_child q k s)) j = without k (tree s) j"
      using assms(2) f [of j, OF _ that(1)] that(2) r
      by (cases "tree s j") (auto simp: tree_unregister tree_drop_child without_def)
  qed
  show "tree (unregister k s) = without k (tree s)" if "tree s k = Some x" "nd_par x = None"
  proof
    fix j
    show "tree (unregister k s) j = without k (tree s) j"
      using assms(2) f [of j, OF _ that(1)] that(2) r
      by (cases "tree s j") (auto simp: tree_unregister without_def)
  qed
qed

text \<open>A new process: first on its own, then the child of a process that is alive.\<close>

lemma tree_ok_new:
  assumes "tree_ok n" "n c = None" "c \<noteq> 0"
  shows "tree_ok (n(c := Some \<lparr>nd_pid = c, nd_par = None, nd_kids = [], nd_dead = False, nd_idle = i\<rparr>))" (is "tree_ok ?n")
proof (rule tree_okI, goal_cases)
  case (4 k x d)
  have "nd_par y \<noteq> Some c" if "n d = Some y" for d y using tree_okD(5) [OF assms(1) that] assms(2) by auto
  then show ?case using 4 tree_okD(4) [OF assms(1), of k x d] assms(2) by (auto split: if_splits)
next
  case (5 d y k)
  then show ?case using tree_okD(5) [OF assms(1), of d y k] assms(2) by (auto split: if_splits)
qed (use tree_okD [OF assms(1)] assms(2,3) in \<open>auto split: if_splits\<close>)

definition linked :: "nat \<Rightarrow> nat \<Rightarrow> (nat \<Rightarrow> node option) \<Rightarrow> nat \<Rightarrow> node option" where
  "linked q c n j = map_option (\<lambda>x. x\<lparr>nd_par := if j = c then Some q else nd_par x, nd_kids := if j = q then nd_kids x @ [c] else nd_kids x\<rparr>) (n j)"

lemma linked_Some:
  "linked q c n j = Some x \<longleftrightarrow> (\<exists>y. n j = Some y \<and>
     x = y\<lparr>nd_par := if j = c then Some q else nd_par y, nd_kids := if j = q then nd_kids y @ [c] else nd_kids y\<rparr>)"
  by (auto simp only: linked_def map_option_eq_Some)

lemma tree_linked: "tree (add_child q c s) = linked q c (tree s)"
proof -
  have r: "z\<lparr>nd_par := nd_par z, nd_kids := nd_kids z\<rparr> = z" "z\<lparr>nd_kids := nd_kids z\<rparr> = z" "z\<lparr>nd_par := nd_par z\<rparr> = z" for z :: node by simp_all
  show ?thesis
    by (rule ext) (auto simp: tree_add_child linked_def Let_def option.map_comp comp_def r option.map_ident)
qed

lemma tree_ok_linked:
  assumes "tree_ok n" "n q = Some x" "\<not> nd_dead x" "n c = Some y" "nd_par y = None" "\<not> nd_dead y" "c \<noteq> INIT" "q \<noteq> c"
  shows "tree_ok (linked q c n)"
proof (rule tree_okI, goal_cases)
  case (1 k z)
  then show ?case using tree_okD(1) [OF assms(1), of k] assms(8) by (cases "n k") (auto simp: linked_def split: if_splits)
next
  case 2
  obtain i where "n INIT = Some i" "\<not> nd_dead i" "nd_par i = None" using tree_okD(2) [OF assms(1)] by blast
  then show ?case using assms(7) by (simp add: linked_def)
next
  case (3 k z)
  have "c \<notin> set (nd_kids w)" if "n k = Some w" for w using tree_okD(4) [OF assms(1) that, of c] assms(4,5) by auto
  then show ?case using 3 tree_okD(3) [OF assms(1)] by (auto simp: linked_Some)
next
  case (4 k z d)
  then obtain w where w: "n k = Some w" "z = w\<lparr>nd_par := if k = c then Some q else nd_par w, nd_kids := if k = q then nd_kids w @ [c] else nd_kids w\<rparr>"
    by (auto simp: linked_Some)
  have "(\<exists>v. linked q c n d = Some v \<and> nd_par v = Some k) \<longleftrightarrow> (\<exists>v. n d = Some v \<and> (if d = c then Some q else nd_par v) = Some k)"
    by (cases "n d") (auto simp: linked_def)
  then show ?case using tree_okD(4) [OF assms(1) w(1), of d] w(2) assms(4,5) by auto
next
  case (5 d z k)
  then obtain v where v: "n d = Some v" "(if d = c then Some q else nd_par v) = Some k" by (auto simp: linked_Some)
  then obtain w where "n k = Some w" "\<not> nd_dead w" using tree_okD(5) [OF assms(1) v(1)] assms(2,3) by (auto split: if_splits)
  then show ?case by (auto simp: linked_Some)
next
  case (6 k z)
  then obtain w where w: "n k = Some w" "nd_dead w" 
      "z = w\<lparr>nd_par := if k = c then Some q else nd_par w, nd_kids := if k = q then nd_kids w @ [c] else nd_kids w\<rparr>"
    by (auto simp: linked_Some)
  then have "k \<noteq> q" "k \<noteq> c" using assms(2,3,4,6) by auto
  then show ?case using tree_okD(6) [OF assms(1) w(1,2)] w(3) by simp
qed

text \<open>The children of an exiting process move to init.\<close>

definition moved :: "nat \<Rightarrow> nat list \<Rightarrow> (nat \<Rightarrow> node option) \<Rightarrow> nat \<Rightarrow> node option" where
  "moved k cs n j =
     map_option (\<lambda>x. x\<lparr>nd_par := if j \<in> set cs then Some INIT else nd_par x,
       nd_kids := if j = k then [] else if j = INIT then nd_kids x @ cs else nd_kids x\<rparr>) (n j)"

lemma tree_ok_moved:
  assumes "tree_ok n" "n k = Some x" "nd_kids x = cs" "k \<noteq> INIT"
  shows "tree_ok (moved k cs n)" "\<And>c y. moved k cs n c = Some y \<Longrightarrow> nd_par y \<noteq> Some k"
proof -
  have cs: "c \<in> set cs \<longleftrightarrow> (\<exists>y. n c = Some y \<and> nd_par y = Some k)" for c using tree_okD(4) [OF assms(1,2)] assms(3) by simp
  obtain i where i: "n INIT = Some i" "\<not> nd_dead i" "nd_par i = None" using tree_okD(2) [OF assms(1)] by blast
  have one: "INIT \<notin> set cs" using cs [of INIT] i by auto
  have par: "moved k cs n c = Some y \<Longrightarrow> \<exists>z. n c = Some z \<and> nd_par y = (if c \<in> set cs then Some INIT else nd_par z)" for c y
    by (cases "n c") (auto simp: moved_def)
  show no: "nd_par y \<noteq> Some k" if "moved k cs n c = Some y" for c y
    using par [OF that] cs [of c] assms(4) by auto
  show "tree_ok (moved k cs n)"
  proof (rule tree_okI, goal_cases)
    case (1 j z)
    then show ?case using tree_okD(1) [OF assms(1), of j] one by (cases "n j") (auto simp: moved_def split: if_splits)
  next
    case 2
    then show ?case using i one by (simp add: moved_def)
  next
    case (3 j z)
    then obtain w where w: "n j = Some w" "nd_kids z = (if j = k then [] else if j = INIT then nd_kids w @ cs else nd_kids w)"
      by (cases "n j") (auto simp: moved_def)
    have "y \<notin> set cs" if "y \<in> set (nd_kids i)" for y
      using tree_okD(4) [OF assms(1) i(1), of y] cs [of y] assms(4) that by auto
    then show ?case
      using w i(1) tree_okD(3) [OF assms(1) w(1)] tree_okD(3) [OF assms(1,2)] assms(3) by (auto split: if_splits)
  next
    case (4 j z c)
    then obtain w where w: "n j = Some w" "nd_kids z = (if j = k then [] else if j = INIT then nd_kids w @ cs else nd_kids w)"
      by (cases "n j") (auto simp: moved_def)
    have "(\<exists>v. moved k cs n c = Some v \<and> nd_par v = Some j) \<longleftrightarrow> (\<exists>v. n c = Some v \<and> (if c \<in> set cs then Some INIT else nd_par v) = Some j)"
      by (cases "n c") (auto simp: moved_def)
    then show ?case using tree_okD(4) [OF assms(1) w(1), of c] w(2) cs [of c] assms(4) by auto
  next
    case (5 c y j)
    then obtain z where z: "n c = Some z" "nd_par y = (if c \<in> set cs then Some INIT else nd_par z)" using par by blast
    then obtain w where "n j = Some w" "\<not> nd_dead w"
      using 5(2) tree_okD(5) [OF assms(1) z(1), of j] i by (cases "c \<in> set cs") auto
    then show ?case by (simp add: moved_def)
  next
    case (6 j z)
    then obtain w where w: "n j = Some w" "nd_dead w" "nd_par z = (if j \<in> set cs then Some INIT else nd_par w)"
        "nd_kids z = (if j = k then [] else if j = INIT then nd_kids w @ cs else nd_kids w)" "nd_idle z = nd_idle w"
      by (cases "n j") (auto simp: moved_def)
    have "j \<noteq> INIT" using w(1,2) i by auto
    then show ?case using tree_okD(6) [OF assms(1) w(1,2)] w(3-5) by auto
  qed
qed

lemma tree_adopts:
  "tree (fold (adopt INIT) cs s) j =
     map_option (\<lambda>x. x\<lparr>nd_par := if j \<in> set cs then Some INIT else nd_par x, nd_kids := if j = INIT then nd_kids x @ cs else nd_kids x\<rparr>) (tree s j)"
proof (induction cs arbitrary: s)
  case (Cons c cs)
  show ?case
    by (simp add: Cons.IH tree_adopt tree_linked linked_def option.map_comp comp_def) (auto intro!: map_option_cong)
next
  case Nil
  show ?case by (cases "tree s j") simp_all
qed

text \<open>A process without children and threads whose parent can wait becomes a zombie.\<close>

definition dead :: "nat \<Rightarrow> (nat \<Rightarrow> node option) \<Rightarrow> nat \<Rightarrow> node option" where
  "dead k n = n(k := map_option (\<lambda>x. x\<lparr>nd_dead := True\<rparr>) (n k))"

lemma tree_ok_dead:
  assumes "tree_ok n" "k \<noteq> INIT" "\<And>c y. n c = Some y \<Longrightarrow> nd_par y \<noteq> Some k"
    and "n k = Some x" "nd_idle x" "nd_kids x = []" "nd_par x \<noteq> None"
  shows "tree_ok (dead k n)"
proof (rule tree_okI, goal_cases)
  case (4 j z c)
  have "(\<exists>v. dead k n c = Some v \<and> nd_par v = Some j) \<longleftrightarrow> (\<exists>v. n c = Some v \<and> nd_par v = Some j)"
    using assms(4) by (auto simp: dead_def)
  then show ?case using 4 tree_okD(4) [OF assms(1), of j _ c] by (auto simp: dead_def split: if_splits)
next
  case (5 c y j)
  then have "\<exists>v. n c = Some v \<and> nd_par v = Some j" by (auto simp: dead_def split: if_splits)
  then show ?case using tree_okD(5) [OF assms(1)] assms(3) by (auto simp: dead_def)
qed (use tree_okD [OF assms(1)] assms(2,4-7) in \<open>auto simp: dead_def split: if_splits\<close>)

section \<open>Exit\<close>

lemma tree_on_info_same: "(\<And>i. p_pid (g i) = p_pid i \<and> p_state (g i) = p_state i) \<Longrightarrow> tree (on_info k g s) = tree s"
  unfolding on_info_def by (rule tree_on_proc_same) (simp add: node_def is_zombie_def)

lemma tree_leave_tty [simp]: "tree (leave_tty k s) = tree s"
  by (auto simp: leave_tty_def Let_def tree_on_proc_same node_def is_zombie_def split: option.split)

lemma tree_Some: "tree s k = Some x \<longleftrightarrow> (\<exists>p. lookup k s = Some p \<and> x = node p)"
  by (auto simp: tree_def)

lemma tree_None: "tree s k = None \<longleftrightarrow> lookup k s = None"
  by (simp add: tree_def)

lemma tree_reparent:
  assumes "tree_ok (tree s)" "k \<noteq> INIT" "lookup k s = Some p"
  shows "tree (reparent k s) = moved k (pr_children p) (tree s)"
proof
  fix j
  let ?s = "on_proc k (\<lambda>p. p\<lparr>pr_children := []\<rparr>) s"
  have t: "tree ?s i = map_option (\<lambda>x. if i = k then x\<lparr>nd_kids := []\<rparr> else x) (tree s i)" for i
    by (simp add: tree_on_proc) (auto simp: tree_def option.map_comp comp_def node_def is_zombie_def option.map_ident)
  have i: "lookup INIT ?s \<noteq> None"
    using tree_okD(2) [OF assms(1)] assms(2) by (auto simp: lookup_on_proc tree_Some)
  show "tree (reparent k s) j = moved k (pr_children p) (tree s) j"
  proof (cases "pr_children p = []")
    case True
    then show ?thesis
      using assms(3) by (cases "tree s j") (auto simp: reparent_def Let_def t moved_def)
  next
    case False
    then have "reparent k s = fold (adopt INIT) (pr_children p) ?s"
      using i assms(3) by (simp add: reparent_def Let_def)
    then show ?thesis
      using assms(2) by (cases "tree s j") (auto simp: tree_adopts t moved_def)
  qed
qed

lemma tree_zombie: "tree (on_info k (\<lambda>i. i\<lparr>p_state := Zombie\<rparr>) s) = dead k (tree s)"
  by (rule ext) (auto simp: on_info_def lookup_on_proc dead_def tree_def option.map_comp comp_def node_def is_zombie_def)

lemma without_dead: "without k (dead k n) = without k n"
  by (auto simp: without_def dead_def fun_eq_iff)

text \<open>
  What exit makes of the tree: the children go to init, and the process is a zombie of its parent, or
  gone when it has none or the parent does not want to wait.
\<close>

definition unwaited :: "proc \<Rightarrow> bool" where
  "unwaited par \<longleftrightarrow> sa_handler (p_actions (info par) SIGCHLD) = SIG_IGN \<or> has (sa_flags (p_actions (info par) SIGCHLD)) SA_NOCLDWAIT"

text \<open>The exiting process just before its parent is told.\<close>

definition dying :: "nat \<Rightarrow> int \<Rightarrow> procs \<Rightarrow> procs" where
  "dying k code s =
     on_info k (\<lambda>i. i\<lparr>p_state := Zombie\<rparr>) (reparent k (leave_tty k (on_proc k (\<lambda>p. p\<lparr>pr_vfork_done := True\<rparr>)
       (on_info k (\<lambda>i. if p_group_exit i then i else i\<lparr>p_exit_code := push_bit 8 (code AND 0xff)\<rparr>) s))))"

lemma process_exit_dying: "process_exit k code s = notify_parent k (dying k code s)"
  by (simp add: process_exit_def dying_def Let_def)

lemma tree_dying:
  assumes "tree_ok (tree s)" "k \<noteq> INIT" "lookup k s = Some p"
  shows "tree (dying k code s) = dead k (moved k (pr_children p) (tree s))"
proof -
  let ?s = "leave_tty k (on_proc k (\<lambda>p. p\<lparr>pr_vfork_done := True\<rparr>)
       (on_info k (\<lambda>i. if p_group_exit i then i else i\<lparr>p_exit_code := push_bit 8 (code AND 0xff)\<rparr>) s))"
  have v: "tree (on_proc k (\<lambda>p. p\<lparr>pr_vfork_done := True\<rparr>) u) = tree u" for u
    by (rule tree_on_proc_same) (simp add: node_def is_zombie_def)
  have t: "tree ?s = tree s" unfolding tree_leave_tty v by (rule tree_on_info_same) simp
  have "tree ?s k = Some (node p)" unfolding t using assms(3) by (simp add: tree_def)
  then obtain p2 where p2: "lookup k ?s = Some p2" "node p2 = node p"
    unfolding tree_Some by metis
  then have "pr_children p2 = pr_children p" by (simp add: node_def)
  then show ?thesis
    using tree_reparent [OF _ assms(2) p2(1)] assms(1) unfolding dying_def tree_zombie t by simp
qed

lemma notify_parent_eq:
  assumes "lookup k s = Some p" "\<forall>q. pr_parent p = Some q \<longrightarrow> lookup q s \<noteq> None"
  shows "notify_parent k s =
    (case pr_parent p of
       None \<Rightarrow> unregister k s
     | Some q \<Rightarrow> if unwaited (the (lookup q s)) then unregister k (drop_child q k s)
               else if 0 < pr_exit_signal p then send_proc q (pr_exit_signal p) s else s)"
  using assms by (cases "pr_parent p") (auto simp: notify_parent_def parent_of_def unwaited_def Let_def)

text \<open>After the move nobody is a child of the exiting process, and its own parent is as before.\<close>

lemma moved_self:
  assumes "tree_ok n" "n k = Some x"
  shows "moved k (nd_kids x) n k = Some (x\<lparr>nd_kids := []\<rparr>)"
proof -
  have "k \<notin> set (nd_kids x)"
    using tree_okD(4) [OF assms, of k] tree_okD(1) [OF assms] assms(2) by auto
  then show ?thesis using assms(2) by (simp add: moved_def)
qed

lemma dead_kids:
  assumes "tree_ok n"
  shows "dead k n j = Some z \<Longrightarrow> c \<in> set (nd_kids z) \<longleftrightarrow> (\<exists>y. dead k n c = Some y \<and> nd_par y = Some j)"
proof -
  assume "dead k n j = Some z"
  then obtain w where w: "n j = Some w" "nd_kids z = nd_kids w" by (cases "n j") (auto simp: dead_def split: if_splits)
  have "(\<exists>y. dead k n c = Some y \<and> nd_par y = Some j) \<longleftrightarrow> (\<exists>y. n c = Some y \<and> nd_par y = Some j)"
    by (cases "n c") (auto simp: dead_def)
  then show ?thesis using tree_okD(4) [OF assms w(1), of c] w(2) by simp
qed

lemma tree_process_exit:
  assumes "tree_ok (tree s)" "k \<noteq> INIT" "lookup k s = Some p"
  defines "m \<equiv> moved k (pr_children p) (tree s)"
  shows "if pr_parent p = None then tree (process_exit k code s) = without k m
    else tree (process_exit k code s) = without k m \<or> tree (process_exit k code s) = dead k m"
proof -
  let ?s = "dying k code s"
  have n: "tree s k = Some (node p)" "nd_kids (node p) = pr_children p" using assms(3) by (simp_all add: tree_def node_def)
  have t: "tree ?s = dead k m" using tree_dying [OF assms(1-3)] by (simp add: m_def)
  have mk: "m k = Some ((node p)\<lparr>nd_kids := []\<rparr>)" using moved_self [OF assms(1) n(1)] n(2) by (simp add: m_def)
  have ok: "tree_ok m" and nopar: "\<And>c y. m c = Some y \<Longrightarrow> nd_par y \<noteq> Some k"
    using tree_ok_moved [OF assms(1) n assms(2)] by (simp_all add: m_def)
  obtain p3 where p3: "lookup k ?s = Some p3" "pr_parent p3 = pr_parent p" "nd_par (node p3) = pr_parent p"
    using fun_cong [OF t, of k] mk by (auto simp: dead_def tree_def node_def)
  have k3: "tree ?s k = Some (node p3)" using p3(1) by (simp add: tree_def)
  have kids: "\<forall>j z c. tree ?s j = Some z \<longrightarrow> (c \<in> set (nd_kids z) \<longleftrightarrow> (\<exists>y. tree ?s c = Some y \<and> nd_par y = Some j))"
    unfolding t using dead_kids [OF ok] by blast
  have np: "\<forall>c y. tree ?s c = Some y \<longrightarrow> nd_par y \<noteq> Some k"
  proof (intro allI impI)
    fix c y assume c: "tree ?s c = Some y"
    obtain w where "m c = Some w" "nd_par y = nd_par w" using c by (cases "m c") (auto simp: t dead_def split: if_splits)
    then show "nd_par y \<noteq> Some k" using nopar by simp
  qed
  note leaf = tree_unregister_leaf [of ?s k "node p3", OF kids np k3]
  have "lookup q ?s \<noteq> None" if "pr_parent p3 = Some q" for q
    using tree_okD(5) [OF ok mk, of q] that p3(2,3) fun_cong [OF t, of q] by (auto simp: dead_def tree_def node_def split: if_splits)
  then have par: "\<forall>q. pr_parent p3 = Some q \<longrightarrow> lookup q ?s \<noteq> None" by blast
  show ?thesis
  proof (cases "pr_parent p")
    case None
    then have "notify_parent k ?s = unregister k ?s" using notify_parent_eq [OF p3(1) par] p3(2) by simp
    then show ?thesis using leaf(2) p3 None by (simp add: process_exit_dying t without_dead)
  next
    case (Some q)
    then have "tree (notify_parent k ?s) = tree (unregister k (drop_child q k ?s)) \<or> tree (notify_parent k ?s) = tree ?s"
      using notify_parent_eq [OF p3(1) par] p3(2) by simp
    then show ?thesis using leaf(1) [of q] p3(3) Some by (simp add: process_exit_dying t without_dead)
  qed
qed

lemma process_exit_ok:
  assumes "tree_ok (tree s)" "k \<noteq> INIT" "lookup k s = Some p" "threads p = []"
  shows "tree_ok (tree (process_exit k code s))"
proof -
  let ?m = "moved k (pr_children p) (tree s)"
  have n: "tree s k = Some (node p)" "nd_kids (node p) = pr_children p" using assms(3) by (simp_all add: tree_def node_def)
  have ok: "tree_ok ?m" and nopar: "\<And>c y. ?m c = Some y \<Longrightarrow> nd_par y \<noteq> Some k"
    using tree_ok_moved [OF assms(1) n assms(2)] by simp_all
  have mk: "?m k = Some ((node p)\<lparr>nd_kids := []\<rparr>)" using moved_self [OF assms(1) n(1)] n(2) by simp
  have "tree_ok (without k ?m)" using tree_ok_without [OF ok assms(2)] nopar by blast
  moreover have "tree_ok (dead k ?m)" if "pr_parent p \<noteq> None"
    using tree_ok_dead [OF ok assms(2) nopar mk] assms(4) that by (simp add: node_def)
  ultimately show ?thesis
    using tree_process_exit [OF assms(1-3), of code] by (cases "pr_parent p") auto
qed

section \<open>Runs\<close>

lemma tree_ok_idle:
  assumes "tree_ok n" "n k = Some x" "\<not> nd_dead x"
  shows "tree_ok (n(k := Some (x\<lparr>nd_idle := i\<rparr>)))" (is "tree_ok ?n")
proof (rule tree_okI, goal_cases)
  case (4 j z c)
  have "(\<exists>y. ?n c = Some y \<and> nd_par y = Some j) \<longleftrightarrow> (\<exists>y. n c = Some y \<and> nd_par y = Some j)" using assms(2) by auto
  moreover obtain w where "n j = Some w" "nd_kids z = nd_kids w" using 4 assms(2) by (auto split: if_splits)
  ultimately show ?case using tree_okD(4) [OF assms(1), of j w c] by simp
next
  case (5 c y j)
  obtain w where "n c = Some w" "nd_par w = Some j" using 5 assms(2) by (auto split: if_splits)
  then show ?case using tree_okD(5) [OF assms(1)] assms(2,3) by fastforce
qed (use tree_okD [OF assms(1)] assms(2,3) in \<open>auto split: if_splits\<close>)

lemma tree_set_threads:
  "lookup k s = Some p \<Longrightarrow> tree (on_proc k (\<lambda>p. p\<lparr>pr_sig := (info p, ts)\<rparr>) s) = (tree s)(k := Some ((node p)\<lparr>nd_idle := (ts = [])\<rparr>))"
  by (rule ext) (auto simp: tree_on_proc node_def is_zombie_def)

lemma tree_add_thread:
  "lookup k s = Some p \<Longrightarrow> tree (add_thread k t s) = (tree s)(k := Some ((node p)\<lparr>nd_idle := False\<rparr>))"
  by (rule ext) (auto simp: add_thread_def tree_on_proc node_def is_zombie_def)

text \<open>A process whose last thread is gone is a zombie or out of the table.\<close>

definition init_alive :: "procs \<Rightarrow> bool" where
  "init_alive s \<longleftrightarrow> (\<exists>p. lookup INIT s = Some p \<and> \<not> is_zombie p)"

lemma notify_parent_dead:
  assumes "tree (notify_parent k u) k = Some y" "\<And>x. tree u k = Some x \<Longrightarrow> nd_dead x"
  shows "nd_dead y"
  using assms by (auto simp: notify_parent_def Let_def tree_unregister split: option.splits if_splits)

lemma process_exit_dead:
  assumes "tree (process_exit k code s) k = Some y"
  shows "nd_dead y"
proof -
  have "nd_dead x" if "tree (dying k code s) k = Some x" for x
    using that by (auto simp: dying_def tree_zombie dead_def)
  then show ?thesis using assms unfolding process_exit_dying by (rule notify_parent_dead [rotated])
qed

lemma task_exit_ok:
  assumes "tree_ok (tree s)" "k \<noteq> INIT \<or> init_alive (task_exit k i code s)" "lookup k s = Some p" "\<not> is_zombie p"
  shows "tree_ok (tree (task_exit k i code s))"
proof -
  define ts where "ts = take i (threads p) @ drop (Suc i) (threads p)"
  let ?s = "on_proc k (\<lambda>p. p\<lparr>pr_sig := (info p, ts)\<rparr>) s"
  have k0: "k \<noteq> 0" using tree_okD(1) [OF assms(1), of k "node p"] assms(3) by (simp add: tree_def)
  have ok: "tree_ok (tree ?s)"
    unfolding tree_set_threads [OF assms(3)] using assms(3,4) by (intro tree_ok_idle [OF assms(1)]) (simp_all add: tree_def node_def)
  have "tree_ok (tree (process_exit k code ?s))" if "ts = []"
  proof -
    have "lookup k ?s = Some (p\<lparr>pr_sig := (info p, ts)\<rparr>)" using assms(3) by (simp add: lookup_on_proc)
    moreover have "k \<noteq> INIT"
    proof
      assume k: "k = INIT"
      have "task_exit k i code s = process_exit k code ?s"
        using k0 assms(3) that by (simp add: task_exit_def Let_def ts_def [symmetric])
      then obtain y where "tree (process_exit k code ?s) k = Some y" "\<not> nd_dead y"
        using assms(2) k by (auto simp: init_alive_def tree_def node_def)
      then show False using process_exit_dead by blast
    qed
    ultimately show ?thesis using process_exit_ok [OF ok, of k _ code] that by simp
  qed
  then show ?thesis using ok k0 assms(3) by (simp add: task_exit_def Let_def ts_def [symmetric])
qed

lemma alloc_pid_fresh:
  assumes "alloc_pid used nx = Some (pid, nxt)" "1 \<le> nx"
  shows "\<not> used pid \<and> 1 \<le> pid \<and> pid < 4000000 \<and> nxt = pid + 1"
proof -
  have "1 \<le> nx \<longrightarrow> \<not> used (fst (pid, nxt)) \<and> 1 \<le> fst (pid, nxt) \<and> fst (pid, nxt) < 4000000 \<and> snd (pid, nxt) = fst (pid, nxt) + 1"
  proof (rule alloc_pid.raw_induct [where P = "\<lambda>u n r. 1 \<le> n \<longrightarrow> \<not> u (fst r) \<and> 1 \<le> fst r \<and> fst r < 4000000 \<and> snd r = fst r + 1", OF _ assms(1)])
    fix f :: "(nat \<Rightarrow> bool) \<Rightarrow> nat \<Rightarrow> (nat \<times> nat) option" and u n r
    assume IH: "\<And>u n r. f u n = Some r \<Longrightarrow> 1 \<le> n \<longrightarrow> \<not> u (fst r) \<and> 1 \<le> fst r \<and> fst r < 4000000 \<and> snd r = fst r + 1"
      and "(if 4000000 \<le> n then f u 2 else if \<not> u n then Some (n, n + 1) else f u (n + 1)) = Some r"
    then show "1 \<le> n \<longrightarrow> \<not> u (fst r) \<and> 1 \<le> fst r \<and> fst r < 4000000 \<and> snd r = fst r + 1"
      using IH [of u 2 r] IH [of u "n + 1" r] by (auto split: if_splits)
  qed
  then show ?thesis using assms(2) by simp
qed

lemma new_process_tree:
  assumes "new_process s = Some (pid, s')" "1 \<le> ps_next s" "tree_ok (tree s)"
  shows "tree s pid = None" "pid \<noteq> 0" "pid \<noteq> INIT" "pid < 4000000" "1 \<le> ps_next s'"
    and "tree s' = (tree s)(pid := Some \<lparr>nd_pid = pid, nd_par = None, nd_kids = [], nd_dead = False, nd_idle = True\<rparr>)"
    and "lookup pid s' = Some (raw pid)" "\<And>j. j \<noteq> pid \<Longrightarrow> lookup j s' = lookup j s"
proof -
  obtain nxt where a: "alloc_pid (\<lambda>pid. lookup pid s \<noteq> None) (ps_next s) = Some (pid, nxt)"
    and s': "s' = s\<lparr>ps_table := AList.update pid (raw pid) (ps_table s), ps_next := nxt\<rparr>"
    using assms(1) by (auto simp: new_process_def)
  note f = alloc_pid_fresh [OF a assms(2)]
  show "pid \<noteq> 0" "pid < 4000000" "1 \<le> ps_next s'" using f s' by auto
  show n: "tree s pid = None" using f by (simp add: tree_None)
  then show "pid \<noteq> INIT" using tree_okD(2) [OF assms(3)] by auto
  show l: "lookup pid s' = Some (raw pid)" and "\<And>j. j \<noteq> pid \<Longrightarrow> lookup j s' = lookup j s"
    by (simp_all add: s' lookup_def update_conv')
  then show "tree s' = (tree s)(pid := Some \<lparr>nd_pid = pid, nd_par = None, nd_kids = [], nd_dead = False, nd_idle = True\<rparr>)"
    by (auto simp: fun_eq_iff tree_def node_def raw_def is_zombie_def)
qed

definition procs_inv :: "procs \<Rightarrow> bool" where
  "procs_inv s \<longleftrightarrow> tree_ok (tree s) \<and> 1 \<le> ps_next s"

lemma next_simps [simp]:
  "ps_next (on_proc k g s) = ps_next s" "ps_next (on_info k gi s) = ps_next s" "ps_next (unregister k s) = ps_next s"
  "ps_next (add_child q c s) = ps_next s" "ps_next (drop_child q c s) = ps_next s" "ps_next (send_proc k n s) = ps_next s"
  "ps_next (send_pgrp pg n s) = ps_next s" "ps_next (on_tty i h s) = ps_next s" "ps_next (add_thread k t s) = ps_next s"
  by (simp_all add: on_proc_def on_info_def unregister_def add_child_def drop_child_def send_proc_def send_pgrp_def on_tty_def add_thread_def)

lemma next_adopts [simp]: "ps_next (fold (adopt q) cs s) = ps_next s"
proof (induction cs arbitrary: s)
  case (Cons c cs)
  have "ps_next (adopt q c s) = ps_next s" by (simp add: adopt_def Let_def split: option.split)
  with Cons show ?case by simp
qed simp

lemma next_leave_tty [simp]: "ps_next (leave_tty k s) = ps_next s"
  by (simp add: leave_tty_def Let_def split: option.split)

lemma next_reparent [simp]: "ps_next (reparent k s) = ps_next s"
  by (simp add: reparent_def Let_def split: option.split)

lemma next_notify_parent [simp]: "ps_next (notify_parent k s) = ps_next s"
  by (simp add: notify_parent_def Let_def split: option.split)

lemma next_process_exit [simp]: "ps_next (process_exit k code s) = ps_next s"
  unfolding process_exit_dying dying_def by simp

lemma next_exit [simp]: "ps_next (task_exit k i code s) = ps_next s"
  by (simp add: task_exit_def Let_def split: option.split)

lemma do_clone_inv:
  assumes "procs_inv s" "lookup me s = Some par" "\<not> is_zombie par" "do_clone me t flags sig mem_ok tid_ok tid s = Some (r, s')"
  shows "procs_inv s'"
proof -
  have ok: "tree_ok (tree s)" "1 \<le> ps_next s" using assms(1) by (simp_all add: procs_inv_def)
  have th: "procs_inv (add_thread k t u)" if "procs_inv u" "lookup k u = Some p" "\<not> is_zombie p" for k t u p
    using tree_ok_idle [of "tree u" k "node p" False] that by (simp add: procs_inv_def tree_add_thread) (simp add: tree_def node_def)
  consider "s' = s" | "s' = add_thread me (cloned_task t) s" | pid s1 where "new_process s = Some (pid, s1)" "s' = s1"
    | pid s1 q where "new_process s = Some (pid, s1)" "q = clone_parent flags me par (on_proc pid (inherit par sig) s1)"
        "s' = add_child q pid (on_proc pid (inherit par sig) s1) \<or> s' = add_thread pid (cloned_task t) (add_child q pid (on_proc pid (inherit par sig) s1))"
    using assms(2,4) unfolding do_clone_def Let_def by (auto split: if_splits)
  then show ?thesis
  proof cases
    case 1
    then show ?thesis using assms(1) by simp
  next
    case 2
    then show ?thesis using th [OF assms(1-3)] by simp
  next
    case (3 pid s1)
    note n = new_process_tree [OF 3(1) ok(2,1)]
    show ?thesis using 3(2) n(5) tree_ok_new [OF ok(1) n(1,2), of True] by (simp add: procs_inv_def n(6))
  next
    case (4 pid s1 q)
    note n = new_process_tree [OF 4(1) ok(2,1)]
    let ?u = "on_proc pid (inherit par sig) s1"
    let ?v = "add_child q pid ?u"
    have inh: "node (inherit par sig p) = node p" for p by (simp add: node_def inherit_def is_zombie_def)
    have tu: "tree ?u = tree s1" by (rule tree_on_proc_same) (rule inh)
    have oku: "tree_ok (tree ?u)" unfolding tu n(6) by (rule tree_ok_new [OF ok(1) n(1,2)])
    have me: "tree s me = Some (node par)" "me \<noteq> pid" using assms(2) n(1) by (auto simp: tree_def)
    have q: "\<exists>x. tree s q = Some x \<and> \<not> nd_dead x"
    proof (cases "q = me")
      case True
      then show ?thesis using me assms(3) by (simp add: node_def)
    next
      case False
      then have "pr_parent par = Some q" using 4(2) by (auto simp: clone_parent_def parent_of_def split: option.splits if_splits)
      then show ?thesis using tree_okD(5) [OF ok(1) me(1)] by (simp add: node_def)
    qed
    then obtain x where x: "tree s q = Some x" "\<not> nd_dead x" by blast
    have "q \<noteq> pid" using x n(1) by auto
    then have okv: "tree_ok (tree ?v)"
      unfolding tree_linked using tree_ok_linked [OF oku, of q x pid] x n(3) by (simp add: tu n(6))
    have pv: "lookup pid ?v = Some ((inherit par sig (raw pid))\<lparr>pr_parent := Some q\<rparr>)"
      using n(7) \<open>q \<noteq> pid\<close> by (simp add: add_child_def lookup_on_proc)
    have "\<not> is_zombie ((inherit par sig (raw pid))\<lparr>pr_parent := Some q\<rparr>)" by (simp add: inherit_def raw_def is_zombie_def)
    then show ?thesis using 4(3) okv n(5) th [OF _ pv] by (auto simp: procs_inv_def)
  qed
qed

lemma waited_for_child:
  "(k, c) \<in> set (waited_for which p ks s) \<longleftrightarrow> k \<in> set ks \<and> lookup k s = Some c \<and> child_matches c which p"
  unfolding waited_for_def by (induction ks) (auto simp: map_filter_simps split: option.splits)

lemma wait_try_Reports:
  assumes "wait_try cpu me which opts s = Reports r s'"
  obtains p k c where "lookup me s = Some p" "k \<in> set (pr_children p)" "lookup k s = Some c" "child_matches c which p"
    "child_ready opts c" "report cpu me opts k c s = (r, s')"
proof -
  obtain p where p: "lookup me s = Some p" using assms by (cases "lookup me s") (auto simp: wait_try_def)
  obtain k c where f: "List.find (\<lambda>(k, c). child_ready opts c) (waited_for which p (pr_children p) s) = Some (k, c)"
    and r: "report cpu me opts k c s = (r, s')"
    using assms p by (auto simp: wait_try_def Let_def split: option.splits prod.splits if_splits)
  have "(k, c) \<in> set (waited_for which p (pr_children p) s)" "child_ready opts c"
    using f by (auto simp: find_Some_iff in_set_conv_nth)
  then show ?thesis using that p r by (auto simp: waited_for_child)
qed

lemma reap_inv:
  assumes "procs_inv s" "lookup me s = Some p" "k \<in> set (pr_children p)" "lookup k s = Some c" "is_zombie c"
  shows "tree (unregister k (drop_child me k s)) = without k (tree s)" "procs_inv (unregister k (drop_child me k s))"
proof -
  have ok: "tree_ok (tree s)" using assms(1) by (simp add: procs_inv_def)
  have k: "tree s k = Some (node c)" "nd_dead (node c)" using assms(4,5) by (simp_all add: tree_def node_def)
  have par: "nd_par (node c) = Some me"
    using tree_okD(4) [OF ok, of me "node p" k] assms(2,3) k(1) by (auto simp: tree_def node_def)
  have "k \<noteq> INIT" using tree_okD(2) [OF ok] k by auto
  moreover have np: "\<forall>d y. tree s d = Some y \<longrightarrow> nd_par y \<noteq> Some k"
    using tree_okD(5) [OF ok, of _ _ k] k by fastforce
  ultimately have "tree_ok (without k (tree s))" using tree_ok_without [OF ok] by blast
  moreover have "\<forall>j z c. tree s j = Some z \<longrightarrow> (c \<in> set (nd_kids z) \<longleftrightarrow> (\<exists>y. tree s c = Some y \<and> nd_par y = Some j))"
    using tree_okD(4) [OF ok] by blast
  then show t: "tree (unregister k (drop_child me k s)) = without k (tree s)"
    using tree_unregister_leaf(1) [OF _ np k(1) par] by blast
  ultimately show "procs_inv (unregister k (drop_child me k s))" using assms(1) by (simp add: procs_inv_def t)
qed

lemma wait_inv:
  assumes "procs_inv s" "wait_try cpu me which opts s = Reports r s'"
  shows "procs_inv s'"
  using assms(2)
proof (rule wait_try_Reports)
  fix p k c
  assume a: "lookup me s = Some p" "k \<in> set (pr_children p)" "lookup k s = Some c" "child_ready opts c" "report cpu me opts k c s = (r, s')"
  have i: "procs_inv (on_info k g s)" if "\<And>i. p_pid (g i) = p_pid i \<and> p_state (g i) = p_state i" for g
    using assms(1) tree_on_info_same [of g k s, OF that] by (simp add: procs_inv_def)
  show "procs_inv s'"
    using a(5) reap_inv(2) [OF assms(1) a(1-3)] assms(1) i by (auto simp: report_def split: if_splits)
qed

text \<open>
  What happens to the table: clones, exits of threads, waiting, stops and signals, changes of groups,
  sessions and terminals, of signal actions, and of the exit code of a group exit. Any process may exit, init
  included: the kernel logs the end of init and goes on.
\<close>

inductive proc_step :: "procs \<Rightarrow> procs \<Rightarrow> bool" where
  clone: "lookup me s = Some p \<Longrightarrow> \<not> is_zombie p \<Longrightarrow> do_clone me t flags sig mem_ok tid_ok tid s = Some (r, s') \<Longrightarrow> proc_step s s'"
| exit: "lookup k s = Some p \<Longrightarrow> \<not> is_zombie p \<Longrightarrow> proc_step s (task_exit k i code s)"
| exit_call: "lookup k s = Some p \<Longrightarrow> \<not> is_zombie p \<Longrightarrow> proc_step s (sys_exit k i code s)"
| wait: "wait_try cpu me which opts s = Reports r s' \<Longrightarrow> proc_step s s'"
| stop: "lookup k s = Some p \<Longrightarrow> \<not> is_zombie p \<Longrightarrow> proc_step s (stop_proc k n s)"
| signal: "proc_step s (send_proc k n s)"
| signal_group: "proc_step s (send_pgrp g n s)"
| setpgid: "proc_step s (snd (setpgid me k g s))"
| setsid: "proc_step s (snd (setsid me s))"
| take_tty: "proc_step s (set_controlling_tty me y force s)"
| drop_tty: "proc_step s (drop_controlling_tty me s)"
| sigaction: "proc_step s (on_info k (sighand_set n a) s)"
| group_exit: "proc_step s (on_info k (\<lambda>i. i\<lparr>p_group_exit := True, p_exit_code := code\<rparr>) s)"

definition boot :: procs where
  "boot = \<lparr>ps_table = [(INIT, (raw INIT)\<lparr>pr_sig := (fst (pr_sig (raw INIT)), [cloned_task demo_task])\<rparr>)], ps_next = 2, ps_ttys = (\<lambda>i. tty_new i False)\<rparr>"

lemma boot_inv: "procs_inv boot"
  by (auto simp: procs_inv_def tree_ok_def tree_def boot_def lookup_def node_def raw_def is_zombie_def INIT_def)

lemma stop_inv:
  assumes "procs_inv s" "lookup k s = Some p" "\<not> is_zombie p"
  shows "procs_inv (stop_proc k n s)"
proof -
  let ?s = "on_info k (\<lambda>i. i\<lparr>p_state := Stopped, p_stop_signal := n, p_stopped_reported := False\<rparr>) s"
  have "tree ?s = tree s"
    using assms(2,3) by (auto simp: fun_eq_iff tree_def lookup_on_info node_def is_zombie_def)
  then have "procs_inv ?s" using assms(1) by (simp add: procs_inv_def)
  then show ?thesis by (auto simp: stop_proc_def Let_def procs_inv_def split: option.split)
qed

lemma tree_group_exit:
  "tree (on_proc k (\<lambda>p. p\<lparr>pr_sig := apsnd (\<lambda>ts. map (\<lambda>(j, t). if j = i then t else post_signal SIGKILL t) (enumerate 0 ts)) (pr_sig p)\<rparr>)
     (on_info k (group_exit_code code) s)) = tree s"
proof -
  have "tree (on_proc k (\<lambda>p. p\<lparr>pr_sig := apsnd (\<lambda>ts. map (\<lambda>(j, t). if j = i then t else post_signal SIGKILL t) (enumerate 0 ts)) (pr_sig p)\<rparr>) u) = tree u" for u
    by (rule tree_on_proc_same) (simp add: node_def is_zombie_def flip: length_0_conv)
  moreover have "tree (on_info k (group_exit_code code) s) = tree s" by (rule tree_on_info_same) (simp add: group_exit_code_def)
  ultimately show ?thesis by simp
qed

lemma sys_exit_ok:
  assumes "procs_inv s" "k \<noteq> INIT \<or> init_alive (sys_exit k i code s)" "lookup k s = Some p" "\<not> is_zombie p"
  shows "procs_inv (sys_exit k i code s)"
proof -
  let ?s = "on_proc k (\<lambda>p. p\<lparr>pr_sig := apsnd (\<lambda>ts. map (\<lambda>(j, t). if j = i then t else post_signal SIGKILL t) (enumerate 0 ts)) (pr_sig p)\<rparr>)
     (on_info k (group_exit_code code) s)"
  have ok: "tree_ok (tree s)" "1 \<le> ps_next s" using assms(1) by (simp_all add: procs_inv_def)
  obtain q where q: "lookup k ?s = Some q" "\<not> is_zombie q"
    using assms(3,4) by (simp add: lookup_on_proc lookup_on_info is_zombie_def group_exit_code_def)
  have e: "sys_exit k i code s = (if length (threads p) \<le> 1 then task_exit k i code ?s else task_exit k i code s)"
    using assms(3) by (simp add: sys_exit_def exit_group_def)
  have "tree_ok (tree (task_exit k i code ?s))" if "length (threads p) \<le> 1"
    using task_exit_ok [OF _ _ q, of i code] ok(1) assms(2) e that unfolding tree_group_exit by simp
  moreover have "tree_ok (tree (task_exit k i code s))" if "\<not> length (threads p) \<le> 1"
    using task_exit_ok [OF ok(1) _ assms(3,4), of i code] assms(2) e that by simp
  ultimately show ?thesis using ok(2) unfolding e by (simp add: procs_inv_def)
qed

lemma procs_inv_tree: "procs_inv s \<Longrightarrow> tree s' = tree s \<Longrightarrow> ps_next s' = ps_next s \<Longrightarrow> procs_inv s'"
  by (simp add: procs_inv_def)

lemma proc_step_inv: "proc_step s s' \<Longrightarrow> init_alive s' \<Longrightarrow> procs_inv s \<Longrightarrow> procs_inv s'"
proof (induction rule: proc_step.induct)
  case (clone me s p t flags sig mem_ok tid_ok tid r s')
  then show ?case using do_clone_inv by blast
next
  case (wait cpu me which opts s r s')
  then show ?case using wait_inv by blast
next
  case (stop k s p n)
  then show ?case using stop_inv by blast
next
  case (exit k s p i code)
  then show ?case using task_exit_ok [where s = s and k = k and p = p and i = i and code = code] by (simp add: procs_inv_def)
next
  case (exit_call k s p i code)
  then show ?case using sys_exit_ok by blast
next
  case (setpgid s me k g)
  have "tree (on_info j (\<lambda>p. p\<lparr>p_pgid := x\<rparr>) s) = tree s" for j x by (rule tree_on_info_same) simp
  then show ?case using setpgid by (auto simp: setpgid_def Let_def procs_inv_def split: option.split)
next
  case (setsid s me)
  have "tree (on_proc me (\<lambda>p. p\<lparr>pr_sid := me, pr_tty := None, pr_sig := apfst (\<lambda>i. i\<lparr>p_pgid := me\<rparr>) (pr_sig p)\<rparr>) s) = tree s"
    by (rule tree_on_proc_same) (simp add: node_def is_zombie_def)
  then show ?case using setsid by (auto simp: setsid_def procs_inv_def split: option.split)
next
  case (take_tty s me y force)
  have "tree (on_proc me (\<lambda>p. p\<lparr>pr_tty := Some y\<rparr>) u) = tree u" for u by (rule tree_on_proc_same) (simp add: node_def is_zombie_def)
  then show ?case using take_tty by (auto simp: set_controlling_tty_def Let_def procs_inv_def split: option.split)
next
  case (drop_tty s me)
  have "tree (on_proc me (\<lambda>p. p\<lparr>pr_tty := None\<rparr>) s) = tree s" by (rule tree_on_proc_same) (simp add: node_def is_zombie_def)
  then show ?case using drop_tty by (simp add: drop_controlling_tty_def procs_inv_def)
next
  case (sigaction s k n a)
  have "tree (on_info k (sighand_set n a) s) = tree s" by (rule tree_on_info_same) (simp add: sighand_set_def)
  then show ?case using sigaction by (simp add: procs_inv_def)
next
  case (group_exit s k code)
  have "tree (on_info k (\<lambda>i. i\<lparr>p_group_exit := True, p_exit_code := code\<rparr>) s) = tree s" by (rule tree_on_info_same) simp
  then show ?case using group_exit by (simp add: procs_inv_def)
qed (simp_all add: procs_inv_def)

text \<open>
  C10. From the boot of the system on, for as long as init lives, whatever is cloned, exits, is waited for, signalled or
  moved between groups and sessions, the processes form a consistent tree: the children a process lists are exactly
  those that name it as their parent; a parent is always alive, so nobody is left to a process that is gone; and every
  zombie has a living parent that can still collect its status. Nothing is claimed of what follows the exit of init.
\<close>

theorem process_tree_consistent:
  assumes "(\<lambda>s s'. proc_step s s' \<and> init_alive s')\<^sup>*\<^sup>* boot s"
  shows "tree_ok (tree s)"
proof -
  from assms have "procs_inv s"
    by (induction rule: rtranclp_induct) (auto simp: boot_inv intro: proc_step_inv)
  then show ?thesis by (simp add: procs_inv_def)
qed

lemma procs_inv_init_alive: "procs_inv s \<Longrightarrow> init_alive s"
  using tree_okD(2) [of "tree s"] by (auto simp: procs_inv_def init_alive_def tree_def node_def)

section \<open>The status of a process\<close>

text \<open>What signals, terminals and the tree do not touch of a process.\<close>

definition seen :: "(process \<Rightarrow> 'a) \<Rightarrow> procs \<Rightarrow> nat \<Rightarrow> 'a option" where
  "seen f s k = map_option (\<lambda>p. f (info p)) (lookup k s)"

definition lasting :: "(process \<Rightarrow> 'a) \<Rightarrow> bool" where
  "lasting f \<longleftrightarrow> (\<forall>n pt. f (fst (send n pt)) = f (fst pt))"

lemma lasting_status: "lasting p_exit_code" "lasting p_actions" "lasting p_group_exit"
proof -
  have j: "p_exit_code (fst (job_control n pt)) = p_exit_code (fst pt) \<and> p_actions (fst (job_control n pt)) = p_actions (fst pt)
      \<and> p_group_exit (fst (job_control n pt)) = p_group_exit (fst pt)" for n pt
    by (simp add: job_control_def Let_def split: prod.split)
  have "p_exit_code (fst (send n pt)) = p_exit_code (fst pt) \<and> p_actions (fst (send n pt)) = p_actions (fst pt)
      \<and> p_group_exit (fst (send n pt)) = p_group_exit (fst pt)" for n pt
    using j [of n pt] by (cases "job_control n pt") (simp add: send_def Let_def split: option.split)
  then show "lasting p_exit_code" "lasting p_actions" "lasting p_group_exit" unfolding lasting_def by blast+
qed

lemma seen_on_proc: "(\<And>p. f (info (g p)) = f (info p)) \<Longrightarrow> seen f (on_proc k g s) = seen f s"
  by (rule ext) (simp add: seen_def lookup_on_proc option.map_comp comp_def)

lemma seen_simps [simp]:
  assumes "lasting f"
  shows "seen f (send_proc k n s) = seen f s" "seen f (send_pgrp g n s) = seen f s" "seen f (on_tty i h s) = seen f s"
    "seen f (add_child q c s) = seen f s"
proof -
  have l: "f (fst (send n pt)) = f (fst pt)" for n pt using assms unfolding lasting_def by blast
  show "seen f (send_proc k n s) = seen f s" unfolding send_proc_def by (rule seen_on_proc) (simp add: l)
  show "seen f (send_pgrp g n s) = seen f s"
    by (rule ext) (auto simp: seen_def lookup_send_pgrp option.map_comp comp_def l intro!: map_option_cong)
  show "seen f (on_tty i h s) = seen f s" by (simp add: seen_def fun_eq_iff)
  show "seen f (add_child q c s) = seen f s" unfolding add_child_def by (simp add: seen_on_proc)
qed

lemma seen_adopts [simp]: "lasting f \<Longrightarrow> seen f (fold (adopt q) cs s) = seen f s"
proof (induction cs arbitrary: s)
  case (Cons c cs)
  have "seen f (adopt q c s) = seen f s" using Cons.prems by (simp add: adopt_def Let_def split: option.split)
  with Cons show ?case by simp
qed simp

lemma seen_reparent [simp]: "lasting f \<Longrightarrow> seen f (reparent k s) = seen f s"
  by (simp add: reparent_def Let_def seen_on_proc split: option.split)

lemma seen_leave_tty [simp]: "lasting f \<Longrightarrow> seen f (leave_tty k s) = seen f s"
  by (simp add: leave_tty_def Let_def seen_on_proc split: option.split)

lemma seen_dying:
  assumes "lookup k s = Some p"
  shows "seen p_exit_code (dying k code s) k = Some (if p_group_exit (info p) then p_exit_code (info p) else push_bit 8 (code AND 0xff))"
    and "seen p_actions (dying k code s) = seen p_actions s"
proof -
  have z: "seen p_exit_code (on_info k (\<lambda>i. i\<lparr>p_state := Zombie\<rparr>) u) = seen p_exit_code u"
    "seen p_actions (on_info k (\<lambda>i. i\<lparr>p_state := Zombie\<rparr>) u) = seen p_actions u" for u
    unfolding on_info_def by (rule seen_on_proc; simp)+
  have v: "seen f (on_proc k (\<lambda>p. p\<lparr>pr_vfork_done := True\<rparr>) u) = seen f u" for f :: "process \<Rightarrow> 'x" and u
    by (rule seen_on_proc) simp
  show "seen p_exit_code (dying k code s) k = Some (if p_group_exit (info p) then p_exit_code (info p) else push_bit 8 (code AND 0xff))"
    using assms unfolding dying_def z seen_reparent [OF lasting_status(1)] seen_leave_tty [OF lasting_status(1)]
    by (simp add: seen_on_proc seen_def lookup_on_proc lookup_on_info)
  have a: "seen p_actions (on_info k (\<lambda>i. if p_group_exit i then i else i\<lparr>p_exit_code := push_bit 8 (code AND 0xff)\<rparr>) s) = seen p_actions s"
    unfolding on_info_def by (rule seen_on_proc) simp
  show "seen p_actions (dying k code s) = seen p_actions s"
    unfolding dying_def z seen_reparent [OF lasting_status(2)] seen_leave_tty [OF lasting_status(2)]
    by (simp add: seen_on_proc a)
qed

text \<open>The last thread of a process whose parent wants to know leaves a zombie with the exit code.\<close>

lemma task_exit_zombie:
  assumes inv: "procs_inv s" and k: "lookup k s = Some p" "k \<noteq> INIT" "\<not> is_zombie p" "length (threads p) = 1"
    and par: "pr_parent p = Some me" "lookup me s = Some par" "\<not> unwaited par"
  obtains c par' where "lookup k (task_exit k 0 code s) = Some c" "is_zombie c" "lookup me (task_exit k 0 code s) = Some par'"
    "k \<in> set (pr_children par')" "procs_inv (task_exit k 0 code s)"
    "p_exit_code (info c) = (if p_group_exit (info p) then p_exit_code (info p) else push_bit 8 (code AND 0xff))"
proof -
  have ok: "tree_ok (tree s)" using inv by (simp add: procs_inv_def)
  have n: "tree s k = Some (node p)" using k(1) by (simp add: tree_def)
  have k0: "k \<noteq> 0" "me \<noteq> k" using tree_okD(1) [OF ok n] par(1) by (auto simp: node_def)
  define s0 where "s0 = on_proc k (\<lambda>p. p\<lparr>pr_sig := (info p, [])\<rparr>) s"
  have e: "task_exit k 0 code s = notify_parent k (dying k code s0)"
    using k k0(1) by (simp add: task_exit_def Let_def s0_def process_exit_dying)
  let ?d = "dying k code s0"
  have t0: "tree s0 = (tree s)(k := Some ((node p)\<lparr>nd_idle := True\<rparr>))" using tree_set_threads [OF k(1), of "[]"] by (simp add: s0_def)
  have ok0: "tree_ok (tree s0)"
    unfolding t0 using k(3) by (intro tree_ok_idle [OF ok n]) (simp add: node_def)
  have i: "info (p\<lparr>pr_sig := (info p, [])\<rparr>) = info p" by simp
  have l0: "lookup k s0 = Some (p\<lparr>pr_sig := (info p, [])\<rparr>)" using k(1) by (simp add: s0_def lookup_on_proc)
  have td: "tree ?d = dead k (moved k (pr_children p) (tree s0))" using tree_dying [OF ok0 k(2) l0] by simp
  have mk: "moved k (pr_children p) (tree s0) k = Some ((node p)\<lparr>nd_idle := True, nd_kids := []\<rparr>)"
    using moved_self [OF ok0, of k "(node p)\<lparr>nd_idle := True\<rparr>"] by (simp add: t0 node_def)
  obtain c where c: "lookup k ?d = Some c" "is_zombie c" "pr_parent c = Some me"
    using fun_cong [OF td, of k] mk par(1) by (auto simp: dead_def tree_def node_def)
  have sk: "seen p_exit_code ?d k = Some (p_exit_code (info c))" using c(1) by (simp add: seen_def)
  have "seen p_actions ?d me = Some (p_actions (info par))"
    using seen_dying(2) [OF l0, of code] par(2) k0(2) by (simp add: seen_def s0_def lookup_on_proc)
  then obtain par1 where par1: "lookup me ?d = Some par1" "\<not> unwaited par1"
    using par(3) by (auto simp: seen_def unwaited_def)
  have np: "task_exit k 0 code s = (if 0 < pr_exit_signal c then send_proc me (pr_exit_signal c) ?d else ?d)"
    using notify_parent_eq [OF c(1)] c(3) par1 by (simp add: e)
  have okx: "procs_inv (task_exit k 0 code s)" using task_exit_ok [OF ok disjI1 [OF k(2)] k(1,3)] inv by (simp add: procs_inv_def)
  have lk: "lookup k (task_exit k 0 code s) = Some c" using c(1) k0(2) by (simp add: np send_proc_def lookup_on_proc)
  have "lookup me (task_exit k 0 code s) \<noteq> None" using par1(1) by (simp add: np send_proc_def lookup_on_proc)
  then obtain par' where par': "lookup me (task_exit k 0 code s) = Some par'" by blast
  have "k \<in> set (nd_kids (node par'))"
    using tree_okD(4) [of "tree (task_exit k 0 code s)" me "node par'" k] okx par' lk c(3) by (auto simp: procs_inv_def tree_def node_def)
  then have "k \<in> set (pr_children par')" by (simp add: node_def)
  moreover have "p_exit_code (info c) = (if p_group_exit (info p) then p_exit_code (info p) else push_bit 8 (code AND 0xff))"
    using sk seen_dying(1) [OF l0, of code, unfolded i] by simp
  ultimately show ?thesis using that [OF lk c(2) par'] okx by blast
qed

text \<open>A wait for one pid.\<close>

lemma find_only: "a \<in> set xs \<Longrightarrow> (\<And>x. x \<in> set xs \<Longrightarrow> x = a) \<Longrightarrow> P a \<Longrightarrow> List.find P xs = Some a"
proof -
  assume a: "a \<in> set xs" "\<And>x. x \<in> set xs \<Longrightarrow> x = a" "P a"
  obtain y ys where "xs = y # ys" using a(1) by (cases xs) auto
  then show "List.find P xs = Some a" using a(2) [of y] a(3) by simp
qed

lemma matches_pid:
  assumes "procs_inv s" "lookup j s = Some c" "0 < k" "k < 2 ^ 32"
  shows "child_matches c (int k) me \<longleftrightarrow> j = k"
proof -
  have "p_pid (info c) = j" using tree_okD(1) [of "tree s" j "node c"] assms(1,2) by (simp add: procs_inv_def tree_def node_def)
  moreover have "nat (int k mod 2 ^ 32) = k" using assms(4) by simp
  ultimately show ?thesis using assms(3) by (simp add: child_matches_def)
qed

lemma wait_zombie:
  assumes inv: "procs_inv s" and me: "lookup me s = Some par" and k: "k \<in> set (pr_children par)" "lookup k s = Some c" "is_zombie c" "k < 2 ^ 32"
  shows "wait_try cpu me (int k) opts s =
      Reports \<lparr>wr_pid = k, wr_status = p_exit_code (info c), wr_utime = 0\<rparr> (if has opts WNOWAIT then s else unregister k (drop_child me k s))"
    and "wait_try cpu me (int k) opts' (unregister k (drop_child me k s)) = NoChild"
    and "wait_ready me (int k) opts s"
proof -
  have ok: "tree_ok (tree s)" using inv by (simp add: procs_inv_def)
  have t: "tree s k = Some (node c)" using k(2) by (simp add: tree_def)
  have k0: "0 < k" "threads c = []" using tree_okD(1,6) [OF ok t] k(3) by (simp_all add: node_def)
  note m = matches_pid [OF inv _ k0(1) k(4)]
  let ?cs = "waited_for (int k) par (pr_children par) s"
  have in_cs: "(j, x) \<in> set ?cs \<longleftrightarrow> j = k \<and> x = c" for j x using k(1,2) m by (auto simp: waited_for_child)
  have f: "List.find (\<lambda>(k, c). child_ready opts c) ?cs = Some (k, c)"
    by (rule find_only) (use in_cs k(3) in \<open>auto simp: child_ready_def\<close>)
  show "wait_try cpu me (int k) opts s =
      Reports \<lparr>wr_pid = k, wr_status = p_exit_code (info c), wr_utime = 0\<rparr> (if has opts WNOWAIT then s else unregister k (drop_child me k s))"
    using me k(3) k0(2) by (simp add: wait_try_def f report_def)
  show "wait_ready me (int k) opts s"
    using me k m [OF k(2)] by (auto simp: wait_ready_def list_ex_iff child_ready_def intro!: bexI [of _ k])
  let ?s = "unregister k (drop_child me k s)"
  have inv2: "procs_inv ?s" by (rule reap_inv(2) [OF inv me k(1,2,3)])
  have "me \<noteq> k" using tree_okD(6) [OF ok t] k me by (auto simp: node_def)
  then obtain par2 where me2: "lookup me ?s = Some par2" using me by (simp add: lookup_unregister drop_child_def lookup_on_proc)
  have "lookup k ?s = None" by (simp add: lookup_unregister)
  then have "waited_for (int k) par2 (pr_children par2) ?s = []"
    using matches_pid [OF inv2 _ k0(1) k(4)] waited_for_child [of _ _ "int k" par2 "pr_children par2" ?s]
    by (metis list.set_intros(1) neq_Nil_conv option.distinct(1) surj_pair)
  then show "wait_try cpu me (int k) opts' ?s = NoChild" using me2 by (simp add: wait_try_def)
qed

lemma wait_sleeps:
  assumes "procs_inv s" "lookup me s = Some par" "k \<in> set (pr_children par)" "lookup k s = Some c" "\<not> child_ready opts c"
    and "0 < k" "k < 2 ^ 32" "\<not> has opts WNOHANG"
  shows "wait_try cpu me (int k) opts s = WaitSleep"
proof -
  let ?cs = "waited_for (int k) par (pr_children par) s"
  have cs: "(j, x) \<in> set ?cs \<longleftrightarrow> j = k \<and> x = c" for j x
    using assms(3,4) matches_pid [OF assms(1) _ assms(6,7)] by (auto simp: waited_for_child)
  then have "List.find (\<lambda>(k, c). child_ready opts c) ?cs = None" unfolding find_None_iff using assms(5) by auto
  moreover have "?cs \<noteq> []" using cs [of k c] by auto
  ultimately show ?thesis using assms(2,8) by (simp add: wait_try_def Let_def)
qed

lemma status_roundtrip:
  "waitid_info (push_bit 8 (code AND 0xff)) = (1, code AND 0xff)"
  "0 < n \<Longrightarrow> n < 0x7f \<Longrightarrow> waitid_info n = (2, n)"
proof -
  have m: "0x7f = (mask 7 :: int)" "0xff = (mask 8 :: int)" by (simp_all add: mask_eq_exp_minus_1)
  have p: "push_bit 8 x AND 0x7f = 0" "drop_bit 8 (push_bit 8 x) = x" for x :: int
    unfolding m by (simp_all flip: take_bit_eq_mask add: take_bit_push_bit drop_bit_push_bit)
  show "waitid_info (push_bit 8 (code AND 0xff)) = (1, code AND 0xff)" unfolding waitid_info_def p by (simp only: simp_thms if_True)
  have "n AND 0x7f = n mod 128" "n AND 0xff = n mod 256" unfolding m by (simp_all flip: take_bit_eq_mask add: take_bit_eq_mod)
  then show "0 < n \<Longrightarrow> n < 0x7f \<Longrightarrow> waitid_info n = (2, n)" by (simp add: waitid_info_def)
qed

text \<open>
  A parent that does not ignore \<open>SIGCHLD\<close> learns the exit code of its child exactly once: when the last thread of
  the child exits, a wait for the child that slept wakes up and reports its pid and, as \<open>waitid\<close> decodes it,
  a normal exit with the low eight bits of the code; unless only asked to look, it removes the child from
  the table, and the next wait for it finds no child.
\<close>

lemma exit_reported:
  fixes code :: int
  assumes "procs_inv s" "lookup k s = Some p" "k \<noteq> INIT" "k < 2 ^ 32" "\<not> is_zombie p" "length (threads p) = 1"
    and "pr_parent p = Some me" "lookup me s = Some par" "\<not> unwaited par"
  defines "s1 \<equiv> task_exit k 0 code s"
  shows "wait_ready me (int k) opts s1 \<and>
    (\<exists>r s2. wait_try cpu me (int k) opts s1 = Reports r s2 \<and> wr_pid r = k
       \<and> wr_status r = (if p_group_exit (info p) then p_exit_code (info p) else push_bit 8 (code AND 0xff))
       \<and> (if has opts WNOWAIT then s2 = s1
          else lookup k s2 = None \<and> procs_inv s2 \<and> tree s2 = without k (tree s1) \<and> wait_try cpu me (int k) opts s2 = NoChild))"
proof -
  obtain c par' where c: "lookup k s1 = Some c" "is_zombie c" "lookup me s1 = Some par'" "k \<in> set (pr_children par')" "procs_inv s1"
    "p_exit_code (info c) = (if p_group_exit (info p) then p_exit_code (info p) else push_bit 8 (code AND 0xff))"
    using task_exit_zombie [OF assms(1-3,5-9), of code] unfolding s1_def by metis
  note w = wait_zombie [OF c(5,3,4,1,2) assms(4)]
  define s2 where "s2 = (if has opts WNOWAIT then s1 else unregister k (drop_child me k s1))"
  define r where "r = \<lparr>wr_pid = k, wr_status = p_exit_code (info c), wr_utime = 0\<rparr>"
  have "wait_try cpu me (int k) opts s1 = Reports r s2" using w(1) [of cpu opts] by (simp add: r_def s2_def)
  moreover have "lookup k s2 = None \<and> procs_inv s2 \<and> tree s2 = without k (tree s1) \<and> wait_try cpu me (int k) opts s2 = NoChild"
    if "\<not> has opts WNOWAIT"
    using that w(2) reap_inv [OF c(5,3,4,1,2)] by (simp add: s2_def lookup_unregister)
  moreover have "wr_pid r = k" "wr_status r = p_exit_code (info c)" by (simp_all add: r_def)
  ultimately show ?thesis using w(3) c(6) by (auto simp: s2_def)
qed

section \<open>Finding a pid\<close>

text \<open>The loop of \<open>alloc_pid\<close> ends: it finds the first free number from the counter on, or from 2 on after the wrap.\<close>

lemma alloc_pid_up:
  assumes "n \<le> m" "m < 4000000" "\<not> used m" "\<forall>i. n \<le> i \<and> i < m \<longrightarrow> used i"
  shows "alloc_pid used n = Some (m, m + 1)"
  using assms
proof (induction "m - n" arbitrary: n)
  case 0
  then show ?case by (subst alloc_pid.simps) simp
next
  case (Suc d)
  then have "alloc_pid used (n + 1) = Some (m, m + 1)" by simp
  moreover have "used n" "n < 4000000" using Suc.hyps(2) Suc.prems by auto
  ultimately show ?case by (subst alloc_pid.simps) simp
qed

lemma alloc_pid_wrap:
  assumes "n \<le> 4000000" "\<forall>i. n \<le> i \<and> i < 4000000 \<longrightarrow> used i"
  shows "alloc_pid used n = alloc_pid used 2"
  using assms
proof (induction "4000000 - n" arbitrary: n)
  case 0
  then show ?case by (subst alloc_pid.simps) simp
next
  case (Suc d)
  then have "alloc_pid used (n + 1) = alloc_pid used 2" by simp
  moreover have "used n" "n < 4000000" using Suc.hyps(2) Suc.prems by auto
  ultimately show ?case by (subst alloc_pid.simps) simp
qed

lemma least_free:
  assumes "\<not> used i" "(n :: nat) \<le> i"
  obtains m where "n \<le> m" "m \<le> i" "\<not> used m" "\<forall>j. n \<le> j \<and> j < m \<longrightarrow> used j"
proof -
  let ?m = "LEAST m. n \<le> m \<and> \<not> used m"
  have "n \<le> ?m \<and> \<not> used ?m" by (rule LeastI [of _ i]) (use assms in simp)
  moreover have "?m \<le> i" by (rule Least_le) (use assms in simp)
  moreover have "\<forall>j. n \<le> j \<and> j < ?m \<longrightarrow> used j" using not_less_Least by blast
  ultimately show ?thesis using that by blast
qed

lemma alloc_pid_free:
  assumes "n \<le> i" "i < 4000000" "\<not> used i"
  shows "\<exists>m. alloc_pid used n = Some (m, m + 1) \<and> \<not> used m"
proof -
  obtain m where m: "n \<le> m" "m \<le> i" "\<not> used m" "\<forall>j. n \<le> j \<and> j < m \<longrightarrow> used j" by (rule least_free [of used i n, OF assms(3,1)])
  have "m < 4000000" using m(2) assms(2) by (rule le_less_trans)
  from alloc_pid_up [OF m(1) this m(3,4)] m(3) show ?thesis by blast
qed

lemma alloc_pid_total:
  assumes "2 \<le> i" "i < 4000000" "\<not> used i" "nx \<le> 4000000"
  shows "\<exists>m. alloc_pid used nx = Some (m, m + 1) \<and> \<not> used m"
proof (cases "\<exists>j. nx \<le> j \<and> j < 4000000 \<and> \<not> used j")
  case True
  then show ?thesis using alloc_pid_free by blast
next
  case False
  then have "\<forall>i. nx \<le> i \<and> i < 4000000 \<longrightarrow> used i" by blast
  from alloc_pid_wrap [OF assms(4) this] alloc_pid_free [of 2 i used, OF assms(1-3)] show ?thesis by (simp only:)
qed

lemma full_table:
  assumes "\<forall>i. a \<le> i \<and> i < b \<longrightarrow> lookup i s \<noteq> None"
  shows "b - a \<le> length (ps_table s)"
proof -
  have "{a..<b} \<subseteq> fst ` set (ps_table s)"
    using assms unfolding lookup_def map_of_eq_None_iff by (intro subsetI) simp
  then have "card {a..<b} \<le> card (fst ` set (ps_table s))" by (rule card_mono [rotated]) simp
  also have "\<dots> \<le> length (ps_table s)" by (meson card_image_le card_length finite_set le_trans)
  finally show ?thesis by simp
qed

lemma free_pid: "length (ps_table s) < b - a \<Longrightarrow> \<exists>i. a \<le> i \<and> i < b \<and> lookup i s = None"
  using full_table [of a b s] by fastforce

text \<open>
  Starting a process finds a pid: with fewer than 3999998 entries in the table the search ends, wherever
  the counter stands and also across its wrap-around, with a number that nobody has; the new process has
  that number and nothing else in the table changes.
\<close>

theorem new_process_finds_pid:
  assumes "length (ps_table s) < 3999998" "1 \<le> ps_next s" "ps_next s \<le> 4000000"
  shows "\<exists>pid s'. new_process s = Some (pid, s') \<and> lookup pid s = None \<and> 1 \<le> pid \<and> pid < 4000000 \<and> lookup pid s' = Some (raw pid)
    \<and> (\<forall>j. j \<noteq> pid \<longrightarrow> lookup j s' = lookup j s) \<and> 1 \<le> ps_next s' \<and> ps_next s' \<le> 4000000"
proof -
  obtain i where "2 \<le> i" "i < 4000000" "lookup i s = None" using free_pid [of s 4000000 2] assms(1) by auto
  with alloc_pid_total [of i "\<lambda>pid. lookup pid s \<noteq> None", OF _ _ _ assms(3)]
  obtain m where m: "alloc_pid (\<lambda>pid. lookup pid s \<noteq> None) (ps_next s) = Some (m, m + 1)" by blast
  note f = alloc_pid_fresh [OF m assms(2)]
  let ?s = "s\<lparr>ps_table := AList.update m (raw m) (ps_table s), ps_next := m + 1\<rparr>"
  have "new_process s = Some (m, ?s)" using m by (simp add: new_process_def)
  then show ?thesis using f by (intro exI [of _ m] exI [of _ ?s]) (auto simp: lookup_def update_conv')
qed

theorem new_process_finds_pid_witness:
  "\<exists>pid s'. new_process (boot\<lparr>ps_next := 4000000\<rparr>) = Some (pid, s') \<and> pid < 4000000 \<and> lookup pid s' = Some (raw pid)"
  using new_process_finds_pid [of "boot\<lparr>ps_next := 4000000\<rparr>"] by (auto simp: boot_def)

section \<open>Clone\<close>

text \<open>
  A fork that succeeds: the child is a process of its own with one thread, in the group and session of the
  caller, its actions copied, and the caller's child.
\<close>

lemma fork_outcome:
  assumes "lookup me s = Some par" "do_clone me t 0 sig True tid_ok tid s = Some (Inr pid, s')"
  obtains s1 where "new_process s = Some (pid, s1)" "s' = add_thread pid (cloned_task t) (add_child me pid (on_proc pid (inherit par sig) s1))"
  using assms by (auto simp: do_clone_def has_def clone_parent_def Let_def)

lemma fork_child:
  assumes inv: "procs_inv s" and me: "lookup me s = Some par" and e: "do_clone me t 0 sig True tid_ok tid s = Some (Inr pid, s')"
  shows "lookup pid s = None" "pid \<noteq> me"
    and "lookup pid s' = Some ((inherit par sig (raw pid))\<lparr>pr_parent := Some me, pr_sig := apsnd (\<lambda>ts. ts @ [cloned_task t]) (pr_sig (inherit par sig (raw pid)))\<rparr>)"
    and "lookup me s' = Some (par\<lparr>pr_children := pr_children par @ [pid]\<rparr>)"
    and "\<And>j. j \<noteq> pid \<Longrightarrow> j \<noteq> me \<Longrightarrow> lookup j s' = lookup j s"
proof -
  obtain s1 where s1: "new_process s = Some (pid, s1)" "s' = add_thread pid (cloned_task t) (add_child me pid (on_proc pid (inherit par sig) s1))"
    by (rule fork_outcome [OF me e])
  note n = new_process_tree [OF s1(1)]
  have ok: "tree_ok (tree s)" "1 \<le> ps_next s" using inv by (simp_all add: procs_inv_def)
  show p: "lookup pid s = None" using n(1) [OF ok(2,1)] by (simp add: tree_None)
  then show ne: "pid \<noteq> me" using me by auto
  have l: "lookup pid s1 = Some (raw pid)" "\<And>j. j \<noteq> pid \<Longrightarrow> lookup j s1 = lookup j s" using n(7,8) ok by auto
  show "lookup pid s' = Some ((inherit par sig (raw pid))\<lparr>pr_parent := Some me, pr_sig := apsnd (\<lambda>ts. ts @ [cloned_task t]) (pr_sig (inherit par sig (raw pid)))\<rparr>)"
    using ne l(1) by (simp add: s1(2) add_thread_def add_child_def lookup_on_proc)
  show "lookup me s' = Some (par\<lparr>pr_children := pr_children par @ [pid]\<rparr>)"
    using ne l(2) [of me] me by (simp add: s1(2) add_thread_def add_child_def lookup_on_proc)
  show "lookup j s' = lookup j s" if "j \<noteq> pid" "j \<noteq> me" for j
    using that l(2) by (simp add: s1(2) add_thread_def add_child_def lookup_on_proc)
qed

lemma task_exit_without:
  assumes "tree_ok (tree s)" "k \<noteq> INIT" "lookup k s = Some p" "\<not> is_zombie p" "length (threads p) = 1"
  shows "without k (tree (task_exit k 0 code s)) = without k (moved k (pr_children p) ((tree s)(k := Some ((node p)\<lparr>nd_idle := True\<rparr>))))"
proof -
  have n: "tree s k = Some (node p)" using assms(3) by (simp add: tree_def)
  have k0: "k \<noteq> 0" using tree_okD(1) [OF assms(1) n] by simp
  define s0 where "s0 = on_proc k (\<lambda>p. p\<lparr>pr_sig := (info p, [])\<rparr>) s"
  have e: "task_exit k 0 code s = process_exit k code s0" using assms(3,5) k0 by (simp add: task_exit_def Let_def s0_def)
  have t0: "tree s0 = (tree s)(k := Some ((node p)\<lparr>nd_idle := True\<rparr>))" using tree_set_threads [OF assms(3), of "[]"] by (simp add: s0_def)
  have ok0: "tree_ok (tree s0)" unfolding t0 using assms(4) by (intro tree_ok_idle [OF assms(1) n]) (simp add: node_def)
  have l0: "lookup k s0 = Some (p\<lparr>pr_sig := (info p, [])\<rparr>)" using assms(3) by (simp add: s0_def lookup_on_proc)
  have "without k (without k n) = without k n" for n by (auto simp: without_def fun_eq_iff option.map_comp comp_def)
  then have "without k (tree (task_exit k 0 code s)) = without k (moved k (pr_children p) (tree s0))"
    using tree_process_exit [OF ok0 assms(2) l0, of code] without_dead by (auto simp: e split: if_splits)
  then show ?thesis using t0 by simp
qed

text \<open>
  C11. The life of a child. A process forks, then waits for the child; the child exits with some code. Whatever the
  state before, the fork gives a pid nobody had, the parent sleeps in its wait until the child exits, the
  wait then reports that pid and the low eight bits of that code, and afterwards the table holds what it held
  before the fork: the child is gone and the parent has the children it had.
\<close>

theorem fork_exit_wait:
  assumes "procs_inv s" "lookup me s = Some par" "\<not> is_zombie par" "\<not> unwaited par"
    and "do_clone me t 0 sig True tid_ok tid s = Some (Inr pid, s1)" "pid < 2 ^ 32" "\<not> has opts WNOHANG" "\<not> has opts WNOWAIT"
  shows "lookup pid s = None \<and> wait cpu me (int pid) opts s1 [] = WaitAsleep s1 \<and>
    (\<exists>r s2. wait cpu me (int pid) opts s1 [WWoken (sys_exit pid 0 code s1)] = WaitDone (Inr (Some r)) s2
       \<and> wr_pid r = pid \<and> waitid_info (wr_status r) = (1, code AND 0xff) \<and> procs_inv s2 \<and> lookup pid s2 = None
       \<and> map_option nd_kids (tree s2 me) = Some (pr_children par))"
proof -
  note f = fork_child [OF assms(1,2,5)]
  have inv1: "procs_inv s1" by (rule do_clone_inv [OF assms(1-3,5)])
  let ?c = "(inherit par sig (raw pid))\<lparr>pr_parent := Some me, pr_sig := apsnd (\<lambda>ts. ts @ [cloned_task t]) (pr_sig (inherit par sig (raw pid)))\<rparr>"
  let ?par = "par\<lparr>pr_children := pr_children par @ [pid]\<rparr>"
  have c: "\<not> is_zombie ?c" "length (threads ?c) = 1" "\<not> p_group_exit (info ?c)" "pr_parent ?c = Some me" "p_state (info ?c) = Running" "\<not> p_stopped_reported (info ?c)"
    by (simp_all add: is_zombie_def inherit_def raw_def)
  have pid: "pid \<noteq> INIT" "0 < pid"
  proof -
    obtain x where "tree s INIT = Some x" using tree_okD(2) assms(1) unfolding procs_inv_def by blast
    then show "pid \<noteq> INIT" using f(1) by (auto simp: tree_def)
    show "0 < pid" using tree_okD(1) [of "tree s1" pid "node ?c"] inv1 f(3) by (simp add: procs_inv_def tree_def)
  qed
  have "\<not> child_ready opts ?c" using c by (simp add: child_ready_def stop_ready_def cont_ready_def)
  then have sl: "wait_try cpu me (int pid) opts s1 = WaitSleep"
    by (rule wait_sleeps [OF inv1 f(4) _ f(3) _ pid(2) assms(6,7), rotated]) simp
  have u: "\<not> unwaited ?par" using assms(4) by (simp add: unwaited_def)
  let ?u = "on_proc pid (\<lambda>p. p\<lparr>pr_sig := apsnd (\<lambda>ts. map (\<lambda>(j, t). if j = 0 then t else post_signal SIGKILL t) (enumerate 0 ts)) (pr_sig p)\<rparr>)
     (on_info pid (group_exit_code code) s1)"
  let ?s2 = "task_exit pid 0 code ?u"
  define d where "d = ?c\<lparr>pr_sig := (group_exit_code code (info ?c), threads ?c)\<rparr>"
  have e2: "sys_exit pid 0 code s1 = ?s2" using f(3) c(2) by (simp add: sys_exit_def exit_group_def)
  have tu: "tree ?u = tree s1" by (rule tree_group_exit)
  have invu: "procs_inv ?u" using inv1 tu by (simp add: procs_inv_def)
  have lu: "lookup pid ?u = Some d" "lookup me ?u = Some ?par"
    using f(2-4) by (simp_all add: d_def lookup_on_proc lookup_on_info inherit_def raw_def)
  have d: "\<not> is_zombie d" "length (threads d) = 1" "pr_parent d = Some me" "node d = node ?c" "pr_children d = []"
    "p_group_exit (info d)" "p_exit_code (info d) = push_bit 8 (code AND 0xff)"
    unfolding d_def by (simp_all add: is_zombie_def inherit_def raw_def group_exit_code_def node_def)
  have tk: "without pid (tree ?s2) = without pid (moved pid [] ((tree s1)(pid := Some ((node ?c)\<lparr>nd_idle := True\<rparr>))))"
    using task_exit_without [OF _ pid(1) lu(1) d(1,2), of code] invu unfolding procs_inv_def tu d(4,5) by blast
  have old: "pid \<notin> set (pr_children par)"
    using tree_okD(4) [of "tree s" me "node par" pid] assms(1,2) f(1) by (simp add: procs_inv_def tree_def node_def)
  have kids: "map_option nd_kids (without pid (tree ?s2) me) = Some (pr_children par)"
    unfolding tk using f(2,4) old by (auto simp: without_def moved_def tree_def node_def filter_id_conv)
  have as: "wait cpu me (int pid) opts s1 [] = WaitAsleep s1" by (subst wait.simps) (simp add: sl)
  from exit_reported [OF invu lu(1) pid(1) assms(6) d(1-3) lu(2) u, of opts code cpu] assms(8)
  obtain r s2 where r: "wait_try cpu me (int pid) opts ?s2 = Reports r s2" "wr_pid r = pid" "wr_status r = push_bit 8 (code AND 0xff)"
    "lookup pid s2 = None" "procs_inv s2" "tree s2 = without pid (tree ?s2)" unfolding d(7) using d(6) by auto
  have "waitid_info (wr_status r) = (1, code AND 0xff)" unfolding r(3) by (rule status_roundtrip)
  moreover have "wait cpu me (int pid) opts s1 [WWoken ?s2] = WaitDone (Inr (Some r)) s2"
    by (subst wait.simps, simp add: sl, subst wait.simps) (simp add: r(1))
  ultimately show ?thesis using f(1) as kids r by (auto simp: e2)
qed

lemma boot_clone:
  "\<exists>s1. do_clone INIT demo_task 0 17 True True 0 boot = Some (Inr 2, s1)"
  "\<exists>par. lookup INIT boot = Some par \<and> \<not> is_zombie par \<and> \<not> unwaited par"
proof -
  have "alloc_pid (\<lambda>pid. lookup pid boot \<noteq> None) 2 = Some (2, 3)"
    using alloc_pid_up [of 2 2 "\<lambda>pid. lookup pid boot \<noteq> None"] by (simp add: boot_def lookup_def INIT_def)
  moreover have "ps_next boot = 2" "lookup INIT boot \<noteq> None" by (simp_all add: boot_def lookup_def)
  ultimately show "\<exists>s1. do_clone INIT demo_task 0 17 True True 0 boot = Some (Inr 2, s1)"
    by (auto simp: do_clone_def has_def new_process_def Let_def)
  show "\<exists>par. lookup INIT boot = Some par \<and> \<not> is_zombie par \<and> \<not> unwaited par"
    by (simp add: boot_def lookup_def raw_def is_zombie_def unwaited_def SA_DEFAULT_def has_def SIG_IGN_def)
qed

theorem process_tree_consistent_witness:
  "\<exists>s1. do_clone INIT demo_task 0 17 True True 0 boot = Some (Inr 2, s1)
     \<and> tree_ok (tree s1) \<and> tree_ok (tree (sys_exit 2 0 3 s1)) \<and> tree_ok (tree (send_proc INIT 17 (sys_exit 2 0 3 s1)))"
proof -
  obtain s1 par where s1: "do_clone INIT demo_task 0 17 True True 0 boot = Some (Inr 2, s1)"
    and p: "lookup INIT boot = Some par" "\<not> is_zombie par" using boot_clone by blast
  let ?R = "\<lambda>s s'. proc_step s s' \<and> init_alive s'" and ?e = "sys_exit 2 0 3 s1"
  note c = fork_child(3) [OF boot_inv p(1) s1]
  have inv: "procs_inv s1" by (rule do_clone_inv [OF boot_inv p s1])
  have nz: "\<not> is_zombie ((inherit par 17 (raw 2))\<lparr>pr_parent := Some INIT,
      pr_sig := apsnd (\<lambda>ts. ts @ [cloned_task demo_task]) (pr_sig (inherit par 17 (raw 2)))\<rparr>)"
    by (simp add: is_zombie_def inherit_def raw_def)
  have inv2: "procs_inv ?e" by (rule sys_exit_ok [OF inv _ c nz]) (simp add: INIT_def)
  then have inv3: "procs_inv (send_proc INIT 17 ?e)" by (simp add: procs_inv_def)
  have 1: "?R boot s1" using proc_step.clone [OF p s1] procs_inv_init_alive [OF inv] by blast
  have 2: "?R s1 ?e" using proc_step.exit_call [OF c nz] procs_inv_init_alive [OF inv2] by blast
  have 3: "?R ?e (send_proc INIT 17 ?e)" using proc_step.signal procs_inv_init_alive [OF inv3] by blast
  have r1: "?R\<^sup>*\<^sup>* boot s1" using 1 by (rule r_into_rtranclp)
  have r2: "?R\<^sup>*\<^sup>* boot ?e" using r1 2 by (rule rtranclp.rtrancl_into_rtrancl)
  have r3: "?R\<^sup>*\<^sup>* boot (send_proc INIT 17 ?e)" using r2 3 by (rule rtranclp.rtrancl_into_rtrancl)
  show ?thesis
    using s1 process_tree_consistent [OF r1] process_tree_consistent [OF r2] process_tree_consistent [OF r3] by blast
qed

theorem fork_exit_wait_witness:
  "\<exists>s1 r s2. do_clone INIT demo_task 0 17 True True 0 boot = Some (Inr 2, s1)
     \<and> wait (\<lambda>_. 0) INIT 2 0 s1 [WWoken (sys_exit 2 0 0x103 s1)] = WaitDone (Inr (Some r)) s2 \<and> wr_pid r = 2 \<and> waitid_info (wr_status r) = (1, 3)"
proof -
  obtain s1 par where s1: "do_clone INIT demo_task 0 17 True True 0 boot = Some (Inr 2, s1)"
    and p: "lookup INIT boot = Some par" "\<not> is_zombie par" "\<not> unwaited par" using boot_clone by blast
  from fork_exit_wait [OF boot_inv p s1, of 0 "\<lambda>_. 0" "0x103"] s1 show ?thesis by (auto simp: has_def)
qed

section \<open>What goes wrong\<close>

text \<open>
  A fork that has no memory for the copy leaves the new process in the table: it has no threads and no
  parent, so it never exits and nobody can wait for it.
\<close>

theorem failed_fork_leaks:
  assumes "procs_inv s" "lookup me s = Some par" "new_process s = Some (pid, s1)"
  shows "\<exists>s'. do_clone me t 0 sig False tid_ok tid s = Some (Inl ENOMEM, s') \<and> lookup pid s = None \<and> lookup pid s' = Some (raw pid)"
  using assms new_process_tree(1,7) [OF assms(3)] by (auto simp: do_clone_def has_def procs_inv_def tree_None)

text \<open>
  A clone that cannot write the number of the new thread to the caller returns an error after it made
  the process a child of the caller: the caller has a child without threads, for which it waits for ever.
\<close>

theorem failed_settid_leaves_child:
  assumes "procs_inv s" "lookup me s = Some par" "\<not> is_zombie par" "new_process s = Some (pid, s1)" "pid < 2 ^ 32"
  shows "\<exists>s'. do_clone me t CLONE_PARENT_SETTID sig True False tid s = Some (Inl EFAULT, s') \<and> wait cpu me (int pid) 0 s' [] = WaitAsleep s'"
proof -
  let ?s = "add_child me pid (on_proc pid (inherit par sig) s1)"
  have "CLONE_PARENT_SETTID AND CLONE_NEW_MASK = 0" "CLONE_PARENT_SETTID AND CLONE_THREAD = 0" "CLONE_PARENT_SETTID AND CLONE_VM = 0"
    "CLONE_PARENT_SETTID AND CLONE_PARENT = 0" "CLONE_PARENT_SETTID AND CLONE_PARENT_SETTID \<noteq> 0" by code_simp+
  then have e: "do_clone me t CLONE_PARENT_SETTID sig True False tid s = Some (Inl EFAULT, ?s)"
    using assms(2,4) by (simp add: do_clone_def has_def clone_parent_def Let_def)
  have inv: "procs_inv ?s" by (rule do_clone_inv [OF assms(1-3) e])
  note n = new_process_tree [OF assms(4)]
  have pre: "1 \<le> ps_next s" "tree_ok (tree s)" using assms(1) by (simp_all add: procs_inv_def)
  have ne: "pid \<noteq> me" using n(1) [OF pre] assms(2) by (auto simp: tree_def)
  let ?c = "(inherit par sig (raw pid))\<lparr>pr_parent := Some me\<rparr>"
  let ?p = "par\<lparr>pr_children := pr_children par @ [pid]\<rparr>"
  have l: "lookup pid ?s = Some ?c" "lookup me ?s = Some ?p"
    using n(7,8) [OF pre] ne assms(2) by (simp_all add: add_child_def lookup_on_proc)
  have "\<not> child_ready 0 ?c" by (simp add: child_ready_def stop_ready_def cont_ready_def is_zombie_def inherit_def raw_def has_def)
  then have "wait_try cpu me (int pid) 0 ?s = WaitSleep"
    using wait_sleeps [OF inv l(2) _ l(1), of 0 cpu] n(2) [OF pre] assms(5) by (simp add: has_def)
  then show ?thesis using e by (subst wait.simps) auto
qed

text \<open>
  The processor time of a child that exited is always reported as zero: it is summed over threads that are
  gone. A \<open>waitid\<close> for the process group 1 is one for any child, and one that does not ask for exits
  collects them all the same.
\<close>

theorem no_processor_time:
  assumes "procs_inv s" "wait_try cpu me which opts s = Reports r s'"
  shows "wr_utime r = 0"
  using assms(2)
proof (rule wait_try_Reports)
  fix p k c
  assume c: "lookup k s = Some c" "report cpu me opts k c s = (r, s')"
  have "threads c = []" if "is_zombie c"
    using tree_okD(6) [of "tree s" k "node c"] assms(1) c(1) that by (simp add: procs_inv_def tree_def node_def)
  then show ?thesis using c(2) by (auto simp: report_def split: if_splits)
qed

theorem waitid_group_one: "waitid_args 2 1 WEXITED = Inr (-1, 0)" "waitid_args 0 0 WCONTINUED = Inr (-1, WCONTINUED)"
  by code_simp+

end
