(* ===== verification/Sched.thy ===== *)
theory Sched
  imports Mindos_Prelude
begin

text \<open>
  Scheduling, src/research/kernel-rs/kernel/src/sched/: the run queue and the switch (mod.rs), sleep timers
  (timer.rs), wait queues and poll tables (wait.rs), the sleeping mutex (mutex.rs).

  The kernel has one processor and is not preemptible: the running task leaves the processor only in
  \<open>schedule\<close>. Between any two of its steps an interrupt may run, which wakes tasks but does not switch. A
  state is what the scheduler keeps; registers, stacks, address spaces and the accounting of time are left
  out.
\<close>

section \<open>Tasks and the run queue\<close>

datatype task_state = Runnable | Running | Blocked | Zombie

record thread =
  th_state :: task_state
  th_on_rq :: bool
  th_idle :: bool
  th_slice :: nat
  th_interruptible :: bool
  th_timed_out :: bool
  th_deadline :: nat

record cpu =
  cp_tasks :: "nat \<Rightarrow> thread"
  cp_queue :: "nat list"
  cp_current :: nat
  cp_idle :: nat
  cp_resched :: bool
  cp_sleepers :: "(nat \<times> nat) list"
  cp_wqs :: "nat \<Rightarrow> nat list"

definition DEFAULT_SLICE :: nat where "DEFAULT_SLICE = 5"

definition on_task :: "nat \<Rightarrow> (thread \<Rightarrow> thread) \<Rightarrow> cpu \<Rightarrow> cpu" where
  "on_task t g s = s\<lparr>cp_tasks := (cp_tasks s)(t := g (cp_tasks s t))\<rparr>"

definition state_of :: "cpu \<Rightarrow> nat \<Rightarrow> task_state" where
  "state_of s t = th_state (cp_tasks s t)"

definition set_state :: "nat \<Rightarrow> task_state \<Rightarrow> cpu \<Rightarrow> cpu" where
  "set_state t x s = on_task t (\<lambda>h. h\<lparr>th_state := x\<rparr>) s"

definition push_task :: "nat \<Rightarrow> cpu \<Rightarrow> cpu" where
  "push_task t s = s\<lparr>cp_queue := cp_queue s @ [t]\<rparr>"

definition wake :: "nat \<Rightarrow> cpu \<Rightarrow> cpu" where
  "wake t s =
     (if state_of s t = Zombie then s
      else
        (let was = th_on_rq (cp_tasks s t);
             s = on_task t (\<lambda>h. h\<lparr>th_state := Runnable, th_on_rq := True\<rparr>) s
         in if \<not> was \<and> t \<noteq> cp_current s then push_task t s
            else if t \<noteq> cp_current s \<and> t \<notin> set (cp_queue s) then push_task t s
            else s))"

definition enqueue :: "nat \<Rightarrow> cpu \<Rightarrow> cpu" where
  "enqueue t s = push_task t (on_task t (\<lambda>h. h\<lparr>th_state := Runnable, th_on_rq := True\<rparr>) s)"

fun pick_loop :: "nat list \<Rightarrow> cpu \<Rightarrow> nat option \<times> cpu" where
  "pick_loop [] s = (None, s\<lparr>cp_queue := []\<rparr>)"
| "pick_loop (t # q) s =
     (let s = on_task t (\<lambda>h. h\<lparr>th_on_rq := False\<rparr>) s
      in if state_of s t = Runnable then (Some t, s\<lparr>cp_queue := q\<rparr>) else pick_loop q s)"

definition pick_next :: "cpu \<Rightarrow> nat option \<times> cpu" where
  "pick_next s = pick_loop (cp_queue s) s"

text \<open>The current task goes to the end of the queue if it can run on.\<close>

definition requeue_current :: "cpu \<Rightarrow> cpu" where
  "requeue_current s =
     (let c = cp_current s;
          s = (if state_of s c = Running then set_state c Runnable s else s)
      in if state_of s c = Runnable \<and> \<not> th_idle (cp_tasks s c) then
           (let was = th_on_rq (cp_tasks s c); s = on_task c (\<lambda>h. h\<lparr>th_on_rq := True\<rparr>) s
            in if \<not> was then push_task c s else s)
         else s)"

definition switch_to :: "nat \<Rightarrow> cpu \<Rightarrow> cpu" where
  "switch_to n s =
     (on_task n (\<lambda>h. h\<lparr>th_state := Running, th_slice := DEFAULT_SLICE\<rparr>) s)\<lparr>cp_resched := False, cp_current := n\<rparr>"

text \<open>
  \<open>schedule\<close> up to the switch: afterwards the task that runs is \<open>cp_current\<close>, and the call of a task that was
  switched away returns when it is current again.
\<close>

definition schedule :: "cpu \<Rightarrow> cpu" where
  "schedule s =
     (let c = cp_current s in
      case pick_next (requeue_current s) of
        (None, s) \<Rightarrow>
          if state_of s c = Runnable then
            (on_task c (\<lambda>h. h\<lparr>th_on_rq := False, th_state := Running\<rparr>) s)
              \<lparr>cp_queue := filter (\<lambda>t. t \<noteq> c) (cp_queue s), cp_resched := False\<rparr>
          else if cp_idle s = c then (set_state c Running s)\<lparr>cp_resched := False\<rparr>
          else switch_to (cp_idle s) s
      | (Some n, s) \<Rightarrow>
          if n = c then (set_state c Running s)\<lparr>cp_resched := False\<rparr> else switch_to n s)"

definition yield_now :: "cpu \<Rightarrow> cpu" where
  "yield_now s = schedule (set_state (cp_current s) Runnable s)"

definition exit_current :: "cpu \<Rightarrow> cpu" where
  "exit_current s = schedule (set_state (cp_current s) Zombie s)"

section \<open>Timers\<close>

definition arm :: "nat \<Rightarrow> nat \<Rightarrow> cpu \<Rightarrow> cpu" where
  "arm t d s = (on_task t (\<lambda>h. h\<lparr>th_deadline := d\<rparr>) s)\<lparr>cp_sleepers := cp_sleepers s @ [(d, t)]\<rparr>"

definition disarm :: "nat \<Rightarrow> cpu \<Rightarrow> cpu" where
  "disarm t s = (on_task t (\<lambda>h. h\<lparr>th_deadline := 0\<rparr>) s)\<lparr>cp_sleepers := filter (\<lambda>(_, x). x \<noteq> t) (cp_sleepers s)\<rparr>"

definition time_out :: "nat \<Rightarrow> cpu \<Rightarrow> cpu" where
  "time_out t s = wake t (on_task t (\<lambda>h. h\<lparr>th_timed_out := True\<rparr>) s)"

definition tick :: "nat \<Rightarrow> cpu \<Rightarrow> cpu" where
  "tick now s =
     fold time_out (map snd (filter (\<lambda>(d, _). d \<le> now) (cp_sleepers s)))
       (s\<lparr>cp_sleepers := filter (\<lambda>(d, _). \<not> d \<le> now) (cp_sleepers s)\<rparr>)"

text \<open>The timer interrupt: the slice of the running task, then the sleepers.\<close>

definition timer_tick :: "nat \<Rightarrow> cpu \<Rightarrow> cpu" where
  "timer_tick now s =
     (let c = cp_current s; h = cp_tasks s c;
          s = (if th_idle h then s
               else if th_slice h \<le> 1 then s\<lparr>cp_resched := True\<rparr>
               else on_task c (\<lambda>h. h\<lparr>th_slice := th_slice h - 1\<rparr>) s)
      in tick now s)"

section \<open>Wait queues\<close>

definition wq_remove :: "nat \<Rightarrow> nat \<Rightarrow> cpu \<Rightarrow> cpu" where
  "wq_remove q t s = s\<lparr>cp_wqs := (cp_wqs s)(q := filter (\<lambda>w. w \<noteq> t) (cp_wqs s q))\<rparr>"

datatype wait_step = WReady | WSignal | WTimeout | WSleep cpu

text \<open>
  One round of \<open>wait_inner\<close> of the running task up to its \<open>schedule\<close>: \<open>cond\<close> is the condition when first asked,
  \<open>again\<close> under the lock of the queue, \<open>sig\<close> whether a signal is pending, \<open>now\<close> the time.
\<close>

definition wait_enter :: "nat \<Rightarrow> bool \<Rightarrow> bool \<Rightarrow> bool \<Rightarrow> bool \<Rightarrow> nat \<Rightarrow> nat \<Rightarrow> cpu \<Rightarrow> wait_step" where
  "wait_enter q cond again intr sig deadline now s =
     (if cond then WReady
      else if intr \<and> sig then WSignal
      else if deadline \<noteq> 0 \<and> deadline \<le> now then WTimeout
      else if again then WReady
      else
        (let t = cp_current s;
             s = on_task t (\<lambda>h. h\<lparr>th_state := Blocked, th_interruptible := intr\<rparr>) s;
             s = s\<lparr>cp_wqs := (cp_wqs s)(q := cp_wqs s q @ [t])\<rparr>
         in WSleep (if deadline \<noteq> 0 then arm t deadline s else s)))"

text \<open>What the round does when its \<open>schedule\<close> returns.\<close>

definition wait_leave :: "nat \<Rightarrow> nat \<Rightarrow> cpu \<Rightarrow> cpu" where
  "wait_leave q deadline s =
     (let t = cp_current s;
          s = (if deadline \<noteq> 0 then disarm t s else s);
          s = on_task t (\<lambda>h. h\<lparr>th_interruptible := False\<rparr>) s
      in wq_remove q t s)"

definition wake_one :: "nat \<Rightarrow> cpu \<Rightarrow> cpu" where
  "wake_one q s =
     (if cp_wqs s q = [] then s
      else wake (last (cp_wqs s q)) (s\<lparr>cp_wqs := (cp_wqs s)(q := butlast (cp_wqs s q))\<rparr>))"

definition wake_all :: "nat \<Rightarrow> cpu \<Rightarrow> cpu" where
  "wake_all q s = fold wake (cp_wqs s q) (s\<lparr>cp_wqs := (cp_wqs s)(q := [])\<rparr>)"

definition interrupt_if_sleeping :: "nat \<Rightarrow> cpu \<Rightarrow> cpu" where
  "interrupt_if_sleeping t s =
     (if state_of s t = Blocked \<and> th_interruptible (cp_tasks s t) then wake t s else s)"

section \<open>Poll tables\<close>

text \<open>The queues the running task is registered on are the value of the table.\<close>

definition pt_add :: "nat \<Rightarrow> nat list \<Rightarrow> cpu \<Rightarrow> nat list \<times> cpu" where
  "pt_add q qs s =
     (qs @ [q],
      if cp_current s \<in> set (cp_wqs s q) then s
      else s\<lparr>cp_wqs := (cp_wqs s)(q := cp_wqs s q @ [cp_current s])\<rparr>)"

definition pt_prepare :: "cpu \<Rightarrow> cpu" where
  "pt_prepare s = on_task (cp_current s) (\<lambda>h. h\<lparr>th_state := Blocked, th_interruptible := True\<rparr>) s"

definition pt_cancel :: "cpu \<Rightarrow> cpu" where
  "pt_cancel s = on_task (cp_current s) (\<lambda>h. h\<lparr>th_state := Running, th_interruptible := False\<rparr>) s"

datatype block_step = BSignal cpu | BTimeout cpu | BSleep cpu

definition pt_block :: "bool \<Rightarrow> nat \<Rightarrow> nat \<Rightarrow> cpu \<Rightarrow> block_step" where
  "pt_block sig deadline now s =
     (if sig then BSignal (pt_cancel s)
      else if deadline \<noteq> 0 then
        (if deadline \<le> now then BTimeout (pt_cancel s)
         else BSleep (arm (cp_current s) deadline (on_task (cp_current s) (\<lambda>h. h\<lparr>th_timed_out := False\<rparr>) s)))
      else BSleep s)"

text \<open>After the \<open>schedule\<close> of \<open>block\<close>: the answer is \<open>None\<close> for a signal, else whether it was woken in time.\<close>

definition pt_resume :: "bool \<Rightarrow> nat \<Rightarrow> cpu \<Rightarrow> bool option \<times> cpu" where
  "pt_resume sig deadline s =
     (let t = cp_current s;
          timed_out = (deadline \<noteq> 0 \<and> th_timed_out (cp_tasks s t));
          s = (if deadline \<noteq> 0 then on_task t (\<lambda>h. h\<lparr>th_timed_out := False\<rparr>) (disarm t s) else s);
          s = on_task t (\<lambda>h. h\<lparr>th_interruptible := False\<rparr>) s
      in (if sig then None else Some (\<not> timed_out), s))"

definition pt_clear :: "nat list \<Rightarrow> cpu \<Rightarrow> cpu" where
  "pt_clear qs s = fold (\<lambda>q. wq_remove q (cp_current s)) qs s"

section \<open>No runnable task is lost\<close>

text \<open>
  Queued tasks are exactly the marked ones and can run, each is queued once; every task that can run is
  queued, running or the idle task; nobody runs but the current task.
\<close>

definition sched_inv :: "cpu \<Rightarrow> bool" where
  "sched_inv s \<longleftrightarrow>
     distinct (cp_queue s) \<and> cp_current s \<notin> set (cp_queue s) \<and> cp_idle s \<notin> set (cp_queue s)
   \<and> (\<forall>t. th_on_rq (cp_tasks s t) \<longleftrightarrow> t \<in> set (cp_queue s))
   \<and> (\<forall>t \<in> set (cp_queue s). state_of s t = Runnable)
   \<and> (\<forall>t. state_of s t = Runnable \<longrightarrow> t \<in> set (cp_queue s) \<or> t = cp_current s \<or> t = cp_idle s)
   \<and> (\<forall>t. state_of s t = Running \<longrightarrow> t = cp_current s)
   \<and> (\<forall>t. th_idle (cp_tasks s t) \<longleftrightarrow> t = cp_idle s)
   \<and> state_of s (cp_idle s) \<in> {Runnable, Running}"

lemma on_task_simps [simp]:
  "cp_queue (on_task t g s) = cp_queue s" "cp_current (on_task t g s) = cp_current s" "cp_idle (on_task t g s) = cp_idle s"
  "cp_sleepers (on_task t g s) = cp_sleepers s" "cp_wqs (on_task t g s) = cp_wqs s" "cp_resched (on_task t g s) = cp_resched s"
  "cp_tasks (on_task t g s) u = (if u = t then g (cp_tasks s t) else cp_tasks s u)"
  by (simp_all add: on_task_def)

lemma on_task_id: "g (cp_tasks s t) = cp_tasks s t \<Longrightarrow> on_task t g s = s"
  by (simp add: on_task_def)

lemma set_state_simps [simp]:
  "cp_queue (set_state t x s) = cp_queue s" "cp_current (set_state t x s) = cp_current s" "cp_idle (set_state t x s) = cp_idle s"
  "cp_sleepers (set_state t x s) = cp_sleepers s" "cp_wqs (set_state t x s) = cp_wqs s" "cp_resched (set_state t x s) = cp_resched s"
  "state_of (set_state t x s) u = (if u = t then x else state_of s u)"
  "th_on_rq (cp_tasks (set_state t x s) u) = th_on_rq (cp_tasks s u)" "th_idle (cp_tasks (set_state t x s) u) = th_idle (cp_tasks s u)"
  by (simp_all add: set_state_def state_of_def)

lemma push_task_simps [simp]:
  "cp_queue (push_task t s) = cp_queue s @ [t]" "cp_current (push_task t s) = cp_current s" "cp_idle (push_task t s) = cp_idle s"
  "cp_tasks (push_task t s) = cp_tasks s" "cp_sleepers (push_task t s) = cp_sleepers s" "cp_wqs (push_task t s) = cp_wqs s"
  "state_of (push_task t s) = state_of s"
  by (simp_all add: push_task_def state_of_def fun_eq_iff)

text \<open>A switch, in terms of the queue.\<close>

definition can_run :: "cpu \<Rightarrow> bool" where
  "can_run s \<longleftrightarrow> state_of s (cp_current s) = Running \<or> state_of s (cp_current s) = Runnable"

lemma sched_invD:
  assumes "sched_inv s"
  shows "distinct (cp_queue s)" "cp_current s \<notin> set (cp_queue s)" "cp_idle s \<notin> set (cp_queue s)"
    "th_on_rq (cp_tasks s t) \<longleftrightarrow> t \<in> set (cp_queue s)" "t \<in> set (cp_queue s) \<Longrightarrow> state_of s t = Runnable"
    "state_of s t = Runnable \<Longrightarrow> t \<in> set (cp_queue s) \<or> t = cp_current s \<or> t = cp_idle s"
    "state_of s t = Running \<Longrightarrow> t = cp_current s" "th_idle (cp_tasks s t) \<longleftrightarrow> t = cp_idle s"
    "state_of s (cp_idle s) = Runnable \<or> state_of s (cp_idle s) = Running"
  using assms unfolding sched_inv_def by auto

lemma requeue_current_eq:
  assumes "sched_inv s"
  defines "c \<equiv> cp_current s"
  shows "requeue_current s =
    (if can_run s then
       (if c = cp_idle s then set_state c Runnable s
        else push_task c (on_task c (\<lambda>h. h\<lparr>th_state := Runnable, th_on_rq := True\<rparr>) s))
     else s)"
proof -
  have rq: "\<not> th_on_rq (cp_tasks s c)" "th_idle (cp_tasks s c) \<longleftrightarrow> c = cp_idle s"
    using sched_invD(2,4,8) [OF assms(1)] by (simp_all add: c_def)
  define u where "u = (if state_of s c = Running then set_state c Runnable s else s)"
  have u: "u = (if can_run s then set_state c Runnable s else s)"
  proof (cases "state_of s c = Runnable")
    case True
    then have "set_state c Runnable s = s" unfolding set_state_def by (intro on_task_id) (cases "cp_tasks s c", simp add: state_of_def)
    then show ?thesis using True by (simp add: u_def can_run_def c_def)
  next
    case False
    then show ?thesis by (simp add: u_def can_run_def c_def)
  qed
  have "state_of u c = Runnable \<longleftrightarrow> can_run s" unfolding u by (simp add: can_run_def c_def)
  moreover have "on_task c (\<lambda>h. h\<lparr>th_on_rq := True\<rparr>) (set_state c Runnable s) = on_task c (\<lambda>h. h\<lparr>th_state := Runnable, th_on_rq := True\<rparr>) s"
    by (simp add: set_state_def on_task_def)
  moreover have "requeue_current s = (if state_of u c = Runnable \<and> \<not> th_idle (cp_tasks u c)
      then (if \<not> th_on_rq (cp_tasks u c) then push_task c (on_task c (\<lambda>h. h\<lparr>th_on_rq := True\<rparr>) u) else on_task c (\<lambda>h. h\<lparr>th_on_rq := True\<rparr>) u) else u)"
    unfolding requeue_current_def Let_def u_def c_def by simp
  ultimately show ?thesis using rq by (simp add: u)
qed

text \<open>With somebody in the queue the first of it runs next, and a current task that can run queues up behind.\<close>

lemma schedule_next:
  assumes "sched_inv s" "cp_queue s = t # q"
  shows "cp_current (schedule s) = t"
    and "cp_queue (schedule s) = q @ (if can_run s \<and> cp_current s \<noteq> cp_idle s then [cp_current s] else [])"
    and "cp_idle (schedule s) = cp_idle s"
    and "state_of (schedule s) = (\<lambda>u. if u = t then Running else if u = cp_current s \<and> can_run s then Runnable else state_of s u)"
    and "th_on_rq (cp_tasks (schedule s) u) \<longleftrightarrow> u \<noteq> t \<and> (th_on_rq (cp_tasks s u) \<or> u = cp_current s \<and> can_run s \<and> cp_current s \<noteq> cp_idle s)"
    and "th_idle (cp_tasks (schedule s) u) \<longleftrightarrow> th_idle (cp_tasks s u)"
proof -
  have t: "t \<noteq> cp_current s" "state_of s t = Runnable" using sched_invD(2,5) [OF assms(1)] assms(2) by auto
  define r where "r = requeue_current s"
  have r: "cp_queue r = t # (q @ (if can_run s \<and> cp_current s \<noteq> cp_idle s then [cp_current s] else []))" "state_of r t = Runnable"
    "cp_idle r = cp_idle s" "state_of r = (\<lambda>u. if u = cp_current s \<and> can_run s then Runnable else state_of s u)"
    "th_on_rq (cp_tasks r u) \<longleftrightarrow> th_on_rq (cp_tasks s u) \<or> u = cp_current s \<and> can_run s \<and> cp_current s \<noteq> cp_idle s"
    "th_idle (cp_tasks r u) \<longleftrightarrow> th_idle (cp_tasks s u)" for u
    using t assms(2) unfolding r_def requeue_current_eq [OF assms(1)] by (auto simp: state_of_def set_state_def fun_eq_iff)
  define n where "n = (on_task t (\<lambda>h. h\<lparr>th_on_rq := False\<rparr>) r)\<lparr>cp_queue := q @ (if can_run s \<and> cp_current s \<noteq> cp_idle s then [cp_current s] else [])\<rparr>"
  have "pick_next r = (Some t, n)" using r(1,2) by (simp add: pick_next_def Let_def n_def state_of_def)
  then have e: "schedule s = switch_to t n" using t(1) by (simp add: schedule_def r_def)
  show "cp_current (schedule s) = t" "cp_queue (schedule s) = q @ (if can_run s \<and> cp_current s \<noteq> cp_idle s then [cp_current s] else [])"
    "cp_idle (schedule s) = cp_idle s"
    using r(3) by (simp_all add: e switch_to_def n_def)
  show "state_of (schedule s) = (\<lambda>u. if u = t then Running else if u = cp_current s \<and> can_run s then Runnable else state_of s u)"
    using r(4) by (auto simp: e switch_to_def n_def state_of_def fun_eq_iff)
  show "th_on_rq (cp_tasks (schedule s) u) \<longleftrightarrow> u \<noteq> t \<and> (th_on_rq (cp_tasks s u) \<or> u = cp_current s \<and> can_run s \<and> cp_current s \<noteq> cp_idle s)"
    "th_idle (cp_tasks (schedule s) u) \<longleftrightarrow> th_idle (cp_tasks s u)"
    using r(5,6) by (simp_all add: e switch_to_def n_def)
qed

text \<open>With nobody in the queue the current task runs on if it can, else the processor idles.\<close>

lemma schedule_alone:
  assumes "sched_inv s" "cp_queue s = []"
  shows "cp_current (schedule s) = (if can_run s then cp_current s else cp_idle s)"
    and "cp_queue (schedule s) = []" "cp_idle (schedule s) = cp_idle s"
    and "state_of (schedule s) = (state_of s)(cp_current (schedule s) := Running)"
    and "th_on_rq (cp_tasks (schedule s) u) \<longleftrightarrow> False"
    and "th_idle (cp_tasks (schedule s) u) \<longleftrightarrow> th_idle (cp_tasks s u)"
proof -
  note i = sched_invD [OF assms(1)]
  have idle: "cp_current s \<noteq> cp_idle s" if "\<not> can_run s" using i(9) that by (auto simp: can_run_def)
  have rq: "\<not> th_on_rq (cp_tasks s u)" for u using i(4) assms(2) by simp
  let ?P = "\<lambda>s'. cp_current s' = (if can_run s then cp_current s else cp_idle s) \<and> cp_queue s' = [] \<and> cp_idle s' = cp_idle s
    \<and> state_of s' = (state_of s)(cp_current s' := Running)
    \<and> (\<forall>u. \<not> th_on_rq (cp_tasks s' u)) \<and> (\<forall>u. th_idle (cp_tasks s' u) \<longleftrightarrow> th_idle (cp_tasks s u))"
  have "?P (schedule s)"
  proof (cases "can_run s")
    case True
    show ?thesis
    proof (cases "cp_current s = cp_idle s")
      case idle: True
      have "requeue_current s = set_state (cp_idle s) Runnable s" using True idle by (simp add: requeue_current_eq [OF assms(1)])
      then show ?thesis using True idle assms(2) rq
        by (simp add: schedule_def pick_next_def Let_def state_of_def set_state_def fun_eq_iff)
    next
      case False
      have "requeue_current s = push_task (cp_current s) (on_task (cp_current s) (\<lambda>h. h\<lparr>th_state := Runnable, th_on_rq := True\<rparr>) s)"
        using True False by (simp add: requeue_current_eq [OF assms(1)])
      then show ?thesis using True assms(2) rq
        by (simp add: schedule_def pick_next_def Let_def state_of_def set_state_def fun_eq_iff)
    qed
  next
    case False
    then have "requeue_current s = s" "state_of s (cp_current s) \<noteq> Runnable" by (simp_all add: requeue_current_eq [OF assms(1)] can_run_def)
    then show ?thesis using False idle assms(2) rq
      by (auto simp: schedule_def pick_next_def Let_def switch_to_def state_of_def fun_eq_iff)
  qed
  then show "cp_current (schedule s) = (if can_run s then cp_current s else cp_idle s)" "cp_queue (schedule s) = []" "cp_idle (schedule s) = cp_idle s"
    "state_of (schedule s) = (state_of s)(cp_current (schedule s) := Running)"
    "th_on_rq (cp_tasks (schedule s) u) \<longleftrightarrow> False" "th_idle (cp_tasks (schedule s) u) \<longleftrightarrow> th_idle (cp_tasks s u)" by blast+
qed

lemma sched_invI:
  assumes "distinct (cp_queue s)" "cp_current s \<notin> set (cp_queue s)" "cp_idle s \<notin> set (cp_queue s)"
    "\<And>t. th_on_rq (cp_tasks s t) \<longleftrightarrow> t \<in> set (cp_queue s)" "\<And>t. t \<in> set (cp_queue s) \<Longrightarrow> state_of s t = Runnable"
    "\<And>t. state_of s t = Runnable \<Longrightarrow> t \<in> set (cp_queue s) \<or> t = cp_current s \<or> t = cp_idle s"
    "\<And>t. state_of s t = Running \<Longrightarrow> t = cp_current s" "\<And>t. th_idle (cp_tasks s t) \<longleftrightarrow> t = cp_idle s"
    "state_of s (cp_idle s) = Runnable \<or> state_of s (cp_idle s) = Running"
  shows "sched_inv s"
  unfolding sched_inv_def using assms by simp

lemma schedule_inv:
  assumes "sched_inv s"
  shows "sched_inv (schedule s)"
proof (cases "cp_queue s")
  case Nil
  note a = schedule_alone [OF assms Nil] and i = sched_invD [OF assms]
  have only: "t = cp_current s \<or> t = cp_idle s" if "state_of s t = Runnable" for t using i(6) [OF that] Nil by simp
  show ?thesis
  proof (rule sched_invI, goal_cases)
    case (6 t)
    then show ?case using only [of t] unfolding a by (auto simp: can_run_def split: if_splits)
  next
    case (7 t)
    show ?case
    proof (rule ccontr)
      assume n: "t \<noteq> cp_current (schedule s)"
      then have "t = cp_current s" "\<not> can_run s" using 7 i(7) [of t] unfolding a by (auto split: if_splits)
      then show False using 7 n unfolding a by (auto simp: can_run_def)
    qed
  next
    case 9
    then show ?case using i(9) unfolding a by auto
  qed (use i(8) a in simp_all)
next
  case (Cons t q)
  note a = schedule_next [OF assms Cons] and i = sched_invD [OF assms]
  have t: "t \<noteq> cp_current s" "t \<noteq> cp_idle s" "t \<notin> set q" "distinct q" "cp_current s \<notin> set q" "cp_idle s \<notin> set q"
    using i(1-3) Cons by auto
  show ?thesis
  proof (rule sched_invI, goal_cases)
    case (4 u)
    have "th_on_rq (cp_tasks s u) \<longleftrightarrow> u = t \<or> u \<in> set q" using i(4) Cons by simp
    then show ?case unfolding a using t by auto
  next
    case (5 u)
    then show ?case unfolding a using t i(5) [of u] Cons by (auto split: if_splits)
  next
    case (6 u)
    then have "u \<noteq> t \<and> (u = cp_current s \<and> can_run s \<or> state_of s u = Runnable)" unfolding a by (auto split: if_splits)
    then show ?case using i(6) [of u] Cons unfolding a by (auto simp: can_run_def)
  next
    case (7 u)
    then show ?case using i(7) [of u] unfolding a by (auto simp: can_run_def split: if_splits)
  next
    case 9
    then show ?case using i(9) unfolding a by auto
  qed (use t i(8) a in \<open>auto split: if_splits\<close>)
qed

lemma wake_inv:
  assumes "sched_inv s" "t \<noteq> cp_current s" "t \<noteq> cp_idle s"
  shows "sched_inv (wake t s)"
    and "cp_queue (wake t s) = cp_queue s @ (if state_of s t = Zombie \<or> t \<in> set (cp_queue s) then [] else [t])"
    and "cp_current (wake t s) = cp_current s" "cp_idle (wake t s) = cp_idle s"
    and "state_of (wake t s) = (if state_of s t = Zombie then state_of s else (state_of s)(t := Runnable))"
proof -
  note i = sched_invD [OF assms(1)]
  show q: "cp_queue (wake t s) = cp_queue s @ (if state_of s t = Zombie \<or> t \<in> set (cp_queue s) then [] else [t])"
    "cp_current (wake t s) = cp_current s" "cp_idle (wake t s) = cp_idle s"
    using assms(2) i(4) [of t] by (auto simp: wake_def Let_def)
  show st: "state_of (wake t s) = (if state_of s t = Zombie then state_of s else (state_of s)(t := Runnable))"
    by (auto simp: wake_def Let_def state_of_def fun_eq_iff)
  have h: "th_on_rq (cp_tasks (wake t s) u) \<longleftrightarrow> th_on_rq (cp_tasks s u) \<or> u = t \<and> state_of s t \<noteq> Zombie"
    "th_idle (cp_tasks (wake t s) u) \<longleftrightarrow> th_idle (cp_tasks s u)" for u
    by (auto simp: wake_def Let_def)
  have "state_of s t \<noteq> Running" using i(7) [of t] assms(2) by blast
  then show "sched_inv (wake t s)"
    unfolding sched_inv_def q st h using assms(2,3) i by (auto split: if_splits)
qed

section \<open>Steps\<close>

text \<open>
  One step of the processor; the flag says whether it is a switch. The current task changes its own
  state; somebody else is woken, by the current task or an interrupt; a new task is started; the timer
  interrupts when no sleep of the current task is over; or something else changes that is not scheduling,
  such as a wait queue.
\<close>

inductive sched_step :: "bool \<Rightarrow> cpu \<Rightarrow> cpu \<Rightarrow> bool" where
  own: "cp_current s \<noteq> cp_idle s \<or> x = Runnable \<or> x = Running \<Longrightarrow> sched_step False s (set_state (cp_current s) x s)"
| waken: "t \<noteq> cp_current s \<Longrightarrow> t \<noteq> cp_idle s \<Longrightarrow> sched_step False s (wake t s)"
| start: "t \<noteq> cp_current s \<Longrightarrow> t \<noteq> cp_idle s \<Longrightarrow> t \<notin> set (cp_queue s) \<Longrightarrow> sched_step False s (enqueue t s)"
| time: "\<forall>(d, t) \<in> set (cp_sleepers s). d \<le> now \<longrightarrow> t \<noteq> cp_current s \<and> t \<noteq> cp_idle s \<Longrightarrow> sched_step False s (timer_tick now s)"
| other: "cp_queue s' = cp_queue s \<Longrightarrow> cp_current s' = cp_current s \<Longrightarrow> cp_idle s' = cp_idle s
    \<Longrightarrow> (\<And>t. state_of s' t = state_of s t \<and> th_on_rq (cp_tasks s' t) = th_on_rq (cp_tasks s t) \<and> th_idle (cp_tasks s' t) = th_idle (cp_tasks s t))
    \<Longrightarrow> sched_step False s s'"
| switch: "sched_step True s (schedule s)"

lemma own_inv:
  assumes "sched_inv s" "cp_current s \<noteq> cp_idle s \<or> x = Runnable \<or> x = Running"
  shows "sched_inv (set_state (cp_current s) x s)"
proof (rule sched_invI, goal_cases)
  case (6 t)
  then show ?case using sched_invD(6) [OF assms(1), of t] by (auto split: if_splits)
next
  case (7 t)
  then show ?case using sched_invD(7) [OF assms(1), of t] by (auto split: if_splits)
qed (use sched_invD [OF assms(1)] assms(2) in auto)

lemma same_inv:
  assumes "sched_inv s" "cp_queue s' = cp_queue s" "cp_current s' = cp_current s" "cp_idle s' = cp_idle s"
    "\<And>t. state_of s' t = state_of s t \<and> th_on_rq (cp_tasks s' t) = th_on_rq (cp_tasks s t) \<and> th_idle (cp_tasks s' t) = th_idle (cp_tasks s t)"
  shows "sched_inv s'"
proof -
  have e: "state_of s' t = state_of s t" "th_on_rq (cp_tasks s' t) = th_on_rq (cp_tasks s t)" "th_idle (cp_tasks s' t) = th_idle (cp_tasks s t)" for t
    using assms(5) by blast+
  show ?thesis using assms(1) unfolding sched_inv_def assms(2-4) e .
qed

lemma enqueue_inv:
  assumes "sched_inv s" "t \<noteq> cp_current s" "t \<noteq> cp_idle s" "t \<notin> set (cp_queue s)"
  shows "sched_inv (enqueue t s)"
proof -
  have e: "state_of (enqueue t s) u = (if u = t then Runnable else state_of s u)"
    "th_on_rq (cp_tasks (enqueue t s) u) \<longleftrightarrow> u = t \<or> th_on_rq (cp_tasks s u)" "th_idle (cp_tasks (enqueue t s) u) \<longleftrightarrow> th_idle (cp_tasks s u)"
    "cp_queue (enqueue t s) = cp_queue s @ [t]" "cp_current (enqueue t s) = cp_current s" "cp_idle (enqueue t s) = cp_idle s" for u
    by (simp_all add: enqueue_def state_of_def)
  show ?thesis
  proof (rule sched_invI, goal_cases)
    case (6 u)
    then show ?case using sched_invD(6) [OF assms(1), of u] unfolding e by (auto split: if_splits)
  next
    case (7 u)
    then show ?case using sched_invD(7) [OF assms(1), of u] unfolding e by (auto split: if_splits)
  qed (use sched_invD [OF assms(1)] assms(2-4) in \<open>auto simp: e\<close>)
qed

text \<open>The order of those in the queue never changes; others queue up behind.\<close>

definition behind :: "cpu \<Rightarrow> cpu \<Rightarrow> bool" where
  "behind s s' \<longleftrightarrow> cp_current s' = cp_current s \<and> cp_idle s' = cp_idle s \<and> (\<exists>q. cp_queue s' = cp_queue s @ q)"

lemma behind_refl [simp]: "behind s s"
  by (simp add: behind_def)

lemma behind_trans: "behind s t \<Longrightarrow> behind t u \<Longrightarrow> behind s u"
  by (auto simp: behind_def)

lemma wakes_inv:
  assumes "sched_inv s" "\<forall>t \<in> set ts. t \<noteq> cp_current s \<and> t \<noteq> cp_idle s"
  shows "sched_inv (fold time_out ts s) \<and> behind s (fold time_out ts s)"
  using assms
proof (induction ts arbitrary: s)
  case (Cons t ts)
  let ?s = "on_task t (\<lambda>h. h\<lparr>th_timed_out := True\<rparr>) s"
  have i: "sched_inv ?s" by (rule same_inv [OF Cons.prems(1)]) (auto simp: state_of_def)
  have t: "t \<noteq> cp_current ?s" "t \<noteq> cp_idle ?s" using Cons.prems(2) by auto
  note w = wake_inv [OF i t]
  have b: "behind s (time_out t s)" using w(2-4) by (simp add: time_out_def behind_def)
  have "\<forall>u \<in> set ts. u \<noteq> cp_current (time_out t s) \<and> u \<noteq> cp_idle (time_out t s)" using Cons.prems(2) b by (simp add: behind_def)
  with Cons.IH [of "time_out t s"] w(1) show ?case using behind_trans [OF b] by (simp add: time_out_def)
qed simp

lemma timer_tick_inv:
  assumes "sched_inv s" "\<forall>(d, t) \<in> set (cp_sleepers s). d \<le> now \<longrightarrow> t \<noteq> cp_current s \<and> t \<noteq> cp_idle s"
  shows "sched_inv (timer_tick now s) \<and> behind s (timer_tick now s)"
proof -
  let ?c = "cp_current s"
  let ?s = "if th_idle (cp_tasks s ?c) then s else if th_slice (cp_tasks s ?c) \<le> 1 then s\<lparr>cp_resched := True\<rparr>
    else on_task ?c (\<lambda>h. h\<lparr>th_slice := th_slice h - 1\<rparr>) s"
  let ?u = "?s\<lparr>cp_sleepers := filter (\<lambda>(d, _). \<not> d \<le> now) (cp_sleepers ?s)\<rparr>"
  have i: "sched_inv ?u" "behind s ?u" by (rule same_inv [OF assms(1)], auto simp: state_of_def behind_def)
  have ts: "\<forall>t \<in> set (map snd (filter (\<lambda>(d, _). d \<le> now) (cp_sleepers ?s))). t \<noteq> cp_current ?u \<and> t \<noteq> cp_idle ?u"
    using assms(2) by auto
  have "timer_tick now s = fold time_out (map snd (filter (\<lambda>(d, _). d \<le> now) (cp_sleepers ?s))) ?u"
    by (simp add: timer_tick_def tick_def Let_def)
  then show ?thesis using wakes_inv [OF i(1) ts] behind_trans [OF i(2)] by simp
qed

text \<open>Each step keeps the invariant, and only a switch changes what is ahead in the queue.\<close>

lemma sched_step_keeps:
  assumes "sched_step b s s'" "sched_inv s"
  shows "sched_inv s'" "\<not> b \<Longrightarrow> behind s s'" "b \<Longrightarrow> s' = schedule s"
proof -
  have "sched_inv s' \<and> (\<not> b \<longrightarrow> behind s s') \<and> (b \<longrightarrow> s' = schedule s)"
    using assms(1)
  proof cases
    case (own x)
    show ?thesis unfolding own(2) using own_inv [OF assms(2) own(3)] own(1) by (simp add: behind_def)
  next
    case (waken t)
    note w = wake_inv(1-4) [OF assms(2) waken(3,4)]
    have "behind s (wake t s)" unfolding behind_def using w(2-4) by blast
    then show ?thesis unfolding waken(2) using w(1) waken(1) by simp
  next
    case (start t)
    have "behind s (enqueue t s)" by (simp add: behind_def enqueue_def)
    then show ?thesis unfolding start(2) using enqueue_inv [OF assms(2) start(3-5)] start(1) by simp
  next
    case (time now)
    show ?thesis unfolding time(2) using timer_tick_inv [OF assms(2) time(3)] time(1) by simp
  next
    case other
    have "behind s s'" unfolding behind_def using other(2-4) by simp
    then show ?thesis using same_inv [OF assms(2) other(2-5)] other(1) by simp
  next
    case switch
    show ?thesis unfolding switch(2) using schedule_inv [OF assms(2)] switch(1) by simp
  qed
  then show "sched_inv s'" "\<not> b \<Longrightarrow> behind s s'" "b \<Longrightarrow> s' = schedule s" by blast+
qed

definition ahead :: "nat \<Rightarrow> cpu \<Rightarrow> nat" where
  "ahead t s = length (takeWhile (\<lambda>u. u \<noteq> t) (cp_queue s))"

lemma ahead_append: "t \<in> set (cp_queue s) \<Longrightarrow> cp_queue s' = cp_queue s @ q \<Longrightarrow> ahead t s' = ahead t s"
  by (simp add: ahead_def takeWhile_append1)

lemma ahead_step:
  assumes "sched_step b s s'" "sched_inv s" "t \<in> set (cp_queue s)"
  shows "cp_current s' = t \<or> t \<in> set (cp_queue s') \<and> ahead t s' + (if b then 1 else 0) \<le> ahead t s"
proof (cases b)
  case False
  then obtain q where q: "cp_queue s' = cp_queue s @ q" using sched_step_keeps(2) [OF assms(1,2)] unfolding behind_def by blast
  have "ahead t s' = ahead t s" by (rule ahead_append [OF assms(3) q])
  moreover have "t \<in> set (cp_queue s')" unfolding q using assms(3) by simp
  ultimately show ?thesis using False by simp
next
  case True
  then have s': "s' = schedule s" using sched_step_keeps(3) [OF assms(1,2)] by blast
  obtain u q where q: "cp_queue s = u # q" using assms(3) by (metis list.set_cases)
  note n = schedule_next [OF assms(2) q]
  show ?thesis
  proof (cases "u = t")
    case False
    then have "t \<in> set q" using assms(3) q by simp
    then have k: "takeWhile (\<lambda>v. v \<noteq> t) (q @ z) = takeWhile (\<lambda>v. v \<noteq> t) q" for z
      by (rule takeWhile_append1) simp
    have "ahead t (schedule s) + 1 = ahead t s" unfolding ahead_def n(2) q k using False by simp
    moreover have "t \<in> set (cp_queue (schedule s))" unfolding n(2) using \<open>t \<in> set q\<close> by simp
    ultimately show ?thesis using True s' by simp
  next
    case True
    then show ?thesis using n(1) s' by simp
  qed
qed

text \<open>
  C12. Scheduling is fair and loses nobody: in every run of wake-ups, new tasks, timer interrupts, state changes
  and switches in which no wake-up hits the running task, every task that can run is in the queue exactly once
  (or is running or the idle task), and a queued task runs after at most as many switches as there are
  tasks ahead of it, plus one.
\<close>

theorem nobody_starves:
  fixes run :: "nat \<Rightarrow> cpu"
  assumes "sched_inv (run 0)" "\<forall>i < n. sched_step (b i) (run i) (run (Suc i))"
  shows "sched_inv (run n) \<and> (\<forall>t. t \<in> set (cp_queue (run 0)) \<longrightarrow> ahead t (run 0) < card {i. i < n \<and> b i} \<longrightarrow> (\<exists>i \<le> n. cp_current (run i) = t))"
proof -
  have inv: "sched_inv (run m)" if "m \<le> n" for m
    using that
  proof (induction m)
    case (Suc m)
    then show ?case using sched_step_keeps(1) [of "b m" "run m" "run (Suc m)"] assms(2) by simp
  qed (use assms(1) in simp)
  have "(\<exists>i \<le> m. cp_current (run i) = t) \<or> t \<in> set (cp_queue (run m)) \<and> ahead t (run m) + card {i. i < m \<and> b i} \<le> ahead t (run 0)"
    if "m \<le> n" "t \<in> set (cp_queue (run 0))" for m t
    using that(1)
  proof (induction m)
    case 0
    then show ?case using that(2) by simp
  next
    case (Suc m)
    have c: "card {i. i < Suc m \<and> b i} = card {i. i < m \<and> b i} + (if b m then 1 else 0)"
    proof -
      have "{i. i < Suc m \<and> b i} = {i. i < m \<and> b i} \<union> (if b m then {m} else {})" by (auto simp: less_Suc_eq)
      then show ?thesis by (auto simp: card_insert_if)
    qed
    have st: "sched_step (b m) (run m) (run (Suc m))" "sched_inv (run m)" using assms(2) inv Suc.prems by auto
    consider "\<exists>i \<le> m. cp_current (run i) = t"
      | "t \<in> set (cp_queue (run m))" "ahead t (run m) + card {i. i < m \<and> b i} \<le> ahead t (run 0)" using Suc by auto
    then show ?case
    proof cases
      case 1
      then obtain i where "i \<le> m" "cp_current (run i) = t" by blast
      then show ?thesis by (intro disjI1 exI [of _ i]) simp
    next
      case 2
      from ahead_step [OF st 2(1)] 2(2) show ?thesis unfolding c by fastforce
    qed
  qed
  then show ?thesis using inv [of n] by force
qed

definition demo_cpu :: cpu where
  "demo_cpu =
     \<lparr>cp_tasks = (\<lambda>t. \<lparr>th_state = (if t = 0 \<or> t = 2 then Runnable else if t = 1 then Running else Zombie), th_on_rq = (t = 2), th_idle = (t = 0),
        th_slice = 5, th_interruptible = False, th_timed_out = False, th_deadline = 0\<rparr>),
      cp_queue = [2], cp_current = 1, cp_idle = 0, cp_resched = False, cp_sleepers = [], cp_wqs = (\<lambda>_. [])\<rparr>"

lemma demo_cpu_inv: "sched_inv demo_cpu"
  by (rule sched_invI) (auto simp: demo_cpu_def state_of_def split: if_splits)

theorem nobody_starves_witness: "cp_current (schedule demo_cpu) = 2"
proof -
  let ?run = "\<lambda>i :: nat. if i = 0 then demo_cpu else schedule demo_cpu"
  have "ahead 2 demo_cpu = 0" "2 \<in> set (cp_queue demo_cpu)" "cp_current demo_cpu = 1" by (simp_all add: ahead_def demo_cpu_def)
  moreover have "{i :: nat. i < 1 \<and> True} = {0}" by auto
  ultimately obtain i :: nat where "i \<le> 1" "cp_current (?run i) = 2"
    using nobody_starves [of ?run 1 "\<lambda>_. True"] demo_cpu_inv by (auto intro: switch)
  with \<open>cp_current demo_cpu = 1\<close> show ?thesis by (cases "i = 0") auto
qed

section \<open>What an interrupt can lose\<close>

text \<open>
  A wake-up that hits the running task marks it as queued without queueing it. When it then gives up the
  processor, because it had prepared to sleep or because its time is over, and another task can run, it
  is not put back: it can run, but no switch ever picks it again.
\<close>

lemma pick_loop_within:
  "pick_loop q s = (r, s') \<Longrightarrow> (\<forall>n. r = Some n \<longrightarrow> n \<in> set q) \<and> set (cp_queue s') \<subseteq> set q \<and> cp_current s' = cp_current s \<and> cp_idle s' = cp_idle s"
  by (induction q s rule: pick_loop.induct) (auto simp: Let_def split: if_splits)

lemma schedule_within:
  "cp_current (schedule s) \<in> {cp_current s, cp_idle s} \<union> set (cp_queue s)"
  "set (cp_queue (schedule s)) \<subseteq> {cp_current s} \<union> set (cp_queue s)" "cp_idle (schedule s) = cp_idle s"
proof -
  have r: "set (cp_queue (requeue_current s)) \<subseteq> {cp_current s} \<union> set (cp_queue s)" "cp_current (requeue_current s) = cp_current s"
    "cp_idle (requeue_current s) = cp_idle s"
    by (auto simp: requeue_current_def Let_def)
  obtain n s' where p: "pick_next (requeue_current s) = (n, s')" by (cases "pick_next (requeue_current s)")
  note w = pick_loop_within [OF p [unfolded pick_next_def]]
  have "cp_current (schedule s) \<in> {cp_current s, cp_idle s} \<union> set (cp_queue s) \<and> set (cp_queue (schedule s)) \<subseteq> {cp_current s} \<union> set (cp_queue s)
    \<and> cp_idle (schedule s) = cp_idle s"
  proof (cases n)
    case None
    then show ?thesis using w r by (auto simp: schedule_def p switch_to_def Let_def)
  next
    case (Some m)
    then have "m \<in> {cp_current s} \<union> set (cp_queue s)" using w r(1) by auto
    then show ?thesis using w r Some by (auto simp: schedule_def p switch_to_def Let_def)
  qed
  then show "cp_current (schedule s) \<in> {cp_current s, cp_idle s} \<union> set (cp_queue s)"
    "set (cp_queue (schedule s)) \<subseteq> {cp_current s} \<union> set (cp_queue s)" "cp_idle (schedule s) = cp_idle s" by blast+
qed

theorem woken_while_running_is_lost:
  assumes "sched_inv s" "cp_queue s \<noteq> []" "cp_current s \<noteq> cp_idle s" "state_of s (cp_current s) \<noteq> Zombie"
  defines "c \<equiv> cp_current s" and "s' \<equiv> schedule (wake (cp_current s) s)"
  shows "state_of s' c = Runnable \<and> c \<notin> set (cp_queue s') \<and> (\<forall>n. cp_current ((schedule ^^ n) s') \<noteq> c)"
proof -
  obtain t q where q: "cp_queue s = t # q" using assms(2) by (cases "cp_queue s") auto
  have t: "t \<noteq> c" "c \<notin> set (cp_queue s)" "state_of s t = Runnable" using sched_invD(2,5) [OF assms(1)] q by (auto simp: c_def)
  let ?w = "on_task c (\<lambda>h. h\<lparr>th_state := Runnable, th_on_rq := True\<rparr>) s"
  have w: "wake c s = ?w" using assms(4) by (simp add: wake_def Let_def c_def)
  have idle: "\<not> th_idle (cp_tasks s c)" using sched_invD(8) [OF assms(1)] assms(3) by (simp add: c_def)
  have "requeue_current ?w = on_task c (\<lambda>h. h\<lparr>th_on_rq := True\<rparr>) ?w"
    using idle by (simp add: requeue_current_def Let_def c_def [symmetric] state_of_def)
  also have "\<dots> = ?w" by (rule on_task_id) simp
  finally have r: "requeue_current ?w = ?w" .
  have "pick_next ?w = (Some t, (on_task t (\<lambda>h. h\<lparr>th_on_rq := False\<rparr>) ?w)\<lparr>cp_queue := q\<rparr>)"
    using q t by (simp add: pick_next_def Let_def state_of_def)
  then have s': "s' = switch_to t ((on_task t (\<lambda>h. h\<lparr>th_on_rq := False\<rparr>) ?w)\<lparr>cp_queue := q\<rparr>)"
    using t(1) unfolding s'_def c_def [symmetric] w by (simp add: schedule_def Let_def r c_def [symmetric])
  have a: "state_of s' c = Runnable" "c \<notin> set (cp_queue s')" "cp_current s' \<noteq> c" "cp_idle s' \<noteq> c"
    using t q assms(3) by (auto simp: s' switch_to_def state_of_def c_def)
  have "c \<notin> set (cp_queue ((schedule ^^ n) s')) \<and> cp_current ((schedule ^^ n) s') \<noteq> c \<and> cp_idle ((schedule ^^ n) s') \<noteq> c" for n
  proof (induction n)
    case (Suc n)
    then show ?case using schedule_within [of "(schedule ^^ n) s'"] by auto
  qed (use a in simp)
  then show ?thesis using a by blast
qed

text \<open>
  One case is a sleep whose time is over between the moment the task was put on the wait queue and its
  switch: the timer interrupt in between takes the sleeper off the list and wakes it in vain.
\<close>

theorem expired_before_switch_is_lost:
  assumes "wait_enter 9 False False True False 7 5 demo_cpu = WSleep s"
  shows "\<forall>n. cp_current ((schedule ^^ n) (schedule (tick 8 s))) \<noteq> 1"
proof -
  let ?d = "on_task 1 (\<lambda>h. h\<lparr>th_deadline := 7\<rparr>) (on_task 1 (\<lambda>h. h\<lparr>th_state := Blocked, th_interruptible := True\<rparr>) demo_cpu)"
  let ?u = "(on_task 1 (\<lambda>h. h\<lparr>th_timed_out := True\<rparr>) ?d)\<lparr>cp_wqs := (\<lambda>_. [])(9 := [1]), cp_sleepers := []\<rparr>"
  have s: "tick 8 s = wake 1 ?u"
    using assms by (auto simp: wait_enter_def Let_def arm_def tick_def time_out_def demo_cpu_def on_task_def)
  have i: "sched_inv ?u"
    by (rule sched_invI) (auto simp: demo_cpu_def state_of_def split: if_splits)
  have c: "cp_current ?u = 1" "cp_queue ?u \<noteq> []" "cp_current ?u \<noteq> cp_idle ?u" "state_of ?u (cp_current ?u) \<noteq> Zombie"
    by (simp_all add: demo_cpu_def state_of_def)
  show ?thesis unfolding s using woken_while_running_is_lost [OF i c(2-4)] unfolding c(1) by blast
qed

section \<open>Waking all\<close>

text \<open>Waking a queue on which neither the running nor the idle task waits makes all its waiters runnable.\<close>

lemma wake_list:
  assumes "sched_inv s" "cp_current s \<notin> set ts" "cp_idle s \<notin> set ts"
  shows "sched_inv (fold wake ts s) \<and> behind s (fold wake ts s)
    \<and> state_of (fold wake ts s) = (\<lambda>t. if t \<in> set ts \<and> state_of s t \<noteq> Zombie then Runnable else state_of s t)
    \<and> cp_wqs (fold wake ts s) = cp_wqs s"
  using assms
proof (induction ts arbitrary: s)
  case (Cons t ts)
  have t: "t \<noteq> cp_current s" "t \<noteq> cp_idle s" using Cons.prems by auto
  note w = wake_inv [OF Cons.prems(1) t]
  have b: "behind s (wake t s)" unfolding behind_def using w(2-4) by blast
  have q: "cp_wqs (wake t s) = cp_wqs s" by (simp add: wake_def Let_def)
  have "cp_current (wake t s) \<notin> set ts" "cp_idle (wake t s) \<notin> set ts" using Cons.prems(2,3) w(3,4) by simp_all
  from Cons.IH [OF w(1) this] show ?case
    using behind_trans [OF b] w(5) q by (auto simp: fun_eq_iff)
qed simp

lemma wake_all_exact:
  assumes "sched_inv s" "cp_current s \<notin> set (cp_wqs s q)" "cp_idle s \<notin> set (cp_wqs s q)" "t \<in> set (cp_wqs s q)" "state_of s t \<noteq> Zombie"
  shows "state_of (wake_all q s) t = Runnable \<and> t \<in> set (cp_queue (wake_all q s)) \<and> cp_wqs (wake_all q s) q = [] \<and> sched_inv (wake_all q s)"
proof -
  let ?s = "s\<lparr>cp_wqs := (cp_wqs s)(q := [])\<rparr>"
  have i: "sched_inv ?s" by (rule same_inv [OF assms(1)]) (auto simp: state_of_def)
  have st: "state_of ?s = state_of s" by (simp add: state_of_def fun_eq_iff)
  from wake_list [OF i, of "cp_wqs s q", unfolded st] assms(2,3)
  have w: "sched_inv (wake_all q s)" "behind ?s (wake_all q s)" "cp_wqs (wake_all q s) = cp_wqs ?s"
    "state_of (wake_all q s) = (\<lambda>t. if t \<in> set (cp_wqs s q) \<and> state_of s t \<noteq> Zombie then Runnable else state_of s t)"
    by (simp_all add: wake_all_def)
  have r: "state_of (wake_all q s) t = Runnable" using w(4) assms(4,5) by simp
  have "t \<noteq> cp_current (wake_all q s)" "t \<noteq> cp_idle (wake_all q s)" using w(2) assms(2-4) by (auto simp: behind_def)
  then have "t \<in> set (cp_queue (wake_all q s))" using sched_invD(6) [OF w(1) r] by blast
  then show ?thesis using r w(1,3) by simp
qed

section \<open>The sleeping mutex\<close>

text \<open>
  Where a task is in \<open>lock\<close> and in the drop of the guard: before the exchange, between a failed exchange and the
  check under the lock of the wait queue, asleep, holding, and between the store that frees the mutex and
  the wake-up. Each phase ends with one atomic operation of the code.
\<close>

datatype phase = Outside | Trying | Checking | Asleep | Holding | Waking

record mutex =
  mx_locked :: bool
  mx_waiters :: "nat list"
  mx_phase :: "nat \<Rightarrow> phase"

definition goto :: "nat \<Rightarrow> phase \<Rightarrow> mutex \<Rightarrow> mutex" where
  "goto t p m = m\<lparr>mx_phase := (mx_phase m)(t := p)\<rparr>"

definition mutex_exchange :: "nat \<Rightarrow> mutex \<Rightarrow> mutex" where
  "mutex_exchange t m = (if \<not> mx_locked m then goto t Holding (m\<lparr>mx_locked := True\<rparr>) else goto t Checking m)"

definition mutex_wait :: "nat \<Rightarrow> mutex \<Rightarrow> mutex" where
  "mutex_wait t m = (if \<not> mx_locked m then goto t Trying m else goto t Asleep (m\<lparr>mx_waiters := mx_waiters m @ [t]\<rparr>))"

definition mutex_store :: "nat \<Rightarrow> mutex \<Rightarrow> mutex" where
  "mutex_store t m = goto t Waking (m\<lparr>mx_locked := False\<rparr>)"

definition mutex_wake :: "nat \<Rightarrow> mutex \<Rightarrow> mutex" where
  "mutex_wake t m =
     (let m = goto t Outside m in
      if mx_waiters m = [] then m
      else goto (last (mx_waiters m)) Checking (m\<lparr>mx_waiters := butlast (mx_waiters m)\<rparr>))"

inductive mutex_step :: "mutex \<Rightarrow> mutex \<Rightarrow> bool" where
  enter: "mx_phase m t = Outside \<Longrightarrow> mutex_step m (goto t Trying m)"
| exchange: "mx_phase m t = Trying \<Longrightarrow> mutex_step m (mutex_exchange t m)"
| wait: "mx_phase m t = Checking \<Longrightarrow> mutex_step m (mutex_wait t m)"
| store: "mx_phase m t = Holding \<Longrightarrow> mutex_step m (mutex_store t m)"
| wakeup: "mx_phase m t = Waking \<Longrightarrow> mutex_step m (mutex_wake t m)"

definition mutex_new :: mutex where
  "mutex_new = \<lparr>mx_locked = False, mx_waiters = [], mx_phase = (\<lambda>_. Outside)\<rparr>"

definition mutex_inv :: "mutex \<Rightarrow> bool" where
  "mutex_inv m \<longleftrightarrow>
     (\<forall>t u. mx_phase m t = Holding \<longrightarrow> mx_phase m u = Holding \<longrightarrow> t = u)
   \<and> (mx_locked m \<longleftrightarrow> (\<exists>t. mx_phase m t = Holding))
   \<and> distinct (mx_waiters m) \<and> (\<forall>t. t \<in> set (mx_waiters m) \<longleftrightarrow> mx_phase m t = Asleep)
   \<and> (mx_waiters m \<noteq> [] \<longrightarrow> mx_locked m \<or> (\<exists>t. mx_phase m t \<in> {Trying, Checking, Waking}))"

lemma goto_simps [simp]:
  "mx_locked (goto t p m) = mx_locked m" "mx_waiters (goto t p m) = mx_waiters m"
  "mx_phase (goto t p m) u = (if u = t then p else mx_phase m u)"
  by (simp_all add: goto_def)

lemma mutex_invI:
  assumes "\<And>t u. mx_phase m t = Holding \<Longrightarrow> mx_phase m u = Holding \<Longrightarrow> t = u"
    "mx_locked m \<longleftrightarrow> (\<exists>t. mx_phase m t = Holding)" "distinct (mx_waiters m)" "\<And>t. t \<in> set (mx_waiters m) \<longleftrightarrow> mx_phase m t = Asleep"
    "mx_waiters m \<noteq> [] \<Longrightarrow> mx_locked m \<or> (\<exists>t. mx_phase m t \<in> {Trying, Checking, Waking})"
  shows "mutex_inv m"
  unfolding mutex_inv_def using assms by blast

lemma mutex_invD:
  assumes "mutex_inv m"
  shows "mx_phase m t = Holding \<Longrightarrow> mx_phase m u = Holding \<Longrightarrow> t = u" "mx_locked m \<longleftrightarrow> (\<exists>t. mx_phase m t = Holding)"
    "distinct (mx_waiters m)" "t \<in> set (mx_waiters m) \<longleftrightarrow> mx_phase m t = Asleep"
    "mx_waiters m \<noteq> [] \<Longrightarrow> mx_locked m \<or> (\<exists>t. mx_phase m t \<in> {Trying, Checking, Waking})"
  using assms unfolding mutex_inv_def by blast+

lemma exchange_inv:
  assumes "mutex_inv m" "mx_phase m t = Trying"
  shows "mutex_inv (mutex_exchange t m)"
proof (cases "mx_locked m")
  case True
  note d = mutex_invD [OF assms(1)]
  obtain u where h: "mx_phase m u = Holding" using d(2) True by blast
  then have u: "mx_phase m u = Holding" "u \<noteq> t" using assms(2) by auto
  show ?thesis
    by (rule mutex_invI) (use d assms(2) u True in \<open>auto simp: mutex_exchange_def split: if_splits\<close>)
next
  case False
  note d = mutex_invD [OF assms(1)]
  have no: "mx_phase m u \<noteq> Holding" for u using d(2) False by blast
  show ?thesis
    by (rule mutex_invI) (use d(3,4) assms(2) no False in \<open>auto simp: mutex_exchange_def split: if_splits\<close>)
qed

lemma mutex_wait_inv:
  assumes "mutex_inv m" "mx_phase m t = Checking"
  shows "mutex_inv (mutex_wait t m)"
proof (cases "mx_locked m")
  case True
  note d = mutex_invD [OF assms(1)]
  obtain u where h: "mx_phase m u = Holding" using d(2) True by blast
  then have u: "mx_phase m u = Holding" "u \<noteq> t" using assms(2) by auto
  show ?thesis
    by (rule mutex_invI) (use d assms(2) u True in \<open>auto simp: mutex_wait_def split: if_splits\<close>)
next
  case False
  note d = mutex_invD [OF assms(1)]
  have no: "mx_phase m u \<noteq> Holding" for u using d(2) False by blast
  show ?thesis
    by (rule mutex_invI) (use d(3,4) assms(2) no False in \<open>auto simp: mutex_wait_def split: if_splits\<close>)
qed

lemma store_inv:
  assumes "mutex_inv m" "mx_phase m t = Holding"
  shows "mutex_inv (mutex_store t m)"
proof -
  note d = mutex_invD [OF assms(1)]
  have no: "mx_phase m u \<noteq> Holding" if "u \<noteq> t" for u using d(1) [of u t] assms(2) that by blast
  show ?thesis
    by (rule mutex_invI) (use d(3,4) assms(2) no in \<open>auto simp: mutex_store_def split: if_splits\<close>)
qed

lemma mutex_wake_inv:
  assumes "mutex_inv m" "mx_phase m t = Waking"
  shows "mutex_inv (mutex_wake t m)"
proof (cases "mx_waiters m" rule: rev_cases)
  case Nil
  note d = mutex_invD [OF assms(1)]
  have a: "mx_phase m u \<noteq> Asleep" for u using d(4) Nil by auto
  have l: "mx_locked m \<longleftrightarrow> (\<exists>u. u \<noteq> t \<and> mx_phase m u = Holding)" using d(2) assms(2) by (metis phase.distinct(29))
  show ?thesis
    by (rule mutex_invI) (use d(1) l assms(2) Nil a in \<open>auto simp: mutex_wake_def split: if_splits\<close>)
next
  case (snoc ws w)
  note d = mutex_invD [OF assms(1)]
  have w: "mx_phase m w = Asleep" "w \<notin> set ws" "distinct ws" "w \<noteq> t" using d(3) d(4) [of w] snoc assms(2) by auto
  have as: "u \<in> set ws \<longleftrightarrow> mx_phase m u = Asleep \<and> u \<noteq> w" for u using d(4) [of u] snoc w(2) by auto
  have e: "mutex_wake t m = goto w Checking ((goto t Outside m)\<lparr>mx_waiters := ws\<rparr>)" by (simp add: mutex_wake_def Let_def snoc)
  have l: "mx_locked m \<longleftrightarrow> (\<exists>u. u \<noteq> t \<and> u \<noteq> w \<and> mx_phase m u = Holding)" unfolding d(2)
  proof (rule iffI)
    assume "\<exists>u. mx_phase m u = Holding"
    then obtain u where u: "mx_phase m u = Holding" by blast
    have "u \<noteq> t" "u \<noteq> w" using u assms(2) w(1) by auto
    with u show "\<exists>u. u \<noteq> t \<and> u \<noteq> w \<and> mx_phase m u = Holding" by blast
  qed blast
  show ?thesis
    unfolding e by (rule mutex_invI) (use d(1) assms(2) w as l in \<open>auto split: if_splits\<close>)
qed

text \<open>
  C13. The sleeping mutex excludes and loses no wake-up. However the steps of the tasks that lock and unlock it
  interleave, at most one task holds it, it is locked exactly when one does, the sleeping tasks are
  exactly those in its queue, and a task sleeps only while the mutex is locked or somebody is on the way who
  will lock it or wake a sleeper.
\<close>

theorem mutex_excludes:
  assumes "mutex_step\<^sup>*\<^sup>* mutex_new m"
  shows "mutex_inv m"
  using assms
proof (induction rule: rtranclp_induct)
  case base
  show ?case by (rule mutex_invI) (simp_all add: mutex_new_def)
next
  case (step m m')
  from step.hyps(2) step.IH show ?case
  proof (induction rule: mutex_step.induct)
    case (enter m t)
    note d = mutex_invD [OF enter(2)]
    have l: "mx_locked m \<longleftrightarrow> (\<exists>u. u \<noteq> t \<and> mx_phase m u = Holding)" using d(2) enter(1) by (metis phase.distinct(7))
    show ?case by (rule mutex_invI) (use d(1,3,4) enter(1) l in \<open>auto split: if_splits\<close>)
  qed (simp_all add: exchange_inv mutex_wait_inv store_inv mutex_wake_inv)
qed

theorem mutex_excludes_witness: "mutex_inv (mutex_exchange 4 (goto 4 Trying mutex_new))"
proof (rule mutex_excludes)
  have "mutex_step mutex_new (goto 4 Trying mutex_new)" by (rule enter) (simp add: mutex_new_def)
  moreover have "mutex_step (goto 4 Trying mutex_new) (mutex_exchange 4 (goto 4 Trying mutex_new))" by (rule exchange) simp
  ultimately show "mutex_step\<^sup>*\<^sup>* mutex_new (mutex_exchange 4 (goto 4 Trying mutex_new))" by simp
qed

text \<open>
  The mutex is not fair: the task that came last is woken first, so a task can wait for ever behind
  two that keep taking turns.
\<close>

theorem mutex_wakes_the_last:
  assumes "mx_waiters m = ws @ [w]" "t \<notin> set (ws @ [w])"
  shows "mx_waiters (mutex_wake t m) = ws" "mx_phase (mutex_wake t m) w = Checking"
  using assms by (simp_all add: mutex_wake_def Let_def)

end
