(* ===== verification/Event_Fd.thy ===== *)
theory Event_Fd
  imports Tty
begin

text \<open>
  Counting files, src/research/kernel-rs/kernel/src/syscall/poll.rs: \<open>eventfd\<close> and \<open>timerfd\<close>. Each holds a counter that a
  read takes; a read of zero waits. Counters and times are 64-bit words. The clock is an argument; a value is
  read and written as eight bytes, least significant first.
\<close>

section \<open>Bytes\<close>

definition le64 :: "u64 \<Rightarrow> u8 list" where
  "le64 v = map (\<lambda>i. ucast (drop_bit (8 * i) v)) [0..<8]"

definition from_le64 :: "u8 list \<Rightarrow> u64" where
  "from_le64 bs = foldr (\<lambda>b v. ucast b OR push_bit 8 v) (take 8 bs) 0"

lemma length_le64 [simp]: "length (le64 v) = 8"
  by (simp add: le64_def)

lemma ucast_u8: "(ucast (ucast (w :: u64) :: u8) :: u64) = take_bit 8 w"
  by (rule bit_word_eqI) (auto simp: bit_simps)

lemma from_le64_le64: "from_le64 (le64 v @ bs) = v"
proof -
  have u: "[0..<8] = [0, 1, 2, 3, 4, 5, 6, 7 :: nat]" by (simp add: upt_rec)
  have step: "take_bit 8 w OR push_bit 8 (drop_bit 8 w) = w" for w :: u64
    by (rule bit_word_eqI) (auto simp: bit_simps, metis add_diff_inverse_nat)
  have s: "take_bit 8 (drop_bit n v) OR push_bit 8 (drop_bit (n + 8) v) = drop_bit n v" for n
    using step [of "drop_bit n v"] by (simp add: drop_bit_drop_bit add.commute)
  have z: "push_bit 8 (0 :: u64) = push_bit 8 (drop_bit (56 + 8) v)"
    by (rule bit_word_eqI) (auto simp: bit_simps)
  show ?thesis
    using s [of 56] s [of 48] s [of 40] s [of 32] s [of 24] s [of 16] s [of 8] s [of 0] z
    by (simp add: from_le64_def le64_def u ucast_u8)
qed

section \<open>Calls that may wait\<close>

text \<open>
  A call tries, and \<open>None\<close> says that it must wait; each resumption carries the state it finds, and says
  whether a signal ended the wait.
\<close>

datatype 'e fd_wake = FWoken 'e | FInterrupted 'e

datatype ('a, 'e) fd_result = FDone "'a kresult" 'e | FAsleep 'e

fun fd_loop :: "('e \<Rightarrow> 'a kresult option \<times> 'e) \<Rightarrow> bool \<Rightarrow> 'e \<Rightarrow> 'e fd_wake list \<Rightarrow> ('a, 'e) fd_result" where
  "fd_loop try nb e ws =
     (case try e of
        (Some r, e') \<Rightarrow> FDone r e'
      | (None, e') \<Rightarrow>
          if nb then FDone (Inl EAGAIN) e'
          else (case ws of
             [] \<Rightarrow> FAsleep e'
           | FInterrupted e'' # _ \<Rightarrow> FDone (Inl EINTR) e''
           | FWoken e'' # ws' \<Rightarrow> fd_loop try nb e'' ws'))"

declare fd_loop.simps [simp del]

section \<open>Event counters\<close>

record eventfd =
  ev_count :: u64
  ev_semaphore :: bool

definition eventfd_new :: "u32 \<Rightarrow> u32 \<Rightarrow> eventfd" where
  "eventfd_new initval flags = \<lparr>ev_count = ucast initval, ev_semaphore = has flags 1\<rparr>"

definition eventfd_take :: "nat \<Rightarrow> eventfd \<Rightarrow> u8 list kresult option \<times> eventfd" where
  "eventfd_take n e =
     (if n < 8 then (Some (Inl EINVAL), e)
      else if 0 < ev_count e then
        (let v = (if ev_semaphore e then 1 else ev_count e) in (Some (Inr (le64 v)), e\<lparr>ev_count := ev_count e - v\<rparr>))
      else (None, e))"

definition eventfd_read :: "bool \<Rightarrow> nat \<Rightarrow> eventfd \<Rightarrow> eventfd fd_wake list \<Rightarrow> (u8 list, eventfd) fd_result" where
  "eventfd_read nb n e ws = fd_loop (eventfd_take n) nb e ws"

definition eventfd_put :: "u8 list \<Rightarrow> eventfd \<Rightarrow> nat kresult option \<times> eventfd" where
  "eventfd_put bs e =
     (if length bs < 8 then (Some (Inl EINVAL), e)
      else if from_le64 bs = - 1 then (Some (Inl EINVAL), e)
      else if from_le64 bs \<le> - 1 - 1 - ev_count e then (Some (Inr 8), e\<lparr>ev_count := ev_count e + from_le64 bs\<rparr>)
      else (None, e))"

definition eventfd_write :: "bool \<Rightarrow> u8 list \<Rightarrow> eventfd \<Rightarrow> eventfd fd_wake list \<Rightarrow> (nat, eventfd) fd_result" where
  "eventfd_write nb bs e ws = fd_loop (eventfd_put bs) nb e ws"

definition eventfd_poll :: "eventfd \<Rightarrow> u32" where
  "eventfd_poll e = (if 0 < ev_count e then POLLIN else 0) OR (if ev_count e < - 1 - 1 then POLLOUT else 0)"

text \<open>What is in the counter is what was put in less what was taken out, and it never overflows.\<close>

datatype event_op = Put u64 | Take

text \<open>Calls that do not wait, with the sums of what was put in and taken out.\<close>

fun event_run :: "event_op list \<Rightarrow> eventfd \<Rightarrow> nat \<times> nat \<times> eventfd" where
  "event_run [] e = (0, 0, e)"
| "event_run (Put v # es) e =
     (case eventfd_write True (le64 v) e [] of
        FDone (Inr _) e' \<Rightarrow> (case event_run es e' of (p, t, e'') \<Rightarrow> (unat v + p, t, e''))
      | FDone (Inl _) e' \<Rightarrow> event_run es e'
      | FAsleep e' \<Rightarrow> event_run es e')"
| "event_run (Take # es) e =
     (case eventfd_read True 8 e [] of
        FDone (Inr bs) e' \<Rightarrow> (case event_run es e' of (p, t, e'') \<Rightarrow> (p, unat (from_le64 bs) + t, e''))
      | FDone (Inl _) e' \<Rightarrow> event_run es e'
      | FAsleep e' \<Rightarrow> event_run es e')"

definition event_inv :: "eventfd \<Rightarrow> bool" where
  "event_inv e \<longleftrightarrow> ev_count e \<noteq> - 1"

lemma unat_max: "unat (- 1 - 1 :: u64) = 2 ^ 64 - 2"
proof -
  have m: "unat (- 1 :: u64) = 2 ^ 64 - 1" by (simp add: unsigned_minus_1_eq_mask mask_eq_exp_minus_1)
  have "unat (- 1 - 1 :: u64) = unat (- 1 :: u64) - unat (1 :: u64)" by (rule unat_sub) simp
  then show ?thesis unfolding m by simp
qed

lemma event_inv_unat: "event_inv e \<longleftrightarrow> unat (ev_count e) \<le> 2 ^ 64 - 2"
proof -
  have "unat (- 1 :: u64) = 2 ^ 64 - 1" by (simp add: unsigned_minus_1_eq_mask mask_eq_exp_minus_1)
  then have "ev_count e = - 1 \<longleftrightarrow> unat (ev_count e) = 2 ^ 64 - 1" by (metis word_unat_eq_iff)
  moreover have "unat (ev_count e) < 2 ^ 64" by (rule order_less_le_trans [OF unsigned_less]) simp
  ultimately show ?thesis by (auto simp: event_inv_def)
qed

lemma put_fits:
  assumes "event_inv e"
  shows "v \<le> - 1 - 1 - ev_count e \<longleftrightarrow> unat (ev_count e) + unat v \<le> 2 ^ 64 - 2"
proof -
  have c: "unat (ev_count e) \<le> 2 ^ 64 - 2" using assms by (simp add: event_inv_unat)
  then have "ev_count e \<le> - 1 - 1" unfolding word_le_nat_alt unat_max .
  then have "unat (- 1 - 1 - ev_count e) = 2 ^ 64 - 2 - unat (ev_count e)" using unat_sub [of "ev_count e" "- 1 - 1"] unat_max by simp
  then show ?thesis using c by (simp add: word_le_nat_alt) linarith
qed

lemma write_exact:
  assumes "event_inv e"
  shows "eventfd_write True (le64 v) e [] =
    (if v = - 1 then FDone (Inl EINVAL) e
     else if unat (ev_count e) + unat v \<le> 2 ^ 64 - 2 then FDone (Inr 8) (e\<lparr>ev_count := ev_count e + v\<rparr>)
     else FDone (Inl EAGAIN) e)"
  using from_le64_le64 [of v "[]"] put_fits [OF assms, of v]
  by (simp add: eventfd_write_def fd_loop.simps eventfd_put_def)

lemma read_exact:
  "eventfd_read True 8 e [] =
    (if ev_count e = 0 then FDone (Inl EAGAIN) e
     else FDone (Inr (le64 (if ev_semaphore e then 1 else ev_count e))) (e\<lparr>ev_count := ev_count e - (if ev_semaphore e then 1 else ev_count e)\<rparr>))"
  by (simp add: eventfd_read_def fd_loop.simps eventfd_take_def Let_def word_gt_0)

lemma event_run_exact:
  assumes "event_inv e"
  shows "case event_run es e of (p, t, e') \<Rightarrow> unat (ev_count e) + p = t + unat (ev_count e') \<and> event_inv e' \<and> ev_semaphore e' = ev_semaphore e"
  using assms
proof (induction es arbitrary: e)
  case Nil
  then show ?case by simp
next
  case (Cons op es)
  show ?case
  proof (cases op)
    case (Put v)
    note w = write_exact [OF Cons.prems, of v]
    show ?thesis
    proof (cases "v \<noteq> - 1 \<and> unat (ev_count e) + unat v \<le> 2 ^ 64 - 2")
      case True
      let ?e = "e\<lparr>ev_count := ev_count e + v\<rparr>"
      have u: "unat (ev_count e + v) = unat (ev_count e) + unat v" using True by (simp add: unat_add_lem [symmetric])
      then have "event_inv ?e" using True by (simp add: event_inv_unat)
      then show ?thesis using Cons.IH [of ?e] True u Put by (auto simp: w split: prod.splits)
    next
      case False
      then show ?thesis using Cons.IH [OF Cons.prems] Put by (auto simp: w split: prod.splits)
    qed
  next
    case Take
    show ?thesis
    proof (cases "ev_count e = 0")
      case True
      then show ?thesis using Cons.IH [OF Cons.prems] Take by (simp add: read_exact)
    next
      case False
      define v where "v = (if ev_semaphore e then 1 else ev_count e)"
      let ?e = "e\<lparr>ev_count := ev_count e - v\<rparr>"
      have v: "v \<le> ev_count e" using False by (simp add: v_def word_le_nat_alt unat_gt_0 Suc_leI)
      then have u: "unat (ev_count e - v) = unat (ev_count e) - unat v" by (rule unat_sub)
      have i: "event_inv ?e" using Cons.prems u by (simp add: event_inv_unat)
      have "unat v \<le> unat (ev_count e)" using v by (simp add: word_le_nat_alt)
      moreover have "eventfd_read True 8 e [] = FDone (Inr (le64 v)) ?e" using False by (simp add: read_exact v_def)
      ultimately show ?thesis
        using Cons.IH [OF i] u Take from_le64_le64 [of v "[]"] by (auto split: prod.splits)
    qed
  qed
qed

text \<open>
  C19. An event counter neither loses nor invents events: after any sequence of writes and reads that do not wait,
  the initial value and everything written equal everything read and what is left, as natural numbers; the
  counter never wraps and never reaches the reserved value. A write is refused exactly when it would
  not fit, a read exactly when the counter is zero, and polling says so.
\<close>

theorem eventfd_conserves:
  "case event_run es (eventfd_new initval flags) of (put, taken, e) \<Rightarrow>
     unat initval + put = taken + unat (ev_count e) \<and> unat (ev_count e) \<le> 2 ^ 64 - 2
   \<and> (has (eventfd_poll e) POLLIN \<longleftrightarrow> eventfd_read True 8 e [] \<noteq> FDone (Inl EAGAIN) e)
   \<and> (has (eventfd_poll e) POLLOUT \<longleftrightarrow> eventfd_write True (le64 1) e [] \<noteq> FDone (Inl EAGAIN) e)"
proof -
  let ?e = "eventfd_new initval flags"
  have l: "unat initval < 2 ^ 32" by (rule order_less_le_trans [OF unsigned_less]) simp
  have u: "unat (ucast initval :: u64) = unat initval" using l by (simp add: unsigned_ucast_eq take_bit_nat_eq_self)
  then have "event_inv ?e" using l by (simp add: event_inv_unat eventfd_new_def u)
  from event_run_exact [OF this, of es] obtain p t e where
    r: "event_run es ?e = (p, t, e)" "unat initval + p = t + unat (ev_count e)" "event_inv e"
    by (cases "event_run es ?e") (auto simp: eventfd_new_def u)
  have one: "unat (1 :: u64) = 1" "(1 :: u64) \<noteq> - 1" by simp_all
  have "has (eventfd_poll e) POLLIN \<longleftrightarrow> ev_count e \<noteq> 0" "has (eventfd_poll e) POLLOUT \<longleftrightarrow> ev_count e < - 1 - 1"
    by (auto simp: eventfd_poll_def has_def POLLIN_def POLLOUT_def word_gt_0)
  moreover have "ev_count e < - 1 - 1 \<longleftrightarrow> unat (ev_count e) + 1 \<le> 2 ^ 64 - 2" unfolding word_less_nat_alt unat_max by auto
  ultimately show ?thesis using r(2,3) event_inv_unat [of e] one by (simp add: r(1) read_exact write_exact [OF r(3)])
qed

end
