(* ===== verification/Timer_Fd.thy ===== *)
theory Timer_Fd
  imports Event_Fd
begin

text \<open>
  Timers a process reads or is signalled by, src/research/kernel-rs/kernel/src/syscall/poll.rs (\<open>timerfd\<close>) and
  syscall/time.rs (times of day in user memory, interval timers). Times are nanoseconds since the machine
  started, 64-bit words; the clock is an argument. A word pair read from user memory is an argument, as is the
  outcome of writing one.

  \<open>timerfd_tick\<close> is written to be called from the timer tick, and nothing in the kernel calls it: \<open>tick\<close> of
  sched/timer.rs wakes sleepers and rings interval timers only. The section on timer files that never expire says what
  this means for programs; what the unused routine would count comes after it.
\<close>

section \<open>Times in user memory\<close>

definition NSEC :: u64 where "NSEC = 1000000000"

text \<open>\<open>write_timespec\<close>: the two words that are written; \<open>read_timespec\<close>: from the two that were read.\<close>

definition write_timespec :: "u64 \<Rightarrow> u64 \<times> u64" where
  "write_timespec ns = (ns div NSEC, ns mod NSEC)"

definition read_timespec :: "u64 \<times> u64 \<Rightarrow> u64 kresult" where
  "read_timespec t =
     (case t of (s, ns) \<Rightarrow> if s <s 0 \<or> ns <s 0 \<or> NSEC \<le>s ns then Inl EINVAL else Inr (s * NSEC + ns))"

definition read_timeval :: "u64 \<times> u64 \<Rightarrow> u64 kresult" where
  "read_timeval t =
     (case t of (s, us) \<Rightarrow> if s <s 0 \<or> us <s 0 \<or> 1000000 \<le>s us then Inl EINVAL else Inr (s * NSEC + us * 1000))"

definition write_timeval :: "u64 \<Rightarrow> u64 \<times> u64" where
  "write_timeval ns = (ns div NSEC, ns mod NSEC div 1000)"

definition saturating_sub :: "u64 \<Rightarrow> u64 \<Rightarrow> u64" where
  "saturating_sub a b = (if a < b then 0 else a - b)"

text \<open>What is left until a deadline, none of a timer that is not set.\<close>

definition left_until :: "u64 \<Rightarrow> u64 \<Rightarrow> u64" where
  "left_until next now = (if next = 0 then 0 else saturating_sub next now)"

section \<open>Timer files\<close>

record timerfd =
  tm_clock :: u32
  tm_next :: u64
  tm_interval :: u64
  tm_expirations :: u64

definition timerfd_create :: "u32 \<Rightarrow> timerfd kresult" where
  "timerfd_create clock =
     (if clock \<noteq> 0 \<and> clock \<noteq> 1 \<and> clock \<noteq> 7 then Inl EINVAL
      else Inr \<lparr>tm_clock = clock, tm_next = 0, tm_interval = 0, tm_expirations = 0\<rparr>)"

text \<open>
  One timer at a tick, and whether its waiters are woken; \<open>timerfd_tick\<close> does it to every open timer. No code calls
  \<open>timerfd_tick\<close>.
\<close>

definition timer_fire :: "u64 \<Rightarrow> timerfd \<Rightarrow> bool \<times> timerfd" where
  "timer_fire now t =
     (if tm_next t \<noteq> 0 \<and> tm_next t \<le> now then
        (if tm_interval t \<noteq> 0 then
           (let missed = (now - tm_next t) div tm_interval t + 1
            in (True, t\<lparr>tm_expirations := tm_expirations t + missed, tm_next := tm_next t + missed * tm_interval t\<rparr>))
         else (True, t\<lparr>tm_expirations := tm_expirations t + 1, tm_next := 0\<rparr>))
      else (False, t))"

definition timerfd_tick :: "u64 \<Rightarrow> timerfd list \<Rightarrow> (bool \<times> timerfd) list" where
  "timerfd_tick now ts = map (timer_fire now) ts"

text \<open>
  \<open>clk\<close> is the timer's clock, which may have no reading; \<open>old\<close> is the outcome of the two writes of the former
  setting, when it was asked for. The result carries the words written.
\<close>

definition timerfd_settime ::
  "u64 \<Rightarrow> (u32 \<Rightarrow> u64 kresult) \<Rightarrow> u32 \<Rightarrow> (u64 \<times> u64) kresult \<Rightarrow> (u64 \<times> u64) kresult \<Rightarrow> (unit kresult \<times> unit kresult) option
    \<Rightarrow> timerfd \<Rightarrow> unit kresult \<times> (u64 \<times> u64) list \<times> timerfd" where
  "timerfd_settime now clk flags new_interval new_value old t =
     (case new_interval of Inl e \<Rightarrow> (Inl e, [], t)
      | Inr ti \<Rightarrow>
     (case read_timespec ti of Inl e \<Rightarrow> (Inl e, [], t)
      | Inr interval \<Rightarrow>
     (case new_value of Inl e \<Rightarrow> (Inl e, [], t)
      | Inr tv \<Rightarrow>
     (case read_timespec tv of Inl e \<Rightarrow> (Inl e, [], t)
      | Inr v \<Rightarrow>
        (let was = [write_timespec (tm_interval t), write_timespec (left_until (tm_next t) now)];
             t' = (if v = 0 then t\<lparr>tm_next := 0, tm_interval := 0, tm_expirations := 0\<rparr>
                   else if has flags 1 then
                     (let clock_now = (case clk (tm_clock t) of Inr c \<Rightarrow> c | Inl _ \<Rightarrow> now)
                      in t\<lparr>tm_next := now + saturating_sub v clock_now, tm_interval := interval, tm_expirations := 0\<rparr>)
                   else t\<lparr>tm_next := now + v, tm_interval := interval, tm_expirations := 0\<rparr>)
         in case old of
              None \<Rightarrow> (Inr (), [], t')
            | Some (Inl e, _) \<Rightarrow> (Inl e, [], t)
            | Some (Inr _, Inl e) \<Rightarrow> (Inl e, take 1 was, t)
            | Some (Inr _, Inr _) \<Rightarrow> (Inr (), was, t'))))))"

definition timerfd_gettime :: "u64 \<Rightarrow> timerfd \<Rightarrow> (u64 \<times> u64) \<times> (u64 \<times> u64)" where
  "timerfd_gettime now t = (write_timespec (tm_interval t), write_timespec (left_until (tm_next t) now))"

definition timerfd_take :: "nat \<Rightarrow> timerfd \<Rightarrow> u8 list kresult option \<times> timerfd" where
  "timerfd_take n t =
     (if n < 8 then (Some (Inl EINVAL), t)
      else if 0 < tm_expirations t then (Some (Inr (le64 (tm_expirations t))), t\<lparr>tm_expirations := 0\<rparr>)
      else (None, t))"

definition timerfd_read :: "bool \<Rightarrow> nat \<Rightarrow> timerfd \<Rightarrow> timerfd fd_wake list \<Rightarrow> (u8 list, timerfd) fd_result" where
  "timerfd_read nb n t ws = fd_loop (timerfd_take n) nb t ws"

definition timerfd_poll :: "timerfd \<Rightarrow> u32" where
  "timerfd_poll t = (if 0 < tm_expirations t then POLLIN else 0)"

section \<open>Interval timers of a process\<close>

record itimer =
  it_next :: u64
  it_interval :: u64

text \<open>\<open>tick_itimers\<close> on one process; the flag says that SIGALRM is sent.\<close>

definition tick_itimer :: "u64 \<Rightarrow> itimer \<Rightarrow> bool \<times> itimer" where
  "tick_itimer now it =
     (if it_next it \<noteq> 0 \<and> it_next it \<le> now then
        (True, it\<lparr>it_next := if it_interval it \<noteq> 0 then now + it_interval it else 0\<rparr>)
      else (False, it))"

text \<open>
  The end of \<open>tick\<close> of sched/timer.rs for the interval timers of all processes: when no task sleeps with a
  deadline it returns before it looks at them.
\<close>

definition ring_itimers :: "u64 \<Rightarrow> (u64 \<times> nat) list \<Rightarrow> itimer list \<Rightarrow> (bool \<times> itimer) list" where
  "ring_itimers now sleepers its = (if sleepers = [] then map (\<lambda>it. (False, it)) its else map (tick_itimer now) its)"

definition getitimer :: "u32 \<Rightarrow> u64 \<Rightarrow> itimer \<Rightarrow> ((u64 \<times> u64) \<times> (u64 \<times> u64)) kresult" where
  "getitimer which now it =
     (if which \<noteq> 0 then Inl EINVAL
      else Inr (write_timeval (it_interval it), write_timeval (left_until (it_next it) now)))"

text \<open>\<open>old\<close>: the outcome of writing the former setting; \<open>new\<close>: the interval and value read, where one was given.\<close>

definition setitimer ::
  "u32 \<Rightarrow> u64 \<Rightarrow> unit kresult option \<Rightarrow> ((u64 \<times> u64) kresult \<times> (u64 \<times> u64) kresult) option \<Rightarrow> itimer \<Rightarrow> unit kresult \<times> itimer" where
  "setitimer which now old new it =
     (if which \<noteq> 0 then (if which = 1 \<or> which = 2 then (Inr (), it) else (Inl EINVAL, it))
      else (case old of
          Some (Inl e) \<Rightarrow> (Inl e, it)
        | _ \<Rightarrow> (case new of
            None \<Rightarrow> (Inr (), it)
          | Some (Inl e, _) \<Rightarrow> (Inl e, it)
          | Some (Inr ti, rv) \<Rightarrow>
             (case read_timeval ti of Inl e \<Rightarrow> (Inl e, it)
              | Inr interval \<Rightarrow>
             (case rv of Inl e \<Rightarrow> (Inl e, it)
              | Inr tv \<Rightarrow>
             (case read_timeval tv of Inl e \<Rightarrow> (Inl e, it)
              | Inr v \<Rightarrow> (Inr (), \<lparr>it_next = if v = 0 then 0 else now + v, it_interval = interval\<rparr>)))))))"

definition alarm :: "u32 \<Rightarrow> u64 \<Rightarrow> itimer \<Rightarrow> u64 \<times> itimer" where
  "alarm secs now it =
     (if it_next it = 0 then 0 else (saturating_sub (it_next it) now + 999999999) div NSEC,
      \<lparr>it_next = if secs = 0 then 0 else now + ucast secs * NSEC, it_interval = 0\<rparr>)"

section \<open>Times are read back as written\<close>

lemma unat_NSEC [simp]: "unat NSEC = 1000000000"
  by (simp add: NSEC_def)

lemma sint_small:
  assumes "unat (a :: u64) < 2 ^ 63"
  shows "sint a = int (unat a)"
proof -
  have "int (unat a) < int (2 ^ 63)" using assms by (simp only: of_nat_less_iff)
  then have "signed_take_bit 63 (uint a) = uint a" by (intro signed_take_bit_int_eq_self) (simp_all add: order_trans [OF _ uint_ge_0])
  then show ?thesis by (simp add: sint_uint)
qed

lemma word_sless_small: "unat (a :: u64) < 2 ^ 63 \<Longrightarrow> unat b < 2 ^ 63 \<Longrightarrow> a <s b \<longleftrightarrow> unat a < unat b"
  by (simp add: word_sless_alt sint_small word_less_nat_alt flip: word_less_def)

lemma word_sle_small: "unat (a :: u64) < 2 ^ 63 \<Longrightarrow> unat b < 2 ^ 63 \<Longrightarrow> a \<le>s b \<longleftrightarrow> unat a \<le> unat b"
  by (simp add: word_sle_eq sint_small word_le_nat_alt flip: word_le_def)

text \<open>A reading is the number of nanoseconds whenever that fits a word.\<close>

lemma read_timespec_exact:
  assumes "unat s < 2 ^ 63" and "unat ns < 10 ^ 9" and "unat s * 10 ^ 9 + unat ns < 2 ^ 64"
  shows "\<exists>v. read_timespec (s, ns) = Inr v \<and> unat v = unat s * 10 ^ 9 + unat ns"
proof -
  have "unat s * unat NSEC < 2 ^ LENGTH(64)" using assms(3) by simp
  then have m: "unat (s * NSEC) = unat s * 10 ^ 9" by (simp add: unat_mult_lem [THEN iffD1])
  then have "unat (s * NSEC) + unat ns < 2 ^ LENGTH(64)" using assms(3) by simp
  then have "unat (s * NSEC + ns) = unat s * 10 ^ 9 + unat ns" using m unat_add_lem [of "s * NSEC" ns] by simp
  moreover have "\<not> s <s 0" "\<not> ns <s 0" "\<not> NSEC \<le>s ns"
    using assms(1,2) by (auto simp: word_sless_small word_sle_small)
  ultimately show ?thesis by (simp add: read_timespec_def)
qed

lemma read_write_timespec: "read_timespec (write_timespec ns) = Inr ns"
proof -
  have l: "unat ns < 2 ^ 64" by (rule order_less_le_trans [OF unsigned_less]) simp
  have d: "unat (ns div NSEC) = unat ns div 10 ^ 9" "unat (ns mod NSEC) = unat ns mod 10 ^ 9"
    by (simp_all add: unat_div_distrib unat_mod_distrib)
  have "unat (ns div NSEC) < 2 ^ 63" unfolding d by (rule less_mult_imp_div_less) (use l in simp)
  moreover have "unat (ns mod NSEC) < 10 ^ 9" unfolding d by simp
  moreover have e: "unat (ns div NSEC) * 10 ^ 9 + unat (ns mod NSEC) = unat ns" unfolding d by (rule div_mult_mod_eq)
  ultimately obtain v where "read_timespec (ns div NSEC, ns mod NSEC) = Inr v" "unat v = unat ns"
    using read_timespec_exact [of "ns div NSEC" "ns mod NSEC"] l by auto
  then show ?thesis by (simp add: write_timespec_def word_unat_eq_iff)
qed

text \<open>
  A time of more than about 584 years is not refused and not cut to the longest there is: the product wraps, so
  a program that asks for a wait of practically for ever gets one of any length, here of three tenths of a second.
\<close>

lemma long_timeout_wraps: "read_timespec (18446744074, 0) = Inr 290448384"
  by code_simp

text \<open>An alarm that is due rings only if some task happens to sleep with a deadline.\<close>

lemma alarm_needs_a_sleeper:
  "ring_itimers 2000000000 [] [snd (alarm 1 0 \<lparr>it_next = 0, it_interval = 0\<rparr>)] = [(False, \<lparr>it_next = 1000000000, it_interval = 0\<rparr>)]"
  "ring_itimers 2000000000 [(9000000000, 3)] [snd (alarm 1 0 \<lparr>it_next = 0, it_interval = 0\<rparr>)] = [(True, \<lparr>it_next = 0, it_interval = 0\<rparr>)]"
  by code_simp+

section \<open>Timer files never expire\<close>

text \<open>
  The operations a program has on a timer file: setting it, asking for its setting, reading it and polling it. Without
  \<open>timerfd_tick\<close> they are all that happens to it.
\<close>

datatype timer_call =
    SetTime u64 "u32 \<Rightarrow> u64 kresult" u32 "(u64 \<times> u64) kresult" "(u64 \<times> u64) kresult" "(unit kresult \<times> unit kresult) option"
  | ReadTimer nat

fun timer_called :: "timer_call \<Rightarrow> timerfd \<Rightarrow> timerfd" where
  "timer_called (SetTime now clk flags ti tv old) t = snd (snd (timerfd_settime now clk flags ti tv old t))"
| "timer_called (ReadTimer n) t = snd (timerfd_take n t)"

text \<open>
  However a timer file is set and read and however late it is, it has no expiration to report: it polls as not
  readable, a read that must not wait gets EAGAIN and any other read sleeps.
\<close>

theorem timer_file_never_expires:
  assumes "timerfd_create clock = Inr t"
  shows "let t' = fold timer_called cs t
    in timerfd_poll t' = 0 \<and> timerfd_read True 8 t' [] = FDone (Inl EAGAIN) t' \<and> timerfd_read False 8 t' [] = FAsleep t'"
proof -
  have keep: "tm_expirations (timer_called c u) = 0" if "tm_expirations u = 0" for c u
    using that by (cases c) (auto simp: timerfd_settime_def timerfd_take_def Let_def split: sum.splits option.splits prod.splits)
  have "tm_expirations (fold timer_called cs u) = 0" if "tm_expirations u = 0" for u
    using that by (induction cs arbitrary: u) (auto simp: keep)
  moreover have "tm_expirations t = 0" using assms by (auto simp: timerfd_create_def split: if_splits)
  ultimately show ?thesis by (simp add: timerfd_poll_def timerfd_read_def fd_loop.simps timerfd_take_def Let_def)
qed

section \<open>What the tick would count\<close>

text \<open>The number of times that are due by \<open>T\<close>, for a timer first due at \<open>D\<close> and then every \<open>I\<close>.\<close>

definition due :: "nat \<Rightarrow> nat \<Rightarrow> nat \<Rightarrow> nat" where
  "due D I T = (if T < D then 0 else (T - D) div I + 1)"

lemma due_mono_eq: "0 < I \<Longrightarrow> T \<le> T' \<Longrightarrow> T' < D + due D I T * I \<Longrightarrow> due D I T' = due D I T"
proof -
  assume a: "0 < I" "T \<le> T'" "T' < D + due D I T * I"
  show ?thesis
  proof (cases "T < D")
    case True
    then show ?thesis using a by (simp add: due_def)
  next
    case False
    then have "T' - D < ((T - D) div I + 1) * I" using a by (simp add: due_def)
    then have "(T' - D) div I < (T - D) div I + 1" by (rule less_mult_imp_div_less)
    moreover have "(T - D) div I \<le> (T' - D) div I" using a by (simp add: div_le_mono)
    ultimately show ?thesis using False a by (simp add: due_def)
  qed
qed

lemma due_step:
  assumes "0 < I" and "D + k * I \<le> T"
  shows "due D I T = k + ((T - (D + k * I)) div I + 1)"
proof -
  have "T - D = k * I + (T - (D + k * I))" using assms(2) by simp
  then have "(T - D) div I = k + (T - (D + k * I)) div I" using assms(1) by (metis div_mult_self3 add.commute neq0_conv)
  then show ?thesis using assms(2) by (simp add: due_def)
qed

datatype timer_op = Tick u64 | Collect

text \<open>Ticks and reads that do not wait, with the sum of what was read.\<close>

fun timer_run :: "timer_op list \<Rightarrow> timerfd \<Rightarrow> nat \<times> timerfd" where
  "timer_run [] t = (0, t)"
| "timer_run (Tick now # os) t = timer_run os (snd (timer_fire now t))"
| "timer_run (Collect # os) t =
     (case timerfd_read True 8 t [] of
        FDone (Inr bs) t' \<Rightarrow> (case timer_run os t' of (c, t'') \<Rightarrow> (unat (from_le64 bs) + c, t''))
      | FDone (Inl _) t' \<Rightarrow> timer_run os t'
      | FAsleep t' \<Rightarrow> timer_run os t')"

text \<open>The clock does not run backwards; the last reading.\<close>

fun ticks_from :: "u64 \<Rightarrow> timer_op list \<Rightarrow> bool" where
  "ticks_from T [] \<longleftrightarrow> True"
| "ticks_from T (Tick now # os) \<longleftrightarrow> T \<le> now \<and> ticks_from now os"
| "ticks_from T (Collect # os) \<longleftrightarrow> ticks_from T os"

fun last_tick :: "u64 \<Rightarrow> timer_op list \<Rightarrow> u64" where
  "last_tick T [] = T"
| "last_tick T (Tick now # os) = last_tick now os"
| "last_tick T (Collect # os) = last_tick T os"

lemma last_tick_ge: "ticks_from T os \<Longrightarrow> T \<le> last_tick T os"
  by (induction os arbitrary: T rule: ticks_from.induct) (auto intro: order_trans)

text \<open>
  The interval timer of a process keeps no such count: a late tick moves all later ones, so of two tick
  sequences that cover the same four periods, one rings four times and the other twice, where the timer file counts
  four and stays on its grid.
\<close>

fun itimer_run :: "u64 list \<Rightarrow> itimer \<Rightarrow> nat \<times> itimer" where
  "itimer_run [] it = (0, it)"
| "itimer_run (now # ns) it =
     (case tick_itimer now it of (rings, it') \<Rightarrow> (case itimer_run ns it' of (k, it'') \<Rightarrow> ((if rings then 1 else 0) + k, it'')))"

lemma itimer_drifts:
  "itimer_run [1100, 2100, 3100, 4100] \<lparr>it_next = 1000, it_interval = 1000\<rparr> = (4, \<lparr>it_next = 5100, it_interval = 1000\<rparr>)"
  "itimer_run [1100, 2050, 3150, 4100] \<lparr>it_next = 1000, it_interval = 1000\<rparr> = (2, \<lparr>it_next = 4150, it_interval = 1000\<rparr>)"
  "snd (timer_run [Tick 1100, Tick 2050, Tick 3150, Tick 4100] \<lparr>tm_clock = 1, tm_next = 1000, tm_interval = 1000, tm_expirations = 0\<rparr>)
     = \<lparr>tm_clock = 1, tm_next = 5000, tm_interval = 1000, tm_expirations = 4\<rparr>"
  by code_simp+

text \<open>\<open>c\<close> is what was read so far, \<open>T\<close> the last tick.\<close>

definition timer_inv :: "nat \<Rightarrow> nat \<Rightarrow> u64 \<Rightarrow> nat \<Rightarrow> timerfd \<Rightarrow> bool" where
  "timer_inv D I T c t \<longleftrightarrow> 0 < D \<and> 0 < I \<and> unat (tm_interval t) = I
     \<and> unat (tm_next t) = D + due D I (unat T) * I \<and> c + unat (tm_expirations t) = due D I (unat T)"

lemma due_bound:
  assumes "D \<le> T"
  shows "D + due D I T * I \<le> T + I"
proof -
  have "D + (T - D) div I * I \<le> T" using div_times_less_eq_dividend [of "T - D" I] assms by (metis add.commute le_diff_conv2)
  then show ?thesis using assms by (simp add: due_def)
qed

lemma fire_keeps_inv:
  assumes i: "timer_inv D I T c t" and le: "T \<le> now" and room: "unat now + I < 2 ^ 64"
  shows "timer_inv D I now c (snd (timer_fire now t))"
proof (cases "tm_next t \<le> now")
  case False
  then have "unat now < D + due D I (unat T) * I" using i by (simp add: timer_inv_def word_le_nat_alt not_le)
  then have "due D I (unat now) = due D I (unat T)" using i le by (intro due_mono_eq) (simp_all add: timer_inv_def word_le_nat_alt)
  then show ?thesis using i False by (simp add: timer_inv_def timer_fire_def)
next
  case True
  let ?k = "due D I (unat T)" and ?m = "(now - tm_next t) div tm_interval t + 1"
  have I: "0 < I" "unat (tm_interval t) = I" "unat (tm_next t) = D + ?k * I" "0 < D" "c + unat (tm_expirations t) = ?k"
    using i by (simp_all add: timer_inv_def)
  have n: "D + ?k * I \<le> unat now" using True I(3) by (simp add: word_le_nat_alt)
  have q: "unat ((now - tm_next t) div tm_interval t) = (unat now - (D + ?k * I)) div I"
    using unat_sub [OF True] I by (simp add: unat_div_distrib)
  note d = due_step [OF I(1) n]
  have "unat ((now - tm_next t) div tm_interval t) + 1 \<le> unat now" unfolding q
    using div_le_dividend [of "unat now - (D + ?k * I)" I] n I(4) by linarith
  then have m: "unat ?m = (unat now - (D + ?k * I)) div I + 1"
    using room unat_add_lem [of "(now - tm_next t) div tm_interval t" 1] q by simp
  have dn: "due D I (unat now) = ?k + unat ?m" using d m by simp
  have b: "D + due D I (unat now) * I < 2 ^ 64" using due_bound [of D "unat now" I] n room by simp
  then have b': "unat ?m * I + unat (tm_next t) < 2 ^ 64" unfolding dn I(3) by (simp add: algebra_simps)
  have mul: "unat (?m * tm_interval t) = unat ?m * I"
    using b' I(2) unat_mult_lem [of ?m "tm_interval t"] by simp
  then have nx: "unat (tm_next t + ?m * tm_interval t) = D + due D I (unat now) * I"
  proof -
    have "unat (tm_next t) + unat (?m * tm_interval t) < 2 ^ LENGTH(64)" unfolding mul using b' by simp
    from unat_add_lem [THEN iffD1, OF this]
    have "unat (tm_next t + ?m * tm_interval t) = unat (tm_next t) + unat ?m * I" unfolding mul .
    then show ?thesis unfolding dn I(3) by (simp only: add_mult_distrib add.assoc)
  qed
  have "due D I (unat now) \<le> due D I (unat now) * I" using I(1) by simp
  then have "unat (tm_expirations t) + unat ?m < 2 ^ 64" using b dn I(5) by linarith
  then have "c + unat (tm_expirations t + ?m) = due D I (unat now)"
    using unat_add_lem [of "tm_expirations t" ?m] dn I(5) by simp
  moreover have "tm_next t \<noteq> 0" "tm_interval t \<noteq> 0" using I by auto
  ultimately show ?thesis using True I nx by (simp add: timer_inv_def timer_fire_def Let_def)
qed

lemma timer_read_exact:
  "timerfd_read True 8 t [] =
    (if tm_expirations t = 0 then FDone (Inl EAGAIN) t else FDone (Inr (le64 (tm_expirations t))) (t\<lparr>tm_expirations := 0\<rparr>))"
  by (simp add: timerfd_read_def fd_loop.simps timerfd_take_def word_gt_0)

lemma timer_run_inv:
  assumes "timer_inv D I T c t" and "ticks_from T os" and "unat (last_tick T os) + I < 2 ^ 64"
  shows "case timer_run os t of (c', t') \<Rightarrow> timer_inv D I (last_tick T os) (c + c') t'"
  using assms
proof (induction os arbitrary: T c t rule: list.induct)
  case Nil
  then show ?case by simp
next
  case (Cons op os)
  show ?case
  proof (cases op)
    case (Tick now)
    then have "now \<le> last_tick now os" using Cons.prems by (simp add: last_tick_ge)
    then have "timer_inv D I now c (snd (timer_fire now t))"
      using Cons.prems Tick by (intro fire_keeps_inv [of _ _ T]) (simp_all add: word_le_nat_alt)
    then show ?thesis using Cons.IH [of now c] Cons.prems Tick by simp
  next
    case Collect
    show ?thesis
    proof (cases "tm_expirations t = 0")
      case True
      then show ?thesis using Cons Collect by (simp add: timer_read_exact)
    next
      case False
      have "timer_inv D I T (c + unat (tm_expirations t)) (t\<lparr>tm_expirations := 0\<rparr>)"
        using Cons.prems(1) by (simp add: timer_inv_def)
      from Cons.IH [OF this] show ?thesis
        using Cons.prems Collect False from_le64_le64 [of "tm_expirations t" "[]"]
        by (simp add: timer_read_exact split: prod.splits) (metis add.assoc)
    qed
  qed
qed

text \<open>
  Were \<open>timerfd_tick\<close> called, a periodic timer would neither lose nor repeat a period, however late its ticks are and however seldom it is
  read: armed at \<open>now\<close> for \<open>v\<close> and every \<open>interval\<close> from there, what was read plus what is still to be read is
  exactly the number of its times up to the last tick, and it is next due at the first one after that.
\<close>

theorem timerfd_counts_exactly:
  assumes v: "read_timespec tv = Inr v" "v \<noteq> 0" and i: "read_timespec ti = Inr interval" "interval \<noteq> 0"
    and f: "\<not> has flags 1" and o: "ticks_from now os" and room: "unat (last_tick now os) + unat v + unat interval < 2 ^ 64"
  shows "case timer_run os (snd (snd (timerfd_settime now clk flags (Inr ti) (Inr tv) None t))) of (c, t') \<Rightarrow>
      c + unat (tm_expirations t') = due (unat now + unat v) (unat interval) (unat (last_tick now os))
    \<and> unat (tm_next t') = unat now + unat v + (c + unat (tm_expirations t')) * unat interval
    \<and> last_tick now os < tm_next t'"
proof -
  let ?t = "snd (snd (timerfd_settime now clk flags (Inr ti) (Inr tv) None t))"
  let ?D = "unat now + unat v" and ?I = "unat interval" and ?T = "last_tick now os"
  have le: "unat now \<le> unat ?T" using last_tick_ge [OF o] by (simp add: word_le_nat_alt)
  have nz: "0 < unat v" "0 < ?I" using v(2) i(2) by (simp_all add: unat_gt_0)
  have "unat (now + v) = ?D" using unat_add_lem [of now v] le room by simp
  then have "timer_inv ?D ?I now 0 ?t"
    using v i f nz by (simp add: timerfd_settime_def timer_inv_def due_def)
  from timer_run_inv [OF this o] room obtain c t' where
    r: "timer_run os ?t = (c, t')" and inv: "timer_inv ?D ?I ?T c t'" by (cases "timer_run os ?t") auto
  have "unat ?T < ?D + due ?D ?I (unat ?T) * ?I"
  proof (cases "unat ?T < ?D")
    case False
    have "unat ?T - ?D < ((unat ?T - ?D) div ?I + 1) * ?I" using dividend_less_div_times [OF nz(2), of "unat ?T - ?D"] by simp
    then show ?thesis using False by (simp add: due_def)
  qed simp
  then show ?thesis using inv by (simp add: r timer_inv_def word_less_nat_alt)
qed

lemma timerfd_counts_exactly_witness:
  "case timer_run [Tick 3000000500, Collect, Tick 3000000600, Tick 9000000000]
      (snd (snd (timerfd_settime 500 (\<lambda>_. Inr 0) 0 (Inr (1, 0)) (Inr (2, 0)) None \<lparr>tm_clock = 1, tm_next = 0, tm_interval = 0, tm_expirations = 0\<rparr>))) of (c, t') \<Rightarrow>
     c + unat (tm_expirations t') = 7 \<and> unat (tm_next t') = 9000000500"
proof -
  have r: "read_timespec (2, 0) = Inr 2000000000" "read_timespec (1, 0) = Inr 1000000000" by code_simp+
  have d: "due 2000000500 1000000000 9000000000 = 7" by (simp add: due_def)
  show ?thesis
    using timerfd_counts_exactly [OF r(1) _ r(2), of 0 500 "[Tick 3000000500, Collect, Tick 3000000600, Tick 9000000000]" "\<lambda>_. Inr 0" "\<lparr>tm_clock = 1, tm_next = 0, tm_interval = 0, tm_expirations = 0\<rparr>"]
    by (auto simp: d has_def split: prod.splits)
qed

end
