(* ===== verification/Polling.thy ===== *)
theory Polling
  imports Timer_Fd
begin

text \<open>
  Waiting for several files, src/research/kernel-rs/kernel/src/syscall/poll.rs: \<open>poll\<close>, \<open>select\<close> and
  \<open>epoll\<close>. What a file is ready for is an argument, a function of the state \<open>'w\<close> at the time it is asked;
  a call that sleeps is given the list of its resumptions.
\<close>

section \<open>Scanning files\<close>

definition POLLERR :: u32 where "POLLERR = 8"

definition POLLNVAL :: u16 where "POLLNVAL = 0x20"

record pollfd =
  pf_fd :: u32
  pf_events :: u16
  pf_revents :: u16

definition deadline_from_ms :: "u64 \<Rightarrow> u64 \<Rightarrow> u64" where
  "deadline_from_ms now ms = (if ms <s 0 then 0 else now + ms * 1000000)"

text \<open>\<open>f\<close> is the open file of the entry, if it has one, and \<open>ask\<close> what a file is ready for. The count is 0 or 1.\<close>

definition poll_one :: "('f \<Rightarrow> u32) \<Rightarrow> 'f option \<Rightarrow> pollfd \<Rightarrow> pollfd \<times> nat" where
  "poll_one ask f p =
     (if pf_fd p <s 0 then (p\<lparr>pf_revents := 0\<rparr>, 0)
      else (case f of
          None \<Rightarrow> (p\<lparr>pf_revents := POLLNVAL\<rparr>, 1)
        | Some h \<Rightarrow>
            (let r = ask h AND (ucast (pf_events p) OR POLLERR OR POLLHUP)
             in if r \<noteq> 0 then (p\<lparr>pf_revents := ucast r\<rparr>, 1) else (p\<lparr>pf_revents := 0\<rparr>, 0))))"

definition poll_scan :: "('f \<Rightarrow> u32) \<Rightarrow> 'f option list \<Rightarrow> pollfd list \<Rightarrow> pollfd list \<times> nat" where
  "poll_scan ask fs ps =
     (let rs = map (\<lambda>(f, p). poll_one ask f p) (zip fs ps) in (map fst rs, sum_list (map snd rs)))"

datatype 'w poll_wake = PWoken 'w | PTimeout | PSignal

datatype 'a poll_result = PDone "nat kresult" 'a | PAsleep 'a

text \<open>The files are looked up once, before the loop. A deadline of all ones is a call that does not wait.\<close>

fun poll_loop :: "('w \<Rightarrow> 'f \<Rightarrow> u32) \<Rightarrow> 'f option list \<Rightarrow> u64 \<Rightarrow> 'w \<Rightarrow> pollfd list \<Rightarrow> 'w poll_wake list \<Rightarrow> pollfd list poll_result" where
  "poll_loop ask fs deadline w ps wakes =
     (case poll_scan (ask w) fs ps of (ps', n) \<Rightarrow>
        if 0 < n then PDone (Inr n) ps'
        else if deadline = - 1 then PDone (Inr 0) ps'
        else (case wakes of
            [] \<Rightarrow> PAsleep ps'
          | PTimeout # _ \<Rightarrow> PDone (Inr 0) ps'
          | PSignal # _ \<Rightarrow> PDone (Inl EINTR) ps'
          | PWoken w' # wakes' \<Rightarrow> poll_loop ask fs deadline w' ps' wakes'))"

declare poll_loop.simps [simp del]

definition poll_files :: "(u32 \<Rightarrow> 'f option) \<Rightarrow> pollfd list \<Rightarrow> 'f option list" where
  "poll_files table ps = map (\<lambda>p. if pf_fd p <s 0 then None else table (pf_fd p)) ps"

definition do_poll ::
  "('w \<Rightarrow> 'f \<Rightarrow> u32) \<Rightarrow> (u32 \<Rightarrow> 'f option) \<Rightarrow> pollfd list \<Rightarrow> u64 \<Rightarrow> 'w \<Rightarrow> 'w poll_wake list \<Rightarrow> pollfd list poll_result" where
  "do_poll ask table ps deadline w wakes = poll_loop ask (poll_files table ps) deadline w ps wakes"

text \<open>
  \<open>user\<close> is the entries read from user memory, \<open>out\<close> the outcome of writing them back. The result carries what
  was written.
\<close>

definition sys_poll ::
  "('w \<Rightarrow> 'f \<Rightarrow> u32) \<Rightarrow> (u32 \<Rightarrow> 'f option) \<Rightarrow> u64 \<Rightarrow> nat \<Rightarrow> pollfd list kresult \<Rightarrow> unit kresult \<Rightarrow> u64 \<Rightarrow> 'w \<Rightarrow> 'w poll_wake list
    \<Rightarrow> pollfd list option poll_result" where
  "sys_poll ask table now nfds user out timeout_ms w wakes =
     (if 4096 < nfds then PDone (Inl EINVAL) None
      else (case user of
          Inl e \<Rightarrow> PDone (Inl e) None
        | Inr ps \<Rightarrow>
            (case do_poll ask table ps (if timeout_ms = 0 then - 1 else deadline_from_ms now timeout_ms) w wakes of
               PDone (Inl e) _ \<Rightarrow> PDone (Inl e) None
             | PAsleep _ \<Rightarrow> PAsleep None
             | PDone (Inr n) ps' \<Rightarrow> (case out of Inl e \<Rightarrow> PDone (Inl e) None | Inr _ \<Rightarrow> PDone (Inr n) (Some ps')))))"

text \<open>The timeout of \<open>ppoll\<close>: no time given waits for ever, and a part of a millisecond is rounded up.\<close>

definition ppoll_timeout :: "(u64 \<times> u64) kresult option \<Rightarrow> u64 kresult" where
  "ppoll_timeout tmo =
     (case tmo of
        None \<Rightarrow> Inr (- 1)
      | Some (Inl e) \<Rightarrow> Inl e
      | Some (Inr t) \<Rightarrow> (case read_timespec t of Inl e \<Rightarrow> Inl e | Inr ns \<Rightarrow> Inr (if ns = 0 then 0 else (ns + 999999) div 1000000)))"

text \<open>The signal mask of the call: blocked signals, and the mask to put back after a signal has been handled.\<close>

definition set_temp_sigmask :: "u64 kresult option \<Rightarrow> nat \<Rightarrow> u64 \<Rightarrow> u64 option kresult \<times> u64" where
  "set_temp_sigmask sigmask sz blocked =
     (case sigmask of
        None \<Rightarrow> (Inr None, blocked)
      | Some r \<Rightarrow>
          if sz \<noteq> 8 then (Inl EINVAL, blocked)
          else (case r of Inl e \<Rightarrow> (Inl e, blocked) | Inr m \<Rightarrow> (Inr (Some blocked), m AND NOT (push_bit 8 1 OR push_bit 18 1))))"

definition restore_sigmask :: "bool \<Rightarrow> u64 option \<Rightarrow> u64 \<times> u64 option \<Rightarrow> u64 \<times> u64 option" where
  "restore_sigmask pending saved ms =
     (case saved of None \<Rightarrow> ms | Some m \<Rightarrow> if pending then (fst ms, Some m) else (m, snd ms))"

section \<open>Select\<close>

text \<open>
  A set in user memory is absent or read word by word; bit \<open>fd mod 64\<close> of word \<open>fd div 64\<close> stands for
  descriptor \<open>fd\<close>.
\<close>

definition set_words :: "nat \<Rightarrow> nat" where
  "set_words n = (n + 63) div 64"

definition read_fdset :: "nat \<Rightarrow> (nat \<Rightarrow> u64) kresult option \<Rightarrow> u64 list kresult" where
  "read_fdset n src =
     (case src of
        None \<Rightarrow> Inr (replicate (set_words n) 0)
      | Some (Inr f) \<Rightarrow> Inr (map f [0..<set_words n])
      | Some (Inl e) \<Rightarrow> if 0 < set_words n then Inl e else Inr [])"

definition fdset_bit :: "u64 list \<Rightarrow> nat \<Rightarrow> bool" where
  "fdset_bit v fd = (fd div 64 < length v \<and> v ! (fd div 64) AND push_bit (fd mod 64) 1 \<noteq> 0)"

definition fdset_put :: "nat \<Rightarrow> u64 list \<Rightarrow> u64 list" where
  "fdset_put fd v = v[fd div 64 := v ! (fd div 64) OR push_bit (fd mod 64) 1]"

definition select_events :: "u64 list \<Rightarrow> u64 list \<Rightarrow> u64 list \<Rightarrow> nat \<Rightarrow> u16" where
  "select_events rs ws es fd =
     (if fdset_bit rs fd then ucast POLLIN else 0) OR (if fdset_bit ws fd then ucast POLLOUT else 0)
       OR (if fdset_bit es fd then 2 else 0)"

definition select_fds :: "nat \<Rightarrow> u64 list \<Rightarrow> u64 list \<Rightarrow> u64 list \<Rightarrow> pollfd list" where
  "select_fds n rs ws es =
     map (\<lambda>fd. \<lparr>pf_fd = of_nat fd, pf_events = select_events rs ws es fd, pf_revents = 0\<rparr>)
       (filter (\<lambda>fd. select_events rs ws es fd \<noteq> 0) [0..<n])"

text \<open>One entry of the answer; the sets asked for and the count. An entry that is not open ends it.\<close>

definition select_answer :: "pollfd \<Rightarrow> u64 list \<times> u64 list \<times> nat \<Rightarrow> u64 list \<times> u64 list \<times> nat" where
  "select_answer p acc =
     (case acc of (ro, wo, cnt) \<Rightarrow>
        (let fd = unat (pf_fd p); rv = (ucast (pf_revents p) :: u32);
             r = (has (pf_events p) (ucast POLLIN) \<and> rv AND (POLLIN OR POLLHUP OR POLLERR) \<noteq> 0);
             w = (has (pf_events p) (ucast POLLOUT) \<and> rv AND (POLLOUT OR POLLERR) \<noteq> 0)
         in (if r then fdset_put fd ro else ro, if w then fdset_put fd wo else wo, cnt + (if r then 1 else 0) + (if w then 1 else 0))))"

fun select_collect :: "pollfd list \<Rightarrow> u64 list \<times> u64 list \<times> nat \<Rightarrow> (u64 list \<times> u64 list \<times> nat) kresult" where
  "select_collect [] acc = Inr acc"
| "select_collect (p # ps) acc =
     (if has (pf_revents p) POLLNVAL then Inl EBADF else select_collect ps (select_answer p acc))"

text \<open>\<open>outs\<close> are the outcomes of writing the three sets, success for one that is absent; the result carries those that were written, in order.\<close>

fun write_fdsets :: "u64 list list \<Rightarrow> unit kresult list \<Rightarrow> unit kresult \<times> u64 list list" where
  "write_fdsets (v # vs) (Inr _ # os) = (case write_fdsets vs os of (r, done') \<Rightarrow> (r, v # done'))"
| "write_fdsets (v # vs) (Inl e # os) = (Inl e, [])"
| "write_fdsets _ _ = (Inr (), [])"

definition do_select ::
  "('w \<Rightarrow> 'f \<Rightarrow> u32) \<Rightarrow> (u32 \<Rightarrow> 'f option) \<Rightarrow> u32 \<Rightarrow> (nat \<Rightarrow> u64) kresult option \<Rightarrow> (nat \<Rightarrow> u64) kresult option
    \<Rightarrow> (nat \<Rightarrow> u64) kresult option \<Rightarrow> unit kresult list \<Rightarrow> u64 \<Rightarrow> 'w \<Rightarrow> 'w poll_wake list \<Rightarrow> u64 list list poll_result" where
  "do_select ask table n r w e outs deadline st wakes =
     (if n <s 0 \<or> 4096 <s n then PDone (Inl EINVAL) []
      else (case read_fdset (unat n) r of Inl x \<Rightarrow> PDone (Inl x) []
      | Inr rs \<Rightarrow>
     (case read_fdset (unat n) w of Inl x \<Rightarrow> PDone (Inl x) []
      | Inr ws \<Rightarrow>
     (case read_fdset (unat n) e of Inl x \<Rightarrow> PDone (Inl x) []
      | Inr es \<Rightarrow>
     (case do_poll ask table (select_fds (unat n) rs ws es) deadline st wakes of
        PAsleep _ \<Rightarrow> PAsleep []
      | PDone (Inl x) _ \<Rightarrow> PDone (Inl x) []
      | PDone (Inr _) ps \<Rightarrow>
          (case select_collect ps (replicate (length rs) 0, replicate (length ws) 0, 0) of
             Inl x \<Rightarrow> PDone (Inl x) []
           | Inr (ro, wo, cnt) \<Rightarrow>
               (case write_fdsets [ro, wo, replicate (length es) 0] outs of
                  (Inl x, done') \<Rightarrow> PDone (Inl x) done'
                | (Inr _, done') \<Rightarrow> PDone (Inr cnt) done')))))))"

section \<open>Event polls\<close>

definition EPOLLET :: u32 where "EPOLLET = push_bit 31 1"

definition EPOLLONESHOT :: u32 where "EPOLLONESHOT = push_bit 30 1"

record 'f interest =
  in_fd :: u32
  in_file :: 'f
  in_events :: u32
  in_data :: u64

definition interest_at :: "u32 \<Rightarrow> 'f \<Rightarrow> 'f interest \<Rightarrow> bool" where
  "interest_at fd h i \<longleftrightarrow> in_fd i = fd \<and> in_file i = h"

fun position_of :: "('a \<Rightarrow> bool) \<Rightarrow> 'a list \<Rightarrow> nat option" where
  "position_of P [] = None"
| "position_of P (x # xs) = (if P x then Some 0 else map_option Suc (position_of P xs))"

text \<open>\<open>file\<close> is the outcome of the look-up, \<open>event\<close> of reading the user's event, \<open>self\<close> the handle of this event poll.\<close>

definition epoll_ctl ::
  "'f \<Rightarrow> u32 \<Rightarrow> u32 \<Rightarrow> 'f kresult \<Rightarrow> (u32 \<times> u64) kresult \<Rightarrow> 'f interest list \<Rightarrow> unit kresult \<times> 'f interest list" where
  "epoll_ctl self op fd file event ints =
     (case file of Inl x \<Rightarrow> (Inl x, ints)
      | Inr h \<Rightarrow>
     (case (if op \<noteq> 2 then event else Inr (0, 0)) of Inl x \<Rightarrow> (Inl x, ints)
      | Inr (events, data) \<Rightarrow>
          (let pos = position_of (interest_at fd h) ints; events' = events OR POLLERR OR POLLHUP
           in if op = 1 then
                (if pos \<noteq> None then (Inl EEXIST, ints)
                 else if h = self then (Inl EINVAL, ints)
                 else (Inr (), ints @ [\<lparr>in_fd = fd, in_file = h, in_events = events', in_data = data\<rparr>]))
              else if op = 3 then
                (case pos of None \<Rightarrow> (Inl ENOENT, ints)
                 | Some k \<Rightarrow> (Inr (), ints[k := (ints ! k)\<lparr>in_events := events', in_data := data\<rparr>]))
              else if op = 2 then
                (case pos of None \<Rightarrow> (Inl ENOENT, ints)
                 | Some k \<Rightarrow> (Inr (), take k ints @ drop (Suc k) ints))
              else (Inl EINVAL, ints))))"

definition ready_mask :: "('f \<Rightarrow> u32) \<Rightarrow> 'f interest \<Rightarrow> u32" where
  "ready_mask ask i = ask (in_file i) AND (in_events i AND NOT (EPOLLET OR EPOLLONESHOT))"

definition epoll_ready :: "('f \<Rightarrow> u32) \<Rightarrow> 'f interest list \<Rightarrow> (u32 \<times> u64) list" where
  "epoll_ready ask ints = map (\<lambda>i. (ready_mask ask i, in_data i)) (filter (\<lambda>i. ready_mask ask i \<noteq> 0) ints)"

definition epoll_poll :: "('f \<Rightarrow> u32) \<Rightarrow> 'f interest list \<Rightarrow> u32" where
  "epoll_poll ask ints = (if epoll_ready ask ints = [] then 0 else POLLIN)"

definition oneshot_disable :: "(u32 \<times> u64) list \<Rightarrow> 'f interest \<Rightarrow> 'f interest" where
  "oneshot_disable ready i =
     (if in_events i AND EPOLLONESHOT \<noteq> 0 \<and> list_ex (\<lambda>(_, d). d = in_data i) ready
      then i\<lparr>in_events := in_events i AND (EPOLLET OR EPOLLONESHOT)\<rparr> else i)"

text \<open>
  A resumption carries the state and the interests it finds, which other threads may have changed. \<open>out\<close> is the
  outcome of writing the events to user memory.
\<close>

datatype 'a ep_result = EDone "(u32 \<times> u64) list kresult" 'a | EAsleep 'a

fun epoll_wait_inner ::
  "('w \<Rightarrow> 'f \<Rightarrow> u32) \<Rightarrow> nat \<Rightarrow> unit kresult \<Rightarrow> u64 \<Rightarrow> 'w \<times> 'f interest list \<Rightarrow> ('w \<times> 'f interest list) poll_wake list
    \<Rightarrow> 'f interest list ep_result" where
  "epoll_wait_inner ask maxevents out deadline s wakes =
     (case s of (w, ints) \<Rightarrow>
        (let ready = epoll_ready (ask w) ints in
         if ready \<noteq> [] then
           (case out of
              Inl x \<Rightarrow> EDone (Inl x) ints
            | Inr _ \<Rightarrow> EDone (Inr (take (min (length ready) maxevents) ready)) (map (oneshot_disable ready) ints))
         else if deadline = - 1 then EDone (Inr []) ints
         else (case wakes of
             [] \<Rightarrow> EAsleep ints
           | PTimeout # _ \<Rightarrow> EDone (Inr []) ints
           | PSignal # _ \<Rightarrow> EDone (Inl EINTR) ints
           | PWoken s' # wakes' \<Rightarrow> epoll_wait_inner ask maxevents out deadline s' wakes')))"

declare epoll_wait_inner.simps [simp del]

definition epoll_wait ::
  "('w \<Rightarrow> 'f \<Rightarrow> u32) \<Rightarrow> u64 \<Rightarrow> u32 \<Rightarrow> unit kresult \<Rightarrow> u64 \<Rightarrow> 'w \<times> 'f interest list \<Rightarrow> ('w \<times> 'f interest list) poll_wake list
    \<Rightarrow> 'f interest list ep_result" where
  "epoll_wait ask now maxevents out timeout_ms s wakes =
     (if maxevents \<le>s 0 then EDone (Inl EINVAL) (snd s)
      else epoll_wait_inner ask (unat maxevents) out (if timeout_ms = 0 then - 1 else deadline_from_ms now timeout_ms) s wakes)"

definition epoll_pwait2 ::
  "('w \<Rightarrow> 'f \<Rightarrow> u32) \<Rightarrow> u64 \<Rightarrow> u32 \<Rightarrow> unit kresult \<Rightarrow> (u64 \<times> u64) kresult option \<Rightarrow> 'w \<times> 'f interest list
    \<Rightarrow> ('w \<times> 'f interest list) poll_wake list \<Rightarrow> 'f interest list ep_result" where
  "epoll_pwait2 ask now maxevents out timeout s wakes =
     (case timeout of
        None \<Rightarrow> epoll_wait ask now maxevents out (- 1) s wakes
      | Some (Inl x) \<Rightarrow> EDone (Inl x) (snd s)
      | Some (Inr t) \<Rightarrow>
          (case read_timespec t of Inl x \<Rightarrow> EDone (Inl x) (snd s)
           | Inr ns \<Rightarrow> epoll_wait ask now maxevents out ((ns + 999999) div 1000000) s wakes))"

section \<open>The set of interests\<close>

text \<open>What the calls promise: a map from open files, under a descriptor, to the events asked for.\<close>

definition interest_map :: "'f interest list \<Rightarrow> u32 \<times> 'f \<Rightarrow> (u32 \<times> u64) option" where
  "interest_map ints = map_of (map (\<lambda>i. ((in_fd i, in_file i), (in_events i, in_data i))) ints)"

definition interests_ok :: "'f \<Rightarrow> 'f interest list \<Rightarrow> bool" where
  "interests_ok self ints \<longleftrightarrow> distinct (map (\<lambda>i. (in_fd i, in_file i)) ints) \<and> (\<forall>i \<in> set ints. in_file i \<noteq> self)"

lemma position_of_None: "position_of P xs = None \<longleftrightarrow> (\<forall>x \<in> set xs. \<not> P x)"
  by (induction xs) auto

lemma position_of_SomeD: "position_of P xs = Some k \<Longrightarrow> k < length xs \<and> P (xs ! k)"
  by (induction xs arbitrary: k) (auto split: if_splits)

lemma position_of_split:
  assumes "position_of (interest_at fd h) ints = Some k"
  obtains a i b where "ints = a @ i # b" "length a = k" "in_fd i = fd" "in_file i = h"
  using position_of_SomeD [OF assms] that [of "take k ints" "ints ! k" "drop (Suc k) ints"]
  by (simp add: interest_at_def id_take_nth_drop [symmetric])

definition abs_ctl :: "'f \<Rightarrow> u32 \<Rightarrow> u32 \<times> 'f \<Rightarrow> u32 \<times> u64 \<Rightarrow> (u32 \<times> 'f \<Rightarrow> (u32 \<times> u64) option) \<Rightarrow> unit kresult \<times> (u32 \<times> 'f \<Rightarrow> (u32 \<times> u64) option)" where
  "abs_ctl self op key e m =
     (if op = 1 then (if m key \<noteq> None then (Inl EEXIST, m) else if snd key = self then (Inl EINVAL, m) else (Inr (), m(key \<mapsto> e)))
      else if op = 3 then (if m key = None then (Inl ENOENT, m) else (Inr (), m(key \<mapsto> e)))
      else if op = 2 then (if m key = None then (Inl ENOENT, m) else (Inr (), m(key := None)))
      else (Inl EINVAL, m))"

lemma interest_map_None: "interest_map ints (fd, h) = None \<longleftrightarrow> position_of (interest_at fd h) ints = None"
  by (force simp: interest_map_def map_of_eq_None_iff position_of_None interest_at_def)

lemma interest_map_append: "interest_map (a @ b) = interest_map a ++ interest_map b" if "distinct (map (\<lambda>i. (in_fd i, in_file i)) (a @ b))"
  using that unfolding interest_map_def by (subst map_add_comm) (force simp: dom_map_of_conv_image_fst o_def)+

text \<open>
  C14. \<open>epoll_ctl\<close> keeps a map from open files to the events asked for: adding a file that is there, changing
  or removing one that is not, adding the event poll to itself and unknown operations are refused and change nothing; each
  other call changes its own entry alone, with errors and hang-ups always asked for. No file is ever listed twice.
\<close>

theorem epoll_ctl_refines:
  assumes "interests_ok self ints"
  shows "case epoll_ctl self op fd (Inr h) (Inr (events, data)) ints of (r, ints') \<Rightarrow>
      interests_ok self ints' \<and> (r, interest_map ints') = abs_ctl self op (fd, h) (events OR POLLERR OR POLLHUP, data) (interest_map ints)"
proof (cases "position_of (interest_at fd h) ints")
  case None
  then have m: "interest_map ints (fd, h) = None" by (simp add: interest_map_None)
  have n: "(fd, h) \<notin> (\<lambda>i. (in_fd i, in_file i)) ` set ints" using None by (auto simp: position_of_None interest_at_def)
  let ?i = "\<lparr>in_fd = fd, in_file = h, in_events = events OR POLLERR OR POLLHUP, in_data = data\<rparr>"
  have d: "interests_ok self (ints @ [?i])" if "h \<noteq> self" using that assms n by (auto simp: interests_ok_def)
  have "interest_map (ints @ [?i]) = (interest_map ints)((fd, h) \<mapsto> (events OR POLLERR OR POLLHUP, data))" if "h \<noteq> self"
    using interest_map_append [of ints "[?i]"] d [OF that] by (simp add: interests_ok_def) (simp add: interest_map_def)
  then show ?thesis using None m d assms by (auto simp: epoll_ctl_def abs_ctl_def Let_def)
next
  case (Some k)
  then obtain a i b where s: "ints = a @ i # b" "length a = k" "in_fd i = fd" "in_file i = h" by (rule position_of_split)
  have m: "interest_map ints (fd, h) \<noteq> None" using Some interest_map_None [of ints fd h] by simp
  have n: "(fd, h) \<notin> (\<lambda>i. (in_fd i, in_file i)) ` set a" "(fd, h) \<notin> (\<lambda>i. (in_fd i, in_file i)) ` set b"
    using assms s by (auto simp: interests_ok_def)
  let ?i = "i\<lparr>in_events := events OR POLLERR OR POLLHUP, in_data := data\<rparr>"
  have ok: "interests_ok self (a @ ?i # b)" "interests_ok self (a @ b)" using assms s by (auto simp: interests_ok_def)
  have na: "interest_map a (fd, h) = None" "interest_map b (fd, h) = None"
    using n by (auto simp: interest_map_def map_of_eq_None_iff)
  have "interest_map (a @ ?i # b) = (interest_map ints)((fd, h) \<mapsto> (events OR POLLERR OR POLLHUP, data))"
    "interest_map (a @ b) = (interest_map ints)((fd, h) := None)"
    using na by (auto simp: s interest_map_def map_add_def fun_eq_iff split: option.splits)
  then show ?thesis using Some m ok assms s by (auto simp: epoll_ctl_def abs_ctl_def Let_def)
qed

lemma epoll_ctl_refines_witness:
  "interests_ok (9 :: nat) [\<lparr>in_fd = 3, in_file = 5, in_events = 1, in_data = 7\<rparr>]
   \<and> fst (epoll_ctl (9 :: nat) 1 4 (Inr 6) (Inr (4, 8)) [\<lparr>in_fd = 3, in_file = 5, in_events = 1, in_data = 7\<rparr>])
     = fst (abs_ctl (9 :: nat) 1 (4, 6) (4 OR POLLERR OR POLLHUP, 8) (interest_map [\<lparr>in_fd = 3, in_file = 5, in_events = 1, in_data = 7\<rparr>]))"
proof -
  have ok: "interests_ok (9 :: nat) [\<lparr>in_fd = 3, in_file = 5, in_events = 1, in_data = 7\<rparr>]" by (simp add: interests_ok_def)
  from epoll_ctl_refines [OF ok, of 1 4 6 4 8] ok show ?thesis by (auto split: prod.splits simp: prod_eq_iff)
qed

section \<open>Waiting on an event poll\<close>

lemma epoll_wait_now:
  assumes "epoll_ready (ask w) ints \<noteq> []"
  shows "epoll_wait_inner ask n (Inr ()) dl (w, ints) wakes =
    EDone (Inr (take n (epoll_ready (ask w) ints))) (map (oneshot_disable (epoll_ready (ask w) ints)) ints)"
  using assms by (simp add: epoll_wait_inner.simps Let_def min_def)

text \<open>
  A one-shot interest is to be reported once and then stay silent until it is changed. The code disables every
  ready one, also those beyond the caller's buffer, which were not reported and never will be; and one that is not
  ready is disabled when another with the same user data is reported.
\<close>

definition oneshot_in :: "u32 \<Rightarrow> u64 \<Rightarrow> nat interest" where
  "oneshot_in fd data = \<lparr>in_fd = fd, in_file = unat fd, in_events = POLLIN OR EPOLLONESHOT, in_data = data\<rparr>"

lemma oneshot_beyond_buffer_is_lost:
  "epoll_wait_inner (\<lambda>_ _. POLLIN) 1 (Inr ()) 0 ((), [oneshot_in 3 30, oneshot_in 4 40]) [] =
     EDone (Inr [(POLLIN, 30)]) [(oneshot_in 3 30)\<lparr>in_events := EPOLLONESHOT\<rparr>, (oneshot_in 4 40)\<lparr>in_events := EPOLLONESHOT\<rparr>]"
  "ready_mask ask ((oneshot_in 4 40)\<lparr>in_events := EPOLLONESHOT\<rparr>) = 0"
proof -
  show "epoll_wait_inner (\<lambda>_ _. POLLIN) 1 (Inr ()) 0 ((), [oneshot_in 3 30, oneshot_in 4 40]) [] =
     EDone (Inr [(POLLIN, 30)]) [(oneshot_in 3 30)\<lparr>in_events := EPOLLONESHOT\<rparr>, (oneshot_in 4 40)\<lparr>in_events := EPOLLONESHOT\<rparr>]"
    by code_simp
  show "ready_mask ask ((oneshot_in 4 40)\<lparr>in_events := EPOLLONESHOT\<rparr>) = 0"
    by (simp add: ready_mask_def EPOLLET_def EPOLLONESHOT_def and.assoc [symmetric])
qed

lemma oneshot_with_same_data_is_lost:
  "epoll_wait_inner (\<lambda>_ h. if h = 3 then POLLIN else 0) 8 (Inr ()) 0 ((), [oneshot_in 3 7, oneshot_in 4 7]) [] =
     EDone (Inr [(POLLIN, 7)]) [(oneshot_in 3 7)\<lparr>in_events := EPOLLONESHOT\<rparr>, (oneshot_in 4 7)\<lparr>in_events := EPOLLONESHOT\<rparr>]"
  by code_simp

lemma oneshot_flags:
  "in_events i AND EPOLLONESHOT \<noteq> 0 \<Longrightarrow> list_ex (\<lambda>(_, d). d = in_data i) ready \<Longrightarrow> ready_mask ask (oneshot_disable ready i) = 0"
proof -
  assume a: "in_events i AND EPOLLONESHOT \<noteq> 0" "list_ex (\<lambda>(_, d). d = in_data i) ready"
  have e: "(e AND c) AND NOT c = 0" for e c :: u32 by (rule bit_word_eqI) (auto simp: bit_simps)
  have "oneshot_disable ready i = i\<lparr>in_events := in_events i AND (EPOLLET OR EPOLLONESHOT)\<rparr>" using a by (simp add: oneshot_disable_def)
  then have "in_events (oneshot_disable ready i) = in_events i AND (EPOLLET OR EPOLLONESHOT)" by simp
  then show ?thesis unfolding ready_mask_def by (simp only: e and_zero_eq)
qed

text \<open>
  C15. A wait that finds something ready reports the ready interests in the order they were added, as many as the
  caller's buffer holds, and what it takes off the event poll are exactly the one-shot interests whose user data is
  that of a ready one: whatever the files are ready for afterwards, the next wait finds what is ready then, less
  these. Where the buffer holds all that is ready and every interest has its own user data, these are exactly
  the one-shot interests that were reported.
\<close>

theorem oneshot_reported_once:
  assumes "epoll_ready (ask w) ints \<noteq> []"
  shows "case epoll_wait_inner ask n (Inr ()) dl (w, ints) wakes of
      EDone (Inr evs) ints' \<Rightarrow>
        evs = take n (map (\<lambda>i. (ready_mask (ask w) i, in_data i)) (filter (\<lambda>i. ready_mask (ask w) i \<noteq> 0) ints))
      \<and> epoll_ready ask' ints' = map (\<lambda>i. (ready_mask ask' i, in_data i))
          (filter (\<lambda>i. ready_mask ask' i \<noteq> 0 \<and> \<not> (in_events i AND EPOLLONESHOT \<noteq> 0
             \<and> in_data i \<in> in_data ` {j \<in> set ints. ready_mask (ask w) j \<noteq> 0})) ints)
      \<and> (distinct (map in_data ints) \<and> length (epoll_ready (ask w) ints) \<le> n \<longrightarrow>
          epoll_ready ask' ints' = map (\<lambda>i. (ready_mask ask' i, in_data i))
            (filter (\<lambda>i. ready_mask ask' i \<noteq> 0 \<and> \<not> (in_events i AND EPOLLONESHOT \<noteq> 0
               \<and> (ready_mask (ask w) i, in_data i) \<in> set evs)) ints))
    | _ \<Rightarrow> False"
proof -
  let ?r = "epoll_ready (ask w) ints"
  have ex: "list_ex (\<lambda>(_, d). d = in_data i) ?r \<longleftrightarrow> in_data i \<in> in_data ` {j \<in> set ints. ready_mask (ask w) j \<noteq> 0}" for i
    by (auto simp: epoll_ready_def list_ex_iff image_iff)
  have "ready_mask ask' (oneshot_disable ?r i) =
      (if in_events i AND EPOLLONESHOT \<noteq> 0 \<and> in_data i \<in> in_data ` {j \<in> set ints. ready_mask (ask w) j \<noteq> 0}
       then 0 else ready_mask ask' i)"
    "in_data (oneshot_disable ?r i) = in_data i" for i
    using oneshot_flags [of i ?r ask'] ex [of i] by (auto simp: oneshot_disable_def)
  then have next': "epoll_ready ask' (map (oneshot_disable ?r) ints) = map (\<lambda>i. (ready_mask ask' i, in_data i))
      (filter (\<lambda>i. ready_mask ask' i \<noteq> 0 \<and> \<not> (in_events i AND EPOLLONESHOT \<noteq> 0
         \<and> in_data i \<in> in_data ` {j \<in> set ints. ready_mask (ask w) j \<noteq> 0})) ints)"
    by (auto simp: epoll_ready_def filter_map o_def intro!: map_cong filter_cong split: if_splits)
  have own: "in_data i \<in> in_data ` {j \<in> set ints. ready_mask (ask w) j \<noteq> 0} \<longleftrightarrow> (ready_mask (ask w) i, in_data i) \<in> set (take n ?r)"
    if "distinct (map in_data ints)" "length ?r \<le> n" "i \<in> set ints" for i
  proof -
    have "j = i" if "j \<in> set ints" "in_data j = in_data i" for j
      using \<open>distinct (map in_data ints)\<close> \<open>i \<in> set ints\<close> that by (auto simp: distinct_map inj_on_def)
    then show ?thesis using that(2,3) by (auto simp: epoll_ready_def)
  qed
  have "epoll_ready ask' (map (oneshot_disable ?r) ints) = map (\<lambda>i. (ready_mask ask' i, in_data i))
      (filter (\<lambda>i. ready_mask ask' i \<noteq> 0 \<and> \<not> (in_events i AND EPOLLONESHOT \<noteq> 0
         \<and> (ready_mask (ask w) i, in_data i) \<in> set (take n ?r))) ints)"
    if "distinct (map in_data ints)" "length ?r \<le> n"
    unfolding next' using own [OF that] by (intro arg_cong [where f = "map _"] filter_cong) auto
  then show ?thesis using epoll_wait_now [of ask w ints n dl wakes] assms next' by (simp add: epoll_ready_def)
qed

lemma oneshot_reported_once_witness:
  "epoll_ready (\<lambda>_. POLLIN) (case epoll_wait_inner (\<lambda>_ _. POLLIN) 2 (Inr ()) 0 ((), [oneshot_in 3 30, (oneshot_in 4 40)\<lparr>in_events := POLLIN\<rparr>]) [] of
     EDone _ ints' \<Rightarrow> ints' | EAsleep ints' \<Rightarrow> ints') = [(POLLIN, 40)]"
proof -
  let ?ints = "[oneshot_in 3 30, (oneshot_in 4 40)\<lparr>in_events := POLLIN\<rparr>]"
  have a: "epoll_ready (\<lambda>_. POLLIN) ?ints \<noteq> []" by code_simp
  have m: "ready_mask (\<lambda>_. POLLIN) (oneshot_in 3 30) \<noteq> 0" "in_data (oneshot_in 3 30) = 30"
    "ready_mask (\<lambda>_. POLLIN) ((oneshot_in 4 40)\<lparr>in_events := POLLIN\<rparr>) = POLLIN" "POLLIN \<noteq> 0"
    "in_data ((oneshot_in 4 40)\<lparr>in_events := POLLIN\<rparr>) = 40" "in_events (oneshot_in 3 30) AND EPOLLONESHOT \<noteq> 0"
    "in_events ((oneshot_in 4 40)\<lparr>in_events := POLLIN\<rparr>) AND EPOLLONESHOT = 0" by code_simp+
  have b: "map (\<lambda>i. (ready_mask (\<lambda>_. POLLIN) i, in_data i))
    (filter (\<lambda>i. ready_mask (\<lambda>_. POLLIN) i \<noteq> 0 \<and> \<not> (in_events i AND EPOLLONESHOT \<noteq> 0
       \<and> in_data i \<in> in_data ` {j \<in> set ?ints. ready_mask (\<lambda>_. POLLIN) j \<noteq> 0})) ?ints) = [(POLLIN, 40)]"
    using m by (auto simp: image_iff)
  show ?thesis
    using oneshot_reported_once [where ask = "\<lambda>_ _. POLLIN" and w = "()" and ints = ?ints and n = 2 and dl = 0 and wakes = "[]"
      and ask' = "\<lambda>_. POLLIN"] a unfolding b
    by (auto split: ep_result.splits sum.splits)
qed

section \<open>What select answers\<close>

lemma fdset_bit_bit: "fdset_bit v fd \<longleftrightarrow> fd div 64 < length v \<and> bit (v ! (fd div 64)) (fd mod 64)"
  by (simp add: fdset_bit_def bit_iff_and_push_bit_not_eq_0)

lemma length_fdset_put [simp]: "length (fdset_put fd v) = length v"
  by (simp add: fdset_put_def)

lemma fdset_bit_put [simp]:
  "fdset_bit (fdset_put fd v) fd' \<longleftrightarrow> fdset_bit v fd' \<or> (fd' = fd \<and> fd div 64 < length v)"
proof (cases "fd' div 64 = fd div 64")
  case True
  have "fd' mod 64 = fd mod 64 \<longleftrightarrow> fd' = fd" using True by (metis div_mod_decomp)
  moreover have "bit (push_bit (fd mod 64) (1 :: u64)) (fd' mod 64) \<longleftrightarrow> fd' mod 64 = fd mod 64"
    by (auto simp: bit_simps)
  ultimately show ?thesis using True by (auto simp: fdset_bit_bit fdset_put_def bit_simps)
next
  case False
  then show ?thesis by (auto simp: fdset_bit_bit fdset_put_def)
qed

lemma fdset_bit_zero [simp]: "\<not> fdset_bit (replicate k 0) fd"
  by (simp add: fdset_bit_bit)

lemma ucast_low: "(ucast (ucast (x AND c) :: u16) :: u32) = x AND c" if "c AND mask 16 = c" for x c :: u32
proof (rule bit_word_eqI)
  fix k assume "k < LENGTH(32)"
  have "bit c k \<Longrightarrow> k < 16" using that by (metis bit_and_iff bit_mask_iff)
  then show "bit (ucast (ucast (x AND c) :: u16) :: u32) k = bit (x AND c) k" by (auto simp: bit_simps)
qed

definition sel_in :: u32 where "sel_in = POLLIN OR POLLHUP OR POLLERR"

definition sel_out :: u32 where "sel_out = POLLOUT OR POLLERR"

lemma select_words:
  fixes r w e :: bool and m :: u32
  defines "ev \<equiv> (if r then ucast POLLIN else 0) OR (if w then ucast POLLOUT else 0) OR (if e then 2 else (0 :: u16))"
  defines "want \<equiv> ucast ev OR POLLERR OR POLLHUP"
  defines "rv \<equiv> (ucast (m AND want) :: u16)"
  shows "has ev (ucast POLLIN) \<longleftrightarrow> r" and "has ev (ucast POLLOUT) \<longleftrightarrow> w"
    and "r \<Longrightarrow> ucast rv AND sel_in = m AND sel_in" and "w \<Longrightarrow> ucast rv AND sel_out = m AND sel_out"
    and "\<not> has rv POLLNVAL"
proof -
  show "has ev (ucast POLLIN) \<longleftrightarrow> r" "has ev (ucast POLLOUT) \<longleftrightarrow> w"
    by (cases r; cases w; cases e; simp add: ev_def has_def POLLIN_def POLLOUT_def)+
  have "want AND mask 16 = want"
    by (cases r; cases w; cases e; simp add: want_def ev_def POLLIN_def POLLOUT_def POLLERR_def POLLHUP_def mask_eq_exp_minus_1)
  then have u: "ucast rv = m AND want" unfolding rv_def by (rule ucast_low)
  show "ucast rv AND sel_in = m AND sel_in" if r
    unfolding u using that
    by (cases w; cases e; simp add: want_def ev_def sel_in_def and.assoc POLLIN_def POLLOUT_def POLLERR_def POLLHUP_def)
  show "ucast rv AND sel_out = m AND sel_out" if w
    unfolding u using that
    by (cases r; cases e; simp add: want_def ev_def sel_out_def and.assoc POLLIN_def POLLOUT_def POLLERR_def POLLHUP_def)
  have "want AND 32 = 0"
    by (cases r; cases w; cases e; simp add: want_def ev_def POLLIN_def POLLOUT_def POLLERR_def POLLHUP_def)
  then have "\<not> bit want 5" using bit_iff_and_push_bit_not_eq_0 [of want 5] by simp
  then have "\<not> bit rv 5" by (simp add: rv_def bit_simps)
  then show "\<not> has rv POLLNVAL"
    using bit_iff_and_push_bit_not_eq_0 [of rv 5] by (simp add: has_def POLLNVAL_def)
qed

text \<open>What \<open>select\<close> is to say of a descriptor, and whether it asks about it at all.\<close>

definition sel_asked :: "u64 list \<Rightarrow> u64 list \<Rightarrow> u64 list \<Rightarrow> nat \<Rightarrow> bool" where
  "sel_asked rs ws es fd \<longleftrightarrow> fdset_bit rs fd \<or> fdset_bit ws fd \<or> fdset_bit es fd"

definition sel_ready :: "('f \<Rightarrow> u32) \<Rightarrow> (u32 \<Rightarrow> 'f option) \<Rightarrow> u32 \<Rightarrow> u64 list \<Rightarrow> nat \<Rightarrow> bool" where
  "sel_ready ask table k v fd \<longleftrightarrow> fdset_bit v fd \<and> (case table (of_nat fd) of Some h \<Rightarrow> ask h AND k \<noteq> 0 | None \<Rightarrow> False)"

lemma select_events_zero: "select_events rs ws es fd = 0 \<longleftrightarrow> \<not> sel_asked rs ws es fd"
  by (simp add: select_events_def sel_asked_def POLLIN_def POLLOUT_def)

lemma unat_fd: "fd < 4096 \<Longrightarrow> unat (of_nat fd :: u32) = fd"
  by (simp add: unat_of_nat)

lemma fd_not_neg: "fd < 4096 \<Longrightarrow> \<not> (of_nat fd :: u32) <s 0"
proof -
  assume a: "fd < 4096"
  then have "uint (of_nat fd :: u32) = int fd" by (metis unat_fd of_nat_unat)
  moreover have "signed_take_bit 31 (int fd) = int fd" using a by (intro signed_take_bit_int_eq_self) simp_all
  ultimately show ?thesis by (simp add: word_sless_alt sint_uint)
qed

definition sel_entry :: "u64 list \<Rightarrow> u64 list \<Rightarrow> u64 list \<Rightarrow> nat \<Rightarrow> pollfd" where
  "sel_entry rs ws es fd = \<lparr>pf_fd = of_nat fd, pf_events = select_events rs ws es fd, pf_revents = 0\<rparr>"

lemma poll_one_select:
  assumes "fd < 4096"
  shows "poll_one ask None (sel_entry rs ws es fd) = ((sel_entry rs ws es fd)\<lparr>pf_revents := POLLNVAL\<rparr>, 1)"
    and "table (of_nat fd) = Some h \<Longrightarrow> \<not> has (pf_revents (fst (poll_one ask (Some h) (sel_entry rs ws es fd)))) POLLNVAL"
    and "table (of_nat fd) = Some h \<Longrightarrow> select_answer (fst (poll_one ask (Some h) (sel_entry rs ws es fd))) (ro, wo, cnt) =
       (if sel_ready ask table sel_in rs fd then fdset_put fd ro else ro,
        if sel_ready ask table sel_out ws fd then fdset_put fd wo else wo,
        cnt + (if sel_ready ask table sel_in rs fd then 1 else 0) + (if sel_ready ask table sel_out ws fd then 1 else 0))"
proof -
  note w = select_words [where r = "fdset_bit rs fd" and w = "fdset_bit ws fd" and e = "fdset_bit es fd", folded select_events_def]
  show "poll_one ask None (sel_entry rs ws es fd) = ((sel_entry rs ws es fd)\<lparr>pf_revents := POLLNVAL\<rparr>, 1)"
    using assms by (simp add: poll_one_def sel_entry_def fd_not_neg)
  let ?m = "ask h AND (ucast (select_events rs ws es fd) OR POLLERR OR POLLHUP)"
  have e: "fst (poll_one ask (Some h) (sel_entry rs ws es fd)) = (sel_entry rs ws es fd)\<lparr>pf_revents := ucast ?m\<rparr>"
    using assms by (simp add: poll_one_def sel_entry_def fd_not_neg Let_def)
  show "\<not> has (pf_revents (fst (poll_one ask (Some h) (sel_entry rs ws es fd)))) POLLNVAL"
    unfolding e using w(5) [where m = "ask h"] by simp
  assume "table (of_nat fd) = Some h"
  then show "select_answer (fst (poll_one ask (Some h) (sel_entry rs ws es fd))) (ro, wo, cnt) =
       (if sel_ready ask table sel_in rs fd then fdset_put fd ro else ro,
        if sel_ready ask table sel_out ws fd then fdset_put fd wo else wo,
        cnt + (if sel_ready ask table sel_in rs fd then 1 else 0) + (if sel_ready ask table sel_out ws fd then 1 else 0))"
    unfolding e select_answer_def using w(3,4) [where m = "ask h"] assms
    by (simp add: Let_def sel_ready_def sel_entry_def unat_fd flip: sel_in_def sel_out_def) (auto simp: w(1,2))
qed

lemma select_collect_exact:
  assumes "\<forall>fd \<in> set fds. fd < 4096 \<and> table (of_nat fd) \<noteq> None"
    and "\<forall>fd \<in> set fds. fd div 64 < length ro \<and> fd div 64 < length wo"
  shows "\<exists>ro' wo'. select_collect (map (\<lambda>fd. fst (poll_one ask (table (of_nat fd)) (sel_entry rs ws es fd))) fds) (ro, wo, cnt) =
      Inr (ro', wo', cnt + length (filter (sel_ready ask table sel_in rs) fds) + length (filter (sel_ready ask table sel_out ws) fds))
    \<and> length ro' = length ro \<and> length wo' = length wo
    \<and> (\<forall>fd. fdset_bit ro' fd \<longleftrightarrow> fdset_bit ro fd \<or> fd \<in> set fds \<and> sel_ready ask table sel_in rs fd)
    \<and> (\<forall>fd. fdset_bit wo' fd \<longleftrightarrow> fdset_bit wo fd \<or> fd \<in> set fds \<and> sel_ready ask table sel_out ws fd)"
  using assms
proof (induction fds arbitrary: ro wo cnt)
  case Nil
  then show ?case by simp
next
  case (Cons fd fds)
  then obtain h where h: "table (of_nat fd) = Some h" and fd: "fd < 4096" by auto
  let ?R = "sel_ready ask table sel_in rs fd" and ?W = "sel_ready ask table sel_out ws fd"
  let ?ro = "if ?R then fdset_put fd ro else ro" and ?wo = "if ?W then fdset_put fd wo else wo"
  note one = poll_one_select(2,3) [of fd table h, OF fd h]
  have l: "length ?ro = length ro" "length ?wo = length wo" by simp_all
  from Cons.IH [of ?ro ?wo "cnt + (if ?R then 1 else 0) + (if ?W then 1 else 0)"] Cons.prems
  show ?case using h l by (simp add: one) (auto simp: add.assoc)
qed

lemma select_collect_bad:
  assumes "\<forall>fd \<in> set fds. fd < 4096" and "\<exists>fd \<in> set fds. table (of_nat fd) = None"
  shows "select_collect (map (\<lambda>fd. fst (poll_one ask (table (of_nat fd)) (sel_entry rs ws es fd))) fds) acc = Inl EBADF"
  using assms
proof (induction fds arbitrary: acc)
  case (Cons fd fds)
  show ?case
  proof (cases "table (of_nat fd)")
    case None
    then show ?thesis using Cons.prems by (simp add: poll_one_select(1) has_def POLLNVAL_def)
  next
    case (Some h)
    then show ?thesis using Cons by auto
  qed
qed simp

lemma length_read_fdset: "read_fdset n src = Inr v \<Longrightarrow> length v = set_words n"
  by (auto simp: read_fdset_def split: option.splits sum.splits if_splits)

lemma do_select_scan:
  assumes "\<not> n <s 0" and "\<not> 4096 <s n" and "read_fdset (unat n) r = Inr rs" and "read_fdset (unat n) w = Inr ws" and "read_fdset (unat n) e = Inr es"
    and "unat n \<le> 4096"
  shows "do_select ask table n r w e outs (- 1) st wakes =
    (case select_collect (map (\<lambda>fd. fst (poll_one (ask st) (table (of_nat fd)) (sel_entry rs ws es fd))) (filter (sel_asked rs ws es) [0..<unat n]))
        (replicate (length rs) 0, replicate (length ws) 0, 0) of
       Inl x \<Rightarrow> PDone (Inl x) []
     | Inr (ro, wo, cnt) \<Rightarrow>
         (case write_fdsets [ro, wo, replicate (length es) 0] outs of
            (Inl x, done') \<Rightarrow> PDone (Inl x) done'
          | (Inr _, done') \<Rightarrow> PDone (Inr cnt) done'))"
proof -
  let ?fds = "filter (sel_asked rs ws es) [0..<unat n]"
  let ?ps = "map (\<lambda>fd. fst (poll_one (ask st) (table (of_nat fd)) (sel_entry rs ws es fd))) ?fds"
  have s: "select_fds (unat n) rs ws es = map (sel_entry rs ws es) ?fds"
    by (simp add: select_fds_def select_events_zero sel_entry_def [abs_def])
  have f: "poll_files table (map (sel_entry rs ws es) ?fds) = map (\<lambda>fd. table (of_nat fd)) ?fds"
    using assms(6) by (auto simp: poll_files_def sel_entry_def fd_not_neg)
  have "fst (poll_scan (ask st) (map (\<lambda>fd. table (of_nat fd)) ?fds) (map (sel_entry rs ws es) ?fds)) = ?ps"
    by (simp add: poll_scan_def Let_def zip_map_map zip_same_conv_map split_beta)
  then have "\<exists>k. do_poll ask table (select_fds (unat n) rs ws es) (- 1) st wakes = PDone (Inr k) ?ps"
    unfolding do_poll_def s f by (subst poll_loop.simps) (auto split: prod.splits)
  then show ?thesis using assms by (auto simp: do_select_def split: sum.splits)
qed

text \<open>
  C16. A \<open>select\<close> that does not wait answers exactly: it fails with EBADF when a descriptor it asks about is not
  open; otherwise the first set has the descriptors asked about for reading that have input, a hang-up or an error, the
  second those asked about for writing that have room or an error, the third is empty, no other bit of any is set,
  and the result is the number of bits.
\<close>

theorem select_exact:
  assumes "\<not> n <s 0" and "\<not> 4096 <s n" and "read_fdset (unat n) r = Inr rs" and "read_fdset (unat n) w = Inr ws" and "read_fdset (unat n) e = Inr es"
  shows "case do_select ask table n r w e [Inr (), Inr (), Inr ()] (- 1) st wakes of
      PDone (Inr k) sets \<Rightarrow> (\<forall>fd < unat n. sel_asked rs ws es fd \<longrightarrow> table (of_nat fd) \<noteq> None)
        \<and> (\<exists>ro wo. sets = [ro, wo, replicate (set_words (unat n)) 0]
          \<and> (\<forall>fd. fdset_bit ro fd \<longleftrightarrow> fd < unat n \<and> sel_ready (ask st) table sel_in rs fd)
          \<and> (\<forall>fd. fdset_bit wo fd \<longleftrightarrow> fd < unat n \<and> sel_ready (ask st) table sel_out ws fd)
          \<and> k = card {fd. fdset_bit ro fd} + card {fd. fdset_bit wo fd})
    | PDone (Inl x) sets \<Rightarrow> x = EBADF \<and> sets = [] \<and> (\<exists>fd < unat n. sel_asked rs ws es fd \<and> table (of_nat fd) = None)
    | PAsleep _ \<Rightarrow> False"
proof -
  let ?fds = "filter (sel_asked rs ws es) [0..<unat n]"
  have n: "unat n \<le> 4096"
  proof -
    have "sint n \<le> 4096" "0 \<le> sint n" using assms(1,2) by (simp_all add: word_sless_alt not_less)
    moreover have "int (unat n) = sint n"
    proof -
      have "\<not> bit n 31" using \<open>0 \<le> sint n\<close> bit_last_iff [of n] by simp
      then have "\<not> bit (uint n) 31" by (simp add: bit_uint_iff)
      then have "sint n = take_bit 31 (uint n)" by (simp add: sint_uint signed_take_bit_eq_if_positive)
      also have "\<dots> = take_bit 32 (uint n)" using take_bit_Suc_from_most [of 31 "uint n"] \<open>\<not> bit (uint n) 31\<close> by simp
      also have "\<dots> = uint n" by (intro take_bit_int_eq_self) (use uint_lt2p [of n] in simp_all)
      finally show ?thesis by simp
    qed
    ultimately show ?thesis by linarith
  qed
  note scan = do_select_scan [OF assms n, of ask table "[Inr (), Inr (), Inr ()]" st wakes]
  have small: "\<forall>fd \<in> set ?fds. fd < 4096" using n by auto
  show ?thesis
  proof (cases "\<exists>fd \<in> set ?fds. table (of_nat fd) = None")
    case True
    then show ?thesis unfolding scan select_collect_bad [OF small True] by auto
  next
    case False
    have w: "fd div 64 < set_words (unat n)" if "fd < unat n" for fd
      using that by (simp add: set_words_def less_eq_div_iff_mult_less_eq Suc_le_eq [symmetric])
    have len: "length rs = set_words (unat n)" "length ws = set_words (unat n)" "length es = set_words (unat n)"
      using assms(3-5) by (auto dest: length_read_fdset)
    have ok: "\<forall>fd \<in> set ?fds. fd < 4096 \<and> table (of_nat fd) \<noteq> None" using False small by (intro ballI conjI) auto
    have room: "\<forall>fd \<in> set ?fds. fd div 64 < length (replicate (length rs) (0 :: u64)) \<and> fd div 64 < length (replicate (length ws) (0 :: u64))"
      using w by (simp add: len)
    have R: "filter (sel_ready (ask st) table k v) ?fds = filter (sel_ready (ask st) table k v) [0..<unat n]" if "v = rs \<or> v = ws" for k v
      using that by (auto simp: sel_ready_def sel_asked_def intro!: filter_cong)
    have c: "length (filter P [0..<unat n]) = card {fd. fd < unat n \<and> P fd}" for P
      using distinct_card [of "filter P [0..<unat n]"] by (simp add: conj_commute)
    from select_collect_exact [OF ok room, of "ask st" rs ws es 0] obtain ro wo where
      e: "select_collect (map (\<lambda>fd. fst (poll_one (ask st) (table (of_nat fd)) (sel_entry rs ws es fd))) ?fds) (replicate (length rs) 0, replicate (length ws) 0, 0)
        = Inr (ro, wo, length (filter (sel_ready (ask st) table sel_in rs) ?fds) + length (filter (sel_ready (ask st) table sel_out ws) ?fds))"
      and b: "\<And>fd. fdset_bit ro fd \<longleftrightarrow> fd \<in> set ?fds \<and> sel_ready (ask st) table sel_in rs fd"
        "\<And>fd. fdset_bit wo fd \<longleftrightarrow> fd \<in> set ?fds \<and> sel_ready (ask st) table sel_out ws fd" by auto
    have b': "fdset_bit ro fd \<longleftrightarrow> fd < unat n \<and> sel_ready (ask st) table sel_in rs fd"
      "fdset_bit wo fd \<longleftrightarrow> fd < unat n \<and> sel_ready (ask st) table sel_out ws fd" for fd
      unfolding b by (auto simp: sel_ready_def sel_asked_def)
    have k: "length (filter (sel_ready (ask st) table sel_in rs) ?fds) = card {fd. fdset_bit ro fd}"
      "length (filter (sel_ready (ask st) table sel_out ws) ?fds) = card {fd. fdset_bit wo fd}"
      using R [of rs sel_in] R [of ws sel_out] by (simp_all only: b' c simp_thms)
    have "write_fdsets [ro, wo, replicate (length es) 0] [Inr (), Inr (), Inr ()] = (Inr (), [ro, wo, replicate (length es) 0])" by simp
    then have d: "do_select ask table n r w e [Inr (), Inr (), Inr ()] (- 1) st wakes =
        PDone (Inr (card {fd. fdset_bit ro fd} + card {fd. fdset_bit wo fd})) [ro, wo, replicate (length es) 0]"
      unfolding scan e k by simp
    have S: "{fd. fdset_bit ro fd} = {fd. fd < unat n \<and> sel_ready (ask st) table sel_in rs fd}"
      "{fd. fdset_bit wo fd} = {fd. fd < unat n \<and> sel_ready (ask st) table sel_out ws fd}" by (simp_all only: b')
    have "\<forall>fd < unat n. sel_asked rs ws es fd \<longrightarrow> table (of_nat fd) \<noteq> None" using False by auto
    then show ?thesis unfolding d by (simp add: S b' len)
  qed
qed

lemma select_exact_witness:
  "do_select (\<lambda>_ _. 5) (\<lambda>fd. Some (unat fd)) 1 (Some (Inr (\<lambda>_. 1))) (Some (Inr (\<lambda>_. 1))) None [Inr (), Inr (), Inr ()] (- 1) () []
     = PDone (Inr 2) [[1], [1], [0]]
   \<and> card {fd. fdset_bit [1] fd} + card {fd. fdset_bit [1] fd} = 2"
proof -
  have h: "\<not> (1 :: u32) <s 0" "\<not> 4096 <s (1 :: u32)" by code_simp+
  have r: "read_fdset (unat (1 :: u32)) (Some (Inr (\<lambda>_. 1))) = Inr [1]" "read_fdset (unat (1 :: u32)) None = Inr [0]"
    by (simp_all add: read_fdset_def set_words_def)
  note x = select_exact [OF h r(1) r(1) r(2), where ask = "\<lambda>_ _. 5" and table = "\<lambda>fd. Some (unat fd)" and st = "()" and wakes = "[]"]
  have v: "do_select (\<lambda>_ _. 5) (\<lambda>fd. Some (unat fd)) 1 (Some (Inr (\<lambda>_. 1))) (Some (Inr (\<lambda>_. 1))) None [Inr (), Inr (), Inr ()] (- 1) () []
      = PDone (Inr 2) [[1], [1], [0]]" by code_simp
  obtain ro wo where "[[1], [1], [0]] = [ro, wo, replicate (set_words (unat (1 :: u32))) 0]"
    and c: "2 = card {fd. fdset_bit ro fd} + card {fd. fdset_bit wo fd}"
    using x unfolding v poll_result.case sum.case by (elim conjE exE) (rule that)
  then have "ro = [1]" "wo = [1]" by auto
  with c v show ?thesis by simp
qed

text \<open>
  A wait that ends although nothing that was asked for has happened: a hang-up makes a file ready, but a set of
  descriptors to write to, or of exceptional conditions, does not show it. So \<open>select\<close> returns
  zero, as if its time were up, at once and every time.
\<close>

lemma select_returns_early:
  "do_select (\<lambda>_ _. POLLHUP) (\<lambda>fd. Some (unat fd)) 1 None (Some (Inr (\<lambda>_. 1))) None [Inr (), Inr (), Inr ()] 0 () [] = PDone (Inr 0) [[0], [0], [0]]"
  "do_select (\<lambda>_ _. 2) (\<lambda>fd. Some (unat fd)) 1 None None (Some (Inr (\<lambda>_. 1))) [Inr (), Inr (), Inr ()] 0 () [] = PDone (Inr 0) [[0], [0], [0]]"
  by code_simp+

section \<open>Files whose readiness is true\<close>

text \<open>What a waiting program relies on: a file says that it can be read exactly when reading it does not wait.\<close>

locale pollable =
  fixes mask_of :: "'e \<Rightarrow> u32"
    and take_from :: "'e \<Rightarrow> 'a kresult option \<times> 'e"
  assumes ready_iff: "mask_of e AND sel_in \<noteq> 0 \<longleftrightarrow> fst (take_from e) \<noteq> None"
    and take_never_again: "fst (take_from e) \<noteq> Some (Inl EAGAIN)"
begin

lemma ready_read_returns:
  assumes "sel_ready mask_of table sel_in v fd" and "table (of_nat fd) = Some e"
  shows "\<exists>r e'. fd_loop take_from nb e ws = FDone r e' \<and> r \<noteq> Inl EAGAIN"
proof -
  have "fst (take_from e) \<noteq> None" using assms by (simp add: sel_ready_def ready_iff)
  then show ?thesis using take_never_again [of e] by (cases "take_from e") (auto simp: fd_loop.simps)
qed

lemma unready_read_waits:
  assumes "fdset_bit v fd" and "\<not> sel_ready mask_of table sel_in v fd" and "table (of_nat fd) = Some e"
  shows "\<exists>e'. fd_loop take_from True e ws = FDone (Inl EAGAIN) e'"
proof -
  have "fst (take_from e) = None" using assms by (simp add: sel_ready_def ready_iff)
  then show ?thesis by (cases "take_from e") (auto simp: fd_loop.simps)
qed

lemma ready_read_iff:
  assumes "fdset_bit v fd" and "table (of_nat fd) = Some e"
  shows "sel_ready mask_of table sel_in v fd \<longleftrightarrow> (\<forall>e'. fd_loop take_from True e ws \<noteq> FDone (Inl EAGAIN) e')"
proof (cases "sel_ready mask_of table sel_in v fd")
  case True
  then show ?thesis using ready_read_returns [OF True assms(2), of True ws] by auto
next
  case False
  then show ?thesis using unready_read_waits [OF assms(1) False assms(2), of ws] by auto
qed

end

lemma eventfd_mask: "eventfd_poll e AND sel_in \<noteq> 0 \<longleftrightarrow> 0 < ev_count e"
  by (cases "0 < ev_count e"; cases "ev_count e < - 1 - 1")
    (simp_all add: eventfd_poll_def sel_in_def POLLIN_def POLLOUT_def POLLHUP_def POLLERR_def)

lemma timerfd_mask: "timerfd_poll t AND sel_in \<noteq> 0 \<longleftrightarrow> 0 < tm_expirations t"
  by (simp add: timerfd_poll_def sel_in_def POLLIN_def POLLHUP_def POLLERR_def)

interpretation evp: pollable eventfd_poll "eventfd_take 8"
  by unfold_locales (auto simp: eventfd_mask eventfd_take_def Let_def)

interpretation tmp_fd: pollable timerfd_poll "timerfd_take 8"
  by unfold_locales (auto simp: timerfd_mask timerfd_take_def)

text \<open>
  \<open>select\<close> and the counting files agree: it says that an event counter or a timer can be read exactly when
  a read that does not wait is not refused for want of anything to read.
\<close>

theorem select_agrees_with_read:
  assumes "fdset_bit v fd" and "table (of_nat fd) = Some e" and "table' (of_nat fd) = Some t"
  shows "(sel_ready eventfd_poll table sel_in v fd \<longleftrightarrow> (\<forall>e'. eventfd_read True 8 e ws \<noteq> FDone (Inl EAGAIN) e'))
    \<and> (sel_ready timerfd_poll table' sel_in v fd \<longleftrightarrow> (\<forall>t'. timerfd_read True 8 t ws' \<noteq> FDone (Inl EAGAIN) t'))"
  unfolding eventfd_read_def timerfd_read_def
  using evp.ready_read_iff [of v fd table e ws] tmp_fd.ready_read_iff [of v fd table' t ws'] assms by blast

lemma select_agrees_with_read_witness:
  "sel_ready eventfd_poll (\<lambda>_. Some (eventfd_new 2 0)) sel_in [8] 3
   \<and> \<not> sel_ready timerfd_poll (\<lambda>_. Some \<lparr>tm_clock = 1, tm_next = 0, tm_interval = 0, tm_expirations = 0\<rparr>) sel_in [8] 3"
proof -
  have "fdset_bit [8] 3" by (simp add: fdset_bit_def)
  from select_agrees_with_read [where table = "\<lambda>_. Some (eventfd_new 2 0)" and table' = "\<lambda>_. Some \<lparr>tm_clock = 1, tm_next = 0, tm_interval = 0, tm_expirations = 0\<rparr>"
      and ws = "[]" and ws' = "[]", OF this refl refl]
  show ?thesis by (simp add: read_exact timer_read_exact) (simp add: eventfd_new_def)
qed

section \<open>Event polls in event polls\<close>

text \<open>
  An event poll is itself a file, and asking it holds its lock while its files are asked. The lock is a spin lock
  with interrupts off, so asking an event poll whose lock is held never ends. \<open>k\<close> bounds the depth.
\<close>

datatype 'p ep_file = Plain 'p | Nested nat

datatype ep_answer = Mask u32 | Spins

primrec ep_ask :: "nat \<Rightarrow> (nat \<Rightarrow> 'p ep_file interest list) \<Rightarrow> ('p \<Rightarrow> u32) \<Rightarrow> nat list \<Rightarrow> 'p ep_file \<Rightarrow> ep_answer option" where
  "ep_ask 0 eps ask held f = (case f of Plain p \<Rightarrow> Some (Mask (ask p)) | Nested a \<Rightarrow> None)"
| "ep_ask (Suc k) eps ask held f =
     (case f of
        Plain p \<Rightarrow> Some (Mask (ask p))
      | Nested a \<Rightarrow>
          if a \<in> set held then Some Spins
          else (let ms = map (\<lambda>i. (ep_ask k eps ask (a # held) (in_file i), in_events i)) (eps a)
                in if list_ex (\<lambda>(m, _). m = None) ms then None
                   else if list_ex (\<lambda>(m, _). m = Some Spins) ms then Some Spins
                   else Some (Mask (if list_ex (\<lambda>(m, ev). case m of Some (Mask b) \<Rightarrow> b AND (ev AND NOT (EPOLLET OR EPOLLONESHOT)) \<noteq> 0 | _ \<Rightarrow> False) ms
                                    then POLLIN else 0))))"

text \<open>Without event polls among the files this is \<open>epoll_poll\<close>.\<close>

lemma ep_ask_plain:
  assumes "\<forall>i \<in> set (eps a). \<exists>p. in_file i = Plain p"
  shows "ep_ask (Suc k) eps ask [] (Nested a) = Some (Mask (epoll_poll (\<lambda>f. case f of Plain p \<Rightarrow> ask p | Nested b \<Rightarrow> 0) (eps a)))"
proof -
  let ?m = "\<lambda>i. ep_ask k eps ask [a] (in_file i)"
  have m: "?m i = Some (Mask (case in_file i of Plain p \<Rightarrow> ask p | Nested b \<Rightarrow> 0))" if "i \<in> set (eps a)" for i
    using assms that by (cases k) (auto split: ep_file.splits)
  then have "\<not> list_ex (\<lambda>(m, _). m = None) (map (\<lambda>i. (?m i, in_events i)) (eps a))"
    "\<not> list_ex (\<lambda>(m, _). m = Some Spins) (map (\<lambda>i. (?m i, in_events i)) (eps a))" by (auto simp: list_ex_iff)
  then show ?thesis using m by (auto simp: Let_def list_ex_iff epoll_poll_def epoll_ready_def filter_empty_conv ready_mask_def)
qed

text \<open>
  \<open>epoll_ctl\<close> refuses only the event poll itself. Two of them may be added to each other, each call succeeding; the
  next one to ask about either then spins on a lock it holds, and the machine stops.
\<close>

lemma nested_event_polls_spin:
  "epoll_ctl (Nested 0) 1 5 (Inr (Nested 1)) (Inr (POLLIN, 0)) [] = (Inr (), [\<lparr>in_fd = 5, in_file = Nested 1, in_events = POLLIN OR POLLERR OR POLLHUP, in_data = 0\<rparr>])"
  "epoll_ctl (Nested 1) 1 4 (Inr (Nested 0)) (Inr (POLLIN, 0)) [] = (Inr (), [\<lparr>in_fd = 4, in_file = Nested 0, in_events = POLLIN OR POLLERR OR POLLHUP, in_data = 0\<rparr>])"
  "ep_ask (Suc (Suc (Suc k))) (\<lambda>a. if a = 0 then [\<lparr>in_fd = 5, in_file = Nested 1, in_events = POLLIN OR POLLERR OR POLLHUP, in_data = 0\<rparr>]
      else [\<lparr>in_fd = 4, in_file = Nested 0, in_events = POLLIN OR POLLERR OR POLLHUP, in_data = 0\<rparr>]) ask [] (Nested 0) = Some Spins"
  by (simp_all add: epoll_ctl_def Let_def)

end
