(* ===== verification/Futex.thy ===== *)
theory Futex
  imports Timer_Fd "HOL-Library.Multiset"
begin

text \<open>
  Fast user-space locks, src/research/kernel-rs/kernel/src/syscall/futex.rs: the list of waiting threads, waiting
  (up to the sleep and after it), waking, moving waiters to another word, and the combined operation.
  A key stands for a word of memory; its computation from an address, and user memory, are arguments.
\<close>

section \<open>Waiters\<close>

record 'k waiter =
  fw_key :: 'k
  fw_task :: nat
  fw_bitset :: u32
  fw_woken :: bool

definition wakes :: "'k \<Rightarrow> u32 \<Rightarrow> 'k waiter \<Rightarrow> bool" where
  "wakes k b w \<longleftrightarrow> fw_key w = k \<and> \<not> fw_woken w \<and> fw_bitset w AND b \<noteq> 0"

text \<open>The threads woken, and the list.\<close>

fun wake_key :: "'k \<Rightarrow> nat \<Rightarrow> u32 \<Rightarrow> 'k waiter list \<Rightarrow> nat list \<times> 'k waiter list" where
  "wake_key k n b [] = ([], [])"
| "wake_key k n b (w # ws) =
     (if n = 0 then ([], w # ws)
      else if wakes k b w then
        (case wake_key k (n - 1) b ws of (ts, ws') \<Rightarrow> (fw_task w # ts, w\<lparr>fw_woken := True\<rparr> # ws'))
      else (case wake_key k n b ws of (ts, ws') \<Rightarrow> (ts, w # ws')))"

text \<open>
  \<open>wake\<close>, used when a thread exits, tries the other key of the address as well: a waiter may have said private or
  shared. An address without a key wakes nobody.
\<close>

definition futex_wake :: "(bool \<Rightarrow> 'k kresult) \<Rightarrow> nat \<Rightarrow> bool \<Rightarrow> 'k waiter list \<Rightarrow> nat list \<times> 'k waiter list" where
  "futex_wake key n private ws =
     (case key private of
        Inl _ \<Rightarrow> ([], ws)
      | Inr k \<Rightarrow>
          (case wake_key k n (- 1) ws of (ts, ws1) \<Rightarrow>
             if length ts < n then
               (case key (\<not> private) of
                  Inl _ \<Rightarrow> (ts, ws1)
                | Inr k2 \<Rightarrow> (case wake_key k2 (n - length ts) (- 1) ws1 of (ts2, ws2) \<Rightarrow> (ts @ ts2, ws2)))
             else (ts, ws1)))"

definition remove_waiter :: "nat \<Rightarrow> 'k waiter list \<Rightarrow> bool \<times> 'k waiter list" where
  "remove_waiter t ws = (list_ex (\<lambda>w. fw_task w = t \<and> fw_woken w) ws, filter (\<lambda>w. fw_task w \<noteq> t) ws)"

text \<open>
  \<open>wait\<close> up to the sleep, in two parts, since other threads may run while the word is read: the thread puts itself
  on the list, then it reads the word and has a result, or none when it goes to sleep.
\<close>

definition wait_enter :: "'k \<Rightarrow> nat \<Rightarrow> u32 \<Rightarrow> 'k waiter list \<Rightarrow> 'k waiter list" where
  "wait_enter k t bitset ws = ws @ [\<lparr>fw_key = k, fw_task = t, fw_bitset = bitset, fw_woken = False\<rparr>]"

definition wait_check :: "nat \<Rightarrow> u32 kresult \<Rightarrow> u32 \<Rightarrow> bool \<Rightarrow> 'k waiter list \<Rightarrow> u64 kresult option \<times> 'k waiter list" where
  "wait_check t word val pending ws =
     (case word of
        Inl e \<Rightarrow> (Some (Inl e), snd (remove_waiter t ws))
      | Inr cur \<Rightarrow>
          if cur \<noteq> val then (Some (Inl EAGAIN), snd (remove_waiter t ws))
          else if pending then (Some (Inl ERESTARTSYS), snd (remove_waiter t ws))
          else (None, ws))"

definition wait_begin :: "'k kresult \<Rightarrow> nat \<Rightarrow> u32 kresult \<Rightarrow> u32 \<Rightarrow> bool \<Rightarrow> u32 \<Rightarrow> 'k waiter list \<Rightarrow> u64 kresult option \<times> 'k waiter list" where
  "wait_begin key t word val pending bitset ws =
     (case key of
        Inl e \<Rightarrow> (Some (Inl e), ws)
      | Inr k \<Rightarrow> wait_check t word val pending (wait_enter k t bitset ws))"

definition wait_end :: "nat \<Rightarrow> bool \<Rightarrow> bool \<Rightarrow> bool \<Rightarrow> 'k waiter list \<Rightarrow> u64 kresult \<times> 'k waiter list" where
  "wait_end t deadline timed_out pending ws =
     (case remove_waiter t ws of (woken, ws') \<Rightarrow>
        (if woken then Inr 0
         else if deadline \<and> timed_out then Inl ETIMEDOUT
         else if pending then Inl ERESTARTSYS
         else Inr 0, ws'))"

text \<open>The deadline of a wait until an absolute time of a clock; never one that has passed.\<close>

definition wait_deadline :: "u64 \<Rightarrow> u64 \<Rightarrow> u64 \<Rightarrow> u64" where
  "wait_deadline now clock_now until =
     (let d = now + saturating_sub until clock_now in if d \<le> now then now + 1 else d)"

fun move_waiters :: "'k \<Rightarrow> 'k \<Rightarrow> nat \<Rightarrow> 'k waiter list \<Rightarrow> nat \<times> 'k waiter list" where
  "move_waiters k1 k2 n [] = (0, [])"
| "move_waiters k1 k2 n (w # ws) =
     (if n = 0 then (0, w # ws)
      else if fw_key w = k1 \<and> \<not> fw_woken w then
        (case move_waiters k1 k2 (n - 1) ws of (m, ws') \<Rightarrow> (Suc m, w\<lparr>fw_key := k2\<rparr> # ws'))
      else (case move_waiters k1 k2 n ws of (m, ws') \<Rightarrow> (m, w # ws')))"

definition requeue :: "'k kresult \<Rightarrow> 'k kresult \<Rightarrow> nat \<Rightarrow> nat \<Rightarrow> 'k waiter list \<Rightarrow> nat kresult \<times> nat list \<times> 'k waiter list" where
  "requeue key1 key2 nwake nmove ws =
     (case key1 of Inl e \<Rightarrow> (Inl e, [], ws)
      | Inr k1 \<Rightarrow>
     (case key2 of Inl e \<Rightarrow> (Inl e, [], ws)
      | Inr k2 \<Rightarrow>
     (case wake_key k1 nwake (- 1) ws of (ts, ws1) \<Rightarrow>
     (case move_waiters k1 k2 nmove ws1 of (m, ws2) \<Rightarrow> (Inr (length ts + m), ts, ws2)))))"

definition cmp_requeue :: "u32 kresult \<Rightarrow> u32 \<Rightarrow> 'k kresult \<Rightarrow> 'k kresult \<Rightarrow> nat \<Rightarrow> nat \<Rightarrow> 'k waiter list \<Rightarrow> nat kresult \<times> nat list \<times> 'k waiter list" where
  "cmp_requeue word val3 key1 key2 nwake nmove ws =
     (case word of
        Inl e \<Rightarrow> (Inl e, [], ws)
      | Inr cur \<Rightarrow> if cur \<noteq> val3 then (Inl EAGAIN, [], ws) else requeue key1 key2 nwake nmove ws)"

definition wake_bitset :: "'k kresult \<Rightarrow> nat \<Rightarrow> u32 \<Rightarrow> 'k waiter list \<Rightarrow> nat kresult \<times> nat list \<times> 'k waiter list" where
  "wake_bitset key n val3 ws =
     (if val3 = 0 then (Inl EINVAL, [], ws)
      else (case key of
          Inl e \<Rightarrow> (Inl e, [], ws)
        | Inr k \<Rightarrow> (case wake_key k n val3 ws of (ts, ws') \<Rightarrow> (Inr (length ts), ts, ws'))))"

section \<open>The combined operation\<close>

definition op_arg :: "u32 \<Rightarrow> u32" where
  "op_arg v = (let a = drop_bit 12 v AND 0xfff in if drop_bit 28 v AND 8 \<noteq> 0 then push_bit (unat (a AND 31)) 1 else a)"

definition op_value :: "u32 \<Rightarrow> u32 \<Rightarrow> u32 kresult" where
  "op_value v old =
     (let opc = drop_bit 28 v AND 7; a = op_arg v
      in if opc = 0 then Inr a else if opc = 1 then Inr (old + a) else if opc = 2 then Inr (old OR a)
         else if opc = 3 then Inr (old AND NOT a) else if opc = 4 then Inr (old XOR a) else Inl EINVAL)"

definition op_holds :: "u32 \<Rightarrow> u32 \<Rightarrow> bool kresult" where
  "op_holds v old =
     (let cmp = drop_bit 24 v AND 15; c = v AND 0xfff
      in if cmp = 0 then Inr (old = c) else if cmp = 1 then Inr (old \<noteq> c) else if cmp = 2 then Inr (old <s c)
         else if cmp = 3 then Inr (old \<le>s c) else if cmp = 4 then Inr (c <s old) else if cmp = 5 then Inr (c \<le>s old) else Inl EINVAL)"

text \<open>
  \<open>word\<close> is what was read at the second address, \<open>out\<close> the outcome of writing there; the result carries the
  value written, if any, and the threads woken.
\<close>

definition wake_op ::
  "u32 \<Rightarrow> u32 kresult \<Rightarrow> unit kresult \<Rightarrow> 'k kresult \<Rightarrow> 'k kresult \<Rightarrow> nat \<Rightarrow> nat \<Rightarrow> 'k waiter list
    \<Rightarrow> nat kresult \<times> u32 option \<times> nat list \<times> 'k waiter list" where
  "wake_op v word out key1 key2 n1 n2 ws =
     (case word of Inl e \<Rightarrow> (Inl e, None, [], ws)
      | Inr old \<Rightarrow>
     (case op_value v old of Inl e \<Rightarrow> (Inl e, None, [], ws)
      | Inr newv \<Rightarrow>
     (case out of Inl e \<Rightarrow> (Inl e, None, [], ws)
      | Inr _ \<Rightarrow>
     (case key1 of Inl e \<Rightarrow> (Inl e, Some newv, [], ws)
      | Inr k1 \<Rightarrow>
     (case wake_key k1 n1 (- 1) ws of (ts, ws1) \<Rightarrow>
     (case op_holds v old of Inl e \<Rightarrow> (Inl e, Some newv, ts, ws1)
      | Inr False \<Rightarrow> (Inr (length ts), Some newv, ts, ws1)
      | Inr True \<Rightarrow>
     (case key2 of Inl e \<Rightarrow> (Inl e, Some newv, ts, ws1)
      | Inr k2 \<Rightarrow> (case wake_key k2 n2 (- 1) ws1 of (ts2, ws2) \<Rightarrow> (Inr (length ts + length ts2), Some newv, ts @ ts2, ws2)))))))))"

text \<open>
  The arguments in the operation word are twelve bits wide and signed on Linux: \<open>0xfff\<close> adds or
  compares with minus one. The code takes them as unsigned. And a comparison it does not know is refused only after the
  word has been written and the first waiters woken.
\<close>

lemma op_arg_not_signed:
  "op_value 0x11fff000 10 = Inr 4105" "op_holds 0x11000fff (- 1) = Inr True"
  by code_simp+

lemma wake_op_error_is_late:
  "wake_op 0x1f001000 (Inr 6) (Inr ()) (Inr 1) (Inr 2) 1 1 [\<lparr>fw_key = 1, fw_task = 7, fw_bitset = - 1, fw_woken = False\<rparr>] =
     (Inl EINVAL, Some 7, [7], [\<lparr>fw_key = (1 :: nat), fw_task = 7, fw_bitset = - 1, fw_woken = True\<rparr>])"
  by code_simp

section \<open>Wake-ups are exact\<close>

text \<open>What a waiter is, but for having been woken.\<close>

definition waiter_id :: "'k waiter \<Rightarrow> 'k \<times> nat \<times> u32" where
  "waiter_id w = (fw_key w, fw_task w, fw_bitset w)"

lemma wake_key_exact:
  "wake_key k n b ws = (ts, ws') \<Longrightarrow>
     ts = map fw_task (take n (filter (wakes k b) ws)) \<and> map waiter_id ws' = map waiter_id ws
   \<and> filter (wakes k b) ws' = drop n (filter (wakes k b) ws)
   \<and> (\<forall>i < length ws. \<not> wakes k b (ws ! i) \<longrightarrow> ws' ! i = ws ! i)
   \<and> length (filter fw_woken ws') = length (filter fw_woken ws) + length ts"
proof (induction k n b ws arbitrary: ts ws' rule: wake_key.induct)
  case (1 k n b)
  then show ?case by simp
next
  case (2 k n b w ws)
  consider "n = 0" | "n \<noteq> 0" "wakes k b w" | "n \<noteq> 0" "\<not> wakes k b w" by blast
  then show ?case
  proof cases
    case 1
    then show ?thesis using 2(3) by simp
  next
    case c: 2
    obtain us vs where r: "wake_key k (n - 1) b ws = (us, vs)" by fastforce
    have "\<not> wakes k b (w\<lparr>fw_woken := True\<rparr>)" "\<not> fw_woken w" using c by (simp_all add: wakes_def)
    then show ?thesis using 2(1) [OF c r] 2(3) c r
      by (cases n) (auto simp: waiter_id_def nth_Cons split: nat.splits)
  next
    case c: 3
    obtain us vs where r: "wake_key k n b ws = (us, vs)" by fastforce
    then show ?thesis using 2(2) [OF c r] 2(3) c by (auto simp: nth_Cons split: nat.splits)
  qed
qed

lemma move_waiters_exact:
  "move_waiters k1 k2 n ws = (m, ws') \<Longrightarrow> m = min n (length (filter (\<lambda>w. fw_key w = k1 \<and> \<not> fw_woken w) ws))
   \<and> map fw_task ws' = map fw_task ws \<and> map fw_woken ws' = map fw_woken ws \<and> length (filter fw_woken ws') = length (filter fw_woken ws)"
proof (induction k1 k2 n ws arbitrary: m ws' rule: move_waiters.induct)
  case (2 k1 k2 n w ws)
  then show ?case by (cases n) (auto split: if_splits prod.splits)
qed simp

text \<open>
  C17. Waking takes the threads that wait for the word, with a common bit, in the order in which they came, and
  as many as asked for: the count is the number of threads woken, the rest stay listed in their order, and no
  waiter for another word, of another class, or woken before is touched.
\<close>

theorem futex_wakes_in_order:
  "case wake_bitset (Inr k) n b ws of (r, ts, ws') \<Rightarrow>
     if b = 0 then r = Inl EINVAL \<and> ts = [] \<and> ws' = ws
     else ts = map fw_task (take n (filter (wakes k b) ws)) \<and> r = Inr (min n (length (filter (wakes k b) ws)))
        \<and> filter (wakes k b) ws' = drop n (filter (wakes k b) ws) \<and> map waiter_id ws' = map waiter_id ws
        \<and> (\<forall>i < length ws. \<not> wakes k b (ws ! i) \<longrightarrow> ws' ! i = ws ! i)"
proof -
  obtain ts ws' where r: "wake_key k n b ws = (ts, ws')" by fastforce
  with wake_key_exact [OF r] show ?thesis by (simp add: wake_bitset_def min.commute)
qed

lemma futex_wakes_in_order_witness:
  "fst (snd (wake_bitset (Inr 1) 1 2 [\<lparr>fw_key = (2 :: nat), fw_task = 5, fw_bitset = 2, fw_woken = False\<rparr>,
      \<lparr>fw_key = 1, fw_task = 6, fw_bitset = 1, fw_woken = False\<rparr>, \<lparr>fw_key = 1, fw_task = 7, fw_bitset = 3, fw_woken = False\<rparr>])) = [7]"
  using futex_wakes_in_order [where k = 1 and n = 1 and b = 2 and ws = "[\<lparr>fw_key = (2 :: nat), fw_task = 5, fw_bitset = 2, fw_woken = False\<rparr>,
      \<lparr>fw_key = 1, fw_task = 6, fw_bitset = 1, fw_woken = False\<rparr>, \<lparr>fw_key = 1, fw_task = 7, fw_bitset = 3, fw_woken = False\<rparr>]"]
  by (simp add: wakes_def split: prod.splits)

section \<open>No wake-up is lost\<close>

text \<open>
  The threads and the list, in any interleaving. A thread is outside, on the list but not yet asleep, or asleep; it
  enters, checks the word and leaves in this order. A run records the threads that wakes reported as woken, the result
  of every wait, the threads that resumed though neither woken nor timed out nor with a signal pending, and those that a
  wake took while they were reading the word and that were then turned away by what they read.
\<close>

datatype stage = Outside | Entering | Asleep

record 'k futexes =
  fx_ws :: "'k waiter list"
  fx_stage :: "nat \<Rightarrow> stage"
  fx_reported :: "nat list"
  fx_returned :: "(nat \<times> u64 kresult) list"
  fx_spurious :: "nat list"
  fx_turned :: "nat list"

definition futexes_new :: "'k futexes" where
  "futexes_new = \<lparr>fx_ws = [], fx_stage = (\<lambda>_. Outside), fx_reported = [], fx_returned = [], fx_spurious = [], fx_turned = []\<rparr>"

datatype 'k futex_op =
    FEnter 'k nat u32
  | FCheck nat "u32 kresult" u32 bool
  | FLeave nat bool bool bool
  | FWake "'k kresult" nat u32
  | FExit "bool \<Rightarrow> 'k kresult" nat bool
  | FRequeue "u32 kresult" u32 "'k kresult" "'k kresult" nat nat
  | FWakeOp u32 "u32 kresult" "unit kresult" "'k kresult" "'k kresult" nat nat

definition was_woken :: "nat \<Rightarrow> 'k waiter list \<Rightarrow> bool" where
  "was_woken t ws = list_ex (\<lambda>w. fw_task w = t \<and> fw_woken w) ws"

definition fx_woke :: "nat list \<Rightarrow> 'k waiter list \<Rightarrow> 'k futexes \<Rightarrow> 'k futexes" where
  "fx_woke ts ws s = s\<lparr>fx_ws := ws, fx_reported := fx_reported s @ ts\<rparr>"

fun futex_step :: "'k futex_op \<Rightarrow> 'k futexes \<Rightarrow> 'k futexes" where
  "futex_step (FEnter k t b) s =
     (if fx_stage s t \<noteq> Outside then s
      else s\<lparr>fx_ws := wait_enter k t b (fx_ws s), fx_stage := (fx_stage s)(t := Entering)\<rparr>)"
| "futex_step (FCheck t word val pending) s =
     (if fx_stage s t \<noteq> Entering then s
      else case wait_check t word val pending (fx_ws s) of
          (None, ws) \<Rightarrow> s\<lparr>fx_ws := ws, fx_stage := (fx_stage s)(t := Asleep)\<rparr>
        | (Some r, ws) \<Rightarrow> s\<lparr>fx_ws := ws, fx_stage := (fx_stage s)(t := Outside), fx_returned := (t, r) # fx_returned s,
              fx_turned := (if was_woken t (fx_ws s) then [t] else []) @ fx_turned s\<rparr>)"
| "futex_step (FLeave t deadline timed_out pending) s =
     (if fx_stage s t \<noteq> Asleep then s
      else case wait_end t deadline timed_out pending (fx_ws s) of (r, ws) \<Rightarrow>
        s\<lparr>fx_ws := ws, fx_stage := (fx_stage s)(t := Outside), fx_returned := (t, r) # fx_returned s,
          fx_spurious := (if was_woken t (fx_ws s) \<or> deadline \<and> timed_out \<or> pending then [] else [t]) @ fx_spurious s\<rparr>)"
| "futex_step (FWake key n b) s = (case wake_bitset key n b (fx_ws s) of (r, ts, ws) \<Rightarrow> fx_woke ts ws s)"
| "futex_step (FExit key n private) s = (case futex_wake key n private (fx_ws s) of (ts, ws) \<Rightarrow> fx_woke ts ws s)"
| "futex_step (FRequeue word val3 k1 k2 nw nm) s =
     (case cmp_requeue word val3 k1 k2 nw nm (fx_ws s) of (r, ts, ws) \<Rightarrow> fx_woke ts ws s)"
| "futex_step (FWakeOp v word out k1 k2 n1 n2) s =
     (case wake_op v word out k1 k2 n1 n2 (fx_ws s) of (r, w, ts, ws) \<Rightarrow> fx_woke ts ws s)"

text \<open>Every waking operation marks just the threads it reports, and moves nobody on or off the list.\<close>

definition woken_tasks :: "'k waiter list \<Rightarrow> nat multiset" where
  "woken_tasks ws = mset (map fw_task (filter fw_woken ws))"

definition woke :: "nat list \<Rightarrow> 'k waiter list \<Rightarrow> 'k waiter list \<Rightarrow> bool" where
  "woke ts ws ws' \<longleftrightarrow> map fw_task ws' = map fw_task ws \<and> woken_tasks ws' = woken_tasks ws + mset ts"

lemma woke_nobody [simp]: "woke [] ws ws"
  by (simp add: woke_def)

lemma woke_trans: "woke ts ws ws1 \<Longrightarrow> woke us ws1 ws2 \<Longrightarrow> woke (ts @ us) ws ws2"
  by (simp add: woke_def)

lemma wake_key_woke: "wake_key k n b ws = (ts, ws') \<Longrightarrow> woke ts ws ws'"
proof (induction k n b ws arbitrary: ts ws' rule: wake_key.induct)
  case (2 k n b w ws)
  consider "n = 0" | "n \<noteq> 0" "wakes k b w" | "n \<noteq> 0" "\<not> wakes k b w" by blast
  then show ?case
  proof cases
    case c: 2
    obtain us vs where r: "wake_key k (n - 1) b ws = (us, vs)" by fastforce
    then show ?thesis using 2(1) [OF c r] 2(3) c by (auto simp: woke_def woken_tasks_def wakes_def)
  next
    case c: 3
    obtain us vs where r: "wake_key k n b ws = (us, vs)" by fastforce
    then show ?thesis using 2(2) [OF c r] 2(3) c by (auto simp: woke_def woken_tasks_def)
  qed (use 2(3) in simp)
qed simp

lemma move_waiters_woke: "move_waiters k1 k2 n ws = (m, ws') \<Longrightarrow> woke [] ws ws'"
proof (induction k1 k2 n ws arbitrary: m ws' rule: move_waiters.induct)
  case (2 k1 k2 n w ws)
  then show ?case by (cases n) (auto simp: woke_def woken_tasks_def split: if_splits prod.splits)
qed simp

lemma wake_bitset_woke: "wake_bitset key n b ws = (r, ts, ws') \<Longrightarrow> woke ts ws ws'"
  by (auto simp: wake_bitset_def dest: wake_key_woke split: if_splits sum.splits prod.splits)

lemma futex_wake_woke: "futex_wake key n private ws = (ts, ws') \<Longrightarrow> woke ts ws ws'"
  by (auto simp: futex_wake_def dest: wake_key_woke intro: woke_trans split: if_splits sum.splits prod.splits)

lemma requeue_woke: "cmp_requeue word val3 k1 k2 nw nm ws = (r, ts, ws') \<Longrightarrow> woke ts ws ws'"
  by (auto simp: cmp_requeue_def requeue_def dest!: wake_key_woke move_waiters_woke dest: woke_trans
      split: if_splits sum.splits prod.splits)

lemma wake_op_woke: "wake_op v word out k1 k2 n1 n2 ws = (r, w, ts, ws') \<Longrightarrow> woke ts ws ws'"
  by (auto simp: wake_op_def dest!: wake_key_woke dest: woke_trans split: sum.splits prod.splits bool.splits)

text \<open>Taking a thread off the list, and its mark.\<close>

lemma remove_waiter_woken:
  assumes "distinct (map fw_task ws)"
  shows "woken_tasks ws = mset (if was_woken t ws then [t] else []) + woken_tasks (snd (remove_waiter t ws))"
  using assms
proof (induction ws)
  case (Cons w ws)
  have "fw_task w = t \<Longrightarrow> filter (\<lambda>w. fw_task w \<noteq> t) ws = ws \<and> \<not> was_woken t ws"
    using Cons.prems by (auto simp: filter_id_conv was_woken_def list_ex_iff image_iff)
  then show ?case using Cons by (auto simp: remove_waiter_def was_woken_def woken_tasks_def filter_filter_mset)
qed (simp add: remove_waiter_def was_woken_def woken_tasks_def)

lemma remove_waiter_listed:
  "fw_task ` set (snd (remove_waiter t ws)) = fw_task ` set ws - {t}"
  "distinct (map fw_task ws) \<Longrightarrow> distinct (map fw_task (snd (remove_waiter t ws)))"
  by (auto simp: remove_waiter_def distinct_map_filter)

definition futex_inv :: "'k futexes \<Rightarrow> bool" where
  "futex_inv s \<longleftrightarrow> distinct (map fw_task (fx_ws s)) \<and> fw_task ` set (fx_ws s) = {t. fx_stage s t \<noteq> Outside}
     \<and> mset (fx_reported s) + mset (fx_spurious s) =
         mset (map fst (filter (\<lambda>r. snd r = Inr 0) (fx_returned s))) + mset (fx_turned s) + woken_tasks (fx_ws s)"

lemma futex_inv_woke:
  assumes "futex_inv s" "woke ts (fx_ws s) ws"
  shows "futex_inv (fx_woke ts ws s)"
proof -
  have m: "map fw_task ws = map fw_task (fx_ws s)" using assms(2) by (simp add: woke_def)
  then have "fw_task ` set ws = fw_task ` set (fx_ws s)" by (metis list.set_map)
  then show ?thesis using assms m by (simp add: futex_inv_def fx_woke_def woke_def add_ac)
qed

lemma futex_step_inv: "futex_inv s \<Longrightarrow> futex_inv (futex_step o' s)"
proof (cases o')
  case (FEnter k t b)
  assume i: "futex_inv s"
  show ?thesis
  proof (cases "fx_stage s t = Outside")
    case True
    then have "t \<notin> fw_task ` set (fx_ws s)" using i by (simp add: futex_inv_def)
    then show ?thesis using i FEnter True by (auto simp: futex_inv_def wait_enter_def woken_tasks_def)
  qed (use i FEnter in simp)
next
  case (FCheck t word val pending)
  assume i: "futex_inv s"
  show ?thesis
  proof (cases "fx_stage s t = Entering")
    case True
    obtain r ws where c: "wait_check t word val pending (fx_ws s) = (r, ws)" by fastforce
    show ?thesis
    proof (cases r)
      case None
      then have "ws = fx_ws s" using c by (auto simp: wait_check_def split: sum.splits if_splits)
      then show ?thesis using i FCheck True c None by (auto simp: futex_inv_def)
    next
      case (Some x)
      then have "ws = snd (remove_waiter t (fx_ws s))" "x \<noteq> Inr 0" using c by (auto simp: wait_check_def split: sum.splits if_splits)
      then show ?thesis
        using i FCheck True c Some remove_waiter_woken [of "fx_ws s" t] remove_waiter_listed [where t = t and ws = "fx_ws s"]
        by (auto simp: futex_inv_def)
    qed
  qed (use i FCheck in simp)
next
  case (FLeave t deadline timed_out pending)
  assume i: "futex_inv s"
  show ?thesis
  proof (cases "fx_stage s t = Asleep")
    case True
    obtain r ws where c: "wait_end t deadline timed_out pending (fx_ws s) = (r, ws)" by fastforce
    then have w: "ws = snd (remove_waiter t (fx_ws s))"
      "r = Inr 0 \<longleftrightarrow> was_woken t (fx_ws s) \<or> \<not> (deadline \<and> timed_out \<or> pending)"
      by (auto simp: wait_end_def remove_waiter_def was_woken_def split: prod.splits if_splits)
    show ?thesis
      using i FLeave True c w remove_waiter_woken [of "fx_ws s" t] remove_waiter_listed [where t = t and ws = "fx_ws s"]
      by (auto simp: futex_inv_def)
  qed (use i FLeave in simp)
qed (auto split: prod.splits intro!: futex_inv_woke dest: wake_bitset_woke futex_wake_woke requeue_woke wake_op_woke)

text \<open>
  C18. No wake-up is lost and none is made up. In every interleaving of waits, wakes of every kind, requeues and
  returns from the sleep, the threads that wakes reported as woken, with those that resumed for no reason, are exactly
  the threads whose wait returned zero, those woken that have not yet run, and those that a wake took before they slept
  and that then found the word changed or a signal pending. And the threads on the list are exactly those that wait,
  each once: none is forgotten there and none sleeps unlisted.
\<close>

theorem futex_conserves_wakes:
  "let s = fold futex_step os futexes_new
   in mset (fx_reported s) + mset (fx_spurious s) =
        mset (map fst (filter (\<lambda>r. snd r = Inr 0) (fx_returned s))) + mset (fx_turned s)
        + mset (map fw_task (filter fw_woken (fx_ws s)))
    \<and> distinct (map fw_task (fx_ws s)) \<and> set (map fw_task (fx_ws s)) = {t. fx_stage s t \<noteq> Outside}"
proof -
  have "futex_inv (fold futex_step os s)" if "futex_inv s" for s :: "'a futexes"
    using that by (induction os arbitrary: s) (auto simp: futex_step_inv)
  moreover have "futex_inv (futexes_new :: 'a futexes)" by (simp add: futex_inv_def futexes_new_def woken_tasks_def)
  ultimately show ?thesis by (simp add: futex_inv_def woken_tasks_def Let_def)
qed

end
