(* ===== verification/Tiling.thy ===== *)
theory Tiling
  imports Complex_Main "HOL-Library.AList" "HOL-Library.Multiset" Mindos_Prelude Rust_Str
begin

text \<open>
  The geometry of the window manager's layout modes, src/mindwm/src/layout.rs: the rectangles of the
  dwindle and the columns mode, the scroll offset of the columns, the choice of a neighbour and of
  the owning output, the seams between tiles, and the bookkeeping of the tile order.

  Pixel coordinates (\<open>i32\<close>) are integers: screen coordinates stay far from the limits. The fractions
  (\<open>f32\<close>) are rationals; the one rounding multiplication of a length by a fraction,
  \<open>((n as f32) * frac).round() as i32\<close>, is the argument \<open>mul\<close>, and nothing is assumed about it. A
  window is a number.
\<close>

section \<open>Rectangles\<close>

record rect =
  rx :: int
  ry :: int
  rw :: int
  rh :: int

definition rectangle :: "int \<Rightarrow> int \<Rightarrow> int \<Rightarrow> int \<Rightarrow> rect" where
  "rectangle x y w h = \<lparr>rx = x, ry = y, rw = w, rh = h\<rparr>"

lemma rectangle_sel [simp]:
  "rx (rectangle x y w h) = x" "ry (rectangle x y w h) = y" "rw (rectangle x y w h) = w" "rh (rectangle x y w h) = h"
  by (simp_all add: rectangle_def)

text \<open>\<open>Ord::clamp\<close>; it panics unless \<open>lo \<le> hi\<close>.\<close>

definition clamp :: "'a::linorder \<Rightarrow> 'a \<Rightarrow> 'a \<Rightarrow> 'a" where
  "clamp lo hi x = (if x < lo then lo else if hi < x then hi else x)"

lemma clamp_bounds: "lo \<le> hi \<Longrightarrow> lo \<le> clamp lo hi x \<and> clamp lo hi x \<le> hi"
  by (auto simp: clamp_def)

lemma clamp_id: "lo \<le> x \<Longrightarrow> x \<le> hi \<Longrightarrow> clamp lo hi x = x"
  by (auto simp: clamp_def)

text \<open>Division as the source divides: towards zero.\<close>

definition tdiv :: "int \<Rightarrow> int \<Rightarrow> int" where
  "tdiv n d = (if 0 \<le> n then n div d else - ((- n) div d))"

section \<open>Modes\<close>

datatype layout_mode = Floating | Dwindle | Columns

definition layout_parse :: "string \<Rightarrow> layout_mode option" where
  "layout_parse s =
     (let k = to_lowercase (trim s) in
      if k \<in> {''floating'', ''float'', ''kde'', ''stacking''} then Some Floating
      else if k \<in> {''dwindle'', ''tiles'', ''tiling'', ''hyprland''} then Some Dwindle
      else if k \<in> {''columns'', ''scroll'', ''scrolling'', ''niri''} then Some Columns
      else None)"

fun layout_name :: "layout_mode \<Rightarrow> string" where
  "layout_name Floating = ''floating''"
| "layout_name Dwindle = ''dwindle''"
| "layout_name Columns = ''columns''"

fun layout_next :: "layout_mode \<Rightarrow> layout_mode" where
  "layout_next Floating = Dwindle"
| "layout_next Dwindle = Columns"
| "layout_next Columns = Floating"

definition is_tiling :: "layout_mode \<Rightarrow> bool" where
  "is_tiling m \<longleftrightarrow> m \<noteq> Floating"

definition snap_rect :: "rect \<Rightarrow> string \<Rightarrow> rect" where
  "snap_rect area zone =
     (let split = (if str_contains zone ''half'' then tdiv (rw area) 2 else tdiv (rw area * 2) 3) in
      if starts_with zone ''right'' then rectangle (rx area + split) (ry area) (rw area - split) (rh area)
      else rectangle (rx area) (ry area) split (rh area))"

definition client_rect :: "rect \<Rightarrow> int \<Rightarrow> rect" where
  "client_rect area header = rectangle (rx area) (ry area + header) (max (rw area) 1) (max (rh area - header) 1)"

section \<open>Dwindle\<close>

definition MIN_TILE :: int where "MIN_TILE = 120"

type_synonym mul = "int \<Rightarrow> rat \<Rightarrow> int"

definition tile_split :: "mul \<Rightarrow> int \<Rightarrow> rat \<Rightarrow> int \<Rightarrow> int" where
  "tile_split mul len q gap =
     (let usable = max (len - gap) (2 * MIN_TILE) in clamp MIN_TILE (usable - MIN_TILE) (mul usable q))"

definition split_frac :: "rat \<Rightarrow> rat" where
  "split_frac f = (if f \<le> 0 then 1 / 2 else clamp (1 / 10) (9 / 10) f)"

fun dwindle_rects :: "mul \<Rightarrow> rect \<Rightarrow> rat list \<Rightarrow> int \<Rightarrow> (rect \<times> bool) list" where
  "dwindle_rects mul rest [] gap = []"
| "dwindle_rects mul rest [f] gap = [(rest, rh rest \<le> rw rest)]"
| "dwindle_rects mul rest (f # g # fs) gap =
     (if rh rest \<le> rw rest then
        (let w1 = tile_split mul (rw rest) (split_frac f) gap in
         (rectangle (rx rest) (ry rest) w1 (rh rest), True) #
         dwindle_rects mul (rectangle (rx rest + w1 + gap) (ry rest) (max (rw rest - w1 - gap) MIN_TILE) (rh rest)) (g # fs) gap)
      else
        (let h1 = tile_split mul (rh rest) (split_frac f) gap in
         (rectangle (rx rest) (ry rest) (rw rest) h1, False) #
         dwindle_rects mul (rectangle (rx rest) (ry rest + h1 + gap) (rw rest) (max (rh rest - h1 - gap) MIN_TILE)) (g # fs) gap))"

section \<open>Columns\<close>

definition column_width :: "mul \<Rightarrow> int \<Rightarrow> rat \<Rightarrow> int \<Rightarrow> int" where
  "column_width mul area_w q gap =
     (let q = (if q \<le> 0 then 1 / 2 else clamp (1 / 10) 1 q) in
      if 999 / 1000 \<le> q then max area_w MIN_TILE else max (mul (area_w - gap) q) MIN_TILE)"

fun column_strip :: "mul \<Rightarrow> rect \<Rightarrow> rat list \<Rightarrow> int \<Rightarrow> int \<Rightarrow> rect list" where
  "column_strip mul area [] gap x = []"
| "column_strip mul area (f # fs) gap x =
     (let w = column_width mul (rw area) f gap in
      rectangle x (ry area) w (rh area) # column_strip mul area fs gap (x + w + gap))"

definition column_rects :: "mul \<Rightarrow> rect \<Rightarrow> rat list \<Rightarrow> int \<Rightarrow> int \<Rightarrow> rect list" where
  "column_rects mul area widths gap scroll = column_strip mul area widths gap (rx area - scroll)"

text \<open>The start of column \<open>f\<close> on the strip.\<close>

fun column_x :: "mul \<Rightarrow> int \<Rightarrow> rat list \<Rightarrow> int \<Rightarrow> nat \<Rightarrow> int" where
  "column_x mul area_w [] gap f = 0"
| "column_x mul area_w (w # ws) gap 0 = 0"
| "column_x mul area_w (w # ws) gap (Suc f) = column_width mul area_w w gap + gap + column_x mul area_w ws gap f"

definition strip_total :: "mul \<Rightarrow> int \<Rightarrow> rat list \<Rightarrow> int \<Rightarrow> int" where
  "strip_total mul area_w widths gap =
     sum_list (map (\<lambda>f. column_width mul area_w f gap) widths) + gap * int (length widths - 1)"

definition scroll_to_show :: "mul \<Rightarrow> int \<Rightarrow> rat list \<Rightarrow> int \<Rightarrow> int \<Rightarrow> nat option \<Rightarrow> int" where
  "scroll_to_show mul area_w widths gap scroll focused =
     (let total = strip_total mul area_w widths gap in
      if total \<le> area_w then 0
      else
        (let scroll = clamp 0 (total - area_w) scroll;
             scroll = (case focused of
               None \<Rightarrow> scroll
             | Some f \<Rightarrow>
                 if f < length widths then
                   (let x = column_x mul area_w widths gap f; w = column_width mul area_w (widths ! f) gap in
                    if x < scroll then x
                    else if scroll + area_w < x + w then x + w - area_w
                    else scroll)
                 else scroll)
         in clamp 0 (total - area_w) scroll))"

section \<open>Neighbours, owners, seams\<close>

datatype direction = DLeft | DRight | DUp | DDown

definition dir_offsets :: "rect \<Rightarrow> direction \<Rightarrow> rect \<Rightarrow> int \<times> int" where
  "dir_offsets from dir r =
     (let dx = (rx r + tdiv (rw r) 2) - (rx from + tdiv (rw from) 2);
          dy = (ry r + tdiv (rh r) 2) - (ry from + tdiv (rh from) 2)
      in case dir of DLeft \<Rightarrow> (- dx, \<bar>dy\<bar>) | DRight \<Rightarrow> (dx, \<bar>dy\<bar>) | DUp \<Rightarrow> (- dy, \<bar>dx\<bar>) | DDown \<Rightarrow> (dy, \<bar>dx\<bar>))"

fun neighbour_loop :: "rect \<Rightarrow> direction \<Rightarrow> (int \<times> 'w) option \<Rightarrow> ('w \<times> rect) list \<Rightarrow> (int \<times> 'w) option" where
  "neighbour_loop from dir best [] = best"
| "neighbour_loop from dir best ((w, r) # cs) =
     (case dir_offsets from dir r of (primary, secondary) \<Rightarrow>
        if primary \<le> 0 then neighbour_loop from dir best cs
        else
          (let score = primary + secondary * 2 in
           if (case best of None \<Rightarrow> True | Some (s, _) \<Rightarrow> score < s)
           then neighbour_loop from dir (Some (score, w)) cs
           else neighbour_loop from dir best cs))"

definition neighbour_in :: "rect \<Rightarrow> direction \<Rightarrow> ('w \<times> rect) list \<Rightarrow> 'w option" where
  "neighbour_in from dir cs = map_option snd (neighbour_loop from dir None cs)"

definition outer_edge :: "rect list \<Rightarrow> rect \<Rightarrow> bool \<Rightarrow> bool" where
  "outer_edge all_outputs geo left =
     (\<not> list_ex (\<lambda>g. g \<noteq> geo \<and> ry g < ry geo + rh geo \<and> ry geo < ry g + rh g
        \<and> (if left then rx g + rw g \<le> rx geo + 1 else rx geo + rw geo \<le> rx g + 1)) all_outputs)"

definition SEAM_TOP :: u8 where "SEAM_TOP = push_bit 0 1"
definition SEAM_RIGHT :: u8 where "SEAM_RIGHT = push_bit 1 1"
definition SEAM_BOTTOM :: u8 where "SEAM_BOTTOM = push_bit 2 1"
definition SEAM_LEFT :: u8 where "SEAM_LEFT = push_bit 3 1"

definition seams_against :: "rect \<Rightarrow> rect \<Rightarrow> int \<Rightarrow> u8" where
  "seams_against r other gap =
     (let slack = max gap 1 + 1;
          left = rx r; right = rx r + rw r; high = ry r; bottom = ry r + rh r;
          oleft = rx other; oright = rx other + rw other; ohigh = ry other; obottom = ry other + rh other;
          along_x = max left oleft < min right oright;
          along_y = max high ohigh < min bottom obottom;
          near = (\<lambda>d. 0 \<le> d \<and> d \<le> slack)
      in (if along_y \<and> near (left - oright) then SEAM_LEFT else 0)
       OR (if along_y \<and> near (oleft - right) then SEAM_RIGHT else 0)
       OR (if along_x \<and> near (high - obottom) then SEAM_TOP else 0)
       OR (if along_x \<and> near (ohigh - bottom) then SEAM_BOTTOM else 0))"

definition across :: "rect \<Rightarrow> rect \<Rightarrow> rect \<Rightarrow> rect" where
  "across r from dest =
     (let w = min (rw r) (rw dest); h = min (rh r) (rh dest) in
      rectangle (clamp (rx dest) (rx dest + rw dest - w) (rx dest + rx r - rx from))
        (clamp (ry dest) (ry dest + rh dest - h) (ry dest + ry r - ry from)) w h)"

definition between :: "rect \<Rightarrow> rect \<Rightarrow> int" where
  "between a b =
     (let ax = rx a * 2 + rw a; ay = ry a * 2 + rh a; bx = rx b * 2 + rw b; cy = ry b * 2 + rh b
      in (ax - bx) ^ 2 + (ay - cy) ^ 2)"

section \<open>The order of the tiles\<close>

text \<open>The tiles of one output in layout order, and the scroll offset of the strip.\<close>

text \<open>
  A strip scroll in flight. Times are nanoseconds; the ease-out \<open>1 - (1 - t)^3\<close> is exact and the
  final rounding product is again \<open>mul\<close>.
\<close>

definition SCROLL_ANIM :: int where "SCROLL_ANIM = 260000000"

record scroll_anim =
  sa_from :: int
  sa_to :: int
  sa_start :: int

definition anim_value :: "mul \<Rightarrow> scroll_anim \<Rightarrow> int \<Rightarrow> int" where
  "anim_value mul a now =
     (let t = clamp 0 1 (of_int (max (now - sa_start a) 0) / of_int SCROLL_ANIM);
          eased = 1 - (1 - t) ^ 3
      in sa_from a + mul (sa_to a - sa_from a) eased)"

definition anim_done :: "scroll_anim \<Rightarrow> int \<Rightarrow> bool" where
  "anim_done a now \<longleftrightarrow> SCROLL_ANIM \<le> max (now - sa_start a) 0"

record output_tiling =
  ot_order :: "nat list"
  ot_scroll :: int
  ot_anim :: "scroll_anim option"

definition no_tiling :: output_tiling where
  "no_tiling = \<lparr>ot_order = [], ot_scroll = 0, ot_anim = None\<rparr>"

record layout_state =
  ls_mode :: layout_mode
  ls_gap :: int
  ls_outer_gap :: int
  ls_open_maximized :: bool
  ls_outputs :: "(string \<times> output_tiling) list"  \<comment> \<open>a \<open>HashMap\<close>, in the order it iterates in\<close>
  ls_dirty :: bool
  ls_dragging :: "nat option"
  ls_pending :: "(nat \<times> nat option) list"
  ls_last_focus :: "nat option"
  ls_home :: "nat \<Rightarrow> string option"  \<comment> \<open>\<open>TileData.output\<close> of each window\<close>
  ls_width :: "nat \<Rightarrow> rat"  \<comment> \<open>\<open>TileData.width\<close>\<close>

definition layout_new :: "layout_mode \<Rightarrow> int \<Rightarrow> int \<Rightarrow> bool \<Rightarrow> layout_state" where
  "layout_new mode gap outer maximized =
     \<lparr>ls_mode = mode, ls_gap = clamp 0 64 gap, ls_outer_gap = clamp 0 64 outer, ls_open_maximized = maximized,
      ls_outputs = [], ls_dirty = True, ls_dragging = None, ls_pending = [], ls_last_focus = None, ls_home = (\<lambda>_. None), ls_width = (\<lambda>_. 0)\<rparr>"

definition window_opened :: "nat \<Rightarrow> nat option \<Rightarrow> layout_state \<Rightarrow> layout_state" where
  "window_opened w after l = l\<lparr>ls_pending := ls_pending l @ [(w, after)], ls_dirty := True\<rparr>"

fun index_of :: "'a \<Rightarrow> 'a list \<Rightarrow> nat option" where
  "index_of x [] = None"
| "index_of x (y # ys) = (if x = y then Some 0 else map_option Suc (index_of x ys))"

definition tile_slots :: "nat \<Rightarrow> nat \<Rightarrow> (string \<times> output_tiling) list \<Rightarrow> (string \<times> nat) list" where
  "tile_slots a b outs = concat (map (\<lambda>(name, t).
     (case index_of a (ot_order t) of Some i \<Rightarrow> [(name, i)] | None \<Rightarrow> []) @
     (case index_of b (ot_order t) of Some i \<Rightarrow> [(name, i)] | None \<Rightarrow> [])) outs)"

definition set_slot :: "string \<Rightarrow> nat \<Rightarrow> nat \<Rightarrow> (string \<times> output_tiling) list \<Rightarrow> (string \<times> output_tiling) list" where
  "set_slot name i w outs =
     map (\<lambda>(n, t). if n = name then (n, t\<lparr>ot_order := (ot_order t)[i := w]\<rparr>) else (n, t)) outs"

definition slot_window :: "(string \<times> output_tiling) list \<Rightarrow> string \<times> nat \<Rightarrow> nat" where
  "slot_window outs s = (case map_of outs (fst s) of Some t \<Rightarrow> ot_order t ! snd s | None \<Rightarrow> 0)"

definition swap_tiles :: "nat \<Rightarrow> nat \<Rightarrow> layout_state \<Rightarrow> layout_state" where
  "swap_tiles a b l =
     (if a = b then l
      else case tile_slots a b (ls_outputs l) of
        [(na, ia), (nb, ib)] \<Rightarrow>
          (let wa = slot_window (ls_outputs l) (na, ia); wb = slot_window (ls_outputs l) (nb, ib) in
           l\<lparr>ls_home := (ls_home l)(wa := Some nb, wb := Some na),
             ls_outputs := set_slot nb ib wa (set_slot na ia wb (ls_outputs l)), ls_dirty := True\<rparr>)
      | _ \<Rightarrow> l)"

definition swap_at :: "nat \<Rightarrow> nat \<Rightarrow> 'a list \<Rightarrow> 'a list" where
  "swap_at i j xs = xs[i := xs ! j, j := xs ! i]"

fun shift_in :: "nat \<Rightarrow> bool \<Rightarrow> (string \<times> output_tiling) list \<Rightarrow> (string \<times> output_tiling) list option" where
  "shift_in w towards_end [] = None"
| "shift_in w towards_end ((n, t) # outs) =
     (case index_of w (ot_order t) of
        None \<Rightarrow> map_option (Cons (n, t)) (shift_in w towards_end outs)
      | Some i \<Rightarrow>
          (if towards_end then
             (if i + 1 < length (ot_order t) then Some ((n, t\<lparr>ot_order := swap_at i (i + 1) (ot_order t)\<rparr>) # outs) else None)
           else if i = 0 then None
           else Some ((n, t\<lparr>ot_order := swap_at i (i - 1) (ot_order t)\<rparr>) # outs)))"

definition shift_tile :: "nat \<Rightarrow> bool \<Rightarrow> layout_state \<Rightarrow> bool \<times> layout_state" where
  "shift_tile w towards_end l =
     (case shift_in w towards_end (ls_outputs l) of
        None \<Rightarrow> (False, l)
      | Some outs \<Rightarrow> (True, l\<lparr>ls_outputs := outs, ls_dirty := True\<rparr>))"

text \<open>
  The bookkeeping of \<open>arrange_output\<close>: windows that left are dropped, new ones go right after the
  window that had the focus when they opened, the rest of the output's windows to the end. A new
  window of another output stays pending.
\<close>

fun place_pending :: "(nat \<Rightarrow> bool) \<Rightarrow> (nat \<Rightarrow> bool) \<Rightarrow> nat list \<Rightarrow> (nat \<times> nat option) list \<Rightarrow> nat list
    \<Rightarrow> nat list \<times> (nat \<times> nat option) list" where
  "place_pending tileable alive windows [] ord = (ord, [])"
| "place_pending tileable alive windows ((w, after) # ps) ord =
     (if w \<notin> set windows \<or> \<not> tileable w \<or> w \<in> set ord then
        apsnd (\<lambda>left. if w \<notin> set windows \<and> alive w then (w, after) # left else left)
          (place_pending tileable alive windows ps ord)
      else
        (let pos = (case Option.bind after (\<lambda>a. index_of a ord) of Some i \<Rightarrow> i + 1 | None \<Rightarrow> length ord)
         in place_pending tileable alive windows ps (take pos ord @ w # drop pos ord)))"

definition add_missing :: "(nat \<Rightarrow> bool) \<Rightarrow> nat list \<Rightarrow> nat list \<Rightarrow> nat list" where
  "add_missing tileable windows ord =
     fold (\<lambda>w ord. if tileable w \<and> w \<notin> set ord then ord @ [w] else ord) windows ord"

definition maintain_order :: "(nat \<Rightarrow> bool) \<Rightarrow> (nat \<Rightarrow> bool) \<Rightarrow> nat list \<Rightarrow> (nat \<times> nat option) list \<Rightarrow> nat list
    \<Rightarrow> nat list \<times> (nat \<times> nat option) list" where
  "maintain_order tileable alive windows pending ord =
     (case place_pending tileable alive windows pending (filter (\<lambda>w. tileable w \<and> w \<in> set windows) ord) of
        (ord', left) \<Rightarrow> (add_missing tileable windows ord', left))"

definition animating :: "layout_state \<Rightarrow> bool" where
  "animating l \<longleftrightarrow> list_ex (\<lambda>(_, t). ot_anim t \<noteq> None) (ls_outputs l)"

definition open_maximized :: "layout_state \<Rightarrow> bool" where
  "open_maximized l \<longleftrightarrow> ls_mode l = Floating \<and> ls_open_maximized l"

definition is_tiled :: "(nat \<Rightarrow> bool) \<Rightarrow> layout_state \<Rightarrow> nat \<Rightarrow> bool" where
  "is_tiled tileable l w \<longleftrightarrow> is_tiling (ls_mode l) \<and> tileable w \<and> list_ex (\<lambda>(_, t). w \<in> set (ot_order t)) (ls_outputs l)"

text \<open>The width presets and the step through them (Super+R).\<close>

definition COLUMN_WIDTHS :: "rat list" where "COLUMN_WIDTHS = [1 / 3, 1 / 2, 2 / 3, 1]"
definition SPLIT_WIDTHS :: "rat list" where "SPLIT_WIDTHS = [1 / 3, 1 / 2, 2 / 3]"

fun position :: "('a \<Rightarrow> bool) \<Rightarrow> 'a list \<Rightarrow> nat option" where
  "position P [] = None"
| "position P (x # xs) = (if P x then Some 0 else map_option Suc (position P xs))"

definition cycle_width :: "nat \<Rightarrow> layout_state \<Rightarrow> layout_state" where
  "cycle_width w l =
     (let widths = (if ls_mode l = Columns then COLUMN_WIDTHS else SPLIT_WIDTHS);
          current = ls_width l w;
          current = (if current \<le> 0 then 1 / 2 else current);
          idx = (case position (\<lambda>x. \<bar>x - current\<bar> < 1 / 100) widths of
                   Some i \<Rightarrow> (i + 1) mod length widths
                 | None \<Rightarrow> 1)
      in l\<lparr>ls_width := (ls_width l)(w := widths ! idx), ls_dirty := True\<rparr>)"

text \<open>The area the tiles share, inside the outer gap.\<close>

definition inner_area :: "rect \<Rightarrow> int \<Rightarrow> rect" where
  "inner_area area outer = rectangle (rx area + outer) (ry area + outer)
     (max (rw area - 2 * outer) MIN_TILE) (max (rh area - 2 * outer) MIN_TILE)"

text \<open>
  The strip of the columns mode at time \<open>now\<close>: a new target starts a slide from wherever the strip
  is, and a slide that is over is dropped. Returns the tiling and the offset to draw at.
\<close>

definition slide :: "mul \<Rightarrow> int \<Rightarrow> int \<Rightarrow> output_tiling \<Rightarrow> output_tiling \<times> int" where
  "slide mul now target t =
     (let t = (if target \<noteq> ot_scroll t then
                 (let from = (case ot_anim t of Some a \<Rightarrow> anim_value mul a now | None \<Rightarrow> ot_scroll t) in
                  t\<lparr>ot_anim := (if from \<noteq> target then Some \<lparr>sa_from = from, sa_to = target, sa_start = now\<rparr> else None),
                    ot_scroll := target\<rparr>)
               else t)
      in case ot_anim t of
           Some a \<Rightarrow> if \<not> anim_done a now then (t, anim_value mul a now) else (t\<lparr>ot_anim := None\<rparr>, ot_scroll t)
         | None \<Rightarrow> (t\<lparr>ot_anim := None\<rparr>, ot_scroll t))"

definition tile_seams :: "int \<Rightarrow> rect list \<Rightarrow> nat \<Rightarrow> u8" where
  "tile_seams gap rects i =
     fold (\<lambda>j seams. if i \<noteq> j then seams OR seams_against (rects ! i) (rects ! j) gap else seams) [0..<length rects] 0"

text \<open>
  The tiling half of \<open>arrange_output\<close>: the order is maintained, the windows that are not full screen
  are the tiles, and each gets its rectangle and its seams. \<open>windows\<close> are the windows whose home is
  this output, \<open>width\<close> their fractions. The split direction noted for later drags is left out.
\<close>

definition arrange_tiles :: "mul \<Rightarrow> layout_mode \<Rightarrow> int \<Rightarrow> int \<Rightarrow> rect \<Rightarrow> (nat \<Rightarrow> bool) \<Rightarrow> (nat \<Rightarrow> bool) \<Rightarrow> (nat \<Rightarrow> bool)
    \<Rightarrow> (nat \<Rightarrow> rat) \<Rightarrow> nat list \<Rightarrow> nat option \<Rightarrow> int \<Rightarrow> (nat \<times> nat option) list \<Rightarrow> output_tiling
    \<Rightarrow> output_tiling \<times> (nat \<times> nat option) list \<times> (nat \<times> rect \<times> u8) list" where
  "arrange_tiles mul mode gap outer area tileable alive fullscreen width windows focused now pending t =
     (case maintain_order tileable alive windows pending (ot_order t) of
        (ord, left) \<Rightarrow>
          (let t = t\<lparr>ot_order := ord\<rparr>;
               tiles = filter (\<lambda>w. w \<in> set windows \<and> \<not> fullscreen w) ord;
               inner = inner_area area outer;
               fracs = map width tiles;
               (t, rects) = (case mode of
                  Dwindle \<Rightarrow> (t, map fst (dwindle_rects mul inner fracs gap))
                | Columns \<Rightarrow>
                    (let target = scroll_to_show mul (rw inner) fracs gap (ot_scroll t)
                                    (Option.bind focused (\<lambda>f. index_of f tiles));
                         (t, visual) = slide mul now target t
                     in (t, column_rects mul inner fracs gap visual))
                | Floating \<Rightarrow> (t, []))
           in (t, left, map (\<lambda>i. (tiles ! i, rects ! i, tile_seams gap rects i)) [0..<min (length tiles) (length rects)])))"

text \<open>
  The output a window belongs to, and the one nearest a point. \<open>intersect\<close> is the rectangle
  intersection of the compositor library; \<open>max_by_key\<close> keeps the last of several maxima and
  \<open>min_by\<close> the first of several minima.
\<close>

fun max_by_key :: "('a \<Rightarrow> int) \<Rightarrow> 'a list \<Rightarrow> 'a option" where
  "max_by_key k [] = None"
| "max_by_key k (x # xs) = (case max_by_key k xs of None \<Rightarrow> Some x | Some y \<Rightarrow> Some (if k x \<le> k y then y else x))"

fun min_by_key :: "('a \<Rightarrow> rat) \<Rightarrow> 'a list \<Rightarrow> 'a option" where
  "min_by_key k [] = None"
| "min_by_key k (x # xs) = (case min_by_key k xs of None \<Rightarrow> Some x | Some y \<Rightarrow> Some (if k x \<le> k y then x else y))"

definition output_owner :: "(rect \<Rightarrow> rect \<Rightarrow> rect option) \<Rightarrow> string option \<Rightarrow> bool \<Rightarrow> rect option \<Rightarrow> (string \<times> rect) list
    \<Rightarrow> string option" where
  "output_owner intersect saved sticky geometry outputs =
     (case (if sticky then List.find (\<lambda>(name, _). Some name = saved) outputs else None) of
        Some (name, _) \<Rightarrow> Some name
      | None \<Rightarrow> map_option fst (max_by_key (\<lambda>(_, r). case Option.bind geometry (intersect r) of
                    Some i \<Rightarrow> rw i * rh i | None \<Rightarrow> 0) outputs))"

definition gap_to :: "rect \<Rightarrow> rat \<times> rat \<Rightarrow> rat" where
  "gap_to r p =
     (let dx = max (max (of_int (rx r) - fst p) (fst p - of_int (rx r + rw r))) 0;
          dy = max (max (of_int (ry r) - snd p) (snd p - of_int (ry r + rh r))) 0
      in dx * dx + dy * dy)"

definition nearest_output :: "(string \<times> rect) list \<Rightarrow> rat \<times> rat \<Rightarrow> string option" where
  "nearest_output outputs p = map_option fst (min_by_key (\<lambda>(_, r). gap_to r p) outputs)"

section \<open>Tiles do not overlap\<close>

definition disjoint_rects :: "rect \<Rightarrow> rect \<Rightarrow> bool" where
  "disjoint_rects a b \<longleftrightarrow> rx a + rw a \<le> rx b \<or> rx b + rw b \<le> rx a \<or> ry a + rh a \<le> ry b \<or> ry b + rh b \<le> ry a"

definition inside :: "rect \<Rightarrow> rect \<Rightarrow> bool" where
  "inside a b \<longleftrightarrow> rx b \<le> rx a \<and> ry b \<le> ry a \<and> rx a + rw a \<le> rx b + rw b \<and> ry a + rh a \<le> ry b + rh b"

text \<open>The clamp of the split never panics, and both sides are usable tiles.\<close>

lemma tile_split_bounds:
  "MIN_TILE \<le> tile_split mul len q gap" "tile_split mul len q gap \<le> max (len - gap) (2 * MIN_TILE) - MIN_TILE"
  using clamp_bounds [of MIN_TILE "max (len - gap) (2 * MIN_TILE) - MIN_TILE" "mul (max (len - gap) (2 * MIN_TILE)) q"]
  by (auto simp: tile_split_def Let_def MIN_TILE_def)

text \<open>Every split of the layout has room for two tiles and the gap.\<close>

fun dwindle_fits :: "mul \<Rightarrow> rect \<Rightarrow> rat list \<Rightarrow> int \<Rightarrow> bool" where
  "dwindle_fits mul rest (f # g # fs) gap =
     (2 * MIN_TILE + gap \<le> max (rw rest) (rh rest) \<and>
      (if rh rest \<le> rw rest then
         (let w1 = tile_split mul (rw rest) (split_frac f) gap in
          dwindle_fits mul (rectangle (rx rest + w1 + gap) (ry rest) (max (rw rest - w1 - gap) MIN_TILE) (rh rest)) (g # fs) gap)
       else
         (let h1 = tile_split mul (rh rest) (split_frac f) gap in
          dwindle_fits mul (rectangle (rx rest) (ry rest + h1 + gap) (rw rest) (max (rh rest - h1 - gap) MIN_TILE)) (g # fs) gap)))"
| "dwindle_fits mul rest fs gap = True"

lemma dwindle_length: "length (dwindle_rects mul rest fs gap) = length fs"
  by (induction mul rest fs gap rule: dwindle_rects.induct) (simp_all add: Let_def)

lemma dwindle_after:
  assumes "0 \<le> gap" "r \<in> set (dwindle_rects mul rest fs gap)" "MIN_TILE \<le> rw rest" "MIN_TILE \<le> rh rest"
  shows "rx rest \<le> rx (fst r)" "ry rest \<le> ry (fst r)" "MIN_TILE \<le> rw (fst r)" "MIN_TILE \<le> rh (fst r)"
proof -
  have "rx rest \<le> rx (fst r) \<and> ry rest \<le> ry (fst r) \<and> MIN_TILE \<le> rw (fst r) \<and> MIN_TILE \<le> rh (fst r)"
    using assms
  proof (induction mul rest fs gap rule: dwindle_rects.induct)
    case (3 mul rest f g fs gap)
    show ?case
    proof (cases "rh rest \<le> rw rest")
      case True
      then show ?thesis
        using 3(1) [OF True refl] 3(3-6) tile_split_bounds(1) [of mul "rw rest" "split_frac f" gap]
        by (auto simp: Let_def MIN_TILE_def)
    next
      case False
      then show ?thesis
        using 3(2) [OF False refl] 3(3-6) tile_split_bounds(1) [of mul "rh rest" "split_frac f" gap]
        by (auto simp: Let_def MIN_TILE_def)
    qed
  qed simp_all
  then show "rx rest \<le> rx (fst r)" "ry rest \<le> ry (fst r)" "MIN_TILE \<le> rw (fst r)" "MIN_TILE \<le> rh (fst r)" by simp_all
qed

lemma dwindle_disjoint:
  assumes "0 \<le> gap" "MIN_TILE \<le> rw rest" "MIN_TILE \<le> rh rest"
  shows "sorted_wrt (\<lambda>a b. disjoint_rects (fst a) (fst b)) (dwindle_rects mul rest fs gap)"
  using assms
proof (induction mul rest fs gap rule: dwindle_rects.induct)
  case (3 mul rest f g fs gap)
  show ?case
  proof (cases "rh rest \<le> rw rest")
    case True
    let ?w1 = "tile_split mul (rw rest) (split_frac f) gap"
    let ?rest = "rectangle (rx rest + ?w1 + gap) (ry rest) (max (rw rest - ?w1 - gap) MIN_TILE) (rh rest)"
    have after: "rx ?rest \<le> rx (fst r)" if "r \<in> set (dwindle_rects mul ?rest (g # fs) gap)" for r
      using dwindle_after(1) [OF 3(3) that] 3(5) by simp
    have "disjoint_rects (rectangle (rx rest) (ry rest) ?w1 (rh rest)) (fst r)"
      if "r \<in> set (dwindle_rects mul ?rest (g # fs) gap)" for r
      using after [OF that] 3(3) by (simp add: disjoint_rects_def)
    then show ?thesis using 3(1) [OF True refl 3(3)] 3(5) True by (simp add: Let_def)
  next
    case False
    let ?h1 = "tile_split mul (rh rest) (split_frac f) gap"
    let ?rest = "rectangle (rx rest) (ry rest + ?h1 + gap) (rw rest) (max (rh rest - ?h1 - gap) MIN_TILE)"
    have after: "ry ?rest \<le> ry (fst r)" if "r \<in> set (dwindle_rects mul ?rest (g # fs) gap)" for r
      using dwindle_after(2) [OF 3(3) that] 3(4) by simp
    have "disjoint_rects (rectangle (rx rest) (ry rest) (rw rest) ?h1) (fst r)"
      if "r \<in> set (dwindle_rects mul ?rest (g # fs) gap)" for r
      using after [OF that] 3(3) by (simp add: disjoint_rects_def)
    then show ?thesis using 3(2) [OF False refl 3(3)] 3(4) False by (simp add: Let_def)
  qed
qed simp_all

lemma inside_trans: "inside a b \<Longrightarrow> inside b c \<Longrightarrow> inside a c"
  by (simp add: inside_def)

lemma dwindle_inside:
  assumes "0 \<le> gap" "dwindle_fits mul rest fs gap" "r \<in> set (dwindle_rects mul rest fs gap)" "MIN_TILE \<le> rw rest" "MIN_TILE \<le> rh rest"
  shows "inside (fst r) rest"
  using assms
proof (induction mul rest fs gap rule: dwindle_rects.induct)
  case (3 mul rest f g fs gap)
  show ?case
  proof (cases "rh rest \<le> rw rest")
    case True
    let ?w1 = "tile_split mul (rw rest) (split_frac f) gap"
    let ?rest = "rectangle (rx rest + ?w1 + gap) (ry rest) (max (rw rest - ?w1 - gap) MIN_TILE) (rh rest)"
    have b: "MIN_TILE \<le> ?w1" "?w1 \<le> rw rest - gap - MIN_TILE"
      using tile_split_bounds [of mul "rw rest" "split_frac f" gap] 3(4) True by (auto simp: MIN_TILE_def)
    have "inside ?rest rest" using b 3(3) by (auto simp: inside_def MIN_TILE_def)
    moreover have "inside (rectangle (rx rest) (ry rest) ?w1 (rh rest)) rest" using b 3(3) by (auto simp: inside_def MIN_TILE_def)
    ultimately show ?thesis
      using 3(1) [OF True refl 3(3)] 3(4,5,7) True inside_trans by (auto simp: Let_def)
  next
    case False
    let ?h1 = "tile_split mul (rh rest) (split_frac f) gap"
    let ?rest = "rectangle (rx rest) (ry rest + ?h1 + gap) (rw rest) (max (rh rest - ?h1 - gap) MIN_TILE)"
    have b: "MIN_TILE \<le> ?h1" "?h1 \<le> rh rest - gap - MIN_TILE"
      using tile_split_bounds [of mul "rh rest" "split_frac f" gap] 3(4) False by (auto simp: MIN_TILE_def)
    have "inside ?rest rest" using b 3(3) by (auto simp: inside_def MIN_TILE_def)
    moreover have "inside (rectangle (rx rest) (ry rest) (rw rest) ?h1) rest" using b 3(3) by (auto simp: inside_def MIN_TILE_def)
    ultimately show ?thesis
      using 3(2) [OF False refl 3(3)] 3(4,5,6) False inside_trans by (auto simp: Let_def)
  qed
qed (simp_all add: inside_def)

text \<open>
  The dwindle layout gives every window its own tile: there are as many tiles as windows, no two
  overlap, none is smaller than the minimum in either direction, and as long as every split has room
  for two minimal tiles and the gap all of them lie in the area, however lengths are rounded.
\<close>

theorem dwindle_tiles:
  fixes mul :: mul and fracs :: "rat list" and area :: rect and gap :: int
  assumes "0 \<le> gap" "MIN_TILE \<le> rw area" "MIN_TILE \<le> rh area"
  defines "tiles \<equiv> map fst (dwindle_rects mul area fracs gap)"
  shows "length tiles = length fracs
    \<and> (\<forall>i j. i < j \<and> j < length tiles \<longrightarrow> disjoint_rects (tiles ! i) (tiles ! j))
    \<and> (\<forall>t \<in> set tiles. MIN_TILE \<le> rw t \<and> MIN_TILE \<le> rh t)
    \<and> (dwindle_fits mul area fracs gap \<longrightarrow> (\<forall>t \<in> set tiles. inside t area))"
proof -
  have "disjoint_rects (tiles ! i) (tiles ! j)" if "i < j" "j < length tiles" for i j
    using sorted_wrt_nth_less [OF dwindle_disjoint [OF assms(1-3)] that(1)] that by (simp add: tiles_def)
  then show ?thesis
    using dwindle_length [of mul area fracs gap] dwindle_after(3,4) [OF assms(1) _ assms(2,3)] dwindle_inside [OF assms(1) _ _ assms(2,3)]
    by (auto simp: tiles_def)
qed

definition round_mul :: mul where
  "round_mul n q = \<lfloor>of_int n * q + 1 / 2\<rfloor>"

theorem dwindle_tiles_witness:
  "let ts = map fst (dwindle_rects round_mul (rectangle 0 0 1000 600) [0, 1 / 2, 0] 10) in
   length ts = 3 \<and> disjoint_rects (ts ! 0) (ts ! 1) \<and> disjoint_rects (ts ! 1) (ts ! 2)"
  using dwindle_tiles [of 10 "rectangle 0 0 1000 600" round_mul "[0, 1 / 2, 0]"]
  by (simp add: MIN_TILE_def Let_def del: dwindle_rects.simps)

section \<open>The tile order\<close>

definition arrange_layout :: "mul \<Rightarrow> string \<Rightarrow> rect \<Rightarrow> (nat \<Rightarrow> bool) \<Rightarrow> (nat \<Rightarrow> bool) \<Rightarrow> (nat \<Rightarrow> bool) \<Rightarrow> nat list \<Rightarrow> nat option
    \<Rightarrow> int \<Rightarrow> layout_state \<Rightarrow> layout_state \<times> (nat \<times> rect \<times> u8) list" where
  "arrange_layout mul name area tileable alive fullscreen windows focused now l =
     (if is_tiling (ls_mode l) then
        (let t = (case map_of (ls_outputs l) name of Some t \<Rightarrow> t | None \<Rightarrow> no_tiling);
             (t', left, placed) = arrange_tiles mul (ls_mode l) (ls_gap l) (ls_outer_gap l) area tileable alive fullscreen
                 (ls_width l) windows focused now (ls_pending l) t
         in (l\<lparr>ls_outputs := AList.update name t' (ls_outputs l), ls_pending := left\<rparr>, placed))
      else (l, []))"

lemma place_pending_left:
  "snd (place_pending tileable alive windows ps ord) = filter (\<lambda>(w, _). w \<notin> set windows \<and> alive w) ps"
  by (induction tileable alive windows ps ord rule: place_pending.induct) (auto simp: Let_def)

lemma insert_filter:
  assumes "\<not> P w"
  shows "filter P (take n xs @ w # drop n xs) = filter P xs"
proof -
  have "filter P (take n xs @ w # drop n xs) = filter P (take n xs @ drop n xs)"
    using assms by (simp only: filter_append filter.simps if_False)
  then show ?thesis by simp
qed

lemma insert_set: "set (take n xs @ w # drop n xs) = insert w (set xs)"
  using set_append [of "take n xs" "drop n xs"] by auto

lemma insert_distinct: "distinct xs \<Longrightarrow> w \<notin> set xs \<Longrightarrow> distinct (take n xs @ w # drop n xs)"
  by (auto simp: set_take_disj_set_drop_if_distinct dest: in_set_takeD in_set_dropD)

lemma place_pending_order:
  assumes "distinct ord"
  shows "distinct (fst (place_pending tileable alive windows ps ord))
    \<and> set (fst (place_pending tileable alive windows ps ord)) = set ord \<union> {w \<in> fst ` set ps. w \<in> set windows \<and> tileable w}
    \<and> (set old \<subseteq> set ord \<longrightarrow> filter (\<lambda>w. w \<in> set old) (fst (place_pending tileable alive windows ps ord)) = filter (\<lambda>w. w \<in> set old) ord)"
  using assms
proof (induction tileable alive windows ps ord rule: place_pending.induct)
  case (2 tileable alive windows w after ps ord)
  show ?case
  proof (cases "w \<notin> set windows \<or> \<not> tileable w \<or> w \<in> set ord")
    case True
    show ?thesis using 2(1) [OF True 2(3)] True by auto
  next
    case False
    define ord' where "ord' = (let pos = (case Option.bind after (\<lambda>a. index_of a ord) of Some i \<Rightarrow> i + 1 | None \<Rightarrow> length ord)
        in take pos ord @ w # drop pos ord)"
    then obtain n where ord': "ord' = take n ord @ w # drop n ord" by (simp add: Let_def)
    have new: "distinct ord'" "set ord' = insert w (set ord)"
      unfolding ord' using False by (simp_all only: insert_distinct [OF 2(3)] insert_set not_False_eq_True de_Morgan_disj)
    have same: "filter (\<lambda>w. w \<in> set old) ord' = filter (\<lambda>w. w \<in> set old) ord" if "set old \<subseteq> set ord"
      unfolding ord' using that False by (intro insert_filter) auto
    have eq: "place_pending tileable alive windows ((w, after) # ps) ord = place_pending tileable alive windows ps ord'"
      using False by (simp add: ord'_def Let_def)
    have ih: "distinct (fst (place_pending tileable alive windows ps ord'))
        \<and> set (fst (place_pending tileable alive windows ps ord')) = set ord' \<union> {w \<in> fst ` set ps. w \<in> set windows \<and> tileable w}
        \<and> (set old \<subseteq> set ord' \<longrightarrow> filter (\<lambda>w. w \<in> set old) (fst (place_pending tileable alive windows ps ord')) = filter (\<lambda>w. w \<in> set old) ord')"
      using 2(2) [OF False refl] new(1) unfolding ord'_def Let_def by blast
    show ?thesis unfolding eq
    proof (intro conjI impI)
      show "distinct (fst (place_pending tileable alive windows ps ord'))" using ih by blast
      show "set (fst (place_pending tileable alive windows ps ord')) = set ord \<union> {v \<in> fst ` set ((w, after) # ps). v \<in> set windows \<and> tileable v}"
        using ih new(2) False by auto
      show "filter (\<lambda>w. w \<in> set old) (fst (place_pending tileable alive windows ps ord')) = filter (\<lambda>w. w \<in> set old) ord"
        if "set old \<subseteq> set ord"
        using ih new(2) same [OF that] that by auto
    qed
  qed
qed simp

lemma add_missing_order:
  assumes "distinct ord"
  shows "distinct (add_missing tileable windows ord)
    \<and> set (add_missing tileable windows ord) = set ord \<union> {w \<in> set windows. tileable w}
    \<and> (\<exists>extra. add_missing tileable windows ord = ord @ extra)"
  using assms unfolding add_missing_def
proof (induction windows arbitrary: ord)
  case (Cons w ws)
  show ?case
  proof (cases "tileable w \<and> w \<notin> set ord")
    case True
    then have "distinct (ord @ [w])" using Cons.prems by simp
    from Cons.IH [OF this] True show ?thesis by auto
  next
    case False
    then show ?thesis using Cons.IH [OF Cons.prems] by auto
  qed
qed simp

lemma maintain_order_facts:
  assumes "distinct ord"
  shows "distinct (fst (maintain_order tileable alive windows pending ord))"
    and "set (fst (maintain_order tileable alive windows pending ord)) = {w \<in> set windows. tileable w}"
    and "filter (\<lambda>w. w \<in> set ord) (fst (maintain_order tileable alive windows pending ord)) = filter (\<lambda>w. w \<in> set windows \<and> tileable w) ord"
    and "snd (maintain_order tileable alive windows pending ord) = filter (\<lambda>(w, _). w \<notin> set windows \<and> alive w) pending"
proof -
  let ?kept = "filter (\<lambda>w. tileable w \<and> w \<in> set windows) ord"
  let ?placed = "fst (place_pending tileable alive windows pending ?kept)"
  have eq: "maintain_order tileable alive windows pending ord
      = (add_missing tileable windows ?placed, snd (place_pending tileable alive windows pending ?kept))"
    by (simp add: maintain_order_def split: prod.split)
  have kept: "distinct ?kept" using assms by simp
  note pl = place_pending_order [OF kept, where old = ?kept and tileable = tileable and alive = alive and windows = windows and ps = pending]
  note am = add_missing_order [of ?placed tileable windows]
  show "distinct (fst (maintain_order tileable alive windows pending ord))"
    unfolding eq using pl am by simp
  show st: "set (fst (maintain_order tileable alive windows pending ord)) = {w \<in> set windows. tileable w}"
    unfolding eq using pl am by auto
  show "snd (maintain_order tileable alive windows pending ord) = filter (\<lambda>(w, _). w \<notin> set windows \<and> alive w) pending"
    unfolding eq by (simp add: place_pending_left)
  obtain extra where ex: "add_missing tileable windows ?placed = ?placed @ extra" using pl am by auto
  have good: "set (add_missing tileable windows ?placed) = {w \<in> set windows. tileable w}" using st unfolding eq by simp
  have "filter (\<lambda>w. w \<in> set ord) (add_missing tileable windows ?placed) = filter (\<lambda>w. w \<in> set ?kept) (add_missing tileable windows ?placed)"
    using good by (intro filter_cong) auto
  also have "\<dots> = filter (\<lambda>w. w \<in> set ?kept) ?placed"
  proof -
    have "set extra \<inter> set ?kept = {}"
      using add_missing_order [of ?placed tileable windows] pl ex by auto
    then show ?thesis unfolding ex filter_append by (metis (no_types, lifting) append.right_neutral disjoint_iff filter_False)
  qed
  also have "\<dots> = filter (\<lambda>w. w \<in> set ?kept) ?kept" using pl by blast
  also have "\<dots> = ?kept" by (rule filter_True) simp
  finally show "filter (\<lambda>w. w \<in> set ord) (fst (maintain_order tileable alive windows pending ord)) = filter (\<lambda>w. w \<in> set windows \<and> tileable w) ord"
    unfolding eq by (simp add: conj_commute)
qed

section \<open>Columns and the arrangement of an output\<close>

text \<open>What the rounding product has to satisfy: a fraction of a length is no longer than the length.\<close>

definition rounding :: "mul \<Rightarrow> bool" where
  "rounding mul \<longleftrightarrow> (\<forall>n q. 0 \<le> n \<and> 0 \<le> q \<and> q \<le> 1 \<longrightarrow> 0 \<le> mul n q \<and> mul n q \<le> n)"

lemma column_width_min: "MIN_TILE \<le> column_width mul area_w q gap"
  by (simp add: column_width_def Let_def)

lemma column_width_max:
  assumes "rounding mul" "0 \<le> gap" "gap \<le> MIN_TILE" "MIN_TILE \<le> area_w"
  shows "column_width mul area_w q gap \<le> area_w"
proof -
  define q' where "q' = (if q \<le> 0 then 1 / 2 else clamp (1 / 10) 1 q)"
  have "0 \<le> q'" "q' \<le> 1" using clamp_bounds [of "1 / 10" 1 q] by (auto simp: q'_def)
  then have "mul (area_w - gap) q' \<le> area_w - gap" using assms by (auto simp: rounding_def MIN_TILE_def)
  then show ?thesis using assms by (auto simp: column_width_def q'_def [symmetric] Let_def MIN_TILE_def)
qed

lemma column_strip_length [simp]: "length (column_strip mul area fs gap x) = length fs"
  by (induction fs arbitrary: x) (simp_all add: Let_def)

lemma column_strip_nth:
  "i < length fs \<Longrightarrow> column_strip mul area fs gap x ! i =
     rectangle (x + column_x mul (rw area) fs gap i) (ry area) (column_width mul (rw area) (fs ! i) gap) (rh area)"
proof (induction fs arbitrary: x i)
  case (Cons f fs)
  then show ?case by (cases i) (simp_all add: Let_def algebra_simps)
qed simp

lemma column_x_nonneg: "0 \<le> gap \<Longrightarrow> 0 \<le> column_x mul area_w ws gap i"
proof (induction mul area_w ws gap i rule: column_x.induct)
  case (3 mul area_w w ws gap f)
  then show ?case using column_width_min [of mul area_w w gap] by (auto simp: MIN_TILE_def)
qed simp_all

lemma column_x_step:
  assumes "0 \<le> gap" "i < j" "j < length ws"
  shows "column_x mul area_w ws gap i + column_width mul area_w (ws ! i) gap + gap \<le> column_x mul area_w ws gap j"
  using assms
proof (induction mul area_w ws gap i arbitrary: j rule: column_x.induct)
  case (2 mul area_w w ws gap)
  then show ?case using column_x_nonneg [of gap mul area_w ws] by (cases j) auto
next
  case (3 mul area_w w ws gap f)
  from 3(3) obtain k where j: "j = Suc k" by (cases j) auto
  have "column_x mul area_w ws gap f + column_width mul area_w (ws ! f) gap + gap \<le> column_x mul area_w ws gap k"
    using 3 j by simp
  then show ?case unfolding j by simp
qed simp

lemma column_x_total:
  "0 \<le> gap \<Longrightarrow> f < length ws \<Longrightarrow>
     column_x mul area_w ws gap f + column_width mul area_w (ws ! f) gap \<le> strip_total mul area_w ws gap"
proof (induction mul area_w ws gap f rule: column_x.induct)
  case (2 mul area_w w ws gap)
  have "0 \<le> column_width mul area_w v gap" for v using column_width_min [of mul area_w v gap] by (simp add: MIN_TILE_def)
  then have "0 \<le> sum_list (map (\<lambda>f. column_width mul area_w f gap) ws)" by (intro sum_list_nonneg) auto
  then show ?case using 2 by (simp add: strip_total_def)
next
  case (3 mul area_w w ws gap f)
  have "strip_total mul area_w (w # ws) gap = column_width mul area_w w gap + gap + strip_total mul area_w ws gap"
    using 3(3) by (cases ws) (simp_all add: strip_total_def distrib_left)
  moreover have "column_x mul area_w ws gap f + column_width mul area_w (ws ! f) gap \<le> strip_total mul area_w ws gap"
    using 3 by simp
  ultimately show ?case by simp
qed simp

lemma scroll_to_show_visible:
  assumes "0 \<le> gap" "f < length ws" "column_width mul area_w (ws ! f) gap \<le> area_w"
  shows "scroll_to_show mul area_w ws gap scroll (Some f) \<le> column_x mul area_w ws gap f
    \<and> column_x mul area_w ws gap f + column_width mul area_w (ws ! f) gap \<le> scroll_to_show mul area_w ws gap scroll (Some f) + area_w"
proof (cases "strip_total mul area_w ws gap \<le> area_w")
  case True
  then show ?thesis
    using column_x_nonneg [OF assms(1), of mul area_w ws f] column_x_total [OF assms(1,2), of mul area_w]
    by (simp add: scroll_to_show_def Let_def)
next
  case False
  define s0 where "s0 = clamp 0 (strip_total mul area_w ws gap - area_w) scroll"
  have s0: "0 \<le> s0" "s0 \<le> strip_total mul area_w ws gap - area_w"
    using clamp_bounds [of 0 "strip_total mul area_w ws gap - area_w" scroll] False by (simp_all add: s0_def)
  show ?thesis
    using False assms s0 column_x_nonneg [OF assms(1), of mul area_w ws f] column_x_total [OF assms(1,2), of mul area_w]
    by (simp add: scroll_to_show_def s0_def [symmetric] Let_def clamp_id)
qed

lemma columns_disjoint:
  assumes "0 \<le> gap" "i < j" "j < length fs"
  shows "disjoint_rects (column_strip mul area fs gap x ! i) (column_strip mul area fs gap x ! j)"
  using column_x_step [OF assms, of mul "rw area"] assms by (simp add: column_strip_nth disjoint_rects_def)

text \<open>The tiles of an arrangement and their rectangles, one list each.\<close>

definition arranged_tiles :: "(nat \<Rightarrow> bool) \<Rightarrow> (nat \<Rightarrow> bool) \<Rightarrow> (nat \<Rightarrow> bool) \<Rightarrow> nat list \<Rightarrow> (nat \<times> nat option) list \<Rightarrow> nat list \<Rightarrow> nat list" where
  "arranged_tiles tileable alive fullscreen windows pending ord =
     filter (\<lambda>w. w \<in> set windows \<and> \<not> fullscreen w) (fst (maintain_order tileable alive windows pending ord))"

definition tile_rects :: "mul \<Rightarrow> layout_mode \<Rightarrow> int \<Rightarrow> rect \<Rightarrow> rat list \<Rightarrow> int \<Rightarrow> rect list" where
  "tile_rects mul mode gap inner fracs visual =
     (case mode of Dwindle \<Rightarrow> map fst (dwindle_rects mul inner fracs gap)
      | Columns \<Rightarrow> column_rects mul inner fracs gap visual | Floating \<Rightarrow> [])"

lemma inner_area_min [simp]: "MIN_TILE \<le> rw (inner_area area outer)" "MIN_TILE \<le> rh (inner_area area outer)"
  by (simp_all add: inner_area_def)

lemma tile_rects_facts:
  assumes "0 \<le> gap" "MIN_TILE \<le> rw inner" "MIN_TILE \<le> rh inner" "is_tiling mode"
  shows "length (tile_rects mul mode gap inner fracs visual) = length fracs"
    and "i < j \<Longrightarrow> j < length fracs \<Longrightarrow>
      disjoint_rects (tile_rects mul mode gap inner fracs visual ! i) (tile_rects mul mode gap inner fracs visual ! j)"
    and "r \<in> set (tile_rects mul mode gap inner fracs visual) \<Longrightarrow> MIN_TILE \<le> rw r \<and> MIN_TILE \<le> rh r"
proof -
  show len: "length (tile_rects mul mode gap inner fracs visual) = length fracs"
    using assms(4) by (cases mode) (simp_all add: tile_rects_def is_tiling_def dwindle_length column_rects_def)
  show "disjoint_rects (tile_rects mul mode gap inner fracs visual ! i) (tile_rects mul mode gap inner fracs visual ! j)"
    if "i < j" "j < length fracs"
  proof (cases mode)
    case Dwindle
    then show ?thesis
      using sorted_wrt_nth_less [OF dwindle_disjoint [OF assms(1-3)] that(1)] that by (simp add: tile_rects_def dwindle_length)
  next
    case Columns
    then show ?thesis using columns_disjoint [OF assms(1) that] by (simp add: tile_rects_def column_rects_def)
  qed (use assms(4) in \<open>simp add: is_tiling_def\<close>)
  show "MIN_TILE \<le> rw r \<and> MIN_TILE \<le> rh r" if "r \<in> set (tile_rects mul mode gap inner fracs visual)"
  proof (cases mode)
    case Dwindle
    then show ?thesis using that dwindle_after(3,4) [OF assms(1) _ assms(2,3)] by (auto simp: tile_rects_def)
  next
    case Columns
    then show ?thesis using that assms(3) column_width_min by (auto simp: tile_rects_def column_rects_def in_set_conv_nth column_strip_nth)
  qed (use assms(4) in \<open>simp add: is_tiling_def\<close>)
qed

lemma slide_order: "ot_order (fst (slide mul now target t)) = ot_order t"
  by (simp add: slide_def Let_def split: option.split)

lemma slide_rest: "ot_anim (fst (slide mul now target t)) = None \<Longrightarrow> snd (slide mul now target t) = target"
  by (auto simp: slide_def Let_def split: option.splits if_splits)

lemma arrange_tiles_form:
  assumes "arrange_tiles mul mode gap outer area tileable alive fullscreen width windows focused now pending t = (t', left, placed)"
    "is_tiling mode" "0 \<le> gap"
  defines "tiles \<equiv> arranged_tiles tileable alive fullscreen windows pending (ot_order t)"
  defines "target \<equiv> scroll_to_show mul (rw (inner_area area outer)) (map width tiles) gap (ot_scroll t) (Option.bind focused (\<lambda>f. index_of f tiles))"
  obtains visual where
    "ot_order t' = fst (maintain_order tileable alive windows pending (ot_order t))"
    "left = snd (maintain_order tileable alive windows pending (ot_order t))"
    "length placed = length tiles" "map fst placed = tiles"
    "map (fst \<circ> snd) placed = tile_rects mul mode gap (inner_area area outer) (map width tiles) visual"
    "mode = Columns \<and> ot_anim t' = None \<longrightarrow> visual = target"
proof -
  obtain ord l where mo: "maintain_order tileable alive windows pending (ot_order t) = (ord, l)" by (meson surj_pair)
  define sl where "sl = slide mul now target (t\<lparr>ot_order := ord\<rparr>)"
  define rects where "rects = tile_rects mul mode gap (inner_area area outer) (map width tiles) (snd sl)"
  have tiles: "tiles = filter (\<lambda>w. w \<in> set windows \<and> \<not> fullscreen w) ord"
    by (simp add: tiles_def arranged_tiles_def mo)
  have len: "length rects = length tiles"
    using tile_rects_facts(1) [OF assms(3) inner_area_min assms(2)] by (simp add: rects_def)
  have res: "left = l" "t' = (if mode = Columns then fst sl else t\<lparr>ot_order := ord\<rparr>)"
    "placed = map (\<lambda>i. (tiles ! i, rects ! i, tile_seams gap rects i)) [0..<length tiles]"
    using assms(1) len
    by (cases mode; auto simp: arrange_tiles_def mo Let_def tiles [symmetric] target_def [symmetric] sl_def rects_def tile_rects_def
        case_prod_beta)+
  show thesis
  proof
    show "ot_order t' = fst (maintain_order tileable alive windows pending (ot_order t))"
      by (simp add: res mo sl_def slide_order)
    show "left = snd (maintain_order tileable alive windows pending (ot_order t))" by (simp add: res mo)
    show "length placed = length tiles" by (simp add: res)
    show "map fst placed = tiles" by (simp add: res o_def map_nth)
    show "map (fst \<circ> snd) placed = tile_rects mul mode gap (inner_area area outer) (map width tiles) (snd sl)"
      unfolding rects_def [symmetric] using len by (simp add: res o_def map_nth flip: len)
    show "mode = Columns \<and> ot_anim t' = None \<longrightarrow> snd sl = target" by (auto simp: res sl_def slide_rest)
  qed
qed

text \<open>
  C38. Arranging an output gives each of its windows that take part in the tiling and are not full
  screen exactly one tile, and nothing else; the tiles do not overlap and none is smaller than the
  minimum. The windows already tiled keep their relative order, the new order holds every tileable
  window of the output once, and only live windows of other outputs stay pending.
\<close>

theorem arrange_tiles_exact:
  assumes "arrange_tiles mul mode gap outer area tileable alive fullscreen width windows focused now pending t = (t', left, placed)"
    and "is_tiling mode" "0 \<le> gap" "distinct (ot_order t)"
  shows "distinct (map fst placed) \<and> set (map fst placed) = {w \<in> set windows. tileable w \<and> \<not> fullscreen w}
    \<and> (\<forall>i j. i < j \<and> j < length placed \<longrightarrow> disjoint_rects (fst (snd (placed ! i))) (fst (snd (placed ! j))))
    \<and> (\<forall>p \<in> set placed. MIN_TILE \<le> rw (fst (snd p)) \<and> MIN_TILE \<le> rh (fst (snd p)))
    \<and> distinct (ot_order t') \<and> set (ot_order t') = {w \<in> set windows. tileable w}
    \<and> filter (\<lambda>w. w \<in> set (ot_order t)) (ot_order t') = filter (\<lambda>w. w \<in> set windows \<and> tileable w) (ot_order t)
    \<and> left = filter (\<lambda>(w, _). w \<notin> set windows \<and> alive w) pending"
proof -
  let ?tiles = "arranged_tiles tileable alive fullscreen windows pending (ot_order t)"
  obtain visual where f: "ot_order t' = fst (maintain_order tileable alive windows pending (ot_order t))"
    "left = snd (maintain_order tileable alive windows pending (ot_order t))"
    "length placed = length ?tiles" "map fst placed = ?tiles"
    "map (fst \<circ> snd) placed = tile_rects mul mode gap (inner_area area outer) (map width ?tiles) visual"
    by (rule arrange_tiles_form [OF assms(1-3)])
  note mo = maintain_order_facts [OF assms(4), of tileable alive windows pending]
  note tr = tile_rects_facts [OF assms(3) inner_area_min assms(2)]
  have nth: "fst (snd (placed ! i)) = tile_rects mul mode gap (inner_area area outer) (map width ?tiles) visual ! i"
    if "i < length placed" for i
    using that arg_cong [OF f(5), of "\<lambda>xs. xs ! i"] by simp
  have "disjoint_rects (fst (snd (placed ! i))) (fst (snd (placed ! j)))" if "i < j" "j < length placed" for i j
    using that nth f(3) tr(2) [OF that(1), of "map width ?tiles"] by simp
  moreover have "MIN_TILE \<le> rw (fst (snd p)) \<and> MIN_TILE \<le> rh (fst (snd p))" if "p \<in> set placed" for p
  proof (rule tr(3))
    show "fst (snd p) \<in> set (tile_rects mul mode gap (inner_area area outer) (map width ?tiles) visual)"
      unfolding f(5) [symmetric] using that by force
  qed
  moreover have "distinct ?tiles" "set ?tiles = {w \<in> set windows. tileable w \<and> \<not> fullscreen w}"
    using mo(1,2) by (auto simp: arranged_tiles_def)
  ultimately show ?thesis unfolding f(1,2,4) using mo by blast
qed

definition demo_arrange :: "layout_mode \<Rightarrow> output_tiling \<times> (nat \<times> nat option) list \<times> (nat \<times> rect \<times> u8) list" where
  "demo_arrange mode = arrange_tiles round_mul mode 8 8 (rectangle 0 0 1920 1080) (\<lambda>w. w \<noteq> 9) (\<lambda>_. True) (\<lambda>_. False)
     (\<lambda>_. 0) [1, 2, 3, 9] (Some 3) 0 [(3, Some 1), (7, None)] (no_tiling\<lparr>ot_order := [1, 5, 2]\<rparr>)"

lemma round_mul_rounding: "rounding round_mul"
proof -
  have "0 \<le> round_mul n q \<and> round_mul n q \<le> n" if "0 \<le> n" "0 \<le> q" "q \<le> 1" for n q
  proof -
    have "of_int n * q \<le> of_int n" "0 \<le> of_int n * q" using that mult_left_le [of q "of_int n"] by simp_all
    then show ?thesis by (auto simp: round_mul_def floor_le_iff le_floor_iff)
  qed
  then show ?thesis by (simp add: rounding_def)
qed

theorem arrange_tiles_exact_witness:
  "set (map fst (snd (snd (demo_arrange Dwindle)))) = {1, 2, 3} \<and> fst (snd (demo_arrange Dwindle)) = [(7, None)]
   \<and> ot_order (fst (demo_arrange Dwindle)) = [1, 3, 2]"
proof -
  have "maintain_order (\<lambda>w. w \<noteq> 9) (\<lambda>_. True) [1, 2, 3, 9] [(3, Some 1), (7, None)] [1, 5, 2] = ([1, 3, 2], [(7, None)])"
    by (simp add: maintain_order_def add_missing_def)
  then have "ot_order (fst (demo_arrange Dwindle)) = [1, 3, 2]"
    by (simp add: demo_arrange_def arrange_tiles_def Let_def no_tiling_def)
  moreover have "arrange_tiles round_mul Dwindle 8 8 (rectangle 0 0 1920 1080) (\<lambda>w. w \<noteq> 9) (\<lambda>_. True) (\<lambda>_. False)
      (\<lambda>_. 0) [1, 2, 3, 9] (Some 3) 0 [(3, Some 1), (7, None)] (no_tiling\<lparr>ot_order := [1, 5, 2]\<rparr>)
      = (fst (demo_arrange Dwindle), fst (snd (demo_arrange Dwindle)), snd (snd (demo_arrange Dwindle)))"
    by (simp add: demo_arrange_def)
  note eq = this
  have "is_tiling Dwindle" "(0::int) \<le> 8" "distinct (ot_order (no_tiling\<lparr>ot_order := [1, 5, 2]\<rparr>))"
    by (simp_all add: is_tiling_def)
  from arrange_tiles_exact [OF eq this]
  have "set (map fst (snd (snd (demo_arrange Dwindle)))) = {w \<in> set [1, 2, 3, 9]. w \<noteq> 9 \<and> \<not> False}"
    "fst (snd (demo_arrange Dwindle)) = filter (\<lambda>(w, _). w \<notin> set [1, 2, 3, 9] \<and> True) [(3, Some 1), (7, None)]"
    by blast+
  moreover have "{w \<in> set [1, 2, 3, 9 :: nat]. w \<noteq> 9 \<and> \<not> False} = {1, 2, 3}" by auto
  ultimately show ?thesis by simp
qed

lemma index_of_Some: "index_of x xs = Some i \<Longrightarrow> i < length xs \<and> xs ! i = x"
  by (induction xs arbitrary: i) (auto split: if_splits)

lemma index_of_None: "index_of x xs = None \<longleftrightarrow> x \<notin> set xs"
  by (induction xs) auto

text \<open>
  In the columns mode, once the strip is at rest, the column of the focused window lies wholly
  in the area between the outer gaps, whatever was scrolled before and however many columns there
  are.
\<close>

theorem focused_column_visible:
  assumes "arrange_tiles mul Columns gap outer area tileable alive fullscreen width windows (Some f) now pending t = (t', left, placed)"
    and "rounding mul" "0 \<le> gap" "gap \<le> 64" "distinct (ot_order t)" "ot_anim t' = None"
    and "f \<in> set windows" "tileable f" "\<not> fullscreen f"
  shows "\<exists>r s. (f, r, s) \<in> set placed \<and> rx (inner_area area outer) \<le> rx r
    \<and> rx r + rw r \<le> rx (inner_area area outer) + rw (inner_area area outer)"
proof -
  let ?inner = "inner_area area outer"
  let ?tiles = "arranged_tiles tileable alive fullscreen windows pending (ot_order t)"
  let ?fracs = "map width ?tiles"
  let ?target = "scroll_to_show mul (rw ?inner) ?fracs gap (ot_scroll t) (Option.bind (Some f) (\<lambda>f. index_of f ?tiles))"
  obtain visual where f: "length placed = length ?tiles" "map fst placed = ?tiles"
    "map (fst \<circ> snd) placed = tile_rects mul Columns gap ?inner ?fracs visual" "ot_anim t' = None \<longrightarrow> visual = ?target"
    by (rule arrange_tiles_form [OF assms(1) _ assms(3)]) (auto simp: is_tiling_def)
  have "f \<in> set ?tiles" using maintain_order_facts(2) [OF assms(5)] assms(7-9) by (auto simp: arranged_tiles_def)
  then obtain i where i: "index_of f ?tiles = Some i" using index_of_None [of f ?tiles] by auto
  then have il: "i < length ?tiles" "?tiles ! i = f" using index_of_Some [OF i] by auto
  obtain r s where p: "placed ! i = (f, r, s)"
    using il f(1) arg_cong [OF f(2), of "\<lambda>xs. xs ! i"] by (cases "placed ! i") auto
  have "r = column_rects mul ?inner ?fracs gap ?target ! i"
    using arg_cong [OF f(3), of "\<lambda>xs. xs ! i"] f(1,4) il p assms(6) by (simp add: tile_rects_def)
  then have r: "r = rectangle (rx ?inner - ?target + column_x mul (rw ?inner) ?fracs gap i) (ry ?inner)
      (column_width mul (rw ?inner) (?fracs ! i) gap) (rh ?inner)"
    using il by (simp add: column_rects_def column_strip_nth)
  have gap: "gap \<le> MIN_TILE" using assms(4) by (simp add: MIN_TILE_def)
  have "column_width mul (rw ?inner) (?fracs ! i) gap \<le> rw ?inner"
    by (intro column_width_max [OF assms(2,3)]) (simp_all add: gap)
  then have "rx ?inner \<le> rx r \<and> rx r + rw r \<le> rx ?inner + rw ?inner"
    using scroll_to_show_visible [OF assms(3), of i ?fracs mul "rw ?inner" "ot_scroll t"] il(1) i by (simp add: r)
  moreover have "(f, r, s) \<in> set placed" using p il(1) f(1) nth_mem [of i placed] by simp
  ultimately show ?thesis by blast
qed

theorem focused_column_visible_witness:
  "\<exists>r s. (3, r, s) \<in> set (snd (snd (demo_arrange Columns))) \<and> 8 \<le> rx r \<and> rx r + rw r \<le> 1912"
proof -
  have mo: "maintain_order (\<lambda>w. w \<noteq> 9) (\<lambda>_. True) [1, 2, 3, 9] [(3, Some 1), (7, None)] [1, 5, 2] = ([1, 3, 2], [(7, None)])"
    by (simp add: maintain_order_def add_missing_def)
  have "column_width round_mul 1904 0 8 = 948"
    by (simp add: column_width_def round_mul_def MIN_TILE_def floor_eq_iff)
  then have "scroll_to_show round_mul 1904 [0, 0, 0] 8 0 (Some 1) = 0"
    by (simp add: scroll_to_show_def strip_total_def clamp_def numeral_2_eq_2)
  then have "ot_anim (fst (demo_arrange Columns)) = None"
    using mo by (simp add: demo_arrange_def arrange_tiles_def no_tiling_def inner_area_def MIN_TILE_def slide_def)
  moreover have "arrange_tiles round_mul Columns 8 8 (rectangle 0 0 1920 1080) (\<lambda>w. w \<noteq> 9) (\<lambda>_. True) (\<lambda>_. False)
      (\<lambda>_. 0) [1, 2, 3, 9] (Some 3) 0 [(3, Some 1), (7, None)] (no_tiling\<lparr>ot_order := [1, 5, 2]\<rparr>)
      = (fst (demo_arrange Columns), fst (snd (demo_arrange Columns)), snd (snd (demo_arrange Columns)))"
    by (simp add: demo_arrange_def)
  ultimately show ?thesis
    using focused_column_visible [of round_mul 8 8 "rectangle 0 0 1920 1080" "\<lambda>w. w \<noteq> 9" "\<lambda>_. True" "\<lambda>_. False"
        "\<lambda>_. 0" "[1, 2, 3, 9]" 3 0 "[(3, Some 1), (7, None)]" "no_tiling\<lparr>ot_order := [1, 5, 2]\<rparr>"
        "fst (demo_arrange Columns)" "fst (snd (demo_arrange Columns))" "snd (snd (demo_arrange Columns))"] round_mul_rounding
    by (simp add: inner_area_def MIN_TILE_def)
qed

section \<open>Exchanging tiles\<close>

text \<open>
  The layout is well formed when the outputs have distinct names and no window has two tiles.
\<close>

definition all_tiles :: "(string \<times> output_tiling) list \<Rightarrow> nat list" where
  "all_tiles outs = concat (map (\<lambda>(_, t). ot_order t) outs)"

definition layout_inv :: "layout_state \<Rightarrow> bool" where
  "layout_inv l \<longleftrightarrow> distinct (map fst (ls_outputs l)) \<and> distinct (all_tiles (ls_outputs l))"

lemma all_tiles_simps [simp]:
  "all_tiles [] = []" "all_tiles ((n, t) # outs) = ot_order t @ all_tiles outs"
  by (simp_all add: all_tiles_def)

lemma mset_swap_at: "i < length xs \<Longrightarrow> j < length xs \<Longrightarrow> mset (swap_at i j xs) = mset xs"
  unfolding swap_at_def by (rule mset_swap)

lemma shift_in_facts:
  "shift_in w towards_end outs = Some outs' \<Longrightarrow>
     map fst outs' = map fst outs \<and> mset (all_tiles outs') = mset (all_tiles outs)"
proof (induction w towards_end outs arbitrary: outs' rule: shift_in.induct)
  case (2 w towards_end n t outs)
  then show ?case
    by (auto split: option.splits if_splits dest!: index_of_Some simp: mset_swap_at)
qed simp

text \<open>The slot of a window, and that a window has one slot only.\<close>

definition located :: "(string \<times> output_tiling) list \<Rightarrow> nat \<Rightarrow> string \<Rightarrow> nat \<Rightarrow> bool" where
  "located outs w n i \<longleftrightarrow> (\<exists>t. map_of outs n = Some t \<and> i < length (ot_order t) \<and> ot_order t ! i = w)"

lemma set_all_tiles: "set (all_tiles outs) = (\<Union>(n, t) \<in> set outs. set (ot_order t))"
  by (auto simp: all_tiles_def)

lemma all_tiles_order:
  "distinct (all_tiles outs) \<Longrightarrow> (n, t) \<in> set outs \<Longrightarrow> distinct (ot_order t)"
  by (induction outs) auto

lemma all_tiles_unique:
  "distinct (map fst outs) \<Longrightarrow> distinct (all_tiles outs) \<Longrightarrow> (n, t) \<in> set outs \<Longrightarrow> (m, u) \<in> set outs
   \<Longrightarrow> w \<in> set (ot_order t) \<Longrightarrow> w \<in> set (ot_order u) \<Longrightarrow> n = m \<and> t = u"
proof (induction outs)
  case (Cons p outs)
  have "w \<in> set (all_tiles outs)" if "(k, v) \<in> set outs" "w \<in> set (ot_order v)" for k v
    using that by (auto simp: set_all_tiles)
  then show ?case using Cons by (cases p) fastforce
qed simp

definition hits :: "nat \<Rightarrow> (string \<times> output_tiling) list \<Rightarrow> (string \<times> nat) list" where
  "hits w outs = concat (map (\<lambda>(n, t). case index_of w (ot_order t) of Some i \<Rightarrow> [(n, i)] | None \<Rightarrow> []) outs)"

lemma tile_slots_hits: "mset (tile_slots a b outs) = mset (hits a outs) + mset (hits b outs)"
  by (induction outs) (auto simp: tile_slots_def hits_def split: option.splits)

lemma hits_none: "w \<notin> set (all_tiles outs) \<Longrightarrow> hits w outs = []"
  by (auto simp: hits_def set_all_tiles index_of_None split: option.split)

lemma hits_one:
  "distinct (map fst outs) \<Longrightarrow> distinct (all_tiles outs) \<Longrightarrow> w \<in> set (all_tiles outs)
   \<Longrightarrow> \<exists>n i. hits w outs = [(n, i)] \<and> located outs w n i"
proof (induction outs)
  case (Cons p outs)
  obtain n t where p: "p = (n, t)" by (cases p)
  show ?case
  proof (cases "index_of w (ot_order t)")
    case None
    then have "w \<in> set (all_tiles outs)" using Cons.prems p by (auto simp: index_of_None)
    then obtain m i where mi: "hits w outs = [(m, i)]" "located outs w m i" using Cons p by auto
    moreover have "m \<noteq> n" using mi(2) Cons.prems(1) p by (force simp: located_def dest: map_of_SomeD)
    ultimately show ?thesis using None p by (auto simp: hits_def located_def)
  next
    case (Some i)
    then have i: "i < length (ot_order t)" "ot_order t ! i = w" using index_of_Some [OF Some] by auto
    then have "w \<in> set (ot_order t)" by auto
    then have "hits w outs = []" using Cons.prems(2) p by (intro hits_none) auto
    then show ?thesis using Some p i by (auto simp: hits_def located_def)
  qed
qed simp

lemma mset_two: "mset xs = {#a, b#} \<Longrightarrow> xs = [a, b] \<or> xs = [b, a]"
  by (cases xs; cases "tl xs") (auto simp: add_eq_conv_ex)

definition exchange :: "nat \<Rightarrow> nat \<Rightarrow> nat \<Rightarrow> nat" where
  "exchange a b w = (if w = a then b else if w = b then a else w)"

lemma exchange_commute: "exchange a b = exchange b a"
  by (auto simp: exchange_def)

lemma set_slots_exchange:
  assumes inv: "distinct (map fst outs)" "distinct (all_tiles outs)"
    and a: "located outs a na ia" and b: "located outs b nb ib" and "a \<noteq> b"
  shows "set_slot nb ib a (set_slot na ia b outs) = map (\<lambda>(n, t). (n, t\<lparr>ot_order := map (exchange a b) (ot_order t)\<rparr>)) outs"
proof -
  have "(case (case (n, t) of (n, t) \<Rightarrow> if n = na then (n, t\<lparr>ot_order := (ot_order t)[ia := b]\<rparr>) else (n, t)) of
        (n, t) \<Rightarrow> if n = nb then (n, t\<lparr>ot_order := (ot_order t)[ib := a]\<rparr>) else (n, t))
      = (n, t\<lparr>ot_order := map (exchange a b) (ot_order t)\<rparr>)" if nt: "(n, t) \<in> set outs" for n t
  proof -
    have mt: "map_of outs n = Some t" using nt inv(1) by simp
    have dt: "distinct (ot_order t)" using all_tiles_order [OF inv(2) nt] .
    have slot: "k < length (ot_order t) \<Longrightarrow> ot_order t ! k = w \<longleftrightarrow> n = m \<and> k = i" if loc: "located outs w m i" for w m i k
    proof -
      obtain u where u: "map_of outs m = Some u" "i < length (ot_order u)" "ot_order u ! i = w" using loc by (auto simp: located_def)
      assume k: "k < length (ot_order t)"
      have "n = m \<and> t = u" if "ot_order t ! k = w"
        using all_tiles_unique [OF inv nt map_of_SomeD [OF u(1)], of w] that k u(2,3) by (metis nth_mem)
      then show ?thesis using k u mt dt by (metis nth_eq_iff_index_eq option.inject)
    qed
    have len: "n = na \<Longrightarrow> ia < length (ot_order t)" "n = nb \<Longrightarrow> ib < length (ot_order t)"
      using a b mt by (auto simp: located_def)
    have "(let xs = if n = na then (ot_order t)[ia := b] else ot_order t in if n = nb then xs[ib := a] else xs) = map (exchange a b) (ot_order t)"
    proof (rule nth_equalityI)
      fix k assume "k < length (let xs = if n = na then (ot_order t)[ia := b] else ot_order t in if n = nb then xs[ib := a] else xs)"
      then have k: "k < length (ot_order t)" by (auto simp: Let_def split: if_splits)
      show "(let xs = if n = na then (ot_order t)[ia := b] else ot_order t in if n = nb then xs[ib := a] else xs) ! k
          = map (exchange a b) (ot_order t) ! k"
        using k slot [OF a k] slot [OF b k] \<open>a \<noteq> b\<close> by (auto simp: Let_def exchange_def nth_list_update)
    qed (simp add: Let_def)
    then show ?thesis by (cases "n = na"; cases "n = nb") simp_all
  qed
  then show ?thesis unfolding set_slot_def map_map by (intro map_cong refl) (simp only: o_def split_paired_all prod.case)
qed

lemma swap_both:
  assumes inv: "layout_inv l" and ab: "a \<noteq> b" "a \<in> set (all_tiles (ls_outputs l))" "b \<in> set (all_tiles (ls_outputs l))"
  shows "\<exists>na nb ia ib. located (ls_outputs l) a na ia \<and> located (ls_outputs l) b nb ib
    \<and> swap_tiles a b l = l\<lparr>ls_home := (ls_home l)(a := Some nb, b := Some na),
        ls_outputs := map (\<lambda>(n, t). (n, t\<lparr>ot_order := map (exchange a b) (ot_order t)\<rparr>)) (ls_outputs l), ls_dirty := True\<rparr>"
proof -
  have d: "distinct (map fst (ls_outputs l))" "distinct (all_tiles (ls_outputs l))" using inv by (simp_all add: layout_inv_def)
  obtain na ia where a: "hits a (ls_outputs l) = [(na, ia)]" "located (ls_outputs l) a na ia" using hits_one [OF d ab(2)] by blast
  obtain nb ib where b: "hits b (ls_outputs l) = [(nb, ib)]" "located (ls_outputs l) b nb ib" using hits_one [OF d ab(3)] by blast
  have w: "slot_window (ls_outputs l) (na, ia) = a" "slot_window (ls_outputs l) (nb, ib) = b"
    using a(2) b(2) by (auto simp: slot_window_def located_def)
  have "mset (tile_slots a b (ls_outputs l)) = {#(na, ia), (nb, ib)#}" using a(1) b(1) by (simp add: tile_slots_hits)
  from mset_two [OF this]
  consider "tile_slots a b (ls_outputs l) = [(na, ia), (nb, ib)]" | "tile_slots a b (ls_outputs l) = [(nb, ib), (na, ia)]"
    by blast
  then show ?thesis
  proof cases
    case 1
    then show ?thesis using a(2) b(2) ab(1) w set_slots_exchange [OF d a(2) b(2) ab(1)] by (auto simp: swap_tiles_def)
  next
    case 2
    have "swap_tiles a b l = l\<lparr>ls_home := (ls_home l)(b := Some na, a := Some nb),
        ls_outputs := map (\<lambda>(n, t). (n, t\<lparr>ot_order := map (exchange b a) (ot_order t)\<rparr>)) (ls_outputs l), ls_dirty := True\<rparr>"
      using 2 ab(1) w set_slots_exchange [OF d b(2) a(2)] by (simp add: swap_tiles_def)
    then show ?thesis
      unfolding exchange_commute [of b a] fun_upd_twist [OF ab(1) [symmetric]] using a(2) b(2) by blast
  qed
qed

lemma swap_missing:
  assumes "layout_inv l" "a \<notin> set (all_tiles (ls_outputs l)) \<or> b \<notin> set (all_tiles (ls_outputs l))"
  shows "swap_tiles a b l = l"
proof -
  have d: "distinct (map fst (ls_outputs l))" "distinct (all_tiles (ls_outputs l))" using assms(1) by (simp_all add: layout_inv_def)
  have one: "size (mset (hits w (ls_outputs l))) \<le> 1" for w
    using hits_one [OF d, of w] hits_none [of w "ls_outputs l"] by (cases "w \<in> set (all_tiles (ls_outputs l))") auto
  have "size (mset (tile_slots a b (ls_outputs l))) \<le> 1"
    unfolding tile_slots_hits using assms(2) hits_none [of _ "ls_outputs l"] one [of a] one [of b] by fastforce
  then have "length (tile_slots a b (ls_outputs l)) \<le> 1" by simp
  then show ?thesis by (auto simp: swap_tiles_def split: list.split)
qed

lemma exchange_bij: "inj (exchange a b)"
  by (auto simp: exchange_def inj_def split: if_splits)

lemma all_tiles_map:
  "all_tiles (map (\<lambda>(n, t). (n, t\<lparr>ot_order := map g (ot_order t)\<rparr>)) outs) = map g (all_tiles outs)"
  by (induction outs) auto

text \<open>
  Swapping two tiles exchanges exactly their two slots, also across outputs, and the windows
  trade their home outputs; every other tile stays where it is and every output keeps its tiles
  apart. When one of them has no tile nothing changes.
\<close>

theorem swap_tiles_exact:
  assumes "layout_inv l"
  shows "layout_inv (swap_tiles a b l) \<and>
    (if a \<noteq> b \<and> a \<in> set (all_tiles (ls_outputs l)) \<and> b \<in> set (all_tiles (ls_outputs l)) then
       ls_outputs (swap_tiles a b l) = map (\<lambda>(n, t). (n, t\<lparr>ot_order := map (exchange a b) (ot_order t)\<rparr>)) (ls_outputs l)
       \<and> (\<exists>na nb ia ib. located (ls_outputs l) a na ia \<and> located (ls_outputs l) b nb ib
            \<and> ls_home (swap_tiles a b l) = (ls_home l)(a := Some nb, b := Some na))
     else swap_tiles a b l = l)"
proof (cases "a \<noteq> b \<and> a \<in> set (all_tiles (ls_outputs l)) \<and> b \<in> set (all_tiles (ls_outputs l))")
  case True
  then obtain na nb ia ib where f: "located (ls_outputs l) a na ia" "located (ls_outputs l) b nb ib"
    "swap_tiles a b l = l\<lparr>ls_home := (ls_home l)(a := Some nb, b := Some na),
        ls_outputs := map (\<lambda>(n, t). (n, t\<lparr>ot_order := map (exchange a b) (ot_order t)\<rparr>)) (ls_outputs l), ls_dirty := True\<rparr>"
    using swap_both [OF assms, of a b] by auto
  have "map fst (map (\<lambda>(n, t). (n, t\<lparr>ot_order := map (exchange a b) (ot_order t)\<rparr>)) (ls_outputs l)) = map fst (ls_outputs l)"
    by (simp add: o_def case_prod_beta)
  moreover have "distinct (map (exchange a b) (all_tiles (ls_outputs l)))"
    using assms by (simp add: layout_inv_def distinct_map inj_on_subset [OF exchange_bij])
  ultimately have "layout_inv (swap_tiles a b l)"
    using assms unfolding f(3) layout_inv_def by (simp del: map_map map_eq_conv add: all_tiles_map)
  then show ?thesis using f True by auto
next
  case False
  have "swap_tiles a a l = l" by (simp add: swap_tiles_def)
  then have "swap_tiles a b l = l" using False swap_missing [OF assms, of a b] by blast
  then show ?thesis using assms False by (simp only: if_False)
qed

definition demo_layout :: layout_state where
  "demo_layout = (layout_new Dwindle 8 8 False)\<lparr>ls_outputs :=
     [(''DP-1'', no_tiling\<lparr>ot_order := [1, 2]\<rparr>), (''HDMI-1'', no_tiling\<lparr>ot_order := [3]\<rparr>)]\<rparr>"

theorem swap_tiles_exact_witness:
  "layout_inv (swap_tiles 3 2 demo_layout) \<and>
   map (ot_order \<circ> snd) (ls_outputs (swap_tiles 3 2 demo_layout)) = [[1, 3], [2]]"
proof -
  have "layout_inv demo_layout" by (simp add: layout_inv_def demo_layout_def layout_new_def)
  from swap_tiles_exact [OF this, of 3 2] show ?thesis
    by (simp add: demo_layout_def layout_new_def exchange_def)
qed

text \<open>Moving a tile one slot keeps every output's tiles.\<close>

lemma shift_tile_inv:
  assumes "layout_inv l"
  shows "layout_inv (snd (shift_tile w towards_end l))"
proof (cases "shift_in w towards_end (ls_outputs l)")
  case (Some outs')
  from shift_in_facts [OF this] have "map fst outs' = map fst (ls_outputs l)" "mset (all_tiles outs') = mset (all_tiles (ls_outputs l))"
    by simp_all
  then show ?thesis using assms Some mset_eq_imp_distinct_iff by (auto simp: shift_tile_def layout_inv_def)
qed (use assms in \<open>simp add: shift_tile_def\<close>)

section \<open>Neighbours, owners and seams\<close>

text \<open>How far a candidate lies in the direction, and its score.\<close>

definition ahead :: "rect \<Rightarrow> direction \<Rightarrow> rect \<Rightarrow> bool" where
  "ahead from dir r \<longleftrightarrow> 0 < fst (dir_offsets from dir r)"

definition score :: "rect \<Rightarrow> direction \<Rightarrow> rect \<Rightarrow> int" where
  "score from dir r = fst (dir_offsets from dir r) + 2 * snd (dir_offsets from dir r)"

lemma neighbour_loop_best:
  "neighbour_loop src dir best cs = b' \<Longrightarrow>
     (case b' of
        None \<Rightarrow> best = None \<and> (\<forall>(w, r) \<in> set cs. \<not> ahead src dir r)
      | Some (s, w) \<Rightarrow> (best = Some (s, w) \<or> (\<exists>r. (w, r) \<in> set cs \<and> ahead src dir r \<and> s = score src dir r))
          \<and> (\<forall>(w', r) \<in> set cs. ahead src dir r \<longrightarrow> s \<le> score src dir r)
          \<and> (\<forall>s0 w0. best = Some (s0, w0) \<longrightarrow> s \<le> s0))"
proof (induction src dir best cs arbitrary: b' rule: neighbour_loop.induct)
  case (2 src dir best w r cs)
  obtain u v where uv: "(u, v) = dir_offsets src dir r" by (metis prod.collapse)
  have sc: "score src dir r = u + v * 2" "ahead src dir r \<longleftrightarrow> 0 < u" by (simp_all add: score_def ahead_def flip: uv)
  show ?case
  proof (cases "u \<le> 0")
    case True
    then have "neighbour_loop src dir best cs = b'" using 2(4) by (simp flip: uv)
    from 2(1) [OF uv True this] True show ?thesis by (auto simp: sc split: option.splits)
  next
    case False
    show ?thesis
    proof (cases "case best of None \<Rightarrow> True | Some (s, _) \<Rightarrow> u + v * 2 < s")
      case better: True
      then have "neighbour_loop src dir (Some (u + v * 2, w)) cs = b'"
        using 2(4) False by (simp flip: uv)
      from 2(2) [OF uv False refl better this] better False show ?thesis
        by (auto simp: sc split: option.splits)
    next
      case worse: False
      then have "neighbour_loop src dir best cs = b'"
        using 2(4) False by (simp flip: uv)
      from 2(3) [OF uv False refl worse this] worse False show ?thesis
        by (auto simp: sc split: option.splits)
    qed
  qed
qed (simp split: option.split)

text \<open>
  Moving the focus in a direction picks a window whose centre really lies that way, and one of
  least distance (the offset along the direction plus twice the offset across it); it finds none
  only when no window lies that way.
\<close>

theorem neighbour_in_nearest:
  "case neighbour_in src dir cs of
     None \<Rightarrow> (\<forall>(w, r) \<in> set cs. \<not> ahead src dir r)
   | Some w \<Rightarrow> \<exists>r. (w, r) \<in> set cs \<and> ahead src dir r
       \<and> (\<forall>(w', r') \<in> set cs. ahead src dir r' \<longrightarrow> score src dir r \<le> score src dir r')"
proof (cases "neighbour_loop src dir None cs")
  case None
  then show ?thesis using neighbour_loop_best [OF None] by (simp add: neighbour_in_def)
next
  case (Some p)
  then show ?thesis using neighbour_loop_best [OF Some] by (cases p) (auto simp: neighbour_in_def)
qed

theorem neighbour_in_nearest_witness:
  "neighbour_in (rectangle 0 0 10 10) DRight [(1, rectangle 30 0 10 10), (2, rectangle 20 0 10 10), (3, rectangle (-20) 0 10 10)] = Some (2::nat)
   \<and> score (rectangle 0 0 10 10) DRight (rectangle 20 0 10 10) \<le> score (rectangle 0 0 10 10) DRight (rectangle 30 0 10 10)"
proof -
  let ?cs = "[(1, rectangle 30 0 10 10), (2, rectangle 20 0 10 10), (3, rectangle (-20) 0 10 10)] :: (nat \<times> rect) list"
  have n: "neighbour_in (rectangle 0 0 10 10) DRight ?cs = Some 2"
    by (simp add: neighbour_in_def dir_offsets_def tdiv_def)
  have "ahead (rectangle 0 0 10 10) DRight (rectangle 30 0 10 10)" by (simp add: ahead_def dir_offsets_def tdiv_def)
  then show ?thesis
    using neighbour_in_nearest [where src = "rectangle 0 0 10 10" and dir = DRight and cs = ?cs] n by auto
qed

text \<open>A window sent to another screen lies on it, and keeps its size when it fits.\<close>

lemma across_inside:
  assumes "0 \<le> rw dest" "0 \<le> rh dest" "0 \<le> rw r" "0 \<le> rh r"
  shows "inside (across r src dest) dest"
    and "rw r \<le> rw dest \<Longrightarrow> rh r \<le> rh dest \<Longrightarrow> rw (across r src dest) = rw r \<and> rh (across r src dest) = rh r"
  using clamp_bounds [of "rx dest" "rx dest + rw dest - min (rw r) (rw dest)" "rx dest + rx r - rx src"]
    clamp_bounds [of "ry dest" "ry dest + rh dest - min (rh r) (rh dest)" "ry dest + ry r - ry src"] assms
  by (auto simp: across_def Let_def inside_def)

text \<open>The two halves of a snap split the screen without a gap, also on odd widths.\<close>

lemma snap_halves:
  "0 \<le> rw area \<Longrightarrow> rx (snap_rect area ''right-half'') = rx (snap_rect area ''left-half'') + rw (snap_rect area ''left-half'')
     \<and> rw (snap_rect area ''left-half'') + rw (snap_rect area ''right-half'') = rw area"
proof -
  have "str_contains ''right-half'' ''half''" "str_contains ''left-half'' ''half''"
    "starts_with ''right-half'' ''right''" "\<not> starts_with ''left-half'' ''right''" by code_simp+
  then show ?thesis by (simp add: snap_rect_def Let_def)
qed

lemma layout_parse_name: "layout_parse (layout_name m) = Some m"
proof -
  have "layout_parse ''floating'' = Some Floating" "layout_parse ''dwindle'' = Some Dwindle" "layout_parse ''columns'' = Some Columns"
    by code_simp+
  then show ?thesis by (cases m) simp_all
qed

text \<open>A window keeps a connected home whatever its geometry; otherwise some output is chosen.\<close>

lemma output_owner_sticky:
  "(n, r) \<in> set outputs \<Longrightarrow> output_owner intersect (Some n) True geometry outputs = Some n"
proof -
  assume "(n, r) \<in> set outputs"
  then have "\<exists>q. List.find (\<lambda>(name, _). name = n) outputs = Some (n, q)"
    by (induction outputs) auto
  then show ?thesis by (auto simp: output_owner_def)
qed

lemma max_by_key_in: "max_by_key k xs = None \<longleftrightarrow> xs = []" "max_by_key k xs = Some y \<Longrightarrow> y \<in> set xs \<and> (\<forall>x \<in> set xs. k x \<le> k y)"
  by (induction xs arbitrary: y) (auto split: option.splits if_splits)

text \<open>A seam is seen from both sides.\<close>

lemma seam_bits: "bit SEAM_LEFT 3" "bit SEAM_RIGHT 1" "bit SEAM_TOP 0" "bit SEAM_BOTTOM 2"
  "\<not> bit SEAM_RIGHT 3" "\<not> bit SEAM_TOP 3" "\<not> bit SEAM_BOTTOM 3" "\<not> bit SEAM_LEFT 1" "\<not> bit SEAM_TOP 1" "\<not> bit SEAM_BOTTOM 1"
  by (simp_all add: SEAM_LEFT_def SEAM_RIGHT_def SEAM_TOP_def SEAM_BOTTOM_def bit_push_bit_iff)

lemma seams_or:
  "bit ((if a then SEAM_LEFT else 0) OR (if b then SEAM_RIGHT else 0) OR (if c then SEAM_TOP else 0) OR (if d then SEAM_BOTTOM else 0)) 3 \<longleftrightarrow> a"
  "bit ((if a then SEAM_LEFT else 0) OR (if b then SEAM_RIGHT else 0) OR (if c then SEAM_TOP else 0) OR (if d then SEAM_BOTTOM else 0)) 1 \<longleftrightarrow> b"
  by (simp_all add: bit_or_iff seam_bits del: One_nat_def)

lemma seams_mutual: "bit (seams_against r other gap) 3 \<longleftrightarrow> bit (seams_against other r gap) 1"
  unfolding seams_against_def Let_def seams_or by (simp only: max.commute min.commute)

end
