(* ===== verification/Window_Cycle.thy ===== *)
theory Window_Cycle
  imports Mindos_Prelude
begin

text \<open>
  Switching between recent windows, src/mindwm/src/window_cycle.rs: the list of windows by recent
  focus, and the selection that stays stable while Alt or Super is held. Window ids are numbers.
\<close>

section \<open>The switcher\<close>

datatype cycle_modifier = Alt | Super

record selection =
  s_order :: "nat list"
  s_index :: nat
  s_origin :: "nat option"
  s_modifier :: cycle_modifier

record window_cycle =
  wc_recent :: "nat list"
  wc_selection :: "selection option"

definition wc_default :: window_cycle where
  "wc_default = \<lparr>wc_recent = [], wc_selection = None\<rparr>"

definition wc_active :: "window_cycle \<Rightarrow> bool" where
  "wc_active c \<longleftrightarrow> wc_selection c \<noteq> None"

definition selected :: "selection \<Rightarrow> nat" where
  "selected s = s_order s ! s_index s"

definition wc_focus :: "nat \<Rightarrow> window_cycle \<Rightarrow> window_cycle" where
  "wc_focus i c =
     (case wc_selection c of
        Some s \<Rightarrow> if selected s = i then c
                 else c\<lparr>wc_selection := None, wc_recent := i # filter (\<lambda>old. old \<noteq> i) (wc_recent c)\<rparr>
      | None \<Rightarrow> c\<lparr>wc_recent := i # filter (\<lambda>old. old \<noteq> i) (wc_recent c)\<rparr>)"

definition wc_retain :: "nat list \<Rightarrow> window_cycle \<Rightarrow> window_cycle" where
  "wc_retain available c = c\<lparr>wc_recent := filter (\<lambda>i. i \<in> set available) (wc_recent c)\<rparr>"

definition wc_finish :: "window_cycle \<Rightarrow> window_cycle" where
  "wc_finish c =
     (case wc_selection c of
        None \<Rightarrow> c
      | Some s \<Rightarrow> wc_focus (selected s) (c\<lparr>wc_selection := None\<rparr>))"

definition wc_release :: "bool \<Rightarrow> bool \<Rightarrow> window_cycle \<Rightarrow> window_cycle" where
  "wc_release alt logo c =
     (case wc_selection c of
        Some s \<Rightarrow> if (case s_modifier s of Alt \<Rightarrow> \<not> alt | Super \<Rightarrow> \<not> logo) then wc_finish c else c
      | None \<Rightarrow> c)"

definition wc_cancel :: "window_cycle \<Rightarrow> nat option \<times> window_cycle" where
  "wc_cancel c = (Option.bind (wc_selection c) s_origin, c\<lparr>wc_selection := None\<rparr>)"

fun find_index :: "nat \<Rightarrow> nat list \<Rightarrow> nat option" where
  "find_index x [] = None"
| "find_index x (y # ys) = (if x = y then Some 0 else map_option Suc (find_index x ys))"

definition add_unseen :: "nat list \<Rightarrow> nat list \<Rightarrow> nat list" where
  "add_unseen available ord = fold (\<lambda>i ord. if i \<in> set ord then ord else ord @ [i]) available ord"

text \<open>The start of a selection: the recent windows first, then the others.\<close>

definition start_selection :: "nat list \<Rightarrow> nat option \<Rightarrow> bool \<Rightarrow> cycle_modifier \<Rightarrow> window_cycle \<Rightarrow> window_cycle" where
  "start_selection available focused reverse m c =
     (let c = (case focused of Some i \<Rightarrow> if i \<in> set available then wc_focus i c else c | None \<Rightarrow> c);
          ord = add_unseen available (wc_recent c);
          index = (case Option.bind focused (\<lambda>i. find_index i ord) of
                     Some i \<Rightarrow> i
                   | None \<Rightarrow> if reverse then 0 else length ord - 1)
      in c\<lparr>wc_selection := Some \<lparr>s_order = ord, s_index = index, s_origin = focused, s_modifier = m\<rparr>\<rparr>)"

definition next_index :: "bool \<Rightarrow> nat \<Rightarrow> nat \<Rightarrow> nat" where
  "next_index reverse n i = (if reverse then (i + n - 1) mod n else (i + 1) mod n)"

text \<open>The loop of \<open>step\<close>: at most \<open>k\<close> more positions are tried.\<close>

fun seek :: "nat \<Rightarrow> nat list \<Rightarrow> bool \<Rightarrow> nat list \<Rightarrow> nat \<Rightarrow> nat option" where
  "seek 0 available reverse ord i = None"
| "seek (Suc k) available reverse ord i =
     (let j = next_index reverse (length ord) i in
      if ord ! j \<in> set available then Some j else seek k available reverse ord j)"

definition wc_step :: "nat list \<Rightarrow> nat option \<Rightarrow> bool \<Rightarrow> cycle_modifier \<Rightarrow> window_cycle \<Rightarrow> nat option \<times> window_cycle" where
  "wc_step available focused reverse m c =
     (let c = wc_retain available c in
      if available = [] then (None, c\<lparr>wc_selection := None\<rparr>)
      else
        (let c = (case wc_selection c of
                    Some s \<Rightarrow> if s_modifier s \<noteq> m then wc_finish c else c
                  | None \<Rightarrow> c);
             c = (if wc_selection c = None then start_selection available focused reverse m c else c)
         in case wc_selection c of
              None \<Rightarrow> (None, c)
            | Some s \<Rightarrow>
                (case seek (length (s_order s)) available reverse (s_order s) (s_index s) of
                   Some j \<Rightarrow> (Some (s_order s ! j), c\<lparr>wc_selection := Some (s\<lparr>s_index := j\<rparr>)\<rparr>)
                 | None \<Rightarrow> (None, c\<lparr>wc_selection := None\<rparr>))))"

section \<open>Well-formedness\<close>

definition wc_inv :: "window_cycle \<Rightarrow> bool" where
  "wc_inv c \<longleftrightarrow> distinct (wc_recent c)
     \<and> (case wc_selection c of None \<Rightarrow> True | Some s \<Rightarrow> distinct (s_order s) \<and> s_index s < length (s_order s))"

datatype wc_event =
    Focus nat
  | Retain "nat list"
  | Finish
  | Release bool bool
  | Cancel
  | Step "nat list" "nat option" bool cycle_modifier

fun wc_handle :: "wc_event \<Rightarrow> window_cycle \<Rightarrow> window_cycle" where
  "wc_handle (Focus i) c = wc_focus i c"
| "wc_handle (Retain available) c = wc_retain available c"
| "wc_handle Finish c = wc_finish c"
| "wc_handle (Release alt logo) c = wc_release alt logo c"
| "wc_handle Cancel c = snd (wc_cancel c)"
| "wc_handle (Step available focused reverse m) c = snd (wc_step available focused reverse m c)"

lemma add_unseen_facts:
  assumes "distinct ord"
  shows "distinct (add_unseen available ord) \<and> set (add_unseen available ord) = set ord \<union> set available
    \<and> (\<exists>more. add_unseen available ord = ord @ more)"
  using assms unfolding add_unseen_def
proof (induction available arbitrary: ord)
  case (Cons i available)
  show ?case
  proof (cases "i \<in> set ord")
    case True
    then show ?thesis using Cons.IH [OF Cons.prems] by auto
  next
    case False
    then have "distinct (ord @ [i])" using Cons.prems by simp
    from Cons.IH [OF this] False show ?thesis by auto
  qed
qed simp

lemma find_index_Some: "find_index x xs = Some i \<Longrightarrow> i < length xs \<and> xs ! i = x"
  by (induction xs arbitrary: i) (auto split: if_splits)

lemma next_index_less: "0 < n \<Longrightarrow> next_index reverse n i < n"
  by (simp add: next_index_def)

lemma seek_Some:
  assumes "seek k available reverse ord i = Some j" "ord \<noteq> []"
  shows "j < length ord \<and> ord ! j \<in> set available"
  using assms
proof (induction k arbitrary: i)
  case (Suc k)
  then show ?case using next_index_less [of "length ord" reverse i] by (auto simp: Let_def split: if_splits)
qed simp

lemma wc_focus_inv: "wc_inv c \<Longrightarrow> wc_inv (wc_focus i c)"
  by (auto simp: wc_inv_def wc_focus_def split: option.splits)

lemma wc_retain_inv: "wc_inv c \<Longrightarrow> wc_inv (wc_retain available c)"
  by (auto simp: wc_inv_def wc_retain_def split: option.splits)

lemma wc_finish_inv: "wc_inv c \<Longrightarrow> wc_inv (wc_finish c)"
proof (cases "wc_selection c")
  case (Some s)
  assume "wc_inv c"
  then have "wc_inv (c\<lparr>wc_selection := None\<rparr>)" by (simp add: wc_inv_def)
  then show ?thesis using Some wc_focus_inv by (simp add: wc_finish_def)
qed (simp add: wc_finish_def)

lemma wc_finish_selection: "wc_selection (wc_finish c) = None"
  by (auto simp: wc_finish_def wc_focus_def split: option.split)

lemma wc_focus_selection: "wc_selection c = None \<Longrightarrow> wc_selection (wc_focus i c) = None"
  by (auto simp: wc_focus_def)

lemma start_selection_inv:
  assumes "wc_inv c" "available \<noteq> []"
  shows "wc_inv (start_selection available focused reverse m c)"
proof -
  define c' where "c' = (case focused of Some i \<Rightarrow> if i \<in> set available then wc_focus i c else c | None \<Rightarrow> c)"
  have "wc_inv c'" using assms by (auto simp: c'_def wc_focus_inv split: option.split)
  then have d: "distinct (wc_recent c')" by (simp add: wc_inv_def)
  note au = add_unseen_facts [OF d, of available]
  then have "add_unseen available (wc_recent c') \<noteq> []" using assms(2) by (metis Un_empty set_empty)
  moreover have "i < length ord" if "Option.bind focused (\<lambda>i. find_index i ord) = Some i" for i ord
    using that find_index_Some by (cases focused) auto
  ultimately show ?thesis
    using d au by (auto simp: start_selection_def c'_def [symmetric] Let_def wc_inv_def split: option.split)
qed
section \<open>What stepping does\<close>

text \<open>The position after \<open>t\<close> steps on a circle of \<open>n\<close>.\<close>

definition circle :: "bool \<Rightarrow> nat \<Rightarrow> nat \<Rightarrow> nat \<Rightarrow> nat" where
  "circle reverse n i t = (if reverse then (i + t * (n - 1)) mod n else (i + t) mod n)"

lemma circle_Suc: "0 < n \<Longrightarrow> circle reverse n (next_index reverse n i) t = circle reverse n i (Suc t)"
  by (cases n) (simp_all add: circle_def next_index_def mod_simps add.assoc)

lemma circle_0: "i < n \<Longrightarrow> circle reverse n i 0 = i"
  by (simp add: circle_def)

lemma circle_forward: "i < n \<Longrightarrow> j < n \<Longrightarrow> \<exists>t < n. (i + Suc t) mod n = j"
proof -
  assume "i < n" "j < n"
  then show ?thesis
    by (intro exI [of _ "if i < j then j - i - 1 else j + n - i - 1"]) auto
qed

lemma circle_covers: "i < n \<Longrightarrow> j < n \<Longrightarrow> \<exists>t < n. circle reverse n i (Suc t) = j"
proof (cases reverse)
  case True
  assume "i < n" "j < n"
  define d where "d = (if j < i then i - j else i + n - j)"
  have d: "0 < d" "d \<le> n" "(j + d) mod n = i" using \<open>i < n\<close> \<open>j < n\<close> by (auto simp: d_def)
  have "(i + d * (n - 1)) mod n = ((j + d) + d * (n - 1)) mod n" using d(3) by (metis mod_add_left_eq)
  also have "(j + d) + d * (n - 1) = j + d * n" using \<open>i < n\<close> by (cases n) simp_all
  finally have "circle reverse n i d = j" using True \<open>j < n\<close> by (simp add: circle_def)
  then show ?thesis using d(1,2) by (intro exI [of _ "d - 1"]) auto
next
  case False
  then show "i < n \<Longrightarrow> j < n \<Longrightarrow> ?thesis" using circle_forward by (simp add: circle_def)
qed

text \<open>The loop stops at the first position, in the direction of the step, whose window is there.\<close>

lemma seek_spec:
  assumes "ord \<noteq> []"
  shows "case seek k available reverse ord i of
      None \<Rightarrow> \<forall>t < k. ord ! circle reverse (length ord) i (Suc t) \<notin> set available
    | Some j \<Rightarrow> \<exists>t < k. j = circle reverse (length ord) i (Suc t) \<and> ord ! j \<in> set available
        \<and> (\<forall>u < t. ord ! circle reverse (length ord) i (Suc u) \<notin> set available)"
proof (induction k arbitrary: i)
  case (Suc k)
  let ?j = "next_index reverse (length ord) i"
  have n: "0 < length ord" using assms by simp
  have j: "circle reverse (length ord) i (Suc 0) = ?j"
    using circle_Suc [OF n, of reverse i 0] circle_0 [OF next_index_less [OF n]] by simp
  show ?case
  proof (cases "ord ! ?j \<in> set available")
    case True
    then show ?thesis using j by (auto simp: Let_def)
  next
    case False
    have all_less: "(\<forall>t < Suc m. P t) \<longleftrightarrow> P 0 \<and> (\<forall>t < m. P (Suc t))" for m P
      by (metis less_Suc_eq_0_disj zero_less_Suc Suc_mono)
    show ?thesis
    proof (cases "seek k available reverse ord ?j")
      case None
      then show ?thesis using Suc.IH [of ?j] False j by (simp add: all_less circle_Suc [OF n] Let_def)
    next
      case (Some m)
      then obtain t where t: "t < k" "m = circle reverse (length ord) ?j (Suc t)" "ord ! m \<in> set available"
        "\<forall>u < t. ord ! circle reverse (length ord) ?j (Suc u) \<notin> set available"
        using Suc.IH [of ?j] by auto
      then have "Suc t < Suc k \<and> m = circle reverse (length ord) i (Suc (Suc t))
          \<and> (\<forall>u < Suc t. ord ! circle reverse (length ord) i (Suc u) \<notin> set available)"
        using False j by (simp add: all_less circle_Suc [OF n])
      then show ?thesis using Some False t(3) by (auto simp: Let_def)
    qed
  qed
qed simp

lemma seek_total:
  assumes "i < length ord" "x \<in> set ord" "x \<in> set available"
  shows "seek (length ord) available reverse ord i \<noteq> None"
proof
  assume "seek (length ord) available reverse ord i = None"
  then have "\<forall>t < length ord. ord ! circle reverse (length ord) i (Suc t) \<notin> set available"
    using seek_spec [where ord = ord and k = "length ord" and available = available and reverse = reverse and i = i] assms(1) by fastforce
  moreover obtain j where "j < length ord" "ord ! j = x" using assms(2) by (auto simp: in_set_conv_nth)
  ultimately show False using circle_covers [OF assms(1), of j reverse] assms(3) by metis
qed

text \<open>The state a step works on, once a selection is there.\<close>

definition armed :: "nat list \<Rightarrow> nat option \<Rightarrow> bool \<Rightarrow> cycle_modifier \<Rightarrow> window_cycle \<Rightarrow> window_cycle" where
  "armed available focused reverse m c =
     (let c = wc_retain available c;
          c = (case wc_selection c of Some s \<Rightarrow> if s_modifier s \<noteq> m then wc_finish c else c | None \<Rightarrow> c)
      in if wc_selection c = None then start_selection available focused reverse m c else c)"

lemma armed_selection: "\<exists>s. wc_selection (armed available focused reverse m c) = Some s"
  by (simp add: armed_def Let_def start_selection_def)

lemma armed_inv: "wc_inv c \<Longrightarrow> available \<noteq> [] \<Longrightarrow> wc_inv (armed available focused reverse m c)"
  by (auto simp: armed_def Let_def wc_retain_inv wc_finish_inv start_selection_inv split: option.split)

lemma wc_step_armed:
  assumes "available \<noteq> []" "wc_selection (armed available focused reverse m c) = Some s"
  shows "wc_step available focused reverse m c =
    (case seek (length (s_order s)) available reverse (s_order s) (s_index s) of
       Some j \<Rightarrow> (Some (s_order s ! j), (armed available focused reverse m c)\<lparr>wc_selection := Some (s\<lparr>s_index := j\<rparr>)\<rparr>)
     | None \<Rightarrow> (None, (armed available focused reverse m c)\<lparr>wc_selection := None\<rparr>))"
  using assms(2) unfolding armed_def Let_def by (simp add: wc_step_def Let_def assms(1))

lemma wc_step_inv:
  assumes "wc_inv c"
  shows "wc_inv (snd (wc_step available focused reverse m c))"
proof (cases "available = []")
  case True
  then show ?thesis using wc_retain_inv [OF assms, of "[]"] by (simp add: wc_step_def wc_inv_def)
next
  case False
  obtain s where s: "wc_selection (armed available focused reverse m c) = Some s" using armed_selection by blast
  have inv: "wc_inv (armed available focused reverse m c)" using armed_inv [OF assms False] .
  then have "s_order s \<noteq> []" using s by (auto simp: wc_inv_def)
  then show ?thesis
    using inv s seek_Some by (auto simp: wc_step_armed [OF False s] wc_inv_def split: option.split)
qed

lemma wc_handle_inv: "wc_inv c \<Longrightarrow> wc_inv (wc_handle e c)"
proof (cases e)
  case Cancel
  assume "wc_inv c"
  then show ?thesis using Cancel by (simp add: wc_cancel_def wc_inv_def)
next
  case (Release alt logo)
  assume "wc_inv c"
  then show ?thesis using Release wc_finish_inv by (simp add: wc_release_def split: option.split)
qed (simp_all add: wc_focus_inv wc_retain_inv wc_finish_inv wc_step_inv)

text \<open>
  Whatever is focused, closed, stepped through, released or cancelled, in any order, the recent
  list has no window twice and a selection always points at a window of its own list, so no handler
  indexes outside it.
\<close>

theorem window_cycle_reachable: "wc_inv (fold wc_handle evs wc_default)"
proof (induction evs rule: rev_induct)
  case Nil
  then show ?case by (simp add: wc_inv_def wc_default_def)
next
  case (snoc e evs)
  then show ?case by (simp add: wc_handle_inv)
qed

text \<open>One press of the switcher: the step, and the focus the compositor gives the window it names.\<close>

definition press :: "nat list \<Rightarrow> nat option \<Rightarrow> bool \<Rightarrow> cycle_modifier \<Rightarrow> window_cycle \<Rightarrow> window_cycle" where
  "press available focused reverse m c =
     (case wc_step available focused reverse m c of (Some i, c') \<Rightarrow> wc_focus i c' | (None, c') \<Rightarrow> c')"

lemma press_selection:
  assumes "wc_selection c = Some s" "s_modifier s = m" "available \<noteq> []" "wc_inv c" "set (s_order s) \<subseteq> set available"
  shows "press available focused reverse m c =
    (wc_retain available c)\<lparr>wc_selection := Some (s\<lparr>s_index := next_index reverse (length (s_order s)) (s_index s)\<rparr>)\<rparr>"
proof -
  let ?n = "length (s_order s)" and ?j = "next_index reverse (length (s_order s)) (s_index s)"
  have arm: "armed available focused reverse m c = wc_retain available c"
    using assms(1,2) by (simp add: armed_def wc_retain_def)
  then have sel: "wc_selection (armed available focused reverse m c) = Some s" using assms(1) by (simp add: wc_retain_def)
  have n: "0 < ?n" using assms(1,4) by (auto simp: wc_inv_def)
  have "s_order s ! ?j \<in> set available" using assms(5) nth_mem [OF next_index_less [OF n, of reverse "s_index s"]] by blast
  then have "seek ?n available reverse (s_order s) (s_index s) = Some ?j"
    using n by (cases ?n) (simp_all add: Let_def)
  then show ?thesis
    using wc_step_armed [OF assms(3) sel] arm by (simp add: press_def wc_focus_def selected_def)
qed

text \<open>
  While the modifier is held and no window closes, the \<open>k\<close>-th press shows the \<open>k\<close>-th window
  further round the same list, forwards or backwards: the order never changes under the user, every
  window of the list is shown once per round, and a full round comes back to where it began.
\<close>

theorem held_presses_go_round:
  assumes "wc_inv c" "wc_selection c = Some s" "s_modifier s = m" "available \<noteq> []" "set (s_order s) \<subseteq> set available"
  shows "(press available focused reverse m ^^ k) c =
      (if k = 0 then c else (wc_retain available c)\<lparr>wc_selection := Some (s\<lparr>s_index := circle reverse (length (s_order s)) (s_index s) k\<rparr>)\<rparr>)
    \<and> circle reverse (length (s_order s)) (s_index s) (length (s_order s)) = s_index s
    \<and> (\<lambda>t. s_order s ! circle reverse (length (s_order s)) (s_index s) (Suc t)) ` {..<length (s_order s)} = set (s_order s)"
proof -
  let ?n = "length (s_order s)"
  have i: "s_index s < ?n" using assms(1,2) by (simp add: wc_inv_def)
  then have n: "0 < ?n" by (rule le_less_trans [OF le0])
  have less: "circle reverse ?n (s_index s) t < ?n" for t using n by (simp add: circle_def)
  have step: "next_index reverse ?n (circle reverse ?n (s_index s) t) = circle reverse ?n (s_index s) (Suc t)" for t
    using n by (cases ?n) (simp_all add: circle_def next_index_def mod_simps ac_simps)
  have "(press available focused reverse m ^^ k) c =
      (if k = 0 then c else (wc_retain available c)\<lparr>wc_selection := Some (s\<lparr>s_index := circle reverse ?n (s_index s) k\<rparr>)\<rparr>)"
  proof (induction k)
    case (Suc k)
    let ?c = "(press available focused reverse m ^^ k) c"
    let ?s = "s\<lparr>s_index := circle reverse ?n (s_index s) k\<rparr>"
    have sel: "wc_selection ?c = Some ?s" using Suc.IH assms(2) circle_0 [OF i] by (cases "k = 0") auto
    have inv: "wc_inv ?c"
      using Suc.IH wc_retain_inv [OF assms(1), of available] assms(1,2) less [of k] by (auto simp: wc_inv_def)
    have "wc_retain available ?c = (wc_retain available c)\<lparr>wc_selection := Some ?s\<rparr>"
      using Suc.IH assms(2) circle_0 [OF i] by (cases "k = 0") (auto simp: wc_retain_def)
    then show ?case
      using press_selection [OF sel _ assms(4) inv, of m focused reverse] assms(3,5) step [of k] by simp
  qed simp
  moreover have "circle reverse ?n (s_index s) ?n = s_index s" using i by (simp add: circle_def)
  moreover have "set (s_order s) \<subseteq> (\<lambda>t. s_order s ! circle reverse ?n (s_index s) (Suc t)) ` {..<?n}"
  proof
    fix x assume "x \<in> set (s_order s)"
    then obtain j where "j < ?n" "s_order s ! j = x" by (auto simp: in_set_conv_nth)
    then show "x \<in> (\<lambda>t. s_order s ! circle reverse ?n (s_index s) (Suc t)) ` {..<?n}"
      using circle_covers [OF i, of j reverse] by (metis imageI lessThan_iff)
  qed
  ultimately show ?thesis using less by auto
qed

definition demo_cycle :: window_cycle where
  "demo_cycle = snd (wc_step [1, 2, 3] (Some 3) False Alt (fold wc_handle [Focus 1, Focus 2, Focus 3] wc_default))"

theorem held_presses_go_round_witness:
  "wc_selection ((press [1, 2, 3] None False Alt ^^ 2) demo_cycle)
     = Some \<lparr>s_order = [3, 2, 1], s_index = 0, s_origin = Some 3, s_modifier = Alt\<rparr>"
proof -
  have d: "demo_cycle = \<lparr>wc_recent = [3, 2, 1], wc_selection = Some \<lparr>s_order = [3, 2, 1], s_index = 1, s_origin = Some 3, s_modifier = Alt\<rparr>\<rparr>"
    by code_simp
  have "wc_inv demo_cycle" by (simp add: d wc_inv_def)
  from held_presses_go_round [OF this, where m = Alt and available = "[1, 2, 3]" and focused = None and reverse = False and k = 2] show ?thesis
    by (simp add: d wc_retain_def circle_def)
qed

lemma add_unseen_head: "distinct ord \<Longrightarrow> \<exists>more. add_unseen available ord = ord @ more"
  using add_unseen_facts by blast

text \<open>
  A short press and release switches to the window used before this one and makes it the most
  recent, leaving the rest of the list as it was; so pressing it again goes back.
\<close>

theorem quick_switch_toggles:
  fixes c :: window_cycle and m :: cycle_modifier and available :: "nat list"
  assumes "wc_selection c = None" "wc_recent c = a # b # rest" "distinct (wc_recent c)" "set (wc_recent c) \<subseteq> set available"
  defines "c' \<equiv> wc_release False False (press available (Some a) False m c)"
  shows "fst (wc_step available (Some a) False m c) = Some b
    \<and> wc_recent c' = b # a # rest \<and> wc_selection c' = None
    \<and> fst (wc_step available (Some b) False m c') = Some a"
proof -
  have quick: "fst (wc_step available (Some x) False m d) = Some y \<and> wc_recent (wc_release False False (press available (Some x) False m d)) = y # x # rest
      \<and> wc_selection (wc_release False False (press available (Some x) False m d)) = None"
    if d: "wc_selection d = None" "wc_recent d = x # y # rest" "distinct (x # y # rest)" "set (x # y # rest) \<subseteq> set available" for d x y
  proof -
    let ?f = "wc_focus x (wc_retain available d)"
    have all: "filter (\<lambda>i. i \<in> set available) (wc_recent d) = x # y # rest" using d(2,4) by (auto simp: filter_id_conv)
    have ne: "available \<noteq> []" "x \<in> set available" using d(4) by auto
    have rest: "filter (\<lambda>old. old \<noteq> x) rest = rest" "filter (\<lambda>old. old \<noteq> y) rest = rest" using d(3) by (auto simp: filter_id_conv)
    have f: "wc_recent ?f = x # y # rest" "wc_selection ?f = None"
      using d all rest by (auto simp: wc_focus_def wc_retain_def)
    obtain more where more: "add_unseen available (x # y # rest) = x # y # rest @ more"
      using add_unseen_head [OF d(3), of available] by auto
    let ?s = "\<lparr>s_order = x # y # rest @ more, s_index = 0, s_origin = Some x, s_modifier = m\<rparr>"
    have arm: "armed available (Some x) False m d = ?f\<lparr>wc_selection := Some ?s\<rparr>"
      using d(1) ne f more by (simp add: armed_def start_selection_def wc_retain_def)
    have "seek (length (s_order ?s)) available False (s_order ?s) (s_index ?s) = Some 1"
      using d(4) by (simp add: next_index_def Let_def)
    then have st: "wc_step available (Some x) False m d = (Some y, ?f\<lparr>wc_selection := Some (?s\<lparr>s_index := 1\<rparr>)\<rparr>)"
      using wc_step_armed [OF ne(1), of "Some x" False m d ?s] arm by simp
    then have "press available (Some x) False m d = ?f\<lparr>wc_selection := Some (?s\<lparr>s_index := 1\<rparr>)\<rparr>"
      by (simp add: press_def wc_focus_def selected_def)
    then have "wc_release False False (press available (Some x) False m d) = ?f\<lparr>wc_selection := None, wc_recent := y # x # rest\<rparr>"
      using f rest d(3) by (cases m) (simp_all add: wc_release_def wc_finish_def wc_focus_def selected_def)
    then show ?thesis using st by simp
  qed
  have one: "distinct (a # b # rest)" "set (a # b # rest) \<subseteq> set available" using assms(2-4) by simp_all
  then have two: "distinct (b # a # rest)" "set (b # a # rest) \<subseteq> set available" by auto
  note q1 = quick [OF assms(1,2) one]
  have "wc_selection c' = None" "wc_recent c' = b # a # rest" using q1 by (simp_all add: c'_def)
  then show ?thesis using q1 quick [of c' b a] two by (simp add: c'_def)
qed

theorem quick_switch_toggles_witness:
  "fst (wc_step [7, 5] (Some 5) False Alt (fold wc_handle [Focus 7, Focus 5] wc_default)) = Some 7"
proof -
  have d: "fold wc_handle [Focus 7, Focus 5] wc_default = \<lparr>wc_recent = [5, 7], wc_selection = None\<rparr>" by code_simp
  show ?thesis
    unfolding d
    using quick_switch_toggles [of "\<lparr>wc_recent = [5, 7], wc_selection = None\<rparr>" 5 7 "[]" "[7, 5]" Alt] by simp
qed

end
