(* ===== verification/Idle.thy ===== *)
theory Idle
  imports Window_Cycle
begin

text \<open>
  Idling, src/mindwm/src/idle.rs: the screensaver, the automatic lock and switching the displays
  off, with the requests of src/mindwm/src/ipc.rs and the settings change of src/mindwm/src/state.rs
  that drive them. Times are nanoseconds on the monotonic clock; a timeout is a \<open>u32\<close> of seconds and
  0 means never. Surfaces and IPC clients are numbers. Of the rest of the compositor the state holds
  what these handlers change: the displays, the cursor, the keyboard and pointer focus, the window
  switcher and the events broadcast to the shell. The overlays closed on locking and the idle
  notification protocol, which take no part in the decisions, are left out.
\<close>

section \<open>State\<close>

datatype stage = Active | Screensaver | Blank

record idle_settings =
  is_screensaver :: u32
  is_saver :: string
  is_lock :: u32
  is_blank :: u32
  is_lock_on_blank :: bool
  is_lock_on_sleep :: bool
  is_stay_awake_when_busy :: bool

definition idle_defaults :: idle_settings where
  "idle_defaults = \<lparr>is_screensaver = 300, is_saver = ''shuffle'', is_lock = 900, is_blank = 900,
     is_lock_on_blank = True, is_lock_on_sleep = True, is_stay_awake_when_busy = True\<rparr>"

record idle_event =
  ev_stage :: stage
  ev_locked :: bool
  ev_inhibited :: bool
  ev_saver :: string

record idle_state =
  i_stage :: stage
  i_locked :: bool
  i_since :: "nat option"
  i_inhibitors :: "nat set"
  i_holds :: "nat set"
  i_timer :: "nat option"  \<comment> \<open>when the armed timer fires\<close>
  i_last_event :: "idle_event option"
  i_prefs :: idle_settings
  i_blanked :: bool
  i_cursor_hidden :: bool
  i_keyboard :: "nat option"
  i_pointer :: "nat option"
  i_cycle :: window_cycle
  i_sent :: "idle_event list"  \<comment> \<open>latest first\<close>

definition SEC :: nat where "SEC = 1000000000"

section \<open>Handlers\<close>

definition idle_inhibited :: "idle_state \<Rightarrow> bool" where
  "idle_inhibited s \<longleftrightarrow> is_stay_awake_when_busy (i_prefs s) \<and> (i_inhibitors s \<noteq> {} \<or> i_holds s \<noteq> {})"

definition idle_for :: "nat \<Rightarrow> idle_state \<Rightarrow> nat" where
  "idle_for now s = (case i_since s of Some t \<Rightarrow> now - t | None \<Rightarrow> 0)"

definition idle_json :: "idle_state \<Rightarrow> idle_event" where
  "idle_json s = \<lparr>ev_stage = i_stage s, ev_locked = i_locked s, ev_inhibited = idle_inhibited s, ev_saver = is_saver (i_prefs s)\<rparr>"

definition idle_changed :: "idle_state \<Rightarrow> idle_state" where
  "idle_changed s =
     (if i_last_event s = Some (idle_json s) then s
      else s\<lparr>i_last_event := Some (idle_json s), i_sent := idle_json s # i_sent s\<rparr>)"

text \<open>The stages still to come, with their timeouts.\<close>

definition stages_ahead :: "idle_state \<Rightarrow> u32 list" where
  "stages_ahead s =
     (if is_screensaver (i_prefs s) = 0 \<or> i_stage s \<noteq> Active then [] else [is_screensaver (i_prefs s)]) @
     (if is_lock (i_prefs s) = 0 \<or> i_locked s then [] else [is_lock (i_prefs s)]) @
     (if is_blank (i_prefs s) = 0 \<or> i_stage s = Blank then [] else [is_blank (i_prefs s)])"

definition next_deadline :: "nat \<Rightarrow> idle_state \<Rightarrow> nat option" where
  "next_deadline now s =
     fold (\<lambda>x next. let left = unat x * SEC - idle_for now s in
             Some (case next of None \<Rightarrow> left | Some n \<Rightarrow> min n left)) (stages_ahead s) None"

definition arm_idle_timer :: "nat \<Rightarrow> idle_state \<Rightarrow> idle_state" where
  "arm_idle_timer now s =
     (let s = s\<lparr>i_timer := None\<rparr> in
      if idle_inhibited s then s
      else case next_deadline now s of
        None \<Rightarrow> s
      | Some left \<Rightarrow> s\<lparr>i_timer := Some (now + max left 200000000)\<rparr>)"

definition set_stage :: "stage \<Rightarrow> idle_state \<Rightarrow> idle_state" where
  "set_stage st s =
     (if i_stage s = st then s
      else
        (let was_blank = (i_stage s = Blank);
             s = s\<lparr>i_stage := st, i_cursor_hidden := (st \<noteq> Active)\<rparr>;
             s = (if st = Blank then s\<lparr>i_blanked := True\<rparr> else if was_blank then s\<lparr>i_blanked := False\<rparr> else s)
         in idle_changed s))"

definition note_activity :: "nat \<Rightarrow> idle_state \<Rightarrow> bool \<times> idle_state" where
  "note_activity now s =
     (let woke = (i_stage s \<noteq> Active);
          s = s\<lparr>i_since := Some now\<rparr>;
          s = (if woke then set_stage Active s else s)
      in (woke, arm_idle_timer now s))"

definition set_locked :: "nat \<Rightarrow> bool \<Rightarrow> idle_state \<Rightarrow> idle_state" where
  "set_locked now locked s =
     (if i_locked s = locked then s
      else
        (let s = s\<lparr>i_locked := locked\<rparr>;
             s = (if locked then s\<lparr>i_cycle := wc_finish (i_cycle s), i_keyboard := None, i_pointer := None\<rparr> else s)
         in arm_idle_timer now (idle_changed (s\<lparr>i_since := Some now\<rparr>))))"

definition wake_idle :: "nat \<Rightarrow> idle_state \<Rightarrow> idle_state" where
  "wake_idle now s = arm_idle_timer now (set_stage Active (s\<lparr>i_since := Some now\<rparr>))"

definition blank_now :: "nat \<Rightarrow> idle_state \<Rightarrow> idle_state" where
  "blank_now now s =
     arm_idle_timer now (set_stage Blank (if is_lock_on_blank (i_prefs s) then set_locked now True s else s))"

definition idle_inhibit_changed :: "nat \<Rightarrow> idle_state \<Rightarrow> idle_state" where
  "idle_inhibit_changed now s =
     (let s = (if idle_inhibited s then s else s\<lparr>i_since := Some now\<rparr>) in idle_changed (arm_idle_timer now s))"

definition set_idle_hold :: "nat \<Rightarrow> nat \<Rightarrow> bool \<Rightarrow> idle_state \<Rightarrow> idle_state" where
  "set_idle_hold now client on s =
     (if on then (if client \<in> i_holds s then s else idle_inhibit_changed now (s\<lparr>i_holds := insert client (i_holds s)\<rparr>))
      else if client \<in> i_holds s then idle_inhibit_changed now (s\<lparr>i_holds := i_holds s - {client}\<rparr>) else s)"

definition inhibit :: "nat \<Rightarrow> nat \<Rightarrow> idle_state \<Rightarrow> idle_state" where
  "inhibit now surface s = idle_inhibit_changed now (s\<lparr>i_inhibitors := insert surface (i_inhibitors s)\<rparr>)"

definition uninhibit :: "nat \<Rightarrow> nat \<Rightarrow> idle_state \<Rightarrow> idle_state" where
  "uninhibit now surface s = idle_inhibit_changed now (s\<lparr>i_inhibitors := i_inhibitors s - {surface}\<rparr>)"

text \<open>\<open>idle + 1 >= seconds\<close> on \<open>u32\<close>.\<close>

definition due :: "u32 \<Rightarrow> u32 \<Rightarrow> bool" where
  "due idle seconds \<longleftrightarrow> 0 < seconds \<and> seconds \<le> idle + 1"

definition idle_tick :: "nat \<Rightarrow> idle_state \<Rightarrow> idle_state" where
  "idle_tick now s =
     (if idle_inhibited s then arm_idle_timer now (s\<lparr>i_since := Some now\<rparr>)
      else
        (let p = i_prefs s;
             idle = (of_nat (idle_for now s div SEC) :: u32);
             s = (if due idle (is_lock p) then set_locked now True s else s);
             s = (if due idle (is_blank p) then
                    set_stage Blank (if is_lock_on_blank p then set_locked now True s else s)
                  else if due idle (is_screensaver p) \<and> i_stage s = Active then set_stage Screensaver s
                  else s)
         in arm_idle_timer now s))"

text \<open>The timer's callback, and the idle part of \<open>set_prefs\<close>.\<close>

definition timer_fires :: "nat \<Rightarrow> idle_state \<Rightarrow> idle_state" where
  "timer_fires now s = idle_tick now (s\<lparr>i_timer := None\<rparr>)"

definition set_idle_prefs :: "nat \<Rightarrow> idle_settings \<Rightarrow> idle_state \<Rightarrow> idle_state" where
  "set_idle_prefs now p s = idle_changed (arm_idle_timer now (s\<lparr>i_prefs := p, i_since := Some now\<rparr>))"

definition idle_start :: "nat \<Rightarrow> idle_settings \<Rightarrow> idle_state" where
  "idle_start now p = arm_idle_timer now
     \<lparr>i_stage = Active, i_locked = False, i_since = Some now, i_inhibitors = {}, i_holds = {}, i_timer = None,
      i_last_event = None, i_prefs = p, i_blanked = False, i_cursor_hidden = False, i_keyboard = None, i_pointer = None,
      i_cycle = wc_default, i_sent = []\<rparr>"

text \<open>
  The cursor has other writers, in src/mindwm/src/state.rs and src/mindwm/src/input_handler.rs: a client sets the
  image of the pointer (not over a window's resize ring) or of a tablet tool, and the ring sets its own. A stage change
  hides or shows the cursor, and the next of these may show or hide it again. Only whether it is hidden is kept.
\<close>

definition cursor_image :: "bool \<Rightarrow> bool \<Rightarrow> idle_state \<Rightarrow> idle_state" where
  "cursor_image over_ring hidden s = (if over_ring then s else s\<lparr>i_cursor_hidden := hidden\<rparr>)"

definition tablet_tool_image :: "bool \<Rightarrow> idle_state \<Rightarrow> idle_state" where
  "tablet_tool_image hidden s = s\<lparr>i_cursor_hidden := hidden\<rparr>"

definition resize_ring :: "bool \<Rightarrow> idle_state \<Rightarrow> idle_state" where
  "resize_ring same s = (if same then s else s\<lparr>i_cursor_hidden := False\<rparr>)"

text \<open>
  One event at a time. The timer fires when its moment has come; \<open>Unlock\<close> is the shell's request
  once the password was right.
\<close>

inductive idle_step :: "nat \<Rightarrow> idle_state \<Rightarrow> idle_state \<Rightarrow> bool" where
  activity: "idle_step now s (snd (note_activity now s))"
| fires: "i_timer s = Some d \<Longrightarrow> d \<le> now \<Longrightarrow> idle_step now s (timer_fires now s)"
| lock: "idle_step now s (set_locked now True s)"
| wake: "idle_step now s (wake_idle now s)"
| blank: "idle_step now s (blank_now now s)"
| hold: "idle_step now s (set_idle_hold now client on s)"
| inhibited: "idle_step now s (inhibit now surface s)"
| uninhibited: "idle_step now s (uninhibit now surface s)"
| prefs: "idle_step now s (set_idle_prefs now p s)"
| unlock: "idle_step now s (wake_idle now (set_locked now False s))"
| pointer_image: "idle_step now s (cursor_image over_ring hidden s)"
| tool_image: "idle_step now s (tablet_tool_image hidden s)"
| ring: "idle_step now s (resize_ring same s)"

inductive idle_reachable :: "nat \<Rightarrow> idle_state \<Rightarrow> bool" where
  start: "idle_reachable now (idle_start now p)"
| step: "idle_reachable now s \<Longrightarrow> now \<le> now' \<Longrightarrow> idle_step now' s s' \<Longrightarrow> idle_reachable now' s'"

inductive_cases idle_stepE: "idle_step now s s'"

section \<open>What the helpers keep\<close>

lemma idle_changed_sel [simp]:
  "i_stage (idle_changed s) = i_stage s" "i_locked (idle_changed s) = i_locked s" "i_since (idle_changed s) = i_since s"
  "i_inhibitors (idle_changed s) = i_inhibitors s" "i_holds (idle_changed s) = i_holds s" "i_timer (idle_changed s) = i_timer s"
  "i_prefs (idle_changed s) = i_prefs s" "i_blanked (idle_changed s) = i_blanked s"
  "i_cursor_hidden (idle_changed s) = i_cursor_hidden s" "i_last_event (idle_changed s) = Some (idle_json s)"
  by (simp_all add: idle_changed_def)

lemma arm_sel [simp]:
  "i_stage (arm_idle_timer now s) = i_stage s" "i_locked (arm_idle_timer now s) = i_locked s" "i_since (arm_idle_timer now s) = i_since s"
  "i_inhibitors (arm_idle_timer now s) = i_inhibitors s" "i_holds (arm_idle_timer now s) = i_holds s"
  "i_prefs (arm_idle_timer now s) = i_prefs s" "i_blanked (arm_idle_timer now s) = i_blanked s"
  "i_cursor_hidden (arm_idle_timer now s) = i_cursor_hidden s" "i_last_event (arm_idle_timer now s) = i_last_event s"
  "i_sent (arm_idle_timer now s) = i_sent s"
  by (simp_all add: arm_idle_timer_def Let_def split: option.split)

lemma set_stage_sel [simp]:
  "i_stage (set_stage st s) = st" "i_locked (set_stage st s) = i_locked s" "i_since (set_stage st s) = i_since s"
  "i_inhibitors (set_stage st s) = i_inhibitors s" "i_holds (set_stage st s) = i_holds s" "i_timer (set_stage st s) = i_timer s"
  "i_prefs (set_stage st s) = i_prefs s"
  by (simp_all add: set_stage_def Let_def)

lemma set_locked_sel [simp]:
  "i_stage (set_locked now b s) = i_stage s" "i_locked (set_locked now b s) = b"
  "i_inhibitors (set_locked now b s) = i_inhibitors s" "i_holds (set_locked now b s) = i_holds s"
  "i_prefs (set_locked now b s) = i_prefs s"
  by (simp_all add: set_locked_def Let_def)

lemma idle_json_cong:
  "i_stage s = i_stage s' \<Longrightarrow> i_locked s = i_locked s' \<Longrightarrow> i_inhibitors s = i_inhibitors s' \<Longrightarrow> i_holds s = i_holds s'
   \<Longrightarrow> i_prefs s = i_prefs s' \<Longrightarrow> idle_json s = idle_json s'"
  by (simp add: idle_json_def idle_inhibited_def)

lemma idle_inhibited_upd [simp]:
  "idle_inhibited (idle_changed s) = idle_inhibited s" "idle_inhibited (arm_idle_timer now s) = idle_inhibited s"
  "idle_inhibited (s\<lparr>i_since := t\<rparr>) = idle_inhibited s" "idle_inhibited (s\<lparr>i_timer := d\<rparr>) = idle_inhibited s"
  "idle_inhibited (set_stage st s) = idle_inhibited s" "idle_inhibited (set_locked now b s) = idle_inhibited s"
  "idle_inhibited (s\<lparr>i_locked := b\<rparr>) = idle_inhibited s"
  by (simp_all add: idle_inhibited_def)

lemma stages_ahead_upd [simp]:
  "stages_ahead (idle_changed s) = stages_ahead s" "stages_ahead (arm_idle_timer now s) = stages_ahead s"
  "stages_ahead (s\<lparr>i_since := t\<rparr>) = stages_ahead s" "stages_ahead (s\<lparr>i_timer := d\<rparr>) = stages_ahead s"
  by (simp_all add: stages_ahead_def)

section \<open>The invariant\<close>

definition screen_ok :: "idle_state \<Rightarrow> bool" where
  "screen_ok s \<longleftrightarrow> (i_blanked s \<longleftrightarrow> i_stage s = Blank)"

text \<open>The shell's picture of the session: what it was last told is how things stand.\<close>

definition informed :: "idle_state \<Rightarrow> bool" where
  "informed s \<longleftrightarrow>
     (case i_sent s of
        [] \<Rightarrow> i_last_event s = None \<and> i_stage s = Active \<and> \<not> i_locked s \<and> i_holds s = {} \<and> i_inhibitors s = {}
      | e # _ \<Rightarrow> i_last_event s = Some e \<and> e = idle_json s) \<and> distinct_adj (i_sent s)"

text \<open>The timer: armed exactly when something is still to come, and never before one of those moments.\<close>

definition timer_ok :: "nat \<Rightarrow> idle_state \<Rightarrow> bool" where
  "timer_ok now s \<longleftrightarrow>
     (\<exists>t. i_since s = Some t \<and> t \<le> now \<and>
        (case i_timer s of
           None \<Rightarrow> idle_inhibited s \<or> stages_ahead s = []
         | Some d \<Rightarrow> \<not> idle_inhibited s \<and> list_ex (\<lambda>x. t + unat x * SEC \<le> d) (stages_ahead s)))"

lemma next_deadline_fold:
  "fold (\<lambda>x next. let left = unat x * SEC - i in Some (case next of None \<Rightarrow> left | Some n \<Rightarrow> min n left)) xs (Some n)
     = Some (fold (\<lambda>x n. min n (unat x * SEC - i)) xs n)"
  for xs :: "u32 list"
  by (induction xs arbitrary: n) (simp_all add: Let_def)

lemma fold_min_mem: "fold (\<lambda>x n. min n (f x)) xs n = n \<or> (\<exists>x \<in> set xs. fold (\<lambda>x n. min n (f x)) xs n = (f x :: nat))"
proof (induction xs arbitrary: n)
  case (Cons x xs)
  then show ?case using Cons.IH [of "min n (f x)"] by (auto simp: min_def)
qed simp

lemma next_deadline_cases:
  "next_deadline now s = None \<longleftrightarrow> stages_ahead s = []"
  "next_deadline now s = Some left \<Longrightarrow> \<exists>x \<in> set (stages_ahead s). left = unat x * SEC - idle_for now s"
proof -
  have c: "next_deadline now s = (case stages_ahead s of [] \<Rightarrow> None
      | x # xs \<Rightarrow> Some (fold (\<lambda>x n. min n (unat x * SEC - idle_for now s)) xs (unat x * SEC - idle_for now s)))"
    unfolding next_deadline_def by (cases "stages_ahead s") (simp_all add: Let_def next_deadline_fold [unfolded Let_def])
  show "next_deadline now s = None \<longleftrightarrow> stages_ahead s = []" by (simp add: c split: list.split)
  show "\<exists>x \<in> set (stages_ahead s). left = unat x * SEC - idle_for now s" if "next_deadline now s = Some left"
    using that fold_min_mem [of "\<lambda>x. unat x * SEC - idle_for now s"] by (auto simp: c split: list.splits)
qed

lemma arm_timer_ok:
  assumes "i_since s = Some t" "t \<le> now"
  shows "timer_ok now (arm_idle_timer now s)"
proof (cases "idle_inhibited s")
  case True
  then show ?thesis using assms by (auto simp: timer_ok_def arm_idle_timer_def Let_def)
next
  case False
  have nd: "next_deadline now (s\<lparr>i_timer := None\<rparr>) = next_deadline now s" by (simp add: next_deadline_def idle_for_def)
  show ?thesis
  proof (cases "next_deadline now s")
    case None
    then have "stages_ahead s = []" using next_deadline_cases(1) by blast
    then show ?thesis using None False assms nd by (auto simp: timer_ok_def arm_idle_timer_def Let_def)
  next
    case (Some left)
    obtain x where x: "x \<in> set (stages_ahead s)" "left = unat x * SEC - (now - t)"
      using next_deadline_cases(2) [OF Some] assms(1) by (auto simp: idle_for_def)
    then have "t + unat x * SEC \<le> now + max left 200000000" using assms(2) by auto
    then have "list_ex (\<lambda>x. t + unat x * SEC \<le> now + max left 200000000) (stages_ahead s)"
      using x(1) by (auto simp: list_ex_iff)
    moreover have "arm_idle_timer now s = s\<lparr>i_timer := Some (now + max left 200000000)\<rparr>"
      using Some False nd by (simp add: arm_idle_timer_def Let_def)
    ultimately show ?thesis using False assms by (simp add: timer_ok_def)
  qed
qed

definition idle_inv :: "nat \<Rightarrow> idle_state \<Rightarrow> bool" where
  "idle_inv now s \<longleftrightarrow> screen_ok s \<and> informed s \<and> timer_ok now s"

definition log_ok :: "idle_state \<Rightarrow> bool" where
  "log_ok s \<longleftrightarrow> (case i_sent s of [] \<Rightarrow> i_last_event s = None | e # _ \<Rightarrow> i_last_event s = Some e) \<and> distinct_adj (i_sent s)"

lemma informed_log: "informed s \<Longrightarrow> log_ok s"
  by (auto simp: informed_def log_ok_def split: list.splits)

lemma log_ok_upd [simp]:
  "log_ok (s\<lparr>i_since := t\<rparr>) = log_ok s" "log_ok (s\<lparr>i_timer := d\<rparr>) = log_ok s" "log_ok (s\<lparr>i_locked := b\<rparr>) = log_ok s"
  "log_ok (s\<lparr>i_stage := st\<rparr>) = log_ok s" "log_ok (s\<lparr>i_cursor_hidden := h\<rparr>) = log_ok s" "log_ok (s\<lparr>i_blanked := h\<rparr>) = log_ok s"
  "log_ok (s\<lparr>i_holds := hs\<rparr>) = log_ok s" "log_ok (s\<lparr>i_inhibitors := hs\<rparr>) = log_ok s" "log_ok (s\<lparr>i_prefs := p\<rparr>) = log_ok s"
  "log_ok (s\<lparr>i_cycle := c\<rparr>) = log_ok s" "log_ok (s\<lparr>i_keyboard := k\<rparr>) = log_ok s" "log_ok (s\<lparr>i_pointer := k\<rparr>) = log_ok s"
  "log_ok (arm_idle_timer now s) = log_ok s"
  by (simp_all add: log_ok_def split: list.split)

lemma idle_changed_informed: "log_ok s \<Longrightarrow> informed (idle_changed s)"
proof -
  assume log: "log_ok s"
  have json: "idle_json (idle_changed s) = idle_json s" by (rule idle_json_cong) simp_all
  show ?thesis
  proof (cases "i_last_event s = Some (idle_json s)")
    case True
    then show ?thesis using log by (auto simp: idle_changed_def informed_def log_ok_def split: list.splits)
  next
    case False
    then have "i_sent (idle_changed s) = idle_json s # i_sent s" by (simp add: idle_changed_def)
    moreover have "distinct_adj (idle_json s # i_sent s)"
      using log False by (cases "i_sent s") (auto simp: log_ok_def)
    ultimately show ?thesis using json by (simp add: informed_def)
  qed
qed

lemma informed_upd [simp]:
  "informed (s\<lparr>i_since := t\<rparr>) = informed s" "informed (s\<lparr>i_timer := d\<rparr>) = informed s"
  "informed (arm_idle_timer now s) = informed s"
proof -
  have "idle_json (arm_idle_timer now s) = idle_json s" by (rule idle_json_cong) simp_all
  then show "informed (arm_idle_timer now s) = informed s" by (simp add: informed_def split: list.split)
qed (simp_all add: informed_def idle_json_def split: list.split)

lemma set_stage_ok:
  assumes "screen_ok s" "informed s"
  shows "screen_ok (set_stage st s)" "informed (set_stage st s)"
proof -
  show "screen_ok (set_stage st s)" using assms(1) by (auto simp: set_stage_def screen_ok_def Let_def)
  show "informed (set_stage st s)"
    using assms(2) informed_log [OF assms(2)] by (auto simp: set_stage_def Let_def intro!: idle_changed_informed)
qed

lemma screen_ok_cong:
  "i_stage s' = i_stage s \<Longrightarrow> i_blanked s' = i_blanked s \<Longrightarrow> i_cursor_hidden s' = i_cursor_hidden s \<Longrightarrow> screen_ok s \<Longrightarrow> screen_ok s'"
  by (simp add: screen_ok_def)

lemma set_locked_ok:
  assumes "screen_ok s" "informed s"
  shows "screen_ok (set_locked now b s)" "informed (set_locked now b s)"
proof -
  show "screen_ok (set_locked now b s)" using assms(1) by (auto simp: set_locked_def screen_ok_def Let_def)
  show "informed (set_locked now b s)"
    using assms(2) informed_log [OF assms(2)] by (auto simp: set_locked_def Let_def intro!: idle_changed_informed)
qed

lemma set_locked_since: "i_since s = Some t \<Longrightarrow> t \<le> now \<Longrightarrow> \<exists>t'. i_since (set_locked now b s) = Some t' \<and> t' \<le> now"
  by (simp add: set_locked_def Let_def)

lemma timer_ok_since: "timer_ok now s \<Longrightarrow> \<exists>t. i_since s = Some t \<and> t \<le> now"
  by (auto simp: timer_ok_def)

lemma timer_ok_later: "timer_ok now s \<Longrightarrow> now \<le> now' \<Longrightarrow> timer_ok now' s"
  by (auto simp: timer_ok_def)

lemma timer_ok_changed [simp]: "timer_ok now (idle_changed s) = timer_ok now s"
  by (simp add: timer_ok_def split: option.split)

lemma set_locked_timer: "timer_ok now s \<Longrightarrow> timer_ok now (set_locked now b s)"
  by (auto simp: set_locked_def Let_def intro!: arm_timer_ok)

lemma inhibit_changed_inv:
  assumes "idle_inv now s"
  shows "idle_inv now (idle_inhibit_changed now (s\<lparr>i_holds := h\<rparr>))" "idle_inv now (idle_inhibit_changed now (s\<lparr>i_inhibitors := h\<rparr>))"
proof -
  obtain t where t: "i_since s = Some t" "t \<le> now" using assms timer_ok_since by (auto simp: idle_inv_def)
  have *: "idle_inv now (idle_inhibit_changed now s')"
    if h: "screen_ok s'" "log_ok s'" "i_since s' = Some t" for s'
  proof -
    define u where "u = (if idle_inhibited s' then s' else s'\<lparr>i_since := Some now\<rparr>)"
    have "i_since u = Some (if idle_inhibited s' then t else now)" using h(3) by (simp add: u_def)
    then have "timer_ok now (arm_idle_timer now u)" by (rule arm_timer_ok) (simp add: t(2))
    moreover have "screen_ok u" "log_ok u" using h by (auto simp: u_def screen_ok_def)
    ultimately show ?thesis
      by (simp add: idle_inhibit_changed_def u_def [symmetric] Let_def idle_inv_def idle_changed_informed screen_ok_def)
  qed
  have "log_ok s" "screen_ok s" using assms informed_log by (auto simp: idle_inv_def)
  then show "idle_inv now (idle_inhibit_changed now (s\<lparr>i_holds := h\<rparr>))" "idle_inv now (idle_inhibit_changed now (s\<lparr>i_inhibitors := h\<rparr>))"
    using t(1) by (auto intro!: * simp: screen_ok_def)
qed

lemma idle_tick_inv:
  assumes "screen_ok s" "informed s" "i_since s = Some t" "t \<le> now"
  shows "idle_inv now (idle_tick now s)"
proof (cases "idle_inhibited s")
  case True
  then show ?thesis
    using assms arm_timer_ok [of "s\<lparr>i_since := Some now\<rparr>" now now] by (simp add: idle_tick_def idle_inv_def screen_ok_def)
next
  case False
  define p where "p = i_prefs s"
  define idle where "idle = (of_nat (idle_for now s div SEC) :: u32)"
  define a where "a = (if due idle (is_lock p) then set_locked now True s else s)"
  define b where "b = (if due idle (is_blank p) then set_stage Blank (if is_lock_on_blank p then set_locked now True a else a)
      else if due idle (is_screensaver p) \<and> i_stage a = Active then set_stage Screensaver a else a)"
  have "screen_ok a" "informed a" using assms set_locked_ok by (auto simp: a_def)
  then have "screen_ok b" "informed b" using set_locked_ok set_stage_ok by (auto simp: b_def)
  moreover have "\<exists>t. i_since a = Some t \<and> t \<le> now" using assms(3,4) set_locked_since by (auto simp: a_def)
  then have "\<exists>t. i_since b = Some t \<and> t \<le> now" using set_locked_since by (auto simp: b_def)
  then have "timer_ok now (arm_idle_timer now b)" using arm_timer_ok by blast
  moreover have "idle_tick now s = arm_idle_timer now b"
    using False by (simp add: idle_tick_def Let_def a_def b_def p_def idle_def)
  ultimately show ?thesis by (simp add: idle_inv_def screen_ok_def)
qed

lemma idle_step_inv:
  assumes "idle_inv now s" "now \<le> now'" "idle_step now' s s'"
  shows "idle_inv now' s'"
proof -
  have ok: "screen_ok s" "informed s" "timer_ok now' s"
    using assms(1) timer_ok_later [OF _ assms(2)] by (auto simp: idle_inv_def)
  obtain t where t: "i_since s = Some t" "t \<le> now'" using timer_ok_since [OF ok(3)] by blast
  have inv: "idle_inv now' s" using ok by (simp add: idle_inv_def)
  have arm: "idle_inv now' (arm_idle_timer now' u)" if "screen_ok u" "informed u" "i_since u = Some v" "v \<le> now'" for u v
    using that arm_timer_ok [OF that(3,4)] by (simp add: idle_inv_def screen_ok_def)
  have lk: "screen_ok (set_locked now' b s)" "informed (set_locked now' b s)" "\<exists>v. i_since (set_locked now' b s) = Some v \<and> v \<le> now'" for b
    using set_locked_ok ok set_locked_since [OF t] by auto
  have wk: "idle_inv now' (wake_idle now' u)" if "screen_ok u" "informed u" for u
    unfolding wake_idle_def
    by (rule arm [where v = now']) (use that set_stage_ok [of "u\<lparr>i_since := Some now'\<rparr>" Active] in \<open>simp_all add: screen_ok_def\<close>)
  have cursor: "idle_inv now' (s\<lparr>i_cursor_hidden := h\<rparr>)" for h
  proof -
    let ?u = "s\<lparr>i_cursor_hidden := h\<rparr>"
    have "idle_inhibited ?u = idle_inhibited s" "stages_ahead ?u = stages_ahead s" "idle_json ?u = idle_json s"
      by (simp_all add: idle_inhibited_def stages_ahead_def idle_json_def)
    then have "timer_ok now' ?u = timer_ok now' s" "informed ?u = informed s" "screen_ok ?u = screen_ok s"
      by (simp_all add: timer_ok_def informed_def screen_ok_def cong: list.case_cong option.case_cong)
    then show ?thesis using inv by (simp add: idle_inv_def)
  qed
  from assms(3) show ?thesis
  proof cases
    case activity
    have u: "screen_ok (s\<lparr>i_since := Some now'\<rparr>)" "informed (s\<lparr>i_since := Some now'\<rparr>)" using ok by (simp_all add: screen_ok_def)
    show ?thesis unfolding activity note_activity_def Let_def snd_conv
      by (rule arm [where v = now']) (use u set_stage_ok [OF u, of Active] in simp_all)
  next
    case (fires d)
    then show ?thesis using ok t by (auto simp: timer_fires_def screen_ok_def intro!: idle_tick_inv)
  next
    case lock
    then show ?thesis using lk set_locked_timer [OF ok(3)] by (simp add: idle_inv_def)
  next
    case wake
    then show ?thesis using wk ok by simp
  next
    case blank
    let ?u = "if is_lock_on_blank (i_prefs s) then set_locked now' True s else s"
    have u: "screen_ok ?u" "informed ?u" "\<exists>v. i_since ?u = Some v \<and> v \<le> now'" using lk ok t by auto
    then show ?thesis unfolding blank blank_now_def using arm [OF set_stage_ok [OF u(1,2)]] by auto
  next
    case (hold client on)
    then show ?thesis using inhibit_changed_inv [OF inv] inv by (auto simp: set_idle_hold_def)
  next
    case (inhibited surface)
    then show ?thesis using inhibit_changed_inv [OF inv] by (simp add: inhibit_def)
  next
    case (uninhibited surface)
    then show ?thesis using inhibit_changed_inv [OF inv] by (simp add: uninhibit_def)
  next
    case (prefs p)
    have "timer_ok now' (arm_idle_timer now' (s\<lparr>i_prefs := p, i_since := Some now'\<rparr>))" by (rule arm_timer_ok [where t = now']) simp_all
    then show ?thesis using ok prefs informed_log [OF ok(2)]
      by (simp add: set_idle_prefs_def idle_inv_def screen_ok_def idle_changed_informed)
  next
    case unlock
    then show ?thesis using wk lk by simp
  next
    case (pointer_image over_ring hidden)
    then show ?thesis using cursor by (simp add: cursor_image_def inv)
  next
    case (tool_image hidden)
    then show ?thesis using cursor by (simp add: tablet_tool_image_def)
  next
    case (ring same)
    then show ?thesis using cursor by (simp add: resize_ring_def inv)
  qed
qed

lemma idle_start_inv: "idle_inv now (idle_start now p)"
proof -
  have "timer_ok now (idle_start now p)" unfolding idle_start_def by (rule arm_timer_ok [where t = now]) simp_all
  then show ?thesis by (simp add: idle_inv_def screen_ok_def informed_def idle_start_def)
qed

text \<open>
  C37. Whatever input, requests, timer expiries and settings changes arrive, and whenever: the
  displays are off exactly in the blank stage; the last event the shell was sent describes the
  session as it is, and no event is repeated; and a timer is armed exactly when the session is not held awake and some stage is still to come,
  never to fire before one of those stages is due.
\<close>

theorem idle_reachable_ok: "idle_reachable now s \<Longrightarrow> screen_ok s \<and> informed s \<and> timer_ok now s"
proof (induction rule: idle_reachable.induct)
  case (start now p)
  then show ?case using idle_start_inv by (simp add: idle_inv_def)
next
  case (step now s now' s')
  then show ?case using idle_step_inv [of now s now' s'] by (simp add: idle_inv_def)
qed

definition demo_idle :: idle_state where
  "demo_idle = timer_fires (300 * SEC) (idle_start 0 idle_defaults)"

theorem idle_reachable_ok_witness:
  "idle_reachable (300 * SEC) demo_idle \<and> screen_ok demo_idle \<and> informed demo_idle \<and> timer_ok (300 * SEC) demo_idle"
proof -
  have "i_timer (idle_start 0 idle_defaults) = Some (300 * SEC)"
    by (simp add: idle_start_def arm_idle_timer_def idle_inhibited_def next_deadline_def stages_ahead_def idle_defaults_def
        idle_for_def SEC_def)
  then have "idle_step (300 * SEC) (idle_start 0 idle_defaults) demo_idle"
    unfolding demo_idle_def by (rule fires) simp
  then have "idle_reachable (300 * SEC) demo_idle"
    using idle_reachable.start [of 0 idle_defaults] idle_reachable.step by blast
  then show ?thesis using idle_reachable_ok by simp
qed

text \<open>
  C9. Once the session is locked only the unlock request unlocks it: input, waking, blanking, the
  timer, holds, inhibitors and settings changes all leave it locked. Locking takes the keyboard and
  the pointer away from every window and ends the window switcher.
\<close>

theorem locked_until_unlock:
  "(idle_step now s s' \<and> i_locked s \<and> \<not> i_locked s' \<longrightarrow> s' = wake_idle now (set_locked now False s))
   \<and> (\<not> i_locked s \<longrightarrow> i_keyboard (set_locked now True s) = None \<and> i_pointer (set_locked now True s) = None
       \<and> wc_selection (i_cycle (set_locked now True s)) = None)"
proof -
  have "s' = wake_idle now (set_locked now False s)" if st: "idle_step now s s'" and l: "i_locked s" "\<not> i_locked s'"
    using st l
    by cases (auto simp: note_activity_def Let_def timer_fires_def idle_tick_def wake_idle_def blank_now_def set_idle_hold_def
        inhibit_def uninhibit_def idle_inhibit_changed_def set_idle_prefs_def cursor_image_def tablet_tool_image_def resize_ring_def
        split: if_splits)
  moreover have "i_keyboard (arm_idle_timer now (idle_changed u)) = i_keyboard u" "i_pointer (arm_idle_timer now (idle_changed u)) = i_pointer u"
    "i_cycle (arm_idle_timer now (idle_changed u)) = i_cycle u" for u
    by (simp_all add: arm_idle_timer_def idle_changed_def Let_def split: option.split)
  ultimately show ?thesis by (auto simp: set_locked_def Let_def wc_finish_selection)
qed

theorem locked_until_unlock_witness:
  "i_locked (set_locked 5 True demo_idle) \<and> i_keyboard (set_locked 5 True demo_idle) = None
   \<and> idle_step 9 (set_locked 5 True demo_idle) (wake_idle 9 (set_locked 5 True demo_idle))
   \<and> i_locked (wake_idle 9 (set_locked 5 True demo_idle))"
proof -
  have "\<not> i_locked (timer_fires (300 * SEC) (idle_start 0 idle_defaults))"
    by (simp add: timer_fires_def idle_tick_def idle_inhibited_def idle_start_def idle_for_def SEC_def due_def idle_defaults_def)
  then have "i_keyboard (set_locked 5 True demo_idle) = None"
    using locked_until_unlock [of 5 demo_idle demo_idle] by (simp add: demo_idle_def)
  moreover have "idle_step 9 (set_locked 5 True demo_idle) (wake_idle 9 (set_locked 5 True demo_idle))" by (rule wake)
  moreover have "i_locked (wake_idle 9 (set_locked 5 True demo_idle))"
    using locked_until_unlock [of 9 "set_locked 5 True demo_idle" "wake_idle 9 (set_locked 5 True demo_idle)"] wake
    by (auto simp: wake_idle_def)
  ultimately show ?thesis by simp
qed

section \<open>Progress\<close>

lemma tick_result:
  fixes now :: nat and s :: idle_state
  assumes "\<not> idle_inhibited s"
  defines "idle \<equiv> (of_nat (idle_for now s div SEC) :: u32)"
  shows "i_prefs (idle_tick now s) = i_prefs s"
    and "i_locked (idle_tick now s) \<longleftrightarrow> i_locked s \<or> due idle (is_lock (i_prefs s))
      \<or> (due idle (is_blank (i_prefs s)) \<and> is_lock_on_blank (i_prefs s))"
    and "i_stage (idle_tick now s) = (if due idle (is_blank (i_prefs s)) then Blank
      else if due idle (is_screensaver (i_prefs s)) \<and> i_stage s = Active then Screensaver else i_stage s)"
  using assms by (auto simp: idle_tick_def Let_def)

lemma due_after:
  assumes "t + unat x * SEC \<le> now" "x \<noteq> 0" "(now - t) div SEC + 1 < 2 ^ 32"
  shows "due (of_nat ((now - t) div SEC)) x"
proof -
  let ?k = "(now - t) div SEC"
  have "unat x * SEC \<le> now - t" using assms(1) by simp
  then have "unat x \<le> ?k" using div_le_mono [of "unat x * SEC" "now - t" SEC] by (simp add: SEC_def)
  moreover have "unat (of_nat ?k + 1 :: u32) = ?k + 1"
  proof -
    have "unat (of_nat (?k + 1) :: u32) = ?k + 1" using assms(3) by (simp only: unat_of_nat len_of_numeral_defs) simp
    then show ?thesis by (simp add: add.commute)
  qed
  ultimately show ?thesis using assms(2) by (simp add: due_def word_le_nat_alt word_gt_0)
qed

lemma reachable_inv: "idle_reachable now s \<Longrightarrow> idle_inv now s"
proof (induction rule: idle_reachable.induct)
  case (start now p)
  then show ?case by (rule idle_start_inv)
next
  case (step now s now' s')
  then show ?case using idle_step_inv by blast
qed

text \<open>
  A timer that fires always moves the session on: at least one of the screensaver, the lock and
  the blanking that were still to come has happened, and none that had happened is undone. So an
  unattended session reaches its last stage after at most three expiries, and the compositor never
  goes round on the timer.
\<close>

theorem timer_makes_progress:
  assumes "idle_reachable past s" "i_timer s = Some d" "d \<le> now" "idle_for now s div SEC + 1 < 2 ^ 32"
  shows "set (stages_ahead (timer_fires now s)) \<subseteq> set (stages_ahead s)
    \<and> length (stages_ahead (timer_fires now s)) < length (stages_ahead s) \<and> length (stages_ahead s) \<le> 3"
proof -
  have "timer_ok past s" using reachable_inv [OF assms(1)] by (simp add: idle_inv_def)
  then obtain t x where t: "i_since s = Some t" and x: "x \<in> set (stages_ahead s)" "t + unat x * SEC \<le> d"
    and ni: "\<not> idle_inhibited s"
    using assms(2) by (auto simp: timer_ok_def list_ex_iff)
  define idle where "idle = (of_nat (idle_for now s div SEC) :: u32)"
  have "x \<noteq> 0" using x(1) by (auto simp: stages_ahead_def split: if_splits)
  then have due: "due idle x"
    using due_after [of t x now] x(2) assms(3,4) t by (simp add: idle_def idle_for_def)
  have "idle_for now (s\<lparr>i_timer := None\<rparr>) = idle_for now s" by (simp add: idle_for_def)
  then have res: "i_prefs (timer_fires now s) = i_prefs s"
    "i_locked (timer_fires now s) \<longleftrightarrow> i_locked s \<or> due idle (is_lock (i_prefs s))
      \<or> (due idle (is_blank (i_prefs s)) \<and> is_lock_on_blank (i_prefs s))"
    "i_stage (timer_fires now s) = (if due idle (is_blank (i_prefs s)) then Blank
      else if due idle (is_screensaver (i_prefs s)) \<and> i_stage s = Active then Screensaver else i_stage s)"
    using tick_result [of "s\<lparr>i_timer := None\<rparr>" now] ni by (simp_all add: timer_fires_def idle_def)
  have "x = is_screensaver (i_prefs s) \<and> i_stage s = Active \<or> x = is_lock (i_prefs s) \<and> \<not> i_locked s
      \<or> x = is_blank (i_prefs s) \<and> i_stage s \<noteq> Blank"
    using x(1) by (auto simp: stages_ahead_def split: if_splits)
  then show ?thesis using due unfolding stages_ahead_def res by (auto simp: due_def)
qed

theorem timer_makes_progress_witness:
  "length (stages_ahead (timer_fires (300 * SEC) (idle_start 0 idle_defaults))) < length (stages_ahead (idle_start 0 idle_defaults))"
proof -
  have timer: "i_timer (idle_start 0 idle_defaults) = Some (300 * SEC)"
    by (simp add: idle_start_def arm_idle_timer_def idle_inhibited_def next_deadline_def stages_ahead_def idle_defaults_def
        idle_for_def SEC_def)
  have "idle_for (300 * SEC) (idle_start 0 idle_defaults) div SEC + 1 < 2 ^ 32"
    by (simp add: idle_for_def idle_start_def SEC_def)
  then show ?thesis using timer_makes_progress [OF idle_reachable.start timer] by simp
qed

text \<open>
  The timeouts are documented as counted from the last input event, but locking restarts the clock:
  with a lock after 600 and blanking after 900 seconds the displays of an unattended session go off
  after 1500.
\<close>

theorem locking_restarts_the_clock:
  "i_timer (timer_fires (600 * SEC) (idle_start 0 (idle_defaults\<lparr>is_screensaver := 0, is_lock := 600\<rparr>))) = Some (1500 * SEC)"
  by (simp add: timer_fires_def idle_tick_def idle_start_def set_locked_def idle_changed_def idle_json_def arm_idle_timer_def
      idle_inhibited_def next_deadline_def stages_ahead_def idle_defaults_def idle_for_def SEC_def due_def)

end
