(* ===== verification/Spec2Isabelle.thy ===== *)
theory Spec2Isabelle
  imports Ringbuf Pipe Policy Agent_Loop Notices Updates Web_Guard Cow Signals Fdtable Paths Tmpfs Input_Dev Procs
    Sched Polling Futex
    Tiling Window_Cycle Idle
begin

text \<open>
  A verification development of MindOS.

  MindOS is a desktop built around a local assistant. Four Rust programs make it up: the assistant
  daemon (src/mindd), the Wayland compositor and window manager (src/mindwm), the desktop shell
  (src/mindshell) and an experimental kernel with a Linux-compatible system call interface
  (src/research/kernel-rs). The development models the parts of the first, second and fourth that
  decide something, and proves what makes them correct.

  \<^bold>\<open>Shared theories.\<close> \<open>Mindos_Prelude\<close> has the machine integers (\<open>u8\<close> to \<open>u64\<close> as words), the kernel's
  \<open>Errno\<close> and \<open>Result\<close> (a sum with the error on the left), the collections of lemmas and the facts on
  circular arrays; \<open>Rust_Str\<close> the string functions of Rust's standard library the sources use;
  \<open>Byte_Fifo\<close> the interface of a bounded byte queue, a locale that both kernel queues interpret.

  \<^bold>\<open>The assistant daemon.\<close>
  \<^item> \<open>Policy\<close> (daemon/policy.rs): \<open>classify_command\<close> sorts a shell command into forbidden, observing
    and changing ones. Shown: forbidden fragments, removal of system paths and downloads into an
    interpreter are refused however they are spelled, and in a command that runs unconfirmed every stage,
    as the code splits it at bars, semicolons and ampersands, is a program of the read-only list. The code
    does not split at newlines; what that hides is shown too.
  \<^item> \<open>Tools\<close> (daemon/tools.rs): the catalogue of tools with \<open>policy_for\<close>, shell quoting, package lists,
    editing of kernel command lines and boot entries. Shown: quoting is inert, edits change what they
    should and nothing else.
  \<^item> \<open>Agent\<close> and \<open>Agent_Loop\<close> (daemon/agent.rs, daemon/llm.rs, daemon/server.rs): the conversation, its
    status block, fitting to the context window, the rounds of a turn, and \<open>run_tool\<close>, the gate in front
    of every tool. The model's answers, the user's requests and the tools are arguments. Shown: no tool
    runs past the gate over a whole turn, with the switch read and the confirmation awaited for each call
    of its own, a turn ends within the round limit (the recursion is on the
    rounds left, so no fuel is needed), and the conversation stays well formed.
  \<^item> \<open>Notices\<close> (daemon/notices.rs, daemon/health.rs): the notice board. The locale \<open>notice_store\<close> is its
    contract; publishing leaves exactly the findings that are not in order.
  \<^item> \<open>Updates\<close> (daemon/updates.rs): the rules and the bounded influence of the model's verdict on
    whether an update is installed unattended.
  \<^item> \<open>Web_Guard\<close> (daemon/web.rs): which addresses and hosts may be fetched, over every redirect. Name
    lookup, URL parsing and curl are arguments.

  \<^bold>\<open>The kernel.\<close>
  \<^item> \<open>Ringbuf\<close> (util/ringbuf.rs) and \<open>Pipe\<close> (fs/pipe.rs, sched/wait.rs): byte queues. Both implement the
    abstract FIFO over every sequence of operations, also when the 64-bit indices wrap; small pipe
    writes are atomic. Sleeping and waking is a result that names how the call resumes.
  \<^item> \<open>Frames\<close> (mm/pmm.rs): the bitmap allocator and the reference counts; the locale \<open>frame_pool\<close> is what
    address spaces rely on. Frames are exclusive and allocation is complete.
  \<^item> \<open>Addrspace\<close> and \<open>Cow\<close> (mm/addrspace.rs, mm/vmm.rs): areas, page tables as the functions they represent,
    page faults, copy-on-write and fork. \<open>mmap\<close>, \<open>munmap\<close> and \<open>mprotect\<close> refine updates of a map from
    pages to rights; a store to private memory changes no other page of any address space. The page
    cache is an argument with a law, shown to hold of a concrete cache.
  \<^item> \<open>Signals\<close> (proc/signal.rs, syscall/signal.rs, sched/mod.rs): sending, delivery, frames, return. The
    delivery loop ends because every round consumes a pending bit. The return to user mode may give up the
    processor in every round; what other tasks do meanwhile and when the scheduler asks again are
    arguments, and a task with SIGKILL pending does not reach user code whatever they are.
    Whether user memory may be written is an argument.
  \<^item> \<open>Procs\<close> (proc/process.rs, proc/fork.rs, proc/exit.rs, syscall/proc.rs): the process table, clone, exit,
    waiting, groups, sessions and controlling terminals, on the signal state of \<open>Signals\<close> and the terminals
    of \<open>Tty\<close>. In every run from boot, for as long as init lives, the processes form a tree in which nobody is lost; a parent learns the
    exit code of a child exactly once; the search for a pid ends.
  \<^item> \<open>Sched\<close> (sched/mod.rs, timer.rs, wait.rs, mutex.rs): the run queue, switching, time slices, sleeps,
    wait queues, the poll table and the sleeping mutex, one step per uninterrupted stretch of code. Nobody who can run is
    lost or starves as long as no wake-up hits the running task, and a mutex has one holder.
  \<^item> \<open>Event_Fd\<close> and \<open>Timer_Fd\<close> (eventfd and timerfd of syscall/poll.rs, syscall/time.rs): counting files. Events
    are conserved, as 64-bit words. Nothing calls the function that would count the expirations of timer
    files, so in the program they never expire, and this is proved; what that function would count is
    proved beside it. The alarms of processes are rung only while some task sleeps on a timer.
  \<^item> \<open>Polling\<close> (syscall/poll.rs): poll, select and epoll over files whose readiness is an argument. The
    answers are exact, the interests refine a map, one-shot interests are reported once. The locale \<open>pollable\<close>
    says that readiness is true of reading, which the counting files interpret. The nesting of event polls is
    asked with a depth bound; three levels show the cycle.
  \<^item> \<open>Futex\<close> (syscall/futex.rs): the waiters of user-space locks. One step each for
    entering, checking and leaving a wait, for waking and for requeueing. Wakes are in order, and over
    every interleaving each wake is received by exactly one waiter.
  \<^item> \<open>Fdtable\<close> (fs/file.rs): descriptors; the locale \<open>descriptor_table\<close> is its contract.
  \<^item> \<open>Paths\<close> (fs/path.rs): resolution through symbolic links and mounts. The depth limit of 40 is the
    recursion argument (41 levels), so resolution is total. The file systems are an argument.
  \<^item> \<open>Vfs\<close> (fs/vfs.rs, transfers of syscall/fs.rs): open files over the interface of an inode. The locale
    \<open>byte_file\<close> states what a regular file promises; reading after writing and seeking is proved in it.
  \<^item> \<open>Tmp_Data\<close> and \<open>Tmpfs\<close> (fs/tmpfs.rs): the in-memory file system on the frames of \<open>Frames\<close>. The pages of
    all files together refine byte arrays; what a directory operation grants, refuses or never finishes is specified from the names alone, and
    what it grants is an update of a map from names to inodes. Every name stays unique and leads to a
    live inode; cycles are not excluded, since the code does not exclude them. Link counts are exact. Its files interpret \<open>byte_file\<close>.
  \<^item> \<open>Tty\<close> (dev/tty.rs): the line discipline, blocking reads and writes, attributes, and the table of
    pseudo-terminals. Input with corrections is read as it was meant, hidden input is not shown, control
    characters signal, reading agrees with polling but for raw reads that never wait, where the difference is
    stated. The locale \<open>byte_sink\<close> is the output device, which the
    queue of a pseudo-terminal interprets. A call that may sleep takes the list of its wake-ups.
  \<^item> \<open>Input_Dev\<close> (dev/ps2.rs, dev/input.rs, dev/evdev.rs): from the bytes of the keyboard and the mouse to
    the events every reader gets, and to the console, where control and C interrupt the foreground
    group.

  \<^bold>\<open>The window manager.\<close>
  \<^item> \<open>Tiling\<close> (layout.rs): rectangles of the dwindle and columns modes, scrolling, neighbours, the order of
    tiles. Fractions are rationals and the rounding product of a length and a fraction is an argument;
    only the visibility of the focused column assumes of it that a part is no longer than the whole.
  \<^item> \<open>Window_Cycle\<close> (window_cycle.rs): the window switcher.
  \<^item> \<open>Idle\<close> (idle.rs, with the requests of ipc.rs and the settings of state.rs): screensaver, lock and
    blanking as a step relation with time. The lock holds until it is opened, the shell is always
    informed, and the timer makes progress.

  \<^bold>\<open>How the parts interact.\<close> The agent's gate consults the policy of the tool and of the command before
  anything runs. Address spaces take and return frames through the allocator and count the sharing a
  fork creates. Pipes and descriptors are what the system calls work on. The in-memory file
  system takes its pages from the frame allocator; waiting for files asks the counting files what reading
  them would do; the keyboard feeds the console's line discipline,
  which signals process groups. Locking the session ends the
  window switcher.

  \<^bold>\<open>Limits.\<close> Locks are taken to be held for the whole operation they protect, so operations are atomic;
  the steps between which a task sleeps are separate. Pixel coordinates are integers and screen
  fractions rationals. User memory in \<open>Signals\<close> is what reading a record at an address gives, not its
  bytes.

  \<^bold>\<open>Not modelled.\<close> The compositor's protocol handlers, rendering and devices (src/mindwm/src/state.rs,
  udev.rs, render.rs, input_handler.rs) are calls into a library that is not part of the repository's
  own code. The desktop shell is a front end on GTK and WebKit. The model server, downloads, sockets
  and probes of the daemon are input and output. Of the kernel, the switch of stacks and registers, start-up and the drivers are assembly
  and access hardware; \<open>exec\<close>, the network and the remaining system calls are not modelled.

  \<^bold>\<open>Gaps in the code.\<close> Where the code does not do what it means to, a theorem says so next to the
  component: commands hidden behind a newline (\<open>Policy\<close>), expansion in a package filter (\<open>Tools\<close>), wrapping
  lengths in \<open>mprotect\<close> and \<open>brk\<close> (\<open>Addrspace\<close>), write access to shared frames (\<open>Cow\<close>), stopped processes that
  survive SIGKILL and the mask of \<open>rt_sigsuspend\<close> (\<open>Signals\<close>), \<open>close_range\<close> (\<open>Fdtable\<close>), stacked mounts (\<open>Paths\<close>),
  failed writes that reappear (\<open>Tmp_Data\<close>), renaming over and into directories and removing a directory from
  itself (\<open>Tmpfs\<close>), the reprint key and
  read timeouts (\<open>Tty\<close>), the pause key, the keyboard's error codes and the grab (\<open>Input_Dev\<close>), forks that fail half-way (\<open>Procs\<close>), wake-ups of the running task and the order of a
  mutex's waiters (\<open>Sched\<close>), one-shot interests, hang-ups in select and event polls in event polls (\<open>Polling\<close>), very
  long timeouts, timer files that never expire and alarms that wait for a sleeper (\<open>Timer_Fd\<close>), signed arguments (\<open>Futex\<close>) and the clock of the lock (\<open>Idle\<close>).
\<close>

end
